(* ===== verification/Prelude.thy ===== *)
theory Prelude imports Main "HOL-Library.Multiset" begin

text \<open>
  Shared vocabulary of the development: the collections its proofs are driven by and the
  generic facts on lists and views that several components use.
\<close>

named_theorems mem_simps "how one memory action changes the components of the memory"
named_theorems view_simps "pointwise reading of views"

section \<open>Views: pointwise maxima of timestamps\<close>

text \<open>
  A view maps coordinates to timestamps.  \<open>point c k\<close> is the view that knows timestamp
  \<open>k\<close> of coordinate \<open>c\<close> and nothing else; joins are the pointwise \<open>sup\<close> of the function
  order.
\<close>

definition point :: "'c \<Rightarrow> nat \<Rightarrow> 'c \<Rightarrow> nat" where
  "point c k = (\<lambda>d. if d = c then k else 0)"

definition blind :: "'c \<Rightarrow> nat" where
  "blind = (\<lambda>_. 0)"

lemma point_at [simp, view_simps]: "point c k d = (if d = c then k else 0)"
  by (simp add: point_def)

lemma blind_at [simp, view_simps]: "blind c = 0"
  by (simp add: blind_def)

lemma sup_nat_max [simp]: "sup m n = max m n" for m n :: nat
  by (simp add: sup_max)

lemma sup_view_at [view_simps]: "(sup V W) c = max (V c) (W c)" for V W :: "'c \<Rightarrow> nat"
  by simp

lemma view_leD: "V \<le> W \<Longrightarrow> V c \<le> W c" for V W :: "'c \<Rightarrow> nat"
  by (rule le_funD)

lemma view_le_mono: "V \<le> W \<Longrightarrow> k \<le> V c \<Longrightarrow> k \<le> W c" for V W :: "'c \<Rightarrow> nat"
  by (meson le_funD le_trans)

section \<open>Lists\<close>

lemma take_Suc_snoc: "i < length xs \<Longrightarrow> take (Suc i) xs = take i xs @ [xs ! i]"
  by (rule take_Suc_conv_app_nth)

lemma last_take_Suc: "i < length xs \<Longrightarrow> last (take (Suc i) xs) = xs ! i"
  by (simp add: take_Suc_conv_app_nth)

lemma nth_prefix: "i < length xs \<Longrightarrow> (xs @ ys) ! i = xs ! i"
  by (simp add: nth_append)

lemma distinct_map_nth_eq:
  "distinct (map f xs) \<Longrightarrow> i < length xs \<Longrightarrow> j < length xs \<Longrightarrow> f (xs ! i) = f (xs ! j) \<Longrightarrow> i = j"
  by (simp add: distinct_conv_nth) (metis length_map nth_map)

end
