(* ===== verification/Memory.thy ===== *)
theory Memory imports Prelude begin

text \<open>
  The part of the C++20 memory model the sources rely on (\<^verbatim>\<open>std::atomic\<close> loads, stores,
  compare-exchanges, exchanges and fetch-adds with their \<^verbatim>\<open>std::memory_order\<close>,
  \<^verbatim>\<open>std::atomic_thread_fence(seq_cst)\<close>, plain reads and writes, \<^verbatim>\<open>new\<close> and
  \<^verbatim>\<open>delete\<close>), as an operational semantics with views.  Every location carries its
  modification order as a list of messages, a message carries the view its writer released, a
  thread carries what it has seen.  A load may return any message that is not older than what
  the thread has seen: stale reads are part of the model.  What the model resolves by the
  scheduler (which message a load returns, whether a weak compare-exchange fails spuriously,
  which address the allocator hands out) is an explicit choice, so every step computes.
  A \<open>seq_cst\<close> access is given acquire/release strength only, which allows more
  behaviours than the standard does.
\<close>

section \<open>Orders, coordinates, messages\<close>

datatype memory_order = relaxed | acquire | release | seq_cst

fun is_acq :: "memory_order \<Rightarrow> bool" where
  "is_acq acquire = True"
| "is_acq seq_cst = True"
| "is_acq relaxed = False"
| "is_acq release = False"

fun is_rel :: "memory_order \<Rightarrow> bool" where
  "is_rel release = True"
| "is_rel seq_cst = True"
| "is_rel relaxed = False"
| "is_rel acquire = False"

text \<open>
  \<open>At l g\<close> is the modification order of location \<open>l\<close> in the \<open>g\<close>-th object that lived
  there; timestamps count from 1, and 0 means that not even the initialisation is known.
  \<open>Clock t\<close> counts the accesses of thread \<open>t\<close>: it is what orders a \<^verbatim>\<open>delete\<close> or a
  plain write after the reads of other threads.
\<close>

datatype 'l coord = At 'l nat | Clock nat

type_synonym 'l view = "'l coord \<Rightarrow> nat"
type_synonym ('l, 'v) msg = "'v \<times> 'l view"

text \<open>What the standard leaves undefined, and the failed assertions of the model suites; the
  integer division by zero is one the benchmark can run into.
  \<open>Unordered_store\<close> is not undefined behaviour: it reports a plain atomic store that could
  land in the middle of the modification order, which this semantics does not enumerate.\<close>

datatype ub = Data_race | Use_after_free | Null_deref | Unordered_store | Assertion_failed | Zero_division

record ('l, 'v) memory =
  hist :: "'l \<Rightarrow> nat \<Rightarrow> ('l, 'v) msg list"
  gen :: "'l \<Rightarrow> nat"
  live :: "'l \<Rightarrow> bool"
  accs :: "'l \<Rightarrow> nat \<Rightarrow> (nat \<times> nat) list"
  cur :: "nat \<Rightarrow> 'l view"
  acq :: "nat \<Rightarrow> 'l view"
  rel :: "nat \<Rightarrow> 'l view"
  scv :: "'l view"

definition place :: "('l, 'v) memory \<Rightarrow> 'l \<Rightarrow> 'l coord" where
  "place M l = At l (gen M l)"

definition msgs :: "('l, 'v) memory \<Rightarrow> 'l \<Rightarrow> ('l, 'v) msg list" where
  "msgs M l = hist M l (gen M l)"

definition seen :: "('l, 'v) memory \<Rightarrow> nat \<Rightarrow> 'l \<Rightarrow> nat" where
  "seen M t l = cur M t (place M l)"

definition latest :: "('l, 'v) memory \<Rightarrow> 'l \<Rightarrow> nat" where
  "latest M l = length (msgs M l)"

section \<open>The building blocks of an access\<close>

definition access :: "('l, 'v) memory \<Rightarrow> nat \<Rightarrow> 'l \<Rightarrow> ub option" where
  "access M t l =
     (if \<not> live M l then Some Use_after_free
      else if seen M t l = 0 then Some Data_race else None)"

definition touch :: "nat \<Rightarrow> 'l \<Rightarrow> ('l, 'v) memory \<Rightarrow> ('l, 'v) memory" where
  "touch t l M =
     (let n = Suc (cur M t (Clock t)) in
      M\<lparr>accs := (accs M)(l := (accs M l)(gen M l := (t, n) # accs M l (gen M l))),
        cur := (cur M)(t := (cur M t)(Clock t := n)),
        acq := (acq M)(t := (acq M t)(Clock t := n))\<rparr>)"

definition see :: "nat \<Rightarrow> 'l view \<Rightarrow> ('l, 'v) memory \<Rightarrow> ('l, 'v) memory" where
  "see t V M =
     M\<lparr>cur := (cur M)(t := sup (cur M t) V), acq := (acq M)(t := sup (acq M t) V)\<rparr>"

definition see_later :: "nat \<Rightarrow> 'l view \<Rightarrow> ('l, 'v) memory \<Rightarrow> ('l, 'v) memory" where
  "see_later t V M = M\<lparr>acq := (acq M)(t := sup (acq M t) V)\<rparr>"

definition push :: "'l \<Rightarrow> 'v \<Rightarrow> 'l view \<Rightarrow> ('l, 'v) memory \<Rightarrow> ('l, 'v) memory" where
  "push l v V M =
     M\<lparr>hist := (hist M)(l := (hist M l)(gen M l := msgs M l @ [(v, V)]))\<rparr>"

text \<open>Reading timestamp \<open>k\<close>: the message's view is acquired now, or kept for a later fence.\<close>

definition read_at :: "nat \<Rightarrow> 'l \<Rightarrow> memory_order \<Rightarrow> nat \<Rightarrow> ('l, 'v) memory \<Rightarrow> ('l, 'v) memory" where
  "read_at t l mo k M =
     (let V = snd (msgs M l ! (k - 1));
          M1 = see t (point (place M l) k) (touch t l M)
      in if is_acq mo then see t V M1 else see_later t V M1)"

definition released :: "nat \<Rightarrow> 'l coord \<Rightarrow> nat \<Rightarrow> memory_order \<Rightarrow> ('l, 'v) memory \<Rightarrow> 'l view" where
  "released t c k mo M = (if is_rel mo then cur M t else sup (rel M t) (point c k))"

definition write_next :: "nat \<Rightarrow> 'l \<Rightarrow> 'v \<Rightarrow> memory_order \<Rightarrow> 'l view \<Rightarrow> ('l, 'v) memory \<Rightarrow> ('l, 'v) memory" where
  "write_next t l v mo W M =
     (let c = place M l; k = Suc (latest M l); M1 = see t (point c k) M
      in push l v (sup W (released t c k mo M1)) M1)"

text \<open>A read-modify-write reads the last message and extends its release sequence.\<close>

definition rmw_at :: "nat \<Rightarrow> 'l \<Rightarrow> 'v \<Rightarrow> memory_order \<Rightarrow> ('l, 'v) memory \<Rightarrow> ('l, 'v) memory" where
  "rmw_at t l v mo M =
     write_next t l v mo (snd (msgs M l ! (latest M l - 1))) (read_at t l mo (latest M l) M)"

definition sc_fence :: "nat \<Rightarrow> ('l, 'v) memory \<Rightarrow> ('l, 'v) memory" where
  "sc_fence t M =
     (let V = sup (acq M t) (scv M) in
      M\<lparr>cur := (cur M)(t := V), acq := (acq M)(t := V), rel := (rel M)(t := V), scv := V\<rparr>)"

text \<open>Every access of another thread must be in the view of a plain write or a \<^verbatim>\<open>delete\<close>.\<close>

definition quiet :: "('l, 'v) memory \<Rightarrow> nat \<Rightarrow> 'l \<Rightarrow> bool" where
  "quiet M t l =
     (latest M l \<le> seen M t l \<and> list_all (\<lambda>(u, n). n \<le> cur M t (Clock u)) (accs M l (gen M l)))"

definition birth :: "nat \<Rightarrow> 'l \<times> 'v \<Rightarrow> ('l, 'v) memory \<Rightarrow> ('l, 'v) memory" where
  "birth t lv M =
     (let l = fst lv; g = Suc (gen M l) in
      see t (point (At l g) 1)
        (M\<lparr>hist := (hist M)(l := (hist M l)(g := [(snd lv, blind)])),
           gen := (gen M)(l := g), live := (live M)(l := True)\<rparr>))"

definition bury :: "'l \<Rightarrow> ('l, 'v) memory \<Rightarrow> ('l, 'v) memory" where
  "bury l M = M\<lparr>live := (live M)(l := False)\<rparr>"

section \<open>Actions and their outcomes\<close>

text \<open>
  \<open>Cas weak l e d smo fmo\<close> is \<^verbatim>\<open>compare_exchange_weak\<close>/\<^verbatim>\<open>_strong\<close> with its
  two orders; \<open>New f\<close> allocates and initialises the fields \<open>f a\<close> at an address \<open>a\<close>
  of the allocator's choice; \<open>Fail\<close> is a step that is undefined whatever the memory holds.
\<close>

datatype ('l, 'v) action =
    Load 'l memory_order
  | Store 'l 'v memory_order
  | Cas bool 'l 'v 'v memory_order memory_order
  | Rmw 'l "'v \<Rightarrow> 'v" memory_order
  | Fence
  | Read 'l
  | Write 'l 'v
  | New "nat \<Rightarrow> ('l \<times> 'v) list"
  | Delete "'l list"
  | Fail ub
  | Skip

datatype 'v result = Val 'v | Swapped bool 'v | Addr nat | Unit

datatype ('l, 'v) outcome = Blocked | Ub ub | Done "'v result" "('l, 'v) memory"

definition guarded :: "('l, 'v) memory \<Rightarrow> nat \<Rightarrow> 'l \<Rightarrow> ('l, 'v) outcome \<Rightarrow> ('l, 'v) outcome" where
  "guarded M t l x = (case access M t l of Some e \<Rightarrow> Ub e | None \<Rightarrow> x)"

definition readable :: "('l, 'v) memory \<Rightarrow> nat \<Rightarrow> 'l \<Rightarrow> nat \<Rightarrow> bool" where
  "readable M t l k = (seen M t l \<le> k \<and> k \<le> latest M l)"

fun do_load :: "nat \<Rightarrow> 'l \<Rightarrow> memory_order \<Rightarrow> nat \<Rightarrow> ('l, 'v) memory \<Rightarrow> ('l, 'v) outcome" where
  "do_load t l mo k M =
     guarded M t l
       (if readable M t l k then Done (Val (fst (msgs M l ! (k - 1)))) (read_at t l mo k M)
        else Blocked)"

fun do_store :: "nat \<Rightarrow> 'l \<Rightarrow> 'v \<Rightarrow> memory_order \<Rightarrow> ('l, 'v) memory \<Rightarrow> ('l, 'v) outcome" where
  "do_store t l v mo M =
     guarded M t l
       (if seen M t l < latest M l then Ub Unordered_store
        else Done Unit (write_next t l v mo blind (touch t l M)))"

fun do_cas :: "nat \<Rightarrow> bool \<Rightarrow> 'l \<Rightarrow> 'v \<Rightarrow> 'v \<Rightarrow> memory_order \<Rightarrow> memory_order \<Rightarrow> nat \<Rightarrow> bool
    \<Rightarrow> ('l, 'v) memory \<Rightarrow> ('l, 'v) outcome" where
  "do_cas t weak l e d smo fmo k wins M =
     guarded M t l
       (let v = fst (msgs M l ! (k - 1)) in
        if \<not> readable M t l k then Blocked
        else if wins then
          (if k = latest M l \<and> v = e then Done (Swapped True v) (rmw_at t l d smo M) else Blocked)
        else
          (if v \<noteq> e \<or> weak then Done (Swapped False v) (read_at t l fmo k M) else Blocked))"

fun do_rmw :: "nat \<Rightarrow> 'l \<Rightarrow> ('v \<Rightarrow> 'v) \<Rightarrow> memory_order \<Rightarrow> ('l, 'v) memory \<Rightarrow> ('l, 'v) outcome" where
  "do_rmw t l f mo M =
     guarded M t l
       (let v = fst (msgs M l ! (latest M l - 1)) in Done (Val v) (rmw_at t l (f v) mo M))"

fun do_read :: "nat \<Rightarrow> 'l \<Rightarrow> ('l, 'v) memory \<Rightarrow> ('l, 'v) outcome" where
  "do_read t l M =
     guarded M t l
       (if seen M t l < latest M l then Ub Data_race
        else Done (Val (fst (msgs M l ! (latest M l - 1)))) (touch t l M))"

fun do_write :: "nat \<Rightarrow> 'l \<Rightarrow> 'v \<Rightarrow> ('l, 'v) memory \<Rightarrow> ('l, 'v) outcome" where
  "do_write t l v M =
     guarded M t l
       (if \<not> quiet M t l then Ub Data_race
        else Done Unit (write_next t l v relaxed blind (touch t l M)))"

fun do_new :: "nat \<Rightarrow> ('l \<times> 'v) list \<Rightarrow> nat \<Rightarrow> ('l, 'v) memory \<Rightarrow> ('l, 'v) outcome" where
  "do_new t fs a M =
     (if list_ex (\<lambda>(l, _). live M l) fs then Blocked
      else Done (Addr a) (fold (birth t) fs M))"

fun do_delete :: "nat \<Rightarrow> 'l list \<Rightarrow> ('l, 'v) memory \<Rightarrow> ('l, 'v) outcome" where
  "do_delete t ls M =
     (if list_ex (\<lambda>l. \<not> live M l) ls then Ub Use_after_free
      else if list_ex (\<lambda>l. \<not> quiet M t l) ls then Ub Data_race
      else Done Unit (fold bury ls M))"

fun mem_step :: "nat \<Rightarrow> ('l, 'v) action \<Rightarrow> nat \<times> bool \<Rightarrow> ('l, 'v) memory \<Rightarrow> ('l, 'v) outcome" where
  "mem_step t (Load l mo) c M = do_load t l mo (fst c) M"
| "mem_step t (Store l v mo) c M = do_store t l v mo M"
| "mem_step t (Cas weak l e d smo fmo) c M = do_cas t weak l e d smo fmo (fst c) (snd c) M"
| "mem_step t (Rmw l f mo) c M = do_rmw t l f mo M"
| "mem_step t Fence c M = Done Unit (sc_fence t M)"
| "mem_step t (Read l) c M = do_read t l M"
| "mem_step t (Write l v) c M = do_write t l v M"
| "mem_step t (New f) c M = do_new t (f (fst c)) (fst c) M"
| "mem_step t (Delete ls) c M = do_delete t ls M"
| "mem_step t (Fail e) c M = Ub e"
| "mem_step t Skip c M = Done Unit M"

declare mem_step.simps(1,2,3,4,6,7,8,9) [simp del]

text \<open>
  Synchronisation the client provides by other means (starting or joining a thread, a mutex, an
  atomic of its own): thread \<open>u\<close> learns what thread \<open>t\<close> knows.
\<close>

definition synchronize :: "nat \<Rightarrow> nat \<Rightarrow> ('l, 'v) memory \<Rightarrow> ('l, 'v) memory" where
  "synchronize t u M = see u (cur M t) M"

section \<open>Setting up\<close>

text \<open>
  Memory before anything is allocated, a fixed sequence of actions by one thread (a constructor, or
  a set-up that runs before the threads start), and the memory as the threads find it that thread
  \<open>t\<close> starts.
\<close>

definition blank :: "('l, 'v) memory" where
  "blank = \<lparr>hist = (\<lambda>_ _. []), gen = (\<lambda>_. 0), live = (\<lambda>_. False), accs = (\<lambda>_ _. []),
            cur = (\<lambda>_. blind), acq = (\<lambda>_. blind), rel = (\<lambda>_. blind), scv = blind\<rparr>"

fun perform :: "nat \<Rightarrow> (('l, 'v) action \<times> nat) list \<Rightarrow> ('l, 'v) memory \<Rightarrow> ('l, 'v) memory option" where
  "perform t [] M = Some M"
| "perform t ((x, k) # xs) M =
     (case mem_step t x (k, True) M of Done r M' \<Rightarrow> perform t xs M' | _ \<Rightarrow> None)"

definition share :: "nat \<Rightarrow> ('l, 'v) memory \<Rightarrow> ('l, 'v) memory" where
  "share t M = M\<lparr>cur := (\<lambda>_. cur M t), acq := (\<lambda>_. cur M t)\<rparr>"

end
