(* ===== verification/Machine.thy ===== *)
theory Machine imports Memory begin

text \<open>
  Threads over the memory of theory Memory.  A program gives, for each local state of a thread,
  the memory action it performs next and the local state it resumes in; \<open>log\<close> lists the
  events a step adds to the trace, which no step ever reads.  A schedule is a list of commands;
  running it decides every interleaving, every stale read and every allocation, and either
  yields a state or the undefined behaviour the program ran into.  A command that is not
  possible in a state (a choice no message answers to, a call to a busy thread) leaves it alone.
  \<open>Sync t u\<close> is synchronisation outside the modelled code, which thread \<open>u\<close> can only do
  between its calls.
\<close>

record ('l, 'v, 'p, 'o, 'e) program =
  act :: "'p \<Rightarrow> ('l, 'v) action"
  resume :: "'p \<Rightarrow> 'v result \<Rightarrow> 'p"
  log :: "nat \<Rightarrow> 'p \<Rightarrow> 'v result \<Rightarrow> ('l, 'v) memory \<Rightarrow> 'e list"
  call :: "nat \<Rightarrow> 'o \<Rightarrow> 'p \<Rightarrow> ('p \<times> 'e list) option"
  idle :: "'p \<Rightarrow> bool"

record ('l, 'v, 'p, 'e) state =
  mem :: "('l, 'v) memory"
  thr :: "nat \<Rightarrow> 'p"
  trace :: "'e list"

datatype 'o command = Step nat nat bool | Invoke nat 'o | Sync nat nat

datatype 's verdict = Running 's | Crashed ub

fun settle :: "('l, 'v, 'p, 'o, 'e) program \<Rightarrow> nat \<Rightarrow> ('l, 'v, 'p, 'e) state
    \<Rightarrow> ('l, 'v) outcome \<Rightarrow> ('l, 'v, 'p, 'e) state verdict" where
  "settle P t s Blocked = Running s"
| "settle P t s (Ub e) = Crashed e"
| "settle P t s (Done r M) =
     Running \<lparr>mem = M, thr = (thr s)(t := resume P (thr s t) r),
              trace = trace s @ log P t (thr s t) r (mem s)\<rparr>"

fun exec :: "('l, 'v, 'p, 'o, 'e) program \<Rightarrow> 'o command \<Rightarrow> ('l, 'v, 'p, 'e) state
    \<Rightarrow> ('l, 'v, 'p, 'e) state verdict" where
  "exec P (Step t k b) s = settle P t s (mem_step t (act P (thr s t)) (k, b) (mem s))"
| "exec P (Invoke t x) s =
     (case call P t x (thr s t) of
        None \<Rightarrow> Running s
      | Some (p, es) \<Rightarrow> Running (s\<lparr>thr := (thr s)(t := p), trace := trace s @ es\<rparr>))"
| "exec P (Sync t u) s =
     Running (if idle P (thr s u) then s\<lparr>mem := synchronize t u (mem s)\<rparr> else s)"

fun run :: "('l, 'v, 'p, 'o, 'e) program \<Rightarrow> 'o command list \<Rightarrow> ('l, 'v, 'p, 'e) state
    \<Rightarrow> ('l, 'v, 'p, 'e) state verdict" where
  "run P [] s = Running s"
| "run P (c # cs) s = (case exec P c s of Running s' \<Rightarrow> run P cs s' | Crashed e \<Rightarrow> Crashed e)"

inductive reach :: "('l, 'v, 'p, 'o, 'e) program \<Rightarrow> ('l, 'v, 'p, 'e) state
    \<Rightarrow> ('l, 'v, 'p, 'e) state \<Rightarrow> bool" for P s0 where
  reach_start: "reach P s0 s0"
| reach_step: "reach P s0 s \<Longrightarrow> exec P c s = Running s' \<Longrightarrow> reach P s0 s'"

lemma run_append:
  "run P (cs @ ds) s = (case run P cs s of Running s' \<Rightarrow> run P ds s' | Crashed e \<Rightarrow> Crashed e)"
  by (induction cs arbitrary: s) (auto split: verdict.splits)

lemma run_reach: "reach P s0 s \<Longrightarrow> run P cs s = Running s' \<Longrightarrow> reach P s0 s'"
proof (induction cs arbitrary: s)
  case Nil
  then show ?case by simp
next
  case (Cons c cs)
  from Cons.prems(2) obtain u where u: "exec P c s = Running u" "run P cs u = Running s'"
    by (auto split: verdict.splits)
  from Cons.prems(1) u(1) have "reach P s0 u" by (rule reach_step)
  then show ?case using u(2) by (rule Cons.IH)
qed

text \<open>What a run shows of thread \<open>t\<close>: its local state and the trace.\<close>

definition observe :: "nat \<Rightarrow> ('l, 'v, 'p, 'e) state verdict \<Rightarrow> ('p \<times> 'e list) option" where
  "observe t v = (case v of Running s \<Rightarrow> Some (thr s t, trace s) | Crashed e \<Rightarrow> None)"

lemma observe_reach:
  assumes "observe t (run P cs s0) = Some (p, tr)"
  obtains s where "reach P s0 s" "thr s t = p" "trace s = tr"
  using assms run_reach [OF reach_start, of P cs s0]
  by (cases "run P cs s0") (auto simp: observe_def)

text \<open>The undefined behaviour a run ends in.\<close>

definition crash_of :: "'s verdict \<Rightarrow> ub option" where
  "crash_of v = (case v of Running s \<Rightarrow> None | Crashed e \<Rightarrow> Some e)"

lemma crash_of_Some: "crash_of v = Some e \<Longrightarrow> v = Crashed e"
  by (simp add: crash_of_def split: verdict.splits)

text \<open>The contract of a safe system: an invariant of its states under which no step crashes.\<close>

locale safe_system =
  fixes P :: "('l, 'v, 'p, 'o, 'e) program"
    and s0 :: "('l, 'v, 'p, 'e) state"
    and I :: "('l, 'v, 'p, 'e) state \<Rightarrow> bool"
  assumes start: "I s0"
    and keeps: "I s \<Longrightarrow> exec P c s = Running s' \<Longrightarrow> I s'"
    and no_crash: "I s \<Longrightarrow> exec P c s \<noteq> Crashed e"
begin

lemma reach_inv: "reach P s0 s \<Longrightarrow> I s"
  by (induction rule: reach.induct) (auto intro: start keeps)

lemma exec_running: "I s \<Longrightarrow> \<exists>s'. exec P c s = Running s' \<and> I s'"
  using no_crash keeps by (cases "exec P c s") blast+

lemma run_from: "I s \<Longrightarrow> \<exists>s'. run P cs s = Running s' \<and> I s'"
proof (induction cs arbitrary: s)
  case Nil
  then show ?case by simp
next
  case (Cons c cs)
  from Cons.prems obtain u where "exec P c s = Running u" "I u"
    using exec_running by blast
  then show ?case using Cons.IH by auto
qed

lemma run_safe: "\<exists>s'. run P cs s0 = Running s' \<and> I s'"
  using run_from start by blast

lemma run_not_crashed: "run P cs s0 \<noteq> Crashed e"
  using run_safe [of cs] by auto

end

end
