(* ===== verification/Ms_Queue.thy ===== *)
theory Ms_Queue imports Machine "HOL-Library.Word" begin

text \<open>
  \<^verbatim>\<open>include/lfq/ms_queue.hpp\<close>: the Michael-Scott queue, one local state per memory access of
  \<^verbatim>\<open>enqueue\<close>, \<^verbatim>\<open>try_dequeue\<close> and \<^verbatim>\<open>empty\<close>, with the memory orders of the
  code.  The \<^verbatim>\<open>Reclaimer\<close> template parameter is a record of functions: the queue starts
  its operations (\<open>rop\<close>) and is resumed at a continuation when they return.
\<close>

section \<open>Locations, values, and the reclaimer seam\<close>

text \<open>Node addresses are numbers and a \<^verbatim>\<open>node*\<close> is an optional address.  \<open>Aux\<close> holds
  the locations a reclaimer needs of its own.\<close>

datatype 'x loc = Head | Tail | Next nat | Value nat | Aux 'x

datatype 'a cell = Ptr "nat option" | Dat 'a | Flag bool | Num "64 word"

fun ptr :: "'a cell \<Rightarrow> nat option" where
  "ptr (Ptr p) = p"
| "ptr (Dat v) = None"
| "ptr (Flag b) = None"
| "ptr (Num n) = None"

fun dat :: "'a cell \<Rightarrow> 'a" where
  "dat (Dat v) = v"

datatype 'x rop =
    Guard
  | Protect nat "'x loc"
  | Publish nat "nat option"
  | Retire "nat option"
  | Unguard

record ('h, 'r, 'x, 'a) reclaimer =
  r_start :: "'x rop \<Rightarrow> 'h \<Rightarrow> 'h \<times> ('r + nat option)"
  r_act :: "'r \<Rightarrow> ('x loc, 'a cell) action"
  r_resume :: "'r \<Rightarrow> 'a cell result \<Rightarrow> 'h \<Rightarrow> 'h \<times> ('r + nat option)"

section \<open>Program points\<close>

datatype 'a op = Enqueue 'a | Try_dequeue | Is_empty

datatype 'a ret = Enqueued | Dequeued "'a option" | Emptiness bool

datatype 'a cont =
    KE_guard nat
  | KE_protect nat
  | KE_leave
  | KD_guard
  | KD_protect
  | KD_set "nat option" "nat option" "nat option"
  | KD_retire 'a
  | KD_leave "'a option"

datatype ('a, 'x, 'r) pc =
    Idle
  | Start "'x rop" "'a cont"
  | Call 'r "'a cont"
  | E_new 'a
  | E_next nat "nat option"
  | E_check nat "nat option" "nat option"
  | E_help nat "nat option" "nat option"
  | E_link nat "nat option"
  | E_swing nat "nat option"
  | D_tail "nat option"
  | D_next "nat option" "nat option"
  | D_check "nat option" "nat option" "nat option"
  | D_help "nat option" "nat option" "nat option"
  | D_value "nat option" "nat option"
  | D_cas "nat option" "nat option" 'a
  | M_head
  | M_next "nat option"
  | Finish "'a ret"

text \<open>The events of a run: calls and returns, and the two compare-exchanges that publish an
  enqueue and a dequeue.\<close>

datatype 'a event =
    Begin nat "'a op"
  | Linked nat nat nat 'a
  | Unlinked nat nat nat 'a
  | Return nat "'a ret"

text \<open>The two orders \<^verbatim>\<open>model/queue_model.hpp\<close> weakens in its negative runs.\<close>

record orders =
  tail_mo :: memory_order
  link_mo :: memory_order

definition shipped :: orders where
  "shipped = \<lparr>tail_mo = acquire, link_mo = release\<rparr>"

section \<open>The operations\<close>

definition deref :: "nat option \<Rightarrow> (nat \<Rightarrow> ('l, 'v) action) \<Rightarrow> ('l, 'v) action" where
  "deref p f = (case p of None \<Rightarrow> Fail Null_deref | Some a \<Rightarrow> f a)"

definition make_node :: "'a \<Rightarrow> nat \<Rightarrow> ('x loc \<times> 'a cell) list" where
  "make_node v a = [(Next a, Ptr None), (Value a, Dat v)]"

fun queue_act :: "orders \<Rightarrow> ('h, 'r, 'x, 'a) reclaimer \<Rightarrow> ('a, 'x, 'r) pc \<Rightarrow> ('x loc, 'a cell) action" where
  "queue_act w R Idle = Skip"
| "queue_act w R (Start x k) = Skip"
| "queue_act w R (Call r k) = r_act R r"
| "queue_act w R (E_new v) = New (make_node v)"
| "queue_act w R (E_next n tail) = deref tail (\<lambda>a. Load (Next a) acquire)"
| "queue_act w R (E_check n tail next) = Load Tail acquire"
| "queue_act w R (E_help n tail next) = Cas True Tail (Ptr tail) (Ptr next) release relaxed"
| "queue_act w R (E_link n tail) =
     deref tail (\<lambda>a. Cas True (Next a) (Ptr None) (Ptr (Some n)) (link_mo w) relaxed)"
| "queue_act w R (E_swing n tail) = Cas False Tail (Ptr tail) (Ptr (Some n)) release relaxed"
| "queue_act w R (D_tail head) = Load Tail (tail_mo w)"
| "queue_act w R (D_next head tail) = deref head (\<lambda>a. Load (Next a) acquire)"
| "queue_act w R (D_check head tail next) = Load Head acquire"
| "queue_act w R (D_help head tail next) = Cas True Tail (Ptr tail) (Ptr next) release relaxed"
| "queue_act w R (D_value head next) = deref next (\<lambda>a. Read (Value a))"
| "queue_act w R (D_cas head next v) = Cas True Head (Ptr head) (Ptr next) release relaxed"
| "queue_act w R M_head = Load Head acquire"
| "queue_act w R (M_next head) = deref head (\<lambda>a. Load (Next a) acquire)"
| "queue_act w R (Finish x) = Skip"

text \<open>Where the queue goes on when a reclaimer operation returns \<open>p\<close>.\<close>

fun continue :: "'a cont \<Rightarrow> nat option \<Rightarrow> ('a, 'x, 'r) pc" where
  "continue (KE_guard n) p = Start (Protect 0 Tail) (KE_protect n)"
| "continue (KE_protect n) p = E_next n p"
| "continue KE_leave p = Finish Enqueued"
| "continue KD_guard p = Start (Protect 0 Head) KD_protect"
| "continue KD_protect p = D_tail p"
| "continue (KD_set head tail next) p = D_check head tail next"
| "continue (KD_retire v) p = Start Unguard (KD_leave (Some v))"
| "continue (KD_leave res) p = Finish (Dequeued res)"

fun enter :: "'a cont \<Rightarrow> 'h \<times> ('r + nat option) \<Rightarrow> ('a, 'x, 'r) pc \<times> 'h" where
  "enter k (h, Inl r) = (Call r k, h)"
| "enter k (h, Inr p) = (continue k p, h)"

abbreviation retry_enqueue :: "nat \<Rightarrow> ('a, 'x, 'r) pc" where
  "retry_enqueue n \<equiv> Start (Protect 0 Tail) (KE_protect n)"

abbreviation retry_dequeue :: "('a, 'x, 'r) pc" where
  "retry_dequeue \<equiv> Start (Protect 0 Head) KD_protect"

fun loaded :: "'a cell result \<Rightarrow> nat option" where
  "loaded (Val c) = ptr c"
| "loaded (Swapped b c) = ptr c"
| "loaded (Addr a) = Some a"
| "loaded Unit = None"

fun won :: "'v result \<Rightarrow> bool" where
  "won (Swapped b c) = b"
| "won (Val c) = False"
| "won (Addr a) = False"
| "won Unit = False"

fun datum :: "'a cell result \<Rightarrow> 'a" where
  "datum (Val c) = dat c"

fun queue_next :: "('a, 'x, 'r) pc \<Rightarrow> 'a cell result \<Rightarrow> ('a, 'x, 'r) pc" where
  "queue_next Idle x = Idle"
| "queue_next (Start y k) x = Start y k"
| "queue_next (Call r k) x = Call r k"
| "queue_next (E_new v) x = Start Guard (KE_guard (the (loaded x)))"
| "queue_next (E_next n tail) x = E_check n tail (loaded x)"
| "queue_next (E_check n tail next) x =
     (if tail \<noteq> loaded x then retry_enqueue n
      else if next \<noteq> None then E_help n tail next else E_link n tail)"
| "queue_next (E_help n tail next) x = retry_enqueue n"
| "queue_next (E_link n tail) x = (if won x then E_swing n tail else retry_enqueue n)"
| "queue_next (E_swing n tail) x = Start Unguard KE_leave"
| "queue_next (D_tail head) x = D_next head (loaded x)"
| "queue_next (D_next head tail) x = Start (Publish 1 (loaded x)) (KD_set head tail (loaded x))"
| "queue_next (D_check head tail next) x =
     (if head \<noteq> loaded x then retry_dequeue
      else if head = tail then
        (if next = None then Start Unguard (KD_leave None) else D_help head tail next)
      else D_value head next)"
| "queue_next (D_help head tail next) x = retry_dequeue"
| "queue_next (D_value head next) x = D_cas head next (datum x)"
| "queue_next (D_cas head next v) x =
     (if won x then Start (Retire head) (KD_retire v) else retry_dequeue)"
| "queue_next M_head x = M_next (loaded x)"
| "queue_next (M_next head) x = Finish (Emptiness (loaded x = None))"
| "queue_next (Finish y) x = Idle"

text \<open>A thread's local state is its program point and what the reclaimer keeps per thread.\<close>

fun queue_resume :: "('h, 'r, 'x, 'a) reclaimer \<Rightarrow> ('a, 'x, 'r) pc \<times> 'h \<Rightarrow> 'a cell result
    \<Rightarrow> ('a, 'x, 'r) pc \<times> 'h" where
  "queue_resume R (Start x k, h) y = enter k (r_start R x h)"
| "queue_resume R (Call r k, h) y = enter k (r_resume R r y h)"
| "queue_resume R (p, h) y = (queue_next p y, h)"

definition value_of :: "('x loc, 'a cell) memory \<Rightarrow> nat \<Rightarrow> 'a" where
  "value_of M n = dat (fst (last (msgs M (Value n))))"

fun queue_note :: "nat \<Rightarrow> ('a, 'x, 'r) pc \<times> 'h \<Rightarrow> 'a cell result \<Rightarrow> ('x loc, 'a cell) memory
    \<Rightarrow> 'a event list" where
  "queue_note t (E_link n tail, h) x M =
     (if won x then [Linked t n (gen M (Next n)) (value_of M n)] else [])"
| "queue_note t (D_cas head next v, h) x M =
     (if won x then [Unlinked t (the next) (gen M (Next (the next))) v] else [])"
| "queue_note t (Finish y, h) x M = [Return t y]"
| "queue_note t (p, h) x M = []"

fun queue_call :: "nat \<Rightarrow> 'a op \<Rightarrow> ('a, 'x, 'r) pc \<times> 'h
    \<Rightarrow> ((('a, 'x, 'r) pc \<times> 'h) \<times> 'a event list) option" where
  "queue_call t (Enqueue v) (Idle, h) = Some ((E_new v, h), [Begin t (Enqueue v)])"
| "queue_call t Try_dequeue (Idle, h) = Some ((Start Guard KD_guard, h), [Begin t Try_dequeue])"
| "queue_call t Is_empty (Idle, h) = Some ((M_head, h), [Begin t Is_empty])"
| "queue_call t x (p, h) = None"

definition ms_queue :: "orders \<Rightarrow> ('h, 'r, 'x, 'a) reclaimer
    \<Rightarrow> ('x loc, 'a cell, ('a, 'x, 'r) pc \<times> 'h, 'a op, 'a event) program" where
  "ms_queue w R =
     \<lparr>act = (\<lambda>p. queue_act w R (fst p)), resume = queue_resume R, log = queue_note,
      call = queue_call, idle = (\<lambda>p. fst p = Idle)\<rparr>"

section \<open>Construction\<close>

text \<open>
  The constructor runs before the queue is shared: the two atomic members start as null, the
  dummy node is allocated with the default value \<open>dflt\<close> at an address \<open>a\<close> of the
  allocator's choice, and both members are set to it.  Every thread that uses the queue is
  started, or handed the queue, after that.
\<close>

definition constructor :: "'a \<Rightarrow> nat \<Rightarrow> (('x loc, 'a cell) action \<times> nat) list" where
  "constructor dflt a =
     [(New (\<lambda>_. [(Head, Ptr None), (Tail, Ptr None)]), 0),
      (New (make_node dflt), a),
      (Store Head (Ptr (Some a)) seq_cst, 0),
      (Store Tail (Ptr (Some a)) seq_cst, 0)]"

definition queue_start :: "'h \<Rightarrow> 'a \<Rightarrow> nat
    \<Rightarrow> ('x loc, 'a cell, ('a, 'x, 'r) pc \<times> 'h, 'a event) state" where
  "queue_start h dflt a =
     \<lparr>mem = share 0 (the (perform 0 (constructor dflt a) blank)), thr = (\<lambda>_. (Idle, h)),
      trace = []\<rparr>"

section \<open>The leaky reclaimer\<close>

text \<open>\<^verbatim>\<open>leaky_reclaimer\<close>: \<^verbatim>\<open>protect\<close> is one acquire load, everything else does
  nothing.\<close>

datatype 'x leaky_pc = L_load "'x loc"

fun leaky_start :: "'x rop \<Rightarrow> unit \<Rightarrow> unit \<times> ('x leaky_pc + nat option)" where
  "leaky_start Guard h = (h, Inr None)"
| "leaky_start (Protect slot src) h = (h, Inl (L_load src))"
| "leaky_start (Publish slot p) h = (h, Inr None)"
| "leaky_start (Retire p) h = (h, Inr None)"
| "leaky_start Unguard h = (h, Inr None)"

definition leaky_reclaimer :: "(unit, 'x leaky_pc, 'x, 'a) reclaimer" where
  "leaky_reclaimer =
     \<lparr>r_start = leaky_start,
      r_act = (\<lambda>r. case r of L_load src \<Rightarrow> Load src acquire),
      r_resume = (\<lambda>r x h. (h, Inr (loaded x)))\<rparr>"

type_synonym 'a leaky_state =
  "(unit loc, 'a cell, ('a, unit, unit leaky_pc) pc \<times> unit, 'a event) state"

definition leaky_queue :: "orders
    \<Rightarrow> (unit loc, 'a cell, ('a, unit, unit leaky_pc) pc \<times> unit, 'a op, 'a event) program" where
  "leaky_queue w = ms_queue w leaky_reclaimer"

definition leaky_start_state :: "'a \<Rightarrow> nat \<Rightarrow> 'a leaky_state" where
  "leaky_start_state dflt a = queue_start () dflt a"

end
