(* ===== verification/Memory_Facts.thy ===== *)
theory Memory_Facts imports Memory begin

text \<open>
  What an access does to each component of the memory, in the form the proofs about programs
  use: which history grows, what the acting thread knows afterwards, what a released message
  carries; and the invariant of the memory itself (no view points past the end of a
  modification order), which every action of every program keeps.
\<close>

section \<open>The building blocks, component by component\<close>

lemma place_gen: "gen M' = gen M \<Longrightarrow> place M' l = place M l"
  by (simp add: place_def)

lemma touch_frame [simp, mem_simps]:
  "hist (touch t l M) = hist M" "gen (touch t l M) = gen M" "live (touch t l M) = live M"
  "rel (touch t l M) = rel M" "scv (touch t l M) = scv M"
  "place (touch t l M) x = place M x" "msgs (touch t l M) x = msgs M x"
  "latest (touch t l M) x = latest M x"
  by (simp_all add: touch_def Let_def place_def msgs_def latest_def)

lemma touch_at [simp, mem_simps]:
  "cur (touch t l M) u (At x g) = cur M u (At x g)"
  "acq (touch t l M) u (At x g) = acq M u (At x g)"
  by (simp_all add: touch_def Let_def)

lemma touch_mono: "cur M u \<le> cur (touch t l M) u"
  by (simp add: touch_def Let_def le_fun_def)

lemma seen_touch [simp, mem_simps]: "seen (touch t l M) u x = seen M u x"
  unfolding seen_def by (simp add: place_def)

lemma see_frame [simp, mem_simps]:
  "hist (see t V M) = hist M" "gen (see t V M) = gen M" "live (see t V M) = live M"
  "accs (see t V M) = accs M" "rel (see t V M) = rel M" "scv (see t V M) = scv M"
  "place (see t V M) x = place M x" "msgs (see t V M) x = msgs M x" "latest (see t V M) x = latest M x"
  by (simp_all add: see_def place_def msgs_def latest_def)

lemma see_cur [simp, mem_simps]: "cur (see t V M) u = (if u = t then sup (cur M t) V else cur M u)"
  by (simp add: see_def)

lemma see_acq [simp, mem_simps]: "acq (see t V M) u = (if u = t then sup (acq M t) V else acq M u)"
  by (simp add: see_def)

lemma see_later_frame [simp, mem_simps]:
  "hist (see_later t V M) = hist M" "gen (see_later t V M) = gen M"
  "live (see_later t V M) = live M" "accs (see_later t V M) = accs M"
  "cur (see_later t V M) = cur M" "rel (see_later t V M) = rel M"
  "scv (see_later t V M) = scv M"
  "place (see_later t V M) x = place M x" "msgs (see_later t V M) x = msgs M x"
  "latest (see_later t V M) x = latest M x"
  by (simp_all add: see_later_def place_def msgs_def latest_def)

lemma see_later_acq [simp, mem_simps]:
  "acq (see_later t V M) u = (if u = t then sup (acq M t) V else acq M u)"
  by (simp add: see_later_def)

lemma push_frame [simp, mem_simps]:
  "gen (push l v V M) = gen M" "live (push l v V M) = live M" "accs (push l v V M) = accs M"
  "cur (push l v V M) = cur M" "acq (push l v V M) = acq M" "rel (push l v V M) = rel M"
  "scv (push l v V M) = scv M" "place (push l v V M) x = place M x"
  by (simp_all add: push_def place_def)

lemma push_hist [mem_simps]:
  "hist (push l v V M) x g = (if x = l \<and> g = gen M l then msgs M l @ [(v, V)] else hist M x g)"
  by (simp add: push_def)

section \<open>Reads\<close>

lemma read_at_frame [simp, mem_simps]:
  "hist (read_at t l mo k M) = hist M" "gen (read_at t l mo k M) = gen M"
  "live (read_at t l mo k M) = live M" "rel (read_at t l mo k M) = rel M"
  "scv (read_at t l mo k M) = scv M"
  "place (read_at t l mo k M) x = place M x" "msgs (read_at t l mo k M) x = msgs M x"
  "latest (read_at t l mo k M) x = latest M x"
  by (simp_all add: read_at_def Let_def)

lemma read_at_mono: "cur M u \<le> cur (read_at t l mo k M) u"
  using touch_mono [of M u t l]
  by (cases "u = t") (auto simp: read_at_def Let_def le_supI1)

lemma read_at_other [simp]: "u \<noteq> t \<Longrightarrow> cur (read_at t l mo k M) u = cur M u"
  by (simp add: read_at_def Let_def) (simp add: touch_def Let_def)

lemma read_at_place: "k \<le> cur (read_at t l mo k M) t (place M l)"
  by (simp add: read_at_def Let_def le_max_iff_disj)

lemma read_at_acquires:
  "is_acq mo \<Longrightarrow> snd (msgs M l ! (k - 1)) \<le> cur (read_at t l mo k M) t"
  by (simp add: read_at_def Let_def le_supI2)

lemma read_at_at:
  "cur (read_at t l mo k M) t (At x g) =
     max (max (cur M t (At x g)) (point (place M l) k (At x g)))
         (if is_acq mo then snd (msgs M l ! (k - 1)) (At x g) else 0)"
  by (simp add: read_at_def Let_def)

section \<open>Writes\<close>

lemma write_next_frame [simp, mem_simps]:
  "gen (write_next t l v mo W M) = gen M" "live (write_next t l v mo W M) = live M"
  "accs (write_next t l v mo W M) = accs M"
  "rel (write_next t l v mo W M) = rel M" "scv (write_next t l v mo W M) = scv M"
  "place (write_next t l v mo W M) x = place M x"
  by (simp_all add: write_next_def Let_def)

lemma write_next_cur [simp, mem_simps]:
  "cur (write_next t l v mo W M) u =
     (if u = t then sup (cur M t) (point (place M l) (Suc (latest M l))) else cur M u)"
  by (simp add: write_next_def Let_def)

definition written :: "nat \<Rightarrow> 'l \<Rightarrow> memory_order \<Rightarrow> 'l view \<Rightarrow> ('l, 'v) memory \<Rightarrow> 'l view" where
  "written t l mo W M =
     sup W (if is_rel mo then sup (cur M t) (point (place M l) (Suc (latest M l)))
            else sup (rel M t) (point (place M l) (Suc (latest M l))))"

lemma write_next_hist [mem_simps]:
  "hist (write_next t l v mo W M) x g =
     (if x = l \<and> g = gen M l then msgs M l @ [(v, written t l mo W M)] else hist M x g)"
  by (simp add: write_next_def Let_def push_hist released_def written_def)

lemma written_releases: "is_rel mo \<Longrightarrow> cur M t \<le> written t l mo W M"
  by (simp add: written_def le_supI1 le_supI2)

lemma written_place: "Suc (latest M l) \<le> written t l mo W M (place M l)"
  by (simp add: written_def le_max_iff_disj)

section \<open>Read-modify-writes\<close>

definition swapped :: "nat \<Rightarrow> 'l \<Rightarrow> memory_order \<Rightarrow> ('l, 'v) memory \<Rightarrow> 'l view" where
  "swapped t l mo M =
     written t l mo (snd (msgs M l ! (latest M l - 1))) (read_at t l mo (latest M l) M)"

lemma rmw_at_frame [simp, mem_simps]:
  "gen (rmw_at t l v mo M) = gen M" "live (rmw_at t l v mo M) = live M"
  "rel (rmw_at t l v mo M) = rel M" "scv (rmw_at t l v mo M) = scv M"
  "place (rmw_at t l v mo M) x = place M x"
  by (simp_all add: rmw_at_def)

lemma rmw_at_hist [mem_simps]:
  "hist (rmw_at t l v mo M) x g =
     (if x = l \<and> g = gen M l then msgs M l @ [(v, swapped t l mo M)] else hist M x g)"
  by (simp add: rmw_at_def write_next_hist swapped_def)

lemma rmw_at_other [simp]: "u \<noteq> t \<Longrightarrow> cur (rmw_at t l v mo M) u = cur M u"
  by (simp add: rmw_at_def)

lemma rmw_at_mono: "cur M u \<le> cur (rmw_at t l v mo M) u"
  using read_at_mono [of M u t l mo "latest M l"]
  by (cases "u = t") (auto simp: rmw_at_def le_supI1)

lemma rmw_at_place: "Suc (latest M l) \<le> cur (rmw_at t l v mo M) t (place M l)"
  by (simp add: rmw_at_def)

lemma rmw_at_at:
  "cur (rmw_at t l v mo M) t (At x g) =
     max (max (cur M t (At x g)) (point (place M l) (Suc (latest M l)) (At x g)))
         (if is_acq mo then snd (msgs M l ! (latest M l - 1)) (At x g) else 0)"
  by (auto simp: rmw_at_def read_at_at max_def)

lemma swapped_releases: "is_rel mo \<Longrightarrow> cur M t \<le> swapped t l mo M"
  unfolding swapped_def
  using read_at_mono [of M t t l mo "latest M l"] by (meson written_releases order.trans)

lemma swapped_place: "Suc (latest M l) \<le> swapped t l mo M (place M l)"
  unfolding swapped_def by (metis read_at_frame(6,8) written_place)

lemma swapped_at:
  "is_rel mo \<Longrightarrow> swapped t l mo M (At x g) =
     max (snd (msgs M l ! (latest M l - 1)) (At x g))
         (max (cur M t (At x g)) (point (place M l) (Suc (latest M l)) (At x g)))"
  by (auto simp: swapped_def written_def read_at_at max_def)

section \<open>Outcomes\<close>

lemma access_None: "access M t l = None \<longleftrightarrow> live M l \<and> 0 < seen M t l"
  by (simp add: access_def)

lemma guarded_Done:
  "guarded M t l x = Done r M' \<longleftrightarrow> live M l \<and> 0 < seen M t l \<and> x = Done r M'"
  by (auto simp: guarded_def access_def split: option.splits)

lemma guarded_Ub:
  "live M l \<Longrightarrow> 0 < seen M t l \<Longrightarrow> guarded M t l x = x"
  by (simp add: guarded_def access_def)

lemma load_Done:
  "mem_step t (Load l mo) c M = Done r M' \<longleftrightarrow>
     (live M l \<and> 0 < seen M t l \<and> seen M t l \<le> fst c \<and> fst c \<le> latest M l \<and>
      r = Val (fst (msgs M l ! (fst c - 1))) \<and> M' = read_at t l mo (fst c) M)"
  by (auto simp: mem_step.simps guarded_Done readable_def)

lemma store_Done:
  "mem_step t (Store l v mo) c M = Done r M' \<longleftrightarrow>
     (live M l \<and> 0 < seen M t l \<and> latest M l \<le> seen M t l \<and> r = Unit \<and>
      M' = write_next t l v mo blind (touch t l M))"
  by (auto simp: mem_step.simps guarded_Done)

lemma cas_Done:
  "mem_step t (Cas weak l e d smo fmo) c M = Done r M' \<longleftrightarrow>
     (live M l \<and> 0 < seen M t l \<and> seen M t l \<le> fst c \<and> fst c \<le> latest M l \<and>
      (let v = fst (msgs M l ! (fst c - 1)) in
       (snd c \<and> fst c = latest M l \<and> v = e \<and> r = Swapped True v \<and> M' = rmw_at t l d smo M) \<or>
       (\<not> snd c \<and> (v \<noteq> e \<or> weak) \<and> r = Swapped False v \<and> M' = read_at t l fmo (fst c) M)))"
  by (auto simp: mem_step.simps guarded_Done readable_def Let_def)

lemma rmw_Done:
  "mem_step t (Rmw l f mo) c M = Done r M' \<longleftrightarrow>
     (live M l \<and> 0 < seen M t l \<and>
      (let v = fst (msgs M l ! (latest M l - 1)) in r = Val v \<and> M' = rmw_at t l (f v) mo M))"
  by (auto simp: mem_step.simps guarded_Done Let_def)

lemma read_Done:
  "mem_step t (Read l) c M = Done r M' \<longleftrightarrow>
     (live M l \<and> 0 < seen M t l \<and> latest M l \<le> seen M t l \<and>
      r = Val (fst (msgs M l ! (latest M l - 1))) \<and> M' = touch t l M)"
  by (auto simp: mem_step.simps guarded_Done)

lemma write_Done:
  "mem_step t (Write l v) c M = Done r M' \<longleftrightarrow>
     (live M l \<and> 0 < seen M t l \<and> quiet M t l \<and> r = Unit \<and>
      M' = write_next t l v relaxed blind (touch t l M))"
  by (auto simp: mem_step.simps guarded_Done)

lemma new_Done:
  "mem_step t (New f) c M = Done r M' \<longleftrightarrow>
     (list_all (\<lambda>(l, _). \<not> live M l) (f (fst c)) \<and> r = Addr (fst c) \<and>
      M' = fold (birth t) (f (fst c)) M)"
  by (auto simp: mem_step.simps list_ex_iff list_all_iff)

lemmas outcome_simps = load_Done store_Done cas_Done rmw_Done read_Done write_Done new_Done

section \<open>No view runs past a modification order\<close>

definition bounded :: "('l, 'v) memory \<Rightarrow> 'l view \<Rightarrow> bool" where
  "bounded M V = (\<forall>l g. V (At l g) \<le> length (hist M l g))"

definition mem_wf :: "('l, 'v) memory \<Rightarrow> bool" where
  "mem_wf M \<longleftrightarrow>
     (\<forall>t. bounded M (cur M t) \<and> bounded M (acq M t) \<and> bounded M (rel M t)) \<and> bounded M (scv M) \<and>
     (\<forall>l g. \<forall>m \<in> set (hist M l g). bounded M (snd m)) \<and>
     (\<forall>l g. gen M l < g \<longrightarrow> hist M l g = [])"

lemma bounded_sup: "bounded M V \<Longrightarrow> bounded M W \<Longrightarrow> bounded M (sup V W)"
  by (simp add: bounded_def)

lemma bounded_blind: "bounded M blind"
  by (simp add: bounded_def)

lemma bounded_point: "k \<le> latest M l \<Longrightarrow> bounded M (point (place M l) k)"
  by (auto simp: bounded_def place_def latest_def msgs_def)

lemma bounded_grow:
  "bounded M V \<Longrightarrow> (\<And>l g. length (hist M l g) \<le> length (hist M' l g)) \<Longrightarrow> bounded M' V"
  unfolding bounded_def using le_trans by blast

lemma bounded_msg:
  assumes "mem_wf M" "0 < k" "k \<le> latest M l"
  shows "bounded M (snd (msgs M l ! (k - 1)))"
proof -
  have "msgs M l ! (k - 1) \<in> set (msgs M l)"
    using assms(2,3) by (intro nth_mem) (simp add: latest_def)
  then show ?thesis using assms(1) unfolding mem_wf_def msgs_def by blast
qed

lemma bounded_cong: "hist M' = hist M \<Longrightarrow> bounded M' V = bounded M V"
  by (simp add: bounded_def)

lemma wf_touch: "mem_wf M \<Longrightarrow> mem_wf (touch t l M)"
proof -
  assume wf: "mem_wf M"
  have "bounded (touch t l M) (cur (touch t l M) u) = bounded M (cur M u)"
    and "bounded (touch t l M) (acq (touch t l M) u) = bounded M (acq M u)" for u
    by (simp_all add: bounded_def)
  moreover have "bounded (touch t l M) V = bounded M V" for V
    by (rule bounded_cong) simp
  ultimately show ?thesis using wf by (auto simp: mem_wf_def)
qed

lemma wf_see: "mem_wf M \<Longrightarrow> bounded M V \<Longrightarrow> mem_wf (see t V M)"
  unfolding mem_wf_def
  by (auto simp: bounded_cong [of "see t V M" M] intro: bounded_sup)

lemma wf_see_later: "mem_wf M \<Longrightarrow> bounded M V \<Longrightarrow> mem_wf (see_later t V M)"
  unfolding mem_wf_def
  by (auto simp: bounded_cong [of "see_later t V M" M] intro: bounded_sup)

lemma wf_read_at:
  assumes "mem_wf M" "0 < k" "k \<le> latest M l"
  shows "mem_wf (read_at t l mo k M)"
proof -
  let ?M1 = "see t (point (place M l) k) (touch t l M)"
  have "mem_wf (touch t l M)" using assms(1) by (rule wf_touch)
  moreover have "bounded (touch t l M) (point (place M l) k)"
    using bounded_point [of k "touch t l M" l] assms(3) by simp
  ultimately have M1: "mem_wf ?M1" by (rule wf_see)
  have "bounded ?M1 (snd (msgs M l ! (k - 1)))"
    using bounded_msg [OF assms] by (simp add: bounded_cong [of ?M1 M])
  with M1 show ?thesis by (auto simp: read_at_def Let_def intro: wf_see wf_see_later)
qed

lemma wf_push:
  assumes "mem_wf M" "\<And>x g. V (At x g) \<le> length (hist M x g) + (if x = l \<and> g = gen M l then 1 else 0)"
  shows "mem_wf (push l v V M)"
proof -
  have len: "length (hist (push l v V M) x g) =
      length (hist M x g) + (if x = l \<and> g = gen M l then 1 else 0)" for x g
    by (simp add: push_hist msgs_def)
  have grow: "bounded M W \<Longrightarrow> bounded (push l v V M) W" for W
    by (erule bounded_grow) (simp add: len)
  have "bounded (push l v V M) V" using assms(2) by (simp add: bounded_def len)
  with assms(1) grow show ?thesis
    by (auto simp: mem_wf_def push_hist msgs_def split: if_splits)
qed

lemma wf_write_next:
  assumes wf: "mem_wf M" and W: "bounded M W"
  shows "mem_wf (write_next t l v mo W M)"
proof -
  let ?M1 = "see t (point (place M l) (Suc (latest M l))) M"
  let ?U = "sup W (released t (place M l) (Suc (latest M l)) mo ?M1)"
  let ?add = "\<lambda>x g. if x = l \<and> g = gen M l then 1 else 0 :: nat"
  have cr: "cur M u (At x g) \<le> length (hist M x g)" "acq M u (At x g) \<le> length (hist M x g)"
      "rel M u (At x g) \<le> length (hist M x g)" for u x g
    using wf by (auto simp: mem_wf_def bounded_def)
  have p: "point (place M l) (Suc (latest M l)) (At x g) \<le> length (hist M x g) + ?add x g" for x g
    by (simp add: place_def latest_def msgs_def)
  have U: "?U (At x g) \<le> length (hist M x g) + ?add x g" for x g
    using W cr [of t x g] p [of x g] by (auto simp: released_def bounded_def le_add1 intro: le_SucI)
  let ?M2 = "push l v ?U ?M1"
  have len: "length (hist ?M2 x g) = length (hist M x g) + ?add x g" for x g
    by (simp add: push_hist msgs_def)
  have grow: "bounded M V \<Longrightarrow> bounded ?M2 V" for V
    by (erule bounded_grow) (simp add: len)
  have c2: "bounded ?M2 (sup (cur M t) (point (place M l) (Suc (latest M l))))"
      "bounded ?M2 (sup (acq M t) (point (place M l) (Suc (latest M l))))" "bounded ?M2 ?U"
    using cr p U by (auto simp: bounded_def len intro: le_SucI)
  have "mem_wf ?M2"
    using wf grow c2 by (auto simp: mem_wf_def push_hist msgs_def split: if_splits)
  then show ?thesis by (simp add: write_next_def Let_def)
qed

lemma wf_rmw_at: "mem_wf M \<Longrightarrow> 0 < latest M l \<Longrightarrow> mem_wf (rmw_at t l v mo M)"
  unfolding rmw_at_def
  by (rule wf_write_next)
    (simp_all add: wf_read_at bounded_cong [of "read_at t l mo (latest M l) M" M] bounded_msg
      del: One_nat_def)

lemma wf_fence: "mem_wf M \<Longrightarrow> mem_wf (sc_fence t M)"
  by (auto simp: mem_wf_def sc_fence_def Let_def bounded_def)

lemma wf_birth:
  assumes wf: "mem_wf M"
  shows "mem_wf (birth t lv M)"
proof -
  let ?l = "fst lv" let ?g = "Suc (gen M ?l)"
  let ?M1 = "M\<lparr>hist := (hist M)(?l := (hist M ?l)(?g := [(snd lv, blind)])),
               gen := (gen M)(?l := ?g), live := (live M)(?l := True)\<rparr>"
  have nil: "hist M ?l ?g = []" using wf by (simp add: mem_wf_def)
  have grow: "bounded M V \<Longrightarrow> bounded ?M1 V" for V
    by (erule bounded_grow) (use nil in auto)
  have "mem_wf ?M1"
    using wf grow bounded_blind [of ?M1] by (auto simp: mem_wf_def split: if_splits)
  moreover have "bounded ?M1 (point (At ?l ?g) 1)" by (auto simp: bounded_def)
  ultimately show ?thesis by (simp add: birth_def Let_def wf_see)
qed

lemma wf_fold_birth: "mem_wf M \<Longrightarrow> mem_wf (fold (birth t) fs M)"
  by (induction fs arbitrary: M) (auto intro: wf_birth)

lemma wf_fold_bury: "mem_wf M \<Longrightarrow> mem_wf (fold bury ls M)"
proof (induction ls arbitrary: M)
  case (Cons l ls)
  from Cons.prems have "mem_wf (bury l M)"
    by (simp add: mem_wf_def bounded_def bury_def)
  then show ?case using Cons.IH by simp
qed simp

lemma seen_le_latest: "mem_wf M \<Longrightarrow> seen M t l \<le> latest M l"
  by (simp add: mem_wf_def bounded_def seen_def latest_def place_def msgs_def)

lemma wf_mem_step: "mem_wf M \<Longrightarrow> mem_step t x c M = Done r M' \<Longrightarrow> mem_wf M'"
proof (cases x)
  case (Cas weak l e d smo fmo)
  assume wf: "mem_wf M" and s: "mem_step t x c M = Done r M'"
  then have "0 < fst c" "fst c \<le> latest M l"
    and "M' = rmw_at t l d smo M \<or> M' = read_at t l fmo (fst c) M"
    by (auto simp: Cas cas_Done Let_def)
  then show ?thesis using wf_rmw_at wf_read_at wf by (metis order.strict_trans2)
next
  case (Rmw l f mo)
  assume wf: "mem_wf M" and s: "mem_step t x c M = Done r M'"
  then have "0 < latest M l" using seen_le_latest [OF wf, of t l] by (auto simp: Rmw rmw_Done)
  then show ?thesis using wf s wf_rmw_at by (auto simp: Rmw rmw_Done Let_def)
next
  case (Delete ls)
  assume "mem_wf M" and "mem_step t x c M = Done r M'"
  then show ?thesis
    by (auto simp: Delete mem_step.simps intro: wf_fold_bury split: if_splits)
qed (auto simp: outcome_simps bounded_blind wf_fence wf_fold_birth
      intro: wf_read_at wf_write_next wf_touch)

lemma wf_synchronize: "mem_wf M \<Longrightarrow> mem_wf (synchronize t u M)"
  unfolding synchronize_def by (rule wf_see) (auto simp: mem_wf_def)

section \<open>What a fence hands over\<close>

text \<open>A thread's view never exceeds what its next fence would give it.\<close>

definition lags :: "('l, 'v) memory \<Rightarrow> bool" where
  "lags M \<longleftrightarrow> (\<forall>t. cur M t \<le> acq M t)"

lemma lags_touch: "lags M \<Longrightarrow> lags (touch t l M)"
  by (auto simp: lags_def touch_def Let_def le_fun_def)

lemma lags_see: "lags M \<Longrightarrow> lags (see t V M)"
proof -
  assume "lags M"
  then have "cur M u \<le> acq M u" for u by (simp add: lags_def)
  then show ?thesis unfolding lags_def by (simp add: sup_mono le_supI1)
qed

lemma lags_see_later: "lags M \<Longrightarrow> lags (see_later t V M)"
proof -
  assume "lags M"
  then have "cur M u \<le> acq M u" for u by (simp add: lags_def)
  then show ?thesis unfolding lags_def by (simp add: le_supI1)
qed

lemma lags_read_at: "lags M \<Longrightarrow> lags (read_at t l mo k M)"
  by (simp add: read_at_def Let_def lags_touch lags_see lags_see_later)

lemma lags_write_next: "lags M \<Longrightarrow> lags (write_next t l v mo W M)"
proof -
  assume "lags M"
  then have "lags (see t (point (place M l) (Suc (latest M l))) M)" by (rule lags_see)
  then show ?thesis by (simp add: write_next_def Let_def lags_def)
qed

lemma lags_rmw_at: "lags M \<Longrightarrow> lags (rmw_at t l v mo M)"
  unfolding rmw_at_def by (intro lags_write_next lags_read_at)

lemma lags_fence: "lags M \<Longrightarrow> lags (sc_fence t M)"
  by (simp add: lags_def sc_fence_def Let_def)

lemma lags_birth: "lags M \<Longrightarrow> lags (birth t lv M)"
  unfolding birth_def Let_def by (rule lags_see) (simp add: lags_def)

lemma lags_fold_birth: "lags M \<Longrightarrow> lags (fold (birth t) fs M)"
  by (induction fs arbitrary: M) (auto intro: lags_birth)

lemma lags_fold_bury: "lags M \<Longrightarrow> lags (fold bury ls M)"
  by (induction ls arbitrary: M) (auto simp: lags_def bury_def)

lemma lags_mem_step: "lags M \<Longrightarrow> mem_step t x c M = Done r M' \<Longrightarrow> lags M'"
  by (cases x)
    (auto simp: outcome_simps mem_step.simps(9) Let_def
      intro: lags_read_at lags_write_next lags_touch lags_rmw_at lags_fence lags_fold_birth lags_fold_bury
      split: if_splits)

lemma lags_synchronize: "lags M \<Longrightarrow> lags (synchronize t u M)"
  unfolding synchronize_def by (rule lags_see)

lemma fence_views:
  "cur (sc_fence t M) u = (if u = t then sup (acq M t) (scv M) else cur M u)"
  "scv (sc_fence t M) = sup (acq M t) (scv M)" "hist (sc_fence t M) = hist M"
  "gen (sc_fence t M) = gen M" "live (sc_fence t M) = live M" "accs (sc_fence t M) = accs M"
  by (simp_all add: sc_fence_def Let_def)

lemma fence_cur: "lags M \<Longrightarrow> cur M u \<le> cur (sc_fence t M) u"
  by (simp add: fence_views lags_def le_supI1)

lemma fence_scv: "scv M \<le> cur (sc_fence t M) t" "scv M \<le> scv (sc_fence t M)"
  by (simp_all add: fence_views)

section \<open>Setting up\<close>

lemma wf_perform: "perform t xs M = Some M' \<Longrightarrow> mem_wf M \<Longrightarrow> mem_wf M'"
  by (induction t xs M rule: perform.induct) (auto split: outcome.splits dest: wf_mem_step)

lemma wf_share: "mem_wf M \<Longrightarrow> mem_wf (share t M)"
  by (auto simp: mem_wf_def share_def bounded_def)

lemma wf_blank: "mem_wf blank"
  by (simp add: mem_wf_def blank_def bounded_def)

lemma lags_perform: "perform t xs M = Some M' \<Longrightarrow> lags M \<Longrightarrow> lags M'"
  by (induction t xs M rule: perform.induct) (auto split: outcome.splits dest: lags_mem_step)

lemma lags_share: "lags (share t M)"
  by (simp add: lags_def share_def)

lemma lags_blank: "lags blank"
  by (simp add: lags_def blank_def)

end
