(* ===== verification/Ms_Queue_Inv.thy ===== *)
theory Ms_Queue_Inv imports Ms_Queue Memory_Facts begin

text \<open>
  The invariant of the Michael-Scott queue with the leaky reclaimer, in three layers: the shape
  of the list in the modification orders of \<^verbatim>\<open>head_\<close>, \<^verbatim>\<open>tail_\<close> and the
  \<^verbatim>\<open>next\<close> fields; what the view of every message publishes (the happens-before chain the
  comments of the code describe); and what each program point may rely on.
\<close>

section \<open>The chain of nodes\<close>

text \<open>A node is an address together with the generation of the object that lives there.\<close>

type_synonym node = "nat \<times> nat"

fun linked_by :: "'a event \<Rightarrow> node list" where
  "linked_by (Linked t a g v) = [(a, g)]"
| "linked_by (Begin t x) = []"
| "linked_by (Unlinked t a g v) = []"
| "linked_by (Return t y) = []"

definition chain :: "nat \<Rightarrow> 'a event list \<Rightarrow> node list" where
  "chain d tr = (d, 1) # concat (map linked_by tr)"

definition nx :: "node \<Rightarrow> 'x loc coord" where
  "nx n = At (Next (fst n)) (snd n)"

definition vl :: "node \<Rightarrow> 'x loc coord" where
  "vl n = At (Value (fst n)) (snd n)"

definition payload :: "('x loc, 'a cell) memory \<Rightarrow> node \<Rightarrow> 'a" where
  "payload M n = dat (fst (last (hist M (Value (fst n)) (snd n))))"

text \<open>A view \<open>knows\<close> the chain up to \<open>j\<close>: every link before \<open>j\<close>, and the construction of
  every node up to \<open>j\<close>.\<close>

definition knows :: "node list \<Rightarrow> nat \<Rightarrow> 'x loc view \<Rightarrow> bool" where
  "knows N j V \<longleftrightarrow>
     (\<forall>i<j. 2 \<le> V (nx (N ! i))) \<and> (\<forall>i\<le>j. 1 \<le> V (nx (N ! i)) \<and> 1 \<le> V (vl (N ! i)))"

text \<open>A view that knows one link knows every earlier one.\<close>

definition closed :: "node list \<Rightarrow> 'x loc view \<Rightarrow> bool" where
  "closed N V \<longleftrightarrow>
     (\<forall>i<length N. 2 \<le> V (nx (N ! i)) \<longrightarrow> (\<forall>j<i. 2 \<le> V (nx (N ! j))))"

definition node_at :: "('x loc, 'a cell) memory \<Rightarrow> node \<Rightarrow> 'a cell list \<Rightarrow> bool" where
  "node_at M n xs \<longleftrightarrow>
     live M (Next (fst n)) \<and> live M (Value (fst n)) \<and>
     gen M (Next (fst n)) = snd n \<and> gen M (Value (fst n)) = snd n \<and>
     map fst (hist M (Next (fst n)) (snd n)) = xs \<and>
     snd (hist M (Next (fst n)) (snd n) ! 0) = blind \<and>
     length (hist M (Value (fst n)) (snd n)) = 1"

definition links :: "node list \<Rightarrow> nat \<Rightarrow> 'a cell list" where
  "links N i =
     (if Suc i < length N then [Ptr None, Ptr (Some (fst (N ! Suc i)))] else [Ptr None])"

definition swings :: "node list \<Rightarrow> nat \<Rightarrow> 'a cell list" where
  "swings N k = Ptr None # map (\<lambda>n. Ptr (Some (fst n))) (take (Suc k) N)"

definition shape :: "('x loc, 'a cell) memory \<Rightarrow> node list \<Rightarrow> nat \<Rightarrow> nat \<Rightarrow> bool" where
  "shape M N h t \<longleftrightarrow>
     h \<le> t \<and> t < length N \<and> length N \<le> t + 2 \<and> distinct (map fst N) \<and>
     live M Head \<and> live M Tail \<and> gen M Head = 1 \<and> gen M Tail = 1 \<and>
     map fst (hist M Head 1) = swings N h \<and> map fst (hist M Tail 1) = swings N t \<and>
     (\<forall>i<length N. node_at M (N ! i) (links N i))"

definition head_view :: "('x loc, 'a cell) memory \<Rightarrow> nat \<Rightarrow> 'x loc view" where
  "head_view M i = snd (hist M Head 1 ! Suc i)"

definition tail_view :: "('x loc, 'a cell) memory \<Rightarrow> nat \<Rightarrow> 'x loc view" where
  "tail_view M j = snd (hist M Tail 1 ! Suc j)"

definition link_view :: "('x loc, 'a cell) memory \<Rightarrow> node \<Rightarrow> 'x loc view" where
  "link_view M n = snd (hist M (Next (fst n)) (snd n) ! 1)"

definition published :: "('x loc, 'a cell) memory \<Rightarrow> node list \<Rightarrow> nat \<Rightarrow> nat \<Rightarrow> bool" where
  "published M N h t \<longleftrightarrow>
     (\<forall>i\<le>h. knows N i (head_view M i) \<and> closed N (head_view M i) \<and>
        (0 < i \<longrightarrow> i + 2 \<le> head_view M i (At Tail 1))) \<and>
     (\<forall>j\<le>t. knows N j (tail_view M j) \<and> closed N (tail_view M j)) \<and>
     (\<forall>i. Suc i < length N \<longrightarrow>
        knows N (Suc i) (link_view M (N ! i)) \<and> closed N (link_view M (N ! i)))"

section \<open>Program points\<close>

fun owned_k :: "'a cont \<Rightarrow> nat option" where
  "owned_k (KE_guard n) = Some n"
| "owned_k (KE_protect n) = Some n"
| "owned_k KE_leave = None"
| "owned_k KD_guard = None"
| "owned_k KD_protect = None"
| "owned_k (KD_set p q r) = None"
| "owned_k (KD_retire v) = None"
| "owned_k (KD_leave y) = None"

text \<open>The node a thread has allocated and not yet linked.\<close>

fun owned :: "('a, 'x, 'r) pc \<Rightarrow> nat option" where
  "owned (Start x k) = owned_k k"
| "owned (Call r k) = owned_k k"
| "owned (E_next n p) = Some n"
| "owned (E_check n p q) = Some n"
| "owned (E_help n p q) = Some n"
| "owned (E_link n p) = Some n"
| "owned _ = None"

definition unshared :: "('x loc, 'a cell) memory \<Rightarrow> node list \<Rightarrow> 'x loc view \<Rightarrow> nat \<Rightarrow> bool" where
  "unshared M N V n \<longleftrightarrow>
     n \<notin> fst ` set N \<and> node_at M (n, gen M (Next n)) [Ptr None] \<and>
     1 \<le> V (nx (n, gen M (Next n))) \<and> 1 \<le> V (vl (n, gen M (Next n)))"

definition nth_node :: "node list \<Rightarrow> nat option \<Rightarrow> nat \<Rightarrow> bool" where
  "nth_node N p j \<longleftrightarrow> j < length N \<and> p = Some (fst (N ! j))"

definition tail_at :: "node list \<Rightarrow> 'x loc view \<Rightarrow> nat option \<Rightarrow> nat \<Rightarrow> bool" where
  "tail_at N V p j \<longleftrightarrow> nth_node N p j \<and> knows N j V \<and> j + 2 \<le> V (At Tail 1)"

definition head_at :: "('x loc, 'a cell) memory \<Rightarrow> node list \<Rightarrow> 'x loc view \<Rightarrow> nat option \<Rightarrow> nat \<Rightarrow> bool" where
  "head_at M N V p i \<longleftrightarrow>
     nth_node N p i \<and> knows N i V \<and> i + 2 \<le> V (At Head 1) \<and> i + 2 \<le> V (At Tail 1) \<and> head_view M i \<le> V"

definition link_at :: "node list \<Rightarrow> 'x loc view \<Rightarrow> nat option \<Rightarrow> nat option \<Rightarrow> bool" where
  "link_at N V p q \<longleftrightarrow> (\<exists>j. nth_node N p j \<and> nth_node N q (Suc j) \<and> knows N (Suc j) V)"

text \<open>Nothing the view knows is still in the queue: what an empty answer stands for.\<close>

definition drained :: "('x loc, 'a cell) memory \<Rightarrow> node list \<Rightarrow> 'x loc view \<Rightarrow> bool" where
  "drained M N V \<longleftrightarrow>
     (\<exists>i<length N. i + 2 \<le> length (hist M Head 1) \<and> V (nx (N ! i)) < 2)"

definition snapshot :: "('x loc, 'a cell) memory \<Rightarrow> node list \<Rightarrow> 'x loc view
    \<Rightarrow> nat option \<Rightarrow> nat option \<Rightarrow> nat option \<Rightarrow> bool" where
  "snapshot M N V head tail next \<longleftrightarrow>
     (\<exists>i j. head_at M N V head i \<and> tail_at N V tail j \<and> i \<le> j \<and>
        (if next = None then i = j \<and> V (nx (N ! i)) < 2
         else nth_node N next (Suc i) \<and> knows N (Suc i) V))"

fun start_ok :: "('x loc, 'a cell) memory \<Rightarrow> node list \<Rightarrow> 'x loc view \<Rightarrow> 'x rop \<Rightarrow> 'a cont \<Rightarrow> bool" where
  "start_ok M N V x (KE_guard n) \<longleftrightarrow> x = Guard"
| "start_ok M N V x (KE_protect n) \<longleftrightarrow> x = Protect 0 Tail"
| "start_ok M N V x KE_leave \<longleftrightarrow> x = Unguard"
| "start_ok M N V x KD_guard \<longleftrightarrow> x = Guard"
| "start_ok M N V x KD_protect \<longleftrightarrow> x = Protect 0 Head"
| "start_ok M N V x (KD_set head tail next) \<longleftrightarrow>
     x = Publish 1 next \<and> snapshot M N V head tail next"
| "start_ok M N V x (KD_retire v) \<longleftrightarrow> (\<exists>p. x = Retire p)"
| "start_ok M N V x (KD_leave y) \<longleftrightarrow> x = Unguard \<and> (y = None \<longrightarrow> drained M N V)"

fun call_ok :: "'x leaky_pc \<Rightarrow> 'a cont \<Rightarrow> bool" where
  "call_ok r (KE_protect n) \<longleftrightarrow> r = L_load Tail"
| "call_ok r KD_protect \<longleftrightarrow> r = L_load Head"
| "call_ok r _ \<longleftrightarrow> False"

fun pc_ok :: "('x loc, 'a cell) memory \<Rightarrow> node list \<Rightarrow> 'x loc view \<Rightarrow> ('a, 'x, 'x leaky_pc) pc \<Rightarrow> bool" where
  "pc_ok M N V Idle \<longleftrightarrow> True"
| "pc_ok M N V (Start x k) \<longleftrightarrow> start_ok M N V x k"
| "pc_ok M N V (Call r k) \<longleftrightarrow> call_ok r k"
| "pc_ok M N V (E_new v) \<longleftrightarrow> True"
| "pc_ok M N V (E_next n tail) \<longleftrightarrow> (\<exists>j. tail_at N V tail j)"
| "pc_ok M N V (E_check n tail next) \<longleftrightarrow>
     (\<exists>j. tail_at N V tail j \<and> (next \<noteq> None \<longrightarrow> nth_node N next (Suc j) \<and> knows N (Suc j) V))"
| "pc_ok M N V (E_help n tail next) \<longleftrightarrow>
     link_at N V tail next"
| "pc_ok M N V (E_link n tail) \<longleftrightarrow> (\<exists>j. tail_at N V tail j)"
| "pc_ok M N V (E_swing n tail) \<longleftrightarrow>
     link_at N V tail (Some n)"
| "pc_ok M N V (D_tail head) \<longleftrightarrow> (\<exists>i. head_at M N V head i)"
| "pc_ok M N V (D_next head tail) \<longleftrightarrow>
     (\<exists>i j. head_at M N V head i \<and> tail_at N V tail j \<and> i \<le> j)"
| "pc_ok M N V (D_check head tail next) \<longleftrightarrow> snapshot M N V head tail next"
| "pc_ok M N V (D_help head tail next) \<longleftrightarrow>
     link_at N V tail next"
| "pc_ok M N V (D_value head next) \<longleftrightarrow>
     (\<exists>i. nth_node N head i \<and> nth_node N next (Suc i) \<and> knows N (Suc i) V \<and> i + 3 \<le> V (At Tail 1))"
| "pc_ok M N V (D_cas head next v) \<longleftrightarrow>
     (\<exists>i. nth_node N head i \<and> nth_node N next (Suc i) \<and> knows N (Suc i) V \<and> i + 3 \<le> V (At Tail 1) \<and>
          v = payload M (N ! Suc i))"
| "pc_ok M N V M_head \<longleftrightarrow> True"
| "pc_ok M N V (M_next head) \<longleftrightarrow> (\<exists>i. nth_node N head i \<and> knows N i V \<and> i + 2 \<le> V (At Head 1))"
| "pc_ok M N V (Finish y) \<longleftrightarrow> (y = Dequeued None \<or> y = Emptiness True \<longrightarrow> drained M N V)"

section \<open>What a trace says about a thread, and about the queue\<close>

datatype 'a status = Ready | Enqueuing 'a | Linked_in | Dequeuing | Taken 'a | Asking

fun status_step :: "nat \<Rightarrow> 'a event \<Rightarrow> 'a status option \<Rightarrow> 'a status option" where
  "status_step t (Begin u (Enqueue v)) st =
     (if u \<noteq> t then st else if st = Some Ready then Some (Enqueuing v) else None)"
| "status_step t (Begin u Try_dequeue) st =
     (if u \<noteq> t then st else if st = Some Ready then Some Dequeuing else None)"
| "status_step t (Begin u Is_empty) st =
     (if u \<noteq> t then st else if st = Some Ready then Some Asking else None)"
| "status_step t (Linked u a g v) st =
     (if u \<noteq> t then st else if st = Some (Enqueuing v) then Some Linked_in else None)"
| "status_step t (Unlinked u a g v) st =
     (if u \<noteq> t then st else if st = Some Dequeuing then Some (Taken v) else None)"
| "status_step t (Return u Enqueued) st =
     (if u \<noteq> t then st else if st = Some Linked_in then Some Ready else None)"
| "status_step t (Return u (Dequeued None)) st =
     (if u \<noteq> t then st else if st = Some Dequeuing then Some Ready else None)"
| "status_step t (Return u (Dequeued (Some v))) st =
     (if u \<noteq> t then st else if st = Some (Taken v) then Some Ready else None)"
| "status_step t (Return u (Emptiness b)) st =
     (if u \<noteq> t then st else if st = Some Asking then Some Ready else None)"

definition status :: "nat \<Rightarrow> 'a event list \<Rightarrow> 'a status option" where
  "status t tr = fold (status_step t) tr (Some Ready)"

fun status_k :: "(nat \<Rightarrow> 'a) \<Rightarrow> 'a cont \<Rightarrow> 'a status" where
  "status_k f (KE_guard n) = Enqueuing (f n)"
| "status_k f (KE_protect n) = Enqueuing (f n)"
| "status_k f KE_leave = Linked_in"
| "status_k f KD_guard = Dequeuing"
| "status_k f KD_protect = Dequeuing"
| "status_k f (KD_set p q r) = Dequeuing"
| "status_k f (KD_retire v) = Taken v"
| "status_k f (KD_leave None) = Dequeuing"
| "status_k f (KD_leave (Some v)) = Taken v"

text \<open>The status a thread at a program point must have in the trace; \<open>f\<close> gives the value of
  the node it owns.\<close>

fun status_of :: "(nat \<Rightarrow> 'a) \<Rightarrow> ('a, 'x, 'r) pc \<Rightarrow> 'a status" where
  "status_of f Idle = Ready"
| "status_of f (Start x k) = status_k f k"
| "status_of f (Call r k) = status_k f k"
| "status_of f (E_new v) = Enqueuing v"
| "status_of f (E_next n p) = Enqueuing (f n)"
| "status_of f (E_check n p q) = Enqueuing (f n)"
| "status_of f (E_help n p q) = Enqueuing (f n)"
| "status_of f (E_link n p) = Enqueuing (f n)"
| "status_of f (E_swing n p) = Linked_in"
| "status_of f (D_tail p) = Dequeuing"
| "status_of f (D_next p q) = Dequeuing"
| "status_of f (D_check p q r) = Dequeuing"
| "status_of f (D_help p q r) = Dequeuing"
| "status_of f (D_value p q) = Dequeuing"
| "status_of f (D_cas p q v) = Dequeuing"
| "status_of f M_head = Asking"
| "status_of f (M_next p) = Asking"
| "status_of f (Finish Enqueued) = Linked_in"
| "status_of f (Finish (Dequeued None)) = Dequeuing"
| "status_of f (Finish (Dequeued (Some v))) = Taken v"
| "status_of f (Finish (Emptiness b)) = Asking"

text \<open>The abstract queue driven by the two publication events: an enqueue adds its node and value
  at the back, and a dequeue must take the node and the value at the front.\<close>

fun replay :: "'a event list \<Rightarrow> (node \<times> 'a) list \<Rightarrow> (node \<times> 'a) list option" where
  "replay [] q = Some q"
| "replay (Linked t a g v # tr) q = replay tr (q @ [((a, g), v)])"
| "replay (Unlinked t a g v # tr) q =
     (case q of [] \<Rightarrow> None | x # xs \<Rightarrow> if x = ((a, g), v) then replay tr xs else None)"
| "replay (Begin t x # tr) q = replay tr q"
| "replay (Return t y # tr) q = replay tr q"

section \<open>The invariant\<close>

definition paired :: "('x loc, 'a cell) memory \<Rightarrow> bool" where
  "paired M \<longleftrightarrow> (\<forall>a. gen M (Next a) = gen M (Value a) \<and> live M (Next a) = live M (Value a))"

definition thread_ok :: "('x loc, 'a cell) memory \<Rightarrow> node list \<Rightarrow> 'x loc view
    \<Rightarrow> ('a, 'x, 'x leaky_pc) pc \<Rightarrow> bool" where
  "thread_ok M N V p \<longleftrightarrow>
     pc_ok M N V p \<and> 2 \<le> V (At Head 1) \<and> 2 \<le> V (At Tail 1) \<and> closed N V \<and>
     (\<forall>n. owned p = Some n \<longrightarrow> unshared M N V n)"

definition core :: "('x loc, 'a cell) memory \<Rightarrow> node list \<Rightarrow> nat \<Rightarrow> nat \<Rightarrow> bool" where
  "core M N h t \<longleftrightarrow> mem_wf M \<and> paired M \<and> shape M N h t \<and> published M N h t"

definition contents :: "('x loc, 'a cell) memory \<Rightarrow> node list \<Rightarrow> nat
    \<Rightarrow> (node \<times> 'a) list" where
  "contents M N h = map (\<lambda>n. (n, payload M n)) (drop (Suc h) N)"

definition queue_inv :: "nat \<Rightarrow> 'a leaky_state \<Rightarrow> bool" where
  "queue_inv d s \<longleftrightarrow>
     (let M = mem s; N = chain d (trace s) in
      (\<exists>h t. core M N h t \<and> replay (trace s) [] = Some (contents M N h)) \<and>
      (\<forall>u. thread_ok M N (cur M u) (fst (thr s u)) \<and>
           status u (trace s) = Some (status_of (value_of M) (fst (thr s u)))) \<and>
      (\<forall>u v n. owned (fst (thr s u)) = Some n \<and> owned (fst (thr s v)) = Some n \<longrightarrow> u = v))"

end
