(* ===== verification/Ms_Queue_Frame.thy ===== *)
theory Ms_Queue_Frame imports Ms_Queue_Inv begin

text \<open>
  How the invariant of the queue survives steps of other threads: monotonicity of what a view
  knows, what a load of each location can return, and the frame lemmas for threads.
\<close>

section \<open>Views and the chain\<close>

lemma knows_mono: "knows N j V \<Longrightarrow> V \<le> W \<Longrightarrow> knows N j W"
  unfolding knows_def using view_le_mono [of V W] by blast

lemma knows_less: "knows N j V \<Longrightarrow> i \<le> j \<Longrightarrow> knows N i V"
  unfolding knows_def by auto

lemma knows_append [simp]: "j < length N \<Longrightarrow> knows (N @ X) j V = knows N j V"
  unfolding knows_def by (auto simp: nth_append)

lemma knows_Suc:
  "knows N j V \<Longrightarrow> 2 \<le> V (nx (N ! j)) \<Longrightarrow> 1 \<le> V (nx (N ! Suc j)) \<Longrightarrow> 1 \<le> V (vl (N ! Suc j))
    \<Longrightarrow> knows N (Suc j) V"
  unfolding knows_def by (auto simp: less_Suc_eq le_Suc_eq)

lemma knows_at:
  "hist M' = hist M \<Longrightarrow> (\<And>l g. V (At l g) = W (At l g)) \<Longrightarrow> knows N j V = knows N j W"
  unfolding knows_def nx_def vl_def by simp

lemma closed_via:
  assumes "closed N U" "closed N V" "U \<le> W" "V \<le> W"
    and "\<And>i. i < length N \<Longrightarrow> 2 \<le> W (nx (N ! i)) \<Longrightarrow>
           2 \<le> U (nx (N ! i)) \<or> 2 \<le> V (nx (N ! i)) \<or> knows N i W"
  shows "closed N W"
  unfolding closed_def
proof (intro allI impI)
  fix i j assume "i < length N" "2 \<le> W (nx (N ! i))" "j < i"
  then have "2 \<le> U (nx (N ! j)) \<or> 2 \<le> V (nx (N ! j)) \<or> 2 \<le> W (nx (N ! j))"
    using assms(1,2) assms(5) [of i] unfolding closed_def knows_def by blast
  then show "2 \<le> W (nx (N ! j))"
    using view_leD [OF assms(3), of "nx (N ! j)"] view_leD [OF assms(4), of "nx (N ! j)"] by linarith
qed

lemma closed_blind: "closed N blind"
  by (simp add: closed_def)

lemma closed_append:
  assumes "closed N V" "\<And>n. n \<in> set X \<Longrightarrow> V (nx n) < 2"
  shows "closed (N @ X) V"
  unfolding closed_def
proof (intro allI impI)
  fix i j assume i: "i < length (N @ X)" "2 \<le> V (nx ((N @ X) ! i))" and "j < i"
  then have "i < length N"
    using assms(2) by (metis leD length_append nat_add_left_cancel_less nth_append nth_mem
        not_le_imp_less le_add_diff_inverse)
  then show "2 \<le> V (nx ((N @ X) ! j))"
    using assms(1) i \<open>j < i\<close> unfolding closed_def by (auto simp: nth_append)
qed

lemma chain_append: "chain d (tr @ es) = chain d tr @ concat (map linked_by es)"
  by (simp add: chain_def)

lemma nth_node_append: "nth_node N p j \<Longrightarrow> nth_node (N @ X) p j"
  by (simp add: nth_node_def nth_append)

lemma nth_node_unique:
  "distinct (map fst N) \<Longrightarrow> nth_node N p i \<Longrightarrow> nth_node N p j \<Longrightarrow> i = j"
  unfolding nth_node_def using distinct_map_nth_eq [of fst N i j] by auto

lemma nth_node_less: "nth_node N p j \<Longrightarrow> j < length N"
  by (simp add: nth_node_def)

section \<open>What a load can return\<close>

lemma length_swings: "k < length N \<Longrightarrow> length (swings N k) = k + 2"
  by (simp add: swings_def)

lemma swings_nth: "j \<le> k \<Longrightarrow> k < length N \<Longrightarrow> swings N k ! Suc j = Ptr (Some (fst (N ! j)))"
  by (simp add: swings_def)

lemma swings_Suc:
  "Suc k < length N \<Longrightarrow> swings N (Suc k) = swings N k @ [Ptr (Some (fst (N ! Suc k)))]"
  by (simp add: swings_def take_Suc_conv_app_nth)

lemma swings_append: "k < length N \<Longrightarrow> swings (N @ X) k = swings N k"
  by (simp add: swings_def)

lemma core_shape: "core M N h t \<Longrightarrow> shape M N h t"
  and core_published: "core M N h t \<Longrightarrow> published M N h t"
  and core_wf: "core M N h t \<Longrightarrow> mem_wf M"
  by (simp_all add: core_def)

lemma tail_hist:
  assumes "core M N h t"
  shows "map fst (msgs M Tail) = swings N t" "latest M Tail = t + 2" "place M Tail = At Tail 1"
proof -
  have sh: "shape M N h t" using assms by (rule core_shape)
  show a: "map fst (msgs M Tail) = swings N t"
    using sh by (simp add: shape_def msgs_def)
  then show "latest M Tail = t + 2"
    using sh length_swings [of t N] unfolding latest_def shape_def by (metis length_map)
  show "place M Tail = At Tail 1" using sh by (simp add: shape_def place_def)
qed

lemma head_hist:
  assumes "core M N h t"
  shows "map fst (msgs M Head) = swings N h" "latest M Head = h + 2" "place M Head = At Head 1"
proof -
  have sh: "shape M N h t" using assms by (rule core_shape)
  show a: "map fst (msgs M Head) = swings N h"
    using sh by (simp add: shape_def msgs_def)
  then show "latest M Head = h + 2"
    using sh length_swings [of h N] unfolding latest_def shape_def
    by (metis length_map order.strict_trans1)
  show "place M Head = At Head 1" using sh by (simp add: shape_def place_def)
qed

lemma swing_msg:
  assumes "map fst xs = swings N k" "k < length N" "2 \<le> j" "j \<le> k + 2"
  obtains i where "j = i + 2" "i \<le> k" "fst (xs ! (j - 1)) = Ptr (Some (fst (N ! i)))"
proof -
  from assms(3) obtain i where i: "j = i + 2" by (metis add.commute le_Suc_ex)
  have "length xs = k + 2" using assms(1,2) length_swings by (metis length_map)
  then have "Suc i < length xs" using assms(4) i by simp
  then have "fst (xs ! (j - 1)) = map fst xs ! Suc i" using i by simp
  also have "\<dots> = Ptr (Some (fst (N ! i)))" using assms i by (simp add: swings_nth)
  finally show thesis using that i assms(4) by simp
qed

lemma tail_msg:
  assumes "core M N h t" "2 \<le> k" "k \<le> latest M Tail"
  obtains j where "k = j + 2" "j \<le> t" "fst (msgs M Tail ! (k - 1)) = Ptr (Some (fst (N ! j)))"
    "snd (msgs M Tail ! (k - 1)) = tail_view M j" "j < length N"
proof -
  have sh: "shape M N h t" using assms(1) by (rule core_shape)
  then have t: "t < length N" by (simp add: shape_def)
  obtain j where j: "k = j + 2" "j \<le> t" "fst (msgs M Tail ! (k - 1)) = Ptr (Some (fst (N ! j)))"
    using swing_msg [OF tail_hist(1) [OF assms(1)] t assms(2)] assms(3) tail_hist(2) [OF assms(1)]
    by metis
  moreover have "snd (msgs M Tail ! (k - 1)) = tail_view M j"
    using sh j(1) by (simp add: tail_view_def msgs_def shape_def)
  ultimately show thesis using that t by simp
qed

lemma head_msg:
  assumes "core M N h t" "2 \<le> k" "k \<le> latest M Head"
  obtains i where "k = i + 2" "i \<le> h" "fst (msgs M Head ! (k - 1)) = Ptr (Some (fst (N ! i)))"
    "snd (msgs M Head ! (k - 1)) = head_view M i" "i < length N"
proof -
  have sh: "shape M N h t" using assms(1) by (rule core_shape)
  then have h: "h < length N" by (simp add: shape_def)
  obtain i where i: "k = i + 2" "i \<le> h" "fst (msgs M Head ! (k - 1)) = Ptr (Some (fst (N ! i)))"
    using swing_msg [OF head_hist(1) [OF assms(1)] h assms(2)] assms(3) head_hist(2) [OF assms(1)]
    by metis
  moreover have "snd (msgs M Head ! (k - 1)) = head_view M i"
    using sh i(1) by (simp add: head_view_def msgs_def shape_def)
  ultimately show thesis using that h by simp
qed

lemma node_in_shape: "core M N h t \<Longrightarrow> i < length N \<Longrightarrow> node_at M (N ! i) (links N i)"
  by (simp add: core_def shape_def)

lemma next_place: "core M N h t \<Longrightarrow> i < length N \<Longrightarrow> place M (Next (fst (N ! i))) = nx (N ! i)"
  using node_in_shape [of M N h t i] by (simp add: node_at_def place_def nx_def)

lemma value_place: "core M N h t \<Longrightarrow> i < length N \<Longrightarrow> place M (Value (fst (N ! i))) = vl (N ! i)"
  using node_in_shape [of M N h t i] by (simp add: node_at_def place_def vl_def)

lemma next_msgs: "core M N h t \<Longrightarrow> i < length N \<Longrightarrow> map fst (msgs M (Next (fst (N ! i)))) = links N i"
  using node_in_shape [of M N h t i] by (simp add: node_at_def msgs_def)

lemma next_latest:
  assumes "core M N h t" "i < length N"
  shows "latest M (Next (fst (N ! i))) = (if Suc i < length N then 2 else 1)"
proof -
  have "length (map fst (msgs M (Next (fst (N ! i))))) = (if Suc i < length N then 2 else 1)"
    unfolding next_msgs [OF assms] by (simp add: links_def)
  then show ?thesis by (simp add: latest_def)
qed

lemma next_msg:
  assumes "core M N h t" "i < length N" "1 \<le> k" "k \<le> latest M (Next (fst (N ! i)))"
  shows "(k = 1 \<and> fst (msgs M (Next (fst (N ! i))) ! (k - 1)) = Ptr None \<and>
            snd (msgs M (Next (fst (N ! i))) ! (k - 1)) = blind) \<or>
         (k = 2 \<and> Suc i < length N \<and>
            fst (msgs M (Next (fst (N ! i))) ! (k - 1)) = Ptr (Some (fst (N ! Suc i))) \<and>
            snd (msgs M (Next (fst (N ! i))) ! (k - 1)) = link_view M (N ! i))"
proof -
  let ?ms = "msgs M (Next (fst (N ! i)))"
  have ms: "?ms = hist M (Next (fst (N ! i))) (snd (N ! i))" and blind: "snd (?ms ! 0) = blind"
    using node_in_shape [OF assms(1,2)] by (auto simp: node_at_def msgs_def)
  have nth: "k - 1 < length ?ms" using assms(3,4) by (simp add: latest_def)
  then have v: "fst (?ms ! (k - 1)) = links N i ! (k - 1)"
    using next_msgs [OF assms(1,2)] by (metis nth_map)
  have "k = 1 \<or> (k = 2 \<and> Suc i < length N)"
    using assms next_latest [OF assms(1,2)] by (auto split: if_splits)
  then show ?thesis
    using v blind ms by (auto simp: links_def link_view_def)
qed

lemma head_published:
  "core M N h t \<Longrightarrow> i \<le> h \<Longrightarrow> knows N i (head_view M i)"
  "core M N h t \<Longrightarrow> i \<le> h \<Longrightarrow> closed N (head_view M i)"
  "core M N h t \<Longrightarrow> i \<le> h \<Longrightarrow> 0 < i \<Longrightarrow> i + 2 \<le> head_view M i (At Tail 1)"
  by (simp_all add: core_def published_def)

lemma tail_published:
  "core M N h t \<Longrightarrow> j \<le> t \<Longrightarrow> knows N j (tail_view M j)"
  "core M N h t \<Longrightarrow> j \<le> t \<Longrightarrow> closed N (tail_view M j)"
  by (simp_all add: core_def published_def)

lemma link_published:
  "core M N h t \<Longrightarrow> Suc i < length N \<Longrightarrow> knows N (Suc i) (link_view M (N ! i))"
  "core M N h t \<Longrightarrow> Suc i < length N \<Longrightarrow> closed N (link_view M (N ! i))"
  by (simp_all add: core_def published_def)

lemma cur_bounded: "core M N h t \<Longrightarrow> bounded M (cur M u)"
  by (simp add: core_def mem_wf_def)

lemma tail_bound:
  assumes "core M N h t" "j + 2 \<le> cur M u (At Tail 1)"
  shows "j \<le> t"
proof -
  have "length (hist M Tail 1) = t + 2"
    using tail_hist(2) [OF assms(1)] core_shape [OF assms(1)]
    by (simp add: latest_def msgs_def shape_def)
  then show ?thesis using assms(2) cur_bounded [OF assms(1), of u] unfolding bounded_def
    by (metis add_le_cancel_right order.trans)
qed

lemma head_bound:
  assumes "core M N h t" "i + 2 \<le> cur M u (At Head 1)"
  shows "i \<le> h"
proof -
  have "length (hist M Head 1) = h + 2"
    using head_hist(2) [OF assms(1)] core_shape [OF assms(1)]
    by (simp add: latest_def msgs_def shape_def)
  then show ?thesis using assms(2) cur_bounded [OF assms(1), of u] unfolding bounded_def
    by (metis add_le_cancel_right order.trans)
qed

section \<open>Frame lemmas for threads\<close>

lemma tail_at_append: "tail_at N V p j \<Longrightarrow> tail_at (N @ X) V p j"
  unfolding tail_at_def by (auto simp: nth_node_append nth_node_less)

lemma head_at_append:
  assumes "head_at M N V p i" "bounded M V"
    and "\<And>i. i + 2 \<le> length (hist M Head 1) \<Longrightarrow> head_view M' i = head_view M i"
  shows "head_at M' (N @ X) V p i"
proof -
  have "V (At Head 1) \<le> length (hist M Head 1)" using assms(2) by (simp add: bounded_def)
  then show ?thesis
    using assms(1) assms(3) [of i] nth_node_append [of N p i X] nth_node_less [of N p i]
    by (auto simp: head_at_def)
qed

lemma snapshot_append:
  assumes "snapshot M N V head tail next" "bounded M V"
    and "\<And>i. i + 2 \<le> length (hist M Head 1) \<Longrightarrow> head_view M' i = head_view M i"
  shows "snapshot M' (N @ X) V head tail next"
proof -
  obtain i j where ij: "head_at M N V head i" "tail_at N V tail j" "i \<le> j"
    "if next = None then i = j \<and> V (nx (N ! i)) < 2 else nth_node N next (Suc i) \<and> knows N (Suc i) V"
    using assms(1) by (auto simp: snapshot_def)
  have "i < length N" using ij(1) by (auto simp: head_at_def dest: nth_node_less)
  moreover have "head_at M' (N @ X) V head i" "tail_at (N @ X) V tail j"
    using ij(1,2) assms(2,3) by (auto intro: head_at_append tail_at_append)
  ultimately show ?thesis
    using ij(3,4) unfolding snapshot_def
    by (intro exI [of _ i] exI [of _ j]) (auto simp: nth_append nth_node_append nth_node_less)
qed

lemma drained_append:
  assumes "drained M N V" "length (hist M Head 1) \<le> length (hist M' Head 1)"
  shows "drained M' (N @ X) V"
proof -
  obtain i where "i < length N" "i + 2 \<le> length (hist M Head 1)" "V (nx (N ! i)) < 2"
    using assms(1) by (auto simp: drained_def)
  then show ?thesis using assms(2) unfolding drained_def
    by (intro exI [of _ i]) (auto simp: nth_append)
qed

lemma nodes_append:
  "nth_node N p j \<and> nth_node N q (Suc j) \<and> knows N (Suc j) V \<Longrightarrow>
   nth_node (N @ X) p j \<and> nth_node (N @ X) q (Suc j) \<and> knows (N @ X) (Suc j) V"
  by (auto simp: nth_node_append nth_node_less)

lemma link_at_append: "link_at N V p q \<Longrightarrow> link_at (N @ X) V p q"
  unfolding link_at_def using nodes_append by blast

lemma pc_ok_append:
  assumes ok: "pc_ok M N V p" and bd: "bounded M V"
    and hv: "\<And>i. i + 2 \<le> length (hist M Head 1) \<Longrightarrow> head_view M' i = head_view M i"
    and hl: "length (hist M Head 1) \<le> length (hist M' Head 1)"
    and pl: "\<And>n. n \<in> set N \<Longrightarrow> payload M' n = payload M n"
  shows "pc_ok M' (N @ X) V p"
proof (cases p)
  case (Start x k)
  then show ?thesis using ok
    by (cases k) (auto intro: snapshot_append [OF _ bd hv] drained_append [OF _ hl])
next
  case (E_next n tail)
  then show ?thesis using ok by (auto intro: tail_at_append)
next
  case (E_check n tail q)
  then obtain j where j: "tail_at N V tail j"
    "q \<noteq> None \<Longrightarrow> nth_node N q (Suc j) \<and> knows N (Suc j) V"
    using ok by auto
  then have "q \<noteq> None \<Longrightarrow> nth_node (N @ X) q (Suc j) \<and> knows (N @ X) (Suc j) V"
    by (auto simp: nth_node_append nth_node_less)
  then show ?thesis using E_check tail_at_append [OF j(1), of X] by auto
next
  case (E_help n tail q)
  then show ?thesis using ok by (auto intro: link_at_append)
next
  case (E_link n tail)
  then show ?thesis using ok by (auto intro: tail_at_append)
next
  case (E_swing n tail)
  then show ?thesis using ok by (auto intro: link_at_append)
next
  case (D_tail head)
  then show ?thesis using ok by (auto intro: head_at_append [OF _ bd hv])
next
  case (D_next head tail)
  then show ?thesis using ok by (auto intro: head_at_append [OF _ bd hv] tail_at_append)
next
  case (D_check head tail q)
  then show ?thesis using ok by (auto intro: snapshot_append [OF _ bd hv])
next
  case (D_help head tail q)
  then show ?thesis using ok by (auto intro: link_at_append)
next
  case (D_value head q)
  then obtain i where "nth_node N head i \<and> nth_node N q (Suc i) \<and> knows N (Suc i) V"
    "i + 3 \<le> V (At Tail 1)"
    using ok by auto
  then show ?thesis using D_value nodes_append [of N head i q V X] by auto
next
  case (D_cas head q v)
  then obtain i where i: "nth_node N head i \<and> nth_node N q (Suc i) \<and> knows N (Suc i) V"
    "i + 3 \<le> V (At Tail 1)" "v = payload M (N ! Suc i)"
    using ok by auto
  then have "Suc i < length N" by (auto dest: nth_node_less)
  then have "v = payload M' ((N @ X) ! Suc i)" using i(3) pl by (simp add: nth_append)
  then show ?thesis using D_cas i nodes_append [OF i(1), of X] by auto
next
  case (M_next head)
  then obtain i where i: "nth_node N head i" "knows N i V" "i + 2 \<le> V (At Head 1)" using ok by auto
  then have "nth_node (N @ X) head i \<and> knows (N @ X) i V \<and> i + 2 \<le> V (At Head 1)"
    by (auto simp: nth_node_append dest: nth_node_less)
  then show ?thesis using M_next by auto
next
  case (Finish y)
  then show ?thesis using ok by (auto intro: drained_append [OF _ hl])
qed (use ok in auto)

lemma hist_cong:
  assumes "hist M' = hist M"
  shows "head_view M' = head_view M" "tail_view M' = tail_view M" "link_view M' = link_view M"
    "payload M' = payload M" "head_at M' = head_at M" "snapshot M' = snapshot M"
    "drained M' = drained M"
proof -
  show hv: "head_view M' = head_view M" by (rule ext) (simp add: head_view_def assms)
  show "tail_view M' = tail_view M" by (rule ext) (simp add: tail_view_def assms)
  show "link_view M' = link_view M" by (rule ext) (simp add: link_view_def assms)
  show "payload M' = payload M" by (rule ext) (simp add: payload_def assms)
  show ha: "head_at M' = head_at M" by (intro ext) (simp add: head_at_def hv)
  show "snapshot M' = snapshot M" by (intro ext) (simp add: snapshot_def ha)
  show "drained M' = drained M" by (intro ext) (simp add: drained_def assms)
qed

lemma start_ok_cong:
  assumes "hist M' = hist M"
  shows "start_ok M' N V x k = start_ok M N V x k"
  by (cases k) (simp_all add: hist_cong [OF assms])

lemma pc_ok_cong:
  assumes "hist M' = hist M"
  shows "pc_ok M' N V p = pc_ok M N V p"
  by (cases p) (simp_all add: hist_cong [OF assms] start_ok_cong [OF assms])

lemma unshared_cong:
  "unshared M N V n \<Longrightarrow> hist M' = hist M \<Longrightarrow> gen M' = gen M \<Longrightarrow> live M' = live M \<Longrightarrow> V \<le> W
    \<Longrightarrow> unshared M' N W n"
  unfolding unshared_def node_at_def using view_le_mono [of V W] by auto

lemma status_of_cong:
  "(\<And>n. owned p = Some n \<Longrightarrow> f n = g n) \<Longrightarrow> status_of f p = status_of g p"
proof -
  assume eq: "\<And>n. owned p = Some n \<Longrightarrow> f n = g n"
  have k: "status_k f k = status_k g k" if "\<And>n. owned_k k = Some n \<Longrightarrow> f n = g n" for k :: "'a cont"
    using that by (cases "(f, k)" rule: status_k.cases) auto
  show ?thesis using eq k by (cases "(f, p)" rule: status_of.cases) auto
qed

lemma status_append: "status t (tr @ es) = fold (status_step t) es (status t tr)"
  by (simp add: status_def)

lemma replay_append:
  "replay (tr @ es) q = (case replay tr q of None \<Rightarrow> None | Some q' \<Rightarrow> replay es q')"
  by (induction tr q rule: replay.induct) (auto split: list.splits)

section \<open>Installing a step\<close>

definition quiet_note :: "nat \<Rightarrow> 'a event list \<Rightarrow> bool" where
  "quiet_note u es \<longleftrightarrow> es = [] \<or> (\<exists>x. es = [Begin u x]) \<or> (\<exists>y. es = [Return u y])"

definition own_note :: "nat \<Rightarrow> 'a event list \<Rightarrow> bool" where
  "own_note u es \<longleftrightarrow> quiet_note u es \<or> (\<exists>a g v. es = [Linked u a g v]) \<or> (\<exists>a g v. es = [Unlinked u a g v])"

lemma own_note_other: "own_note u es \<Longrightarrow> v \<noteq> u \<Longrightarrow> fold (status_step v) es st = st"
  unfolding own_note_def quiet_note_def
proof (elim disjE exE)
  fix x assume "v \<noteq> u" "es = [Begin u x]"
  then show ?thesis by (cases x) auto
next
  fix y assume ne: "v \<noteq> u" and es: "es = [Return u y]"
  show ?thesis
  proof (cases y)
    case (Dequeued z)
    then show ?thesis using ne es by (cases z) auto
  qed (use ne es in auto)
qed auto

lemma quiet_note_chain: "quiet_note u es \<Longrightarrow> concat (map linked_by es) = []"
  by (auto simp: quiet_note_def)

lemma quiet_note_replay: "quiet_note u es \<Longrightarrow> replay es q = Some q"
  by (auto simp: quiet_note_def)

text \<open>Other threads keep what they rely on when histories grow at the end, the chain grows at the
  end, and the nodes they own are left alone.\<close>

lemma thread_ok_frame:
  assumes ok: "thread_ok M N V p" and bd: "bounded M V"
    and hv: "\<And>i. i + 2 \<le> length (hist M Head 1) \<Longrightarrow> head_view M' i = head_view M i"
    and hl: "length (hist M Head 1) \<le> length (hist M' Head 1)"
    and pl: "\<And>n. n \<in> set N \<Longrightarrow> payload M' n = payload M n"
    and new: "\<And>n. n \<in> set X \<Longrightarrow> V (nx n) < 2"
    and own: "\<And>n. owned p = Some n \<Longrightarrow> unshared M N V n \<Longrightarrow> unshared M' (N @ X) V n"
  shows "thread_ok M' (N @ X) V p"
proof -
  have "pc_ok M' (N @ X) V p"
    using ok by (intro pc_ok_append [OF _ bd hv hl pl]) (simp_all add: thread_ok_def)
  moreover have "closed (N @ X) V"
    using ok new by (intro closed_append) (simp_all add: thread_ok_def)
  ultimately show ?thesis using ok own by (auto simp: thread_ok_def)
qed

text \<open>The one way the invariant is re-established after a step of thread \<open>u\<close>.\<close>

lemma queue_inv_install:
  assumes inv: "queue_inv d s" and nt: "own_note u es"
    and core: "core M' (chain d (trace s @ es)) h' t'"
    and rep: "replay (trace s @ es) [] = Some (contents M' (chain d (trace s @ es)) h')"
    and self: "thread_ok M' (chain d (trace s @ es)) (cur M' u) p'"
      "status u (trace s @ es) = Some (status_of (value_of M') p')"
    and cur: "\<And>v. v \<noteq> u \<Longrightarrow> cur M' v = cur (mem s) v"
    and others: "\<And>v. v \<noteq> u \<Longrightarrow> thread_ok (mem s) (chain d (trace s)) (cur (mem s) v) (fst (thr s v))
       \<Longrightarrow> thread_ok M' (chain d (trace s @ es)) (cur (mem s) v) (fst (thr s v))"
    and vals: "\<And>v n. v \<noteq> u \<Longrightarrow> owned (fst (thr s v)) = Some n \<Longrightarrow>
       value_of M' n = value_of (mem s) n"
    and excl: "\<And>v n. owned p' = Some n \<Longrightarrow> v \<noteq> u \<Longrightarrow> owned (fst (thr s v)) \<noteq> Some n"
  shows "queue_inv d \<lparr>mem = M', thr = (thr s)(u := (p', l)), trace = trace s @ es\<rparr>"
proof -
  let ?N = "chain d (trace s @ es)"
  have old: "thread_ok (mem s) (chain d (trace s)) (cur (mem s) v) (fst (thr s v))"
    "status v (trace s) = Some (status_of (value_of (mem s)) (fst (thr s v)))"
    "owned (fst (thr s v)) = Some n \<Longrightarrow> owned (fst (thr s w)) = Some n \<Longrightarrow> v = w" for v w n
    using inv by (auto simp: queue_inv_def Let_def)
  have st: "status v (trace s @ es) = Some (status_of (value_of M') (fst (thr s v)))" if "v \<noteq> u" for v
  proof -
    have "status v (trace s @ es) = status v (trace s)"
      using own_note_other [OF nt that] by (simp add: status_append)
    also have "\<dots> = Some (status_of (value_of M') (fst (thr s v)))"
      using old(2) [of v] status_of_cong [of "fst (thr s v)" "value_of M'" "value_of (mem s)"]
        vals [OF that] by simp
    finally show ?thesis .
  qed
  have th: "thread_ok M' ?N (cur M' v) (fst (thr s v))" if "v \<noteq> u" for v
    using others [OF that old(1)] cur [OF that] by simp
  have ex: "v = w" if "owned (fst (((thr s)(u := (p', l))) v)) = Some n"
      "owned (fst (((thr s)(u := (p', l))) w)) = Some n" for v w n
    using that old(3) [of v n w] excl [of n v] excl [of n w] by (auto split: if_splits)
  let ?s' = "\<lparr>mem = M', thr = (thr s)(u := (p', l)), trace = trace s @ es\<rparr>"
  have "thread_ok M' ?N (cur M' v) (fst (thr ?s' v)) \<and>
      status v (trace s @ es) = Some (status_of (value_of M') (fst (thr ?s' v)))" for v
    using self st [of v] th [of v] by (cases "v = u") simp_all
  moreover have "owned (fst (thr ?s' v)) = Some n \<and> owned (fst (thr ?s' w)) = Some n \<longrightarrow> v = w"
    for v w n
    using ex [of v n w] by simp
  moreover have "\<exists>h t. core M' ?N h t \<and> replay (trace s @ es) [] = Some (contents M' ?N h)"
    using core rep by blast
  ultimately show ?thesis unfolding queue_inv_def Let_def state.simps by blast
qed

text \<open>A step that only reads and looks: no history changes.\<close>

lemma queue_inv_look:
  assumes inv: "queue_inv d s" and nt: "quiet_note u es"
    and M': "hist M' = hist (mem s)" "gen M' = gen (mem s)" "live M' = live (mem s)" "mem_wf M'"
    and cur: "\<And>v. v \<noteq> u \<Longrightarrow> cur M' v = cur (mem s) v" "cur (mem s) u \<le> cur M' u"
    and closed: "closed (chain d (trace s)) (cur M' u)"
    and pc: "pc_ok M' (chain d (trace s)) (cur M' u) p'"
    and owned: "owned p' = owned (fst (thr s u)) \<or> owned p' = None"
    and st: "status u (trace s @ es) = Some (status_of (value_of (mem s)) p')"
  shows "queue_inv d \<lparr>mem = M', thr = (thr s)(u := (p', l)), trace = trace s @ es\<rparr>"
proof -
  let ?N = "chain d (trace s)"
  have N: "chain d (trace s @ es) = ?N"
    using quiet_note_chain [OF nt] by (simp add: chain_append)
  obtain h t where ht: "core (mem s) ?N h t" "replay (trace s) [] = Some (contents (mem s) ?N h)"
    using inv by (auto simp: queue_inv_def Let_def)
  have old: "thread_ok (mem s) ?N (cur (mem s) v) (fst (thr s v))"
    "owned (fst (thr s v)) = Some n \<Longrightarrow> owned (fst (thr s w)) = Some n \<Longrightarrow> v = w" for v w n
    using inv by (auto simp: queue_inv_def Let_def)
  have "shape M' ?N h t" "published M' ?N h t" "paired M'"
    using ht(1) M' unfolding core_def shape_def published_def paired_def node_at_def
    by (simp_all add: hist_cong [OF M'(1)])
  then have core: "core M' ?N h t" using M'(4) by (simp add: core_def)
  have rep: "replay (trace s @ es) [] = Some (contents M' ?N h)"
    using ht(2) quiet_note_replay [OF nt] by (simp add: replay_append contents_def hist_cong [OF M'(1)])
  have val: "value_of M' = value_of (mem s)"
    by (rule ext) (simp add: value_of_def msgs_def M')
  have base: "2 \<le> cur M' u (At Head 1)" "2 \<le> cur M' u (At Tail 1)"
    using old(1) [of u] view_le_mono [OF cur(2)] by (auto simp: thread_ok_def)
  have self: "thread_ok M' ?N (cur M' u) p'"
    using pc closed base owned old(1) [of u] unshared_cong [OF _ M'(1-3) cur(2)]
    by (auto simp: thread_ok_def)
  have others: "thread_ok M' ?N V p" if "thread_ok (mem s) ?N V p" for V p
    using that pc_ok_cong [OF M'(1)] unshared_cong [OF _ M'(1-3) order.refl]
    by (auto simp: thread_ok_def)
  show ?thesis
  proof (rule queue_inv_install [OF inv])
    show "own_note u es" using nt by (simp add: own_note_def)
    show "owned p' = Some n \<Longrightarrow> v \<noteq> u \<Longrightarrow> owned (fst (thr s v)) \<noteq> Some n" for v n
      using owned old(2) [of u n v] by auto
  qed (use N core rep self st others cur val in auto)
qed

end
