(* ===== verification/Ms_Queue_Loads.thy ===== *)
theory Ms_Queue_Loads imports Ms_Queue_Frame begin

text \<open>
  What the loads and failed compare-exchanges of the queue tell the thread that performs them,
  and what the three successful compare-exchanges do to the list: swinging
  \<^verbatim>\<open>tail_\<close>, swinging \<^verbatim>\<open>head_\<close>, and linking a node.
\<close>

section \<open>Looking\<close>

definition looks :: "nat \<Rightarrow> ('x loc, 'a cell) memory \<Rightarrow> ('x loc, 'a cell) memory \<Rightarrow> bool" where
  "looks u M M' \<longleftrightarrow>
     hist M' = hist M \<and> gen M' = gen M \<and> live M' = live M \<and> mem_wf M' \<and>
     (\<forall>v. v \<noteq> u \<longrightarrow> cur M' v = cur M v) \<and> cur M u \<le> cur M' u"

lemma looks_refl: "mem_wf M \<Longrightarrow> looks u M M"
  by (simp add: looks_def)

lemma looks_read_at:
  "mem_wf M \<Longrightarrow> 0 < k \<Longrightarrow> k \<le> latest M l \<Longrightarrow> looks u M (read_at u l mo k M)"
  by (simp add: looks_def read_at_mono wf_read_at)

lemma looks_touch: "mem_wf M \<Longrightarrow> looks u M (touch u l M)"
  by (simp add: looks_def wf_touch touch_mono) (simp add: touch_def Let_def)

lemma nx_neq [simp]: "nx n \<noteq> At Tail g" "nx n \<noteq> At Head g" "At Tail g \<noteq> nx n" "At Head g \<noteq> nx n"
  by (simp_all add: nx_def)

lemma vl_neq [simp]: "vl n \<noteq> At Tail g" "vl n \<noteq> At Head g" "vl n \<noteq> nx m" "nx m \<noteq> vl n"
  by (simp_all add: vl_def nx_def)

lemma closed_read_at:
  assumes "closed N (cur M u)"
    and "is_acq mo \<Longrightarrow> closed N (snd (msgs M l ! (k - 1)))"
    and "\<And>i. i < length N \<Longrightarrow> place M l = nx (N ! i) \<Longrightarrow> k < 2 \<or> knows N i (cur (read_at u l mo k M) u)"
  shows "closed N (cur (read_at u l mo k M) u)"
proof -
  let ?W = "if is_acq mo then snd (msgs M l ! (k - 1)) else blind"
  show ?thesis
  proof (rule closed_via [of N "cur M u" ?W])
    show "closed N ?W" using assms(2) by (simp add: closed_blind)
    show "cur M u \<le> cur (read_at u l mo k M) u" by (rule read_at_mono)
    show "?W \<le> cur (read_at u l mo k M) u"
      using read_at_acquires [of mo M l k u] by (auto simp: le_fun_def)
  next
    fix i assume i: "i < length N" and two: "2 \<le> cur (read_at u l mo k M) u (nx (N ! i))"
    have "cur (read_at u l mo k M) u (nx (N ! i)) =
        max (max (cur M u (nx (N ! i))) (point (place M l) k (nx (N ! i)))) (?W (nx (N ! i)))"
      unfolding nx_def read_at_at by simp
    then have "2 \<le> cur M u (nx (N ! i)) \<or> 2 \<le> ?W (nx (N ! i)) \<or> (place M l = nx (N ! i) \<and> 2 \<le> k)"
      using two by (auto simp: max_def split: if_splits)
    then show "2 \<le> cur M u (nx (N ! i)) \<or> 2 \<le> ?W (nx (N ! i)) \<or> knows N i (cur (read_at u l mo k M) u)"
      using assms(3) [OF i] by auto
  qed (rule assms(1))
qed

lemma load_tail:
  assumes core: "core M N h t" and base: "2 \<le> cur M u (At Tail 1)" and cl: "closed N (cur M u)"
    and step: "mem_step u (Load Tail acquire) c M = Done r M'"
  obtains j where "loaded r = Some (fst (N ! j))" "tail_at N (cur M' u) (loaded r) j"
    "cur M u (At Tail 1) \<le> j + 2" "closed N (cur M' u)" "looks u M M'"
proof -
  have pl: "place M Tail = At Tail 1" using core by (rule tail_hist)
  have k: "2 \<le> fst c" "fst c \<le> latest M Tail" "cur M u (At Tail 1) \<le> fst c"
    and M': "M' = read_at u Tail acquire (fst c) M" and r: "r = Val (fst (msgs M Tail ! (fst c - 1)))"
    using step base pl by (auto simp: load_Done seen_def)
  obtain j where j: "fst c = j + 2" "j \<le> t" "fst (msgs M Tail ! (fst c - 1)) = Ptr (Some (fst (N ! j)))"
    "snd (msgs M Tail ! (fst c - 1)) = tail_view M j" "j < length N"
    using tail_msg [OF core k(1,2)] by metis
  have tv: "tail_view M j \<le> cur M' u"
    using read_at_acquires [of acquire M Tail "fst c" u] j(4) M' by simp
  have kn: "knows N j (cur M' u)" using knows_mono [OF tail_published(1) [OF core j(2)] tv] .
  have at: "j + 2 \<le> cur M' u (At Tail 1)"
    using read_at_place [of "fst c" u Tail acquire M] pl j(1) M' by simp
  have "closed N (cur M' u)"
    unfolding M' using closed_read_at [OF cl, of acquire Tail "fst c"] tail_published(2) [OF core j(2)] j(4) pl
    by simp
  moreover have "looks u M M'"
    unfolding M' using core_wf [OF core] k by (intro looks_read_at) auto
  ultimately show thesis
    using that [of j] r j kn at k(3) by (simp add: tail_at_def nth_node_def)
qed

lemma load_head:
  assumes core: "core M N h t" and base: "2 \<le> cur M u (At Head 1)" "2 \<le> cur M u (At Tail 1)"
    and cl: "closed N (cur M u)"
    and step: "mem_step u (Load Head acquire) c M = Done r M'"
  obtains i where "loaded r = Some (fst (N ! i))" "head_at M N (cur M' u) (loaded r) i"
    "closed N (cur M' u)" "looks u M M'"
    "\<And>l g. cur M' u (At l g) = max (max (cur M u (At l g)) (point (At Head 1) (i + 2) (At l g)))
       (head_view M i (At l g))"
proof -
  have pl: "place M Head = At Head 1" using core by (rule head_hist)
  have k: "2 \<le> fst c" "fst c \<le> latest M Head"
    and M': "M' = read_at u Head acquire (fst c) M" and r: "r = Val (fst (msgs M Head ! (fst c - 1)))"
    using step base pl by (auto simp: load_Done seen_def)
  obtain i where i: "fst c = i + 2" "i \<le> h" "fst (msgs M Head ! (fst c - 1)) = Ptr (Some (fst (N ! i)))"
    "snd (msgs M Head ! (fst c - 1)) = head_view M i" "i < length N"
    using head_msg [OF core k(1,2)] by metis
  have hv: "head_view M i \<le> cur M' u"
    using read_at_acquires [of acquire M Head "fst c" u] i(4) M' by simp
  have kn: "knows N i (cur M' u)" using knows_mono [OF head_published(1) [OF core i(2)] hv] .
  have at: "i + 2 \<le> cur M' u (At Head 1)"
    using read_at_place [of "fst c" u Head acquire M] pl i(1) M' by simp
  have "i + 2 \<le> cur M' u (At Tail 1)"
  proof (cases i)
    case 0
    have "2 \<le> cur M' u (At Tail 1)"
      unfolding M' using base(2) by (rule view_le_mono [OF read_at_mono])
    then show ?thesis using 0 by simp
  next
    case (Suc n)
    then show ?thesis using head_published(3) [OF core i(2)] view_le_mono [OF hv] by simp
  qed
  moreover have "closed N (cur M' u)"
    unfolding M' using closed_read_at [OF cl, of acquire Head "fst c"] head_published(2) [OF core i(2)] i(4) pl
    by simp
  moreover have "looks u M M'"
    unfolding M' using core_wf [OF core] k by (intro looks_read_at) auto
  moreover have "cur M' u (At l g) = max (max (cur M u (At l g)) (point (At Head 1) (i + 2) (At l g)))
       (head_view M i (At l g))" for l g
    unfolding M' read_at_at pl using i(1,4) by simp
  ultimately show thesis
    using that [of i] r i kn at hv by (simp add: head_at_def nth_node_def)
qed

lemma load_next:
  fixes M :: "('x loc, 'a cell) memory"
  assumes core: "core M N h t" and i: "i < length N" and kn: "knows N i (cur M u)"
    and cl: "closed N (cur M u)"
    and step: "mem_step u (Load (Next (fst (N ! i))) acquire) c M = Done r M'"
  shows "closed N (cur M' u) \<and> looks u M M' \<and>
     (if loaded r = None then cur M u (nx (N ! i)) < 2 \<and> cur M' u (nx (N ! i)) < 2
      else nth_node N (loaded r) (Suc i) \<and> knows N (Suc i) (cur M' u))"
proof -
  let ?l = "Next (fst (N ! i)) :: 'x loc"
  have pl: "place M ?l = nx (N ! i)" using core i by (rule next_place)
  have k: "1 \<le> fst c" "fst c \<le> latest M ?l" "cur M u (nx (N ! i)) \<le> fst c"
    and M': "M' = read_at u ?l acquire (fst c) M" and r: "r = Val (fst (msgs M ?l ! (fst c - 1)))"
    using step pl by (auto simp: load_Done seen_def)
  have lk: "looks u M M'"
    unfolding M' using core_wf [OF core] k by (intro looks_read_at) auto
  have kn': "knows N i (cur M' u)"
    using kn lk by (auto simp: looks_def intro: knows_mono)
  have at: "cur M' u (nx (N ! i)) = max (max (cur M u (nx (N ! i))) (fst c))
       (snd (msgs M ?l ! (fst c - 1)) (nx (N ! i)))"
    unfolding M' nx_def read_at_at using pl by (simp add: nx_def)
  have uniq: "j = i" if "j < length N" "nx (N ! i) = (nx (N ! j) :: 'x loc coord)" for j
    using that i core_shape [OF core] distinct_map_nth_eq [of fst N i j]
    by (auto simp: nx_def shape_def)
  show ?thesis
    using next_msg [OF core i k(1,2)]
  proof (elim disjE conjE)
    assume one: "fst c = 1" and v: "fst (msgs M ?l ! (fst c - 1)) = Ptr None"
      and V: "snd (msgs M ?l ! (fst c - 1)) = blind"
    have "closed N (cur M' u)"
      unfolding M' by (rule closed_read_at [OF cl]) (simp add: V [simplified] closed_blind, use one in simp)
    then show ?thesis using lk r v at V one k(3) by simp
  next
    assume two: "fst c = 2" and len: "Suc i < length N"
      and v: "fst (msgs M ?l ! (fst c - 1)) = Ptr (Some (fst (N ! Suc i)))"
      and V: "snd (msgs M ?l ! (fst c - 1)) = link_view M (N ! i)"
    have "link_view M (N ! i) \<le> cur M' u"
      using read_at_acquires [of acquire M ?l "fst c" u] V M' by simp
    then have "knows N (Suc i) (cur M' u)"
      using link_published(1) [OF core len] by (rule knows_mono [rotated])
    moreover have "closed N (cur M' u)"
      unfolding M'
    proof (rule closed_read_at [OF cl])
      show "closed N (snd (msgs M ?l ! (fst c - 1)))" using V link_published(2) [OF core len] by simp
      show "fst c < 2 \<or> knows N j (cur (read_at u ?l acquire (fst c) M) u)"
        if "j < length N" "place M ?l = nx (N ! j)" for j
        using kn' M' uniq [of j] that pl by simp
    qed
    ultimately show ?thesis using lk r v len by (simp add: nth_node_def)
  qed
qed

lemma failed_cas:
  assumes wf: "mem_wf M" and step: "mem_step u (Cas weak l e d smo relaxed) c M = Done r M'"
    and lost: "\<not> won r" and cl: "closed N (cur M u)"
    and k: "\<And>i. i < length N \<Longrightarrow> place M l = nx (N ! i) \<Longrightarrow> knows N i (cur M u)"
  shows "looks u M M' \<and> closed N (cur M' u)"
proof -
  have c: "0 < fst c" "fst c \<le> latest M l" and M': "M' = read_at u l relaxed (fst c) M"
    using step lost by (auto simp: cas_Done Let_def)
  have lk: "looks u M M'" unfolding M' using wf c by (rule looks_read_at)
  have "closed N (cur M' u)"
    unfolding M'
  proof (rule closed_read_at [OF cl])
    fix i assume "i < length N" "place M l = nx (N ! i)"
    then have "knows N i (cur M u)" by (rule k)
    then have "knows N i (cur (read_at u l relaxed (fst c) M) u)"
      by (rule knows_mono) (rule read_at_mono)
    then show "fst c < 2 \<or> knows N i (cur (read_at u l relaxed (fst c) M) u)" ..
  qed simp
  with lk show ?thesis ..
qed

lemma won_cas:
  assumes "mem_step u (Cas weak l e d smo fmo) c M = Done r M'" "won r"
  shows "fst (msgs M l ! (latest M l - 1)) = e" "M' = rmw_at u l d smo M" "0 < latest M l"
  using assms by (auto simp: cas_Done Let_def)

lemma read_value:
  fixes M :: "('x loc, 'a cell) memory"
  assumes core: "core M N h t" and i: "i < length N"
    and step: "mem_step u (Read (Value (fst (N ! i)))) c M = Done r M'"
  shows "looks u M M'" "datum r = payload M (N ! i)" "\<And>l g. cur M' u (At l g) = cur M u (At l g)"
proof -
  let ?l = "Value (fst (N ! i)) :: 'x loc"
  have n: "gen M ?l = snd (N ! i)" "length (hist M ?l (snd (N ! i))) = 1"
    using node_in_shape [OF core i] by (simp_all add: node_at_def)
  have M': "M' = touch u ?l M" and r: "r = Val (fst (msgs M ?l ! (latest M ?l - 1)))"
    using step by (auto simp: read_Done)
  have "msgs M ?l ! (latest M ?l - 1) = last (msgs M ?l)"
    using n by (cases "msgs M ?l") (simp_all add: latest_def msgs_def)
  then show "datum r = payload M (N ! i)"
    using r n by (simp add: payload_def msgs_def)
  show "looks u M M'" unfolding M' using core_wf [OF core] by (rule looks_touch)
  show "cur M' u (At l g) = cur M u (At l g)" for l g using M' by simp
qed

section \<open>Swinging \<^verbatim>\<open>tail_\<close> and \<^verbatim>\<open>head_\<close>\<close>

lemma node_at_frame:
  assumes "node_at M n xs"
    and "hist M' (Next (fst n)) = hist M (Next (fst n))" "hist M' (Value (fst n)) = hist M (Value (fst n))"
    and "gen M' = gen M" "live M' = live M"
  shows "node_at M' n xs"
  using assms by (simp add: node_at_def)

lemma unshared_frame:
  assumes "unshared M N V n"
    and "hist M' (Next n) = hist M (Next n)" "hist M' (Value n) = hist M (Value n)"
    and "gen M' = gen M" "live M' = live M" "n \<notin> fst ` set X"
  shows "unshared M' (N @ X) V n"
  using assms node_at_frame [of M "(n, gen M (Next n))" _ M'] by (auto simp: unshared_def)

text \<open>What a swing of either end leaves alone.\<close>

definition same_nodes :: "('x loc, 'a cell) memory \<Rightarrow> ('x loc, 'a cell) memory \<Rightarrow> bool" where
  "same_nodes M M' \<longleftrightarrow>
     gen M' = gen M \<and> live M' = live M \<and>
     (\<forall>a. hist M' (Next a) = hist M (Next a) \<and> hist M' (Value a) = hist M (Value a))"

lemma same_nodes_rmw_tail: "same_nodes M (rmw_at u Tail v mo M)"
  by (auto simp: same_nodes_def fun_eq_iff rmw_at_hist)

lemma same_nodes_rmw_head: "same_nodes M (rmw_at u Head v mo M)"
  by (auto simp: same_nodes_def fun_eq_iff rmw_at_hist)

lemma same_nodes_payload: "same_nodes M M' \<Longrightarrow> payload M' = payload M"
  by (rule ext) (simp add: same_nodes_def payload_def)

lemma same_nodes_link: "same_nodes M M' \<Longrightarrow> link_view M' = link_view M"
  by (rule ext) (simp add: same_nodes_def link_view_def)

lemma same_nodes_value: "same_nodes M M' \<Longrightarrow> value_of M' = value_of M"
  by (rule ext) (simp add: same_nodes_def value_of_def msgs_def)

lemma same_nodes_paired: "same_nodes M M' \<Longrightarrow> paired M \<Longrightarrow> paired M'"
  by (simp add: same_nodes_def paired_def)

lemma same_nodes_shape: "same_nodes M M' \<Longrightarrow> node_at M n xs \<Longrightarrow> node_at M' n xs"
  by (rule node_at_frame) (auto simp: same_nodes_def)

lemma closed_swapped:
  fixes M :: "('x loc, 'a cell) memory"
  assumes "is_rel mo" "closed N (cur M u)" "closed N (snd (msgs M l ! (latest M l - 1)))"
    and "\<And>i. i < length N \<Longrightarrow> place M l = nx (N ! i) \<Longrightarrow> knows N i (swapped u l mo M)"
  shows "closed N (swapped u l mo M)"
proof (rule closed_via [OF assms(2,3)])
  show "cur M u \<le> swapped u l mo M" by (rule swapped_releases [OF assms(1)])
  show "snd (msgs M l ! (latest M l - 1)) \<le> swapped u l mo M"
    by (simp add: swapped_def written_def le_supI1)
next
  fix i assume i: "i < length N" "2 \<le> swapped u l mo M (nx (N ! i))"
  show "2 \<le> cur M u (nx (N ! i)) \<or> 2 \<le> snd (msgs M l ! (latest M l - 1)) (nx (N ! i)) \<or>
      knows N i (swapped u l mo M)"
    using i assms(4) [OF i(1)] swapped_at [OF assms(1), of u l M "Next (fst (N ! i))" "snd (N ! i)"]
    by (auto simp: nx_def max_def split: if_splits)
qed

lemma closed_rmw_at:
  fixes M :: "('x loc, 'a cell) memory"
  assumes "closed N (cur M u)" "\<not> is_acq mo"
    and "\<And>i. i < length N \<Longrightarrow> place M l = nx (N ! i) \<Longrightarrow> knows N i (cur M u)"
  shows "closed N (cur (rmw_at u l v mo M) u)"
proof (rule closed_via [OF assms(1) closed_blind])
  show "cur M u \<le> cur (rmw_at u l v mo M) u" by (rule rmw_at_mono)
  show "blind \<le> cur (rmw_at u l v mo M) u" by (simp add: le_fun_def)
next
  fix i assume i: "i < length N" "2 \<le> cur (rmw_at u l v mo M) u (nx (N ! i))"
  have "knows N i (cur M u) \<Longrightarrow> knows N i (cur (rmw_at u l v mo M) u)"
    by (erule knows_mono) (rule rmw_at_mono)
  then show "2 \<le> cur M u (nx (N ! i)) \<or> 2 \<le> blind (nx (N ! i) :: 'x loc coord) \<or>
      knows N i (cur (rmw_at u l v mo M) u)"
    using i assms(2,3) by (auto simp: nx_def rmw_at_at max_def split: if_splits)
qed

lemma swing_tail:
  fixes M :: "('x loc, 'a cell) memory"
  assumes core: "core M N h t" and cl: "closed N (cur M u)"
    and j: "nth_node N p j" "nth_node N q (Suc j)" "knows N (Suc j) (cur M u)"
    and last: "fst (msgs M Tail ! (latest M Tail - 1)) = Ptr p"
    and M': "M' = rmw_at u Tail (Ptr q) release M"
  shows "core M' N h (Suc t)" "same_nodes M M'" "hist M' Head = hist M Head"
proof -
  have sh: "shape M N h t" and wf: "mem_wf M" using core by (simp_all add: core_def)
  have tl: "latest M Tail = t + 2" "place M Tail = At Tail 1" "map fst (msgs M Tail) = swings N t"
    using tail_hist [OF core] by simp_all
  have lv: "snd (msgs M Tail ! (latest M Tail - 1)) = tail_view M t"
    using tl(1) sh by (simp add: tail_view_def msgs_def shape_def)
  have "j = t"
  proof -
    obtain i where "t + 2 = i + 2" "fst (msgs M Tail ! (t + 2 - 1)) = Ptr (Some (fst (N ! i)))"
      using tail_msg [OF core, of "t + 2"] tl(1) by force
    then have "nth_node N p t" using last tl(1) sh by (simp add: nth_node_def shape_def)
    then show ?thesis using nth_node_unique [OF _ j(1)] sh by (simp add: shape_def)
  qed
  have len: "Suc t < length N" using j(2) \<open>j = t\<close> by (simp add: nth_node_def)
  show sn: "same_nodes M M'" unfolding M' by (rule same_nodes_rmw_tail)
  show hh: "hist M' Head = hist M Head" unfolding M' by (rule ext) (simp add: rmw_at_hist)
  have ht: "hist M' Tail 1 = hist M Tail 1 @ [(Ptr q, swapped u Tail release M)]"
    unfolding M' using sh by (simp add: rmw_at_hist shape_def msgs_def)
  have old: "tail_view M' i = tail_view M i" if "i \<le> t" for i
    using that ht tl(1) sh by (simp add: tail_view_def nth_append latest_def msgs_def shape_def)
  have new: "tail_view M' (Suc t) = swapped u Tail release M"
    using ht tl(1) sh by (simp add: tail_view_def nth_append latest_def msgs_def shape_def)
  have kn: "knows N (Suc t) (swapped u Tail release M)"
    using j(3) knows_mono [OF _ swapped_releases [of release M u Tail]] \<open>j = t\<close> by simp
  have cs: "closed N (swapped u Tail release M)"
    by (rule closed_swapped [OF _ cl]) (use tail_published(2) [OF core, of t] lv tl(2) in simp_all)
  have "shape M' N h (Suc t)"
    using sh sn len ht hh same_nodes_shape [OF sn] j(2) \<open>j = t\<close>
    by (auto simp: shape_def same_nodes_def nth_node_def swings_Suc [OF len])
  moreover have "published M' N h (Suc t)"
    unfolding published_def
  proof (intro conjI allI impI)
    fix i assume "i \<le> h"
    then show "knows N i (head_view M' i)" "closed N (head_view M' i)"
      using head_published(1,2) [OF core] by (simp_all add: head_view_def hh)
    assume "0 < i"
    then show "i + 2 \<le> head_view M' i (At Tail 1)"
      using head_published(3) [OF core \<open>i \<le> h\<close>] by (simp add: head_view_def hh)
  next
    fix i assume "i \<le> Suc t"
    then show "knows N i (tail_view M' i)" "closed N (tail_view M' i)"
      using tail_published [OF core, of i] old new kn cs by (auto simp: le_Suc_eq)
  next
    fix i assume "Suc i < length N"
    then show "knows N (Suc i) (link_view M' (N ! i))" "closed N (link_view M' (N ! i))"
      using link_published [OF core, of i] same_nodes_link [OF sn] by simp_all
  qed
  moreover have "mem_wf M'" unfolding M' using wf tl(1) by (intro wf_rmw_at) simp_all
  moreover have "paired M'" using core same_nodes_paired [OF sn] by (simp add: core_def)
  ultimately show "core M' N h (Suc t)" by (simp add: core_def)
qed

lemma swing_head:
  fixes M :: "('x loc, 'a cell) memory"
  assumes core: "core M N h t" and cl: "closed N (cur M u)"
    and i: "nth_node N p i" "nth_node N q (Suc i)" "knows N (Suc i) (cur M u)"
      "i + 3 \<le> cur M u (At Tail 1)"
    and last: "fst (msgs M Head ! (latest M Head - 1)) = Ptr p"
    and M': "M' = rmw_at u Head (Ptr q) release M"
  shows "core M' N (Suc h) t" "same_nodes M M'" "i = h" "length (hist M' Head 1) = Suc (length (hist M Head 1))"
    "\<And>k. k + 2 \<le> length (hist M Head 1) \<Longrightarrow> head_view M' k = head_view M k"
proof -
  have sh: "shape M N h t" and wf: "mem_wf M" using core by (simp_all add: core_def)
  have hd: "latest M Head = h + 2" "place M Head = At Head 1" "map fst (msgs M Head) = swings N h"
    using head_hist [OF core] by simp_all
  have lv: "snd (msgs M Head ! (latest M Head - 1)) = head_view M h"
    using hd(1) sh by (simp add: head_view_def msgs_def shape_def)
  show "i = h"
  proof -
    obtain k where "h + 2 = k + 2" "fst (msgs M Head ! (h + 2 - 1)) = Ptr (Some (fst (N ! k)))"
      using head_msg [OF core, of "h + 2"] hd(1) by force
    then have "nth_node N p h" using last hd(1) sh by (simp add: nth_node_def shape_def)
    then show ?thesis using nth_node_unique [OF _ i(1)] sh by (simp add: shape_def)
  qed
  then have len: "Suc h < length N" using i(2) by (simp add: nth_node_def)
  have "Suc i \<le> t" using tail_bound [OF core, of "Suc i" u] i(4) by simp
  then have ht: "Suc h \<le> t" using \<open>i = h\<close> by simp
  show sn: "same_nodes M M'" unfolding M' by (rule same_nodes_rmw_head)
  have tt: "hist M' Tail = hist M Tail" unfolding M' by (rule ext) (simp add: rmw_at_hist)
  have hh: "hist M' Head 1 = hist M Head 1 @ [(Ptr q, swapped u Head release M)]"
    unfolding M' using sh by (simp add: rmw_at_hist shape_def msgs_def)
  then show "length (hist M' Head 1) = Suc (length (hist M Head 1))" by simp
  show old: "head_view M' k = head_view M k" if "k + 2 \<le> length (hist M Head 1)" for k
    using that hh by (simp add: head_view_def nth_append)
  have l: "length (hist M Head 1) = h + 2" using hd(1) sh by (simp add: latest_def msgs_def shape_def)
  have old': "head_view M' k = head_view M k" if "k \<le> h" for k
    using that old l by simp
  have new: "head_view M' (Suc h) = swapped u Head release M"
    using hh l by (simp add: head_view_def nth_append)
  have kn: "knows N (Suc h) (swapped u Head release M)"
    using i(3) knows_mono [OF _ swapped_releases [of release M u Head]] \<open>i = h\<close> by simp
  have tv: "Suc h + 2 \<le> swapped u Head release M (At Tail 1)"
    using view_le_mono [OF swapped_releases, of release "i + 3" M u "At Tail 1" Head] i(4) \<open>i = h\<close>
    by simp
  have cs: "closed N (swapped u Head release M)"
    by (rule closed_swapped [OF _ cl]) (use head_published(2) [OF core, of h] lv hd(2) in simp_all)
  have "shape M' N (Suc h) t"
    using sh sn len ht hh tt same_nodes_shape [OF sn] i(2) \<open>i = h\<close>
    by (auto simp: shape_def same_nodes_def nth_node_def swings_Suc [OF len])
  moreover have "published M' N (Suc h) t"
    unfolding published_def
  proof (intro conjI allI impI)
    fix k assume "k \<le> Suc h"
    then show "knows N k (head_view M' k)" "closed N (head_view M' k)"
      using head_published(1,2) [OF core, of k] old' [of k] new kn cs by (auto simp: le_Suc_eq)
    assume "0 < k"
    then show "k + 2 \<le> head_view M' k (At Tail 1)"
      using \<open>k \<le> Suc h\<close> head_published(3) [OF core, of k] old' [of k] new tv by (auto simp: le_Suc_eq)
  next
    fix k assume "k \<le> t"
    then show "knows N k (tail_view M' k)" "closed N (tail_view M' k)"
      using tail_published [OF core, of k] by (simp_all add: tail_view_def tt)
  next
    fix k assume "Suc k < length N"
    then show "knows N (Suc k) (link_view M' (N ! k))" "closed N (link_view M' (N ! k))"
      using link_published [OF core, of k] same_nodes_link [OF sn] by simp_all
  qed
  moreover have "mem_wf M'" unfolding M' using wf hd(1) by (intro wf_rmw_at) simp_all
  moreover have "paired M'" using core same_nodes_paired [OF sn] by (simp add: core_def)
  ultimately show "core M' N (Suc h) t" by (simp add: core_def)
qed

section \<open>Linking a node\<close>

lemma links_old: "i < length N \<Longrightarrow> Suc i \<noteq> length N \<Longrightarrow> links (N @ [m]) i = links N i"
  by (simp add: links_def nth_append)

lemma links_last: "Suc i = length N \<Longrightarrow> links (N @ [m]) i = links N i @ [Ptr (Some (fst m))]"
  by (simp add: links_def nth_append)

lemma links_new: "links (N @ [m]) (length N) = [Ptr None]"
  by (simp add: links_def)

lemma link_node:
  fixes M :: "('x loc, 'a cell) memory"
  assumes core: "core M N h t" and cl: "closed N (cur M u)"
    and j: "tail_at N (cur M u) (Some a) j" and n: "unshared M N (cur M u) n"
    and last: "fst (msgs M (Next a) ! (latest M (Next a) - 1)) = Ptr None"
    and M': "M' = rmw_at u (Next a) (Ptr (Some n)) release M"
    and m: "m = (n, gen M (Next n))"
  shows "Suc j = length N"
    and "gen M' = gen M" "live M' = live M" "hist M' Head = hist M Head" "hist M' Tail = hist M Tail"
    and "\<And>b. hist M' (Value b) = hist M (Value b)" "\<And>b. b \<noteq> a \<Longrightarrow> hist M' (Next b) = hist M (Next b)"
    and "core M' (N @ [m]) h t" "knows (N @ [m]) (Suc j) (cur M' u)" "\<And>v. cur M v (nx m) < 2"
    and "closed (N @ [m]) (cur M' u)"
proof -
  have sh: "shape M N h t" and wf: "mem_wf M" using core by (simp_all add: core_def)
  have jN: "j < length N" "a = fst (N ! j)" "knows N j (cur M u)" "j + 2 \<le> cur M u (At Tail 1)"
    using j by (auto simp: tail_at_def nth_node_def)
  have la: "latest M (Next a) = (if Suc j < length N then 2 else 1)"
    using next_latest [OF core jN(1)] jN(2) by simp
  have pl: "place M (Next a) = nx (N ! j)" using next_place [OF core jN(1)] jN(2) by simp
  have one: "1 \<le> latest M (Next a)" using la by simp
  show sj: "Suc j = length N"
  proof (rule ccontr)
    assume "Suc j \<noteq> length N"
    then have "latest M (Next a) = 2" using la jN(1) by simp
    then show False
      using next_msg [OF core jN(1), of 2, folded jN(2)] last by simp
  qed
  then have la1: "latest M (Next a) = 1" using la by simp
  show gl: "gen M' = gen M" "live M' = live M" by (simp_all add: M')
  show hH: "hist M' Head = hist M Head" and hT: "hist M' Tail = hist M Tail"
    and hV: "\<And>b. hist M' (Value b) = hist M (Value b)"
    and hN: "\<And>b. b \<noteq> a \<Longrightarrow> hist M' (Next b) = hist M (Next b)"
    by (rule ext, simp add: M' rmw_at_hist)+
  have na: "node_at M (N ! j) [Ptr None]"
    using node_in_shape [OF core jN(1)] sj by (simp add: links_def)
  have hA: "hist M' (Next a) (snd (N ! j)) =
      hist M (Next a) (snd (N ! j)) @ [(Ptr (Some n), swapped u (Next a) release M)]"
    using na jN(2) by (simp add: M' rmw_at_hist node_at_def msgs_def)
  have nn: "n \<notin> fst ` set N" "node_at M m [Ptr None]" "1 \<le> cur M u (nx m)" "1 \<le> cur M u (vl m)"
    using n m by (simp_all add: unshared_def)
  have "a \<in> fst ` set N" using jN(1,2) by simp
  then have na': "fst m \<noteq> a" using nn(1) m by auto
  have nm: "node_at M' m [Ptr None]"
    by (rule node_at_frame [OF nn(2)]) (use hN [OF na'] hV gl in simp_all)
  have nj: "node_at M' (N ! j) [Ptr None, Ptr (Some n)]"
    using na hA hV gl jN(2) by (auto simp: node_at_def nth_append)
  have old: "node_at M' (N ! i) (links N i)" if "i < length N" "i \<noteq> j" for i
  proof -
    have "fst (N ! i) \<noteq> a"
      using that jN(1,2) sh distinct_map_nth_eq [of fst N i j] by (auto simp: shape_def)
    then show ?thesis using node_in_shape [OF core that(1)] hV hN gl by (auto intro: node_at_frame)
  qed
  have nodes: "node_at M' ((N @ [m]) ! i) (links (N @ [m]) i)" if "i < length (N @ [m])" for i
  proof (cases "i = length N")
    case True
    then show ?thesis using nm by (simp add: links_new)
  next
    case False
    then have i: "i < length N" using that by simp
    then show ?thesis
      using old [of i] nj sj links_old [of i N m] links_last [of i N m] m
      by (cases "i = j") (auto simp: nth_append links_def)
  qed
  have jt: "j \<le> t" using tail_bound [OF core jN(4)] .
  have "shape M' (N @ [m]) h t"
    using sh gl hH hT nodes nn(1) jt sj m by (auto simp: shape_def swings_append)
  moreover
  let ?V = "swapped u (Next a) release M"
  have cV: "cur M u \<le> ?V" by (rule swapped_releases) simp
  have own: "2 \<le> ?V (nx (N ! j))"
    using swapped_place [of M "Next a" u release] la1 pl by simp
  have kV: "knows (N @ [m]) (Suc j) ?V"
  proof (rule knows_Suc)
    show "knows (N @ [m]) j ?V" using knows_mono [OF jN(3) cV] jN(1) by simp
    show "2 \<le> ?V (nx ((N @ [m]) ! j))" using own jN(1) by (simp add: nth_append)
    show "1 \<le> ?V (nx ((N @ [m]) ! Suc j))" "1 \<le> ?V (vl ((N @ [m]) ! Suc j))"
      using view_le_mono [OF cV nn(3)] view_le_mono [OF cV nn(4)] sj by (simp_all add: nth_append)
  qed
  have bm: "V (nx m) < 2" if "bounded M V" for V
  proof -
    have "length (hist M (Next (fst m)) (snd m)) = 1"
      using nn(2) by (auto simp: node_at_def)
    moreover have "V (nx m) \<le> length (hist M (Next (fst m)) (snd m))"
      using that by (simp add: bounded_def nx_def)
    ultimately show ?thesis by simp
  qed
  have uniq: "i = j" if "i < length N" "nx (N ! j) = (nx (N ! i) :: 'x loc coord)" for i
    using that jN(1) sh distinct_map_nth_eq [of fst N i j] by (auto simp: nx_def shape_def)
  have bl: "snd (msgs M (Next a) ! (latest M (Next a) - 1)) = blind"
    using next_msg [OF core jN(1), of 1, folded jN(2)] la1 by simp
  have cs: "closed N ?V"
  proof (rule closed_swapped [OF _ cl])
    show "closed N (snd (msgs M (Next a) ! (latest M (Next a) - 1)))"
      unfolding bl by (rule closed_blind)
    show "knows N i ?V" if "i < length N" "place M (Next a) = nx (N ! i)" for i
      using uniq [of i] that pl knows_mono [OF jN(3) cV] by simp
  qed simp
  have mbound: "V (nx m) < 2" if "m' \<in> set (hist M l g)" "V = snd m'" for V l g m'
    using bm [of V] wf that by (auto simp: mem_wf_def)
  have hlen: "length (hist M Head 1) = h + 2" "length (hist M Tail 1) = t + 2"
    using head_hist(2) [OF core] tail_hist(2) [OF core] sh by (simp_all add: latest_def msgs_def shape_def)
  have vm: "?V (nx m) < 2"
  proof -
    have "nx m \<noteq> (nx (N ! j) :: 'x loc coord)" using nn(1) m jN(1) by (auto simp: nx_def)
    then have "?V (nx m) = max (snd (msgs M (Next a) ! (latest M (Next a) - 1)) (nx m)) (cur M u (nx m))"
      using swapped_at [of release u "Next a" M "Next (fst m)" "snd m"] pl by (auto simp: nx_def)
    then show ?thesis using bm [OF cur_bounded [OF core]] unfolding bl by simp
  qed
  have "published M' (N @ [m]) h t"
    unfolding published_def
  proof (intro conjI allI impI)
    fix i assume i: "i \<le> h"
    have "hist M Head 1 ! Suc i \<in> set (hist M Head 1)" using i hlen by (intro nth_mem) simp
    then have "head_view M i (nx m) < 2" by (rule mbound) (simp add: head_view_def)
    then show "knows (N @ [m]) i (head_view M' i)" "closed (N @ [m]) (head_view M' i)"
      using head_published(1,2) [OF core i] i sh
      by (auto simp: head_view_def hH shape_def intro: closed_append)
    assume "0 < i"
    then show "i + 2 \<le> head_view M' i (At Tail 1)"
      using head_published(3) [OF core i] by (simp add: head_view_def hH)
  next
    fix i assume i: "i \<le> t"
    have "hist M Tail 1 ! Suc i \<in> set (hist M Tail 1)" using i hlen by (intro nth_mem) simp
    then have "tail_view M i (nx m) < 2" by (rule mbound) (simp add: tail_view_def)
    then show "knows (N @ [m]) i (tail_view M' i)" "closed (N @ [m]) (tail_view M' i)"
      using tail_published [OF core i] i sh
      by (auto simp: tail_view_def hT shape_def intro: closed_append)
  next
    fix i assume i: "Suc i < length (N @ [m])"
    have "knows (N @ [m]) (Suc i) (link_view M' ((N @ [m]) ! i)) \<and>
        closed (N @ [m]) (link_view M' ((N @ [m]) ! i))"
    proof (cases "i = j")
      case True
      have "length (hist M (Next a) (snd (N ! j))) = 1"
        using na jN(2) by (metis length_map length_Cons list.size(3) node_at_def One_nat_def)
      then have "link_view M' (N ! j) = ?V"
        using hA jN(2) by (simp add: link_view_def nth_append)
      then show ?thesis using True kV cs vm jN(1) by (auto simp: nth_append intro: closed_append)
    next
      case False
      then have i': "Suc i < length N" using i sj by simp
      have ne: "fst (N ! i) \<noteq> a"
        using False i' jN(1,2) sh distinct_map_nth_eq [of fst N i j] by (auto simp: shape_def)
      have lv: "link_view M' (N ! i) = link_view M (N ! i)" using hN [OF ne] by (simp add: link_view_def)
      have "length (hist M (Next (fst (N ! i))) (snd (N ! i))) = 2"
        using next_latest [OF core, of i] i' node_in_shape [OF core, of i]
        by (simp add: latest_def msgs_def node_at_def)
      then have "hist M (Next (fst (N ! i))) (snd (N ! i)) ! 1 \<in> set (hist M (Next (fst (N ! i))) (snd (N ! i)))"
        by (intro nth_mem) simp
      then have "link_view M (N ! i) (nx m) < 2" by (rule mbound) (simp add: link_view_def)
      then show ?thesis using link_published [OF core i'] lv i' by (auto simp: nth_append intro: closed_append)
    qed
    then show "knows (N @ [m]) (Suc i) (link_view M' ((N @ [m]) ! i))"
      "closed (N @ [m]) (link_view M' ((N @ [m]) ! i))" by simp_all
  qed
  moreover have "mem_wf M'" unfolding M' using wf la1 by (intro wf_rmw_at) simp_all
  moreover have "paired M'" using core gl by (simp add: core_def paired_def)
  ultimately show "core M' (N @ [m]) h t" by (simp add: core_def)
  show "cur M v (nx m) < 2" for v by (rule bm) (rule cur_bounded [OF core])
  have cu: "cur M u \<le> cur M' u" unfolding M' by (rule rmw_at_mono)
  have own': "2 \<le> cur M' u (nx (N ! j))"
    using rmw_at_place [of M "Next a" u "Ptr (Some n)" release] la1 pl M' by simp
  show "knows (N @ [m]) (Suc j) (cur M' u)"
  proof (rule knows_Suc)
    show "knows (N @ [m]) j (cur M' u)" using knows_mono [OF jN(3) cu] jN(1) by simp
    show "2 \<le> cur M' u (nx ((N @ [m]) ! j))" using own' jN(1) by (simp add: nth_append)
    show "1 \<le> cur M' u (nx ((N @ [m]) ! Suc j))" "1 \<le> cur M' u (vl ((N @ [m]) ! Suc j))"
      using view_le_mono [OF cu nn(3)] view_le_mono [OF cu nn(4)] sj by (simp_all add: nth_append)
  qed
  have "cur M' u (nx m) < 2"
  proof -
    have "nx m \<noteq> (nx (N ! j) :: 'x loc coord)" using nn(1) m jN(1) by (auto simp: nx_def)
    then have "cur M' u (nx m) = cur M u (nx m)"
      using rmw_at_at [of u "Next a" "Ptr (Some n)" release M "Next (fst m)" "snd m"] pl M'
      by (auto simp: nx_def)
    then show ?thesis using bm [OF cur_bounded [OF core]] by simp
  qed
  moreover have "closed N (cur M' u)"
    unfolding M' by (rule closed_rmw_at [OF cl]) (use uniq pl jN(3) in auto)
  ultimately show "closed (N @ [m]) (cur M' u)" by (intro closed_append) auto
qed

end
