(* ===== verification/Ms_Queue_Safe.thy ===== *)
theory Ms_Queue_Safe imports Ms_Queue_Loads begin

text \<open>
  Every step of the queue keeps the invariant and none is undefined: one lemma per program point
  that does more than look, and the step lemma over all of them.
\<close>

section \<open>Steps that only look\<close>

definition settled :: "'a leaky_state \<Rightarrow> nat \<Rightarrow> 'a cell result \<Rightarrow> (unit loc, 'a cell) memory \<Rightarrow> 'a leaky_state" where
  "settled s u r M' =
     \<lparr>mem = M', thr = (thr s)(u := queue_resume leaky_reclaimer (thr s u) r),
      trace = trace s @ queue_note u (thr s u) r (mem s)\<rparr>"

lemma queue_inv_thread:
  assumes "queue_inv d s"
  shows "thread_ok (mem s) (chain d (trace s)) (cur (mem s) u) (fst (thr s u))"
    "status u (trace s) = Some (status_of (value_of (mem s)) (fst (thr s u)))"
  using assms by (simp_all add: queue_inv_def Let_def)

lemma queue_inv_core:
  assumes "queue_inv d s"
  obtains h t where "core (mem s) (chain d (trace s)) h t"
    "replay (trace s) [] = Some (contents (mem s) (chain d (trace s)) h)"
  using assms by (auto simp: queue_inv_def Let_def)

lemma queue_inv_wf: "queue_inv d s \<Longrightarrow> mem_wf (mem s)"
  by (erule queue_inv_core) (rule core_wf)

lemma thread_okD:
  assumes "thread_ok M N V p"
  shows "pc_ok M N V p" "2 \<le> V (At Head 1)" "2 \<le> V (At Tail 1)" "closed N V"
    "\<And>n. owned p = Some n \<Longrightarrow> unshared M N V n"
  using assms by (simp_all add: thread_ok_def)

text \<open>A step that looks, and moves on to a program point that the new view supports.\<close>

lemma look_step:
  assumes inv: "queue_inv d s" and at: "thr s u = (p, l)" and lk: "looks u (mem s) M'"
    and cl: "closed (chain d (trace s)) (cur M' u)"
    and r: "queue_resume leaky_reclaimer (p, l) r = (p', l')" and nt: "queue_note u (p, l) r (mem s) = []"
    and pc: "pc_ok M' (chain d (trace s)) (cur M' u) p'"
    and ow: "owned p' = owned p \<or> owned p' = None"
    and st: "status_of (value_of (mem s)) p' = status_of (value_of (mem s)) p"
  shows "queue_inv d (settled s u r M')"
  unfolding settled_def at r nt
  by (rule queue_inv_look [OF inv])
    (use lk cl pc ow st at queue_inv_thread(2) [OF inv, of u] in \<open>simp_all add: looks_def quiet_note_def\<close>)

lemma tail_at_mono: "tail_at N V p j \<Longrightarrow> V \<le> W \<Longrightarrow> tail_at N W p j"
  unfolding tail_at_def by (auto intro: knows_mono view_le_mono)

lemma head_at_mono:
  "head_at M N V p i \<Longrightarrow> V \<le> W \<Longrightarrow> hist M' = hist M \<Longrightarrow> head_at M' N W p i"
  unfolding head_at_def using hist_cong(1) [of M' M]
  by (auto intro: knows_mono view_le_mono order.trans)

lemma looks_mono: "looks u M M' \<Longrightarrow> cur M u \<le> cur M' u" and looks_hist: "looks u M M' \<Longrightarrow> hist M' = hist M"
  by (simp_all add: looks_def)

lemma start_next:
  assumes "start_ok M N V x k"
  obtains p' where "queue_resume leaky_reclaimer (Start x k, l) r = (p', l)" "pc_ok M N V p'"
    "owned p' = owned_k k" "status_of f p' = status_k f k"
proof (cases k)
  case (KD_retire v)
  then obtain p where "x = Retire p" using assms by auto
  then show thesis using that [of "Start Unguard (KD_leave (Some v))"] KD_retire
    by (simp add: leaky_reclaimer_def)
next
  case (KD_leave y)
  then show thesis using that [of "Finish (Dequeued y)"] assms
    by (cases y) (simp_all add: leaky_reclaimer_def)
qed (use assms that in \<open>simp_all add: leaky_reclaimer_def\<close>)

lemma step_start:
  assumes inv: "queue_inv d s" and at: "thr s u = (Start x k, l)"
  shows "queue_inv d (settled s u r (mem s))"
proof -
  let ?N = "chain d (trace s)" let ?M = "mem s"
  have ok: "start_ok ?M ?N (cur ?M u) x k"
    using thread_okD(1) [OF queue_inv_thread(1) [OF inv, of u]] at by simp
  have cl: "closed ?N (cur ?M u)" using thread_okD(4) [OF queue_inv_thread(1) [OF inv, of u]] .
  obtain p' where "queue_resume leaky_reclaimer (Start x k, l) r = (p', l)" "pc_ok ?M ?N (cur ?M u) p'"
    "owned p' = owned_k k" "status_of (value_of ?M) p' = status_k (value_of ?M) k"
    by (rule start_next [OF ok])
  then show ?thesis
    by (intro look_step [OF inv at looks_refl [OF queue_inv_wf [OF inv]] cl]) simp_all
qed

section \<open>Loads\<close>

text \<open>What a thread at program point \<open>p\<close> may rely on, unpacked.\<close>

lemma at_point:
  assumes inv: "queue_inv d s" and at: "thr s u = (p, l)"
  obtains h t where "core (mem s) (chain d (trace s)) h t" "pc_ok (mem s) (chain d (trace s)) (cur (mem s) u) p"
    "2 \<le> cur (mem s) u (At Head 1)" "2 \<le> cur (mem s) u (At Tail 1)"
    "closed (chain d (trace s)) (cur (mem s) u)"
  using queue_inv_core [OF inv] thread_okD [OF queue_inv_thread(1) [OF inv, of u]] at
  by (metis fst_conv)

lemma step_call:
  assumes inv: "queue_inv d s" and at: "thr s u = (Call x k, l)"
    and st: "mem_step u (queue_act shipped leaky_reclaimer (Call x k)) c (mem s) = Done r M'"
  shows "queue_inv d (settled s u r M')"
proof -
  let ?N = "chain d (trace s)"
  obtain h t where co: "core (mem s) ?N h t" "pc_ok (mem s) ?N (cur (mem s) u) (Call x k)"
    "2 \<le> cur (mem s) u (At Head 1)" "2 \<le> cur (mem s) u (At Tail 1)" "closed ?N (cur (mem s) u)"
    by (rule at_point [OF inv at])
  have "call_ok x k" using co(2) by simp
  then consider n where "k = KE_protect n" "x = L_load Tail" | "k = KD_protect" "x = L_load Head"
    by (cases "(x, k)" rule: call_ok.cases) auto
  then show ?thesis
  proof cases
    case 1
    then have "mem_step u (Load Tail acquire) c (mem s) = Done r M'"
      using st by (simp add: leaky_reclaimer_def)
    then obtain j where "tail_at ?N (cur M' u) (loaded r) j" "closed ?N (cur M' u)" "looks u (mem s) M'"
      by (rule load_tail [OF co(1,4,5)])
    then show ?thesis using 1
      by (intro look_step [OF inv at, of M' r "E_next n (loaded r)" l]) (auto simp: leaky_reclaimer_def)
  next
    case 2
    then have "mem_step u (Load Head acquire) c (mem s) = Done r M'"
      using st by (simp add: leaky_reclaimer_def)
    then obtain i where "head_at (mem s) ?N (cur M' u) (loaded r) i" "closed ?N (cur M' u)" "looks u (mem s) M'"
      by (rule load_head [OF co(1,3,4,5)])
    then show ?thesis using 2
      by (intro look_step [OF inv at, of M' r "D_tail (loaded r)" l])
        (auto simp: leaky_reclaimer_def hist_cong(5) [OF looks_hist])
  qed
qed

lemma step_E_next:
  assumes inv: "queue_inv d s" and at: "thr s u = (E_next n tail, l)"
    and st: "mem_step u (queue_act shipped leaky_reclaimer (E_next n tail)) c (mem s) = Done r M'"
  shows "queue_inv d (settled s u r M')"
proof -
  let ?N = "chain d (trace s)"
  obtain h t where co: "core (mem s) ?N h t" "pc_ok (mem s) ?N (cur (mem s) u) (E_next n tail)"
    "2 \<le> cur (mem s) u (At Head 1)" "2 \<le> cur (mem s) u (At Tail 1)" "closed ?N (cur (mem s) u)"
    by (rule at_point [OF inv at])
  then obtain j where j: "tail_at ?N (cur (mem s) u) tail j" by auto
  then have jn: "j < length ?N" "tail = Some (fst (?N ! j))" "knows ?N j (cur (mem s) u)"
    by (simp_all add: tail_at_def nth_node_def)
  have ld: "closed ?N (cur M' u) \<and> looks u (mem s) M' \<and>
     (if loaded r = None then cur (mem s) u (nx (?N ! j)) < 2 \<and> cur M' u (nx (?N ! j)) < 2
      else nth_node ?N (loaded r) (Suc j) \<and> knows ?N (Suc j) (cur M' u))"
    using st jn(2) by (intro load_next [OF co(1) jn(1,3) co(5)]) (simp add: deref_def)
  then have "tail_at ?N (cur M' u) tail j" using tail_at_mono [OF j] looks_mono by blast
  then show ?thesis using ld
    by (intro look_step [OF inv at, of M' r "E_check n tail (loaded r)" l]) (auto split: if_splits)
qed

lemma step_E_check:
  assumes inv: "queue_inv d s" and at: "thr s u = (E_check n tail nxt, l)"
    and st: "mem_step u (queue_act shipped leaky_reclaimer (E_check n tail nxt)) c (mem s) = Done r M'"
  shows "queue_inv d (settled s u r M')"
proof -
  let ?N = "chain d (trace s)"
  obtain h t where co: "core (mem s) ?N h t" "pc_ok (mem s) ?N (cur (mem s) u) (E_check n tail nxt)"
    "2 \<le> cur (mem s) u (At Head 1)" "2 \<le> cur (mem s) u (At Tail 1)" "closed ?N (cur (mem s) u)"
    by (rule at_point [OF inv at])
  then obtain j where j: "tail_at ?N (cur (mem s) u) tail j"
    "nxt \<noteq> None \<longrightarrow> nth_node ?N nxt (Suc j) \<and> knows ?N (Suc j) (cur (mem s) u)" by auto
  have "mem_step u (Load Tail acquire) c (mem s) = Done r M'" using st by simp
  then obtain i where i: "closed ?N (cur M' u)" "looks u (mem s) M'"
    by (rule load_tail [OF co(1,4,5)])
  have le: "cur (mem s) u \<le> cur M' u" using i(2) by (rule looks_mono)
  have tla: "tail_at ?N (cur M' u) tail j" using tail_at_mono [OF j(1) le] .
  have lk: "nxt \<noteq> None \<Longrightarrow> link_at ?N (cur M' u) tail nxt"
    using j(2) tla knows_mono [OF _ le] unfolding link_at_def tail_at_def by blast
  show ?thesis
    using tla lk i by (intro look_step [OF inv at, of M' r "queue_next (E_check n tail nxt) r" l]) auto
qed

lemma step_D_tail:
  assumes inv: "queue_inv d s" and at: "thr s u = (D_tail p, l)"
    and st: "mem_step u (queue_act shipped leaky_reclaimer (D_tail p)) c (mem s) = Done r M'"
  shows "queue_inv d (settled s u r M')"
proof -
  let ?N = "chain d (trace s)"
  obtain h t where co: "core (mem s) ?N h t" "pc_ok (mem s) ?N (cur (mem s) u) (D_tail p)"
    "2 \<le> cur (mem s) u (At Head 1)" "2 \<le> cur (mem s) u (At Tail 1)" "closed ?N (cur (mem s) u)"
    by (rule at_point [OF inv at])
  then obtain i where i: "head_at (mem s) ?N (cur (mem s) u) p i" by auto
  have "mem_step u (Load Tail acquire) c (mem s) = Done r M'" using st by (simp add: shipped_def)
  then obtain j where j: "tail_at ?N (cur M' u) (loaded r) j" "cur (mem s) u (At Tail 1) \<le> j + 2"
    "closed ?N (cur M' u)" "looks u (mem s) M'"
    by (rule load_tail [OF co(1,4,5)])
  have "head_at M' ?N (cur M' u) p i"
    by (rule head_at_mono [OF i looks_mono [OF j(4)] looks_hist [OF j(4)]])
  moreover have "i \<le> j" using i j(2) by (simp add: head_at_def)
  ultimately have "pc_ok M' ?N (cur M' u) (D_next p (loaded r))" using j(1) by auto
  then show ?thesis using j
    by (intro look_step [OF inv at, of M' r "D_next p (loaded r)" l]) auto
qed

lemma step_D_next:
  assumes inv: "queue_inv d s" and at: "thr s u = (D_next p q, l)"
    and st: "mem_step u (queue_act shipped leaky_reclaimer (D_next p q)) c (mem s) = Done r M'"
  shows "queue_inv d (settled s u r M')"
proof -
  let ?N = "chain d (trace s)" let ?V = "cur (mem s) u"
  obtain h t where co: "core (mem s) ?N h t" "pc_ok (mem s) ?N ?V (D_next p q)"
    "2 \<le> ?V (At Head 1)" "2 \<le> ?V (At Tail 1)" "closed ?N ?V"
    by (rule at_point [OF inv at])
  then obtain i j where ij: "head_at (mem s) ?N ?V p i" "tail_at ?N ?V q j" "i \<le> j" by auto
  then have i: "i < length ?N" "p = Some (fst (?N ! i))" "knows ?N i ?V"
    by (simp_all add: head_at_def nth_node_def)
  have ld: "closed ?N (cur M' u) \<and> looks u (mem s) M' \<and>
     (if loaded r = None then ?V (nx (?N ! i)) < 2 \<and> cur M' u (nx (?N ! i)) < 2
      else nth_node ?N (loaded r) (Suc i) \<and> knows ?N (Suc i) (cur M' u))"
    using st i(2) by (intro load_next [OF co(1) i(1,3) co(5)]) (simp add: deref_def)
  have le: "?V \<le> cur M' u" and hi: "hist M' = hist (mem s)"
    using ld by (auto simp: looks_mono looks_hist)
  have ij': "head_at M' ?N (cur M' u) p i" "tail_at ?N (cur M' u) q j"
    using head_at_mono [OF ij(1) le hi] tail_at_mono [OF ij(2) le] .
  have "i = j" if "?V (nx (?N ! i)) < 2"
  proof (rule ccontr)
    assume "i \<noteq> j"
    then have "2 \<le> ?V (nx (?N ! i))" using ij(2,3) by (auto simp: tail_at_def knows_def)
    then show False using that by simp
  qed
  then have "snapshot M' ?N (cur M' u) p q (loaded r)"
    using ld ij' ij(3) unfolding snapshot_def by (intro exI [of _ i] exI [of _ j]) (auto split: if_splits)
  then show ?thesis using ld
    by (intro look_step [OF inv at, of M' r "Start (Publish 1 (loaded r)) (KD_set p q (loaded r))" l]) auto
qed

lemma step_D_check:
  assumes inv: "queue_inv d s" and at: "thr s u = (D_check p q nxt, l)"
    and st: "mem_step u (queue_act shipped leaky_reclaimer (D_check p q nxt)) c (mem s) = Done r M'"
  shows "queue_inv d (settled s u r M')"
proof -
  let ?N = "chain d (trace s)" let ?V = "cur (mem s) u"
  obtain h t where co: "core (mem s) ?N h t" "pc_ok (mem s) ?N ?V (D_check p q nxt)"
    "2 \<le> ?V (At Head 1)" "2 \<le> ?V (At Tail 1)" "closed ?N ?V"
    by (rule at_point [OF inv at])
  then obtain i j where ij: "head_at (mem s) ?N ?V p i" "tail_at ?N ?V q j" "i \<le> j"
    "if nxt = None then i = j \<and> ?V (nx (?N ! i)) < 2 else nth_node ?N nxt (Suc i) \<and> knows ?N (Suc i) ?V"
    by (auto simp: snapshot_def)
  have dist: "distinct (map fst ?N)" using core_shape [OF co(1)] by (simp add: shape_def)
  have "mem_step u (Load Head acquire) c (mem s) = Done r M'" using st by simp
  then obtain k where k: "loaded r = Some (fst (?N ! k))" "head_at (mem s) ?N (cur M' u) (loaded r) k"
    "closed ?N (cur M' u)" "looks u (mem s) M'"
    "\<And>x g. cur M' u (At x g) = max (max (?V (At x g)) (point (At Head 1) (k + 2) (At x g)))
       (head_view (mem s) k (At x g))"
    by (rule load_head [OF co(1,3,4,5)]) (rule that, assumption+)
  have le: "?V \<le> cur M' u" and hi: "hist M' = hist (mem s)" using k(4) by (auto simp: looks_mono looks_hist)
  have nn: "nth_node ?N p i" "nth_node ?N q j" "j + 2 \<le> ?V (At Tail 1)"
    using ij(1,2) by (simp_all add: head_at_def tail_at_def)
  have le2: "j + 2 \<le> cur M' u (At Tail 1)" using nn(3) le by (rule view_le_mono [rotated])
  let ?p' = "queue_next (D_check p q nxt) r :: ('a, unit, unit leaky_pc) pc"
  have "pc_ok M' ?N (cur M' u) ?p'"
  proof (cases "p = loaded r")
    case True
    have ki: "k = i"
      using nth_node_unique [OF dist _ nn(1), of k] k(2) True by (simp add: head_at_def)
    have eq: "p = q \<longleftrightarrow> i = j"
      using nn(1,2) nth_node_unique [OF dist nn(1), of j] by (auto simp: nth_node_def)
    have lk: "nxt \<noteq> None \<Longrightarrow> nth_node ?N nxt (Suc i) \<and> knows ?N (Suc i) (cur M' u)"
      using ij(4) knows_mono [OF _ le] by auto
    show ?thesis
    proof (cases "p = q")
      case pq: True
      show ?thesis
      proof (cases nxt)
        case None
        then have lo: "?V (nx (?N ! i)) < 2" using ij(4) by auto
        have "head_view (mem s) i (nx (?N ! i)) \<le> ?V (nx (?N ! i))"
          using ij(1) by (auto simp: head_at_def intro: view_leD)
        then have "cur M' u (nx (?N ! i)) < 2" using lo k(5) ki by (simp add: nx_def)
        moreover have "i + 2 \<le> length (hist M' Head 1)"
          using ij(1) cur_bounded [OF co(1), of u] hi unfolding head_at_def bounded_def
          by (metis order.trans)
        moreover have "i < length ?N" using nn(1) by (rule nth_node_less)
        ultimately have "drained M' ?N (cur M' u)" by (auto simp: drained_def)
        then show ?thesis using True pq None by simp
      next
        case (Some a)
        then have "link_at ?N (cur M' u) q nxt" using lk nn eq pq unfolding link_at_def by auto
        then show ?thesis using True pq Some by simp
      qed
    next
      case ne: False
      then have "i < j" using ij(3) eq by simp
      then have "nxt \<noteq> None" using ij(4) by (cases nxt) auto
      then have "pc_ok M' ?N (cur M' u) (D_value p nxt)"
        using lk nn(1) le2 \<open>i < j\<close> by (auto intro!: exI [of _ i])
      then show ?thesis using True ne by simp
    qed
  qed simp
  then show ?thesis using k
    by (intro look_step [OF inv at, of M' r ?p' l]) auto
qed

lemma step_D_value:
  assumes inv: "queue_inv d s" and at: "thr s u = (D_value p nxt, l)"
    and st: "mem_step u (queue_act shipped leaky_reclaimer (D_value p nxt)) c (mem s) = Done r M'"
  shows "queue_inv d (settled s u r M')"
proof -
  let ?N = "chain d (trace s)" let ?V = "cur (mem s) u"
  obtain h t where co: "core (mem s) ?N h t" "pc_ok (mem s) ?N ?V (D_value p nxt)"
    "2 \<le> ?V (At Head 1)" "2 \<le> ?V (At Tail 1)" "closed ?N ?V"
    by (rule at_point [OF inv at])
  then obtain i where i: "nth_node ?N p i" "nth_node ?N nxt (Suc i)" "knows ?N (Suc i) ?V"
    "i + 3 \<le> ?V (At Tail 1)" by auto
  have n: "Suc i < length ?N" "nxt = Some (fst (?N ! Suc i))" using i(2) by (simp_all add: nth_node_def)
  have "mem_step u (Read (Value (fst (?N ! Suc i)))) c (mem s) = Done r M'"
    using st n(2) by (simp add: deref_def)
  note rd = read_value [OF co(1) n(1) this]
  have "knows ?N (Suc i) (cur M' u)" "closed ?N (cur M' u)"
    using i(3) co(5) rd(3) by (simp_all add: knows_def closed_def nx_def vl_def)
  moreover have "datum r = payload M' (?N ! Suc i)"
    using rd(2) hist_cong(4) [OF looks_hist [OF rd(1)]] by simp
  ultimately have "pc_ok M' ?N (cur M' u) (D_cas p nxt (datum r))"
    using i rd(3) by auto
  then show ?thesis using rd(1) \<open>closed ?N (cur M' u)\<close>
    by (intro look_step [OF inv at, of M' r "D_cas p nxt (datum r)" l]) auto
qed

lemma step_M_head:
  assumes inv: "queue_inv d s" and at: "thr s u = (M_head, l)"
    and st: "mem_step u (queue_act shipped leaky_reclaimer M_head) c (mem s) = Done r M'"
  shows "queue_inv d (settled s u r M')"
proof -
  let ?N = "chain d (trace s)"
  obtain h t where co: "core (mem s) ?N h t" "pc_ok (mem s) ?N (cur (mem s) u) M_head"
    "2 \<le> cur (mem s) u (At Head 1)" "2 \<le> cur (mem s) u (At Tail 1)" "closed ?N (cur (mem s) u)"
    by (rule at_point [OF inv at])
  have "mem_step u (Load Head acquire) c (mem s) = Done r M'" using st by simp
  then obtain i where "head_at (mem s) ?N (cur M' u) (loaded r) i" "closed ?N (cur M' u)" "looks u (mem s) M'"
    by (rule load_head [OF co(1,3,4,5)])
  then show ?thesis
    by (intro look_step [OF inv at, of M' r "M_next (loaded r)" l]) (auto simp: head_at_def)
qed

lemma step_M_next:
  assumes inv: "queue_inv d s" and at: "thr s u = (M_next p, l)"
    and st: "mem_step u (queue_act shipped leaky_reclaimer (M_next p)) c (mem s) = Done r M'"
  shows "queue_inv d (settled s u r M')"
proof -
  let ?N = "chain d (trace s)" let ?V = "cur (mem s) u"
  obtain h t where co: "core (mem s) ?N h t" "pc_ok (mem s) ?N ?V (M_next p)"
    "2 \<le> ?V (At Head 1)" "2 \<le> ?V (At Tail 1)" "closed ?N ?V"
    by (rule at_point [OF inv at])
  then obtain i where i: "i < length ?N" "p = Some (fst (?N ! i))" "knows ?N i ?V" "i + 2 \<le> ?V (At Head 1)"
    by (auto simp: nth_node_def)
  have ld: "closed ?N (cur M' u) \<and> looks u (mem s) M' \<and>
     (if loaded r = None then ?V (nx (?N ! i)) < 2 \<and> cur M' u (nx (?N ! i)) < 2
      else nth_node ?N (loaded r) (Suc i) \<and> knows ?N (Suc i) (cur M' u))"
    using st i(2) by (intro load_next [OF co(1) i(1,3) co(5)]) (simp add: deref_def)
  have hi: "hist M' = hist (mem s)" using ld by (auto simp: looks_hist)
  have "?V (At Head 1) \<le> length (hist (mem s) Head 1)"
    using cur_bounded [OF co(1), of u] by (simp add: bounded_def)
  then have "i + 2 \<le> length (hist M' Head 1)" using i(4) hi by simp
  then have "drained M' ?N (cur M' u)" if "loaded r = None"
    using ld that i(1) unfolding drained_def by (intro exI [of _ i]) simp
  then show ?thesis using ld
    by (intro look_step [OF inv at, of M' r "Finish (Emptiness (loaded r = None))" l]) auto
qed

section \<open>Compare-exchanges\<close>

lemma thread_ok_swung:
  assumes sn: "same_nodes M M'" and bd: "bounded M V" and ok: "thread_ok M N V p"
    and hv: "\<And>i. i + 2 \<le> length (hist M Head 1) \<Longrightarrow> head_view M' i = head_view M i"
    and hl: "length (hist M Head 1) \<le> length (hist M' Head 1)"
  shows "thread_ok M' N V p"
proof -
  have "unshared M' (N @ []) V n" if "unshared M N V n" for n
    using sn by (intro unshared_frame [OF that]) (auto simp: same_nodes_def)
  then have "thread_ok M' (N @ []) V p"
    using same_nodes_payload [OF sn] by (intro thread_ok_frame [OF ok bd hv hl]) auto
  then show ?thesis by simp
qed

text \<open>A program point that asks nothing of the memory: where the loops start over.\<close>

definition anywhere :: "('a, unit, unit leaky_pc) pc \<Rightarrow> bool" where
  "anywhere p \<longleftrightarrow> (\<forall>M N V. pc_ok M N V p)"

lemma thread_ok_self:
  assumes ok: "thread_ok M N (cur M u) p" and swung: "thread_ok M' N (cur M u) p"
    and le: "cur M u \<le> cur M' u" and cl: "closed N (cur M' u)"
    and pc: "anywhere p'" and ow: "owned p' = owned p \<or> owned p' = None"
  shows "thread_ok M' N (cur M' u) p'"
proof -
  have "unshared M' N (cur M' u) n" if "owned p' = Some n" for n
  proof -
    have "unshared M' N (cur M u) n" using ow that thread_okD(5) [OF swung] by auto
    then show ?thesis using le by (rule unshared_cong [OF _ refl refl refl])
  qed
  then show ?thesis
    using pc cl thread_okD(2,3) [OF ok] view_le_mono [OF le]
    by (auto simp: thread_ok_def anywhere_def)
qed

lemma queue_inv_excl:
  "queue_inv d s \<Longrightarrow> owned (fst (thr s u)) = Some n \<Longrightarrow> v \<noteq> u \<Longrightarrow> owned (fst (thr s v)) \<noteq> Some n"
  by (auto simp: queue_inv_def Let_def)

lemma step_swing:
  assumes inv: "queue_inv d s" and at: "thr s u = (p, l)"
    and lk: "link_at (chain d (trace s)) (cur (mem s) u) a b"
    and st: "mem_step u (Cas weak Tail (Ptr a) (Ptr b) release relaxed) c (mem s) = Done r M'"
    and r: "queue_resume leaky_reclaimer (p, l) r = (p', l)" and nt: "queue_note u (p, l) r (mem s) = []"
    and pc: "anywhere p'" and ow: "owned p' = owned p \<or> owned p' = None"
    and stt: "\<And>f. status_of f p' = status_of f p"
  shows "queue_inv d (settled s u r M')"
proof (cases "won r")
  case False
  let ?N = "chain d (trace s)"
  obtain h t where co: "core (mem s) ?N h t" "closed ?N (cur (mem s) u)" by (rule at_point [OF inv at])
  have "looks u (mem s) M' \<and> closed ?N (cur M' u)"
    by (rule failed_cas [OF core_wf [OF co(1)] st False co(2)])
      (use tail_hist(3) [OF co(1)] in simp)
  then show ?thesis using pc
    by (intro look_step [OF inv at _ _ r nt _ ow]) (auto simp: anywhere_def stt)
next
  case True
  let ?N = "chain d (trace s)" let ?M = "mem s"
  obtain h t where co: "core ?M ?N h t" "replay (trace s) [] = Some (contents ?M ?N h)"
    by (rule queue_inv_core [OF inv])
  have ok: "thread_ok ?M ?N (cur ?M v) (fst (thr s v))" for v by (rule queue_inv_thread(1) [OF inv])
  have cl: "closed ?N (cur ?M u)" using thread_okD(4) [OF ok] .
  obtain j where j: "nth_node ?N a j" "nth_node ?N b (Suc j)" "knows ?N (Suc j) (cur ?M u)"
    using lk by (auto simp: link_at_def)
  note w = won_cas [OF st True]
  note sw = swing_tail [OF co(1) cl j w(1,2)]
  have hv: "head_view M' i = head_view ?M i" for i by (simp add: head_view_def sw(3))
  have swung: "thread_ok M' ?N (cur ?M v) (fst (thr s v))" for v
    by (rule thread_ok_swung [OF sw(2) cur_bounded [OF co(1)] ok]) (simp_all add: hv sw(3))
  have ct: "contents M' ?N h = contents ?M ?N h"
    by (simp add: contents_def same_nodes_payload [OF sw(2)])
  have cl': "closed ?N (cur M' u)"
    unfolding w(2) by (rule closed_rmw_at [OF cl]) (use tail_hist(3) [OF co(1)] in simp_all)
  show ?thesis
    unfolding settled_def at r nt
  proof (rule queue_inv_install [OF inv])
    show "own_note u []" by (simp add: own_note_def quiet_note_def)
    show "core M' (chain d (trace s @ [])) h (Suc t)" using sw(1) by simp
    show "replay (trace s @ []) [] = Some (contents M' (chain d (trace s @ [])) h)" using co(2) ct by simp
    have "thread_ok M' ?N (cur M' u) p'"
      using ow at by (intro thread_ok_self [OF ok swung _ cl' pc]) (simp_all add: w(2) rmw_at_mono)
    then show "thread_ok M' (chain d (trace s @ [])) (cur M' u) p'" by simp
    show "status u (trace s @ []) = Some (status_of (value_of M') p')"
      using queue_inv_thread(2) [OF inv, of u] at by (simp add: stt same_nodes_value [OF sw(2)])
    show "cur M' v = cur ?M v" if "v \<noteq> u" for v using that by (simp add: w(2))
    show "thread_ok M' (chain d (trace s @ [])) (cur ?M v) (fst (thr s v))" for v using swung by simp
    show "value_of M' n = value_of ?M n" for n by (simp add: same_nodes_value [OF sw(2)])
    show "owned (fst (thr s v)) \<noteq> Some n" if "owned p' = Some n" "v \<noteq> u" for v n
      using queue_inv_excl [OF inv, of u n v] ow that at by auto
  qed
qed

lemma step_E_help:
  assumes inv: "queue_inv d s" and at: "thr s u = (E_help n p q, l)"
    and st: "mem_step u (queue_act shipped leaky_reclaimer (E_help n p q)) c (mem s) = Done r M'"
  shows "queue_inv d (settled s u r M')"
  by (rule step_swing [OF inv at, of p q True c r M' "retry_enqueue n"])
    (use st thread_okD(1) [OF queue_inv_thread(1) [OF inv, of u]] at in \<open>simp_all add: anywhere_def\<close>)

lemma step_E_swing:
  assumes inv: "queue_inv d s" and at: "thr s u = (E_swing n p, l)"
    and st: "mem_step u (queue_act shipped leaky_reclaimer (E_swing n p)) c (mem s) = Done r M'"
  shows "queue_inv d (settled s u r M')"
  by (rule step_swing [OF inv at, of p "Some n" False c r M' "Start Unguard KE_leave"])
    (use st thread_okD(1) [OF queue_inv_thread(1) [OF inv, of u]] at in \<open>simp_all add: anywhere_def\<close>)

lemma step_D_help:
  assumes inv: "queue_inv d s" and at: "thr s u = (D_help p q b, l)"
    and st: "mem_step u (queue_act shipped leaky_reclaimer (D_help p q b)) c (mem s) = Done r M'"
  shows "queue_inv d (settled s u r M')"
  by (rule step_swing [OF inv at, of q b True c r M' retry_dequeue])
    (use st thread_okD(1) [OF queue_inv_thread(1) [OF inv, of u]] at in \<open>simp_all add: anywhere_def\<close>)

text \<open>The compare-exchange on \<^verbatim>\<open>head_\<close>: a dequeue takes effect, and takes the front.\<close>

lemma step_D_cas:
  assumes inv: "queue_inv d s" and at: "thr s u = (D_cas p nxt v, l)"
    and st0: "mem_step u (queue_act shipped leaky_reclaimer (D_cas p nxt v)) c (mem s) = Done r M'"
  shows "queue_inv d (settled s u r M')"
proof (cases "won r")
  case False
  let ?N = "chain d (trace s)"
  obtain h t where co: "core (mem s) ?N h t" "closed ?N (cur (mem s) u)" by (rule at_point [OF inv at])
  have "looks u (mem s) M' \<and> closed ?N (cur M' u)"
    by (rule failed_cas [OF core_wf [OF co(1)] _ False co(2)])
      (use st0 in simp, use head_hist(3) [OF co(1)] in simp)
  then show ?thesis using False
    by (intro look_step [OF inv at, of M' r retry_dequeue l]) auto
next
  case True
  let ?N = "chain d (trace s)" let ?M = "mem s"
  have st: "mem_step u (Cas True Head (Ptr p) (Ptr nxt) release relaxed) c ?M = Done r M'"
    using st0 by simp
  obtain h t where co: "core ?M ?N h t" "replay (trace s) [] = Some (contents ?M ?N h)"
    by (rule queue_inv_core [OF inv])
  have ok: "thread_ok ?M ?N (cur ?M v) (fst (thr s v))" for v by (rule queue_inv_thread(1) [OF inv])
  have cl: "closed ?N (cur ?M u)" using thread_okD(4) [OF ok] .
  obtain i where i: "nth_node ?N p i" "nth_node ?N nxt (Suc i)" "knows ?N (Suc i) (cur ?M u)"
    "i + 3 \<le> cur ?M u (At Tail 1)" "v = payload ?M (?N ! Suc i)"
    using thread_okD(1) [OF ok [of u]] at by auto
  note w = won_cas [OF st True]
  note sw = swing_head [OF co(1) cl i(1-4) w(1,2)]
  have swung: "thread_ok M' ?N (cur ?M w) (fst (thr s w))" for w
    by (rule thread_ok_swung [OF sw(2) cur_bounded [OF co(1)] ok sw(5)]) (simp_all add: sw(4) [simplified])
  have cl': "closed ?N (cur M' u)"
    unfolding w(2) by (rule closed_rmw_at [OF cl]) (use head_hist(3) [OF co(1)] in simp_all)
  let ?g = "gen ?M (Next (the nxt))" let ?p' = "Start (Retire p) (KD_retire v)"
  let ?es = "[Unlinked u (the nxt) ?g v]"
  have N: "chain d (trace s @ ?es) = ?N" by (simp add: chain_append)
  have len: "Suc h < length ?N" using i(2) sw(3) by (simp add: nth_node_def)
  have ct: "contents ?M ?N h = ((the nxt, ?g), v) # contents M' ?N (Suc h)"
  proof -
    have "gen ?M (Next (fst (?N ! Suc h))) = snd (?N ! Suc h)"
      using node_in_shape [OF co(1) len] by (simp add: node_at_def)
    then have "(the nxt, ?g) = ?N ! Suc h" using i(2) sw(3) by (simp add: nth_node_def)
    then show ?thesis
      using i(5) sw(3) Cons_nth_drop_Suc [OF len, symmetric]
      by (simp add: contents_def same_nodes_payload [OF sw(2)])
  qed
  have ev: "queue_resume leaky_reclaimer (D_cas p nxt v, l) r = (?p', l)"
    "queue_note u (D_cas p nxt v, l) r ?M = ?es" using True by simp_all
  show ?thesis
    unfolding settled_def at ev
  proof (rule queue_inv_install [OF inv])
    show "own_note u ?es" by (simp add: own_note_def)
    show "core M' (chain d (trace s @ ?es)) (Suc h) t" using sw(1) N by simp
    show "replay (trace s @ ?es) [] = Some (contents M' (chain d (trace s @ ?es)) (Suc h))"
      using co(2) ct N by (simp add: replay_append)
    have "thread_ok M' ?N (cur M' u) ?p'"
      by (rule thread_ok_self [OF ok swung _ cl'])
        (simp_all add: w(2) rmw_at_mono anywhere_def)
    then show "thread_ok M' (chain d (trace s @ ?es)) (cur M' u) ?p'" using N by simp
    show "status u (trace s @ ?es) = Some (status_of (value_of M') ?p')"
      using queue_inv_thread(2) [OF inv, of u] at by (simp add: status_append)
    show "cur M' w = cur ?M w" if "w \<noteq> u" for w using that by (simp add: w(2))
    show "thread_ok M' (chain d (trace s @ ?es)) (cur ?M w) (fst (thr s w))" for w using swung N by simp
    show "value_of M' n = value_of ?M n" for n by (simp add: same_nodes_value [OF sw(2)])
  qed simp
qed

text \<open>The compare-exchange on a node's \<^verbatim>\<open>next\<close>: an enqueue takes effect.\<close>

lemma value_of_payload: "node_at M (n, g) xs \<Longrightarrow> value_of M n = payload M (n, g)"
  by (simp add: value_of_def payload_def msgs_def node_at_def)

lemma contents_append:
  "h < length N \<Longrightarrow> contents M (N @ [m]) h = contents M N h @ [(m, payload M m)]"
  by (simp add: contents_def)

lemma step_E_link:
  assumes inv: "queue_inv d s" and at: "thr s u = (E_link n p, l)"
    and st0: "mem_step u (queue_act shipped leaky_reclaimer (E_link n p)) c (mem s) = Done r M'"
  shows "queue_inv d (settled s u r M')"
proof -
  let ?N = "chain d (trace s)" let ?M = "mem s"
  have ok: "thread_ok ?M ?N (cur ?M v) (fst (thr s v))" for v by (rule queue_inv_thread(1) [OF inv])
  obtain h t where co: "core ?M ?N h t" "replay (trace s) [] = Some (contents ?M ?N h)"
    by (rule queue_inv_core [OF inv])
  have cl: "closed ?N (cur ?M u)" using thread_okD(4) [OF ok] .
  obtain j where j: "tail_at ?N (cur ?M u) p j" using thread_okD(1) [OF ok [of u]] at by auto
  then obtain a where p: "p = Some a" and a: "a = fst (?N ! j)" "j < length ?N" "knows ?N j (cur ?M u)"
    by (auto simp: tail_at_def nth_node_def)
  have st: "mem_step u (Cas True (Next a) (Ptr None) (Ptr (Some n)) release relaxed) c ?M = Done r M'"
    using st0 p by (simp add: deref_def shipped_def)
  have un: "unshared ?M ?N (cur ?M u) n" using thread_okD(5) [OF ok [of u]] at by simp
  show ?thesis
  proof (cases "won r")
    case False
    have kn: "knows ?N i (cur ?M u)" if "i < length ?N" "place ?M (Next a) = nx (?N ! i)" for i
    proof -
      have "fst (?N ! i) = fst (?N ! j)"
        using that next_place [OF co(1) a(2)] a(1) by (auto simp: nx_def place_def)
      then have "i = j"
        using distinct_map_nth_eq [of fst ?N i j] that a(2) core_shape [OF co(1)]
        by (simp add: shape_def)
      then show ?thesis using a(3) by simp
    qed
    have "looks u ?M M' \<and> closed ?N (cur M' u)"
      by (rule failed_cas [OF core_wf [OF co(1)] st False cl kn])
    then show ?thesis using False
      by (intro look_step [OF inv at, of M' r "retry_enqueue n" l]) auto
  next
    case True
    let ?m = "(n, gen ?M (Next n))" let ?es = "[Linked u n (gen ?M (Next n)) (value_of ?M n)]"
    note w = won_cas [OF st True]
    note lk = link_node [OF co(1) cl j [unfolded p] un w(1,2) refl]
    have N: "chain d (trace s @ ?es) = ?N @ [?m]" by (simp add: chain_append)
    have pl: "payload M' = payload ?M" by (rule ext) (simp add: payload_def lk(6))
    have vo: "value_of M' = value_of ?M" by (rule ext) (simp add: value_of_def msgs_def lk(2,6))
    have vn: "value_of ?M n = payload ?M ?m"
      using un by (intro value_of_payload [of _ _ _ "[Ptr None]"]) (simp add: unshared_def)
    have h: "h < length ?N" using core_shape [OF co(1)] by (simp add: shape_def)
    have a': "a \<in> fst ` set ?N" using a(1,2) by simp
    have other: "thread_ok M' (?N @ [?m]) (cur ?M v) (fst (thr s v))" if v: "v \<noteq> u" for v
    proof (rule thread_ok_frame [OF ok cur_bounded [OF co(1)]])
      show "unshared M' (?N @ [?m]) (cur ?M v) k"
        if k: "owned (fst (thr s v)) = Some k" "unshared ?M ?N (cur ?M v) k" for k
      proof (rule unshared_frame [OF k(2)])
        have "k \<noteq> a" using k(2) a' by (auto simp: unshared_def)
        then show "hist M' (Next k) = hist ?M (Next k)" by (rule lk(7))
        have "k \<noteq> n" using queue_inv_excl [OF inv, of u n v] k(1) v at by auto
        then show "k \<notin> fst ` set [?m]" by simp
      qed (simp_all add: lk(2,3,6))
    qed (use lk(10) in \<open>simp_all add: head_view_def lk(4) pl\<close>)
    have cu: "cur ?M u \<le> cur M' u" unfolding w(2) by (rule rmw_at_mono)
    have "nth_node (?N @ [?m]) p j" "nth_node (?N @ [?m]) (Some n) (Suc j)"
      using a(2) lk(1) p a(1) by (auto simp: nth_node_def nth_append)
    then have "link_at (?N @ [?m]) (cur M' u) p (Some n)" using lk(9) unfolding link_at_def by blast
    then have self: "thread_ok M' (?N @ [?m]) (cur M' u) (E_swing n p)"
      using lk(11) thread_okD(2,3) [OF ok [of u]] view_le_mono [OF cu] by (simp add: thread_ok_def)
    have ev: "queue_resume leaky_reclaimer (E_link n p, l) r = (E_swing n p, l)"
      "queue_note u (E_link n p, l) r ?M = ?es" using True by simp_all
    show ?thesis
      unfolding settled_def at ev
    proof (rule queue_inv_install [OF inv])
      show "own_note u ?es" by (simp add: own_note_def)
      show "core M' (chain d (trace s @ ?es)) h t" using lk(8) N by simp
      show "replay (trace s @ ?es) [] = Some (contents M' (chain d (trace s @ ?es)) h)"
        using co(2) contents_append [OF h, of M' ?m] vn pl N by (simp add: replay_append contents_def)
      show "thread_ok M' (chain d (trace s @ ?es)) (cur M' u) (E_swing n p)" using self N by simp
      show "status u (trace s @ ?es) = Some (status_of (value_of M') (E_swing n p))"
        using queue_inv_thread(2) [OF inv, of u] at by (simp add: status_append)
      show "cur M' v = cur ?M v" if "v \<noteq> u" for v using that by (simp add: w(2))
      show "thread_ok M' (chain d (trace s @ ?es)) (cur ?M v) (fst (thr s v))" if "v \<noteq> u" for v
        using other [OF that] N by simp
      show "value_of M' k = value_of ?M k" for k by (simp add: vo)
    qed simp
  qed
qed

section \<open>Allocation\<close>

lemma born:
  fixes M :: "('x loc, 'a cell) memory"
  assumes "M' = fold (birth u) (make_node v a) M" and "paired M"
  shows "gen M' = (gen M)(Next a := Suc (gen M (Next a)), Value a := Suc (gen M (Next a)))"
    and "live M' = (live M)(Next a := True, Value a := True)"
    and "hist M' (Next a) (Suc (gen M (Next a))) = [(Ptr None, blind)]"
    and "hist M' (Value a) (Suc (gen M (Next a))) = [(Dat v, blind)]"
    and "\<And>x g. x \<noteq> Next a \<Longrightarrow> x \<noteq> Value a \<Longrightarrow> hist M' x g = hist M x g"
    and "\<And>x. x \<noteq> u \<Longrightarrow> cur M' x = cur M x"
    and "cur M' u = sup (sup (cur M u) (point (nx (a, Suc (gen M (Next a)))) 1))
       (point (vl (a, Suc (gen M (Next a)))) 1)"
  using assms by (auto simp: make_node_def birth_def Let_def paired_def nx_def vl_def fun_eq_iff)

lemma closed_born:
  assumes "closed N V" "\<And>i. i < length N \<Longrightarrow> W (nx (N ! i)) = V (nx (N ! i))"
  shows "closed N W"
  using assms unfolding closed_def by (metis order.strict_trans)

lemma step_E_new:
  assumes inv: "queue_inv d s" and at: "thr s u = (E_new v, l)"
    and st: "mem_step u (queue_act shipped leaky_reclaimer (E_new v)) c (mem s) = Done r M'"
  shows "queue_inv d (settled s u r M')"
proof -
  let ?N = "chain d (trace s)" let ?M = "mem s" let ?a = "fst c"
  let ?g = "Suc (gen ?M (Next ?a))"
  have ok: "thread_ok ?M ?N (cur ?M w) (fst (thr s w))" for w by (rule queue_inv_thread(1) [OF inv])
  obtain h t where co: "core ?M ?N h t" "replay (trace s) [] = Some (contents ?M ?N h)"
    by (rule queue_inv_core [OF inv])
  have free: "\<not> live ?M (Next ?a)" and r: "r = Addr ?a" and M': "M' = fold (birth u) (make_node v ?a) ?M"
    using st by (auto simp: new_Done make_node_def)
  note bn = born [OF M' core_def [THEN iffD1, OF co(1), THEN conjunct2, THEN conjunct1]]
  have fresh: "fst n \<noteq> ?a" if n: "n \<in> set ?N" for n
  proof -
    obtain i where i: "i < length ?N" "?N ! i = n" using n unfolding in_set_conv_nth by blast
    then have "live ?M (Next (fst n))" using node_in_shape [OF co(1) i(1)] by (simp add: node_at_def)
    then show ?thesis using free by auto
  qed
  have keep: "hist M' (Next b) = hist ?M (Next b)" "hist M' (Value b) = hist ?M (Value b)"
    "gen M' (Next b) = gen ?M (Next b)" "gen M' (Value b) = gen ?M (Value b)"
    "live M' (Next b) = live ?M (Next b)" "live M' (Value b) = live ?M (Value b)" if "b \<noteq> ?a" for b
    using that by (auto simp: bn(1,2) bn(5))
  have ends: "hist M' Head = hist ?M Head" "hist M' Tail = hist ?M Tail"
    "gen M' Head = gen ?M Head" "gen M' Tail = gen ?M Tail" "live M' Head = live ?M Head"
    "live M' Tail = live ?M Tail"
    by (auto simp: bn(1,2) bn(5))
  have na: "node_at M' n xs" if "node_at ?M n xs" "fst n \<noteq> ?a" for n xs
    using that keep [OF that(2)] by (simp add: node_at_def)
  have pl: "payload M' n = payload ?M n" if "n \<in> set ?N" for n
    using keep [OF fresh [OF that]] by (simp add: payload_def)
  have vo: "value_of M' n = value_of ?M n" if "n \<noteq> ?a" for n
    using keep [OF that] by (simp add: value_of_def msgs_def)
  have hv: "head_view M' = head_view ?M" "tail_view M' = tail_view ?M"
    by (simp_all add: head_view_def tail_view_def ends fun_eq_iff)
  have lv: "link_view M' n = link_view ?M n" if "n \<in> set ?N" for n
    using keep [OF fresh [OF that]] by (simp add: link_view_def)
  have "shape M' ?N h t"
    using core_shape [OF co(1)] ends na fresh by (auto simp: shape_def)
  moreover have "published M' ?N h t"
    using core_published [OF co(1)] by (simp add: published_def hv lv)
  moreover have "mem_wf M'" unfolding M' by (rule wf_fold_birth [OF core_wf [OF co(1)]])
  moreover have "paired M'"
    using co(1) by (simp add: core_def paired_def bn(1,2))
  ultimately have core: "core M' ?N h t" by (simp add: core_def)
  have ct: "contents M' ?N h = contents ?M ?N h"
    by (simp add: contents_def pl in_set_dropD)
  have alive: "n \<noteq> ?a" if "unshared ?M ?N V n" for V n
    using that free by (auto simp: unshared_def node_at_def)
  have other: "thread_ok M' ?N (cur ?M w) (fst (thr s w))" for w
  proof -
    have "thread_ok M' (?N @ []) (cur ?M w) (fst (thr s w))"
    proof (rule thread_ok_frame [OF ok cur_bounded [OF co(1)]])
      show "unshared M' (?N @ []) (cur ?M w) n" if un: "unshared ?M ?N (cur ?M w) n" for n
        using un na [of "(n, gen ?M (Next n))"] keep [OF alive [OF un]] alive [OF un]
        by (simp add: unshared_def)
    qed (simp_all add: hv ends pl)
    then show ?thesis by simp
  qed
  have "cur ?M u \<le> cur M' u" by (simp add: bn(7) le_supI1)
  moreover have "closed ?N (cur M' u)"
  proof (rule closed_born [OF thread_okD(4) [OF ok [of u]]])
    show "cur M' u (nx (?N ! i)) = cur ?M u (nx (?N ! i))" if "i < length ?N" for i
      using fresh [OF nth_mem [OF that]] by (auto simp: bn(7) nx_def vl_def)
  qed
  moreover have "unshared M' ?N (cur M' u) ?a"
  proof -
    have g: "gen M' (Next ?a) = ?g" "gen M' (Value ?a) = ?g" by (simp_all add: bn(1))
    have "?a \<notin> fst ` set ?N" by (auto simp del: split_paired_All dest: fresh)
    moreover have "node_at M' (?a, ?g) [Ptr None]"
      by (simp add: node_at_def g bn(2,3,4))
    moreover have "1 \<le> cur M' u (nx (?a, ?g))" "1 \<le> cur M' u (vl (?a, ?g))"
      by (simp_all add: bn(7))
    ultimately show ?thesis by (simp add: unshared_def g)
  qed
  ultimately have self: "thread_ok M' ?N (cur M' u) (Start Guard (KE_guard ?a))"
    using thread_okD(2,3) [OF ok [of u]] view_le_mono [of "cur ?M u" "cur M' u"] by (simp add: thread_ok_def)
  have "value_of M' ?a = v" using bn(1,4) by (simp add: value_of_def msgs_def)
  then have stt: "status u (trace s) = Some (status_of (value_of M') (Start Guard (KE_guard ?a)))"
    using queue_inv_thread(2) [OF inv, of u] at by simp
  have out: "owned (fst (thr s w)) \<noteq> Some ?a" for w
    using thread_okD(5) [OF ok [of w]] alive by blast
  have ev: "queue_resume leaky_reclaimer (E_new v, l) r = (Start Guard (KE_guard ?a), l)"
    "queue_note u (E_new v, l) r ?M = []" using r by simp_all
  show ?thesis
    unfolding settled_def at ev
  proof (rule queue_inv_install [OF inv])
    show "own_note u []" by (simp add: own_note_def quiet_note_def)
    show "core M' (chain d (trace s @ [])) h t" using core by simp
    show "value_of M' n = value_of ?M n" if "owned (fst (thr s w)) = Some n" for w n
      using vo [of n] out [of w] that by metis
    show "owned (fst (thr s w)) \<noteq> Some n"
      if "owned (Start Guard (KE_guard ?a) :: ('a, unit, unit leaky_pc) pc) = Some n" for w n
      using that out [of w] by simp
  qed (use co(2) ct self stt bn(6) other in simp_all)
qed

section \<open>Every command keeps the invariant\<close>

lemma step_silent:
  assumes inv: "queue_inv d s" and at: "thr s u = (p, l)" and p: "p = Idle \<or> (\<exists>y. p = Finish y)"
  shows "queue_inv d (settled s u r (mem s))"
proof -
  have cl: "closed (chain d (trace s)) (cur (mem s) u)"
    using thread_okD(4) [OF queue_inv_thread(1) [OF inv, of u]] .
  have st: "status u (trace s) = Some (status_of (value_of (mem s)) p)"
    using queue_inv_thread(2) [OF inv, of u] at by simp
  have r: "queue_resume leaky_reclaimer (p, l) r = (Idle, l)" using p by auto
  have nt: "quiet_note u (queue_note u (p, l) r (mem s))" using p by (auto simp: quiet_note_def)
  have "status u (trace s @ queue_note u (p, l) r (mem s)) = Some Ready"
    using p
  proof (elim disjE exE)
    fix y assume "p = Finish y"
    then show ?thesis using st
      by (cases "(value_of (mem s), p)" rule: status_of.cases) (auto simp: status_append)
  qed (use st in simp)
  then show ?thesis
    unfolding settled_def at r
    by (intro queue_inv_look [OF inv nt]) (use queue_inv_wf [OF inv] cl in simp_all)
qed

lemma step_inv:
  assumes inv: "queue_inv d s"
    and st: "mem_step u (act (leaky_queue shipped) (thr s u)) c (mem s) = Done r M'"
  shows "queue_inv d (settled s u r M')"
proof -
  obtain p l where at: "thr s u = (p, l)" by (meson surj_pair)
  have st': "mem_step u (queue_act shipped leaky_reclaimer p) c (mem s) = Done r M'"
    using st at by (simp add: leaky_queue_def ms_queue_def)
  have sk: "M' = mem s" if "queue_act shipped leaky_reclaimer p = Skip" using st' that by simp
  show ?thesis
  proof (cases p)
    case Idle then show ?thesis using step_silent [OF inv at] sk by simp
  next
    case (Start x k) then show ?thesis using step_start [OF inv at [unfolded Start]] sk by simp
  next
    case (Call x k) then show ?thesis using step_call [OF inv] at st' by simp
  next
    case (E_new v) then show ?thesis using step_E_new [OF inv] at st' by simp
  next
    case (E_next n q) then show ?thesis using step_E_next [OF inv] at st' by simp
  next
    case (E_check n q x) then show ?thesis using step_E_check [OF inv] at st' by simp
  next
    case (E_help n q x) then show ?thesis using step_E_help [OF inv] at st' by simp
  next
    case (E_link n q) then show ?thesis using step_E_link [OF inv] at st' by simp
  next
    case (E_swing n q) then show ?thesis using step_E_swing [OF inv] at st' by simp
  next
    case (D_tail q) then show ?thesis using step_D_tail [OF inv] at st' by simp
  next
    case (D_next q x) then show ?thesis using step_D_next [OF inv] at st' by simp
  next
    case (D_check q x y) then show ?thesis using step_D_check [OF inv] at st' by simp
  next
    case (D_help q x y) then show ?thesis using step_D_help [OF inv] at st' by simp
  next
    case (D_value q x) then show ?thesis using step_D_value [OF inv] at st' by simp
  next
    case (D_cas q x v) then show ?thesis using step_D_cas [OF inv] at st' by simp
  next
    case M_head then show ?thesis using step_M_head [OF inv] at st' by simp
  next
    case (M_next q) then show ?thesis using step_M_next [OF inv] at st' by simp
  next
    case (Finish y) then show ?thesis using step_silent [OF inv at] sk by simp
  qed
qed

text \<open>Invoking an operation, and synchronising outside the queue.\<close>

lemma call_inv:
  assumes inv: "queue_inv d s" and cl: "queue_call u x (thr s u) = Some (p', es)"
  shows "queue_inv d (s\<lparr>thr := (thr s)(u := p'), trace := trace s @ es\<rparr>)"
proof -
  obtain l where at: "thr s u = (Idle, l)" and p': "\<exists>q. p' = (q, l) \<and> anywhere q \<and> owned q = None \<and>
      (\<forall>f. status u [Begin u x] = Some (status_of f q))" and es: "es = [Begin u x]"
    using cl by (cases "(u, x, thr s u)" rule: queue_call.cases)
      (auto simp: anywhere_def status_def)
  then obtain q where q: "p' = (q, l)" "anywhere q" "owned q = None"
    "\<And>f. status u [Begin u x] = Some (status_of f q)" by blast
  have st: "status u (trace s @ [Begin u x]) = Some (status_of (value_of (mem s)) q)"
    using queue_inv_thread(2) [OF inv, of u] q(4) at by (simp add: status_append) (simp add: status_def)
  have "queue_inv d \<lparr>mem = mem s, thr = (thr s)(u := (q, l)), trace = trace s @ [Begin u x]\<rparr>"
    by (rule queue_inv_look [OF inv])
      (use queue_inv_wf [OF inv] thread_okD(4) [OF queue_inv_thread(1) [OF inv, of u]] st q(2,3) in
        \<open>auto simp: quiet_note_def anywhere_def\<close>)
  then show ?thesis using q(1) es by (cases s) simp
qed

lemma sync_inv:
  assumes inv: "queue_inv d s" and at: "fst (thr s u) = Idle"
  shows "queue_inv d (s\<lparr>mem := synchronize t u (mem s)\<rparr>)"
proof -
  let ?M' = "synchronize t u (mem s)" let ?N = "chain d (trace s)"
  have th: "thread_ok (mem s) ?N (cur (mem s) w) (fst (thr s w))" for w by (rule queue_inv_thread(1) [OF inv])
  have "closed ?N (cur ?M' u)"
    unfolding synchronize_def see_cur
    by (rule closed_via [OF thread_okD(4) [OF th [of u]] thread_okD(4) [OF th [of t]]])
      (auto simp: max_def split: if_splits)
  moreover have "mem_wf ?M'" by (rule wf_synchronize [OF queue_inv_wf [OF inv]])
  ultimately have "queue_inv d \<lparr>mem = ?M', thr = (thr s)(u := (Idle, ())), trace = trace s @ []\<rparr>"
    using queue_inv_thread(2) [OF inv, of u] at
    by (intro queue_inv_look [OF inv])
      (auto simp: quiet_note_def synchronize_def le_fun_def)
  moreover have "(thr s)(u := (Idle, ())) = thr s" using at by (auto simp: fun_eq_iff prod_eq_iff)
  ultimately show ?thesis by (cases s) simp
qed

lemma exec_inv:
  assumes "queue_inv d s" "exec (leaky_queue shipped) c s = Running s'"
  shows "queue_inv d s'"
proof (cases c)
  case (Step u k b)
  let ?o = "mem_step u (act (leaky_queue shipped) (thr s u)) (k, b) (mem s)"
  show ?thesis
  proof (cases ?o)
    case (Done r M')
    then have "s' = settled s u r M'"
      using assms(2) Step by (simp add: settled_def leaky_queue_def ms_queue_def)
    then show ?thesis using step_inv [OF assms(1) Done] by simp
  qed (use assms Step in simp_all)
next
  case (Invoke u x)
  show ?thesis
  proof (cases "queue_call u x (thr s u)")
    case (Some pe)
    obtain p' es where pe: "pe = (p', es)" by (meson surj_pair)
    show ?thesis using assms(2) Invoke Some call_inv [OF assms(1) Some [unfolded pe]] pe
      by (auto simp: leaky_queue_def ms_queue_def)
  qed (use assms Invoke in \<open>simp add: leaky_queue_def ms_queue_def\<close>)
next
  case (Sync t u)
  then show ?thesis using assms sync_inv [OF assms(1)]
    by (auto simp: leaky_queue_def ms_queue_def split: if_splits)
qed

section \<open>No step is undefined\<close>

lemma load_defined: "live M l \<Longrightarrow> 0 < seen M t l \<Longrightarrow> mem_step t (Load l mo) c M \<noteq> Ub e"
  by (simp add: mem_step.simps guarded_Ub)

lemma cas_defined: "live M l \<Longrightarrow> 0 < seen M t l \<Longrightarrow> mem_step t (Cas w l e d smo fmo) c M \<noteq> Ub x"
  by (simp add: mem_step.simps guarded_Ub Let_def)

lemma read_defined:
  "live M l \<Longrightarrow> 0 < seen M t l \<Longrightarrow> latest M l \<le> seen M t l \<Longrightarrow> mem_step t (Read l) c M \<noteq> Ub e"
  by (simp add: mem_step.simps guarded_Ub)

lemma new_defined: "mem_step t (New f) c M \<noteq> Ub e"
  by (simp add: mem_step.simps)

lemma end_usable:
  assumes "core M N h t" "2 \<le> cur M u (At Head 1)" "2 \<le> cur M u (At Tail 1)"
  shows "live M Head" "0 < seen M u Head" "live M Tail" "0 < seen M u Tail"
  using core_shape [OF assms(1)] assms(2,3) head_hist(3) [OF assms(1)] tail_hist(3) [OF assms(1)]
  by (simp_all add: shape_def seen_def)

lemma node_usable:
  assumes "core M N h t" "nth_node N p j" "knows N j (cur M u)"
  obtains a where "p = Some a" "live M (Next a)" "0 < seen M u (Next a)"
    "live M (Value a)" "0 < seen M u (Value a)" "latest M (Value a) \<le> seen M u (Value a)"
proof -
  have j: "j < length N" "p = Some (fst (N ! j))" using assms(2) by (simp_all add: nth_node_def)
  have kn: "1 \<le> cur M u (nx (N ! j))" "1 \<le> cur M u (vl (N ! j))"
    using assms(3) by (simp_all add: knows_def)
  have n: "node_at M (N ! j) (links N j)" by (rule node_in_shape [OF assms(1) j(1)])
  then have "latest M (Value (fst (N ! j))) = 1" by (simp add: node_at_def latest_def msgs_def)
  then show thesis
    using that j(2) n kn next_place [OF assms(1) j(1)] value_place [OF assms(1) j(1)]
    by (simp add: node_at_def seen_def)
qed

lemma deref_defined:
  assumes "nth_node N p j" "knows N j (cur M u)" "core M N h t"
    and "\<And>a. live M (Next a) \<Longrightarrow> 0 < seen M u (Next a) \<Longrightarrow> live M (Value a) \<Longrightarrow>
       0 < seen M u (Value a) \<Longrightarrow> latest M (Value a) \<le> seen M u (Value a) \<Longrightarrow> mem_step u (f a) c M \<noteq> Ub e"
  shows "mem_step u (deref p f) c M \<noteq> Ub e"
  by (rule node_usable [OF assms(3,1,2)]) (simp add: deref_def assms(4))

lemma step_defined:
  assumes inv: "queue_inv d s"
  shows "mem_step u (act (leaky_queue shipped) (thr s u)) c (mem s) \<noteq> Ub e"
proof -
  let ?N = "chain d (trace s)" let ?M = "mem s"
  obtain p l where at: "thr s u = (p, l)" by (meson surj_pair)
  obtain h t where co: "core ?M ?N h t" "pc_ok ?M ?N (cur ?M u) p"
    "2 \<le> cur ?M u (At Head 1)" "2 \<le> cur ?M u (At Tail 1)" by (rule at_point [OF inv at])
  note ends = end_usable [OF co(1,3,4)]
  have "mem_step u (queue_act shipped leaky_reclaimer p) c ?M \<noteq> Ub e"
  proof (cases p)
    case (Call x k)
    then have "x = L_load Tail \<or> x = L_load Head" using co(2) by (cases "(x, k)" rule: call_ok.cases) auto
    then show ?thesis using Call load_defined [OF ends(1,2), of acquire c e] load_defined [OF ends(3,4), of acquire c e]
      by (elim disjE) (simp_all add: leaky_reclaimer_def)
  next
    case (E_next n q)
    then obtain j where "nth_node ?N q j" "knows ?N j (cur ?M u)" using co(2) by (auto simp: tail_at_def)
    then show ?thesis using E_next by (simp add: deref_defined [OF _ _ co(1)] load_defined)
  next
    case (E_link n q)
    then obtain j where "nth_node ?N q j" "knows ?N j (cur ?M u)" using co(2) by (auto simp: tail_at_def)
    then show ?thesis using E_link by (simp add: deref_defined [OF _ _ co(1)] cas_defined)
  next
    case (D_next q x)
    then obtain j where "nth_node ?N q j" "knows ?N j (cur ?M u)" using co(2) by (auto simp: head_at_def)
    then show ?thesis using D_next by (simp add: deref_defined [OF _ _ co(1)] load_defined)
  next
    case (D_value q x)
    then obtain j where "nth_node ?N x j" "knows ?N j (cur ?M u)" using co(2) by auto
    then show ?thesis using D_value by (simp add: deref_defined [OF _ _ co(1)] read_defined)
  next
    case (M_next q)
    then obtain j where "nth_node ?N q j" "knows ?N j (cur ?M u)" using co(2) by auto
    then show ?thesis using M_next by (simp add: deref_defined [OF _ _ co(1)] load_defined)
  qed (use ends in \<open>simp_all add: load_defined cas_defined new_defined\<close>)
  then show ?thesis using at by (simp add: leaky_queue_def ms_queue_def)
qed

lemma exec_defined:
  assumes "queue_inv d s"
  shows "exec (leaky_queue shipped) c s \<noteq> Crashed e"
proof (cases c)
  case (Step u k b)
  then show ?thesis using step_defined [OF assms, of u "(k, b)"]
    by (cases "mem_step u (act (leaky_queue shipped) (thr s u)) (k, b) (mem s)") auto
qed (simp_all split: option.split)

section \<open>The start\<close>

lemmas start_defs = leaky_start_state_def queue_start_def constructor_def make_node_def share_def
  mem_step.simps(2,8) blank_def guarded_def access_def seen_def place_def birth_def Let_def see_def
  latest_def msgs_def touch_def write_next_def push_def released_def

lemma start_performs: "\<exists>M :: (unit loc, 'a cell) memory. perform 0 (constructor dflt a) blank = Some M"
  by (simp add: start_defs)

lemma start_wf:
  fixes dflt :: 'a
  shows "mem_wf (mem (leaky_start_state dflt a))"
proof -
  obtain M :: "(unit loc, 'a cell) memory" where M: "perform 0 (constructor dflt a) blank = Some M"
    using start_performs [of dflt a] by (elim exE)
  show ?thesis
    using wf_share [OF wf_perform [OF M wf_blank]] M
    by (simp add: leaky_start_state_def queue_start_def del: perform.simps)
qed

lemma start_memory:
  fixes dflt :: 'a and a :: nat
  defines "M \<equiv> mem (leaky_start_state dflt a)"
  shows "gen M = (\<lambda>_. 0)(Head := 1, Tail := 1, Next a := 1, Value a := 1)"
    and "live M = (\<lambda>_. False)(Head := True, Tail := True, Next a := True, Value a := True)"
    and "map fst (hist M Head 1) = [Ptr None, Ptr (Some a)]"
    and "map fst (hist M Tail 1) = [Ptr None, Ptr (Some a)]"
    and "hist M (Next a) 1 = [(Ptr None, blind)]" and "hist M (Value a) 1 = [(Dat dflt, blind)]"
    and "\<And>u. cur M u (At Head 1) = 2 \<and> cur M u (At Tail 1) = 2 \<and> cur M u (nx (a, 1)) = 1 \<and> cur M u (vl (a, 1)) = 1"
    and "head_view M 0 (nx (a, 1)) = 1 \<and> head_view M 0 (vl (a, 1)) = 1"
    and "tail_view M 0 (nx (a, 1)) = 1 \<and> tail_view M 0 (vl (a, 1)) = 1"
  unfolding M_def
  by (simp_all add: start_defs nx_def vl_def head_view_def tail_view_def)

lemma start_inv: "queue_inv a (leaky_start_state dflt a)"
proof -
  let ?s = "leaky_start_state dflt a" let ?M = "mem ?s"
  note m = start_memory [of dflt a]
  have tr: "trace ?s = []" "\<And>u. thr ?s u = (Idle, ())"
    by (simp_all add: leaky_start_state_def queue_start_def)
  have N: "chain a (trace ?s) = [(a, 1)]" by (simp add: chain_def tr)
  have "shape ?M [(a, 1)] 0 0"
    using m(1-6) by (simp add: shape_def node_at_def links_def swings_def)
  moreover have "published ?M [(a, 1)] 0 0"
    using m(8,9) by (simp add: published_def knows_def closed_def)
  moreover have "paired ?M" using m(1,2) by (simp add: paired_def)
  ultimately have "core ?M [(a, 1)] 0 0" using start_wf by (simp add: core_def)
  moreover have "thread_ok ?M [(a, 1)] (cur ?M u) (fst (thr ?s u))" for u
    using m(7) by (simp add: thread_ok_def tr closed_def)
  moreover have "contents ?M [(a, 1)] 0 = []" by (simp add: contents_def)
  ultimately show ?thesis
    unfolding queue_inv_def Let_def N unfolding tr by (auto simp: status_def)
qed

text \<open>The queue provides the contract of a safe system.\<close>

interpretation leaky: safe_system "leaky_queue shipped" "leaky_start_state dflt a" "queue_inv a"
  for dflt :: 'a and a :: nat
  by unfold_locales (auto intro: start_inv exec_inv exec_defined simp: exec_defined)

end
