(* ===== verification/Fifo.thy ===== *)
theory Fifo imports Machine begin

text \<open>
  The contract every queue of the library offers: a safe system whose trace records the elements
  in the order they enter and leave, and whose state holds exactly what has entered and not left.
\<close>

locale fifo_system = safe_system P s0 I
  for P :: "('l, 'v, 'p, 'o, 'e) program" and s0 :: "('l, 'v, 'p, 'e) state" and I +
  fixes pushed :: "'e list \<Rightarrow> 'x list"
    and popped :: "'e list \<Rightarrow> 'x list"
    and elems :: "('l, 'v, 'p, 'e) state \<Rightarrow> 'x list"
  assumes accounts: "I s \<Longrightarrow> pushed (trace s) = popped (trace s) @ elems s"
begin

lemma reach_fifo: "reach P s0 s \<Longrightarrow> pushed (trace s) = popped (trace s) @ elems s"
  by (rule accounts [OF reach_inv])

lemma popped_in_order: "reach P s0 s \<Longrightarrow> popped (trace s) = take (length (popped (trace s))) (pushed (trace s))"
  using reach_fifo [of s] by simp

lemma nothing_lost:
  "reach P s0 s \<Longrightarrow> mset (pushed (trace s)) = mset (popped (trace s)) + mset (elems s)"
  using reach_fifo [of s] by simp

lemma drained_all: "reach P s0 s \<Longrightarrow> elems s = [] \<longleftrightarrow> popped (trace s) = pushed (trace s)"
  using reach_fifo [of s] by simp

lemma size_bound: "reach P s0 s \<Longrightarrow> length (popped (trace s)) \<le> length (pushed (trace s))"
  using reach_fifo [of s] by simp

end

end
