(* ===== verification/Ms_Queue_Props.thy ===== *)
theory Ms_Queue_Props imports Ms_Queue_Safe Fifo "HOL-Library.Sublist" begin

text \<open>
  What the queue promises its callers, for every schedule of every set of threads over the weak
  memory: no undefined behaviour, first in first out, every element dequeued at most once, the
  order of each producer kept, calls and returns matched to one publication each, and an empty
  answer only when nothing the caller knows of is left.
\<close>

section \<open>The abstract queue\<close>

fun enqueued :: "'a event list \<Rightarrow> (node \<times> 'a) list" where
  "enqueued [] = []"
| "enqueued (Linked t a g v # tr) = ((a, g), v) # enqueued tr"
| "enqueued (Unlinked t a g v # tr) = enqueued tr"
| "enqueued (Begin t x # tr) = enqueued tr"
| "enqueued (Return t y # tr) = enqueued tr"

fun dequeued :: "'a event list \<Rightarrow> (node \<times> 'a) list" where
  "dequeued [] = []"
| "dequeued (Linked t a g v # tr) = dequeued tr"
| "dequeued (Unlinked t a g v # tr) = ((a, g), v) # dequeued tr"
| "dequeued (Begin t x # tr) = dequeued tr"
| "dequeued (Return t y # tr) = dequeued tr"

fun enqueued_by :: "nat \<Rightarrow> 'a event list \<Rightarrow> (node \<times> 'a) list" where
  "enqueued_by u [] = []"
| "enqueued_by u (Linked t a g v # tr) =
     (if t = u then ((a, g), v) # enqueued_by u tr else enqueued_by u tr)"
| "enqueued_by u (Unlinked t a g v # tr) = enqueued_by u tr"
| "enqueued_by u (Begin t x # tr) = enqueued_by u tr"
| "enqueued_by u (Return t y # tr) = enqueued_by u tr"

text \<open>The elements in memory: the nodes after the one \<open>p\<close> points to, by following \<^verbatim>\<open>next\<close>
  at most \<open>k\<close> times.\<close>

fun items :: "nat \<Rightarrow> ('x loc, 'a cell) memory \<Rightarrow> nat option \<Rightarrow> (node \<times> 'a) list" where
  "items 0 M p = []"
| "items (Suc k) M None = []"
| "items (Suc k) M (Some a) =
     (case ptr (fst (last (msgs M (Next a)))) of
        None \<Rightarrow> []
      | Some b \<Rightarrow> ((b, gen M (Next b)), value_of M b) # items k M (Some b))"

definition head_of :: "('x loc, 'a cell) memory \<Rightarrow> nat option" where
  "head_of M = ptr (fst (last (msgs M Head)))"

definition tail_of :: "('x loc, 'a cell) memory \<Rightarrow> nat option" where
  "tail_of M = ptr (fst (last (msgs M Tail)))"

text \<open>There are at most as many links as events, so the walk reaches the end.\<close>

definition elements :: "('x loc, 'a cell, 'p, 'a event) state \<Rightarrow> (node \<times> 'a) list" where
  "elements s = items (length (trace s)) (mem s) (head_of (mem s))"

lemma chain_enqueued: "chain d tr = (d, 1) # map fst (enqueued tr)"
  unfolding chain_def by (induction tr rule: enqueued.induct) auto

lemma length_enqueued: "length (enqueued tr) \<le> length tr"
  by (induction tr rule: enqueued.induct) auto

lemma replay_enqueued: "replay tr q = Some q' \<Longrightarrow> q @ enqueued tr = dequeued tr @ q'"
  by (induction tr q rule: replay.induct) (auto split: list.splits if_splits)

lemma ptr_cases: "ptr x = Some a \<Longrightarrow> x = Ptr (Some a)"
  by (cases x) auto

lemma items_from:
  assumes core: "core M N h t"
  shows "i < length N \<Longrightarrow> length N \<le> Suc i + k \<Longrightarrow>
    items k M (Some (fst (N ! i))) = map (\<lambda>n. (n, payload M n)) (drop (Suc i) N)"
proof (induction k arbitrary: i)
  case 0
  then show ?case by simp
next
  case (Suc k)
  let ?a = "fst (N ! i)"
  have ms: "map fst (msgs M (Next ?a)) = links N i" by (rule next_msgs [OF core Suc.prems(1)])
  then have ne: "msgs M (Next ?a) \<noteq> []" by (auto simp: links_def split: if_splits)
  have last: "fst (last (msgs M (Next ?a))) = last (links N i)"
    using last_map [OF ne, of fst] ms by simp
  show ?case
  proof (cases "Suc i < length N")
    case False
    then show ?thesis using last by (simp add: links_def)
  next
    case True
    have n: "node_at M (N ! Suc i) (links N (Suc i))" by (rule node_in_shape [OF core True])
    then have "gen M (Next (fst (N ! Suc i))) = snd (N ! Suc i)" by (simp add: node_at_def)
    moreover have "value_of M (fst (N ! Suc i)) = payload M (N ! Suc i)"
      using value_of_payload [of M "fst (N ! Suc i)" "snd (N ! Suc i)"] n by simp
    ultimately show ?thesis
      using last Suc.IH [OF True] Suc.prems(2) Cons_nth_drop_Suc [OF True, symmetric] True
      by (simp add: links_def)
  qed
qed

lemma last_swings:
  assumes "map fst xs = swings N k" "k < length N"
  shows "fst (last xs) = Ptr (Some (fst (N ! k)))"
proof -
  have "xs \<noteq> []" using assms(1) by (auto simp: swings_def)
  then have "fst (last xs) = last (swings N k)" using last_map [of xs fst] assms(1) by simp
  also have "\<dots> = Ptr (Some (fst (N ! k)))"
    using assms(2) by (simp add: swings_def last_map take_Suc_conv_app_nth)
  finally show ?thesis .
qed

lemma head_of_core: "core M N h t \<Longrightarrow> head_of M = Some (fst (N ! h))"
  using last_swings [of "msgs M Head" N h] head_hist(1) [of M N h t] core_shape [of M N h t]
  by (simp add: head_of_def shape_def)

lemma tail_of_core: "core M N h t \<Longrightarrow> tail_of M = Some (fst (N ! t))"
  using last_swings [of "msgs M Tail" N t] tail_hist(1) [of M N h t] core_shape [of M N h t]
  by (simp add: tail_of_def shape_def)

lemma inv_elements:
  assumes "queue_inv d s"
  obtains h t where "core (mem s) (chain d (trace s)) h t"
    "elements s = contents (mem s) (chain d (trace s)) h"
    "enqueued (trace s) = dequeued (trace s) @ elements s" "length (dequeued (trace s)) = h"
proof -
  let ?N = "chain d (trace s)"
  obtain h t where co: "core (mem s) ?N h t" "replay (trace s) [] = Some (contents (mem s) ?N h)"
    by (rule queue_inv_core [OF assms])
  have h: "h < length ?N" using core_shape [OF co(1)] by (simp add: shape_def)
  have "length ?N \<le> Suc h + length (trace s)"
    using length_enqueued [of "trace s"] by (simp add: chain_enqueued)
  then have el: "elements s = contents (mem s) ?N h"
    using items_from [OF co(1) h] head_of_core [OF co(1)] by (simp add: elements_def contents_def)
  have eq: "enqueued (trace s) = dequeued (trace s) @ elements s"
    using replay_enqueued [OF co(2)] el by simp
  have "length (contents (mem s) ?N h) = length ?N - Suc h" by (simp add: contents_def)
  then have "length (dequeued (trace s)) = h"
    using arg_cong [OF eq, of length] el h by (simp add: chain_enqueued)
  then show thesis using that co(1) el eq by blast
qed

interpretation leaky_fifo: fifo_system "leaky_queue shipped" "leaky_start_state dflt a" "queue_inv a"
    enqueued dequeued elements for dflt :: 'a and a :: nat
  by unfold_locales (rule inv_elements)

lemma distinct_enqueued: "queue_inv d s \<Longrightarrow> distinct (map fst (enqueued (trace s)))"
proof (erule inv_elements)
  fix h t assume "core (mem s) (chain d (trace s)) h t"
  then have "distinct (map fst (chain d (trace s)))" by (simp add: core_def shape_def)
  then have "distinct (map fst (map fst (enqueued (trace s))))" by (simp add: chain_enqueued)
  then show ?thesis using distinct_map by blast
qed

text \<open>What a thread's view knows of the links, and what an empty answer means.\<close>

definition seen_enqueues :: "nat \<Rightarrow> nat \<Rightarrow> ('x loc, 'a cell, 'p, 'a event) state \<Rightarrow> nat" where
  "seen_enqueues d t s =
     length (filter (\<lambda>n. 2 \<le> cur (mem s) t (nx n)) (chain d (trace s)))"

lemma filter_prefix_length:
  assumes "i \<le> length xs" "\<And>j. i \<le> j \<Longrightarrow> j < length xs \<Longrightarrow> \<not> P (xs ! j)"
  shows "length (filter P xs) \<le> i"
proof -
  have "filter P (drop i xs) = []"
    using assms(2) by (auto simp: filter_empty_conv in_set_conv_nth)
  then have "length (filter P xs) = length (filter P (take i xs))"
    by (metis append_Nil2 append_take_drop_id filter_append)
  also have "\<dots> \<le> i" by (rule order.trans [OF length_filter_le]) simp
  finally show ?thesis .
qed

lemma drained_seen:
  assumes inv: "queue_inv d s"
    and dr: "drained (mem s) (chain d (trace s)) (cur (mem s) t)"
  shows "seen_enqueues d t s \<le> length (dequeued (trace s))"
proof -
  let ?N = "chain d (trace s)" let ?V = "cur (mem s) t"
  obtain h k where co: "core (mem s) ?N h k" "length (dequeued (trace s)) = h"
    by (rule inv_elements [OF inv])
  obtain i where i: "i < length ?N" "i + 2 \<le> length (hist (mem s) Head 1)" "?V (nx (?N ! i)) < 2"
    using dr by (auto simp: drained_def)
  have "length (hist (mem s) Head 1) = h + 2"
    using head_hist(2) [OF co(1)] core_shape [OF co(1)] by (simp add: latest_def msgs_def shape_def)
  then have "i \<le> h" using i(2) by simp
  have "length (filter (\<lambda>n. 2 \<le> ?V (nx n)) ?N) \<le> i"
  proof (rule filter_prefix_length)
    fix j assume j: "i \<le> j" "j < length ?N"
    have cl: "closed ?N ?V" using thread_okD(4) [OF queue_inv_thread(1) [OF inv, of t]] .
    show "\<not> 2 \<le> ?V (nx (?N ! j))"
    proof
      assume two: "2 \<le> ?V (nx (?N ! j))"
      have "2 \<le> ?V (nx (?N ! i))"
      proof (cases "i = j")
        case False
        then show ?thesis using cl j two unfolding closed_def by force
      qed (use two in simp)
      then show False using i(3) by simp
    qed
  qed (use i(1) in simp)
  then show ?thesis using \<open>i \<le> h\<close> co(2) by (simp add: seen_enqueues_def)
qed

lemma enqueued_by_sub:
  "distinct (map fst (enqueued tr)) \<Longrightarrow>
     filter (\<lambda>x. x \<in> set (enqueued_by u tr)) (enqueued tr) = enqueued_by u tr"
proof -
  have sub: "set (enqueued_by u tr) \<subseteq> set (enqueued tr)" for tr :: "'a event list"
    by (induction tr rule: enqueued.induct) auto
  show "distinct (map fst (enqueued tr)) \<Longrightarrow> ?thesis"
  proof (induction tr rule: enqueued.induct)
    case (2 t a g v tr)
    have out: "((a, g), v) \<notin> set (enqueued tr)" using "2.prems" by (auto simp: image_iff)
    then have "filter (\<lambda>x. x = ((a, g), v) \<or> x \<in> set (enqueued_by u tr)) (enqueued tr) =
        filter (\<lambda>x. x \<in> set (enqueued_by u tr)) (enqueued tr)"
      by (auto intro!: filter_cong)
    then show ?case using 2 out sub [of tr] by (auto simp: set_eq_iff)
  qed simp_all
qed

section \<open>Two concrete runs\<close>

text \<open>Thread 1 enqueues 42, thread 2 then takes it, reading as late as it can.\<close>

definition demo_run :: "nat op command list" where
  "demo_run =
     Invoke 1 (Enqueue 42) # map (\<lambda>k. Step 1 k True) [9, 0, 0, 2, 1, 2, 1, 2, 0, 0] @
     Invoke 2 Try_dequeue # map (\<lambda>k. Step 2 k True) [0, 0, 2, 3, 2, 0, 2, 0, 2, 0, 0, 0, 0]"

definition demo_trace :: "nat event list" where
  "demo_trace =
     [Begin 1 (Enqueue 42), Linked 1 9 1 42, Return 1 Enqueued,
      Begin 2 Try_dequeue, Unlinked 2 9 1 42, Return 2 (Dequeued (Some 42))]"

lemma demo_observed:
  "observe 2 (run (leaky_queue shipped) demo_run (leaky_start_state 0 7)) = Some ((Idle, ()), demo_trace)"
  by code_simp

lemma demo_reached:
  obtains s where "reach (leaky_queue shipped) (leaky_start_state (0 :: nat) 7) s" "trace s = demo_trace"
  by (rule observe_reach [OF demo_observed]) blast

text \<open>Thread 2 finds the queue empty, because it has not seen what thread 1 linked.\<close>

definition empty_run :: "nat op command list" where
  "empty_run =
     Invoke 1 (Enqueue 42) # map (\<lambda>k. Step 1 k True) [9, 0, 0, 2, 1, 2, 1, 2, 0, 0] @
     Invoke 2 Try_dequeue # map (\<lambda>k. Step 2 k True) [0, 0, 2, 2, 1, 0, 2, 0]"

lemma empty_observed:
  "observe 2 (run (leaky_queue shipped) empty_run (leaky_start_state 0 7)) =
     Some ((Finish (Dequeued None), ()),
       [Begin 1 (Enqueue 42), Linked 1 9 1 42, Return 1 Enqueued, Begin 2 Try_dequeue])"
  by code_simp

lemma empty_reached:
  obtains s where "reach (leaky_queue shipped) (leaky_start_state (0 :: nat) 7) s"
    "thr s 2 = (Finish (Dequeued None), ())"
    "trace s = [Begin 1 (Enqueue 42), Linked 1 9 1 42, Return 1 Enqueued, Begin 2 Try_dequeue]"
  by (rule observe_reach [OF empty_observed]) blast

section \<open>The properties\<close>

text \<open>
  C1.  No schedule of \<^verbatim>\<open>enqueue\<close>, \<^verbatim>\<open>try_dequeue\<close> and \<^verbatim>\<open>empty\<close> calls by any
  threads, with any stale reads, spurious failures and allocations, runs into a data race, a null
  dereference, a freed or unpublished node, or any other undefined behaviour.
\<close>

theorem queue_no_undefined:
  "run (leaky_queue shipped) cs (leaky_start_state dflt a) \<noteq> Crashed e"
  by (rule leaky.run_not_crashed)

text \<open>
  C2.  First in first out: at every moment the nodes and values linked so far, in the order of
  their compare-exchanges, are those unlinked so far, in order, followed by what a walk from
  \<^verbatim>\<open>head_\<close> finds in memory.
\<close>

theorem queue_fifo:
  "reach (leaky_queue shipped) (leaky_start_state dflt a) s \<Longrightarrow>
     enqueued (trace s) = dequeued (trace s) @ elements s"
  by (rule leaky_fifo.reach_fifo)

theorem queue_fifo_witness:
  "\<exists>s. trace s = demo_trace \<and>
     enqueued demo_trace = dequeued demo_trace @ elements (s :: nat leaky_state)"
proof -
  obtain s where s: "reach (leaky_queue shipped) (leaky_start_state (0 :: nat) 7) s" "trace s = demo_trace"
    by (rule demo_reached)
  show ?thesis using queue_fifo [OF s(1)] s(2) by auto
qed

text \<open>
  C8.  Every enqueue is dequeued at most once and nothing is dequeued that was not enqueued:
  no node is linked twice, none is unlinked twice, and each unlinked pair of a node and a value
  was linked.
\<close>

theorem queue_exactly_once:
  "reach (leaky_queue shipped) (leaky_start_state dflt a) s \<Longrightarrow>
     distinct (map fst (enqueued (trace s))) \<and> distinct (map fst (dequeued (trace s))) \<and>
     set (dequeued (trace s)) \<subseteq> set (enqueued (trace s))"
proof (intro conjI)
  assume "reach (leaky_queue shipped) (leaky_start_state dflt a) s"
  then have inv: "queue_inv a s" by (rule leaky.reach_inv)
  show d: "distinct (map fst (enqueued (trace s)))" by (rule distinct_enqueued [OF inv])
  obtain h t where eq: "enqueued (trace s) = dequeued (trace s) @ elements s"
    by (rule inv_elements [OF inv])
  show "distinct (map fst (dequeued (trace s)))" using d eq by simp
  show "set (dequeued (trace s)) \<subseteq> set (enqueued (trace s))" using eq by simp
qed

theorem queue_exactly_once_witness:
  "distinct (map fst (dequeued demo_trace)) \<and> set (dequeued demo_trace) \<subseteq> set (enqueued demo_trace)"
proof -
  obtain s where s: "reach (leaky_queue shipped) (leaky_start_state (0 :: nat) 7) s" "trace s = demo_trace"
    by (rule demo_reached)
  show ?thesis using queue_exactly_once [OF s(1)] s(2) by auto
qed

text \<open>
  C9.  Each producer's elements leave in the order it enqueued them: among what has been
  dequeued, the elements of thread \<open>u\<close> are a prefix of what \<open>u\<close> has enqueued.
\<close>

theorem queue_per_producer:
  "reach (leaky_queue shipped) (leaky_start_state dflt a) s \<Longrightarrow>
     prefix (filter (\<lambda>x. x \<in> set (enqueued_by u (trace s))) (dequeued (trace s)))
       (enqueued_by u (trace s))"
proof -
  assume "reach (leaky_queue shipped) (leaky_start_state dflt a) s"
  then have inv: "queue_inv a s" by (rule leaky.reach_inv)
  obtain h t where eq: "enqueued (trace s) = dequeued (trace s) @ elements s"
    by (rule inv_elements [OF inv])
  show ?thesis
    using enqueued_by_sub [OF distinct_enqueued [OF inv], of u] eq
    by (metis filter_append prefixI)
qed

theorem queue_per_producer_witness:
  "prefix (filter (\<lambda>x. x \<in> set (enqueued_by 1 demo_trace)) (dequeued demo_trace)) (enqueued_by 1 demo_trace)"
proof -
  obtain s where s: "reach (leaky_queue shipped) (leaky_start_state (0 :: nat) 7) s" "trace s = demo_trace"
    by (rule demo_reached)
  show ?thesis using queue_per_producer [OF s(1), of 1] s(2) by simp
qed

text \<open>
  C10.  Calls, publications and returns match in every thread: an \<^verbatim>\<open>enqueue(v)\<close> links one
  node holding \<open>v\<close> between its call and its return, a \<^verbatim>\<open>try_dequeue\<close> that returns a
  value unlinked one node holding that value, one that returns nothing unlinked none, and
  \<^verbatim>\<open>empty\<close> does neither.
\<close>

theorem queue_protocol:
  "reach (leaky_queue shipped) (leaky_start_state dflt a) s \<Longrightarrow> status t (trace s) \<noteq> None"
  using queue_inv_thread(2) [OF leaky.reach_inv, of dflt a s t] by simp

theorem queue_protocol_witness: "status 2 demo_trace \<noteq> None \<and> status 1 demo_trace = Some Ready"
proof -
  obtain s where s: "reach (leaky_queue shipped) (leaky_start_state (0 :: nat) 7) s" "trace s = demo_trace"
    by (rule demo_reached)
  show ?thesis using queue_protocol [OF s(1), of 2] s(2) by (simp add: status_def demo_trace_def)
qed

text \<open>
  C11.  An empty answer is honest: when \<^verbatim>\<open>try_dequeue\<close> is about to return nothing, or
  \<^verbatim>\<open>empty\<close> true, at least as many elements have been dequeued as the thread has seen
  enqueued, so (with C2) every enqueue that happened before the answer is gone from the queue.
\<close>

theorem queue_empty_honest:
  "reach (leaky_queue shipped) (leaky_start_state dflt a) s \<Longrightarrow>
     fst (thr s t) = Finish (Dequeued None) \<or> fst (thr s t) = Finish (Emptiness True) \<Longrightarrow>
     seen_enqueues a t s \<le> length (dequeued (trace s))"
proof -
  assume r: "reach (leaky_queue shipped) (leaky_start_state dflt a) s"
    and at: "fst (thr s t) = Finish (Dequeued None) \<or> fst (thr s t) = Finish (Emptiness True)"
  have inv: "queue_inv a s" by (rule leaky.reach_inv [OF r])
  show ?thesis
    by (rule drained_seen [OF inv]) (use thread_okD(1) [OF queue_inv_thread(1) [OF inv, of t]] at in auto)
qed

theorem queue_empty_honest_witness:
  "\<exists>s. fst (thr (s :: nat leaky_state) 2) = Finish (Dequeued None) \<and> length (enqueued (trace s)) = 1 \<and>
     seen_enqueues 7 2 s = 0"
proof -
  obtain s where s: "reach (leaky_queue shipped) (leaky_start_state (0 :: nat) 7) s"
    "thr s 2 = (Finish (Dequeued None), ())"
    "trace s = [Begin 1 (Enqueue 42), Linked 1 9 1 42, Return 1 Enqueued, Begin 2 Try_dequeue]"
    by (rule empty_reached)
  show ?thesis using queue_empty_honest [OF s(1), of 2] s(2,3) by (intro exI [of _ s]) auto
qed

text \<open>
  C12.  The invariant the comment in \<^verbatim>\<open>try_dequeue\<close> rests on: a thread that passed the
  recheck of \<^verbatim>\<open>head_\<close> with \<^verbatim>\<open>head != tail\<close> holds a non-null \<^verbatim>\<open>next\<close>,
  although its loads of \<^verbatim>\<open>tail_\<close> and \<^verbatim>\<open>head->next\<close> may both be stale.
\<close>

theorem queue_next_not_null:
  "reach (leaky_queue shipped) (leaky_start_state dflt a) s \<Longrightarrow>
     fst (thr s t) = D_check head tail nxt \<Longrightarrow> head \<noteq> tail \<Longrightarrow> nxt \<noteq> None"
proof -
  assume r: "reach (leaky_queue shipped) (leaky_start_state dflt a) s"
    and at: "fst (thr s t) = D_check head tail nxt" and ne: "head \<noteq> tail"
  have "pc_ok (mem s) (chain a (trace s)) (cur (mem s) t) (D_check head tail nxt)"
    using thread_okD(1) [OF queue_inv_thread(1) [OF leaky.reach_inv [OF r], of t]] at by simp
  then obtain i j where "nth_node (chain a (trace s)) head i" "nth_node (chain a (trace s)) tail j"
    "nxt = None \<longrightarrow> i = j"
    by (auto simp: snapshot_def head_at_def tail_at_def split: if_splits)
  then show ?thesis using ne by (auto simp: nth_node_def)
qed

definition check_run :: "nat op command list" where
  "check_run =
     Invoke 1 (Enqueue 42) # map (\<lambda>k. Step 1 k True) [9, 0, 0, 2, 1, 2, 1, 2, 0, 0] @
     Invoke 2 Try_dequeue # map (\<lambda>k. Step 2 k True) [0, 0, 2, 3, 2, 0]"

lemma check_observed:
  "observe 2 (run (leaky_queue shipped) check_run (leaky_start_state 0 7)) =
     Some ((D_check (Some 7) (Some 9) (Some 9), ()),
       [Begin 1 (Enqueue 42), Linked 1 9 1 42, Return 1 Enqueued, Begin 2 Try_dequeue])"
  by code_simp

theorem queue_next_not_null_witness:
  "\<exists>s nxt. thr (s :: nat leaky_state) 2 = (D_check (Some 7) (Some 9) nxt, ()) \<and> nxt \<noteq> None"
proof -
  obtain s where s: "reach (leaky_queue shipped) (leaky_start_state (0 :: nat) 7) s"
    "thr s 2 = (D_check (Some 7) (Some 9) (Some 9), ())"
    by (rule observe_reach [OF check_observed]) blast
  have "Some (9 :: nat) \<noteq> None"
    by (rule queue_next_not_null [OF s(1), of 2 "Some 7" "Some 9"]) (simp_all add: s(2))
  then show ?thesis using s(2) by blast
qed

text \<open>
  C13.  \<^verbatim>\<open>tail_\<close> lags behind the last node by at most one link, and never behind
  \<^verbatim>\<open>head_\<close>: what a walk from \<^verbatim>\<open>tail_\<close> finds is at most one element, and the end of
  what a walk from \<^verbatim>\<open>head_\<close> finds.
\<close>

theorem queue_tail_lag:
  "reach (leaky_queue shipped) (leaky_start_state dflt a) s \<Longrightarrow>
     length (items (length (trace s)) (mem s) (tail_of (mem s))) \<le> 1 \<and>
     suffix (items (length (trace s)) (mem s) (tail_of (mem s))) (elements s)"
proof -
  let ?N = "chain a (trace s)"
  assume "reach (leaky_queue shipped) (leaky_start_state dflt a) s"
  then have inv: "queue_inv a s" by (rule leaky.reach_inv)
  obtain h t where co: "core (mem s) ?N h t" "elements s = contents (mem s) ?N h"
    by (rule inv_elements [OF inv])
  have t: "h \<le> t" "t < length ?N" "length ?N \<le> t + 2"
    using core_shape [OF co(1)] by (simp_all add: shape_def)
  have "length ?N \<le> Suc t + length (trace s)"
    using length_enqueued [of "trace s"] by (simp add: chain_enqueued)
  then have it: "items (length (trace s)) (mem s) (tail_of (mem s)) = contents (mem s) ?N t"
    using items_from [OF co(1) t(2)] tail_of_core [OF co(1)] by (simp add: contents_def)
  have "suffix (drop (Suc t) ?N) (drop (Suc h) ?N)"
    using t(1) suffix_drop [of "t - h" "drop (Suc h) ?N"] by simp
  then show ?thesis using it co(2) t(3) by (simp add: contents_def map_mono_suffix)
qed

theorem queue_tail_lag_witness:
  "\<exists>s. trace (s :: nat leaky_state) = demo_trace \<and>
     length (items (length (trace s)) (mem s) (tail_of (mem s))) \<le> 1"
proof -
  obtain s where s: "reach (leaky_queue shipped) (leaky_start_state (0 :: nat) 7) s" "trace s = demo_trace"
    by (rule demo_reached)
  show ?thesis using queue_tail_lag [OF s(1)] s(2) by auto
qed

text \<open>
  With the leaky reclaimer nothing is freed while the queue is in use: every node ever linked
  is still there, with its next field and its value.
\<close>

lemma queue_leaks:
  "reach (leaky_queue shipped) (leaky_start_state dflt a) s \<Longrightarrow> ((b, g), v) \<in> set (enqueued (trace s)) \<Longrightarrow>
     live (mem s) (Next b) \<and> live (mem s) (Value b) \<and> gen (mem s) (Next b) = g"
proof -
  assume r: "reach (leaky_queue shipped) (leaky_start_state dflt a) s"
    and m: "((b, g), v) \<in> set (enqueued (trace s))"
  obtain h t where co: "core (mem s) (chain a (trace s)) h t"
    by (rule inv_elements [OF leaky.reach_inv [OF r]])
  have "(b, g) \<in> set (chain a (trace s))" using m by (force simp: chain_enqueued)
  then obtain i where "i < length (chain a (trace s))" "chain a (trace s) ! i = (b, g)"
    unfolding in_set_conv_nth by blast
  then show ?thesis using node_in_shape [OF co, of i] by (simp add: node_at_def)
qed

lemma queue_leaks_witness:
  "\<exists>s. live (mem (s :: nat leaky_state)) (Next 9) \<and> dequeued (trace s) = [((9, 1), 42)]"
proof -
  obtain s where s: "reach (leaky_queue shipped) (leaky_start_state (0 :: nat) 7) s" "trace s = demo_trace"
    by (rule demo_reached)
  have "((9, 1), 42) \<in> set (enqueued (trace s))" by (simp add: s(2) demo_trace_def)
  then show ?thesis using queue_leaks [OF s(1)] s(2) by (auto simp: demo_trace_def)
qed

end
