(* ===== verification/Queue_Model.thy ===== *)
theory Queue_Model imports Ms_Queue_Props begin

text \<open>
  \<^verbatim>\<open>model/queue_model.hpp\<close>: the port of the queue that the repository model-checks, with
  one memory order weakened per \<^verbatim>\<open>queue_bug\<close>.  Its operations are those of theory
  Ms_Queue with the leaky reclaimer (the port writes the fields of a node one by one before
  publishing it, which \<open>make_node\<close> does at allocation).  The two negative runs are concrete
  schedules; the shipped orders have none.
\<close>

datatype queue_bug = bug_none | bug_relaxed_tail_load | bug_relaxed_link_cas

definition orders_of :: "queue_bug \<Rightarrow> orders" where
  "orders_of bug =
     \<lparr>tail_mo = (if bug = bug_relaxed_tail_load then relaxed else acquire),
      link_mo = (if bug = bug_relaxed_link_cas then relaxed else release)\<rparr>"

definition ms_queue_m :: "queue_bug
    \<Rightarrow> (unit loc, 'a cell, ('a, unit, unit leaky_pc) pc \<times> unit, 'a op, 'a event) program" where
  "ms_queue_m bug = leaky_queue (orders_of bug)"

text \<open>
  Thread 1 links and swings; thread 2 loads the new \<^verbatim>\<open>tail_\<close> relaxed, so it may still read
  the old null in \<^verbatim>\<open>head->next\<close>.
\<close>

definition relaxed_tail_run :: "nat op command list" where
  "relaxed_tail_run =
     Invoke 1 (Enqueue 42) # map (\<lambda>k. Step 1 k True) [9, 0, 0, 2, 1, 2, 1, 2] @
     Invoke 2 Try_dequeue # map (\<lambda>k. Step 2 k True) [0, 0, 2, 3, 1, 0, 2, 0]"

text \<open>
  Thread 1 links but does not swing; thread 2 helps \<^verbatim>\<open>tail_\<close> forward itself, and so reaches
  a node whose construction nothing has published to it.
\<close>

definition relaxed_link_run :: "nat op command list" where
  "relaxed_link_run =
     Invoke 1 (Enqueue 42) # map (\<lambda>k. Step 1 k True) [9, 0, 0, 2, 1, 2, 1] @
     Invoke 2 Try_dequeue # map (\<lambda>k. Step 2 k True) [0, 0, 2, 2, 2, 0, 2, 2, 0, 2, 3, 2, 0, 2, 0]"

lemma shipped_orders: "orders_of bug_none = shipped"
  by (simp add: orders_of_def shipped_def)

lemma relaxed_tail_crash:
  "crash_of (run (ms_queue_m bug_relaxed_tail_load) relaxed_tail_run (leaky_start_state 0 7)) = Some Null_deref"
  by code_simp

lemma relaxed_link_crash:
  "crash_of (run (ms_queue_m bug_relaxed_link_cas) relaxed_link_run (leaky_start_state 0 7)) = Some Data_race"
  by code_simp

text \<open>
  With the load of \<^verbatim>\<open>tail_\<close> relaxed, one producer and one consumer are enough to
  reach \<^verbatim>\<open>head != tail\<close> with a null \<^verbatim>\<open>next\<close>, which the code then dereferences.
\<close>

lemma relaxed_tail_null_deref:
  "\<exists>cs. run (ms_queue_m bug_relaxed_tail_load) cs (leaky_start_state (0 :: nat) 7) = Crashed Null_deref"
  using crash_of_Some [OF relaxed_tail_crash] by blast

text \<open>
  With the link compare-exchange relaxed, a dequeuer's plain read of a value races with
  the construction of the node.
\<close>

lemma relaxed_link_race:
  "\<exists>cs. run (ms_queue_m bug_relaxed_link_cas) cs (leaky_start_state (0 :: nat) 7) = Crashed Data_race"
  using crash_of_Some [OF relaxed_link_crash] by blast

text \<open>
  C15.  The verdicts the checking driver expects of the queue configurations, for schedules of any
  length and any number of threads: exactly the shipped orders are clean.
\<close>

theorem queue_model_verdicts:
  "(\<forall>cs e. run (ms_queue_m bug) cs (leaky_start_state (0 :: nat) 7) \<noteq> Crashed e) \<longleftrightarrow> bug = bug_none"
proof (cases bug)
  case bug_none
  then show ?thesis
    by (simp add: ms_queue_m_def shipped_orders leaky.run_not_crashed)
next
  case bug_relaxed_tail_load
  then show ?thesis using crash_of_Some [OF relaxed_tail_crash] by blast
next
  case bug_relaxed_link_cas
  then show ?thesis using crash_of_Some [OF relaxed_link_crash] by blast
qed

end
