(* ===== verification/Memory_Now.thy ===== *)
theory Memory_Now imports Memory_Facts begin

text \<open>
  The newest value of every location.  Loads may return older ones, but read-modify-writes, plain
  reads and everything that writes work on this one: seen through it, the memory is an ordinary
  heap, and an invariant that only speaks of atomically updated links can be proved on that heap.
\<close>

definition newest :: "('l, 'v) memory \<Rightarrow> 'l \<Rightarrow> 'v" where
  "newest M l = fst (last (msgs M l))"

text \<open>The locations an action may change or free.\<close>

fun writes :: "('l, 'v) action \<Rightarrow> nat \<Rightarrow> 'l set" where
  "writes (Load l mo) k = {}"
| "writes (Store l v mo) k = {l}"
| "writes (Cas weak l e d smo fmo) k = {l}"
| "writes (Rmw l f mo) k = {l}"
| "writes Fence k = {}"
| "writes (Read l) k = {}"
| "writes (Write l v) k = {l}"
| "writes (New f) k = fst ` set (f k)"
| "writes (Delete ls) k = set ls"
| "writes (Fail e) k = {}"
| "writes Skip k = {}"

lemma newest_cong: "hist M' = hist M \<Longrightarrow> gen M' = gen M \<Longrightarrow> newest M' = newest M"
  by (simp add: newest_def msgs_def fun_eq_iff)

lemma latest_pos: "mem_wf M \<Longrightarrow> 0 < seen M t l \<Longrightarrow> 0 < latest M l"
  using seen_le_latest [of M t l] by linarith

lemma newest_nth: "0 < latest M l \<Longrightarrow> fst (msgs M l ! (latest M l - 1)) = newest M l"
  by (simp add: newest_def latest_def last_conv_nth)

lemma newest_write_next: "newest (write_next t l v mo W M) = (newest M)(l := v)"
  by (auto simp: newest_def msgs_def write_next_hist)

lemma newest_rmw: "newest (rmw_at t l v mo M) = (newest M)(l := v)"
  by (auto simp: newest_def msgs_def rmw_at_hist)

lemma newest_birth: "newest (birth t lv M) = (newest M)(fst lv := snd lv)"
  by (auto simp: newest_def msgs_def birth_def Let_def)

lemma live_birth: "live (birth t lv M) = (live M)(fst lv := True)"
  by (simp add: birth_def Let_def)

lemma newest_fold_birth: "newest (fold (birth t) fs M) = fold (\<lambda>(l, v) f. f(l := v)) fs (newest M)"
  by (induction fs arbitrary: M) (auto simp: newest_birth case_prod_unfold)

lemma live_fold_birth: "live (fold (birth t) fs M) = fold (\<lambda>(l, v) f. f(l := True)) fs (live M)"
  by (induction fs arbitrary: M) (auto simp: live_birth case_prod_unfold)

lemma bury_parts:
  "hist (fold bury ls M) = hist M" "gen (fold bury ls M) = gen M"
  "live (fold bury ls M) = (\<lambda>l. live M l \<and> l \<notin> set ls)"
  by (induction ls arbitrary: M) (auto simp: bury_def)

lemma newest_bury: "newest (fold bury ls M) = newest M"
  by (rule newest_cong) (simp_all add: bury_parts)

section \<open>One step on the heap\<close>

lemma now_load:
  "mem_step t (Load l mo) c M = Done r M' \<Longrightarrow> newest M' = newest M \<and> live M' = live M"
  by (auto simp: load_Done intro: newest_cong)

lemma now_read:
  "mem_wf M \<Longrightarrow> mem_step t (Read l) c M = Done r M' \<Longrightarrow>
    r = Val (newest M l) \<and> live M l \<and> newest M' = newest M \<and> live M' = live M"
  by (auto simp: read_Done newest_nth [unfolded One_nat_def] latest_pos intro!: newest_cong)

lemma now_store:
  "mem_step t (Store l v mo) c M = Done r M' \<Longrightarrow>
    live M l \<and> newest M' = (newest M)(l := v) \<and> live M' = live M"
  by (auto simp: store_Done newest_write_next newest_cong [of "touch t l M" M])

lemma now_write:
  "mem_step t (Write l v) c M = Done r M' \<Longrightarrow>
    live M l \<and> newest M' = (newest M)(l := v) \<and> live M' = live M"
  by (auto simp: write_Done newest_write_next newest_cong [of "touch t l M" M])

lemma now_rmw:
  "mem_wf M \<Longrightarrow> mem_step t (Rmw l f mo) c M = Done r M' \<Longrightarrow>
    r = Val (newest M l) \<and> live M l \<and> newest M' = (newest M)(l := f (newest M l)) \<and> live M' = live M"
  by (auto simp: rmw_Done Let_def newest_rmw newest_nth [unfolded One_nat_def] latest_pos)

lemma now_cas:
  "mem_wf M \<Longrightarrow> mem_step t (Cas w l e d smo fmo) c M = Done r M' \<Longrightarrow>
    live M l \<and> live M' = live M \<and>
    (r = Swapped True (newest M l) \<and> newest M l = e \<and> newest M' = (newest M)(l := d) \<or>
     (\<exists>v. r = Swapped False v) \<and> newest M' = newest M)"
  by (auto simp: cas_Done Let_def newest_rmw newest_nth [unfolded One_nat_def] latest_pos
      intro: newest_cong)

lemma now_new:
  "mem_step t (New f) c M = Done r M' \<Longrightarrow>
    r = Addr (fst c) \<and> list_all (\<lambda>(l, _). \<not> live M l) (f (fst c)) \<and>
    newest M' = fold (\<lambda>(l, v) f. f(l := v)) (f (fst c)) (newest M) \<and>
    live M' = fold (\<lambda>(l, v) f. f(l := True)) (f (fst c)) (live M)"
  by (auto simp: new_Done newest_fold_birth live_fold_birth)

lemma now_delete:
  "mem_step t (Delete ls) c M = Done r M' \<Longrightarrow>
    list_all (live M) ls \<and> newest M' = newest M \<and> live M' = (\<lambda>l. live M l \<and> l \<notin> set ls)"
  by (auto simp: mem_step.simps list_ex_iff list_all_iff newest_bury bury_parts split: if_splits)

lemma now_fence:
  "mem_step t Fence c M = Done r M' \<Longrightarrow> newest M' = newest M \<and> live M' = live M"
  by (auto simp: sc_fence_def Let_def intro!: newest_cong)

lemma now_skip: "mem_step t Skip c M = Done r M' \<Longrightarrow> M' = M"
  by simp

lemma now_synchronize:
  "newest (synchronize t u M) = newest M" "live (synchronize t u M) = live M"
  by (auto simp: synchronize_def intro!: newest_cong)

lemma fold_upd_other: "l \<notin> fst ` set fs \<Longrightarrow> fold (\<lambda>(k, v) f. f(k := g v)) fs h l = h l"
  by (induction fs arbitrary: h) auto

lemma now_frame:
  assumes "mem_wf M" "mem_step t x c M = Done r M'" "l \<notin> writes x (fst c)"
  shows "newest M' l = newest M l" "live M' l = live M l"
proof -
  have "newest M' l = newest M l \<and> live M' l = live M l"
  proof (cases x)
    case (New f)
    with assms now_new [of t f c M r M'] fold_upd_other [of l "f (fst c)" "\<lambda>v. v"]
      fold_upd_other [of l "f (fst c)" "\<lambda>_. True"] show ?thesis by simp
  next
    case Fence
    with assms now_fence [of t c M r M'] show ?thesis by simp
  next
    case (Cas w y e d smo fmo)
    with assms now_cas [of M t w y e d smo fmo c r M'] show ?thesis by auto
  qed (use assms in \<open>auto dest: now_load now_read now_store now_write now_rmw now_delete now_fence\<close>)
  then show "newest M' l = newest M l" "live M' l = live M l" by simp_all
qed

text \<open>Evaluating a set-up sequence.\<close>

lemmas setup_simps = share_def mem_step.simps(2,8) blank_def guarded_def access_def seen_def
  place_def birth_def Let_def see_def latest_def msgs_def touch_def write_next_def push_def released_def

end
