(* ===== verification/Memory_Quiet.thy ===== *)
theory Memory_Quiet imports Memory_Now begin

text \<open>
  When nobody else can be in the way.  A plain write or a \<^verbatim>\<open>delete\<close> needs every access to
  its object to be in the view of the thread: \<open>timed\<close> ties the recorded accesses to the clocks
  of the threads, \<open>vouched\<close> says that the newest message of each location is known to somebody,
  and a thread that has joined all others may therefore free whatever is live.
\<close>

section \<open>Clocks and witnesses of messages\<close>

definition timed :: "('l, 'v) memory \<Rightarrow> bool" where
  "timed M \<longleftrightarrow>
     (\<forall>l g u n. (u, n) \<in> set (accs M l g) \<longrightarrow> n \<le> cur M u (Clock u) \<and> g \<le> gen M l)"

definition vouched :: "('l, 'v) memory \<Rightarrow> bool" where
  "vouched M \<longleftrightarrow> (\<forall>l. \<exists>u. latest M l \<le> seen M u l)"

text \<open>Everything that was ever accessed is in the view of thread \<open>t\<close>.\<close>

definition alone :: "('l, 'v) memory \<Rightarrow> nat \<Rightarrow> bool" where
  "alone M t \<longleftrightarrow> (\<forall>l. quiet M t l)"

lemma timedD: "timed M \<Longrightarrow> (u, n) \<in> set (accs M l g) \<Longrightarrow> n \<le> cur M u (Clock u)"
  and timed_gen: "timed M \<Longrightarrow> (u, n) \<in> set (accs M l g) \<Longrightarrow> g \<le> gen M l"
  by (auto simp: timed_def)

lemma joined_alone:
  assumes "timed M" "vouched M" "\<And>u. cur M u \<le> cur M t"
  shows "alone M t"
  unfolding alone_def quiet_def list_all_iff
proof (intro allI conjI ballI)
  fix l
  obtain u where "latest M l \<le> seen M u l" using assms(2) by (auto simp: vouched_def)
  also have "seen M u l \<le> seen M t l" unfolding seen_def by (rule view_leD [OF assms(3)])
  finally show "latest M l \<le> seen M t l" .
  fix x assume "x \<in> set (accs M l (gen M l))"
  then show "case x of (u, n) \<Rightarrow> n \<le> cur M t (Clock u)"
    using view_le_mono [OF assms(3) timedD [OF assms(1)]] by (auto split: prod.split)
qed

section \<open>Preservation\<close>

lemma timed_keep:
  assumes "timed M" "gen M' = gen M" "\<And>u. cur M u \<le> cur M' u"
    and "\<And>l g u n. (u, n) \<in> set (accs M' l g) \<Longrightarrow>
      (u, n) \<in> set (accs M l g) \<or> n \<le> cur M' u (Clock u) \<and> g = gen M l"
  shows "timed M'"
  unfolding timed_def
proof (intro allI impI)
  fix l g u n assume "(u, n) \<in> set (accs M' l g)"
  then consider "(u, n) \<in> set (accs M l g)" | "n \<le> cur M' u (Clock u)" "g = gen M l" using assms(4) by blast
  then show "n \<le> cur M' u (Clock u) \<and> g \<le> gen M' l"
  proof cases
    case 1
    then show ?thesis
      using timedD [OF assms(1)] timed_gen [OF assms(1)] view_le_mono [OF assms(3)] assms(2) by auto
  qed (simp add: assms(2))
qed

lemma timed_same:
  "timed M \<Longrightarrow> gen M' = gen M \<Longrightarrow> accs M' = accs M \<Longrightarrow> (\<And>u. cur M u \<le> cur M' u) \<Longrightarrow> timed M'"
  by (rule timed_keep [of M]) auto

lemma touch_accs_gen:
  "accs (touch t l M) x g =
     (if x = l \<and> g = gen M l then (t, Suc (cur M t (Clock t))) # accs M x g else accs M x g)"
  by (simp add: touch_def Let_def)

lemma touch_ticks: "cur (touch t l M) t (Clock t) = Suc (cur M t (Clock t))"
  by (simp add: touch_def Let_def)

lemma timed_touch: "timed M \<Longrightarrow> timed (touch t l M)"
  by (erule timed_keep) (auto simp: touch_mono touch_accs_gen touch_ticks split: if_splits)

lemma timed_see: "timed M \<Longrightarrow> timed (see t V M)"
  by (erule timed_same) simp_all

lemma timed_see_later: "timed M \<Longrightarrow> timed (see_later t V M)"
  by (erule timed_same) simp_all

lemma timed_read_at: "timed M \<Longrightarrow> timed (read_at t l mo k M)"
  by (simp add: read_at_def Let_def timed_see timed_see_later timed_touch)

lemma write_next_mono: "cur M u \<le> cur (write_next t l v mo W M) u"
  by simp

lemma timed_write_next: "timed M \<Longrightarrow> timed (write_next t l v mo W M)"
  by (erule timed_same) simp_all

lemma timed_rmw_at: "timed M \<Longrightarrow> timed (rmw_at t l v mo M)"
  unfolding rmw_at_def by (intro timed_write_next timed_read_at)

lemma timed_fence: "lags M \<Longrightarrow> timed M \<Longrightarrow> timed (sc_fence t M)"
  by (rule timed_same [of M]) (simp_all only: fence_views(3,4,5,6) fence_cur)

lemma birth_parts:
  "accs (birth t lv M) = accs M" "cur M u \<le> cur (birth t lv M) u"
  "gen (birth t lv M) = (gen M)(fst lv := Suc (gen M (fst lv)))"
  by (simp_all add: birth_def Let_def)

lemma timed_birth: "timed M \<Longrightarrow> timed (birth t lv M)"
  unfolding timed_def
  by (metis (no_types, opaque_lifting) birth_parts fun_upd_apply le_Suc_eq view_le_mono)

lemma timed_fold_birth: "timed M \<Longrightarrow> timed (fold (birth t) fs M)"
  by (induction fs arbitrary: M) (auto intro: timed_birth)

lemma bury_views: "accs (fold bury ls M) = accs M" "cur (fold bury ls M) = cur M"
  by (induction ls arbitrary: M) (auto simp: bury_def)

lemma timed_fold_bury: "timed M \<Longrightarrow> timed (fold bury ls M)"
  by (erule timed_same) (simp_all add: bury_views bury_parts)

lemma timed_mem_step: "timed M \<Longrightarrow> lags M \<Longrightarrow> mem_step t x c M = Done r M' \<Longrightarrow> timed M'"
  by (cases x)
    (auto simp: outcome_simps mem_step.simps(9) Let_def
      intro: timed_read_at timed_write_next timed_touch timed_rmw_at timed_fence timed_fold_birth
        timed_fold_bury
      split: if_splits)

lemma vouched_keep:
  assumes "vouched M" "gen M' = gen M" "\<And>u. cur M u \<le> cur M' u"
    and "\<And>l. latest M' l \<le> latest M l \<or> (\<exists>u. latest M' l \<le> seen M' u l)"
  shows "vouched M'"
  unfolding vouched_def
proof
  fix l
  obtain u where u: "latest M l \<le> seen M u l" using assms(1) by (auto simp: vouched_def)
  have "seen M u l \<le> seen M' u l"
    using view_leD [OF assms(3)] place_gen [OF assms(2)] by (simp add: seen_def)
  then show "\<exists>u. latest M' l \<le> seen M' u l" using u assms(4) [of l] by (meson le_trans)
qed

lemma vouched_same:
  "vouched M \<Longrightarrow> gen M' = gen M \<Longrightarrow> hist M' = hist M \<Longrightarrow> (\<And>u. cur M u \<le> cur M' u) \<Longrightarrow> vouched M'"
  by (rule vouched_keep [of M]) (auto simp: latest_def msgs_def)

lemma vouched_read_at: "vouched M \<Longrightarrow> vouched (read_at t l mo k M)"
  by (erule vouched_same) (simp_all add: read_at_mono)

lemma vouched_touch: "vouched M \<Longrightarrow> vouched (touch t l M)"
  by (erule vouched_same) (simp_all add: touch_mono)

lemma latest_write_next:
  "latest (write_next t l v mo W M) x = (if x = l then Suc (latest M l) else latest M x)"
  by (simp add: latest_def msgs_def write_next_hist)

lemma seen_write_next: "Suc (latest M l) \<le> seen (write_next t l v mo W M) t l"
  by (simp add: seen_def place_def)

lemma vouched_write_next: "vouched M \<Longrightarrow> vouched (write_next t l v mo W M)"
  by (erule vouched_keep) (auto simp: latest_write_next intro!: exI [of _ t] seen_write_next)

lemma vouched_rmw_at: "vouched M \<Longrightarrow> vouched (rmw_at t l v mo M)"
  unfolding rmw_at_def by (intro vouched_write_next vouched_read_at)

lemma vouched_fence: "lags M \<Longrightarrow> vouched M \<Longrightarrow> vouched (sc_fence t M)"
  by (rule vouched_same [of M]) (simp_all only: fence_views(3,4,5,6) fence_cur)

lemma vouched_birth: "vouched M \<Longrightarrow> vouched (birth t lv M)"
  unfolding vouched_def
proof (intro allI)
  fix l assume v: "\<forall>l. \<exists>u. latest M l \<le> seen M u l"
  show "\<exists>u. latest (birth t lv M) l \<le> seen (birth t lv M) u l"
  proof (cases "l = fst lv")
    case True
    then show ?thesis
      by (intro exI [of _ t]) (simp add: birth_def Let_def latest_def msgs_def seen_def place_def)
  next
    case False
    obtain u where "latest M l \<le> seen M u l" using v by blast
    then show ?thesis using False view_le_mono [OF birth_parts(2)]
      by (intro exI [of _ u])
        (auto simp: birth_def Let_def latest_def msgs_def seen_def place_def)
  qed
qed

lemma vouched_fold_birth: "vouched M \<Longrightarrow> vouched (fold (birth t) fs M)"
  by (induction fs arbitrary: M) (auto intro: vouched_birth)

lemma vouched_fold_bury: "vouched M \<Longrightarrow> vouched (fold bury ls M)"
  by (erule vouched_same) (simp_all add: bury_views bury_parts)

lemma vouched_mem_step: "vouched M \<Longrightarrow> lags M \<Longrightarrow> mem_step t x c M = Done r M' \<Longrightarrow> vouched M'"
  by (cases x)
    (auto simp: outcome_simps mem_step.simps(9) Let_def
      intro: vouched_read_at vouched_write_next vouched_touch vouched_rmw_at vouched_fence
        vouched_fold_birth vouched_fold_bury
      split: if_splits)

lemma touch_other: "u \<noteq> t \<Longrightarrow> cur (touch t l M) u = cur M u"
  by (simp add: touch_def Let_def)

lemma mem_step_mono: "lags M \<Longrightarrow> mem_step t x c M = Done r M' \<Longrightarrow> cur M u \<le> cur M' u"
proof (cases x)
  case (New f)
  have "cur M u \<le> cur (fold (birth t) fs M) u" for fs
    by (induction fs arbitrary: M) (auto intro: order.trans [OF birth_parts(2)])
  then show "lags M \<Longrightarrow> mem_step t x c M = Done r M' \<Longrightarrow> cur M u \<le> cur M' u"
    using New by (auto simp: new_Done)
next
  case (Cas w l e d smo fmo)
  then show "lags M \<Longrightarrow> mem_step t x c M = Done r M' \<Longrightarrow> cur M u \<le> cur M' u"
    using read_at_mono rmw_at_mono by (auto simp: cas_Done Let_def)
qed (auto simp: outcome_simps mem_step.simps(9) Let_def read_at_mono rmw_at_mono touch_mono fence_cur
    bury_views intro: le_supI1 touch_mono split: if_splits)

lemma timed_blank: "timed blank"
  by (simp add: timed_def blank_def)

lemma vouched_blank: "vouched blank"
  by (simp add: vouched_def blank_def latest_def msgs_def)

section \<open>The whole machine\<close>

definition orderly :: "('l, 'v) memory \<Rightarrow> bool" where
  "orderly M \<longleftrightarrow> mem_wf M \<and> lags M \<and> timed M \<and> vouched M"

lemma orderly_mem_step: "orderly M \<Longrightarrow> mem_step t x c M = Done r M' \<Longrightarrow> orderly M'"
  by (auto simp: orderly_def intro: wf_mem_step lags_mem_step timed_mem_step vouched_mem_step)

lemma orderly_synchronize: "orderly M \<Longrightarrow> orderly (synchronize t u M)"
  by (auto simp: orderly_def wf_synchronize lags_synchronize)
    (auto simp: synchronize_def timed_see intro!: vouched_same [of M])

lemma orderly_blank: "orderly blank"
  by (simp add: orderly_def wf_blank lags_blank timed_blank vouched_blank)

lemma orderly_perform: "perform t xs M = Some M' \<Longrightarrow> orderly M \<Longrightarrow> orderly M'"
  by (induction t xs M rule: perform.induct) (auto split: outcome.splits dest: orderly_mem_step)

lemma orderly_share: "orderly M \<Longrightarrow> (\<And>u. cur M u \<le> cur M t) \<Longrightarrow> orderly (share t M)"
  by (auto simp: orderly_def wf_share lags_share)
    (auto simp: share_def intro: timed_same [of M] vouched_same [of M])

lemma mem_step_other:
  assumes "mem_step t x c M = Done r M'" "u \<noteq> t"
  shows "cur M' u = cur M u"
proof -
  have "cur (fold (birth t) fs N) u = cur N u" for fs and N :: "('a, 'b) memory"
    using assms(2) by (induction fs arbitrary: N) (auto simp: birth_def Let_def)
  then show ?thesis
    using assms
    by (cases x)
      (auto simp: outcome_simps mem_step.simps(9) Let_def bury_views fence_views touch_other split: if_splits)
qed

lemma perform_others: "perform t xs M = Some M' \<Longrightarrow> u \<noteq> t \<Longrightarrow> cur M' u = cur M u"
  by (induction t xs M rule: perform.induct) (auto split: outcome.splits dest: mem_step_other)

lemma orderly_start:
  assumes "perform t xs blank = Some M"
  shows "orderly (share t M)"
proof (rule orderly_share [OF orderly_perform [OF assms orderly_blank]])
  fix u
  show "cur M u \<le> cur M t"
    using perform_others [OF assms, of u] by (cases "u = t") (auto simp: blank_def le_fun_def)
qed

end
