(* ===== verification/Ms_Queue_Destroy.thy ===== *)
theory Ms_Queue_Destroy imports Ms_Queue_Props Memory_Quiet begin

text \<open>
  The destructor of \<^verbatim>\<open>ms_queue\<close> and \<^verbatim>\<open>teardown()\<close> of the port in
  \<^verbatim>\<open>model/queue_model.hpp\<close>: one thread walks the list from \<^verbatim>\<open>head_\<close> and deletes
  each node after reading its \<^verbatim>\<open>next\<close>; the port then deletes the nodes in
  \<^verbatim>\<open>junk_\<close>.  Both run when the queue is quiesced: no thread is in an operation, and
  the thread that destroys has synchronised with all others.
\<close>

section \<open>The code\<close>

datatype free_pc =
    F_head
  | F_test "nat option"
  | F_delete nat "nat option"
  | F_junk
  | F_done

fun free_act :: "memory_order \<Rightarrow> free_pc \<times> nat list \<Rightarrow> ('x loc, 'a cell) action" where
  "free_act mo (F_head, js) = Load Head mo"
| "free_act mo (F_test None, js) = Skip"
| "free_act mo (F_test (Some a), js) = Load (Next a) mo"
| "free_act mo (F_delete a q, js) = Delete [Next a, Value a]"
| "free_act mo (F_junk, []) = Skip"
| "free_act mo (F_junk, a # js) = Delete [Next a, Value a]"
| "free_act mo (F_done, js) = Skip"

fun free_resume :: "free_pc \<times> nat list \<Rightarrow> 'a cell result \<Rightarrow> free_pc \<times> nat list" where
  "free_resume (F_head, js) x = (F_test (loaded x), js)"
| "free_resume (F_test None, js) x = (F_junk, js)"
| "free_resume (F_test (Some a), js) x = (F_delete a (loaded x), js)"
| "free_resume (F_delete a q, js) x = (F_test q, js)"
| "free_resume (F_junk, []) x = (F_done, [])"
| "free_resume (F_junk, a # js) x = (F_junk, js)"
| "free_resume (F_done, js) x = (F_done, js)"

definition destroyer :: "memory_order \<Rightarrow> ('x loc, 'a cell, free_pc \<times> nat list, unit, unit) program" where
  "destroyer mo =
     \<lparr>act = free_act mo, resume = free_resume, log = (\<lambda>t p x M. []), call = (\<lambda>t x p. None),
      idle = (\<lambda>p. fst p = F_done)\<rparr>"

text \<open>Thread \<open>t\<close> destroys; \<open>js\<close> is what \<^verbatim>\<open>junk_\<close> holds.\<close>

definition destroy_start :: "nat \<Rightarrow> nat list \<Rightarrow> ('x loc, 'a cell) memory
    \<Rightarrow> ('x loc, 'a cell, free_pc \<times> nat list, unit) state" where
  "destroy_start t js M =
     \<lparr>mem = M, thr = (\<lambda>u. if u = t then (F_head, js) else (F_done, [])), trace = []\<rparr>"

definition destructor :: "(unit loc, 'a cell, free_pc \<times> nat list, unit, unit) program" where
  "destructor = destroyer seq_cst"

definition teardown :: "(unit loc, 'a cell, free_pc \<times> nat list, unit, unit) program" where
  "teardown = destroyer relaxed"

text \<open>The nodes \<^verbatim>\<open>try_dequeue\<close> has handed to \<^verbatim>\<open>retire\<close> (of which the port's
  \<^verbatim>\<open>junk_\<close> is a list): every node that was \<^verbatim>\<open>head_\<close> and no longer is.\<close>

definition retired :: "nat \<Rightarrow> 'a event list \<Rightarrow> nat list" where
  "retired d tr = map fst (take (length (dequeued tr)) (chain d tr))"

definition quiesced :: "nat \<Rightarrow> 'a leaky_state \<Rightarrow> bool" where
  "quiesced t s \<longleftrightarrow> (\<forall>u. fst (thr s u) = Idle) \<and> (\<forall>u. cur (mem s) u \<le> cur (mem s) t)"

section \<open>Every node has a place\<close>

text \<open>A live node is in the list, or in the hands of the thread that allocated it.\<close>

definition placed :: "nat \<Rightarrow> 'a leaky_state \<Rightarrow> bool" where
  "placed d s \<longleftrightarrow>
     (\<forall>a. live (mem s) (Next a) \<longrightarrow>
        a \<in> fst ` set (chain d (trace s)) \<or> (\<exists>u. owned (fst (thr s u)) = Some a))"

lemma owned_continue: "owned (continue k p) = owned_k k"
  by (cases k) auto

lemma owned_enter: "owned (fst (enter k x)) = owned_k k"
  by (cases x; cases "snd x") (auto simp: owned_continue)

lemma owned_resume:
  assumes "owned p = Some a"
  shows "owned (fst (queue_resume leaky_reclaimer (p, h) x)) = Some a \<or>
    (\<exists>q. p = E_link a q \<and> won x)"
  using assms by (cases p) (auto simp: owned_enter owned_continue)

lemma leaky_step:
  assumes "exec (leaky_queue w) (Step t k b) s = Running s'" "s' \<noteq> s"
  obtains r M' where "mem_step t (queue_act w leaky_reclaimer (fst (thr s t))) (k, b) (mem s) = Done r M'"
    "s' = \<lparr>mem = M', thr = (thr s)(t := queue_resume leaky_reclaimer (thr s t) r),
           trace = trace s @ queue_note t (thr s t) r (mem s)\<rparr>"
  using assms
  by (cases "mem_step t (queue_act w leaky_reclaimer (fst (thr s t))) (k, b) (mem s)")
    (auto simp: leaky_queue_def ms_queue_def)

lemma live_step:
  assumes wf: "mem_wf M"
    and st: "mem_step t (queue_act w leaky_reclaimer p) (k, b) M = Done r M'"
    and lv: "live M' (Next a)" "\<not> live M (Next a)"
  shows "\<exists>v. p = E_new v \<and> r = Addr a"
proof (cases p)
  case (E_new v)
  with st have "r = Addr k" "live M' = fold (\<lambda>(l, v) f. f(l := True)) (make_node v k) (live M)"
    using now_new [of t "make_node v" "(k, b)" M r M'] by simp_all
  then show ?thesis using E_new lv by (auto simp: make_node_def split: if_splits)
next
  case (Call c k)
  then show ?thesis
    using st lv by (cases c) (auto simp: leaky_reclaimer_def dest!: now_load)
qed (use st lv in \<open>auto simp: deref_def dest!: now_load now_read [OF wf] now_cas [OF wf] now_skip split: option.splits\<close>)

lemma placed_step:
  assumes pl: "placed d s" and wf: "mem_wf (mem s)" and ex: "exec (leaky_queue w) c s = Running s'"
  shows "placed d s'"
proof (cases c)
  case (Step t k b)
  show ?thesis
  proof (cases "s' = s")
    case False
    then obtain r M' where st: "mem_step t (queue_act w leaky_reclaimer (fst (thr s t))) (k, b) (mem s) = Done r M'"
      "s' = \<lparr>mem = M', thr = (thr s)(t := queue_resume leaky_reclaimer (thr s t) r),
             trace = trace s @ queue_note t (thr s t) r (mem s)\<rparr>"
      using ex Step leaky_step by blast
    show ?thesis
      unfolding placed_def
    proof (intro allI impI)
      fix a assume lv: "live (mem s') (Next a)"
      obtain p h where p: "thr s t = (p, h)" by (cases "thr s t")
      show "a \<in> fst ` set (chain d (trace s')) \<or> (\<exists>u. owned (fst (thr s' u)) = Some a)"
      proof (cases "live (mem s) (Next a)")
        case False
        then obtain v where "p = E_new v" "r = Addr a"
          using live_step [OF wf st(1), of a] lv st(2) p by auto
        then have "owned (fst (thr s' t)) = Some a" using st(2) p by simp
        then show ?thesis by blast
      next
        case True
        then consider "a \<in> fst ` set (chain d (trace s))" | u where "owned (fst (thr s u)) = Some a"
            using pl unfolding placed_def by blast
        then show ?thesis
        proof cases
          case 1
          then show ?thesis using st(2) by (auto simp: chain_append)
        next
          case (2 u)
          show ?thesis
          proof (cases "u = t")
            case False
            then have "owned (fst (thr s' u)) = Some a" using 2 st(2) by simp
            then show ?thesis by blast
          next
            case True
            with 2 p have "owned p = Some a" by simp
            from owned_resume [OF this, of h r]
            show ?thesis
            proof
              assume "owned (fst (queue_resume leaky_reclaimer (p, h) r)) = Some a"
              then have "owned (fst (thr s' t)) = Some a" using st(2) p by simp
              then show ?thesis by blast
            next
              assume "\<exists>q. p = E_link a q \<and> won r"
              then show ?thesis using st(2) p by (auto simp: chain_append)
            qed
          qed
        qed
      qed
    qed
  qed (use pl in simp)
next
  case (Invoke t x)
  have "owned (fst (thr s' u)) = owned (fst (thr s u)) \<and> mem s' = mem s \<and>
      set (chain d (trace s)) \<subseteq> set (chain d (trace s'))" for u
    using ex Invoke
    by (cases "(t, x, thr s t)" rule: queue_call.cases)
      (auto simp: leaky_queue_def ms_queue_def chain_append split: prod.splits)
  then show ?thesis using pl unfolding placed_def by (metis (no_types, lifting) image_mono subsetD)
next
  case (Sync t u)
  then have "s' = s \<or> s' = s\<lparr>mem := synchronize t u (mem s)\<rparr>"
    using ex by (auto split: if_splits)
  then show ?thesis using pl by (elim disjE) (simp_all add: placed_def synchronize_def)
qed


lemma placed_start: "placed d (leaky_start_state dflt d)"
proof -
  have "live (mem (leaky_start_state dflt d)) (Next a) \<Longrightarrow> a = d" for a
    by (simp add: start_defs setup_simps split: if_splits)
  then show ?thesis unfolding placed_def by (auto simp: chain_def)
qed

lemma reach_placed: "reach (leaky_queue shipped) (leaky_start_state dflt d) s \<Longrightarrow> placed d s"
proof (induction rule: reach.induct)
  case reach_start
  show ?case by (rule placed_start)
next
  case (reach_step s c s')
  show ?case
    by (rule placed_step [OF reach_step(3) queue_inv_wf [OF leaky.reach_inv [OF reach_step(1)]] reach_step(2)])
qed

lemma orderly_exec:
  "orderly (mem s) \<Longrightarrow> exec P c s = Running s' \<Longrightarrow> orderly (mem s')"
proof (cases c)
  case (Step t k b)
  then show "orderly (mem s) \<Longrightarrow> exec P c s = Running s' \<Longrightarrow> orderly (mem s')"
    by (cases "mem_step t (act P (thr s t)) (k, b) (mem s)") (auto dest: orderly_mem_step)
qed (auto split: option.splits if_splits simp: orderly_synchronize)

lemma orderly_reach: "reach P s0 s \<Longrightarrow> orderly (mem s0) \<Longrightarrow> orderly (mem s)"
  by (induction rule: reach.induct) (auto intro: orderly_exec)

lemma leaky_orderly:
  fixes s :: "'a leaky_state"
  assumes "reach (leaky_queue shipped) (leaky_start_state dflt a) s"
  shows "orderly (mem s)"
proof (rule orderly_reach [OF assms])
  obtain M :: "(unit loc, 'a cell) memory" where "perform 0 (constructor dflt a) blank = Some M"
    using start_performs [of dflt a] by (elim exE)
  from orderly_start [OF this] this show "orderly (mem (leaky_start_state dflt a))"
    by (simp add: leaky_start_state_def queue_start_def)
qed

section \<open>A thread on its own frees a list\<close>

lemma alone_read_at: "alone M t \<Longrightarrow> alone (read_at t l mo k M) t"
  unfolding alone_def
proof (intro allI)
  fix x assume q: "\<forall>l. quiet M t l"
  have up: "cur (touch t l M) t \<le> cur (read_at t l mo k M) t"
    by (simp add: read_at_def Let_def le_supI1)
  have ac: "accs (read_at t l mo k M) = accs (touch t l M)"
    by (simp add: read_at_def Let_def)
  have "latest M x \<le> cur M t (place M x)" using q by (simp add: quiet_def seen_def)
  then have "latest M x \<le> cur (read_at t l mo k M) t (place M x)"
    by (rule view_le_mono [OF read_at_mono])
  moreover have "n \<le> cur (read_at t l mo k M) t (Clock u)"
    if "(u, n) \<in> set (accs (touch t l M) x (gen M x))" for u n
  proof (rule view_le_mono [OF up])
    have "(u, n) = (t, Suc (cur M t (Clock t))) \<or> (u, n) \<in> set (accs M x (gen M x))"
      using that by (auto simp: touch_accs_gen split: if_splits)
    then show "n \<le> cur (touch t l M) t (Clock u)"
    proof
      assume "(u, n) \<in> set (accs M x (gen M x))"
      then have "n \<le> cur M t (Clock u)" using q by (auto simp: quiet_def list_all_iff)
      then show ?thesis by (rule view_le_mono [OF touch_mono])
    qed (simp add: touch_ticks)
  qed
  ultimately show "quiet (read_at t l mo k M) t x"
    by (auto simp: quiet_def list_all_iff ac seen_def place_def latest_def msgs_def)
qed

lemma alone_bury: "alone M t \<Longrightarrow> alone (fold bury ls M) t"
  by (simp add: alone_def quiet_def bury_views bury_parts seen_def place_def latest_def msgs_def)

lemma alone_see: "alone M t \<Longrightarrow> alone (see v V M) t"
  unfolding alone_def
proof (intro allI)
  fix l assume "\<forall>l. quiet M t l"
  then have q: "latest M l \<le> cur M t (place M l)"
    "\<And>u n. (u, n) \<in> set (accs M l (gen M l)) \<Longrightarrow> n \<le> cur M t (Clock u)"
    by (auto simp: quiet_def seen_def list_all_iff)
  have "cur M t \<le> cur (see v V M) t" by simp
  note up = view_le_mono [OF this]
  show "quiet (see v V M) t l"
    using up [OF q(1)] up [OF q(2)]
    by (auto simp: quiet_def list_all_iff seen_def place_def latest_def msgs_def)
qed

text \<open>What the walk needs: the addresses \<open>T\<close>, of which the first \<open>n\<close> are linked from
  \<^verbatim>\<open>head_\<close>.\<close>

definition ready :: "('x loc, 'a cell) memory \<Rightarrow> nat \<Rightarrow> nat list \<Rightarrow> bool" where
  "ready M n T \<longleftrightarrow>
     0 < n \<and> n \<le> length T \<and> distinct T \<and> live M Head \<and> 0 < latest M Head \<and>
     newest M Head = Ptr (Some (T ! 0)) \<and>
     (\<forall>a \<in> set T. live M (Next a) \<and> live M (Value a)) \<and>
     (\<forall>k<n. 0 < latest M (Next (T ! k)) \<and>
        newest M (Next (T ! k)) = Ptr (if Suc k < n then Some (T ! Suc k) else None))"

fun free_at :: "nat \<Rightarrow> nat list \<Rightarrow> nat \<Rightarrow> free_pc \<times> nat list \<Rightarrow> bool" where
  "free_at n T k (F_head, js) \<longleftrightarrow> k = 0 \<and> js = drop n T"
| "free_at n T k (F_test p, js) \<longleftrightarrow>
     k \<le> n \<and> js = drop n T \<and> p = (if k < n then Some (T ! k) else None)"
| "free_at n T k (F_delete a q, js) \<longleftrightarrow>
     k < n \<and> js = drop n T \<and> a = T ! k \<and> q = (if Suc k < n then Some (T ! Suc k) else None)"
| "free_at n T k (F_junk, js) \<longleftrightarrow> n \<le> k \<and> k \<le> length T \<and> js = drop k T"
| "free_at n T k (F_done, js) \<longleftrightarrow> k = length T \<and> js = []"

definition freed :: "('x loc, 'a cell) memory \<Rightarrow> nat list \<Rightarrow> ('x loc, 'a cell) memory \<Rightarrow> bool" where
  "freed M0 as M \<longleftrightarrow>
     (\<forall>l. live M l \<longleftrightarrow> live M0 l \<and> (\<forall>a \<in> set as. l \<noteq> Next a \<and> l \<noteq> Value a))"

definition destroy_inv :: "('x loc, 'a cell) memory \<Rightarrow> nat \<Rightarrow> nat list \<Rightarrow> nat
    \<Rightarrow> ('x loc, 'a cell, free_pc \<times> nat list, unit) state \<Rightarrow> bool" where
  "destroy_inv M0 n T t s \<longleftrightarrow>
     mem_wf (mem s) \<and> alone (mem s) t \<and> hist (mem s) = hist M0 \<and> gen (mem s) = gen M0 \<and>
     (\<forall>u. u \<noteq> t \<longrightarrow> thr s u = (F_done, [])) \<and>
     (\<exists>k. free_at n T k (thr s t) \<and> freed M0 (take k T) (mem s))"

text \<open>How far the destroying thread still has to go.\<close>

fun to_go :: "nat \<Rightarrow> nat list \<Rightarrow> free_pc \<times> nat list \<Rightarrow> nat \<Rightarrow> nat" where
  "to_go n T (F_head, js) k = 2 * length T + 3"
| "to_go n T (F_test p, js) k = 2 * (length T - k) + 2"
| "to_go n T (F_delete a q, js) k = 2 * (length T - k) + 1"
| "to_go n T (F_junk, js) k = 2 * (length T - k) + 1"
| "to_go n T (F_done, js) k = 0"

lemma alone_load:
  assumes "mem_wf M" "alone M t" "live M l" "0 < latest M l"
  shows "mem_step t (Load l mo) c M =
    (if fst c = latest M l then Done (Val (newest M l)) (read_at t l mo (latest M l) M) else Blocked)"
proof -
  have s: "seen M t l = latest M l"
    using assms(2) seen_le_latest [OF assms(1)] by (simp add: alone_def quiet_def le_antisym)
  then have "access M t l = None" using assms(3,4) by (simp add: access_None)
  moreover have "readable M t l (fst c) \<longleftrightarrow> fst c = latest M l" using s by (auto simp: readable_def)
  ultimately show ?thesis
    using newest_nth [OF assms(4)] by (simp add: mem_step.simps guarded_def)
qed

lemma alone_delete:
  assumes "alone M t" "\<forall>l \<in> set ls. live M l"
  shows "mem_step t (Delete ls) c M = Done Unit (fold bury ls M)"
  using assms by (simp add: mem_step.simps list_ex_iff alone_def)

text \<open>One step of the destroying thread: it is never undefined, it keeps the invariant, and it
  comes closer to the end.\<close>

fun advance :: "('x loc, 'a cell) memory \<Rightarrow> nat \<Rightarrow> nat list \<Rightarrow> nat \<Rightarrow> free_pc \<times> nat list \<Rightarrow> nat
    \<Rightarrow> ('x loc, 'a cell) outcome \<Rightarrow> bool" where
  "advance M0 n T t p k Blocked \<longleftrightarrow> True"
| "advance M0 n T t p k (Ub e) \<longleftrightarrow> False"
| "advance M0 n T t p k (Done x M) \<longleftrightarrow>
     mem_wf M \<and> alone M t \<and> hist M = hist M0 \<and> gen M = gen M0 \<and>
     (\<exists>k'. free_at n T k' (free_resume p x) \<and> freed M0 (take k' T) M \<and>
        (fst p \<noteq> F_done \<longrightarrow> to_go n T (free_resume p x) k' < to_go n T p k))"

lemma destroy_step:
  fixes s :: "('x loc, 'a cell, free_pc \<times> nat list, unit) state"
  assumes rd: "ready M0 n T" and inv: "destroy_inv M0 n T t s"
  obtains k where "free_at n T k (thr s t)"
    "\<And>c. advance M0 n T t (thr s t) k (mem_step t (free_act mo (thr s t)) c (mem s))"
    "\<exists>c. mem_step t (free_act mo (thr s t)) (c, True) (mem s) \<noteq> Blocked"
proof -
  let ?M = "mem s" let ?A = "free_act mo (thr s t) :: ('x loc, 'a cell) action"
  obtain k where wf: "mem_wf ?M" and al: "alone ?M t" and h: "hist ?M = hist M0" "gen ?M = gen M0"
    and at: "free_at n T k (thr s t)" and fr: "freed M0 (take k T) ?M"
    using inv by (auto simp: destroy_inv_def)
  have nw: "newest ?M = newest M0" "latest ?M l = latest M0 l" for l
    using newest_cong h by (auto simp: latest_def msgs_def)
  have rT: "n \<le> length T" "distinct T" "0 < n" using rd by (auto simp: ready_def)
  have lv: "live ?M (Next (T ! i)) \<and> live ?M (Value (T ! i))" if "k \<le> i" "i < length T" for i
  proof -
    have "T ! i \<notin> set (take k T)"
      using rT(2) that by (auto simp: in_set_conv_nth nth_eq_iff_index_eq)
    then show ?thesis using fr rd that by (auto simp: freed_def ready_def)
  qed
  obtain p js where p: "thr s t = (p, js)" by (cases "thr s t")
  note answer = that [OF at]
  have load: thesis
    if l: "?A = Load l mo" "live ?M l" "0 < latest ?M l"
      and k': "free_at n T k (free_resume (thr s t) (Val (newest ?M l)))"
      "to_go n T (free_resume (thr s t) (Val (newest ?M l))) k < to_go n T (thr s t) k" for l
  proof (rule answer)
    let ?M' = "read_at t l mo (latest ?M l) ?M"
    have "mem_wf ?M'" "alone ?M' t" "hist ?M' = hist M0" "gen ?M' = gen M0" "freed M0 (take k T) ?M'"
      using wf_read_at [OF wf l(3)] alone_read_at [OF al] h fr by (simp_all add: freed_def)
    then show "advance M0 n T t (thr s t) k (mem_step t (?A) c ?M)" for c
      unfolding l(1) alone_load [OF wf al l(2,3)] using k' by auto
    show "\<exists>c. mem_step t (?A) (c, True) ?M \<noteq> Blocked"
      unfolding l(1) alone_load [OF wf al l(2,3)] by simp
  qed
  have delete: thesis
    if l: "?A = Delete [Next (T ! k), Value (T ! k)]" "k < length T"
      and k': "free_at n T (Suc k) (free_resume (thr s t) (Unit :: 'a cell result))"
      "to_go n T (free_resume (thr s t) (Unit :: 'a cell result)) (Suc k) < to_go n T (thr s t) k"
  proof (rule answer)
    let ?ls = "[Next (T ! k), Value (T ! k)]" let ?M' = "fold bury ?ls ?M"
    have del: "mem_step t (Delete ?ls) c ?M = Done Unit ?M'" for c
      by (rule alone_delete [OF al]) (use lv [of k] l(2) in simp)
    have "freed M0 (take (Suc k) T) ?M'"
      using fr l(2) unfolding freed_def bury_parts take_Suc_snoc [OF l(2)] by auto
    then have "mem_wf ?M'" "alone ?M' t" "hist ?M' = hist M0" "gen ?M' = gen M0" "freed M0 (take (Suc k) T) ?M'"
      using wf_fold_bury [OF wf] alone_bury [OF al] h by (simp_all only: bury_parts)
    then show "advance M0 n T t (thr s t) k (mem_step t (?A) c ?M)" for c
      unfolding l(1) del using k' by (auto simp del: fold_simps intro!: exI [of _ "Suc k"])
    show "\<exists>c. mem_step t (?A) (c, True) ?M \<noteq> Blocked"
      unfolding l(1) del by simp
  qed
  have skip: thesis
    if l: "?A = Skip"
      and k': "free_at n T k (free_resume (thr s t) (Unit :: 'a cell result))"
      "fst (thr s t) \<noteq> F_done \<Longrightarrow> to_go n T (free_resume (thr s t) (Unit :: 'a cell result)) k < to_go n T (thr s t) k"
    by (rule answer) (use l k' wf al h fr in auto)
  show thesis
  proof (cases p)
    case F_head
    show thesis
      by (rule load [of Head]) (use F_head p at rd fr nw rT in \<open>auto simp: ready_def freed_def\<close>)
  next
    case (F_test q)
    show thesis
    proof (cases "k < n")
      case True
      then have q: "q = Some (T ! k)" using F_test p at by simp
      show thesis
        by (rule load [of "Next (T ! k)"])
          (use F_test p at rd nw rT lv [of k] True q in \<open>auto simp: ready_def\<close>)
    next
      case False
      then have q: "q = None" "k = n" using F_test p at by simp_all
      show thesis by (rule skip) (use F_test p at q rT in auto)
    qed
  next
    case (F_delete a q)
    show thesis by (rule delete) (use F_delete p at rT in auto)
  next
    case F_junk
    show thesis
    proof (cases "k < length T")
      case True
      then have "drop k T = T ! k # drop (Suc k) T" by (rule Cons_nth_drop_Suc [symmetric])
      then show thesis by (intro delete) (use F_junk p at rT True in auto)
    next
      case False
      then show thesis by (intro skip) (use F_junk p at in auto)
    qed
  next
    case F_done
    show thesis by (rule skip) (use F_done p at in auto)
  qed
qed

lemma destroy_inv_step:
  assumes rd: "ready M0 n T" and inv: "destroy_inv M0 n T t s"
    and ex: "exec (destroyer mo) c s = Running s'"
  shows "destroy_inv M0 n T t s'"
proof (cases c)
  case (Step u k b)
  show ?thesis
  proof (cases "u = t")
    case False
    then have "thr s u = (F_done, [])" using inv by (simp add: destroy_inv_def)
    then have "s' = s" using ex Step by (cases s) (auto simp: destroyer_def fun_upd_idem)
    then show ?thesis using inv by simp
  next
    case True
    obtain i where i: "free_at n T i (thr s t)"
      "\<And>c. advance M0 n T t (thr s t) i (mem_step t (free_act mo (thr s t)) c (mem s))"
      by (rule destroy_step [OF rd inv]) blast
    from i(2) [of "(k, b)"] show ?thesis
      using inv ex Step True
      by (cases "mem_step t (free_act mo (thr s t)) (k, b) (mem s)")
        (auto simp: destroyer_def destroy_inv_def)
  qed
next
  case (Sync u v)
  then show ?thesis
    using inv ex alone_see wf_synchronize [of "mem s" u v]
    by (auto simp: destroy_inv_def synchronize_def freed_def split: if_splits)
qed (use inv ex in \<open>simp add: destroyer_def\<close>)

lemma destroy_no_crash:
  assumes rd: "ready M0 n T" and inv: "destroy_inv M0 n T t s"
  shows "exec (destroyer mo) c s \<noteq> Crashed e"
proof (cases c)
  case (Step u k b)
  show ?thesis
  proof (cases "u = t")
    case False
    then have "thr s u = (F_done, [])" using inv by (simp add: destroy_inv_def)
    then show ?thesis using Step by (simp add: destroyer_def)
  next
    case True
    obtain i where i: "free_at n T i (thr s t)"
      "\<And>c. advance M0 n T t (thr s t) i (mem_step t (free_act mo (thr s t)) c (mem s))"
      by (rule destroy_step [OF rd inv]) blast
    from i(2) [of "(k, b)"] show ?thesis
      using Step True
      by (cases "mem_step t (free_act mo (thr s t)) (k, b) (mem s)") (auto simp: destroyer_def)
  qed
qed (simp_all add: destroyer_def)

lemma destroy_terminates:
  assumes rd: "ready M0 n T"
  shows "destroy_inv M0 n T t s \<Longrightarrow> free_at n T k (thr s t) \<Longrightarrow>
    \<exists>cs s'. length cs \<le> to_go n T (thr s t) k \<and>
      run (destroyer mo) cs s = Running s' \<and> fst (thr s' t) = F_done"
proof (induction "to_go n T (thr s t) k" arbitrary: s k rule: less_induct)
  case less
  show ?case
  proof (cases "fst (thr s t) = F_done")
    case True
    then show ?thesis by (intro exI [of _ "[]"] exI [of _ s]) simp
  next
    case False
    obtain i where i: "free_at n T i (thr s t)"
      "\<And>c. advance M0 n T t (thr s t) i (mem_step t (free_act mo (thr s t)) c (mem s))"
      "\<exists>c. mem_step t (free_act mo (thr s t)) (c, True) (mem s) \<noteq> Blocked"
      by (rule destroy_step [OF rd less.prems(1), of mo]) blast
    have unique: "i = k" if "free_at n T i p" "free_at n T k p" for p
      using that rd
      by (cases "(n, T, i, p)" rule: free_at.cases)
        (auto simp: ready_def nth_eq_iff_index_eq split: if_splits dest: arg_cong [of _ _ length])
    obtain c where "mem_step t (free_act mo (thr s t)) (c, True) (mem s) \<noteq> Blocked" using i(3) by blast
    then obtain x M' where st: "mem_step t (free_act mo (thr s t)) (c, True) (mem s) = Done x M'"
      using i(2) [of "(c, True)"] by (cases "mem_step t (free_act mo (thr s t)) (c, True) (mem s)") auto
    let ?s = "s\<lparr>mem := M', thr := (thr s)(t := free_resume (thr s t) x)\<rparr>"
    have ex: "exec (destroyer mo) (Step t c True) s = Running ?s"
      using st by (simp add: destroyer_def)
    obtain k' where k': "free_at n T k' (free_resume (thr s t) x)"
      "to_go n T (free_resume (thr s t) x) k' < to_go n T (thr s t) i"
      using i(2) [of "(c, True)"] st False by auto
    have "\<exists>cs s'. length cs \<le> to_go n T (thr ?s t) k' \<and>
        run (destroyer mo) cs ?s = Running s' \<and> fst (thr s' t) = F_done"
      by (rule less.hyps [OF _ destroy_inv_step [OF rd less.prems(1) ex]])
        (use k' unique [OF i(1) less.prems(2)] in simp_all)
    then obtain cs s' where "length cs \<le> to_go n T (free_resume (thr s t) x) k'"
      "run (destroyer mo) cs ?s = Running s'" "fst (thr s' t) = F_done" by auto
    then show ?thesis
      using ex k'(2) unique [OF i(1) less.prems(2)]
      by (intro exI [of _ "Step t c True # cs"] exI [of _ s']) simp
  qed
qed

lemma destroy_system:
  assumes rd: "ready M n T" and al: "alone M t" and wf: "mem_wf M"
  shows "safe_system (destroyer mo) (destroy_start t (drop n T) M) (destroy_inv M n T t)"
proof
  show "destroy_inv M n T t (destroy_start t (drop n T) M)"
    using al wf by (auto simp: destroy_inv_def destroy_start_def freed_def intro: exI [of _ 0])
qed (auto intro: destroy_inv_step [OF rd] simp: destroy_no_crash [OF rd])

lemma destroy_all:
  assumes rd: "ready M n T" and al: "alone M t" and wf: "mem_wf M"
  shows "\<exists>s. run (destroyer mo) cs (destroy_start t (drop n T) M) = Running s \<and>
      (fst (thr s t) = F_done \<longrightarrow> freed M T (mem s))"
    and "\<exists>cs s. length cs \<le> 2 * length T + 3 \<and>
      run (destroyer mo) cs (destroy_start t (drop n T) M) = Running s \<and> fst (thr s t) = F_done"
proof -
  let ?s0 = "destroy_start t (drop n T) M"
  note sys = destroy_system [OF rd al wf, of mo]
  obtain s where s: "run (destroyer mo) cs ?s0 = Running s" "destroy_inv M n T t s"
    using safe_system.run_safe [OF sys] by blast
  have "freed M T (mem s)" if "fst (thr s t) = F_done"
  proof -
    obtain k where k: "free_at n T k (thr s t)" "freed M (take k T) (mem s)"
      using s(2) by (auto simp: destroy_inv_def)
    then have "k = length T" using that by (cases "thr s t") simp
    then show ?thesis using k(2) by simp
  qed
  then show "\<exists>s. run (destroyer mo) cs ?s0 = Running s \<and> (fst (thr s t) = F_done \<longrightarrow> freed M T (mem s))"
    using s(1) by blast
  have "free_at n T 0 (thr ?s0 t)" by (simp add: destroy_start_def)
  from destroy_terminates [OF rd safe_system.start [OF sys] this]
  show "\<exists>cs s. length cs \<le> 2 * length T + 3 \<and> run (destroyer mo) cs ?s0 = Running s \<and> fst (thr s t) = F_done"
    by (simp add: destroy_start_def)
qed

section \<open>The quiesced queue\<close>

text \<open>The nodes still linked, the dummy first.\<close>

definition linked_nodes :: "nat \<Rightarrow> 'a event list \<Rightarrow> nat list" where
  "linked_nodes d tr = map fst (drop (length (dequeued tr)) (chain d tr))"

lemma quiesced_ready:
  fixes s :: "'a leaky_state"
  assumes r: "reach (leaky_queue shipped) (leaky_start_state dflt d) s" and q: "quiesced t s"
    and js: "distinct js" "set js \<subseteq> set (retired d (trace s))"
  shows "ready (mem s) (length (linked_nodes d (trace s))) (linked_nodes d (trace s) @ js)"
    and "alone (mem s) t" and "mem_wf (mem s)"
proof -
  let ?M = "mem s" let ?N = "chain d (trace s)"
  have inv: "queue_inv d s" by (rule leaky.reach_inv [OF r])
  have or: "orderly ?M" by (rule leaky_orderly [OF r])
  then show "mem_wf ?M" by (simp add: orderly_def)
  show "alone ?M t"
    using or q by (auto simp: orderly_def quiesced_def intro: joined_alone)
  obtain h k where co: "core ?M ?N h k" "length (dequeued (trace s)) = h"
    by (rule inv_elements [OF inv])
  have sh: "h \<le> k" "k < length ?N" "distinct (map fst ?N)" "live ?M Head" "gen ?M Head = 1"
    "map fst (hist ?M Head 1) = swings ?N h"
    using core_shape [OF co(1)] by (simp_all add: shape_def)
  let ?T = "linked_nodes d (trace s)"
  have T: "?T = drop h (map fst ?N)" "retired d (trace s) = take h (map fst ?N)"
    by (simp_all add: linked_nodes_def retired_def co(2) drop_map take_map)
  have node: "node_at ?M (?N ! i) (links ?N i)" if "i < length ?N" for i
    by (rule node_in_shape [OF co(1) that])
  have lv: "live ?M (Next a) \<and> live ?M (Value a)" if "a \<in> set (map fst ?N)" for a
    using that node unfolding in_set_conv_nth by (auto simp: node_at_def)
  have "set ?T \<inter> set (take h (map fst ?N)) = {}"
    using sh(3) append_take_drop_id [of h "map fst ?N"] distinct_append unfolding T(1) by (metis inf_commute)
  then have dis: "distinct (?T @ js)" using js sh(3) T by auto
  have "length (hist ?M Head 1) = h + 2"
    using arg_cong [OF sh(6), of length] length_swings [of h ?N] sh(1,2) by simp
  then have head: "newest ?M Head = Ptr (Some (?T ! 0))" "0 < latest ?M Head"
    using last_swings [OF sh(6)] sh(1,2,5) by (simp_all add: newest_def msgs_def latest_def T)
  have "0 < latest ?M (Next (?T ! i)) \<and>
      newest ?M (Next (?T ! i)) = Ptr (if Suc i < length ?T then Some (?T ! Suc i) else None)"
    if i: "i < length ?T" for i
  proof -
    have j: "h + i < length ?N" "?T ! i = fst (?N ! (h + i))" using i by (simp_all add: T)
    have ms: "map fst (msgs ?M (Next (?T ! i))) = links ?N (h + i)"
      unfolding j(2) by (rule next_msgs [OF co(1) j(1)])
    then have ne: "msgs ?M (Next (?T ! i)) \<noteq> []" by (auto simp: links_def split: if_splits)
    then have "newest ?M (Next (?T ! i)) = last (links ?N (h + i))"
      using last_map [of "msgs ?M (Next (?T ! i))" fst] ms by (simp add: newest_def)
    then show ?thesis using ne i by (auto simp: latest_def links_def T)
  qed
  moreover have "set (?T @ js) \<subseteq> set (map fst ?N)"
    using js(2) set_take_subset [of h "map fst ?N"] set_drop_subset [of h "map fst ?N"] by (auto simp: T)
  then have "\<forall>a \<in> set (?T @ js). live ?M (Next a) \<and> live ?M (Value a)" using lv by blast
  ultimately show "ready ?M (length ?T) (?T @ js)"
    using dis head sh(1,2,4) T(1) unfolding ready_def by (simp add: nth_append)
qed

lemma chain_split:
  assumes "reach (leaky_queue shipped) (leaky_start_state dflt d) s"
  shows "set (retired d (trace s)) \<inter> set (linked_nodes d (trace s)) = {}"
    and "fst ` set (chain d (trace s)) = set (retired d (trace s)) \<union> set (linked_nodes d (trace s))"
    and "length (linked_nodes d (trace s)) = Suc (length (elements s))"
proof -
  let ?N = "chain d (trace s)" let ?h = "length (dequeued (trace s))"
  obtain h k where co: "core (mem s) ?N h k" "?h = h" "enqueued (trace s) = dequeued (trace s) @ elements s"
    by (rule inv_elements [OF leaky.reach_inv [OF assms]])
  have d: "distinct (map fst ?N)" using core_shape [OF co(1)] by (simp add: shape_def)
  have eq: "map fst ?N = retired d (trace s) @ linked_nodes d (trace s)"
    by (simp add: retired_def linked_nodes_def flip: map_append)
  show "set (retired d (trace s)) \<inter> set (linked_nodes d (trace s)) = {}"
    using d unfolding eq by simp
  show "fst ` set ?N = set (retired d (trace s)) \<union> set (linked_nodes d (trace s))"
    using arg_cong [OF eq, of set] by simp
  show "length (linked_nodes d (trace s)) = Suc (length (elements s))"
    using arg_cong [OF co(3), of length] by (simp add: linked_nodes_def chain_enqueued)
qed

lemma quiesced_live:
  assumes r: "reach (leaky_queue shipped) (leaky_start_state dflt d) s" and q: "quiesced t s"
  shows "live (mem s) (Next b) \<longleftrightarrow> b \<in> set (retired d (trace s)) \<union> set (linked_nodes d (trace s))"
proof -
  have "live (mem s) (Next b) \<longleftrightarrow> b \<in> fst ` set (chain d (trace s))"
  proof
    assume "live (mem s) (Next b)"
    then show "b \<in> fst ` set (chain d (trace s))"
      using reach_placed [OF r] q by (auto simp: placed_def quiesced_def)
  next
    assume b: "b \<in> fst ` set (chain d (trace s))"
    obtain h k where co: "core (mem s) (chain d (trace s)) h k"
      by (rule inv_elements [OF leaky.reach_inv [OF r]])
    from b obtain i where "i < length (chain d (trace s))" "b = fst (chain d (trace s) ! i)"
      by (auto simp: in_set_conv_nth)
    then show "live (mem s) (Next b)" using node_in_shape [OF co, of i] by (simp add: node_at_def)
  qed
  then show ?thesis using chain_split(2) [OF r] by simp
qed

lemma quiesced_freed:
  assumes r: "reach (leaky_queue shipped) (leaky_start_state dflt d) s" and q: "quiesced t s"
    and js: "distinct js" "set js \<subseteq> set (retired d (trace s))"
  shows "\<exists>u. run (destroyer mo) cs (destroy_start t js (mem s)) = Running u \<and>
      (fst (thr u t) = F_done \<longrightarrow> (\<forall>b. live (mem u) (Next b) \<longleftrightarrow> b \<in> set (retired d (trace s)) - set js))"
proof -
  let ?T = "linked_nodes d (trace s)"
  have "drop (length ?T) (?T @ js) = js" by simp
  from destroy_all(1) [OF quiesced_ready [OF r q js], unfolded this, of mo cs]
  obtain u where u: "run (destroyer mo) cs (destroy_start t js (mem s)) = Running u"
    "fst (thr u t) = F_done \<Longrightarrow> freed (mem s) (?T @ js) (mem u)" by blast
  have "live (mem u) (Next b) \<longleftrightarrow> b \<in> set (retired d (trace s)) - set js"
    if "fst (thr u t) = F_done" for b
    using u(2) [OF that] quiesced_live [OF r q, of b] chain_split(1) [OF r] by (auto simp: freed_def)
  then show ?thesis using u(1) by blast
qed

lemma quiesced_terminates:
  assumes r: "reach (leaky_queue shipped) (leaky_start_state dflt d) s" and q: "quiesced t s"
    and js: "distinct js" "set js \<subseteq> set (retired d (trace s))"
  shows "\<exists>cs u. length cs \<le> 2 * (Suc (length (elements s)) + length js) + 3 \<and>
      run (destroyer mo) cs (destroy_start t js (mem s)) = Running u \<and> fst (thr u t) = F_done"
proof -
  let ?T = "linked_nodes d (trace s)"
  have "drop (length ?T) (?T @ js) = js" by simp
  from destroy_all(2) [OF quiesced_ready [OF r q js], unfolded this, of mo]
  show ?thesis by (simp add: chain_split(3) [OF r])
qed

section \<open>Reaching a quiesced state\<close>

fun actor :: "'o command \<Rightarrow> nat" where
  "actor (Step t k b) = t"
| "actor (Invoke t x) = t"
| "actor (Sync t u) = u"

lemma exec_other:
  "exec P c s = Running s' \<Longrightarrow> u \<noteq> actor c \<Longrightarrow> cur (mem s') u = cur (mem s) u"
proof (cases c)
  case (Step t k b)
  then show "exec P c s = Running s' \<Longrightarrow> u \<noteq> actor c \<Longrightarrow> cur (mem s') u = cur (mem s) u"
    by (cases "mem_step t (act P (thr s t)) (k, b) (mem s)") (auto dest: mem_step_other)
qed (auto simp: synchronize_def split: option.splits)

lemma run_other:
  "run P cs s = Running s' \<Longrightarrow> u \<notin> actor ` set cs \<Longrightarrow> cur (mem s') u = cur (mem s) u"
  by (induction cs arbitrary: s) (auto simp: exec_other split: verdict.splits)

text \<open>Joining the threads that took part is enough: the others know no more than at the start.\<close>

lemma exec_mono: "orderly (mem s) \<Longrightarrow> exec P c s = Running s' \<Longrightarrow> cur (mem s) u \<le> cur (mem s') u"
proof (cases c)
  case (Step t k b)
  then show "orderly (mem s) \<Longrightarrow> exec P c s = Running s' \<Longrightarrow> cur (mem s) u \<le> cur (mem s') u"
    by (cases "mem_step t (act P (thr s t)) (k, b) (mem s)")
      (auto simp: orderly_def dest: mem_step_mono)
qed (auto simp: synchronize_def split: option.splits)

lemma run_mono:
  "orderly (mem s) \<Longrightarrow> run P cs s = Running s' \<Longrightarrow> cur (mem s) u \<le> cur (mem s') u"
  by (induction cs arbitrary: s)
    (auto split: verdict.splits intro: order.trans [OF exec_mono] dest: orderly_exec)

lemma run_untouched:
  "run P cs s = Running s' \<Longrightarrow> u \<notin> actor ` set cs \<Longrightarrow> thr s' u = thr s u"
proof (induction cs arbitrary: s)
  case (Cons c cs)
  then obtain s1 where s1: "exec P c s = Running s1" "run P cs s1 = Running s'" "thr s' u = thr s1 u"
    by (auto split: verdict.splits)
  have "thr s1 u = thr s u"
  proof (cases c)
    case (Step t k b)
    then show ?thesis using s1(1) Cons.prems(2)
      by (cases "mem_step t (act P (thr s t)) (k, b) (mem s)") auto
  qed (use s1(1) Cons.prems(2) in \<open>auto split: option.splits\<close>)
  then show ?case using s1(3) by simp
qed simp

definition join :: "nat \<Rightarrow> nat list \<Rightarrow> ('l, 'v) memory \<Rightarrow> ('l, 'v) memory" where
  "join t us M = fold (\<lambda>u. synchronize u t) us M"

lemma synchronize_cur: "cur M v \<le> cur (synchronize u t M) v" "cur M u \<le> cur (synchronize u t M) t"
  by (simp_all add: synchronize_def)

lemma join_others: "v \<noteq> t \<Longrightarrow> cur (join t us M) v = cur M v"
  unfolding join_def by (induction us arbitrary: M) (simp_all add: synchronize_def)

lemma join_low: "cur M v \<le> cur (join t us M) v"
  unfolding join_def
  by (induction us arbitrary: M) (auto intro: order.trans [OF synchronize_cur(1)])

lemma join_knows: "u \<in> set us \<Longrightarrow> cur M u \<le> cur (join t us M) t"
proof (induction us arbitrary: M)
  case (Cons v us)
  let ?M = "synchronize v t M"
  have step: "join t (v # us) M = join t us ?M" by (simp add: join_def)
  show ?case
  proof (cases "u = v")
    case True
    then show ?thesis unfolding step using order.trans [OF synchronize_cur(2) join_low] by simp
  next
    case False
    then have "cur ?M u \<le> cur (join t us ?M) t" using Cons by simp
    then show ?thesis unfolding step using order.trans [OF synchronize_cur(1)] by blast
  qed
qed simp

lemma run_join:
  "idle P (thr s t) \<Longrightarrow> run P (map (\<lambda>u. Sync u t) us) s = Running (s\<lparr>mem := join t us (mem s)\<rparr>)"
  by (induction us arbitrary: s) (simp_all add: join_def)

lemma start_shared: "cur (mem (leaky_start_state dflt d)) u = cur (mem (leaky_start_state dflt d)) t"
proof -
  have "cur (share 0 M) u = cur (share 0 M) t" for M :: "(unit loc, 'a cell) memory"
    by (simp add: share_def)
  then show ?thesis unfolding leaky_start_state_def queue_start_def by (simp only: state.simps)
qed

text \<open>When the calls of a schedule are over, a thread that joins the threads of the schedule has
  the queue to itself.\<close>

lemma join_quiesces:
  assumes run: "run (leaky_queue shipped) cs (leaky_start_state dflt d) = Running s"
    and us: "actor ` set cs \<subseteq> set us" and idle: "\<forall>u \<in> set us. fst (thr s u) = Idle"
  obtains s' where "reach (leaky_queue shipped) (leaky_start_state dflt d) s'" "quiesced t s'"
    "trace s' = trace s" "thr s' = thr s"
proof -
  let ?s = "s\<lparr>mem := join t us (mem s)\<rparr>"
  let ?start = "leaky_start_state dflt d"
  have r: "reach (leaky_queue shipped) ?start s" by (rule run_reach [OF reach_start run])
  have id: "fst (thr s u) = Idle" for u
  proof (cases "u \<in> set us")
    case False
    then have "thr s u = thr ?start u" using us by (intro run_untouched [OF run]) blast
    then show ?thesis by (simp add: leaky_start_state_def queue_start_def)
  qed (use idle in simp)
  then have "run (leaky_queue shipped) (map (\<lambda>u. Sync u t) us) s = Running ?s"
    by (intro run_join) (simp add: leaky_queue_def ms_queue_def)
  then have r': "reach (leaky_queue shipped) ?start ?s" by (rule run_reach [OF r])
  have "cur (join t us (mem s)) u \<le> cur (join t us (mem s)) t" for u
  proof (cases "u = t")
    case ne: False
    show ?thesis
    proof (cases "u \<in> set us")
      case True
      then show ?thesis unfolding join_others [OF ne] by (rule join_knows)
    next
      case False
      then have "cur (mem s) u = cur (mem ?start) u" using us by (intro run_other [OF run]) blast
      also have "\<dots> = cur (mem ?start) t"
        by (rule start_shared)
      also have "\<dots> \<le> cur (mem s) t"
        by (rule run_mono [OF leaky_orderly [OF reach_start] run])
      finally show ?thesis unfolding join_others [OF ne] by (rule order.trans [OF _ join_low])
    qed
  qed simp
  then have "quiesced t ?s" using id by (simp add: quiesced_def)
  then show thesis using that [OF r'] by simp
qed

lemma demo_idle: "observe 1 (run (leaky_queue shipped) demo_run (leaky_start_state 0 7)) = Some ((Idle, ()), demo_trace)"
  by code_simp

lemma demo_quiesced:
  obtains s :: "nat leaky_state" where "reach (leaky_queue shipped) (leaky_start_state 0 7) s" "quiesced 3 s"
    "trace s = demo_trace"
proof -
  obtain s :: "nat leaky_state" where s: "run (leaky_queue shipped) demo_run (leaky_start_state 0 7) = Running s"
    "thr s 1 = (Idle, ())" "thr s 2 = (Idle, ())" "trace s = demo_trace"
    using demo_observed demo_idle
    by (cases "run (leaky_queue shipped) demo_run (leaky_start_state 0 7)") (simp_all add: observe_def)
  have "actor ` set demo_run \<subseteq> set [1, 2]" by (auto simp: demo_run_def)
  then show thesis
    by (rule join_quiesces [OF s(1)]) (use s that in auto)
qed

section \<open>The properties\<close>

text \<open>
  C30.  The destructor of a quiesced queue runs without undefined behaviour whatever it has been
  used for, and frees every node still linked exactly once: of the nodes ever allocated, those that
  were retired are left, which the leaky reclaimer never frees.
\<close>

theorem destructor_frees_list:
  assumes "reach (leaky_queue shipped) (leaky_start_state dflt d) s" and "quiesced t s"
  shows "\<exists>u. run destructor cs (destroy_start t [] (mem s)) = Running u \<and>
      (fst (thr u t) = F_done \<longrightarrow> (\<forall>b. live (mem u) (Next b) \<longleftrightarrow> b \<in> set (retired d (trace s))))"
  using quiesced_freed [OF assms, of "[]"] by (simp add: destructor_def)

theorem destructor_frees_list_witness:
  "\<exists>(s :: nat leaky_state) cs u. run destructor cs (destroy_start 3 [] (mem s)) = Running u \<and>
     trace s = demo_trace \<and> live (mem u) (Next 7) \<and> \<not> live (mem u) (Next 9)"
proof -
  obtain s where s: "reach (leaky_queue shipped) (leaky_start_state 0 7) s" "quiesced 3 s"
    "trace s = demo_trace"
    by (rule demo_quiesced)
  obtain cs u where u: "run destructor cs (destroy_start 3 [] (mem s)) = Running u" "fst (thr u 3) = F_done"
    using quiesced_terminates [OF s(1,2), of "[]" seq_cst] by (auto simp: destructor_def)
  have "live (mem u) (Next b) \<longleftrightarrow> b \<in> set (retired 7 demo_trace)" for b
    using destructor_frees_list [OF s(1,2), of cs] u s(3) by auto
  moreover have "retired 7 demo_trace = [7]" by (simp add: retired_def demo_trace_def chain_def)
  ultimately show ?thesis using u(1) s(3)
    by (intro exI [of _ s] exI [of _ cs] exI [of _ u]) simp
qed

text \<open>
  C31.  The walk of the destructor ends: two steps for each node and three more are enough.
\<close>

theorem destructor_terminates:
  assumes "reach (leaky_queue shipped) (leaky_start_state dflt d) s" and "quiesced t s"
  shows "\<exists>cs u. length cs \<le> 2 * Suc (length (elements s)) + 3 \<and>
      run destructor cs (destroy_start t [] (mem s)) = Running u \<and> fst (thr u t) = F_done"
  using quiesced_terminates [OF assms, of "[]"] by (simp add: destructor_def)

theorem destructor_terminates_witness:
  "\<exists>(s :: nat leaky_state) cs u. length cs \<le> 5 \<and> trace s = demo_trace \<and>
     run destructor cs (destroy_start 3 [] (mem s)) = Running u \<and> fst (thr u 3) = F_done"
proof -
  obtain s where s: "reach (leaky_queue shipped) (leaky_start_state 0 7) s" "quiesced 3 s"
    "trace s = demo_trace"
    by (rule demo_quiesced)
  have "elements s = []" using leaky_fifo.reach_fifo [OF s(1)] s(3) by (simp add: demo_trace_def)
  then show ?thesis using destructor_terminates [OF s(1,2)] s(3) by fastforce
qed

text \<open>
  \<^verbatim>\<open>teardown()\<close> of the checked port leaves nothing behind: with the retired nodes in
  \<^verbatim>\<open>junk_\<close>, in any order, every node ever allocated is freed, and none twice.
\<close>

lemma teardown_frees_all:
  assumes "reach (leaky_queue shipped) (leaky_start_state dflt d) s" and "quiesced t s"
    and "distinct js" and "set js = set (retired d (trace s))"
  shows "\<exists>u. run teardown cs (destroy_start t js (mem s)) = Running u \<and>
      (fst (thr u t) = F_done \<longrightarrow> (\<forall>b. \<not> live (mem u) (Next b)))"
  using quiesced_freed [OF assms(1,2,3)] assms(4) by (simp add: teardown_def)

end
