(* ===== verification/Queue_Suite.thy ===== *)
theory Queue_Suite imports Queue_Model Ms_Queue_Destroy begin

unbundle bit_operations_syntax

text \<open>
  \<^verbatim>\<open>queue_suite\<close> of \<^verbatim>\<open>model/queue_model.hpp\<close>: \<^verbatim>\<open>P\<close> producers and
  \<^verbatim>\<open>C\<close> consumers drive the port of the queue, and assert what its users rely on.  A state
  of the suite is a state of the queue with, for each thread, where its loop is.  The array
  \<^verbatim>\<open>seen\<close> is not an instrumented variable of the checker, so it is read and written at
  once; \<^verbatim>\<open>consumed\<close> is an atomic whose accesses are all relaxed, and is kept in a memory
  of its own: the loads of it may be staler than what the thread has learnt through the queue allows.
\<close>

section \<open>The threads\<close>

type_synonym unsigned = "32 word"

datatype client =
    Producing nat
  | In_enqueue nat
  | Polling "int list"
  | In_dequeue "int list"
  | Counting "int list"
  | Exited
  | Waiting
  | In_after

record suite_state =
  queue :: "unsigned leaky_state"
  consumed :: "(unit, unsigned) memory"
  seen_m :: "nat \<Rightarrow> nat \<Rightarrow> unsigned"
  clients :: "nat \<Rightarrow> client"

text \<open>\<^verbatim>\<open>(idx << 8) | s\<close>, \<^verbatim>\<open>v >> 8\<close> and \<^verbatim>\<open>v & 0xffu\<close>.\<close>

definition encode :: "nat \<Rightarrow> nat \<Rightarrow> unsigned" where
  "encode p s = push_bit 8 (of_nat p) OR of_nat s"

definition producer_of :: "unsigned \<Rightarrow> nat" where
  "producer_of v = unat (drop_bit 8 v)"

definition sequence_of :: "unsigned \<Rightarrow> nat" where
  "sequence_of v = unat (v AND 0xFF)"

fun and_then :: "'s verdict \<Rightarrow> ('s \<Rightarrow> 't verdict) \<Rightarrow> 't verdict" where
  "and_then (Running s) f = f s"
| "and_then (Crashed e) f = Crashed e"

definition assertion :: "bool \<Rightarrow> 's verdict \<Rightarrow> 's verdict" where
  "assertion b v = (if b then v else Crashed Assertion_failed)"

definition set_client :: "nat \<Rightarrow> client \<Rightarrow> suite_state \<Rightarrow> suite_state" where
  "set_client t c S = S\<lparr>clients := (clients S)(t := c)\<rparr>"

text \<open>A step of the queue, then \<open>f\<close> on the new state.\<close>

definition on_queue :: "queue_bug \<Rightarrow> unsigned op command \<Rightarrow> suite_state
    \<Rightarrow> (suite_state \<Rightarrow> suite_state verdict) \<Rightarrow> suite_state verdict" where
  "on_queue bug c S f = and_then (exec (ms_queue_m bug) c (queue S)) (\<lambda>q. f (S\<lparr>queue := q\<rparr>))"

text \<open>What a consumer does with the answer of \<^verbatim>\<open>try_dequeue\<close>.\<close>

fun received :: "nat \<Rightarrow> nat \<Rightarrow> nat \<Rightarrow> int list \<Rightarrow> unsigned option \<Rightarrow> suite_state
    \<Rightarrow> suite_state verdict" where
  "received P K t lst None S = Running (set_client t (Polling lst) S)"
| "received P K t lst (Some v) S =
     (let p = producer_of v; s = sequence_of v in
      assertion (p < P \<and> s < K)
        (assertion (lst ! p < int s)
          (assertion (seen_m S p s = 0)
            (Running (set_client t (Counting (lst[p := int s]))
              (S\<lparr>seen_m := (seen_m S)(p := (seen_m S p)(s := 1))\<rparr>))))))"

text \<open>\<^verbatim>\<open>after()\<close>: the queue is drained, and every element was seen.\<close>

definition checked :: "nat \<Rightarrow> nat \<Rightarrow> nat \<Rightarrow> unsigned option \<Rightarrow> suite_state \<Rightarrow> suite_state verdict" where
  "checked P K t r S =
     assertion (r = None)
       (assertion (list_all (\<lambda>p. list_all (\<lambda>s. seen_m S p s = 1) [0..<K]) [0..<P])
         (Running (set_client t Exited S)))"

fun count_of :: "unsigned result \<Rightarrow> unsigned" where
  "count_of (Val n) = n"
| "count_of (Swapped b n) = n"
| "count_of (Addr a) = 0"
| "count_of Unit = 0"

text \<open>One step of thread \<open>t\<close>.  The threads are \<open>0, \<dots>, P + C - 1\<close>, and \<open>P + C\<close> runs
  \<^verbatim>\<open>after()\<close> once they have all returned, having joined them.\<close>

definition suite_step :: "queue_bug \<Rightarrow> nat \<Rightarrow> nat \<Rightarrow> nat \<Rightarrow> nat \<times> nat \<times> bool \<Rightarrow> suite_state
    \<Rightarrow> suite_state verdict" where
  "suite_step bug P C K x S =
     (let t = fst x; k = fst (snd x); b = snd (snd x) in
      case clients S t of
        Producing s \<Rightarrow>
          if s < K then
            on_queue bug (Invoke t (Enqueue (encode t s))) S
              (\<lambda>S. Running (set_client t (In_enqueue s) S))
          else Running (set_client t Exited S)
      | In_enqueue s \<Rightarrow>
          on_queue bug (Step t k b) S
            (\<lambda>S. Running
               (if fst (thr (queue S) t) = Idle then set_client t (Producing (Suc s)) S else S))
      | Polling lst \<Rightarrow>
          (case mem_step t (Load () relaxed) (k, b) (consumed S) of
             Blocked \<Rightarrow> Running S
           | Ub e \<Rightarrow> Crashed e
           | Done r M \<Rightarrow>
               if count_of r < of_nat (P * K) then
                 on_queue bug (Invoke t Try_dequeue) (S\<lparr>consumed := M\<rparr>)
                   (\<lambda>S. Running (set_client t (In_dequeue lst) S))
               else Running (set_client t Exited (S\<lparr>consumed := M\<rparr>)))
      | In_dequeue lst \<Rightarrow>
          on_queue bug (Step t k b) S
            (\<lambda>S'. case fst (thr (queue S) t) of
               Finish (Dequeued r) \<Rightarrow> received P K t lst r S'
             | _ \<Rightarrow> Running S')
      | Counting lst \<Rightarrow>
          (case mem_step t (Rmw () (\<lambda>n. n + 1) relaxed) (k, b) (consumed S) of
             Blocked \<Rightarrow> Running S
           | Ub e \<Rightarrow> Crashed e
           | Done r M \<Rightarrow> Running (set_client t (Polling lst) (S\<lparr>consumed := M\<rparr>)))
      | Exited \<Rightarrow> Running S
      | Waiting \<Rightarrow>
          if list_all (\<lambda>u. clients S u = Exited) [0..<P + C] then
            on_queue bug (Invoke t Try_dequeue)
              (S\<lparr>queue := (queue S)\<lparr>mem := join t [0..<P + C] (mem (queue S))\<rparr>\<rparr>)
              (\<lambda>S. Running (set_client t In_after S))
          else Running S
      | In_after \<Rightarrow>
          on_queue bug (Step t k b) S
            (\<lambda>S'. case fst (thr (queue S) t) of
               Finish (Dequeued r) \<Rightarrow> checked P K t r S'
             | _ \<Rightarrow> Running S'))"

text \<open>\<^verbatim>\<open>before()\<close>: the queue is initialised at an address \<open>a\<close> of the allocator's choice,
  \<^verbatim>\<open>seen\<close> is zeroed, \<^verbatim>\<open>consumed\<close> is zero.\<close>

definition suite_start :: "nat \<Rightarrow> nat \<Rightarrow> nat \<Rightarrow> suite_state" where
  "suite_start P C a =
     \<lparr>queue = leaky_start_state 0 a,
      consumed = share 0 (the (perform 0 [(New (\<lambda>_. [((), 0)]), 0), (Store () 0 relaxed, 0)] blank)),
      seen_m = (\<lambda>p s. 0),
      clients = (\<lambda>t. if t < P then Producing 0 else if t < P + C then Polling (replicate P (- 1))
                     else if t = P + C then Waiting else Exited)\<rparr>"

fun suite_run :: "queue_bug \<Rightarrow> nat \<Rightarrow> nat \<Rightarrow> nat \<Rightarrow> (nat \<times> nat \<times> bool) list \<Rightarrow> suite_state
    \<Rightarrow> suite_state verdict" where
  "suite_run bug P C K [] S = Running S"
| "suite_run bug P C K (x # xs) S = and_then (suite_step bug P C K x S) (suite_run bug P C K xs)"

section \<open>The two negative configurations\<close>

text \<open>\<^verbatim>\<open>queue_suite<bug_relaxed_tail_load, 1, 2, 1>\<close>: the producer enqueues, and a consumer
  reads the new \<^verbatim>\<open>tail_\<close> but the old \<^verbatim>\<open>next\<close> of the dummy.\<close>

definition tail_suite_run :: "(nat \<times> nat \<times> bool) list" where
  "tail_suite_run =
     map (\<lambda>k. (0, k, True)) [0, 9, 0, 0, 2, 1, 2, 1, 2] @
     map (\<lambda>k. (1, k, True)) [2, 0, 0, 2, 3, 1, 0, 2, 0]"

text \<open>\<^verbatim>\<open>queue_suite<bug_relaxed_link_cas, 1, 1, 1>\<close>: the consumer helps \<^verbatim>\<open>tail_\<close>
  forward before the producer swings it.\<close>

definition link_suite_run :: "(nat \<times> nat \<times> bool) list" where
  "link_suite_run =
     map (\<lambda>k. (0, k, True)) [0, 9, 0, 0, 2, 1, 2, 1] @
     map (\<lambda>k. (1, k, True)) [2, 0, 0, 2, 2, 2, 0, 2, 2, 0, 2, 3, 2, 0, 2, 0]"

lemma tail_suite_crash:
  "crash_of (suite_run bug_relaxed_tail_load 1 2 1 tail_suite_run (suite_start 1 2 7)) = Some Null_deref"
  by code_simp

lemma link_suite_crash:
  "crash_of (suite_run bug_relaxed_link_cas 1 1 1 link_suite_run (suite_start 1 1 7)) = Some Data_race"
  by code_simp

end
