(* ===== verification/Queue_Suite_Safe.thy ===== *)
theory Queue_Suite_Safe imports Queue_Suite begin

text \<open>
  The shipped queue passes the suite: the accounts \<open>tally\<close> relates what the trace of the queue
  says has been linked and unlinked to the loops of the threads, to \<^verbatim>\<open>seen\<close> and to
  \<^verbatim>\<open>consumed\<close>, and the order of elements proved in theory Ms_Queue_Props gives every
  assertion.
\<close>

section \<open>Values\<close>

lemma encode_fits:
  fixes p s :: nat
  assumes "p < 2 ^ 24" "s < 256"
  shows "take_bit 32 (push_bit 8 p) = push_bit 8 p" "take_bit 32 p = p" "take_bit 32 s = s"
  using assms by (simp_all add: take_bit_nat_eq_self_iff push_bit_eq_mult)

lemma unat_encode: "p < 2 ^ 24 \<Longrightarrow> s < 256 \<Longrightarrow> unat (encode p s) = push_bit 8 p OR s"
  unfolding encode_def
  by (simp add: unsigned_or_eq unsigned_push_bit_eq unsigned_of_nat encode_fits)

lemma encode_parts:
  assumes "p < 2 ^ 24" "s < 256"
  shows "producer_of (encode p s) = p" and "sequence_of (encode p s) = s"
proof -
  have "drop_bit 8 s = 0" using assms by (simp add: drop_bit_eq_div)
  then show "producer_of (encode p s) = p"
    using unat_encode [OF assms] by (simp add: producer_of_def unsigned_drop_bit_eq encode_fits [OF assms] drop_bit_push_bit)
  have "sequence_of (encode p s) = (push_bit 8 p OR s) AND mask 8"
    using unat_encode [OF assms] by (simp add: sequence_of_def unsigned_and_eq mask_numeral)
  also have "\<dots> = take_bit 8 (push_bit 8 p OR s)" by (simp add: take_bit_eq_mask)
  also have "\<dots> = s" using assms by (simp add: take_bit_push_bit take_bit_nat_eq_self_iff)
  finally show "sequence_of (encode p s) = s" .
qed

section \<open>The accounts\<close>

text \<open>The local part: thread \<open>t\<close> with status \<open>st\<close> in the trace is at \<open>c\<close>.\<close>

fun stage_ok :: "nat \<Rightarrow> nat \<Rightarrow> nat \<Rightarrow> nat \<Rightarrow> unsigned status option \<Rightarrow> client \<Rightarrow> bool" where
  "stage_ok P C K t st (Producing s) \<longleftrightarrow> t < P \<and> s \<le> K \<and> st = Some Ready"
| "stage_ok P C K t st (In_enqueue s) \<longleftrightarrow>
     t < P \<and> s < K \<and> (st = Some (Enqueuing (encode t s)) \<or> st = Some Linked_in)"
| "stage_ok P C K t st (Polling lst) \<longleftrightarrow> P \<le> t \<and> t < P + C \<and> length lst = P \<and> st = Some Ready"
| "stage_ok P C K t st (In_dequeue lst) \<longleftrightarrow>
     P \<le> t \<and> t < P + C \<and> length lst = P \<and> (st = Some Dequeuing \<or> (\<exists>v. st = Some (Taken v)))"
| "stage_ok P C K t st (Counting lst) \<longleftrightarrow> P \<le> t \<and> t < P + C \<and> length lst = P \<and> st = Some Ready"
| "stage_ok P C K t st Exited \<longleftrightarrow> st = Some Ready"
| "stage_ok P C K t st Waiting \<longleftrightarrow> t = P + C \<and> st = Some Ready"
| "stage_ok P C K t st In_after \<longleftrightarrow> t = P + C \<and> st = Some Dequeuing"

text \<open>How many elements producer \<open>t\<close> has linked.\<close>

fun linked :: "nat \<Rightarrow> unsigned status option \<Rightarrow> client \<Rightarrow> nat" where
  "linked K st (Producing s) = s"
| "linked K st (In_enqueue s) = (if st = Some Linked_in then Suc s else s)"
| "linked K st Exited = K"
| "linked K st _ = 0"

fun lasts :: "client \<Rightarrow> int list option" where
  "lasts (Polling lst) = Some lst"
| "lasts (In_dequeue lst) = Some lst"
| "lasts (Counting lst) = Some lst"
| "lasts _ = None"

text \<open>The element a thread has unlinked but not yet received.\<close>

fun taken :: "unsigned status option \<Rightarrow> unsigned option" where
  "taken (Some (Taken v)) = Some v"
| "taken _ = None"

definition of_producer :: "nat \<Rightarrow> unsigned list \<Rightarrow> unsigned list" where
  "of_producer p vs = filter (\<lambda>v. producer_of v = p) vs"

text \<open>Threads whose element is unlinked and not yet counted.\<close>

fun busy :: "unsigned status option \<Rightarrow> client \<Rightarrow> bool" where
  "busy st (Counting lst) \<longleftrightarrow> True"
| "busy st c \<longleftrightarrow> taken st \<noteq> None"

definition uncounted :: "nat \<Rightarrow> (nat \<Rightarrow> unsigned status option) \<Rightarrow> (nat \<Rightarrow> client) \<Rightarrow> nat set" where
  "uncounted m st cl = {t. t < m \<and> busy (st t) (cl t)}"

definition tally :: "nat \<Rightarrow> nat \<Rightarrow> nat \<Rightarrow> unsigned list \<Rightarrow> unsigned list \<Rightarrow> (nat \<Rightarrow> unsigned status option)
    \<Rightarrow> (nat \<Rightarrow> client) \<Rightarrow> (nat \<Rightarrow> nat \<Rightarrow> unsigned) \<Rightarrow> nat \<Rightarrow> bool" where
  "tally P C K E D st cl sn n \<longleftrightarrow>
     (\<forall>t. stage_ok P C K t (st t) (cl t)) \<and>
     (\<forall>p. of_producer p E = (if p < P then map (encode p) [0..<linked K (st p) (cl p)] else [])) \<and>
     (\<forall>t lst p. lasts (cl t) = Some lst \<and> p < P \<longrightarrow>
        lst ! p < int (length (of_producer p D)) \<and>
        (\<forall>v. taken (st t) = Some v \<and> producer_of v = p \<longrightarrow> lst ! p < int (sequence_of v))) \<and>
     (\<forall>t v. taken (st t) = Some v \<longrightarrow> v \<in> set D) \<and>
     (\<forall>t u v. taken (st t) = Some v \<and> taken (st u) = Some v \<longrightarrow> t = u) \<and>
     (\<forall>p<P. \<forall>s<K. sn p s =
        (if encode p s \<in> set D \<and> (\<forall>t. taken (st t) \<noteq> Some (encode p s)) then 1 else 0)) \<and>
     n + card (uncounted (P + C) st cl) \<le> length D \<and>
     (\<forall>t. P \<le> t \<and> t < P + C \<and> cl t = Exited \<longrightarrow> P * K \<le> n) \<and>
     (cl (P + C) \<noteq> Waiting \<longrightarrow> (\<forall>u < P + C. cl u = Exited))"

text \<open>What the suite needs of its parameters to be meaningful: sequence numbers fit in 8 bits,
  producer numbers in the other 24, and \<^verbatim>\<open>consumed\<close> does not wrap.\<close>

definition sized :: "nat \<Rightarrow> nat \<Rightarrow> nat \<Rightarrow> bool" where
  "sized P C K \<longleftrightarrow> 0 < C \<and> P \<le> 2 ^ 24 \<and> K \<le> 256 \<and> P * K < 2 ^ 32"

lemma tallyD:
  assumes "tally P C K E D st cl sn n"
  shows "stage_ok P C K t (st t) (cl t)"
    and "of_producer p E = (if p < P then map (encode p) [0..<linked K (st p) (cl p)] else [])"
    and "lasts (cl t) = Some lst \<Longrightarrow> p < P \<Longrightarrow> lst ! p < int (length (of_producer p D))"
    and "lasts (cl t) = Some lst \<Longrightarrow> producer_of v < P \<Longrightarrow> taken (st t) = Some v \<Longrightarrow>
      lst ! producer_of v < int (sequence_of v)"
    and "taken (st t) = Some v \<Longrightarrow> v \<in> set D"
    and "taken (st t) = Some v \<Longrightarrow> taken (st u) = Some v \<Longrightarrow> t = u"
    and "p < P \<Longrightarrow> s < K \<Longrightarrow> sn p s =
        (if encode p s \<in> set D \<and> (\<forall>t. taken (st t) \<noteq> Some (encode p s)) then 1 else 0)"
    and "n + card (uncounted (P + C) st cl) \<le> length D"
    and "P \<le> t \<Longrightarrow> t < P + C \<Longrightarrow> cl t = Exited \<Longrightarrow> P * K \<le> n"
    and "cl (P + C) \<noteq> Waiting \<Longrightarrow> u < P + C \<Longrightarrow> cl u = Exited"
proof -
  note all = assms [unfolded tally_def]
  note t1 = all [THEN conjunct1] and a1 = all [THEN conjunct2]
  note t2 = a1 [THEN conjunct1] and a2 = a1 [THEN conjunct2]
  note t3 = a2 [THEN conjunct1] and a3 = a2 [THEN conjunct2]
  note t4 = a3 [THEN conjunct1] and a4 = a3 [THEN conjunct2]
  note t5 = a4 [THEN conjunct1] and a5 = a4 [THEN conjunct2]
  note t6 = a5 [THEN conjunct1] and a6 = a5 [THEN conjunct2]
  note t7 = a6 [THEN conjunct1] and a7 = a6 [THEN conjunct2]
  note t8 = a7 [THEN conjunct1] and t9 = a7 [THEN conjunct2]
  show "stage_ok P C K t (st t) (cl t)" by (rule t1 [rule_format])
  show "of_producer p E = (if p < P then map (encode p) [0..<linked K (st p) (cl p)] else [])"
    by (rule t2 [rule_format])
  show "lasts (cl t) = Some lst \<Longrightarrow> p < P \<Longrightarrow> lst ! p < int (length (of_producer p D))"
    using t3 by blast
  show "lasts (cl t) = Some lst \<Longrightarrow> producer_of v < P \<Longrightarrow> taken (st t) = Some v \<Longrightarrow>
      lst ! producer_of v < int (sequence_of v)"
    using t3 by blast
  show "taken (st t) = Some v \<Longrightarrow> v \<in> set D" by (rule t4 [rule_format])
  show "taken (st t) = Some v \<Longrightarrow> taken (st u) = Some v \<Longrightarrow> t = u" using t5 by blast
  show "p < P \<Longrightarrow> s < K \<Longrightarrow> sn p s =
        (if encode p s \<in> set D \<and> (\<forall>t. taken (st t) \<noteq> Some (encode p s)) then 1 else 0)"
    by (rule t6 [rule_format])
  show "n + card (uncounted (P + C) st cl) \<le> length D" by (rule t7)
  show "P \<le> t \<Longrightarrow> t < P + C \<Longrightarrow> cl t = Exited \<Longrightarrow> P * K \<le> n" using t8 by blast
  show "cl (P + C) \<noteq> Waiting \<Longrightarrow> u < P + C \<Longrightarrow> cl u = Exited" using t9 by blast
qed

lemma distinct_filters:
  assumes "\<And>p. distinct (filter (\<lambda>v. f v = p) xs)"
  shows "distinct xs"
  using assms
proof (induction xs)
  case (Cons x xs)
  have "distinct (filter (\<lambda>v. f v = p) xs)" for p using Cons.prems [of p] by (auto split: if_splits)
  moreover have "x \<notin> set xs" using Cons.prems [of "f x"] by auto
  ultimately show ?case using Cons.IH by simp
qed simp

lemma linked_le: "stage_ok P C K t st c \<Longrightarrow> linked K st c \<le> K"
  by (cases c) auto

lemma tally_elements:
  assumes t: "tally P C K E D st cl sn n" and sz: "sized P C K"
  shows "v \<in> set E \<Longrightarrow> \<exists>p<P. \<exists>s<K. v = encode p s \<and> producer_of v = p \<and> sequence_of v = s"
    and "distinct E" and "length E \<le> P * K"
proof -
  have el: "\<exists>p<P. \<exists>s<K. v = encode p s \<and> producer_of v = p \<and> sequence_of v = s" if "v \<in> set E" for v
  proof -
    let ?p = "producer_of v"
    have "v \<in> set (of_producer ?p E)" using that by (simp add: of_producer_def)
    then have "?p < P" "v \<in> encode ?p ` {0..<linked K (st ?p) (cl ?p)}"
      using tallyD(2) [OF t, of ?p] by (auto split: if_splits)
    moreover have "linked K (st ?p) (cl ?p) \<le> K" using linked_le [OF tallyD(1) [OF t, of ?p]] .
    ultimately obtain s where "?p < P" "s < linked K (st ?p) (cl ?p)" "v = encode ?p s"
      "linked K (st ?p) (cl ?p) \<le> K" by auto
    then have s: "?p < P" "s < K" "v = encode ?p s" by linarith+
    have "sequence_of (encode ?p s) = s"
      using s(1,2) sz by (intro encode_parts(2)) (simp_all add: sized_def)
    then show ?thesis using s by metis
  qed
  then show "v \<in> set E \<Longrightarrow> \<exists>p<P. \<exists>s<K. v = encode p s \<and> producer_of v = p \<and> sequence_of v = s" by blast
  show d: "distinct E"
  proof (rule distinct_filters [where f = producer_of])
    fix p
    have "inj_on (encode p) {0..<linked K (st p) (cl p)}" if "p < P"
    proof (rule inj_onI)
      fix x y assume "x \<in> {0..<linked K (st p) (cl p)}" "y \<in> {0..<linked K (st p) (cl p)}"
      moreover have "linked K (st p) (cl p) \<le> K" using linked_le [OF tallyD(1) [OF t, of p]] .
      ultimately have "x < 256" "y < 256" "p < 2 ^ 24" using sz that by (auto simp: sized_def)
      moreover assume "encode p x = encode p y"
      ultimately show "x = y" using encode_parts(2) by metis
    qed
    then have "distinct (of_producer p E)"
      using tallyD(2) [OF t, of p] by (simp add: distinct_map)
    then show "distinct (filter (\<lambda>v. producer_of v = p) E)" by (simp add: of_producer_def)
  qed
  have "set E \<subseteq> (\<lambda>(p, s). encode p s) ` ({0..<P} \<times> {0..<K})"
    using el by (force simp: image_iff)
  then have "card (set E) \<le> card ({0..<P} \<times> {0..<K})"
    by (meson card_image_le card_mono finite_SigmaI finite_atLeastLessThan finite_imageI le_trans)
  then show "length E \<le> P * K" using d by (simp add: distinct_card)
qed


section \<open>What the steps do to the accounts\<close>

text \<open>Most steps only move one thread from one place of its loop to another.\<close>

lemma uncounted_same:
  "(\<And>t. busy (st' t) (cl' t) = busy (st t) (cl t)) \<Longrightarrow> uncounted m st' cl' = uncounted m st cl"
  by (simp add: uncounted_def)

lemma uncounted_in:
  "t < m \<Longrightarrow> busy (st' t) (cl' t) \<Longrightarrow> (\<And>u. u \<noteq> t \<Longrightarrow> st' u = st u \<and> cl' u = cl u) \<Longrightarrow>
    uncounted m st' cl' = insert t (uncounted m st cl)"
  unfolding uncounted_def by (rule set_eqI) (metis (mono_tags, lifting) insert_iff mem_Collect_eq)

lemma busy_idle: "(\<And>lst. c \<noteq> Counting lst) \<Longrightarrow> busy st c \<longleftrightarrow> taken st \<noteq> None"
  by (cases c) auto

lemma finite_uncounted: "finite (uncounted m st cl)"
  by (simp add: uncounted_def)

lemma tally_move:
  assumes t: "tally P C K E D st cl sn n"
    and c: "stage_ok P C K t x c" and tk: "taken (st t) = None" "taken x = None"
    and cn: "\<And>lst. cl t \<noteq> Counting lst" "\<And>lst. c \<noteq> Counting lst"
    and ln: "t < P \<Longrightarrow> linked K x c = linked K (st t) (cl t)"
    and la: "\<And>lst. lasts c = Some lst \<Longrightarrow> lasts (cl t) = Some lst"
    and ex: "P \<le> t \<Longrightarrow> t < P + C \<Longrightarrow> c = Exited \<Longrightarrow> P * K \<le> n"
    and af: "cl t \<noteq> Exited" "t = P + C \<Longrightarrow> c \<noteq> Waiting \<Longrightarrow> \<forall>u < P + C. cl u = Exited"
  shows "tally P C K E D (st(t := x)) (cl(t := c)) sn n"
proof -
  note d = tallyD [OF t]
  have same: "taken ((st(t := x)) u) = taken (st u)" for u using tk by simp
  have un: "uncounted (P + C) (st(t := x)) (cl(t := c)) = uncounted (P + C) st cl"
    by (rule uncounted_same) (use tk cn in \<open>auto simp: busy_idle\<close>)
  show ?thesis
    unfolding tally_def same un
  proof (intro conjI allI impI)
    show "stage_ok P C K u ((st(t := x)) u) ((cl(t := c)) u)" for u using c d(1) by simp
    show "of_producer p E =
        (if p < P then map (encode p) [0..<linked K ((st(t := x)) p) ((cl(t := c)) p)] else [])" for p
      using d(2) [of p] ln by auto
    fix u lst p assume "lasts ((cl(t := c)) u) = Some lst \<and> p < P"
    then have l: "lasts (cl u) = Some lst" "p < P" using la by (auto split: if_splits)
    then show "lst ! p < int (length (of_producer p D))" by (rule d(3))
    fix v assume "taken (st u) = Some v \<and> producer_of v = p"
    then show "lst ! p < int (sequence_of v)" using d(4) [OF l(1)] l(2) by blast
  next
    fix u assume a: "(cl(t := c)) (P + C) \<noteq> Waiting" "u < P + C"
    have "\<forall>u < P + C. cl u = Exited" using af(2) d(10) a(1) by (cases "t = P + C") auto
    then show "(cl(t := c)) u = Exited" using a(2) af by (cases "t = u") auto
  qed (use d(5-9) ex in \<open>auto split: if_splits\<close>)
qed

text \<open>A producer links its element.\<close>

lemma tally_link:
  assumes t: "tally P C K E D st cl sn n" and sz: "sized P C K"
    and c: "cl t = In_enqueue s" "st t = Some (Enqueuing v)"
  shows "tally P C K (E @ [v]) D (st(t := Some Linked_in)) cl sn n" and "v = encode t s"
proof -
  note d = tallyD [OF t]
  have ok: "t < P" "s < K" "v = encode t s" using d(1) [of t] c by auto
  show "v = encode t s" by (rule ok(3))
  have p: "producer_of v = t"
    unfolding ok(3) by (rule encode_parts(1)) (use ok(1,2) sz in \<open>simp_all add: sized_def\<close>)
  have same: "taken ((st(t := Some Linked_in)) u) = taken (st u)" for u using c by simp
  have un: "uncounted (P + C) (st(t := Some Linked_in)) cl = uncounted (P + C) st cl"
    by (rule uncounted_same) (use c in auto)
  show "tally P C K (E @ [v]) D (st(t := Some Linked_in)) cl sn n"
    unfolding tally_def same un
  proof (intro conjI allI impI)
    show "stage_ok P C K u ((st(t := Some Linked_in)) u) (cl u)" for u using c ok d(1) [of u] by auto
    show "of_producer q (E @ [v]) =
        (if q < P then map (encode q) [0..<linked K ((st(t := Some Linked_in)) q) (cl q)] else [])" for q
      using d(2) [of q] p ok c by (auto simp: of_producer_def)
  qed (use d in \<open>auto simp: c\<close>)
qed

text \<open>A consumer unlinks an element: it is the next one of its producer.\<close>

lemma next_of_producer:
  assumes t: "tally P C K E D st cl sn n" and sz: "sized P C K" and E: "E = (B @ [v]) @ X"
  shows "producer_of v < P" "sequence_of v < K" "v = encode (producer_of v) (sequence_of v)"
    "sequence_of v = length (of_producer (producer_of v) B)" "v \<notin> set B"
proof -
  let ?p = "producer_of v"
  obtain p s where v: "p < P" "s < K" "v = encode p s" "producer_of v = p" "sequence_of v = s"
    using tally_elements(1) [OF t sz, of v] E by auto
  then show p: "?p < P" "sequence_of v < K" "v = encode ?p (sequence_of v)" by simp_all
  have eq: "of_producer ?p E = map (encode ?p) [0..<linked K (st ?p) (cl ?p)]"
    using tallyD(2) [OF t, of ?p] p(1) by simp
  let ?j = "length (of_producer ?p B)"
  have "of_producer ?p E = of_producer ?p B @ v # of_producer ?p X" by (simp add: E of_producer_def)
  then have at: "map (encode ?p) [0..<linked K (st ?p) (cl ?p)] ! ?j = v" "?j < linked K (st ?p) (cl ?p)"
    using eq by (metis nth_append_length, metis length_append length_Cons length_map length_upt
        less_add_same_cancel1 minus_nat.diff_0 zero_less_Suc)
  then have "v = encode ?p ?j" by simp
  moreover have "?j < 256" using at(2) linked_le [OF tallyD(1) [OF t, of ?p]] sz by (simp add: sized_def)
  ultimately show "sequence_of v = ?j"
    using encode_parts(2) [of ?p ?j] p(1) sz by (metis order.strict_trans2 sized_def)
  show "v \<notin> set B" using tally_elements(2) [OF t sz] E by simp
qed

lemma tally_unlink:
  assumes t: "tally P C K E D st cl sn n" and sz: "sized P C K" and E: "E = (D @ [v]) @ X"
    and c: "cl t = In_dequeue lst" "st t = Some Dequeuing"
  shows "tally P C K E (D @ [v]) (st(t := Some (Taken v))) cl sn n"
proof -
  let ?st = "st(t := Some (Taken v))"
  note d = tallyD [OF t] and v = next_of_producer [OF t sz E]
  have ok: "P \<le> t" "t < P + C" using d(1) [of t] c by auto
  have tk: "taken (?st u) = (if u = t then Some v else taken (st u))" for u by simp
  have out: "taken (st u) \<noteq> Some v" for u using d(5) v(5) by blast
  have un: "uncounted (P + C) ?st cl = insert t (uncounted (P + C) st cl)"
    by (rule uncounted_in) (use ok c in auto)
  have "t \<notin> uncounted (P + C) st cl" using c by (simp add: uncounted_def)
  then have card: "card (uncounted (P + C) ?st cl) = Suc (card (uncounted (P + C) st cl))"
    unfolding un by (simp add: finite_uncounted)
  show ?thesis
    unfolding tally_def card
  proof (intro conjI allI impI)
    show "stage_ok P C K u (?st u) (cl u)" for u using c ok d(1) [of u] by (cases "u = t") auto
    show "of_producer q E = (if q < P then map (encode q) [0..<linked K (?st q) (cl q)] else [])" for q
      using d(2) [of q] ok by auto
    fix u l p assume a: "lasts (cl u) = Some l \<and> p < P"
    have "length (of_producer p D) \<le> length (of_producer p (D @ [v]))" by (simp add: of_producer_def)
    then show "l ! p < int (length (of_producer p (D @ [v])))" using d(3) [of u l p] a by linarith
    fix w assume w: "taken (?st u) = Some w \<and> producer_of w = p"
    show "l ! p < int (sequence_of w)"
    proof (cases "u = t")
      case True
      then have "w = v" using w by simp
      then show ?thesis using d(3) [of u l p] a w v(4) by simp
    next
      case False
      then show ?thesis using d(4) [of u l w] a w by auto
    qed
  next
    show "w \<in> set (D @ [v])" if "taken (?st u) = Some w" for u w
      using that d(5) [of u w] unfolding tk by (auto split: if_splits)
    show "u = w" if "taken (?st u) = Some x \<and> taken (?st w) = Some x" for u w x
      using that d(6) [of u x w] out unfolding tk by (auto split: if_splits)
    show "sn p s = (if encode p s \<in> set (D @ [v]) \<and> (\<forall>t. taken (?st t) \<noteq> Some (encode p s)) then 1 else 0)"
      if "p < P" "s < K" for p s
    proof -
      have "taken (st t) = None" using c by simp
      then have "(\<forall>u. taken (?st u) \<noteq> Some (encode p s)) \<longleftrightarrow>
          v \<noteq> encode p s \<and> (\<forall>u. taken (st u) \<noteq> Some (encode p s))"
        unfolding tk by (metis option.distinct(1) option.inject)
      then show ?thesis using d(7) [OF that] v(5) by auto
    qed
  qed (use d(8-10) in auto)
qed

text \<open>A consumer receives it: the three assertions hold.\<close>

lemma tally_receive:
  assumes t: "tally P C K E D st cl sn n" and sz: "sized P C K" and E: "E = D @ X"
    and c: "cl t = In_dequeue lst" "st t = Some (Taken v)"
  defines "p \<equiv> producer_of v" and "s \<equiv> sequence_of v"
  shows "p < P \<and> s < K" "lst ! p < int s" "sn p s = 0"
    "tally P C K E D (st(t := Some Ready)) (cl(t := Counting (lst[p := int s])))
       (sn(p := (sn p)(s := 1))) n"
proof -
  let ?st = "st(t := Some Ready)" and ?cl = "cl(t := Counting (lst[p := int s]))"
  note d = tallyD [OF t]
  have ok: "P \<le> t" "t < P + C" "length lst = P" using d(1) [of t] c by auto
  have vD: "v \<in> set D" using d(5) [of t v] c by simp
  then obtain D1 D2 where D: "D = (D1 @ [v]) @ D2" by (auto dest: split_list)
  then have "v \<in> set E" using E by simp
  then show ps: "p < P \<and> s < K"
    using tally_elements(1) [OF t sz, of v] by (auto simp: p_def s_def)
  have v: "v = encode p s"
    using tally_elements(1) [OF t sz \<open>v \<in> set E\<close>] by (auto simp: p_def s_def)
  show "lst ! p < int s" using d(4) [of t lst v] c ps by (simp add: p_def s_def)
  have "taken (st t) = Some (encode p s)" using c v by simp
  then show "sn p s = 0" using d(7) [of p s] ps by (auto split: if_splits)
  have sd: "int s < int (length (of_producer p D))"
  proof -
    have "E = (D1 @ [v]) @ D2 @ X" using D E by simp
    from next_of_producer(4) [OF t sz this] have "length (of_producer p D1) = s"
      by (simp add: p_def s_def)
    then show ?thesis using D by (simp add: of_producer_def p_def)
  qed
  have tk: "taken (?st u) = (if u = t then None else taken (st u))" for u by simp
  have un: "uncounted (P + C) ?st ?cl = uncounted (P + C) st cl"
    by (rule uncounted_same) (use c in auto)
  show "tally P C K E D ?st ?cl (sn(p := (sn p)(s := 1))) n"
    unfolding tally_def un
  proof (intro conjI allI impI)
    show "stage_ok P C K u (?st u) (?cl u)" for u using ok d(1) [of u] by auto
    show "of_producer q E = (if q < P then map (encode q) [0..<linked K (?st q) (?cl q)] else [])" for q
      using d(2) [of q] ok by auto
    fix u l q assume a: "lasts (?cl u) = Some l \<and> q < P"
    show "l ! q < int (length (of_producer q D))"
    proof (cases "u = t")
      case True
      then have l: "l = lst[p := int s]" using a by simp
      have "lst ! q < int (length (of_producer q D))" using d(3) [of t lst q] c a by simp
      then show ?thesis using sd ok(3) a unfolding l by (cases "q = p") auto
    next
      case False
      then show ?thesis using d(3) [of u l q] a by simp
    qed
    fix w assume w: "taken (?st u) = Some w \<and> producer_of w = q"
    then show "l ! q < int (sequence_of w)" using a d(4) [of u l w] by (auto split: if_splits)
  next
    show "w \<in> set D" if "taken (?st u) = Some w" for u w
      using that d(5) [of u w] unfolding tk by (auto split: if_splits)
    show "u = w" if "taken (?st u) = Some x \<and> taken (?st w) = Some x" for u w x
      using that d(6) [of u x w] unfolding tk by (auto split: if_splits)
    show "(sn(p := (sn p)(s := 1))) q r =
        (if encode q r \<in> set D \<and> (\<forall>t. taken (?st t) \<noteq> Some (encode q r)) then 1 else 0)"
      if "q < P" "r < K" for q r
    proof (cases "encode q r = v")
      case True
      have "producer_of (encode q r) = q" "sequence_of (encode q r) = r"
        by (rule encode_parts; use that sz in \<open>simp add: sized_def\<close>)+
      then have "q = p" "r = s" using True by (simp_all add: p_def s_def)
      moreover have "taken (?st u) \<noteq> Some v" for u using d(6) [of u v t] c unfolding tk by auto
      ultimately show ?thesis using vD True by auto
    next
      case False
      then have "(q, r) \<noteq> (p, s)" using v by auto
      then have "(sn(p := (sn p)(s := 1))) q r = sn q r" by auto
      moreover have "(\<forall>u. taken (?st u) \<noteq> Some (encode q r)) \<longleftrightarrow> (\<forall>u. taken (st u) \<noteq> Some (encode q r))"
      proof -
        have "taken (st t) = Some v" using c by simp
        then show ?thesis using False unfolding tk by (metis option.distinct(1) option.inject)
      qed
      ultimately show ?thesis using d(7) [OF that] by simp
    qed
    show "?cl u = Exited" if "?cl (P + C) \<noteq> Waiting" "u < P + C" for u
      using d(10) [of t] that ok c by auto
  qed (use d(8,9) in \<open>auto split: if_splits\<close>)
qed

text \<open>It counts the element.\<close>

lemma tally_count:
  assumes t: "tally P C K E D st cl sn n" and c: "cl t = Counting lst"
  shows "tally P C K E D st (cl(t := Polling lst)) sn (Suc n)" and "n < length D"
proof -
  let ?cl = "cl(t := Polling lst)"
  note d = tallyD [OF t]
  have ok: "P \<le> t" "t < P + C" "length lst = P" "st t = Some Ready" using d(1) [of t] c by auto
  have un: "uncounted (P + C) st cl = insert t (uncounted (P + C) st ?cl)"
    by (rule uncounted_in) (use ok c in auto)
  have "t \<notin> uncounted (P + C) st ?cl" using ok by (simp add: uncounted_def)
  then have card: "card (uncounted (P + C) st cl) = Suc (card (uncounted (P + C) st ?cl))"
    unfolding un by (simp add: finite_uncounted)
  then show "n < length D" using d(8) by simp
  show "tally P C K E D st ?cl sn (Suc n)"
    unfolding tally_def
  proof (intro conjI allI impI)
    show "stage_ok P C K u (st u) (?cl u)" for u using ok d(1) [of u] by auto
    show "of_producer q E = (if q < P then map (encode q) [0..<linked K (st q) (?cl q)] else [])" for q
      using d(2) [of q] ok by auto
    fix u l p assume "lasts (?cl u) = Some l \<and> p < P"
    then have l: "lasts (cl u) = Some l" "p < P" using c by (auto split: if_splits)
    then show "l ! p < int (length (of_producer p D))" by (rule d(3))
    fix v assume "taken (st u) = Some v \<and> producer_of v = p"
    then show "l ! p < int (sequence_of v)" using d(4) [OF l(1)] l(2) by blast
  next
    show "Suc n + card (uncounted (P + C) st ?cl) \<le> length D" using d(8) card by simp
    show "P * K \<le> Suc n" if "P \<le> u \<and> u < P + C \<and> ?cl u = Exited" for u
      using d(9) [of u] that by (auto split: if_splits)
    show "?cl u = Exited" if "?cl (P + C) \<noteq> Waiting" "u < P + C" for u
      using d(10) [of t] that ok c by auto
  qed (use d(5-7) in auto)
qed

text \<open>When all threads have returned, everything has been dequeued and seen.\<close>

lemma tally_after:
  assumes t: "tally P C K E D st cl sn n" and sz: "sized P C K" and E: "E = D @ X"
    and ex: "cl (P + C) \<noteq> Waiting"
  shows "X = []" "p < P \<Longrightarrow> s < K \<Longrightarrow> sn p s = 1"
proof -
  note d = tallyD [OF t]
  have out: "cl u = Exited" if "u < P + C" for u using d(10) [OF ex that] .
  then have "P * K \<le> n" using d(9) [of P] sz by (simp add: sized_def)
  then have len: "P * K \<le> length D" using d(8) by simp
  moreover have "length E \<le> P * K" by (rule tally_elements(3) [OF t sz])
  ultimately have "length X = 0" unfolding E length_append by linarith
  then show "X = []" by simp
  then have "D = E" using E by simp
  show "sn p s = 1" if ps: "p < P" "s < K"
  proof -
    have "linked K (st p) (cl p) = K" using out [of p] ps by simp
    then have "encode p s \<in> set (of_producer p E)" using d(2) [of p] ps by simp
    then have "encode p s \<in> set D" using \<open>D = E\<close> by (simp add: of_producer_def)
    moreover have "taken (st u) \<noteq> Some v" for u v
    proof (cases "u < P + C")
      case True
      then show ?thesis using d(1) [of u] out by simp
    next
      case False
      then show ?thesis using d(1) [of u] by (cases "cl u") auto
    qed
    ultimately show ?thesis using d(7) [OF ps] by simp
  qed
qed

section \<open>Steps of the queue, as the trace tells them\<close>

abbreviation queue_start_at :: "nat \<Rightarrow> unsigned leaky_state" where
  "queue_start_at a \<equiv> leaky_start_state 0 a"

lemma own_queue_note: "own_note t (queue_note t p x M)"
  by (cases "(t, p, x, M)" rule: queue_note.cases) (auto simp: own_note_def quiet_note_def)

lemma queue_note_kinds:
  "queue_note t (p, h) x M \<noteq> [Begin u z]" "queue_note t (p, h) x M = [Return u y] \<Longrightarrow> p = Finish y"
  by (cases "(t, (p, h), x, M)" rule: queue_note.cases; auto split: if_splits)+

lemma status_idle:
  assumes "reach (leaky_queue shipped) (leaky_start_state d a) q"
  shows "fst (thr q t) = Idle \<longleftrightarrow> status t (trace q) = Some Ready"
proof -
  have "status t (trace q) = Some (status_of (value_of (mem q)) (fst (thr q t)))"
    by (rule queue_inv_thread(2) [OF leaky.reach_inv [OF assms]])
  moreover have "status_of f p = Ready \<longleftrightarrow> p = Idle" for f and p :: "('a, unit, unit leaky_pc) pc"
  proof -
    have "status_k f k \<noteq> Ready" for k by (cases "(f, k)" rule: status_k.cases) auto
    then show ?thesis by (cases "(f, p)" rule: status_of.cases) auto
  qed
  ultimately show ?thesis by simp
qed

lemma status_defined:
  assumes "reach (leaky_queue shipped) (leaky_start_state d a) q"
  shows "status t (trace q) \<noteq> None"
  using queue_inv_thread(2) [OF leaky.reach_inv [OF assms], of t] by simp

lemma return_status:
  "status_step t (Return t y) st \<noteq> None \<Longrightarrow> status_step t (Return t y) st = Some Ready \<and>
    (y = Enqueued \<and> st = Some Linked_in \<or> y = Dequeued None \<and> st = Some Dequeuing \<or>
     (\<exists>v. y = Dequeued (Some v) \<and> st = Some (Taken v)) \<or> (\<exists>b. y = Emptiness b \<and> st = Some Asking))"
  by (cases "(t, Return t y, st)" rule: status_step.cases) (auto split: if_splits)

lemma step_events:
  assumes r: "reach (leaky_queue shipped) (leaky_start_state d a) q"
    and ex: "exec (leaky_queue shipped) (Step t k b) q = Running q'"
  obtains (silent) "trace q' = trace q" "\<And>y. fst (thr q t) \<noteq> Finish y"
  | (link) a g v where "trace q' = trace q @ [Linked t a g v]" "status t (trace q) = Some (Enqueuing v)"
      "\<And>y. fst (thr q t) \<noteq> Finish y"
  | (unlink) a g v where "trace q' = trace q @ [Unlinked t a g v]" "status t (trace q) = Some Dequeuing"
      "\<And>y. fst (thr q t) \<noteq> Finish y"
  | (answer) y where "trace q' = trace q @ [Return t y]" "fst (thr q t) = Finish y"
      "y = Enqueued \<and> status t (trace q) = Some Linked_in \<or>
       y = Dequeued None \<and> status t (trace q) = Some Dequeuing \<or>
       (\<exists>v. y = Dequeued (Some v) \<and> status t (trace q) = Some (Taken v)) \<or>
       (\<exists>b. y = Emptiness b \<and> status t (trace q) = Some Asking)"
proof -
  have r': "reach (leaky_queue shipped) (leaky_start_state d a) q'" by (rule reach_step [OF r ex])
  obtain p h where p: "thr q t = (p, h)" by (cases "thr q t")
  have fin: "trace q' = trace q @ [Return t y]" if "p = Finish y" for y
    using ex p that by (auto simp: leaky_queue_def ms_queue_def)
  have "\<exists>es. trace q' = trace q @ es \<and> own_note t es \<and> (es = [] \<or> (\<exists>x. es = queue_note t (p, h) x (mem q)))"
  proof (cases "q' = q")
    case True
    then show ?thesis by (intro exI [of _ "[]"]) (simp add: own_note_def quiet_note_def)
  next
    case False
    obtain x where "trace q' = trace q @ queue_note t (p, h) x (mem q)"
      by (rule leaky_step [OF ex False]) (use p in simp)
    then show ?thesis using own_queue_note [of t "(p, h)" x "mem q"] by blast
  qed
  then obtain es where es: "trace q' = trace q @ es" "own_note t es"
    "es = [] \<or> (\<exists>x. es = queue_note t (p, h) x (mem q))" by blast
  have st: "fold (status_step t) es (status t (trace q)) \<noteq> None"
    using status_defined [OF r', of t] es(1) by (simp add: status_append)
  have nb: "es \<noteq> [Begin t x]" for x
    using es(3) queue_note_kinds(1) by (metis list.distinct(1))
  have nf: "p \<noteq> Finish y" if "es = [] \<or> es = [Linked t a g v] \<or> es = [Unlinked t a g v]" for a g v y
    using fin [of y] es(1) that by auto
  from es(2) nb consider "es = []" | y where "es = [Return t y]" | a g v where "es = [Linked t a g v]"
    | a g v where "es = [Unlinked t a g v]"
    by (auto simp: own_note_def quiet_note_def)
  then show thesis
  proof cases
    case 1
    then show thesis using silent es(1) nf p by simp
  next
    case (2 y)
    then have "p = Finish y"
      using es(3) queue_note_kinds(2) by (metis list.distinct(1))
    then show thesis using answer [of y] es(1) 2 p return_status [of t y "status t (trace q)"] st by simp
  next
    case (3 a g v)
    then have "status t (trace q) = Some (Enqueuing v)" using st by (simp split: if_splits)
    then show thesis using link es(1) 3 nf p by simp
  next
    case (4 a g v)
    then have "status t (trace q) = Some Dequeuing" using st by (simp split: if_splits)
    then show thesis using unlink es(1) 4 nf p by simp
  qed
qed

section \<open>The invariant of the suite\<close>

text \<open>\<^verbatim>\<open>consumed\<close> only grows, and every thread may access it.\<close>

definition counter_ok :: "(unit, unsigned) memory \<Rightarrow> bool" where
  "counter_ok M \<longleftrightarrow>
     mem_wf M \<and> live M () \<and> gen M () = 1 \<and> (\<forall>t. 1 \<le> cur M t (At () 1)) \<and>
     (\<forall>m \<in> set (hist M () 1). unat (fst m) \<le> unat (newest M ()))"

definition suite_inv :: "nat \<Rightarrow> nat \<Rightarrow> nat \<Rightarrow> nat \<Rightarrow> suite_state \<Rightarrow> bool" where
  "suite_inv P C K a S \<longleftrightarrow>
     reach (leaky_queue shipped) (queue_start_at a) (queue S) \<and> counter_ok (consumed S) \<and>
     tally P C K (map snd (enqueued (trace (queue S)))) (map snd (dequeued (trace (queue S))))
       (\<lambda>t. status t (trace (queue S))) (clients S) (seen_m S) (unat (newest (consumed S) ()))"

lemma counter_load:
  assumes "counter_ok M"
  shows "mem_step t (Load () mo) c M = Blocked \<or>
    (\<exists>v M'. mem_step t (Load () mo) c M = Done (Val v) M' \<and> counter_ok M' \<and> newest M' = newest M \<and>
      unat v \<le> unat (newest M ()))"
proof -
  have sn: "0 < seen M t ()" using assms by (auto simp: counter_ok_def seen_def place_def Suc_le_eq)
  have ac: "access M t () = None" using assms sn by (simp add: access_None counter_ok_def)
  show ?thesis
  proof (cases "readable M t () (fst c)")
    case True
    let ?M = "read_at t () mo (fst c) M" and ?v = "fst (msgs M () ! (fst c - 1))"
    have st: "mem_step t (Load () mo) c M = Done (Val ?v) ?M"
      using True ac by (simp add: mem_step.simps guarded_def)
    have k: "0 < fst c" "fst c \<le> latest M ()" using True sn by (auto simp: readable_def)
    have n: "newest ?M = newest M" by (rule newest_cong) simp_all
    have "msgs M () ! (fst c - 1) \<in> set (hist M () 1)"
      using k assms by (simp add: latest_def msgs_def counter_ok_def)
    then have v: "unat ?v \<le> unat (newest M ())" using assms by (auto simp: counter_ok_def)
    have "1 \<le> cur ?M u (At () 1)" for u
      using assms by (intro view_le_mono [OF read_at_mono]) (simp add: counter_ok_def)
    then have "counter_ok ?M"
      using assms wf_read_at [of M "fst c" "()" t mo] k n by (auto simp: counter_ok_def)
    then show ?thesis using st n v by blast
  next
    case False
    then show ?thesis using ac by (simp add: mem_step.simps guarded_def)
  qed
qed

lemma counter_rmw:
  assumes "counter_ok M" "unat (newest M ()) < 2 ^ 32 - 1"
  shows "\<exists>v M'. mem_step t (Rmw () (\<lambda>n. n + 1) mo) c M = Done (Val v) M' \<and> counter_ok M' \<and>
      unat (newest M' ()) = Suc (unat (newest M ()))"
proof -
  have sn: "0 < seen M t ()" using assms by (auto simp: counter_ok_def seen_def place_def Suc_le_eq)
  have wf: "mem_wf M" using assms by (simp add: counter_ok_def)
  have ac: "access M t () = None" using assms sn by (simp add: access_None counter_ok_def)
  let ?v = "newest M ()" let ?M = "rmw_at t () (?v + 1) mo M"
  have lp: "0 < latest M ()" by (rule latest_pos [OF wf sn])
  have st: "mem_step t (Rmw () (\<lambda>n. n + 1) mo) c M = Done (Val ?v) ?M"
    using ac newest_nth [OF lp] by (simp add: mem_step.simps guarded_def Let_def)
  have n: "newest ?M () = ?v + 1" by (simp add: newest_rmw)
  have "unat ?v + unat (1 :: unsigned) < 2 ^ LENGTH(32)" using assms(2) by simp
  then have up: "unat (?v + 1) = Suc (unat ?v)" using unat_add_lem [of ?v 1] by simp
  have "1 \<le> cur ?M u (At () 1)" for u
    using assms by (intro view_le_mono [OF rmw_at_mono]) (simp add: counter_ok_def)
  moreover have "hist ?M () 1 = hist M () 1 @ [(?v + 1, swapped t () mo M)]"
    using assms(1) by (simp add: rmw_at_hist msgs_def counter_ok_def)
  ultimately have "counter_ok ?M"
    using assms(1) n up wf_rmw_at [OF wf lp] by (auto simp: counter_ok_def intro: le_SucI)
  then show ?thesis using st n up by auto
qed

section \<open>Every step keeps it\<close>

lemma status_upd:
  assumes "own_note t [e]"
  shows "(\<lambda>u. status u (tr @ [e])) = (\<lambda>u. status u tr)(t := status_step t e (status t tr))"
  using own_note_other [OF assms] by (auto simp: status_append fun_eq_iff)

lemma enqueued_append: "enqueued (tr @ es) = enqueued tr @ enqueued es"
  by (induction tr rule: enqueued.induct) auto

lemma dequeued_append: "dequeued (tr @ es) = dequeued tr @ dequeued es"
  by (induction tr rule: dequeued.induct) auto

lemmas trace_simps = enqueued_append dequeued_append status_upd own_note_def quiet_note_def

lemma suite_invD:
  assumes "suite_inv P C K a S"
  shows "reach (leaky_queue shipped) (queue_start_at a) (queue S)" "counter_ok (consumed S)"
    "tally P C K (map snd (enqueued (trace (queue S)))) (map snd (dequeued (trace (queue S))))
       (\<lambda>t. status t (trace (queue S))) (clients S) (seen_m S) (unat (newest (consumed S) ()))"
    "\<exists>X. map snd (enqueued (trace (queue S))) = map snd (dequeued (trace (queue S))) @ X"
  using assms leaky_fifo.reach_fifo [of 0 a "queue S"] unfolding suite_inv_def by auto

text \<open>A call of the queue from a loop: the thread is not in one, so it starts.\<close>

lemma begin_call:
  assumes r: "reach (leaky_queue shipped) (queue_start_at a) q" and rd: "status t (trace q) = Some Ready"
    and x: "x = Try_dequeue \<or> x = Enqueue v"
  obtains q' where "exec (leaky_queue shipped) (Invoke t x) q = Running q'"
    "reach (leaky_queue shipped) (queue_start_at a) q'" "trace q' = trace q @ [Begin t x]"
proof -
  have "fst (thr q t) = Idle" using status_idle [OF r] rd by simp
  then obtain q' where "exec (leaky_queue shipped) (Invoke t x) q = Running q'" "trace q' = trace q @ [Begin t x]"
    using x by (cases "thr q t") (auto simp: leaky_queue_def ms_queue_def)
  then show thesis using that reach_step [OF r] by blast
qed

lemma go_on:
  assumes r: "reach (leaky_queue shipped) (queue_start_at a) q"
  obtains q' where "exec (leaky_queue shipped) (Step t k b) q = Running q'"
    "reach (leaky_queue shipped) (queue_start_at a) q'"
  using leaky.exec_running [OF leaky.reach_inv [OF r]] reach_step [OF r] by metis

lemma ms_queue_m_shipped: "ms_queue_m bug_none = leaky_queue shipped"
  by (simp add: ms_queue_m_def shipped_orders)

lemmas suite_defs = suite_step_def on_queue_def set_client_def ms_queue_m_shipped Let_def

lemma step_producing:
  assumes inv: "suite_inv P C K a S" and c: "clients S t = Producing s"
  shows "\<exists>S'. suite_step bug_none P C K (t, k, b) S = Running S' \<and> suite_inv P C K a S'"
proof -
  note i = suite_invD [OF inv]
  have ok: "t < P" "s \<le> K" "status t (trace (queue S)) = Some Ready" using tallyD(1) [OF i(3), of t] c by auto
  show ?thesis
  proof (cases "s < K")
    case True
    obtain q' where q': "exec (leaky_queue shipped) (Invoke t (Enqueue (encode t s))) (queue S) = Running q'"
      "reach (leaky_queue shipped) (queue_start_at a) q'"
      "trace q' = trace (queue S) @ [Begin t (Enqueue (encode t s))]"
      by (rule begin_call [OF i(1) ok(3), where x = "Enqueue (encode t s)" and v = "encode t s"]) blast+
    have "tally P C K (map snd (enqueued (trace (queue S)))) (map snd (dequeued (trace (queue S))))
        ((\<lambda>t. status t (trace (queue S)))(t := Some (Enqueuing (encode t s))))
        ((clients S)(t := In_enqueue s)) (seen_m S) (unat (newest (consumed S) ()))"
      by (rule tally_move [OF i(3)]) (use ok c True in auto)
    then show ?thesis using i(2) q' c True ok(3) by (simp add: suite_defs suite_inv_def trace_simps)
  next
    case False
    have "tally P C K (map snd (enqueued (trace (queue S)))) (map snd (dequeued (trace (queue S))))
        ((\<lambda>t. status t (trace (queue S)))(t := Some Ready))
        ((clients S)(t := Exited)) (seen_m S) (unat (newest (consumed S) ()))"
      by (rule tally_move [OF i(3)]) (use ok c False in auto)
    then show ?thesis using i(1,2) c False ok(3) by (simp add: suite_defs suite_inv_def fun_upd_idem)
  qed
qed

lemma step_in_enqueue:
  assumes inv: "suite_inv P C K a S" and sz: "sized P C K" and c: "clients S t = In_enqueue s"
  shows "\<exists>S'. suite_step bug_none P C K (t, k, b) S = Running S' \<and> suite_inv P C K a S'"
proof -
  note i = suite_invD [OF inv]
  let ?q = "queue S"
  obtain q' where q': "exec (leaky_queue shipped) (Step t k b) ?q = Running q'"
    "reach (leaky_queue shipped) (queue_start_at a) q'" by (rule go_on [OF i(1)])
  have ok: "t < P" "s < K"
    "status t (trace ?q) = Some (Enqueuing (encode t s)) \<or> status t (trace ?q) = Some Linked_in"
    using tallyD(1) [OF i(3), of t] c by auto
  note id = status_idle [OF q'(2), of t]
  from i(1) q'(1) show ?thesis
  proof (cases rule: step_events)
    case silent
    then have "fst (thr q' t) \<noteq> Idle" using id ok(3) by auto
    then show ?thesis using silent inv q' c by (simp add: suite_defs suite_inv_def)
  next
    case (link b g v)
    have "fst (thr q' t) \<noteq> Idle" using link id by (simp add: status_append)
    then show ?thesis
      using tally_link(1) [OF i(3) sz c link(2)] link q' c i(2)
      by (simp add: suite_defs suite_inv_def trace_simps)
  next
    case (unlink b g v)
    then show ?thesis using ok(3) by auto
  next
    case (answer y)
    then have y: "y = Enqueued" "status t (trace ?q) = Some Linked_in" using ok(3) by auto
    have id: "fst (thr q' t) = Idle" using answer(1) y id by (simp add: status_append)
    have "tally P C K (map snd (enqueued (trace ?q))) (map snd (dequeued (trace ?q)))
        ((\<lambda>t. status t (trace ?q))(t := Some Ready))
        ((clients S)(t := Producing (Suc s))) (seen_m S) (unat (newest (consumed S) ()))"
      by (rule tally_move [OF i(3)]) (use ok c y in auto)
    then show ?thesis using answer(1) y id q' c i(2) by (simp add: suite_defs suite_inv_def trace_simps)
  qed
qed

lemma step_polling:
  assumes inv: "suite_inv P C K a S" and sz: "sized P C K" and c: "clients S t = Polling lst"
  shows "\<exists>S'. suite_step bug_none P C K (t, k, b) S = Running S' \<and> suite_inv P C K a S'"
proof -
  note i = suite_invD [OF inv]
  let ?q = "queue S"
  have ok: "P \<le> t" "t < P + C" "length lst = P" "status t (trace ?q) = Some Ready"
    using tallyD(1) [OF i(3), of t] c by auto
  from counter_load [OF i(2), of t relaxed "(k, b)"] show ?thesis
  proof (elim disjE exE conjE)
    assume "mem_step t (Load () relaxed) (k, b) (consumed S) = Blocked"
    then show ?thesis using inv c by (simp add: suite_defs)
  next
    fix v M' assume ld: "mem_step t (Load () relaxed) (k, b) (consumed S) = Done (Val v) M'"
      and co: "counter_ok M'" "newest M' = newest (consumed S)" "unat v \<le> unat (newest (consumed S) ())"
    show ?thesis
    proof (cases "v < of_nat (P * K)")
      case True
      obtain q' where q': "exec (leaky_queue shipped) (Invoke t Try_dequeue) ?q = Running q'"
        "reach (leaky_queue shipped) (queue_start_at a) q'"
        "trace q' = trace ?q @ [Begin t Try_dequeue]"
        by (rule begin_call [OF i(1) ok(4), where x = Try_dequeue]) blast+
      have "tally P C K (map snd (enqueued (trace ?q))) (map snd (dequeued (trace ?q)))
          ((\<lambda>t. status t (trace ?q))(t := Some Dequeuing))
          ((clients S)(t := In_dequeue lst)) (seen_m S) (unat (newest (consumed S) ()))"
        by (rule tally_move [OF i(3)]) (use ok c in auto)
      then show ?thesis
        using ld co q' c True ok(4) by (simp add: suite_defs suite_inv_def trace_simps)
    next
      case False
      have "unat (of_nat (P * K) :: unsigned) = P * K"
        using sz by (simp add: unat_of_nat sized_def del: of_nat_mult)
      then have "P * K \<le> unat (newest (consumed S) ())"
        using False co(3) by (simp add: word_less_nat_alt)
      then have "tally P C K (map snd (enqueued (trace ?q))) (map snd (dequeued (trace ?q)))
          ((\<lambda>t. status t (trace ?q))(t := Some Ready))
          ((clients S)(t := Exited)) (seen_m S) (unat (newest (consumed S) ()))"
        by (intro tally_move [OF i(3)]) (use ok c in auto)
      then show ?thesis
        using ld co i(1) c False ok(4) by (simp add: suite_defs suite_inv_def fun_upd_idem)
    qed
  qed
qed

lemma step_in_dequeue:
  assumes inv: "suite_inv P C K a S" and sz: "sized P C K" and c: "clients S t = In_dequeue lst"
  shows "\<exists>S'. suite_step bug_none P C K (t, k, b) S = Running S' \<and> suite_inv P C K a S'"
proof -
  note i = suite_invD [OF inv]
  let ?q = "queue S"
  obtain q' where q': "exec (leaky_queue shipped) (Step t k b) ?q = Running q'"
    "reach (leaky_queue shipped) (queue_start_at a) q'" by (rule go_on [OF i(1)])
  have ok: "P \<le> t" "t < P + C" "length lst = P"
    "status t (trace ?q) = Some Dequeuing \<or> (\<exists>v. status t (trace ?q) = Some (Taken v))"
    using tallyD(1) [OF i(3), of t] c by auto
  have more: "(case fst (thr ?q t) of Finish (Dequeued r) \<Rightarrow> received P K t lst r S' | _ \<Rightarrow> Running S') = Running S'"
    if "\<And>y. fst (thr ?q t) \<noteq> Finish y" for S'
    using that by (auto split: pc.splits)
  from i(1) q'(1) show ?thesis
  proof (cases rule: step_events)
    case silent
    then show ?thesis using inv q' c more by (simp add: suite_defs suite_inv_def)
  next
    case (link b g v)
    then show ?thesis using ok(4) by auto
  next
    case (unlink b g v)
    obtain X where "map snd (enqueued (trace ?q)) = (map snd (dequeued (trace ?q)) @ [v]) @ X"
      using leaky_fifo.reach_fifo [OF q'(2)] unlink(1)
      by (auto simp: enqueued_append dequeued_append)
    from tally_unlink [OF i(3) sz this c unlink(2)] show ?thesis
      using unlink q' c i(2) more by (simp add: suite_defs suite_inv_def trace_simps)
  next
    case (answer y)
    from answer(3) ok(4) consider "y = Dequeued None" "status t (trace ?q) = Some Dequeuing"
      | v where "y = Dequeued (Some v)" "status t (trace ?q) = Some (Taken v)" by auto
    then show ?thesis
    proof cases
      case 1
      have "tally P C K (map snd (enqueued (trace ?q))) (map snd (dequeued (trace ?q)))
          ((\<lambda>t. status t (trace ?q))(t := Some Ready))
          ((clients S)(t := Polling lst)) (seen_m S) (unat (newest (consumed S) ()))"
        by (rule tally_move [OF i(3)]) (use ok c 1 in auto)
      then show ?thesis using answer(1,2) 1 q' c i(2) by (simp add: suite_defs suite_inv_def trace_simps)
    next
      case (2 v)
      obtain X where X: "map snd (enqueued (trace ?q)) = map snd (dequeued (trace ?q)) @ X" using i(4) by blast
      note r = tally_receive [OF i(3) sz X c 2(2)]
      show ?thesis
        using r answer(1,2) 2 q' c i(2) by (simp add: suite_defs suite_inv_def trace_simps assertion_def)
    qed
  qed
qed

lemma step_counting:
  assumes inv: "suite_inv P C K a S" and sz: "sized P C K" and c: "clients S t = Counting lst"
  shows "\<exists>S'. suite_step bug_none P C K (t, k, b) S = Running S' \<and> suite_inv P C K a S'"
proof -
  note i = suite_invD [OF inv]
  obtain X where X: "map snd (enqueued (trace (queue S))) = map snd (dequeued (trace (queue S))) @ X"
    using i(4) by blast
  have "length (dequeued (trace (queue S))) \<le> P * K"
    using tally_elements(3) [OF i(3) sz] arg_cong [OF X, of length] by simp
  then have "unat (newest (consumed S) ()) < 2 ^ 32 - 1"
    using tally_count(2) [OF i(3) c] sz by (simp add: sized_def)
  from counter_rmw [OF i(2) this, of t relaxed "(k, b)"] show ?thesis
    using tally_count(1) [OF i(3) c] i(1) c by (auto simp: suite_defs suite_inv_def)
qed

lemma step_waiting:
  assumes inv: "suite_inv P C K a S" and c: "clients S t = Waiting"
  shows "\<exists>S'. suite_step bug_none P C K (t, k, b) S = Running S' \<and> suite_inv P C K a S'"
proof -
  note i = suite_invD [OF inv]
  let ?q = "queue S" let ?q1 = "?q\<lparr>mem := join t [0..<P + C] (mem ?q)\<rparr>"
  have ok: "t = P + C" "status t (trace ?q) = Some Ready" using tallyD(1) [OF i(3), of t] c by auto
  show ?thesis
  proof (cases "list_all (\<lambda>u. clients S u = Exited) [0..<P + C]")
    case True
    have "fst (thr ?q t) = Idle" using status_idle [OF i(1)] ok(2) by simp
    then have "run (leaky_queue shipped) (map (\<lambda>u. Sync u t) [0..<P + C]) ?q = Running ?q1"
      by (intro run_join) (simp add: leaky_queue_def ms_queue_def)
    then have r: "reach (leaky_queue shipped) (queue_start_at a) ?q1" by (rule run_reach [OF i(1)])
    have rd: "status t (trace ?q1) = Some Ready" using ok(2) by simp
    obtain q' where q': "exec (leaky_queue shipped) (Invoke t Try_dequeue) ?q1 = Running q'"
      "reach (leaky_queue shipped) (queue_start_at a) q'" "trace q' = trace ?q1 @ [Begin t Try_dequeue]"
      by (rule begin_call [OF r rd, where x = Try_dequeue]) blast+
    have "tally P C K (map snd (enqueued (trace ?q))) (map snd (dequeued (trace ?q)))
        ((\<lambda>t. status t (trace ?q))(t := Some Dequeuing))
        ((clients S)(t := In_after)) (seen_m S) (unat (newest (consumed S) ()))"
      by (rule tally_move [OF i(3)]) (use ok c True in \<open>auto simp: list_all_iff\<close>)
    then show ?thesis using i(2) q' c True ok(2) by (simp add: suite_defs suite_inv_def trace_simps)
  qed (use inv c in \<open>simp add: suite_defs\<close>)
qed

lemma step_in_after:
  assumes inv: "suite_inv P C K a S" and sz: "sized P C K" and c: "clients S t = In_after"
  shows "\<exists>S'. suite_step bug_none P C K (t, k, b) S = Running S' \<and> suite_inv P C K a S'"
proof -
  note i = suite_invD [OF inv]
  let ?q = "queue S"
  obtain q' where q': "exec (leaky_queue shipped) (Step t k b) ?q = Running q'"
    "reach (leaky_queue shipped) (queue_start_at a) q'" by (rule go_on [OF i(1)])
  have ok: "t = P + C" "status t (trace ?q) = Some Dequeuing" using tallyD(1) [OF i(3), of t] c by auto
  then have w: "clients S (P + C) \<noteq> Waiting" using c by simp
  have more: "(case fst (thr ?q t) of Finish (Dequeued r) \<Rightarrow> checked P K t r S' | _ \<Rightarrow> Running S') = Running S'"
    if "\<And>y. fst (thr ?q t) \<noteq> Finish y" for S'
    using that by (auto split: pc.splits)
  from i(1) q'(1) show ?thesis
  proof (cases rule: step_events)
    case silent
    then show ?thesis using inv q' c more by (simp add: suite_defs suite_inv_def)
  next
    case (link b g v)
    then show ?thesis using ok(2) by auto
  next
    case (unlink b g v)
    obtain X where "map snd (enqueued (trace ?q)) = map snd (dequeued (trace ?q)) @ v # X"
      using leaky_fifo.reach_fifo [OF q'(2)] unlink(1)
      by (auto simp: enqueued_append dequeued_append)
    from tally_after(1) [OF i(3) sz this w] show ?thesis by simp
  next
    case (answer y)
    then have y: "y = Dequeued None" using ok(2) by auto
    obtain X where X: "map snd (enqueued (trace ?q)) = map snd (dequeued (trace ?q)) @ X" using i(4) by blast
    have all: "list_all (\<lambda>p. list_all (\<lambda>s. seen_m S p s = 1) [0..<K]) [0..<P]"
      using tally_after(2) [OF i(3) sz X w] by (simp add: list_all_iff)
    have out: "\<forall>u<P + C. clients S u = Exited" using tallyD(10) [OF i(3) w] by blast
    have "tally P C K (map snd (enqueued (trace ?q))) (map snd (dequeued (trace ?q)))
        ((\<lambda>t. status t (trace ?q))(t := Some Ready))
        ((clients S)(t := Exited)) (seen_m S) (unat (newest (consumed S) ()))"
      by (rule tally_move [OF i(3)]) (use ok c out in auto)
    then show ?thesis
      using answer(1,2) y q' c i(2) all ok(2)
      by (simp add: suite_defs suite_inv_def trace_simps checked_def assertion_def)
  qed
qed

lemma suite_step_ok:
  assumes inv: "suite_inv P C K a S" and sz: "sized P C K"
  shows "\<exists>S'. suite_step bug_none P C K x S = Running S' \<and> suite_inv P C K a S'"
proof -
  obtain t k b where x: "x = (t, k, b)" by (cases x)
  show ?thesis
  proof (cases "clients S t")
    case Exited
    then show ?thesis using inv x by (simp add: suite_defs)
  next
    case (Producing s)
    then show ?thesis unfolding x by (rule step_producing [OF inv])
  next
    case (In_enqueue s)
    then show ?thesis unfolding x by (rule step_in_enqueue [OF inv sz])
  next
    case (Polling lst)
    then show ?thesis unfolding x by (rule step_polling [OF inv sz])
  next
    case (In_dequeue lst)
    then show ?thesis unfolding x by (rule step_in_dequeue [OF inv sz])
  next
    case (Counting lst)
    then show ?thesis unfolding x by (rule step_counting [OF inv sz])
  next
    case Waiting
    then show ?thesis unfolding x by (rule step_waiting [OF inv])
  next
    case In_after
    then show ?thesis unfolding x by (rule step_in_after [OF inv sz])
  qed
qed

lemma suite_start_inv: "suite_inv P C K a (suite_start P C a)"
proof -
  let ?S = "suite_start P C a"
  have tr: "trace (queue ?S) = []" by (simp add: suite_start_def leaky_start_state_def queue_start_def)
  have "counter_ok (consumed ?S)"
  proof -
    let ?xs = "[(New (\<lambda>_. [((), 0 :: unsigned)]), 0), (Store () 0 relaxed, 0)]"
    have "\<exists>M. perform 0 ?xs blank = Some M" by (simp add: setup_simps)
    then obtain M where M: "perform 0 ?xs blank = Some M" by blast
    have "mem_wf (consumed ?S)"
      unfolding suite_start_def suite_state.simps M option.sel by (rule wf_share [OF wf_perform [OF M wf_blank]])
    then show ?thesis unfolding counter_ok_def by (auto simp: suite_start_def setup_simps newest_def)
  qed
  moreover have "newest (consumed ?S) () = 0" by (simp add: suite_start_def setup_simps newest_def)
  moreover have "tally P C K [] [] (\<lambda>t. Some Ready) (clients ?S) (seen_m ?S) 0"
  proof -
    have un: "uncounted (P + C) (\<lambda>t. Some Ready) (clients ?S) = {}"
      by (auto simp: uncounted_def suite_start_def)
    show ?thesis
      unfolding tally_def un
      by (auto simp: suite_start_def of_producer_def nth_replicate split: if_splits)
  qed
  moreover have "reach (leaky_queue shipped) (queue_start_at a) (queue ?S)"
    using reach_start by (simp add: suite_start_def)
  ultimately show ?thesis unfolding suite_inv_def tr by (simp add: status_def)
qed

lemma suite_run_ok:
  "suite_inv P C K a S \<Longrightarrow> sized P C K \<Longrightarrow>
    \<exists>S'. suite_run bug_none P C K xs S = Running S' \<and> suite_inv P C K a S'"
proof (induction xs arbitrary: S)
  case (Cons x xs)
  then show ?case using suite_step_ok [OF Cons.prems, of x] by auto
qed simp

text \<open>One producer, one consumer, one element, until the consumer has received and counted it.\<close>

definition passing_run :: "(nat \<times> nat \<times> bool) list" where
  "passing_run =
     map (\<lambda>k. (0, k, True)) [0, 9, 0, 0, 2, 1, 2, 1, 2, 0, 0, 0] @
     map (\<lambda>k. (1, k, True)) [2, 0, 0, 2, 3, 2, 0, 2, 0, 2, 0, 0, 0, 0]"

definition clients_after :: "nat list \<Rightarrow> suite_state verdict \<Rightarrow> client list option" where
  "clients_after ts v = (case v of Running S \<Rightarrow> Some (map (clients S) ts) | Crashed e \<Rightarrow> None)"

lemma passing_run_ends:
  "clients_after [0, 1] (suite_run bug_none 1 1 1 passing_run (suite_start 1 1 7)) =
     Some [Exited, Polling [0]]"
  by code_simp

text \<open>
  C32.  The suite of the checking model never fails with the shipped orders, for any number of
  producers, consumers and elements that its 32-bit encoding can hold and for every schedule: each
  received value is one that was sent, each producer's arrive in order and none twice, and when all
  threads have returned the queue is empty and every value has been seen.
\<close>

theorem suite_never_fails:
  assumes "sized P C K"
  shows "suite_run bug_none P C K xs (suite_start P C a) \<noteq> Crashed e"
  using suite_run_ok [OF suite_start_inv assms, of xs a] by auto

theorem suite_never_fails_witness:
  "\<exists>S. suite_run bug_none 1 1 1 passing_run (suite_start 1 1 7) = Running S \<and> clients S 1 = Polling [0]"
proof -
  have "sized 1 1 1" by (simp add: sized_def)
  then have "suite_run bug_none 1 1 1 passing_run (suite_start 1 1 7) \<noteq> Crashed e" for e
    by (rule suite_never_fails)
  then show ?thesis
    using passing_run_ends
    by (cases "suite_run bug_none 1 1 1 passing_run (suite_start 1 1 7)") (simp_all add: clients_after_def)
qed

end
