(* ===== verification/Hp_Model.thy ===== *)
theory Hp_Model imports Machine Memory_Facts begin

text \<open>
  \<^verbatim>\<open>model/hp_model.hpp\<close>: the skeleton of the hazard-pointer protocol, one thread that
  publishes, fences and re-verifies before it reads a node, and one that unlinks, fences, scans and
  frees.  Freeing is a plain write into the node, so a read of a freed node is a data race.  The
  shipped protocol has no execution with undefined behaviour or a failed assertion; each of the
  two weakened ones has one.
\<close>

section \<open>The protocol\<close>

datatype hp_bug = hp_none | hp_missing_publish_fence | hp_missing_scan_fence

text \<open>The nodes \<^verbatim>\<open>n1\<close> and \<^verbatim>\<open>n2\<close> are 1 and 2.\<close>

datatype hp_loc = Src | Slot | Data nat

datatype hp_cell = Pointer "nat option" | Datum int

fun pointer :: "hp_cell \<Rightarrow> nat option" where
  "pointer (Pointer p) = p"
| "pointer (Datum i) = None"

fun int_of :: "hp_cell \<Rightarrow> int" where
  "int_of (Datum i) = i"
| "int_of (Pointer p) = 0"

datatype hp_pc =
    P_load
  | P_publish "nat option"
  | P_fence "nat option"
  | P_verify "nat option"
  | P_read "nat option"
  | P_clear
  | R_exchange
  | R_fence "nat option"
  | R_slot "nat option"
  | R_free "nat option"
  | Stop
  | Broken

definition hp_deref :: "nat option \<Rightarrow> (nat \<Rightarrow> (hp_loc, hp_cell) action) \<Rightarrow> (hp_loc, hp_cell) action" where
  "hp_deref p f = (case p of None \<Rightarrow> Fail Null_deref | Some n \<Rightarrow> f n)"

fun hp_act :: "hp_bug \<Rightarrow> hp_pc \<Rightarrow> (hp_loc, hp_cell) action" where
  "hp_act bug P_load = Load Src relaxed"
| "hp_act bug (P_publish p) = Store Slot (Pointer p) release"
| "hp_act bug (P_fence p) = (if bug \<noteq> hp_missing_publish_fence then Fence else Skip)"
| "hp_act bug (P_verify p) = Load Src acquire"
| "hp_act bug (P_read p) = hp_deref p (\<lambda>n. Read (Data n))"
| "hp_act bug P_clear = Store Slot (Pointer None) release"
| "hp_act bug R_exchange = Rmw Src (\<lambda>_. Pointer (Some 2)) release"
| "hp_act bug (R_fence old) = (if bug \<noteq> hp_missing_scan_fence then Fence else Skip)"
| "hp_act bug (R_slot old) = Load Slot acquire"
| "hp_act bug (R_free old) = hp_deref old (\<lambda>n. Write (Data n) (Datum 666))"
| "hp_act bug Stop = Skip"
| "hp_act bug Broken = Fail Assertion_failed"

fun result_cell :: "hp_cell result \<Rightarrow> hp_cell" where
  "result_cell (Val c) = c"
| "result_cell (Swapped b c) = c"
| "result_cell (Addr a) = Pointer (Some a)"
| "result_cell Unit = Pointer None"

fun hp_next :: "hp_pc \<Rightarrow> hp_cell result \<Rightarrow> hp_pc" where
  "hp_next P_load x = P_publish (pointer (result_cell x))"
| "hp_next (P_publish p) x = P_fence p"
| "hp_next (P_fence p) x = P_verify p"
| "hp_next (P_verify p) x =
     (if pointer (result_cell x) = p then P_read p else P_publish (pointer (result_cell x)))"
| "hp_next (P_read p) x =
     (if int_of (result_cell x) = 1 \<or> int_of (result_cell x) = 2 then P_clear else Broken)"
| "hp_next P_clear x = Stop"
| "hp_next R_exchange x =
     (if pointer (result_cell x) = Some 1 then R_fence (pointer (result_cell x)) else Broken)"
| "hp_next (R_fence old) x = R_slot old"
| "hp_next (R_slot old) x = (if pointer (result_cell x) \<noteq> old then R_free old else Stop)"
| "hp_next (R_free old) x = Stop"
| "hp_next Stop x = Stop"
| "hp_next Broken x = Broken"

definition hp_protocol :: "hp_bug \<Rightarrow> (hp_loc, hp_cell, hp_pc, unit, unit) program" where
  "hp_protocol bug =
     \<lparr>act = hp_act bug, resume = hp_next, log = (\<lambda>t p x M. []), call = (\<lambda>t x p. None),
      idle = (\<lambda>p. False)\<rparr>"

text \<open>\<^verbatim>\<open>before()\<close> runs on a thread of its own, numbered 2; the two threads start after it.\<close>

definition hp_before :: "((hp_loc, hp_cell) action \<times> nat) list" where
  "hp_before =
     map (\<lambda>x. (x, 0))
       [New (\<lambda>_. [(Src, Pointer None), (Slot, Pointer None), (Data 1, Datum 0), (Data 2, Datum 0)]),
        Write (Data 1) (Datum 1), Write (Data 2) (Datum 2),
        Store Src (Pointer (Some 1)) release, Store Slot (Pointer None) relaxed]"

definition hp_start :: "(hp_loc, hp_cell, hp_pc, unit) state" where
  "hp_start =
     \<lparr>mem = share 2 (the (perform 2 hp_before blank)),
      thr = (\<lambda>t. if t = 0 then P_load else if t = 1 then R_exchange else Stop), trace = []\<rparr>"

section \<open>Executions of the weakened protocols\<close>

text \<open>The protector publishes, the retirer unlinks and fences, scans a slot it sees as still
  empty, and the protector's verification still reads the unlinked source.\<close>

definition hp_missed_run :: "unit command list" where
  "hp_missed_run =
     map (\<lambda>k. Step 0 k True) [2, 0, 0] @ map (\<lambda>k. Step 1 k True) [0, 0, 2, 0] @
     map (\<lambda>k. Step 0 k True) [2, 0]"

lemma hp_missed:
  "crash_of (run (hp_protocol hp_missing_publish_fence) hp_missed_run hp_start) = Some Data_race"
  "crash_of (run (hp_protocol hp_missing_scan_fence) hp_missed_run hp_start) = Some Data_race"
  "crash_of (run (hp_protocol hp_none) hp_missed_run hp_start) = None"
  by code_simp+

end
