(* ===== verification/Hp_Model_Safe.thy ===== *)
theory Hp_Model_Safe imports Hp_Model begin

text \<open>
  The shipped protect/scan protocol is safe.  The invariant says what the two \<^verbatim>\<open>seq_cst\<close>
  fences buy: once the scanner has fenced, a protector that fences later must see the unlink, and
  a hazard that was fenced before must be seen by the scan.
\<close>

section \<open>The invariant\<close>

abbreviation Seen :: "(hp_loc, hp_cell) memory \<Rightarrow> nat \<Rightarrow> hp_loc \<Rightarrow> nat" where
  "Seen M t l \<equiv> cur M t (At l 1)"

definition slots :: "(hp_loc, hp_cell) memory \<Rightarrow> nat" where
  "slots M = length (hist M Slot 1)"

definition slot_at :: "(hp_loc, hp_cell) memory \<Rightarrow> nat \<Rightarrow> hp_cell" where
  "slot_at M k = fst (hist M Slot 1 ! (k - 1))"

definition unread :: "(hp_loc, hp_cell) memory \<Rightarrow> bool" where
  "unread M \<longleftrightarrow> 0 \<notin> fst ` set (accs M (Data 1) 1)"

text \<open>The hazard \<open>p\<close> is the last one stored, and the fence has made it known.\<close>

definition hazard :: "(hp_loc, hp_cell) memory \<Rightarrow> nat option \<Rightarrow> bool" where
  "hazard M p \<longleftrightarrow> slot_at M (slots M) = Pointer p \<and> slots M \<le> scv M (At Slot 1)"

definition a_node :: "nat option \<Rightarrow> bool" where
  "a_node p \<longleftrightarrow> p = Some 1 \<or> p = Some 2"

text \<open>\<open>fenced\<close>: the scanner is past its fence; \<open>gone\<close>: it is about to free node 1, or
  has freed it.\<close>

fun protector_ok :: "(hp_loc, hp_cell) memory \<Rightarrow> bool \<Rightarrow> bool \<Rightarrow> hp_pc \<Rightarrow> bool" where
  "protector_ok M fenced gone P_load \<longleftrightarrow> unread M"
| "protector_ok M fenced gone (P_publish p) \<longleftrightarrow> unread M \<and> a_node p"
| "protector_ok M fenced gone (P_fence p) \<longleftrightarrow>
     unread M \<and> a_node p \<and> slot_at M (slots M) = Pointer p"
| "protector_ok M fenced gone (P_verify p) \<longleftrightarrow>
     unread M \<and> a_node p \<and> hazard M p \<and>
     (p = Some 1 \<and> fenced \<longrightarrow> 3 \<le> Seen M 0 Src \<or> slots M \<le> Seen M 1 Slot) \<and>
     (p = Some 1 \<and> gone \<longrightarrow> 3 \<le> Seen M 0 Src)"
| "protector_ok M fenced gone (P_read p) \<longleftrightarrow>
     unread M \<and> a_node p \<and> hazard M p \<and>
     (p = Some 1 \<longrightarrow> \<not> gone \<and> (fenced \<longrightarrow> slots M \<le> Seen M 1 Slot))"
| "protector_ok M fenced gone P_clear \<longleftrightarrow>
     unread M \<or> (hazard M (Some 1) \<and> \<not> gone \<and> (fenced \<longrightarrow> slots M \<le> Seen M 1 Slot))"
| "protector_ok M fenced gone Stop \<longleftrightarrow>
     unread M \<or>
     (slot_at M (slots M - 1) = Pointer (Some 1) \<and> 3 \<le> slots M \<and> slots M - 1 \<le> scv M (At Slot 1) \<and>
      (fenced \<longrightarrow> slots M - 1 \<le> Seen M 1 Slot) \<and>
      (\<forall>(u, n) \<in> set (accs M (Data 1) 1). u = 0 \<longrightarrow> n \<le> snd (hist M Slot 1 ! (slots M - 1)) (Clock 0)))"
| "protector_ok M fenced gone _ \<longleftrightarrow> False"

fun retirer_ok :: "hp_pc \<Rightarrow> bool" where
  "retirer_ok R_exchange \<longleftrightarrow> True"
| "retirer_ok (R_fence old) \<longleftrightarrow> old = Some 1"
| "retirer_ok (R_slot old) \<longleftrightarrow> old = Some 1"
| "retirer_ok (R_free old) \<longleftrightarrow> old = Some 1"
| "retirer_ok Stop \<longleftrightarrow> True"
| "retirer_ok _ \<longleftrightarrow> False"

fun fenced :: "hp_pc \<Rightarrow> bool" where
  "fenced (R_slot old) = True"
| "fenced (R_free old) = True"
| "fenced Stop = True"
| "fenced _ = False"

definition freed :: "(hp_loc, hp_cell) memory \<Rightarrow> bool" where
  "freed M \<longleftrightarrow> length (hist M (Data 1) 1) \<noteq> 2"

definition gone :: "(hp_loc, hp_cell) memory \<Rightarrow> hp_pc \<Rightarrow> bool" where
  "gone M r \<longleftrightarrow> freed M \<or> (\<exists>old. r = R_free old)"

definition places :: "hp_loc set" where
  "places = {Src, Slot, Data 1, Data 2}"

definition mem_ok :: "(hp_loc, hp_cell) memory \<Rightarrow> bool" where
  "mem_ok M \<longleftrightarrow> mem_wf M \<and> lags M \<and>
     (\<forall>l \<in> places. gen M l = 1 \<and> live M l \<and> (\<forall>t. 2 \<le> Seen M t l) \<and> 2 \<le> length (hist M l 1)) \<and>
     map fst (take 2 (hist M (Data 1) 1)) = [Datum 0, Datum 1] \<and>
     map fst (hist M (Data 2) 1) = [Datum 0, Datum 2] \<and>
     slots M \<le> Seen M 0 Slot \<and>
     (\<forall>(u, n) \<in> set (accs M (Data 1) 1). n \<le> cur M (min 1 u) (Clock u))"

definition source_ok :: "(hp_loc, hp_cell) memory \<Rightarrow> hp_pc \<Rightarrow> bool" where
  "source_ok M r \<longleftrightarrow>
     map fst (hist M Src 1) =
       (if r = R_exchange then [Pointer None, Pointer (Some 1)]
        else [Pointer None, Pointer (Some 1), Pointer (Some 2)]) \<and>
     (r \<noteq> R_exchange \<longrightarrow> 3 \<le> Seen M 1 Src) \<and> (fenced r \<longrightarrow> 3 \<le> scv M (At Src 1))"

definition free_ok :: "(hp_loc, hp_cell) memory \<Rightarrow> hp_pc \<Rightarrow> bool" where
  "free_ok M r \<longleftrightarrow>
     (\<forall>old. r = R_free old \<longrightarrow> \<not> freed M \<and>
        (\<forall>(u, n) \<in> set (accs M (Data 1) 1). n \<le> cur M 1 (Clock u))) \<and>
     (freed M \<longrightarrow> r = Stop)"

definition hp_inv :: "(hp_loc, hp_cell, hp_pc, unit) state \<Rightarrow> bool" where
  "hp_inv s \<longleftrightarrow>
     (let M = mem s; p = thr s 0; r = thr s 1 in
      mem_ok M \<and> source_ok M r \<and> free_ok M r \<and> retirer_ok r \<and> protector_ok M (fenced r) (gone M r) p \<and>
      (\<forall>t. 1 < t \<longrightarrow> thr s t = Stop))"

lemma hp_set_up: "\<exists>M. perform 2 hp_before blank = Some M"
proof -
  have "Option.is_none (perform 2 hp_before blank) = False" by code_simp
  then show ?thesis by (cases "perform 2 hp_before blank") (simp_all del: perform.simps)
qed

lemma hp_start_wf: "mem_wf (mem hp_start)" and hp_start_lags: "lags (mem hp_start)"
proof -
  obtain M where M: "perform 2 hp_before blank = Some M" using hp_set_up by (elim exE)
  show "mem_wf (mem hp_start)"
    using wf_share [OF wf_perform [OF M wf_blank]] M by (simp add: hp_start_def del: perform.simps)
  show "lags (mem hp_start)" using lags_share by (simp add: hp_start_def del: perform.simps)
qed

lemma hp_start_views: "cur (mem hp_start) t = cur (mem hp_start) 2"
  by (simp add: hp_start_def share_def del: perform.simps)

lemma hp_start_gen: "gen (mem hp_start) Src = 1" "gen (mem hp_start) Slot = 1"
  "gen (mem hp_start) (Data 1) = 1" "gen (mem hp_start) (Data 2) = 1"
  by (code_simp, code_simp, code_simp, code_simp)

lemma hp_start_live: "live (mem hp_start) Src" "live (mem hp_start) Slot"
  "live (mem hp_start) (Data 1)" "live (mem hp_start) (Data 2)"
  by (code_simp, code_simp, code_simp, code_simp)

lemma hp_start_seen: "Seen (mem hp_start) 2 Src = 2" "Seen (mem hp_start) 2 Slot = 2"
  "Seen (mem hp_start) 2 (Data 1) = 2" "Seen (mem hp_start) 2 (Data 2) = 2"
  "1 \<le> cur (mem hp_start) 2 (Clock 2)"
  by (code_simp, code_simp, code_simp, code_simp, code_simp)

lemma hp_start_hist:
  "map fst (hist (mem hp_start) (Data 1) 1) = [Datum 0, Datum 1]"
  "map fst (hist (mem hp_start) (Data 2) 1) = [Datum 0, Datum 2]"
  "map fst (hist (mem hp_start) Src 1) = [Pointer None, Pointer (Some 1)]"
  "map fst (hist (mem hp_start) Slot 1) = [Pointer None, Pointer None]"
  "accs (mem hp_start) (Data 1) 1 = [(2, 1)]"
  by (code_simp, code_simp, code_simp, code_simp, code_simp)

lemma hp_start_inv: "hp_inv hp_start"
proof -
  let ?M = "mem hp_start"
  have t: "thr hp_start 0 = P_load" "thr hp_start 1 = R_exchange" "\<And>t. 1 < t \<Longrightarrow> thr hp_start t = Stop"
    by (simp_all add: hp_start_def)
  have len: "length (hist ?M l 1) = 2" if "l \<in> places" for l
    using that hp_start_hist [THEN arg_cong, of length] by (auto simp: places_def)
  have nf: "\<not> freed ?M" using len by (simp add: freed_def places_def)
  have sn: "Seen ?M t l = 2" if "l \<in> places" for l t
  proof -
    have "Seen ?M 2 l = 2" using that hp_start_seen(1-4) by (auto simp: places_def)
    then show ?thesis by (subst hp_start_views)
  qed
  have pl: "gen ?M l = 1 \<and> live ?M l \<and> (\<forall>t. 2 \<le> Seen ?M t l) \<and> 2 \<le> length (hist ?M l 1)" if "l \<in> places" for l
    using that len [OF that] hp_start_gen hp_start_live sn [OF that] by (auto simp: places_def)
  have sl: "slots ?M \<le> Seen ?M 0 Slot"
    using len [of Slot] sn [of Slot 0] by (simp add: slots_def places_def)
  have ac: "\<forall>(u, n) \<in> set (accs ?M (Data 1) 1). u \<noteq> 0 \<and> n \<le> cur ?M 1 (Clock u)"
    using hp_start_hist(5) hp_start_seen(5) fun_cong [OF hp_start_views [of 1], of "Clock 2"] by simp
  have "mem_ok ?M"
    unfolding mem_ok_def using hp_start_wf hp_start_lags pl hp_start_hist(1,2) sl ac
    by (fastforce simp: take_map [symmetric] min_def)
  then show ?thesis
    unfolding hp_inv_def Let_def t source_ok_def free_ok_def
    using hp_start_hist(3) nf t(3) ac by (auto simp: unread_def)
qed

section \<open>Frames\<close>

lemma mem_okD:
  assumes "mem_ok M"
  shows "mem_wf M" "lags M" "\<And>l. l \<in> places \<Longrightarrow> gen M l = 1" "\<And>l. l \<in> places \<Longrightarrow> live M l"
    "\<And>l t. l \<in> places \<Longrightarrow> 2 \<le> Seen M t l" "\<And>l. l \<in> places \<Longrightarrow> 2 \<le> length (hist M l 1)"
    "\<And>l. l \<in> places \<Longrightarrow> place M l = At l 1" "\<And>l. l \<in> places \<Longrightarrow> msgs M l = hist M l 1"
    "\<And>l. l \<in> places \<Longrightarrow> latest M l = length (hist M l 1)"
    "\<And>l t. l \<in> places \<Longrightarrow> seen M t l = Seen M t l"
    "slots M \<le> Seen M 0 Slot"
  using assms by (simp_all add: mem_ok_def place_def msgs_def latest_def seen_def)

lemma in_places [simp]: "Src \<in> places" "Slot \<in> places" "Data 1 \<in> places" "Data (Suc 0) \<in> places" "Data 2 \<in> places"
  by (simp_all add: places_def)

lemma mem_ok_grow:
  assumes ok: "mem_ok M" and wf: "mem_wf M'" "lags M'" and gl: "gen M' = gen M" "live M' = live M"
    and cur: "\<And>t. cur M t \<le> cur M' t"
    and len: "\<And>l. length (hist M l 1) \<le> length (hist M' l 1)"
    and data: "\<And>n. map fst (take 2 (hist M' (Data n) 1)) = map fst (take 2 (hist M (Data n) 1))"
      "hist M' (Data 2) 1 = hist M (Data 2) 1"
    and sl: "slots M' \<le> Seen M' 0 Slot"
    and ac: "\<And>u n. (u, n) \<in> set (accs M' (Data 1) 1) \<Longrightarrow>
       n \<le> cur M' (min 1 u) (Clock u) \<or> (u, n) \<in> set (accs M (Data 1) 1)"
  shows "mem_ok M'"
proof -
  have "gen M' l = 1 \<and> live M' l \<and> (\<forall>t. 2 \<le> Seen M' t l) \<and> 2 \<le> length (hist M' l 1)" if l: "l \<in> places" for l
  proof (intro conjI allI)
    show "gen M' l = 1" "live M' l" using mem_okD(3,4) [OF ok l] gl by simp_all
    show "2 \<le> Seen M' t l" for t using view_le_mono [OF cur mem_okD(5) [OF ok l]] .
    show "2 \<le> length (hist M' l 1)" using mem_okD(6) [OF ok l] len [of l] by (rule order.trans)
  qed
  moreover have "n \<le> cur M' (min 1 u) (Clock u)" if "(u, n) \<in> set (accs M' (Data 1) 1)" for u n
  proof -
    have "(u, n) \<in> set (accs M (Data 1) 1) \<Longrightarrow> n \<le> cur M (min 1 u) (Clock u)"
      using ok unfolding mem_ok_def by blast
    then show ?thesis
      using ac [OF that] view_le_mono [OF cur [of "min 1 u"], of n "Clock u"] by blast
  qed
  moreover have "map fst (take 2 (hist M' (Data 1) 1)) = [Datum 0, Datum 1]"
    using data(1) [of 1] ok by (simp add: mem_ok_def)
  moreover have "map fst (hist M' (Data 2) 1) = [Datum 0, Datum 2]"
    using data(2) ok by (simp add: mem_ok_def)
  ultimately show ?thesis using wf sl unfolding mem_ok_def by blast
qed

lemma unread_iff: "unread M \<longleftrightarrow> (\<forall>n. (0, n) \<notin> set (accs M (Data 1) 1))"
  by (auto simp: unread_def image_iff) (metis gr0I)

lemma protector_keep:
  assumes "hist M' Slot = hist M Slot"
    and ac: "\<And>n. (0, n) \<in> set (accs M' (Data 1) 1) \<longleftrightarrow> (0, n) \<in> set (accs M (Data 1) 1)"
    and "cur M 0 \<le> cur M' 0" "cur M 1 \<le> cur M' 1" "scv M \<le> scv M'"
    and "protector_ok M f g p"
  shows "protector_ok M' f g p"
proof -
  have sl: "slots M' = slots M" "\<And>k. slot_at M' k = slot_at M k"
    using assms(1) by (simp_all add: slots_def slot_at_def)
  have un: "unread M' = unread M" using ac by (simp add: unread_iff)
  have hz: "hazard M q \<Longrightarrow> hazard M' q" for q
    using sl view_le_mono [OF assms(5)] by (auto simp: hazard_def)
  note mono = view_le_mono [OF assms(3)] view_le_mono [OF assms(4)] view_le_mono [OF assms(5)]
  show ?thesis
    using assms(6)
  proof (cases p)
    case (P_verify q)
    then show ?thesis using assms(6) sl un hz mono by auto
  next
    case (P_read q)
    then show ?thesis using assms(6) sl un hz mono by auto
  next
    case P_clear
    then show ?thesis using assms(6) sl un hz mono by auto
  next
    case Stop
    then show ?thesis using assms(6) sl un assms(1) ac mono by auto
  qed (use sl un in simp_all)
qed

lemma source_keep:
  "source_ok M r \<Longrightarrow> hist M' Src = hist M Src \<Longrightarrow> cur M 1 \<le> cur M' 1 \<Longrightarrow> scv M \<le> scv M' \<Longrightarrow> source_ok M' r"
  using view_le_mono [of "cur M 1" "cur M' 1"] view_le_mono [of "scv M" "scv M'"]
  by (auto simp: source_ok_def)

lemma free_keep:
  "free_ok M r \<Longrightarrow> hist M' (Data 1) = hist M (Data 1) \<Longrightarrow> accs M' (Data 1) 1 = accs M (Data 1) 1 \<Longrightarrow>
     cur M 1 \<le> cur M' 1 \<Longrightarrow> free_ok M' r"
  using view_le_mono [of "cur M 1" "cur M' 1"] unfolding free_ok_def freed_def by fastforce

lemma gone_keep: "hist M' (Data 1) = hist M (Data 1) \<Longrightarrow> gone M' r = gone M r"
  by (simp add: gone_def freed_def)

lemma read_at_accs: "x \<noteq> l \<Longrightarrow> accs (read_at t l mo k M) x = accs M x"
  by (simp add: read_at_def Let_def) (simp add: touch_def Let_def)

lemma touch_accs:
  "accs (touch t l M) x g =
     (if x = l \<and> g = gen M l then (t, Suc (cur M t (Clock t))) # accs M x g else accs M x g)"
  by (simp add: touch_def Let_def)

lemma touch_clock: "cur (touch t l M) t (Clock t) = Suc (cur M t (Clock t))"
  by (simp add: touch_def Let_def)

text \<open>What a load of the protocol leaves as it was.\<close>

lemma load_keeps:
  assumes ok: "mem_ok M" and st: "mem_step t (Load l mo) c M = Done r M'" and l: "l = Src \<or> l = Slot"
  shows "mem_ok M'" "hist M' = hist M" "accs M' (Data 1) 1 = accs M (Data 1) 1"
    "\<And>u. cur M u \<le> cur M' u" "scv M' = scv M" "\<And>u. u \<noteq> t \<Longrightarrow> cur M' u = cur M u"
    "2 \<le> fst c" "fst c \<le> length (hist M l 1)" "Seen M t l \<le> fst c"
    "result_cell r = fst (hist M l 1 ! (fst c - 1))" "fst c \<le> Seen M' t l"
    "is_acq mo \<Longrightarrow> snd (hist M l 1 ! (fst c - 1)) \<le> cur M' t"
proof -
  have lp: "l \<in> places" using l by auto
  note m = mem_okD [OF ok]
  have c: "seen M t l \<le> fst c" "fst c \<le> latest M l" and M': "M' = read_at t l mo (fst c) M"
    and r: "r = Val (fst (msgs M l ! (fst c - 1)))"
    using st by (simp_all add: load_Done)
  show ts: "2 \<le> fst c" "fst c \<le> length (hist M l 1)" "Seen M t l \<le> fst c"
    using c m(5) [OF lp, of t] m(9,10) [OF lp] by simp_all
  show "result_cell r = fst (hist M l 1 ! (fst c - 1))" using r m(8) [OF lp] by simp
  show "fst c \<le> Seen M' t l" using read_at_place [of "fst c" t l mo M] m(7) [OF lp] M' by simp
  show "is_acq mo \<Longrightarrow> snd (hist M l 1 ! (fst c - 1)) \<le> cur M' t"
    using read_at_acquires [of mo M l "fst c" t] m(8) [OF lp] M' by simp
  show h: "hist M' = hist M" and sc: "scv M' = scv M" and oth: "\<And>u. u \<noteq> t \<Longrightarrow> cur M' u = cur M u"
    using M' by simp_all
  show ac: "accs M' (Data 1) 1 = accs M (Data 1) 1" using M' l by (auto simp: read_at_accs)
  show mono: "\<And>u. cur M u \<le> cur M' u" unfolding M' by (rule read_at_mono)
  have "mem_wf M'" unfolding M' using m(1) ts(1) c(2) by (intro wf_read_at) auto
  then show "mem_ok M'"
  proof (rule mem_ok_grow [OF ok])
    show "lags M'" unfolding M' by (rule lags_read_at [OF m(2)])
    show "slots M' \<le> Seen M' 0 Slot"
      using m(11) view_le_mono [OF mono [of 0]] h by (simp add: slots_def)
  qed (use M' h ac mono in auto)
qed

text \<open>The protector is the only one to store to the slot, so it stores at its end.\<close>

lemma store_keeps:
  assumes ok: "mem_ok M" and st: "mem_step 0 (Store Slot v release) c M = Done r M'"
  shows "mem_ok M'" "\<And>x. x \<noteq> Slot \<Longrightarrow> hist M' x = hist M x" "accs M' (Data 1) 1 = accs M (Data 1) 1"
    "\<And>u. cur M u \<le> cur M' u" "scv M' = scv M" "\<And>u. u \<noteq> 0 \<Longrightarrow> cur M' u = cur M u"
    "slots M' = Suc (slots M)" "slot_at M' (Suc (slots M)) = v"
    "\<And>k. 0 < k \<Longrightarrow> k \<le> slots M \<Longrightarrow> slot_at M' k = slot_at M k"
    "cur M 0 \<le> snd (hist M' Slot 1 ! slots M)"
proof -
  note m = mem_okD [OF ok]
  let ?M1 = "touch 0 Slot M"
  have M': "M' = write_next 0 Slot v release blind ?M1" using st by (simp add: store_Done)
  have h: "hist M' x g = (if x = Slot \<and> g = 1 then hist M Slot 1 @ [(v, written 0 Slot release blind ?M1)] else hist M x g)" for x g
    unfolding M' write_next_hist using m(3) [of Slot] m(8) [of Slot] by simp
  show oth: "hist M' x = hist M x" if "x \<noteq> Slot" for x using that by (auto simp: fun_eq_iff h)
  show sl: "slots M' = Suc (slots M)" by (simp add: slots_def h)
  show "slot_at M' (Suc (slots M)) = v" by (simp add: slot_at_def slots_def h)
  show "0 < k \<Longrightarrow> k \<le> slots M \<Longrightarrow> slot_at M' k = slot_at M k" for k
    by (auto simp: slot_at_def slots_def h nth_append)
  show "scv M' = scv M" by (simp add: M')
  show "\<And>u. u \<noteq> 0 \<Longrightarrow> cur M' u = cur M u" by (simp add: M') (simp add: touch_def Let_def)
  show mono: "\<And>u. cur M u \<le> cur M' u"
    unfolding M' by (auto simp: le_supI1 touch_mono)
  have "cur M 0 \<le> written 0 Slot release blind ?M1"
    by (rule order.trans [OF touch_mono [of M 0 0 Slot]]) (simp add: written_releases)
  then show "cur M 0 \<le> snd (hist M' Slot 1 ! slots M)" by (simp add: slots_def h)
  show ac: "accs M' (Data 1) 1 = accs M (Data 1) 1" by (simp add: M' touch_accs)
  have "mem_wf M'" unfolding M' by (intro wf_write_next wf_touch m(1) bounded_blind)
  then show "mem_ok M'"
  proof (rule mem_ok_grow [OF ok])
    show "lags M'" unfolding M' by (intro lags_write_next lags_touch m(2))
    have "Suc (slots M) \<le> Seen M' 0 Slot"
      using m(7,9) [of Slot] by (simp add: M' slots_def)
    then show "slots M' \<le> Seen M' 0 Slot" using sl by simp
    show "length (hist M l 1) \<le> length (hist M' l 1)" for l by (simp add: h)
  qed (use M' oth ac mono in auto)
qed

lemma fence_keeps:
  assumes ok: "mem_ok M"
  shows "mem_ok (sc_fence t M)" "\<And>u. cur M u \<le> cur (sc_fence t M) u" "scv M \<le> scv (sc_fence t M)"
    "cur M t \<le> scv (sc_fence t M)" "scv M \<le> cur (sc_fence t M) t"
proof -
  note m = mem_okD [OF ok]
  show mono: "\<And>u. cur M u \<le> cur (sc_fence t M) u" by (rule fence_cur [OF m(2)])
  show "scv M \<le> scv (sc_fence t M)" "scv M \<le> cur (sc_fence t M) t" by (simp_all add: fence_views)
  show "cur M t \<le> scv (sc_fence t M)" using m(2) by (simp add: fence_views lags_def le_supI1)
  show "mem_ok (sc_fence t M)"
  proof (rule mem_ok_grow [OF ok wf_fence [OF m(1)] lags_fence [OF m(2)]])
    show "slots (sc_fence t M) \<le> Seen (sc_fence t M) 0 Slot"
      using m(11) view_le_mono [OF mono [of 0]] by (simp add: slots_def fence_views)
    show "cur M u \<le> cur (sc_fence t M) u" for u by (rule mono)
  qed (auto simp: fence_views)
qed

section \<open>Every step keeps the invariant\<close>

lemma hp_invD:
  assumes "hp_inv s"
  shows "mem_ok (mem s)" "source_ok (mem s) (thr s 1)" "free_ok (mem s) (thr s 1)" "retirer_ok (thr s 1)"
    "protector_ok (mem s) (fenced (thr s 1)) (gone (mem s) (thr s 1)) (thr s 0)"
    "\<And>t. 1 < t \<Longrightarrow> thr s t = Stop"
  using assms by (simp_all add: hp_inv_def Let_def)

definition moved :: "(hp_loc, hp_cell, hp_pc, unit) state \<Rightarrow> nat \<Rightarrow> hp_pc \<Rightarrow> (hp_loc, hp_cell) memory
    \<Rightarrow> (hp_loc, hp_cell, hp_pc, unit) state" where
  "moved s t p M' = \<lparr>mem = M', thr = (thr s)(t := p), trace = trace s @ []\<rparr>"

lemma protector_moved:
  assumes inv: "hp_inv s" and ok: "mem_ok M'"
    and fr: "hist M' Src = hist (mem s) Src" "hist M' (Data 1) = hist (mem s) (Data 1)"
      "cur (mem s) 1 \<le> cur M' 1" "scv (mem s) \<le> scv M'"
    and ac: "\<And>old. thr s 1 = R_free old \<Longrightarrow> accs M' (Data 1) 1 = accs (mem s) (Data 1) 1"
    and p: "protector_ok M' (fenced (thr s 1)) (gone (mem s) (thr s 1)) p"
  shows "hp_inv (moved s 0 p M')"
proof -
  note i = hp_invD [OF inv]
  have "free_ok M' (thr s 1)"
  proof (cases "\<exists>old. thr s 1 = R_free old")
    case True
    then show ?thesis using free_keep [OF i(3) fr(2) _ fr(3)] ac by blast
  next
    case False
    then show ?thesis using i(3) fr(2) by (auto simp: free_ok_def freed_def)
  qed
  then show ?thesis
    using ok source_keep [OF i(2) fr(1,3,4)] i(4,6) p gone_keep [OF fr(2)]
    by (simp add: hp_inv_def Let_def moved_def)
qed

lemma retirer_moved:
  assumes inv: "hp_inv s" and ok: "mem_ok M'"
    and r: "source_ok M' r" "free_ok M' r" "retirer_ok r" "protector_ok M' (fenced r) (gone M' r) (thr s 0)"
  shows "hp_inv (moved s 1 r M')"
  using hp_invD(6) [OF inv] ok r by (simp add: hp_inv_def Let_def moved_def)

lemma slot_last: "slot_at M (slots M) = fst (hist M Slot 1 ! (slots M - 1))"
  by (simp add: slot_at_def)

lemma source_value:
  assumes "source_ok M r" "2 \<le> k" "k \<le> length (hist M Src 1)"
  shows "a_node (pointer (fst (hist M Src 1 ! (k - 1))))"
    "pointer (fst (hist M Src 1 ! (k - 1))) = Some 1 \<Longrightarrow> k = 2"
proof -
  have "map fst (hist M Src 1) ! (k - 1) = fst (hist M Src 1 ! (k - 1))"
    using assms(2,3) by (intro nth_map) simp
  moreover have "k = 2 \<or> k = 3"
    using assms arg_cong [of "map fst (hist M Src 1)" _ length]
    by (auto simp: source_ok_def split: if_splits)
  ultimately show "a_node (pointer (fst (hist M Src 1 ! (k - 1))))"
    "pointer (fst (hist M Src 1 ! (k - 1))) = Some 1 \<Longrightarrow> k = 2"
    using assms(1,3) by (auto simp: source_ok_def a_node_def split: if_splits)
qed

lemma step_P_load:
  assumes inv: "hp_inv s" and at: "thr s 0 = P_load"
    and st: "mem_step 0 (Load Src relaxed) c (mem s) = Done r M'"
  shows "hp_inv (moved s 0 (hp_next P_load r) M')"
proof -
  note i = hp_invD [OF inv] and k = load_keeps [OF hp_invD(1) [OF inv] st disjI1 [OF refl]]
  have "a_node (pointer (result_cell r))" using source_value(1) [OF i(2) k(7,8)] k(10) by simp
  moreover have "unread M'" using i(5) at k(3) by (simp add: unread_def)
  ultimately show ?thesis
    using k by (intro protector_moved [OF inv]) auto
qed

lemma step_P_publish:
  assumes inv: "hp_inv s" and at: "thr s 0 = P_publish p"
    and st: "mem_step 0 (Store Slot (Pointer p) release) c (mem s) = Done r M'"
  shows "hp_inv (moved s 0 (P_fence p) M')"
proof -
  note i = hp_invD [OF inv] and k = store_keeps [OF hp_invD(1) [OF inv] st]
  show ?thesis
    using k i(5) at by (intro protector_moved [OF inv]) (auto simp: unread_def)
qed

lemma step_P_fence:
  assumes inv: "hp_inv s" and at: "thr s 0 = P_fence p"
  shows "hp_inv (moved s 0 (P_verify p) (sc_fence 0 (mem s)))"
proof -
  let ?M = "mem s"
  note i = hp_invD [OF inv] and k = fence_keeps [OF hp_invD(1) [OF inv], of 0]
  have "slots ?M \<le> scv (sc_fence 0 ?M) (At Slot 1)"
    using mem_okD(11) [OF i(1)] view_le_mono [OF k(4)] by blast
  moreover have "fenced (thr s 1) \<Longrightarrow> 3 \<le> Seen (sc_fence 0 ?M) 0 Src"
    using i(2) view_le_mono [OF k(5)] by (auto simp: source_ok_def)
  moreover have "gone ?M (thr s 1) \<Longrightarrow> fenced (thr s 1)"
    using i(3) by (auto simp: gone_def free_ok_def)
  ultimately show ?thesis
    using i(5) at k
    by (intro protector_moved [OF inv])
      (auto simp: fence_views unread_def hazard_def slots_def slot_at_def)
qed

lemma step_P_verify:
  assumes inv: "hp_inv s" and at: "thr s 0 = P_verify p"
    and st: "mem_step 0 (Load Src acquire) c (mem s) = Done r M'"
  shows "hp_inv (moved s 0 (hp_next (P_verify p) r) M')"
proof -
  let ?M = "mem s" let ?q = "pointer (result_cell r)"
  note i = hp_invD [OF inv] and k = load_keeps [OF hp_invD(1) [OF inv] st disjI1 [OF refl]]
  have p: "unread ?M" "a_node p" "hazard ?M p"
    "p = Some 1 \<Longrightarrow> fenced (thr s 1) \<Longrightarrow> 3 \<le> Seen ?M 0 Src \<or> slots ?M \<le> Seen ?M 1 Slot"
    "p = Some 1 \<Longrightarrow> gone ?M (thr s 1) \<Longrightarrow> 3 \<le> Seen ?M 0 Src"
    using i(5) at by auto
  have q: "a_node ?q" using source_value(1) [OF i(2) k(7,8)] k(10) by simp
  have old: "\<not> 3 \<le> Seen ?M 0 Src" if "?q = Some 1"
    using source_value(2) [OF i(2) k(7,8)] k(9,10) that by auto
  have u: "unread M'" using p(1) k(3) by (simp add: unread_def)
  have hz: "hazard M' p" using p(3) k(2,5) by (simp add: hazard_def slot_at_def slots_def)
  have "protector_ok M' (fenced (thr s 1)) (gone ?M (thr s 1)) (hp_next (P_verify p) r)"
  proof (cases "?q = p")
    case True
    have "p = Some 1 \<Longrightarrow> fenced (thr s 1) \<Longrightarrow> slots M' \<le> Seen M' 1 Slot"
      using p(4) old True k(2,6) by (auto simp: slots_def)
    then show ?thesis using True u hz p(2,5) old by auto
  qed (use q u in simp)
  then show ?thesis using k by (intro protector_moved [OF inv]) auto
qed

lemma hist_data:
  assumes "mem_ok M" "n = 1 \<or> n = 2" "n = 1 \<Longrightarrow> \<not> freed M"
  shows "fst (last (hist M (Data n) 1)) = Datum (int n)" "length (hist M (Data n) 1) = 2"
proof -
  have "length (hist M (Data n) 1) = 2 \<and> map fst (hist M (Data n) 1) = [Datum 0, Datum (int n)]"
    using assms arg_cong [of "map fst (hist M (Data 2) 1)" "[Datum 0, Datum 2]" length]
    by (auto simp: mem_ok_def freed_def)
  then show "length (hist M (Data n) 1) = 2" "fst (last (hist M (Data n) 1)) = Datum (int n)"
    using last_map [of "hist M (Data n) 1" fst] by auto
qed

lemma step_P_read:
  assumes inv: "hp_inv s" and at: "thr s 0 = P_read p"
    and st: "mem_step 0 (hp_deref p (\<lambda>n. Read (Data n))) c (mem s) = Done r M'"
  shows "hp_inv (moved s 0 (hp_next (P_read p) r) M')"
proof -
  let ?M = "mem s"
  note i = hp_invD [OF inv] and m = mem_okD [OF hp_invD(1) [OF inv]]
  have p: "unread ?M" "hazard ?M p" "p = Some 1 \<Longrightarrow> \<not> gone ?M (thr s 1)"
    "p = Some 1 \<Longrightarrow> fenced (thr s 1) \<Longrightarrow> slots ?M \<le> Seen ?M 1 Slot"
    using i(5) at by auto
  obtain n where n: "p = Some n" "n = 1 \<or> n = 2" using i(5) at by (auto simp: a_node_def)
  have lp: "Data n \<in> places" using n(2) by auto
  have M': "M' = touch 0 (Data n) ?M" and r: "r = Val (fst (msgs ?M (Data n) ! (latest ?M (Data n) - 1)))"
    using st n(1) by (simp_all add: hp_deref_def read_Done)
  have "length (hist ?M (Data n) 1) = 2" "fst (last (hist ?M (Data n) 1)) = Datum (int n)"
    using hist_data [OF i(1) n(2)] p(3) n(1) by (auto simp: gone_def)
  then have "result_cell r = Datum (int n)"
    using r m(8,9) [OF lp] last_conv_nth [of "hist ?M (Data n) 1"] by (cases "hist ?M (Data n) 1") auto
  then have nx: "hp_next (P_read p) r = P_clear" using n(2) by auto
  have mono: "cur ?M u \<le> cur M' u" for u unfolding M' by (rule touch_mono)
  have ok: "mem_ok M'"
    by (rule mem_ok_grow [OF i(1)])
      (use M' m(1,2,11) mono in \<open>auto simp: wf_touch lags_touch slots_def touch_accs touch_clock split: if_splits\<close>)
  have "protector_ok M' (fenced (thr s 1)) (gone ?M (thr s 1)) P_clear"
  proof (cases "n = 1")
    case True
    have "hazard M' (Some 1)" using p(2) n(1) True M' by (simp add: hazard_def slot_at_def slots_def)
    then show ?thesis using p(3,4) n(1) True view_le_mono [OF mono [of 1]] M' by (auto simp: slots_def)
  next
    case False
    then have "unread M'" using p(1) M' by (simp add: unread_def touch_accs)
    then show ?thesis by simp
  qed
  moreover have "n = 1 \<Longrightarrow> thr s 1 \<noteq> R_free old" for old using p(3) n(1) by (auto simp: gone_def)
  moreover have "n \<noteq> 1 \<Longrightarrow> accs M' (Data 1) 1 = accs ?M (Data 1) 1" by (simp add: M' touch_accs)
  ultimately show ?thesis
    unfolding nx using M' mono by (intro protector_moved [OF inv ok]) auto
qed

lemma step_P_clear:
  assumes inv: "hp_inv s" and at: "thr s 0 = P_clear"
    and st: "mem_step 0 (Store Slot (Pointer None) release) c (mem s) = Done r M'"
  shows "hp_inv (moved s 0 Stop M')"
proof -
  let ?M = "mem s"
  note i = hp_invD [OF inv] and k = store_keeps [OF hp_invD(1) [OF inv] st]
  have "protector_ok M' (fenced (thr s 1)) (gone ?M (thr s 1)) Stop"
  proof (cases "unread ?M")
    case True
    then show ?thesis using k(3) by (simp add: unread_def)
  next
    case False
    then have h: "hazard ?M (Some 1)" "\<not> gone ?M (thr s 1)" "fenced (thr s 1) \<Longrightarrow> slots ?M \<le> Seen ?M 1 Slot"
      using i(5) at by auto
    have two: "2 \<le> slots ?M" using mem_okD(6) [OF i(1), of Slot] by (simp add: slots_def)
    have "n \<le> snd (hist M' Slot 1 ! slots ?M) (Clock 0)" if m: "(0, n) \<in> set (accs ?M (Data 1) 1)" for n
    proof -
      have "n \<le> cur ?M (min 1 0) (Clock 0)" using i(1) m unfolding mem_ok_def by blast
      then have "n \<le> cur ?M 0 (Clock 0)" by simp
      then show ?thesis using view_le_mono [OF k(10)] by blast
    qed
    then show ?thesis
      using h(1,3) two k(5,6,7,3) k(9) [of "slots ?M"] by (auto simp: hazard_def)
  qed
  then show ?thesis using k by (intro protector_moved [OF inv]) auto
qed

lemma step_R_exchange:
  assumes inv: "hp_inv s" and at: "thr s 1 = R_exchange"
    and st: "mem_step 1 (Rmw Src (\<lambda>_. Pointer (Some 2)) release) c (mem s) = Done r M'"
  shows "hp_inv (moved s 1 (hp_next R_exchange r) M')"
proof -
  let ?M = "mem s"
  note i = hp_invD [OF inv] and m = mem_okD [OF hp_invD(1) [OF inv]]
  have M': "M' = rmw_at 1 Src (Pointer (Some 2)) release ?M"
    and r: "r = Val (fst (msgs ?M Src ! (latest ?M Src - 1)))"
    using st by (simp_all add: rmw_Done Let_def)
  have src: "map fst (hist ?M Src 1) = [Pointer None, Pointer (Some 1)]"
    using i(2) at by (simp add: source_ok_def)
  then have len: "length (hist ?M Src 1) = 2" using arg_cong [OF src, of length] unfolding length_map by simp
  have "map fst (hist ?M Src 1) ! 1 = fst (hist ?M Src 1 ! 1)" using len by (intro nth_map) simp
  then have "fst (hist ?M Src 1 ! 1) = Pointer (Some 1)" unfolding src by simp
  then have nx: "hp_next R_exchange r = R_fence (Some 1)"
    using r m(8,9) [of Src] len by simp
  have h: "hist M' x g = (if x = Src \<and> g = 1 then hist ?M Src 1 @ [(Pointer (Some 2), swapped 1 Src release ?M)] else hist ?M x g)" for x g
    unfolding M' rmw_at_hist using m(3,8) [of Src] by simp
  have oth: "hist M' x = hist ?M x" if "x \<noteq> Src" for x using that by (auto simp: fun_eq_iff h)
  have mono: "cur ?M u \<le> cur M' u" for u unfolding M' by (rule rmw_at_mono)
  have ac: "accs M' (Data 1) 1 = accs ?M (Data 1) 1"
    unfolding M' rmw_at_def write_next_frame by (simp add: read_at_accs)
  have "mem_wf M'" unfolding M' using m(1) m(6,9) [of Src] by (intro wf_rmw_at) auto
  then have ok: "mem_ok M'"
  proof (rule mem_ok_grow [OF i(1)])
    show "lags M'" unfolding M' by (rule lags_rmw_at [OF m(2)])
    show "slots M' \<le> Seen M' 0 Slot"
      using m(11) view_le_mono [OF mono [of 0]] oth [of Slot] by (simp add: slots_def)
    show "length (hist ?M l 1) \<le> length (hist M' l 1)" for l by (simp add: h)
  qed (use M' oth ac mono in auto)
  have "3 \<le> Seen M' 1 Src"
    using rmw_at_place [of ?M Src 1 "Pointer (Some 2)" release] m(7,9) [of Src] len M' by simp
  then have so: "source_ok M' (R_fence (Some 1))" using src by (simp add: source_ok_def h)
  have nf: "\<not> freed ?M" "\<not> freed M'" using i(3) at oth [of "Data 1"] by (auto simp: free_ok_def freed_def)
  have "protector_ok M' False False (thr s 0)"
    using i(5) at nf(1) oth [of Slot] ac mono M' by (intro protector_keep [of M' ?M]) (auto simp: gone_def)
  then show ?thesis
    unfolding nx using so nf(2) by (intro retirer_moved [OF inv ok]) (auto simp: free_ok_def gone_def)
qed

lemma step_R_fence:
  assumes inv: "hp_inv s" and at: "thr s 1 = R_fence old"
  shows "hp_inv (moved s 1 (R_slot old) (sc_fence 1 (mem s)))"
proof -
  let ?M = "mem s" let ?M' = "sc_fence 1 ?M"
  note i = hp_invD [OF inv] and k = fence_keeps [OF hp_invD(1) [OF inv], of 1]
  have old: "old = Some 1" using i(4) at by simp
  have nf: "\<not> freed ?M" using i(3) at by (auto simp: free_ok_def)
  then have p: "protector_ok ?M' False False (thr s 0)"
    using i(5) at k by (intro protector_keep [of ?M' ?M]) (auto simp: gone_def fence_views)
  have sc: "n \<le> scv ?M (At Slot 1) \<Longrightarrow> n \<le> Seen ?M' 1 Slot" for n
    using view_le_mono [OF k(5)] .
  have fr: "slots ?M' = slots ?M" "slot_at ?M' = slot_at ?M" "unread ?M' = unread ?M"
    by (auto simp: slots_def slot_at_def unread_def fence_views fun_eq_iff)
  have "protector_ok ?M' True False (thr s 0)"
    using i(5) at nf p sc fr by (cases "thr s 0") (auto simp: gone_def hazard_def)
  moreover have "source_ok ?M' (R_slot old)"
    using i(2) at view_le_mono [OF k(4)] view_le_mono [OF k(2) [of 1]]
    by (auto simp: source_ok_def fence_views)
  ultimately show ?thesis
    using nf old by (intro retirer_moved [OF inv k(1)]) (auto simp: free_ok_def gone_def freed_def fence_views)
qed

lemma step_R_slot:
  assumes inv: "hp_inv s" and at: "thr s 1 = R_slot old"
    and st: "mem_step 1 (Load Slot acquire) c (mem s) = Done r M'"
  shows "hp_inv (moved s 1 (hp_next (R_slot old) r) M')"
proof -
  let ?M = "mem s" let ?q = "pointer (result_cell r)"
  note i = hp_invD [OF inv] and k = load_keeps [OF hp_invD(1) [OF inv] st disjI2 [OF refl]]
  have old: "old = Some 1" using i(4) at by simp
  have nf: "\<not> freed ?M" "\<not> freed M'" using i(3) at k(2) by (auto simp: free_ok_def freed_def)
  have p: "protector_ok M' True False (thr s 0)"
    using i(5) at nf(1) k by (intro protector_keep [of M' ?M]) (auto simp: gone_def)
  have so: "source_ok M' q" if "q = Stop \<or> (\<exists>x. q = R_free x)" for q
    using source_keep [OF i(2) _ k(4)] k(2,5) at that by (auto simp: source_ok_def)
  have read: "result_cell r = slot_at ?M (fst c)" using k(10) by (simp add: slot_at_def)
  have end_: "?q = Some 1" if "slots ?M \<le> Seen ?M 1 Slot" "slot_at ?M (slots ?M) = Pointer (Some 1)"
  proof -
    have "fst c = slots ?M" using that(1) k(8,9) by (simp add: slots_def)
    then show ?thesis using read that(2) by simp
  qed
  show ?thesis
  proof (cases "?q = old")
    case True
    then show ?thesis
      using p so nf(2) by (intro retirer_moved [OF inv k(1)]) (auto simp: free_ok_def gone_def)
  next
    case False
    then have ne: "?q \<noteq> Some 1" using old by simp
    have ac: "n \<le> cur M' 1 (Clock u)" if m: "(u, n) \<in> set (accs M' (Data 1) 1)" for u n
    proof (cases "u = 0")
      case True
      then have "\<not> unread ?M" using m k(3) by (auto simp: unread_iff)
      then have "thr s 0 = Stop" and
        st0: "slot_at ?M (slots ?M - 1) = Pointer (Some 1)" "slots ?M - 1 \<le> Seen ?M 1 Slot"
        "n \<le> snd (hist ?M Slot 1 ! (slots ?M - 1)) (Clock 0)"
        using i(5) at nf(1) ne end_ m True k(3)
        by (cases "thr s 0"; force simp: gone_def hazard_def)+
      have "fst c = slots ?M - 1 \<or> fst c = slots ?M" using st0(2) k(8,9) by (auto simp: slots_def)
      then have "fst c = slots ?M" using st0(1) read ne by auto
      then show ?thesis using k(12) st0(3) True view_le_mono by (metis is_acq.simps(1))
    next
      case False
      have "n \<le> cur M' (min 1 u) (Clock u)" using k(1) m unfolding mem_ok_def by blast
      then show ?thesis using False by simp
    qed
    have "protector_ok M' True True (thr s 0)"
      using p i(5) at nf(1) ne end_ k(2,3,6)
      by (cases "thr s 0") (auto simp: gone_def hazard_def slots_def slot_at_def unread_def)
    then show ?thesis
      using False so nf(2) ac old by (intro retirer_moved [OF inv k(1)]) (auto simp: free_ok_def gone_def)
  qed
qed

lemma quiet_data:
  assumes inv: "hp_inv s" and at: "thr s 1 = R_free old"
  shows "quiet (mem s) 1 (Data 1)" "old = Some 1" "length (hist (mem s) (Data 1) 1) = 2"
proof -
  note i = hp_invD [OF inv] and m = mem_okD [OF hp_invD(1) [OF inv]]
  show len: "length (hist (mem s) (Data 1) 1) = 2" using i(3) at by (simp add: free_ok_def freed_def)
  show "old = Some 1" using i(4) at by simp
  have "list_all (\<lambda>(u, n). n \<le> cur (mem s) 1 (Clock u)) (accs (mem s) (Data 1) 1)"
    using i(3) at by (simp add: free_ok_def list_all_iff)
  then show "quiet (mem s) 1 (Data 1)"
    using len m(3,9,10) [of "Data 1"] m(5) [of "Data 1" 1] by (simp add: quiet_def)
qed

lemma step_R_free:
  assumes inv: "hp_inv s" and at: "thr s 1 = R_free old"
    and st: "mem_step 1 (hp_deref old (\<lambda>n. Write (Data n) (Datum 666))) c (mem s) = Done r M'"
  shows "hp_inv (moved s 1 Stop M')"
proof -
  let ?M = "mem s" let ?M1 = "touch 1 (Data 1) ?M"
  note i = hp_invD [OF inv] and m = mem_okD [OF hp_invD(1) [OF inv]] and q = quiet_data [OF inv at]
  have M': "M' = write_next 1 (Data 1) (Datum 666) relaxed blind ?M1"
    using st q(2) by (simp add: hp_deref_def write_Done)
  have h: "hist M' x g = (if x = Data 1 \<and> g = 1 then hist ?M (Data 1) 1 @ [(Datum 666, written 1 (Data 1) relaxed blind ?M1)] else hist ?M x g)" for x g
    unfolding M' write_next_hist using m(3,8) [of "Data 1"] by simp
  have oth: "hist M' x = hist ?M x" if "x \<noteq> Data 1" for x using that by (auto simp: fun_eq_iff h)
  have mono: "cur ?M u \<le> cur M' u" for u unfolding M' by (auto simp: le_supI1 touch_mono)
  have ac: "accs M' (Data 1) 1 = (1, Suc (cur ?M 1 (Clock 1))) # accs ?M (Data 1) 1"
    using m(3) [of "Data 1"] by (simp add: M' touch_accs)
  have ck: "Suc (cur ?M 1 (Clock 1)) \<le> cur M' 1 (Clock 1)" using touch_clock [of 1 "Data 1" ?M] by (simp add: M')
  have sc: "scv M' = scv ?M" by (simp add: M')
  have fr: "freed M'" using q(3) by (simp add: freed_def h)
  have "mem_wf M'" unfolding M' by (intro wf_write_next wf_touch m(1) bounded_blind)
  then have ok: "mem_ok M'"
  proof (rule mem_ok_grow [OF i(1)])
    show "lags M'" unfolding M' by (intro lags_write_next lags_touch m(2))
    show "slots M' \<le> Seen M' 0 Slot"
      using m(11) view_le_mono [OF mono [of 0]] oth [of Slot] by (simp add: slots_def)
    show "length (hist ?M l 1) \<le> length (hist M' l 1)" for l by (simp add: h)
    show "map fst (take 2 (hist M' (Data n) 1)) = map fst (take 2 (hist ?M (Data n) 1))" for n
      using q(3) by (simp add: h)
  qed (use M' oth ac mono ck in auto)
  have "protector_ok M' True True (thr s 0)"
    using i(5) at oth [of Slot] ac mono sc
    by (intro protector_keep [of M' ?M]) (auto simp: gone_def)
  moreover have "source_ok M' Stop"
    using source_keep [OF i(2) _ mono [of 1]] oth [of Src] at sc by (auto simp: source_ok_def)
  ultimately show ?thesis
    using fr by (intro retirer_moved [OF inv ok]) (auto simp: free_ok_def gone_def)
qed

text \<open>All steps together, and none is undefined.\<close>

lemma hp_step:
  assumes inv: "hp_inv s" and st: "mem_step t (hp_act hp_none (thr s t)) c (mem s) = Done r M'"
  shows "hp_inv (moved s t (hp_next (thr s t) r) M')"
proof -
  note i = hp_invD [OF inv]
  have idle: "hp_inv (moved s t Stop (mem s))" if "thr s t = Stop" for t
  proof -
    have "(thr s)(t := Stop) = thr s" using that by (auto simp: fun_eq_iff)
    then show ?thesis using inv by (cases s) (simp add: moved_def)
  qed
  consider "t = 0" | "t = 1" | "1 < t" by linarith
  then show ?thesis
  proof cases
    case 1
    have "protector_ok (mem s) (fenced (thr s 1)) (gone (mem s) (thr s 1)) (thr s 0)" by (rule i(5))
    then show ?thesis
      using st 1 idle [of 0] step_P_load [OF inv] step_P_publish [OF inv] step_P_fence [OF inv]
        step_P_verify [OF inv] step_P_read [OF inv] step_P_clear [OF inv]
      by (cases "thr s 0") (simp_all del: hp_next.simps(1,4,5))
  next
    case 2
    then show ?thesis
      using st i(4) idle [of 1] step_R_exchange [OF inv] step_R_fence [OF inv] step_R_slot [OF inv]
        step_R_free [OF inv]
      by (cases "thr s 1") (simp_all del: hp_next.simps(7,9))
  next
    case 3
    then show ?thesis using st i(6) idle [of t] by simp
  qed
qed

lemma place_usable: "mem_ok M \<Longrightarrow> l \<in> places \<Longrightarrow> live M l \<and> 0 < seen M t l"
  using mem_okD(4) [of M l] mem_okD(5) [of M l t] mem_okD(10) [of M l t] by simp

lemma hp_defined:
  assumes inv: "hp_inv s"
  shows "mem_step t (hp_act hp_none (thr s t)) c (mem s) \<noteq> Ub e"
proof -
  let ?M = "mem s"
  note i = hp_invD [OF inv] and m = mem_okD [OF hp_invD(1) [OF inv]]
  have acc: "live ?M l \<and> 0 < seen ?M u l" if "l \<in> places" for l u by (rule place_usable [OF i(1) that])
  have st: "mem_step 0 (Store Slot v release) c ?M \<noteq> Ub e" for v
    using acc [of Slot 0] m(9,10) [of Slot] m(11) by (simp add: mem_step.simps(2) guarded_Ub slots_def)
  have ld: "mem_step u (Load l mo) c ?M \<noteq> Ub e" if "l \<in> places" for u l mo
    using acc [OF that, of u] by (simp add: mem_step.simps(1) guarded_Ub)
  have rm: "mem_step 1 (Rmw Src f release) c ?M \<noteq> Ub e" for f
    using acc [of Src 1] by (simp add: mem_step.simps(4) guarded_Ub Let_def)
  have rd: "mem_step 0 (Read (Data n)) c ?M \<noteq> Ub e"
    if "n = 1 \<or> n = 2" "n = 1 \<Longrightarrow> \<not> freed ?M" for n
    using acc [of "Data n" 0] m(5) [of "Data n" 0] m(9,10) [of "Data n"] hist_data(2) [OF i(1) that] that(1)
    by (auto simp: mem_step.simps(6) guarded_Ub)
  have fr: "mem_step 1 (hp_deref old (\<lambda>n. Write (Data n) (Datum 666))) c ?M \<noteq> Ub e" if "thr s 1 = R_free old" for old
    using quiet_data [OF inv that] acc [of "Data 1" 1] by (simp add: hp_deref_def mem_step.simps(7) guarded_Ub)
  consider "t = 0" | "t = 1" | "1 < t" by linarith
  then show ?thesis
  proof cases
    case 1
    show ?thesis
    proof (cases "thr s 0")
      case (P_read p)
      then obtain n where "p = Some n" "n = 1 \<or> n = 2" "n = 1 \<Longrightarrow> \<not> freed ?M"
        using i(5) by (auto simp: a_node_def gone_def)
      then show ?thesis using rd [of n] 1 P_read by (simp add: hp_deref_def)
    qed (use i(5) st ld 1 in auto)
  next
    case 2
    then show ?thesis using i(4) ld rm fr by (cases "thr s 1") auto
  next
    case 3
    then show ?thesis using i(6) by simp
  qed
qed

interpretation hp: safe_system "hp_protocol hp_none" hp_start hp_inv
proof unfold_locales
  show "hp_inv hp_start" by (rule hp_start_inv)
  show "hp_inv s'" if "hp_inv s" "exec (hp_protocol hp_none) c s = Running s'" for s c s'
  proof (cases c)
    case (Step t k b)
    show ?thesis
    proof (cases "mem_step t (hp_act hp_none (thr s t)) (k, b) (mem s)")
      case (Done r M')
      then show ?thesis using that hp_step [OF that(1) Done] Step
        by (simp add: hp_protocol_def moved_def)
    qed (use that Step in \<open>simp_all add: hp_protocol_def\<close>)
  qed (use that in \<open>simp_all add: hp_protocol_def\<close>)
  show "exec (hp_protocol hp_none) c s \<noteq> Crashed e" if "hp_inv s" for s c e
  proof (cases c)
    case (Step t k b)
    then show ?thesis using hp_defined [OF that, of t "(k, b)"]
      by (cases "mem_step t (hp_act hp_none (thr s t)) (k, b) (mem s)") (simp_all add: hp_protocol_def)
  qed (simp_all add: hp_protocol_def)
qed

section \<open>The verdicts\<close>

text \<open>
  C16.  The protect/scan protocol as shipped, checked exhaustively in the repository at this size,
  holds here by proof: no execution of the two threads reads a freed node, dereferences null or
  fails an assertion, however stale its reads.
\<close>

theorem hp_protocol_clean: "run (hp_protocol hp_none) cs hp_start \<noteq> Crashed e"
  by (rule hp.run_not_crashed)

text \<open>
  Both fences are needed: with the publish fence or the scan fence removed there is an
  execution in which the protector's read races with the free, and with both there is none.
\<close>

lemma hp_model_verdicts:
  "(\<forall>cs e. run (hp_protocol bug) cs hp_start \<noteq> Crashed e) \<longleftrightarrow> bug = hp_none"
  using crash_of_Some [OF hp_missed(1)] crash_of_Some [OF hp_missed(2)] hp.run_not_crashed
  by (cases bug) blast+

end
