(* ===== verification/Model_Check.thy ===== *)
theory Model_Check imports Queue_Suite_Safe Hp_Model_Safe begin

text \<open>
  \<^verbatim>\<open>model/model_check.cpp\<close>: the driver that runs nine configurations of the two suites
  through the model checker, compares its verdicts with what the design expects, and exits with
  0 only if all agree.  The checker itself (\<^verbatim>\<open>rl::simulate\<close>) is a parameter: given a
  suite, a scheduler and an iteration count it answers whether it found no violation.
\<close>

datatype scheduler = sched_full | sched_bound | sched_random

datatype model_suite =
    hp_protocol_suite hp_bug
  | queue_suite queue_bug nat nat nat

type_synonym simulator = "model_suite \<Rightarrow> scheduler \<Rightarrow> nat \<Rightarrow> bool"

text \<open>The name of a run, its suite, scheduler, iterations, and whether a clean result is expected.\<close>

record check =
  title :: string
  subject :: model_suite
  search :: scheduler
  iterations :: nat
  expect_clean :: bool

datatype printed =
    Line string
  | Result bool string scheduler bool bool
  | Diverged nat

section \<open>The driver\<close>

text \<open>\<^verbatim>\<open>run<Suite>\<close>: the line it prints and whether the verdict is the expected one.\<close>

definition run_check :: "simulator \<Rightarrow> check \<Rightarrow> printed \<times> bool" where
  "run_check sim c =
     (let clean = sim (subject c) (search c) (iterations c);
          ok = (clean = expect_clean c)
      in (Result ok (title c) (search c) clean (expect_clean c), ok))"

definition positive_checks :: "check list" where
  "positive_checks =
     [\<lparr>title = ''hp protocol'', subject = hp_protocol_suite hp_none, search = sched_full,
       iterations = 100000000, expect_clean = True\<rparr>,
      \<lparr>title = ''queue 1Px2 + 1C'', subject = queue_suite bug_none 1 1 2, search = sched_bound,
       iterations = 10000000, expect_clean = True\<rparr>,
      \<lparr>title = ''queue 1Px1 + 2C (stale-tail shape)'', subject = queue_suite bug_none 1 2 1,
       search = sched_random, iterations = 300000, expect_clean = True\<rparr>,
      \<lparr>title = ''queue 2Px2 + 1C (helping shape)'', subject = queue_suite bug_none 2 1 2,
       search = sched_random, iterations = 300000, expect_clean = True\<rparr>,
      \<lparr>title = ''queue 2Px1 + 2C'', subject = queue_suite bug_none 2 2 1,
       search = sched_random, iterations = 300000, expect_clean = True\<rparr>]"

definition negative_checks :: "check list" where
  "negative_checks =
     [\<lparr>title = ''hp publish fence removed'', subject = hp_protocol_suite hp_missing_publish_fence,
       search = sched_full, iterations = 100000000, expect_clean = False\<rparr>,
      \<lparr>title = ''hp scan fence removed'', subject = hp_protocol_suite hp_missing_scan_fence,
       search = sched_full, iterations = 100000000, expect_clean = False\<rparr>,
      \<lparr>title = ''queue link CAS release->relaxed'', subject = queue_suite bug_relaxed_link_cas 1 1 1,
       search = sched_random, iterations = 100000, expect_clean = False\<rparr>,
      \<lparr>title = ''queue dequeue tail load acquire->relaxed'',
       subject = queue_suite bug_relaxed_tail_load 1 2 1, search = sched_random,
       iterations = 1000000, expect_clean = False\<rparr>]"

text \<open>\<^verbatim>\<open>main\<close>: what it prints, and its exit code.\<close>

definition model_check_main :: "simulator \<Rightarrow> printed list \<times> int" where
  "model_check_main sim =
     (let pos = map (run_check sim) positive_checks;
          neg = map (run_check sim) negative_checks;
          failures = length (filter (\<lambda>r. \<not> snd r) (pos @ neg));
          out = Line ''== positive: shipped orderings, expected clean =='' # map fst pos @
                Line ''== negative: one ordering weakened, expected violation =='' # map fst neg
      in if failures = 0 then (out @ [Line ''model_check: all runs matched expectation''], 0)
         else (out @ [Diverged failures], 1))"

section \<open>What the suites really do\<close>

text \<open>Some execution of the suite fails an assertion or is undefined.\<close>

fun violates :: "model_suite \<Rightarrow> bool" where
  "violates (hp_protocol_suite bug) \<longleftrightarrow> (\<exists>cs e. run (hp_protocol bug) cs hp_start = Crashed e)"
| "violates (queue_suite bug P C K) \<longleftrightarrow> (\<exists>a xs e. suite_run bug P C K xs (suite_start P C a) = Crashed e)"

lemma queue_suite_clean: "sized P C K \<Longrightarrow> \<not> violates (queue_suite bug_none P C K)"
  using suite_run_ok [OF suite_start_inv] by (metis verdict.distinct(1) violates.simps(2))

lemma hp_suite_verdict: "violates (hp_protocol_suite bug) \<longleftrightarrow> bug \<noteq> hp_none"
  using crash_of_Some [OF hp_missed(1)] crash_of_Some [OF hp_missed(2)] hp.run_not_crashed
  by (cases bug) auto

lemma checks_right: "c \<in> set (positive_checks @ negative_checks) \<Longrightarrow> expect_clean c \<longleftrightarrow> \<not> violates (subject c)"
proof -
  have small: "sized 1 1 2" "sized 1 2 1" "sized 2 1 2" "sized 2 2 1" by (simp_all add: sized_def)
  have bad: "violates (queue_suite bug_relaxed_link_cas 1 1 1)" "violates (queue_suite bug_relaxed_tail_load 1 2 1)"
    using crash_of_Some [OF link_suite_crash] crash_of_Some [OF tail_suite_crash] by auto
  assume "c \<in> set (positive_checks @ negative_checks)"
  then show ?thesis
    using small [THEN queue_suite_clean] bad
    by (auto simp: positive_checks_def negative_checks_def hp_suite_verdict simp del: violates.simps)
qed

lemma main_exit:
  "snd (model_check_main sim) = 0 \<longleftrightarrow>
     (\<forall>c \<in> set (positive_checks @ negative_checks).
        sim (subject c) (search c) (iterations c) = expect_clean c)"
  unfolding model_check_main_def Let_def run_check_def
  by (auto simp: filter_empty_conv)

text \<open>
  C33.  Each of the nine expectations the driver states is right about the code: the configurations
  it expects to be clean have no failing execution at all, of any length and in any interleaving,
  and each of the four with a weakened order has one.
\<close>

theorem expectations_right:
  "list_all (\<lambda>c. expect_clean c \<longleftrightarrow> \<not> violates (subject c)) (positive_checks @ negative_checks)"
  using checks_right unfolding list_all_iff by blast

text \<open>
  C34.  The exit code: when the checker reports only violations that exist, the driver exits with 0
  exactly if the checker has found the violation of each of the four weakened configurations.
\<close>

theorem model_check_exit:
  assumes "\<And>s k n. \<not> sim s k n \<Longrightarrow> violates s"
  shows "snd (model_check_main sim) = 0 \<longleftrightarrow>
      list_all (\<lambda>c. \<not> sim (subject c) (search c) (iterations c)) negative_checks"
proof -
  have neg: "\<not> expect_clean c" if "c \<in> set negative_checks" for c
    using that by (auto simp: negative_checks_def)
  have pos: "expect_clean c" if "c \<in> set positive_checks" for c
    using that by (auto simp: positive_checks_def)
  have "sim (subject c) (search c) (iterations c)" if "c \<in> set positive_checks" for c
    using assms checks_right [of c] pos [OF that] that by auto
  then show ?thesis using neg pos unfolding main_exit list_all_iff by auto
qed

theorem model_check_exit_witness:
  "snd (model_check_main (\<lambda>s k n. s \<notin> set (map subject negative_checks))) = 0 \<and>
   snd (model_check_main (\<lambda>s k n. True)) = 1"
proof
  let ?sim = "\<lambda>s (k :: scheduler) (n :: nat). s \<notin> set (map subject negative_checks)"
  have bad: "violates s" if "\<not> ?sim s k n" for s k n
  proof -
    have "s \<in> subject ` set negative_checks" using that unfolding set_map by blast
    then obtain c where c: "c \<in> set negative_checks" "s = subject c" by (elim imageE) blast
    then have "\<not> expect_clean c" by (auto simp: negative_checks_def)
    then show ?thesis using c checks_right [of c] by simp
  qed
  show "snd (model_check_main ?sim) = 0"
    by (rule iffD2 [OF model_check_exit]) (use bad in \<open>auto simp: list_all_iff\<close>)
  show "snd (model_check_main (\<lambda>s k n. True)) = 1"
    by (simp add: model_check_main_def run_check_def positive_checks_def negative_checks_def)
qed

end
