(* ===== verification/Ms_Queue_Progress.thy ===== *)
theory Ms_Queue_Progress imports Ms_Queue_Props Memory_Now begin

text \<open>
  Lock-freedom of the queue: the helping the comments of \<^verbatim>\<open>enqueue\<close> and
  \<^verbatim>\<open>try_dequeue\<close> describe.  A thread can lose a compare-exchange for ever, but only while
  others win theirs: in any stretch of a run in which no element enters or leaves and no call
  returns, no thread takes more than a fixed number of steps, wherever the others are suspended.
  Progress needs reads that are not stale for ever; here the steps of the stretch read the newest
  message and do not fail spuriously.
\<close>

section \<open>Timely steps\<close>





text \<open>What counts as progress of the whole: publications and returns.\<close>

fun progress :: "'a event list \<Rightarrow> nat" where
  "progress [] = 0"
| "progress (Linked t a g v # tr) = Suc (progress tr)"
| "progress (Unlinked t a g v # tr) = Suc (progress tr)"
| "progress (Return t y # tr) = Suc (progress tr)"
| "progress (Begin t x # tr) = progress tr"

lemma progress_append [simp]: "progress (tr @ es) = progress tr + progress es"
  by (induction tr rule: progress.induct) auto





section \<open>The distance of a thread to the next publication\<close>

fun left_k :: "'a cont \<Rightarrow> nat" where
  "left_k (KE_guard n) = 6"
| "left_k (KE_protect n) = 5"
| "left_k KE_leave = 2"
| "left_k KD_guard = 9"
| "left_k KD_protect = 8"
| "left_k (KD_set p q r) = 4"
| "left_k (KD_retire v) = 3"
| "left_k (KD_leave y) = 2"

fun left :: "('a, 'x, 'r) pc \<Rightarrow> nat" where
  "left Idle = 0"
| "left (Start x k) = left_k k"
| "left (Call r k) = left_k k - 1"
| "left (E_new v) = 7"
| "left (E_next n p) = 3"
| "left (E_check n p q) = 2"
| "left (E_help n p q) = 1"
| "left (E_link n p) = 1"
| "left (E_swing n p) = 3"
| "left (D_tail p) = 6"
| "left (D_next p q) = 5"
| "left (D_check p q r) = 3"
| "left (D_help p q r) = 1"
| "left (D_value p q) = 2"
| "left (D_cas p q v) = 1"
| "left M_head = 3"
| "left (M_next p) = 2"
| "left (Finish y) = 1"

definition next_of :: "('x loc, 'a cell) memory \<Rightarrow> nat option \<Rightarrow> nat option" where
  "next_of M p = (case p of None \<Rightarrow> None | Some a \<Rightarrow> ptr (newest M (Next a)))"

text \<open>Whether what a thread remembers of the queue is still so.\<close>

fun current :: "('x loc, 'a cell) memory \<Rightarrow> ('a, 'x, 'r) pc \<Rightarrow> bool" where
  "current M (Start x (KD_set p q r)) \<longleftrightarrow> p = head_of M \<and> q = tail_of M \<and> r = next_of M p"
| "current M (E_next n p) \<longleftrightarrow> p = tail_of M"
| "current M (E_check n p q) \<longleftrightarrow> p = tail_of M \<and> q = next_of M p"
| "current M (E_help n p q) \<longleftrightarrow> p = tail_of M \<and> q = next_of M p"
| "current M (E_link n p) \<longleftrightarrow> p = tail_of M \<and> next_of M p = None"
| "current M (D_tail p) \<longleftrightarrow> p = head_of M"
| "current M (D_next p q) \<longleftrightarrow> p = head_of M \<and> q = tail_of M"
| "current M (D_check p q r) \<longleftrightarrow> p = head_of M \<and> q = tail_of M \<and> r = next_of M p"
| "current M (D_help p q r) \<longleftrightarrow> q = tail_of M \<and> r = next_of M q"
| "current M (D_value p q) \<longleftrightarrow> p = head_of M"
| "current M (D_cas p q v) \<longleftrightarrow> p = head_of M"
| "current M _ \<longleftrightarrow> True"

definition effort :: "('x loc, 'a cell) memory \<Rightarrow> ('a, 'x, 'r) pc \<Rightarrow> nat" where
  "effort M p = left p + (if current M p then 0 else 8)"







section \<open>The heap at rest\<close>















section \<open>Every step of a thread brings it closer\<close>

lemma effort_cases: "current M p \<Longrightarrow> effort M p = left p" "\<not> current M p \<Longrightarrow> effort M p = left p + 8"
  by (simp_all add: effort_def)

lemma effort_le: "effort M p \<le> left p + 8"
  by (simp add: effort_def)










section \<open>Lock-freedom\<close>








end
