(* ===== verification/Mutex_Queue.thy ===== *)
theory Mutex_Queue imports Ms_Queue Memory_Facts Fifo begin

text \<open>
  \<^verbatim>\<open>include/lfq/mutex_queue.hpp\<close>: the control group, a \<^verbatim>\<open>std::queue\<close> under a
  \<^verbatim>\<open>std::mutex\<close>.  The mutex is a location that \<^verbatim>\<open>lock\<close> exchanges with acquire
  order, retrying until it wins, and \<^verbatim>\<open>unlock\<close> stores to with release order; the
  \<^verbatim>\<open>std::queue\<close> is a plain object, so that using it outside the lock is a data race.
\<close>

section \<open>The operations\<close>

datatype mutex_loc = Mutex | Items

datatype 'a mutex_cell = Lock_state bool | Contents "'a list"

fun contents_of :: "'a mutex_cell \<Rightarrow> 'a list" where
  "contents_of (Contents q) = q"
| "contents_of (Lock_state b) = []"

datatype 'a mutex_pc =
    Mx_idle
  | Mx_lock "'a op"
  | Mx_push "'a"
  | Mx_pushing "'a" "'a list"
  | Mx_test
  | Mx_front
  | Mx_pop "'a"
  | Mx_popping "'a" "'a list"
  | Mx_probe
  | Mx_unlock "'a ret"
  | Mx_return "'a ret"

datatype 'a mutex_event =
    Called nat "'a op"
  | Pushed nat 'a
  | Popped nat 'a
  | Answered nat "'a ret"

fun mutex_act :: "'a mutex_pc \<Rightarrow> (mutex_loc, 'a mutex_cell) action" where
  "mutex_act Mx_idle = Skip"
| "mutex_act (Mx_lock x) = Cas False Mutex (Lock_state False) (Lock_state True) acquire relaxed"
| "mutex_act (Mx_push v) = Read Items"
| "mutex_act (Mx_pushing v q) = Write Items (Contents (q @ [v]))"
| "mutex_act Mx_test = Read Items"
| "mutex_act Mx_front = Read Items"
| "mutex_act (Mx_pop v) = Read Items"
| "mutex_act (Mx_popping v q) = Write Items (Contents (tl q))"
| "mutex_act Mx_probe = Read Items"
| "mutex_act (Mx_unlock y) = Store Mutex (Lock_state False) release"
| "mutex_act (Mx_return y) = Skip"

fun locked_for :: "'a op \<Rightarrow> 'a mutex_pc" where
  "locked_for (Enqueue v) = Mx_push v"
| "locked_for Try_dequeue = Mx_test"
| "locked_for Is_empty = Mx_probe"

fun read_items :: "'a mutex_cell result \<Rightarrow> 'a list" where
  "read_items (Val c) = contents_of c"
| "read_items (Swapped b c) = contents_of c"
| "read_items (Addr a) = []"
| "read_items Unit = []"

fun mutex_next :: "'a mutex_pc \<Rightarrow> 'a mutex_cell result \<Rightarrow> 'a mutex_pc" where
  "mutex_next Mx_idle x = Mx_idle"
| "mutex_next (Mx_lock y) x = (if won x then locked_for y else Mx_lock y)"
| "mutex_next (Mx_push v) x = Mx_pushing v (read_items x)"
| "mutex_next (Mx_pushing v q) x = Mx_unlock Enqueued"
| "mutex_next Mx_test x = (if read_items x = [] then Mx_unlock (Dequeued None) else Mx_front)"
| "mutex_next Mx_front x = Mx_pop (hd (read_items x))"
| "mutex_next (Mx_pop v) x = Mx_popping v (read_items x)"
| "mutex_next (Mx_popping v q) x = Mx_unlock (Dequeued (Some v))"
| "mutex_next Mx_probe x = Mx_unlock (Emptiness (read_items x = []))"
| "mutex_next (Mx_unlock y) x = Mx_return y"
| "mutex_next (Mx_return y) x = Mx_idle"

fun mutex_log :: "nat \<Rightarrow> 'a mutex_pc \<Rightarrow> 'a mutex_event list" where
  "mutex_log t (Mx_pushing v q) = [Pushed t v]"
| "mutex_log t (Mx_popping v q) = [Popped t v]"
| "mutex_log t (Mx_return y) = [Answered t y]"
| "mutex_log t p = []"

fun mutex_call :: "nat \<Rightarrow> 'a op \<Rightarrow> 'a mutex_pc \<Rightarrow> ('a mutex_pc \<times> 'a mutex_event list) option" where
  "mutex_call t x Mx_idle = Some (Mx_lock x, [Called t x])"
| "mutex_call t x p = None"

definition mutex_queue
    :: "(mutex_loc, 'a mutex_cell, 'a mutex_pc, 'a op, 'a mutex_event) program" where
  "mutex_queue =
     \<lparr>act = mutex_act, resume = mutex_next, log = (\<lambda>t p x M. mutex_log t p), call = mutex_call,
      idle = (\<lambda>p. p = Mx_idle)\<rparr>"

definition mutex_constructor :: "((mutex_loc, 'a mutex_cell) action \<times> nat) list" where
  "mutex_constructor = [(New (\<lambda>_. [(Mutex, Lock_state False), (Items, Contents [])]), 0)]"

type_synonym 'a mutex_state = "(mutex_loc, 'a mutex_cell, 'a mutex_pc, 'a mutex_event) state"

definition mutex_start :: "'a mutex_state" where
  "mutex_start =
     \<lparr>mem = share 0 (the (perform 0 mutex_constructor blank)), thr = (\<lambda>_. Mx_idle), trace = []\<rparr>"

end
