(* ===== verification/Mutex_Queue_Safe.thy ===== *)
theory Mutex_Queue_Safe imports Mutex_Queue begin

text \<open>
  The mutex queue keeps mutual exclusion, is free of data races, and is a first-in-first-out
  queue whose empty answers are exact.
\<close>

fun pushed_of :: "'a mutex_event list \<Rightarrow> 'a list" where
  "pushed_of [] = []"
| "pushed_of (Pushed t v # tr) = v # pushed_of tr"
| "pushed_of (Popped t v # tr) = pushed_of tr"
| "pushed_of (Called t x # tr) = pushed_of tr"
| "pushed_of (Answered t y # tr) = pushed_of tr"

fun popped_of :: "'a mutex_event list \<Rightarrow> 'a list" where
  "popped_of [] = []"
| "popped_of (Pushed t v # tr) = popped_of tr"
| "popped_of (Popped t v # tr) = v # popped_of tr"
| "popped_of (Called t x # tr) = popped_of tr"
| "popped_of (Answered t y # tr) = popped_of tr"

lemma pushed_append: "pushed_of (tr @ es) = pushed_of tr @ pushed_of es"
  by (induction tr rule: pushed_of.induct) simp_all

lemma popped_append: "popped_of (tr @ es) = popped_of tr @ popped_of es"
  by (induction tr rule: popped_of.induct) simp_all

section \<open>The invariant\<close>

text \<open>The critical section: from winning the lock to releasing it.\<close>

fun inside :: "'a mutex_pc \<Rightarrow> bool" where
  "inside Mx_idle = False"
| "inside (Mx_lock x) = False"
| "inside (Mx_return y) = False"
| "inside _ = True"

definition items_now :: "(mutex_loc, 'a mutex_cell) memory \<Rightarrow> 'a list" where
  "items_now M = contents_of (fst (last (hist M Items 1)))"

text \<open>A view that covers the queue object may use it: it knows every write and every access.\<close>

definition covers :: "(mutex_loc, 'a mutex_cell) memory \<Rightarrow> mutex_loc view \<Rightarrow> bool" where
  "covers M V \<longleftrightarrow>
     length (hist M Items 1) \<le> V (At Items 1) \<and> (\<forall>(u, n) \<in> set (accs M Items 1). n \<le> V (Clock u))"

text \<open>What winning the lock gives: the view of the last unlock, and the construction, which every
  thread that uses the queue knows.\<close>

definition handed :: "(mutex_loc, 'a mutex_cell) memory \<Rightarrow> mutex_loc view" where
  "handed M = sup (snd (last (hist M Mutex 1))) (point (At Items 1) 1)"

fun local_ok :: "'a list \<Rightarrow> 'a mutex_pc \<Rightarrow> bool" where
  "local_ok q (Mx_pushing v p) \<longleftrightarrow> p = q"
| "local_ok q Mx_front \<longleftrightarrow> q \<noteq> []"
| "local_ok q (Mx_pop v) \<longleftrightarrow> q \<noteq> [] \<and> v = hd q"
| "local_ok q (Mx_popping v p) \<longleftrightarrow> q \<noteq> [] \<and> v = hd q \<and> p = q"
| "local_ok q (Mx_unlock (Dequeued None)) \<longleftrightarrow> q = []"
| "local_ok q (Mx_unlock (Emptiness b)) \<longleftrightarrow> b = (q = [])"
| "local_ok q _ \<longleftrightarrow> True"

definition mutex_mem :: "(mutex_loc, 'a mutex_cell) memory \<Rightarrow> bool" where
  "mutex_mem M \<longleftrightarrow> mem_wf M \<and>
     (\<forall>l. gen M l = 1 \<and> live M l \<and> hist M l 1 \<noteq> [] \<and> (\<forall>t. 1 \<le> cur M t (At l 1)))"

definition mutex_inv :: "'a mutex_state \<Rightarrow> bool" where
  "mutex_inv s \<longleftrightarrow>
     (let M = mem s in
      mutex_mem M \<and>
      (\<forall>t u. inside (thr s t) \<and> inside (thr s u) \<longrightarrow> t = u) \<and>
      fst (last (hist M Mutex 1)) = Lock_state (\<exists>t. inside (thr s t)) \<and>
      (\<forall>t. inside (thr s t) \<longrightarrow>
         covers M (cur M t) \<and> length (hist M Mutex 1) \<le> cur M t (At Mutex 1) \<and>
         local_ok (items_now M) (thr s t)) \<and>
      ((\<forall>t. \<not> inside (thr s t)) \<longrightarrow> covers M (handed M)) \<and>
      pushed_of (trace s) = popped_of (trace s) @ items_now M)"

lemma mutex_invD:
  assumes "mutex_inv s"
  shows "mutex_mem (mem s)" "\<And>t u. inside (thr s t) \<Longrightarrow> inside (thr s u) \<Longrightarrow> t = u"
    "fst (last (hist (mem s) Mutex 1)) = Lock_state (\<exists>t. inside (thr s t))"
    "\<And>t. inside (thr s t) \<Longrightarrow> covers (mem s) (cur (mem s) t)"
    "\<And>t. inside (thr s t) \<Longrightarrow> length (hist (mem s) Mutex 1) \<le> cur (mem s) t (At Mutex 1)"
    "\<And>t. inside (thr s t) \<Longrightarrow> local_ok (items_now (mem s)) (thr s t)"
    "(\<And>t. \<not> inside (thr s t)) \<Longrightarrow> covers (mem s) (handed (mem s))"
    "pushed_of (trace s) = popped_of (trace s) @ items_now (mem s)"
  using assms by (auto simp: mutex_inv_def Let_def)

lemma mutex_memD:
  assumes "mutex_mem M"
  shows "mem_wf M" "gen M l = 1" "live M l" "1 \<le> cur M t (At l 1)" "place M l = At l 1"
    "msgs M l = hist M l 1" "latest M l = length (hist M l 1)" "seen M t l = cur M t (At l 1)"
    "0 < latest M l" "msgs M l ! (latest M l - 1) = last (hist M l 1)" "hist M l 1 \<noteq> []"
  using assms by (simp_all add: mutex_mem_def place_def msgs_def latest_def seen_def last_conv_nth)

lemma covers_mono: "covers M V \<Longrightarrow> V \<le> W \<Longrightarrow> covers M W"
  unfolding covers_def using view_le_mono [of V W] by fast

lemma covers_frame:
  "hist M' Items = hist M Items \<Longrightarrow> accs M' Items 1 = accs M Items 1 \<Longrightarrow> covers M' V = covers M V"
  by (simp add: covers_def)

lemma mutex_mem_grow:
  assumes "mutex_mem M" "mem_wf M'" "gen M' = gen M" "live M' = live M"
    and "\<And>t. cur M t \<le> cur M' t" "\<And>l. hist M' l 1 \<noteq> []"
  shows "mutex_mem M'"
  using assms view_le_mono [OF assms(5)] by (simp add: mutex_mem_def)

lemma mutex_read_at_accs: "x \<noteq> l \<Longrightarrow> accs (read_at t l mo k M) x = accs M x"
  by (simp add: read_at_def Let_def) (simp add: touch_def Let_def)

section \<open>Steps\<close>

definition mutex_moved where
  "mutex_moved s t p M' es = \<lparr>mem = M', thr = (thr s)(t := p), trace = trace s @ es\<rparr>"

text \<open>Outside the critical section nothing but views changes.\<close>

lemma outside_step:
  assumes inv: "mutex_inv s" and ok: "mutex_mem M'"
    and fr: "hist M' = hist (mem s)" "accs M' Items 1 = accs (mem s) Items 1"
      "\<And>u. cur (mem s) u \<le> cur M' u"
    and p: "\<not> inside (thr s t)" "\<not> inside p" and es: "pushed_of es = []" "popped_of es = []"
  shows "mutex_inv (mutex_moved s t p M' es)"
proof -
  note i = mutex_invD [OF inv]
  have th: "inside (((thr s)(t := p)) u) = inside (thr s u)" for u using p by simp
  have lo: "local_ok q (((thr s)(t := p)) u) = local_ok q (thr s u)" if "inside (thr s u)" for u q
    using p that by auto
  have "covers M' (cur M' u)" "length (hist M' Mutex 1) \<le> cur M' u (At Mutex 1)" if "inside (thr s u)" for u
    using covers_mono [OF i(4) [OF that] fr(3)] covers_frame [of M' "mem s"] fr(1,2)
      view_le_mono [OF fr(3) i(5) [OF that]] by simp_all
  then show ?thesis
    unfolding mutex_inv_def Let_def mutex_moved_def state.simps th
    using ok i(2,3,7,8) i(6) lo covers_frame [of M' "mem s"] fr(1,2) es
    by (auto simp: items_now_def handed_def pushed_append popped_append)
qed

text \<open>Winning the lock.\<close>

lemma lock_step:
  assumes inv: "mutex_inv s" and at: "thr s t = Mx_lock x"
    and st: "mem_step t (Cas False Mutex (Lock_state False) (Lock_state True) acquire relaxed) c (mem s) = Done r M'"
  shows "mutex_inv (mutex_moved s t (mutex_next (Mx_lock x) r) M' [])"
proof -
  let ?M = "mem s"
  note i = mutex_invD [OF inv] and m = mutex_memD [OF mutex_invD(1) [OF inv]]
  show ?thesis
  proof (cases "won r")
    case False
    then have M': "M' = read_at t Mutex relaxed (fst c) ?M" and c: "0 < fst c" "fst c \<le> latest ?M Mutex"
      using st m(8,4) [of t Mutex] by (auto simp: cas_Done Let_def)
    have "mutex_mem M'"
      unfolding M' by (rule mutex_mem_grow [OF i(1) wf_read_at [OF m(1) c]])
        (simp_all add: read_at_mono m(11) [unfolded One_nat_def])
    then show ?thesis
      using False at M' by (intro outside_step [OF inv]) (simp_all add: read_at_mono mutex_read_at_accs)
  next
    case True
    then have M': "M' = rmw_at t Mutex (Lock_state True) acquire ?M"
      and free: "fst (last (hist ?M Mutex 1)) = Lock_state False"
      using st m(10) by (auto simp: cas_Done Let_def)
    have out: "\<not> inside (thr s u)" for u using free i(3) by auto
    have h: "hist M' y g = (if y = Mutex \<and> g = 1 then hist ?M Mutex 1 @ [(Lock_state True, swapped t Mutex acquire ?M)] else hist ?M y g)" for y g
      unfolding M' rmw_at_hist using m(2) [of Mutex] m(6) [of Mutex] by simp
    have hi: "hist M' Items = hist ?M Items" by (simp add: fun_eq_iff h)
    have ac: "accs M' Items 1 = accs ?M Items 1"
      unfolding M' rmw_at_def write_next_frame by (simp add: mutex_read_at_accs)
    have cu: "snd (last (hist ?M Mutex 1)) \<le> cur M' t"
    proof -
      have "snd (last (hist ?M Mutex 1)) \<le> cur (read_at t Mutex acquire (latest ?M Mutex) ?M) t"
        using read_at_acquires [of acquire ?M Mutex "latest ?M Mutex" t] m(10) [of Mutex] by simp
      then show ?thesis unfolding M' rmw_at_def by (simp add: le_supI1)
    qed
    moreover have "point (At Items 1) 1 \<le> cur M' t"
      using view_le_mono [OF rmw_at_mono m(4)] by (simp add: le_fun_def M')
    ultimately have cv: "covers M' (cur M' t)"
      using covers_mono [OF i(7) [OF out]] covers_frame [OF hi ac] by (simp add: handed_def)
    have len: "length (hist M' Mutex 1) \<le> cur M' t (At Mutex 1)"
      using rmw_at_place [of ?M Mutex t "Lock_state True" acquire] m(5,7) [of Mutex] by (simp add: M' h [unfolded M'])
    have ok: "mutex_mem M'"
      unfolding M' by (rule mutex_mem_grow [OF i(1) wf_rmw_at [OF m(1) m(9)]])
        (use m(11) in \<open>simp_all add: rmw_at_mono h [unfolded M']\<close>)
    have nx: "mutex_next (Mx_lock x) r = locked_for x" using True by simp
    have lf: "inside (locked_for x)" "local_ok q (locked_for x)" for q by (cases x; simp)+
    show ?thesis
      unfolding mutex_inv_def Let_def mutex_moved_def state.simps nx
      using ok out lf cv len i(8) hi by (auto simp: h items_now_def)
  qed
qed

text \<open>Inside, the holder may read the queue object and write it.\<close>

lemma inside_step:
  assumes inv: "mutex_inv s" and at: "inside (thr s t)" and p: "inside p" and ok: "mutex_mem M'"
    and fr: "hist M' Mutex = hist (mem s) Mutex" "cur (mem s) t \<le> cur M' t"
    and cv: "covers M' (cur M' t)" and lo: "local_ok (items_now M') p"
    and es: "pushed_of (trace s @ es) = popped_of (trace s @ es) @ items_now M'"
  shows "mutex_inv (mutex_moved s t p M' es)"
proof -
  note i = mutex_invD [OF inv]
  have only: "\<not> inside (thr s u)" if "u \<noteq> t" for u using i(2) [OF at] that by blast
  have "length (hist M' Mutex 1) \<le> cur M' t (At Mutex 1)"
    using view_le_mono [OF fr(2) i(5) [OF at]] fr(1) by simp
  moreover have "fst (last (hist M' Mutex 1)) = Lock_state True" using i(3) at fr(1) by auto
  ultimately show ?thesis
    unfolding mutex_inv_def Let_def mutex_moved_def state.simps
    using ok only p cv lo es by (auto simp: fun_upd_def split: if_splits)
qed

lemma read_step:
  assumes inv: "mutex_inv s" and at: "inside (thr s t)" and p: "inside p"
    and st: "mem_step t (Read Items) c (mem s) = Done r M'"
    and lo: "read_items r = items_now (mem s) \<Longrightarrow> local_ok (items_now (mem s)) p"
  shows "mutex_inv (mutex_moved s t p M' [])"
proof -
  let ?M = "mem s"
  note i = mutex_invD [OF inv] and m = mutex_memD [OF mutex_invD(1) [OF inv]]
  have M': "M' = touch t Items ?M" and r: "r = Val (fst (last (hist ?M Items 1)))"
    using st m(10) by (auto simp: read_Done)
  have it: "items_now M' = items_now ?M" by (simp add: items_now_def M')
  have ok: "mutex_mem M'"
    unfolding M' by (rule mutex_mem_grow [OF i(1) wf_touch [OF m(1)]]) (simp_all add: touch_mono m(11) [unfolded One_nat_def])
  have "accs M' Items 1 = (t, Suc (cur ?M t (Clock t))) # accs ?M Items 1"
    using m(2) [of Items] by (simp add: M' touch_def Let_def)
  moreover have "Suc (cur ?M t (Clock t)) \<le> cur M' t (Clock t)" by (simp add: M' touch_def Let_def)
  moreover have "covers ?M (cur M' t)" unfolding M' by (rule covers_mono [OF i(4) [OF at] touch_mono])
  ultimately have cv: "covers M' (cur M' t)" by (simp add: covers_def M')
  show ?thesis
    using lo r it i(8) by (intro inside_step [OF inv at p ok _ _ cv]) (auto simp: M' touch_mono items_now_def)
qed

lemma write_step:
  assumes inv: "mutex_inv s" and at: "inside (thr s t)"
    and st: "mem_step t (Write Items (Contents q)) c (mem s) = Done r M'"
    and p: "p = Mx_unlock Enqueued \<or> p = Mx_unlock (Dequeued (Some v))"
    and es: "pushed_of (trace s @ es) = popped_of (trace s @ es) @ q"
  shows "mutex_inv (mutex_moved s t p M' es)"
proof -
  let ?M = "mem s" let ?M1 = "touch t Items ?M"
  note i = mutex_invD [OF inv] and m = mutex_memD [OF mutex_invD(1) [OF inv]]
  have M': "M' = write_next t Items (Contents q) relaxed blind ?M1" using st by (simp add: write_Done)
  have h: "hist M' y g = (if y = Items \<and> g = 1 then hist ?M Items 1 @ [(Contents q, written t Items relaxed blind ?M1)] else hist ?M y g)" for y g
    unfolding M' write_next_hist using m(2) [of Items] m(6) [of Items] by simp
  have it: "items_now M' = q" by (simp add: items_now_def h)
  have mono: "cur ?M u \<le> cur M' u" for u unfolding M' by (auto simp: le_supI1 touch_mono)
  have ok: "mutex_mem M'"
  proof (rule mutex_mem_grow [OF i(1)])
    show "mem_wf M'" unfolding M' by (intro wf_write_next wf_touch m(1) bounded_blind)
    show "hist M' l 1 \<noteq> []" for l using m(11) by (simp add: h)
  qed (use M' mono in auto)
  have "accs M' Items 1 = (t, Suc (cur ?M t (Clock t))) # accs ?M Items 1"
    using m(2) [of Items] by (simp add: M') (simp add: touch_def Let_def)
  moreover have "Suc (cur ?M t (Clock t)) \<le> cur M' t (Clock t)"
    by (simp add: M') (simp add: touch_def Let_def)
  moreover have "Suc (length (hist ?M Items 1)) \<le> cur M' t (At Items 1)"
    using m(5,7) [of Items] by (simp add: M')
  moreover have "covers ?M (cur M' t)" by (rule covers_mono [OF i(4) [OF at] mono])
  ultimately have cv: "covers M' (cur M' t)" by (simp add: covers_def h)
  have pq: "inside p" "local_ok (items_now M') p" using p by auto
  show ?thesis
    using es it by (intro inside_step [OF inv at pq(1) ok _ mono cv pq(2)]) (auto simp: h)
qed

text \<open>Releasing the lock hands what the holder knows to the next one.\<close>

lemma unlock_step:
  assumes inv: "mutex_inv s" and at: "thr s t = Mx_unlock y"
    and st: "mem_step t (Store Mutex (Lock_state False) release) c (mem s) = Done r M'"
  shows "mutex_inv (mutex_moved s t (Mx_return y) M' [])"
proof -
  let ?M = "mem s" let ?M1 = "touch t Mutex ?M" let ?V = "written t Mutex release blind ?M1"
  note i = mutex_invD [OF inv] and m = mutex_memD [OF mutex_invD(1) [OF inv]]
  have ins: "inside (thr s t)" using at by simp
  have out: "\<not> inside (((thr s)(t := Mx_return y)) u)" for u
    using i(2) [OF ins] by auto
  have M': "M' = write_next t Mutex (Lock_state False) release blind ?M1" using st by (simp add: store_Done)
  have h: "hist M' x g = (if x = Mutex \<and> g = 1 then hist ?M Mutex 1 @ [(Lock_state False, ?V)] else hist ?M x g)" for x g
    unfolding M' write_next_hist using m(2) [of Mutex] m(6) [of Mutex] by simp
  have hi: "hist M' Items = hist ?M Items" by (simp add: fun_eq_iff h)
  have ac: "accs M' Items 1 = accs ?M Items 1" by (simp add: M') (simp add: touch_def Let_def)
  have mono: "cur ?M u \<le> cur M' u" for u unfolding M' by (auto simp: le_supI1 touch_mono)
  have ok: "mutex_mem M'"
  proof (rule mutex_mem_grow [OF i(1)])
    show "mem_wf M'" unfolding M' by (intro wf_write_next wf_touch m(1) bounded_blind)
    show "hist M' l 1 \<noteq> []" for l using m(11) by (simp add: h)
  qed (use M' mono in auto)
  have "cur ?M t \<le> ?V"
    by (rule order.trans [OF touch_mono [of ?M t t Mutex]]) (simp add: written_releases)
  then have "covers M' (sup ?V (point (At Items 1) 1))"
    using covers_mono [OF i(4) [OF ins]] covers_frame [OF hi ac] le_supI1 by blast
  then show ?thesis
    unfolding mutex_inv_def Let_def mutex_moved_def state.simps
    using ok out i(8) hi by (auto simp: h items_now_def handed_def)
qed

lemma silent_step:
  assumes inv: "mutex_inv s" and at: "\<not> inside (thr s t)" and p: "\<not> inside p"
    and es: "pushed_of es = []" "popped_of es = []"
  shows "mutex_inv (mutex_moved s t p (mem s) es)"
  using mutex_invD(1) [OF inv] by (intro outside_step [OF inv _ _ _ _ at p es]) simp_all

lemma mutex_step:
  assumes inv: "mutex_inv s" and st: "mem_step t (mutex_act (thr s t)) c (mem s) = Done r M'"
  shows "mutex_inv (mutex_moved s t (mutex_next (thr s t) r) M' (mutex_log t (thr s t)))"
proof -
  note i = mutex_invD [OF inv]
  have push: "pushed_of (trace s @ [Pushed t v]) = popped_of (trace s @ [Pushed t v]) @ items_now (mem s) @ [v]" for v
    using i(8) by (simp add: pushed_append popped_append)
  have pop: "pushed_of (trace s @ [Popped t v]) = popped_of (trace s @ [Popped t v]) @ tl (items_now (mem s))"
    if "items_now (mem s) \<noteq> []" "v = hd (items_now (mem s))" for v
    using i(8) that by (simp add: pushed_append popped_append)
  show ?thesis
  proof (cases "thr s t")
    case Mx_idle
    then show ?thesis using silent_step [OF inv, of t Mx_idle "[]"] st by simp
  next
    case (Mx_lock x)
    then show ?thesis using lock_step [OF inv Mx_lock] st by simp
  next
    case (Mx_push v)
    then show ?thesis using read_step [OF inv, of t "mutex_next (thr s t) r" c r M'] st by simp
  next
    case (Mx_pushing v q)
    then have "q = items_now (mem s)" using i(6) [of t] by simp
    then show ?thesis using write_step [OF inv, of t "q @ [v]" c r M' "Mx_unlock Enqueued"] push [of v] st Mx_pushing by simp
  next
    case Mx_test
    then show ?thesis using read_step [OF inv, of t "mutex_next (thr s t) r" c r M'] st by simp
  next
    case Mx_front
    then show ?thesis using read_step [OF inv, of t "mutex_next (thr s t) r" c r M'] st i(6) [of t] by simp
  next
    case (Mx_pop v)
    then show ?thesis using read_step [OF inv, of t "mutex_next (thr s t) r" c r M'] st i(6) [of t] by simp
  next
    case (Mx_popping v q)
    then have "q = items_now (mem s)" "items_now (mem s) \<noteq> []" "v = hd (items_now (mem s))"
      using i(6) [of t] by simp_all
    then show ?thesis
      using write_step [OF inv, of t "tl q" c r M' "Mx_unlock (Dequeued (Some v))"] pop [of v] st Mx_popping by simp
  next
    case Mx_probe
    then show ?thesis using read_step [OF inv, of t "mutex_next (thr s t) r" c r M'] st by simp
  next
    case (Mx_unlock y)
    then show ?thesis using unlock_step [OF inv Mx_unlock] st by simp
  next
    case (Mx_return y)
    then show ?thesis using silent_step [OF inv, of t Mx_idle "[Answered t y]"] st by simp
  qed
qed

lemma mutex_defined:
  assumes inv: "mutex_inv s"
  shows "mem_step t (mutex_act (thr s t)) c (mem s) \<noteq> Ub e"
proof -
  let ?M = "mem s"
  note i = mutex_invD [OF inv] and m = mutex_memD [OF mutex_invD(1) [OF inv]]
  have acc: "live ?M l" "0 < seen ?M t l" for l using m(3) [of l] m(4) [of t l] m(8) [of t l] by simp_all
  have rd: "mem_step t (Read Items) c ?M \<noteq> Ub e" if "inside (thr s t)"
    using i(4) [OF that] acc [of Items] m(7) [of Items] m(8) [of t Items]
    by (simp add: mem_step.simps(6) guarded_Ub covers_def)
  have wr: "mem_step t (Write Items v) c ?M \<noteq> Ub e" if "inside (thr s t)" for v
    using i(4) [OF that] acc [of Items] m(7) [of Items] m(8) [of t Items] m(2) [of Items]
    by (simp add: mem_step.simps(7) guarded_Ub covers_def quiet_def list_all_iff)
  have un: "mem_step t (Store Mutex v release) c ?M \<noteq> Ub e" if "inside (thr s t)" for v
    using i(5) [OF that] acc [of Mutex] m(7) [of Mutex] m(8) [of t Mutex]
    by (simp add: mem_step.simps(2) guarded_Ub)
  have lk: "mem_step t (Cas False Mutex a b acquire relaxed) c ?M \<noteq> Ub e" for a b
    using acc [of Mutex] by (simp add: mem_step.simps(3) guarded_Ub Let_def)
  show ?thesis using rd wr un lk by (cases "thr s t") simp_all
qed

lemma mutex_set_up: "\<exists>M :: (mutex_loc, 'a mutex_cell) memory. perform 0 mutex_constructor blank = Some M"
  by (simp add: mutex_constructor_def mem_step.simps(8) blank_def)

lemma mutex_start_memory:
  "hist (mem mutex_start) Mutex 1 = [(Lock_state False, blind)]" "hist (mem mutex_start) Items 1 = [(Contents [], blind)]"
  "gen (mem mutex_start) l = 1" "live (mem mutex_start) l" "1 \<le> cur (mem mutex_start) t (At l 1)"
  "accs (mem mutex_start) Items 1 = []"
  by (cases l; simp add: mutex_start_def mutex_constructor_def mem_step.simps(8) blank_def share_def birth_def Let_def)+

lemma mutex_start_inv: "mutex_inv (mutex_start :: 'a mutex_state)"
proof -
  obtain M :: "(mutex_loc, 'a mutex_cell) memory" where M: "perform 0 mutex_constructor blank = Some M"
    using mutex_set_up by (elim exE)
  let ?s = "mutex_start :: 'a mutex_state"
  have "mem_wf (mem ?s)"
    using wf_share [OF wf_perform [OF M wf_blank]] M by (simp add: mutex_start_def del: perform.simps)
  moreover have "hist (mem ?s) l 1 \<noteq> []" for l
    by (cases l) (simp_all add: mutex_start_memory(1,2) [unfolded One_nat_def])
  ultimately have "mutex_mem (mem ?s)"
    by (simp add: mutex_mem_def mutex_start_memory(3-5) [unfolded One_nat_def])
  moreover have "thr ?s t = Mx_idle" "trace ?s = []" for t by (simp_all add: mutex_start_def)
  ultimately show ?thesis
    by (simp add: mutex_inv_def covers_def items_now_def handed_def mutex_start_memory(1,2,6) [unfolded One_nat_def])
qed

lemma mutex_call_inv:
  assumes inv: "mutex_inv s" and c: "mutex_call t x (thr s t) = Some (p, es)"
  shows "mutex_inv (s\<lparr>thr := (thr s)(t := p), trace := trace s @ es\<rparr>)"
proof -
  have at: "thr s t = Mx_idle" "p = Mx_lock x" "es = [Called t x]"
    using c by (cases "(t, x, thr s t)" rule: mutex_call.cases; simp)+
  then show ?thesis
    using silent_step [OF inv, of t "Mx_lock x" "[Called t x]"] by (cases s) (simp add: mutex_moved_def)
qed

lemma mutex_sync_inv:
  assumes inv: "mutex_inv s" and at: "thr s u = Mx_idle"
  shows "mutex_inv (s\<lparr>mem := synchronize t u (mem s)\<rparr>)"
proof -
  let ?M' = "synchronize t u (mem s)"
  note i = mutex_invD [OF inv] and m = mutex_memD [OF mutex_invD(1) [OF inv]]
  have mono: "cur (mem s) v \<le> cur ?M' v" for v by (simp add: synchronize_def le_supI1)
  have "mutex_mem ?M'"
    by (rule mutex_mem_grow [OF i(1) wf_synchronize [OF m(1)]])
      (use mono m(11) [unfolded One_nat_def] in \<open>simp_all add: synchronize_def\<close>)
  then have "mutex_inv (mutex_moved s u Mx_idle ?M' [])"
    using at mono by (intro outside_step [OF inv]) (simp_all add: synchronize_def)
  moreover have "(thr s)(u := Mx_idle) = thr s" using at by (auto simp: fun_eq_iff)
  ultimately show ?thesis by (cases s) (simp add: mutex_moved_def)
qed

interpretation mutex: fifo_system mutex_queue "mutex_start :: 'a mutex_state" mutex_inv pushed_of popped_of
  "\<lambda>s. items_now (mem s)"
proof unfold_locales
  show "mutex_inv mutex_start" by (rule mutex_start_inv)
  show "pushed_of (trace s) = popped_of (trace s) @ items_now (mem s)" if "mutex_inv s" for s :: "'a mutex_state"
    by (rule mutex_invD(8) [OF that])
  show "mutex_inv s'" if "mutex_inv s" "exec mutex_queue c s = Running s'"
    for s s' :: "'a mutex_state" and c
  proof (cases c)
    case (Step t k b)
    show ?thesis
    proof (cases "mem_step t (mutex_act (thr s t)) (k, b) (mem s)")
      case (Done r M')
      then show ?thesis using that mutex_step [OF that(1) Done] Step
        by (simp add: mutex_queue_def mutex_moved_def)
    qed (use that Step in \<open>simp_all add: mutex_queue_def\<close>)
  next
    case (Invoke t x)
    show ?thesis
    proof (cases "mutex_call t x (thr s t)")
      case (Some pe)
      obtain p es where pe: "pe = (p, es)" by (meson surj_pair)
      show ?thesis using that(2) Invoke Some mutex_call_inv [OF that(1) Some [unfolded pe]] pe
        by (auto simp: mutex_queue_def)
    qed (use that Invoke in \<open>simp add: mutex_queue_def\<close>)
  next
    case (Sync t u)
    then show ?thesis using that mutex_sync_inv [OF that(1)]
      by (auto simp: mutex_queue_def split: if_splits)
  qed
  show "exec mutex_queue c s \<noteq> Crashed e" if "mutex_inv s" for s :: "'a mutex_state" and c e
  proof (cases c)
    case (Step t k b)
    then show ?thesis using mutex_defined [OF that, of t "(k, b)"]
      by (cases "mem_step t (mutex_act (thr s t)) (k, b) (mem s)") (simp_all add: mutex_queue_def)
  qed (simp_all split: option.split)
qed

section \<open>The properties\<close>

definition mutex_run :: "nat op command list" where
  "mutex_run =
     Invoke 1 (Enqueue 42) # map (\<lambda>k. Step 1 k True) [1, 1, 1, 1, 0] @
     Invoke 2 Try_dequeue # map (\<lambda>k. Step 2 k True) [3, 0, 0, 0, 0, 0, 0] @
     Invoke 2 Is_empty # map (\<lambda>k. Step 2 k True) [5, 0]"

lemma mutex_observed:
  "observe 2 (run mutex_queue mutex_run mutex_start) =
     Some (Mx_unlock (Emptiness True),
       [Called 1 (Enqueue 42), Pushed 1 42, Answered 1 Enqueued,
        Called 2 Try_dequeue, Popped 2 42, Answered 2 (Dequeued (Some 42)), Called 2 Is_empty])"
  by code_simp

lemma mutex_reached:
  obtains s where "reach mutex_queue (mutex_start :: nat mutex_state) s" "thr s 2 = Mx_unlock (Emptiness True)"
    "trace s = [Called 1 (Enqueue 42), Pushed 1 42, Answered 1 Enqueued,
        Called 2 Try_dequeue, Popped 2 42, Answered 2 (Dequeued (Some 42)), Called 2 Is_empty]"
  by (rule observe_reach [OF mutex_observed]) blast

text \<open>
  C21.  The mutex queue has no undefined behaviour: its \<^verbatim>\<open>std::queue\<close> is never touched by two
  threads without the mutex ordering them.
\<close>

theorem mutex_no_undefined: "run mutex_queue cs mutex_start \<noteq> Crashed e"
  by (rule mutex.run_not_crashed)

text \<open>
  C22.  First in first out: what was pushed is what was popped, in order, followed by what the
  \<^verbatim>\<open>std::queue\<close> holds.
\<close>

theorem mutex_fifo:
  "reach mutex_queue mutex_start s \<Longrightarrow> pushed_of (trace s) = popped_of (trace s) @ items_now (mem s)"
  by (rule mutex.reach_fifo)

theorem mutex_fifo_witness: "\<exists>s. popped_of (trace (s :: nat mutex_state)) = [42] \<and> items_now (mem s) = []"
proof -
  obtain s where s: "reach mutex_queue (mutex_start :: nat mutex_state) s"
    "trace s = [Called 1 (Enqueue 42), Pushed 1 42, Answered 1 Enqueued,
        Called 2 Try_dequeue, Popped 2 42, Answered 2 (Dequeued (Some 42)), Called 2 Is_empty]"
    by (rule mutex_reached)
  show ?thesis using mutex_fifo [OF s(1)] s(2) by (intro exI [of _ s]) simp
qed

text \<open>
  Mutual exclusion, and exact answers: at most one thread is between locking and unlocking,
  and inside, an empty answer means that the queue is empty at that moment.
\<close>

lemma mutex_exact:
  "reach mutex_queue mutex_start s \<Longrightarrow>
     (inside (thr s t) \<and> inside (thr s u) \<longrightarrow> t = u) \<and>
     (thr s t = Mx_unlock (Dequeued None) \<longrightarrow> items_now (mem s) = []) \<and>
     (thr s t = Mx_unlock (Emptiness b) \<longrightarrow> b = (items_now (mem s) = []))"
  using mutex_invD(2,6) [OF mutex.reach_inv, of s t] mutex_invD(6) [OF mutex.reach_inv, of s t]
  by (auto dest: mutex_invD(2) [OF mutex.reach_inv])

lemma mutex_exact_witness:
  "\<exists>s. thr (s :: nat mutex_state) 2 = Mx_unlock (Emptiness True) \<and> items_now (mem s) = []"
proof -
  obtain s where s: "reach mutex_queue (mutex_start :: nat mutex_state) s" "thr s 2 = Mx_unlock (Emptiness True)"
    by (rule mutex_reached)
  show ?thesis using mutex_exact [OF s(1), of 2 2 True] s(2) by (intro exI [of _ s]) auto
qed

end
