(* ===== verification/Hazard_Pointer.thy ===== *)
theory Hazard_Pointer imports Ms_Queue begin

text \<open>
  \<^verbatim>\<open>include/lfq/hazard_pointer.hpp\<close>: the hazard-pointer domain (\<^verbatim>\<open>hp_domain\<close>:
  records, retire lists, scan, orphans, thread exit) and \<^verbatim>\<open>hp_reclaimer\<close>, which plugs it
  into the queue.  One program point per memory access, with the orders of the code; the pure
  parts of a scan (sorting the hazards, deciding what to free) are functions.
\<close>

section \<open>Data\<close>

definition kSlots :: nat where
  "kSlots = 2"

text \<open>
  The locations of the domain: the slots, the flag and the link of a record, the item and the link
  of an orphan, and the five globals.
\<close>

datatype domain_aux =
    Slot_of nat nat
  | Active nat
  | Next_record nat
  | Orphan_item nat
  | Orphan_next nat
  | Records
  | Orphans
  | Nrecords
  | Retired_count
  | Freed_count

type_synonym domain_loc = "domain_aux loc"

text \<open>\<^verbatim>\<open>tl_cache\<close>: the thread's record and its retired nodes.\<close>

record tl_cache =
  rec :: "nat option"
  bag :: "nat option list"

definition fresh_cache :: tl_cache where
  "fresh_cache = \<lparr>rec = None, bag = []\<rparr>"

definition make_record :: "nat \<Rightarrow> (domain_loc \<times> 'a cell) list" where
  "make_record r =
     [(Aux (Slot_of r 0), Ptr None), (Aux (Slot_of r 1), Ptr None),
      (Aux (Active r), Flag True), (Aux (Next_record r), Ptr None)]"

definition make_orphan :: "nat option \<Rightarrow> nat option \<Rightarrow> nat \<Rightarrow> (domain_loc \<times> 'a cell) list" where
  "make_orphan item below b = [(Aux (Orphan_item b), Ptr item), (Aux (Orphan_next b), Ptr below)]"

text \<open>\<^verbatim>\<open>~node\<close>, through the deleter \<^verbatim>\<open>hp_reclaimer::retire\<close> stores; deleting null
  does nothing.\<close>

definition delete_node :: "nat option \<Rightarrow> (domain_loc, 'a cell) action" where
  "delete_node p = (case p of None \<Rightarrow> Skip | Some a \<Rightarrow> Delete [Next a, Value a])"

text \<open>The counters are 64-bit and wrap.\<close>

fun num :: "'a cell \<Rightarrow> 64 word" where
  "num (Num n) = n"
| "num (Ptr p) = 0"
| "num (Dat v) = 0"
| "num (Flag b) = 0"

definition add_to :: "64 word \<Rightarrow> 'a cell \<Rightarrow> 'a cell" where
  "add_to k c = Num (num c + k)"

definition scan_threshold :: "64 word \<Rightarrow> 64 word" where
  "scan_threshold nrecords = max 64 (of_nat (2 * kSlots) * nrecords)"

definition clamp :: "64 word \<Rightarrow> 64 word \<Rightarrow> 64 word" where
  "clamp retired freed = (if retired > freed then retired - freed else 0)"

section \<open>The pure part of a scan\<close>

text \<open>\<^verbatim>\<open>std::binary_search\<close> on a sorted vector.\<close>

function binary_search :: "nat list \<Rightarrow> nat \<Rightarrow> bool" where
  "binary_search xs x =
     (if xs = [] then False
      else let m = length xs div 2 in
        if xs ! m = x then True
        else if xs ! m < x then binary_search (drop (Suc m) xs) x
        else binary_search (take m xs) x)"
  by pat_completeness auto
termination
  by (relation "measure (length \<circ> fst)") (auto simp: Let_def)

declare binary_search.simps [simp del]

definition protected_by :: "nat list \<Rightarrow> nat option \<Rightarrow> bool" where
  "protected_by hazards p = (case p of None \<Rightarrow> False | Some a \<Rightarrow> binary_search hazards a)"

section \<open>Program points\<close>

text \<open>Why a scan runs: at the end of \<^verbatim>\<open>retire\<close>, for \<^verbatim>\<open>drain\<close>, or at thread exit.\<close>

datatype scan_for = For_retire | For_drain | For_exit

datatype domain_pc =
    A_head
  | A_try nat
  | A_next nat
  | A_new
  | A_count nat
  | A_top nat
  | A_link nat "nat option"
  | A_push nat "nat option"
  | P_load nat nat domain_loc
  | P_store nat nat domain_loc "nat option"
  | P_fence nat nat domain_loc "nat option"
  | P_check nat nat domain_loc "nat option"
  | S_store nat nat "nat option"
  | S_fence
  | U_clear nat nat
  | R_count
  | R_threshold
  | Sc_adopt scan_for
  | Sc_item scan_for nat
  | Sc_onext scan_for nat
  | Sc_odelete scan_for nat "nat option"
  | Sc_fence scan_for
  | Sc_reserve scan_for
  | Sc_head scan_for
  | Sc_slot scan_for nat nat "nat list"
  | Sc_next scan_for nat "nat list"
  | Sc_free scan_for "nat list" "nat option list" "nat option" "nat option list" "64 word"
  | Sc_count scan_for "64 word"
  | O_top "nat option"
  | O_new "nat option" "nat option"
  | O_expected nat
  | O_cas nat "nat option"
  | O_failed nat "nat option"
  | X_clear nat nat
  | X_release nat

section \<open>Accesses\<close>

fun domain_act :: "domain_pc \<Rightarrow> (domain_loc, 'a cell) action" where
  "domain_act A_head = Load (Aux Records) acquire"
| "domain_act (A_try r) = Cas False (Aux (Active r)) (Flag False) (Flag True) acquire relaxed"
| "domain_act (A_next r) = Read (Aux (Next_record r))"
| "domain_act A_new = New make_record"
| "domain_act (A_count r) = Rmw (Aux Nrecords) (add_to 1) relaxed"
| "domain_act (A_top r) = Load (Aux Records) relaxed"
| "domain_act (A_link r h) = Write (Aux (Next_record r)) (Ptr h)"
| "domain_act (A_push r h) = Cas True (Aux Records) (Ptr h) (Ptr (Some r)) release relaxed"
| "domain_act (P_load r i src) = Load src relaxed"
| "domain_act (P_store r i src p) = Store (Aux (Slot_of r i)) (Ptr p) release"
| "domain_act (P_fence r i src p) = Fence"
| "domain_act (P_check r i src p) = Load src acquire"
| "domain_act (S_store r i p) = Store (Aux (Slot_of r i)) (Ptr p) release"
| "domain_act S_fence = Fence"
| "domain_act (U_clear r i) = Store (Aux (Slot_of r i)) (Ptr None) release"
| "domain_act R_count = Rmw (Aux Retired_count) (add_to 1) relaxed"
| "domain_act R_threshold = Load (Aux Nrecords) relaxed"
| "domain_act (Sc_adopt k) = Rmw (Aux Orphans) (\<lambda>_. Ptr None) acquire"
| "domain_act (Sc_item k b) = Read (Aux (Orphan_item b))"
| "domain_act (Sc_onext k b) = Read (Aux (Orphan_next b))"
| "domain_act (Sc_odelete k b n) = Delete [Aux (Orphan_item b), Aux (Orphan_next b)]"
| "domain_act (Sc_fence k) = Fence"
| "domain_act (Sc_reserve k) = Load (Aux Nrecords) relaxed"
| "domain_act (Sc_head k) = Load (Aux Records) acquire"
| "domain_act (Sc_slot k r i hs) = Load (Aux (Slot_of r i)) acquire"
| "domain_act (Sc_next k r hs) = Read (Aux (Next_record r))"
| "domain_act (Sc_free k hs kept p rest n) = delete_node p"
| "domain_act (Sc_count k n) = Rmw (Aux Freed_count) (add_to n) relaxed"
| "domain_act (O_top p) = Load (Aux Orphans) relaxed"
| "domain_act (O_new p below) = New (make_orphan p below)"
| "domain_act (O_expected b) = Read (Aux (Orphan_next b))"
| "domain_act (O_cas b e) = Cas True (Aux Orphans) (Ptr e) (Ptr (Some b)) release relaxed"
| "domain_act (O_failed b v) = Write (Aux (Orphan_next b)) (Ptr v)"
| "domain_act (X_clear r i) = Store (Aux (Slot_of r i)) (Ptr None) release"
| "domain_act (X_release r) = Store (Aux (Active r)) (Flag False) release"

section \<open>Control flow\<close>

text \<open>An operation of the domain goes on at a program point, or returns a pointer.\<close>

type_synonym domain_flow = "tl_cache \<times> (domain_pc + nat option)"

text \<open>The free loop: what is still protected is kept, in order, up to the next node to free.\<close>

fun sweep :: "scan_for \<Rightarrow> nat list \<Rightarrow> nat option list \<Rightarrow> nat option list \<Rightarrow> 64 word \<Rightarrow> tl_cache \<Rightarrow> domain_flow" where
  "sweep k hs kept [] n h = (h\<lparr>bag := kept\<rparr>, Inl (Sc_count k n))"
| "sweep k hs kept (p # rest) n h =
     (if protected_by hs p then sweep k hs (kept @ [p]) rest n h
      else (h, Inl (Sc_free k hs kept p rest n)))"

text \<open>\<^verbatim>\<open>~tl_cache\<close> after its scan: hand over what is left, then release the record.\<close>

fun leave :: "tl_cache \<Rightarrow> domain_flow" where
  "leave h =
     (case bag h of
        p # ps \<Rightarrow> (h\<lparr>bag := ps\<rparr>, Inl (O_top p))
      | [] \<Rightarrow> (case rec h of None \<Rightarrow> (fresh_cache, Inr None) | Some r \<Rightarrow> (h, Inl (X_clear r 0))))"

fun scan_done :: "scan_for \<Rightarrow> tl_cache \<Rightarrow> domain_flow" where
  "scan_done For_retire h = (h, Inr None)"
| "scan_done For_drain h = (h, Inr None)"
| "scan_done For_exit h = leave h"

definition adopt_next :: "scan_for \<Rightarrow> nat option \<Rightarrow> tl_cache \<Rightarrow> domain_flow" where
  "adopt_next k b h =
     (case b of
        Some a \<Rightarrow> (h, Inl (Sc_item k a))
      | None \<Rightarrow> if bag h = [] then scan_done k h else (h, Inl (Sc_fence k)))"

definition snapshot_next :: "scan_for \<Rightarrow> nat option \<Rightarrow> nat list \<Rightarrow> tl_cache \<Rightarrow> domain_flow" where
  "snapshot_next k r hs h =
     (case r of
        Some a \<Rightarrow> (h, Inl (Sc_slot k a 0 hs))
      | None \<Rightarrow> sweep k (sort hs) [] (bag h) 0 h)"

definition add_hazard :: "nat option \<Rightarrow> nat list \<Rightarrow> nat list" where
  "add_hazard p hs = (case p of None \<Rightarrow> hs | Some a \<Rightarrow> hs @ [a])"

definition try_record :: "nat option \<Rightarrow> tl_cache \<Rightarrow> domain_flow" where
  "try_record r h = (case r of Some a \<Rightarrow> (h, Inl (A_try a)) | None \<Rightarrow> (h, Inl A_new))"

definition got_record :: "nat \<Rightarrow> tl_cache \<Rightarrow> domain_flow" where
  "got_record r h = (h\<lparr>rec := Some r\<rparr>, Inr None)"

fun number :: "'a cell result \<Rightarrow> 64 word" where
  "number (Val c) = num c"
| "number (Swapped b c) = num c"
| "number (Addr a) = of_nat a"
| "number Unit = 0"

fun domain_resume :: "domain_pc \<Rightarrow> 'a cell result \<Rightarrow> tl_cache \<Rightarrow> domain_flow" where
  "domain_resume A_head x h = try_record (loaded x) h"
| "domain_resume (A_try r) x h = (if won x then got_record r h else (h, Inl (A_next r)))"
| "domain_resume (A_next r) x h = try_record (loaded x) h"
| "domain_resume A_new x h = (h, Inl (A_count (the (loaded x))))"
| "domain_resume (A_count r) x h = (h, Inl (A_top r))"
| "domain_resume (A_top r) x h = (h, Inl (A_link r (loaded x)))"
| "domain_resume (A_link r e) x h = (h, Inl (A_push r e))"
| "domain_resume (A_push r e) x h =
     (if won x then got_record r h else (h, Inl (A_link r (loaded x))))"
| "domain_resume (P_load r i src) x h = (h, Inl (P_store r i src (loaded x)))"
| "domain_resume (P_store r i src p) x h = (h, Inl (P_fence r i src p))"
| "domain_resume (P_fence r i src p) x h = (h, Inl (P_check r i src p))"
| "domain_resume (P_check r i src p) x h =
     (if loaded x = p then (h, Inr p) else (h, Inl (P_store r i src (loaded x))))"
| "domain_resume (S_store r i p) x h = (h, Inl S_fence)"
| "domain_resume S_fence x h = (h, Inr None)"
| "domain_resume (U_clear r i) x h =
     (if Suc i < kSlots then (h, Inl (U_clear r (Suc i))) else (h, Inr None))"
| "domain_resume R_count x h = (h, Inl R_threshold)"
| "domain_resume R_threshold x h =
     (if length (bag h) \<ge> unat (scan_threshold (number x)) then (h, Inl (Sc_adopt For_retire))
      else (h, Inr None))"
| "domain_resume (Sc_adopt k) x h = adopt_next k (loaded x) h"
| "domain_resume (Sc_item k b) x h = (h\<lparr>bag := bag h @ [loaded x]\<rparr>, Inl (Sc_onext k b))"
| "domain_resume (Sc_onext k b) x h = (h, Inl (Sc_odelete k b (loaded x)))"
| "domain_resume (Sc_odelete k b n) x h = adopt_next k n h"
| "domain_resume (Sc_fence k) x h = (h, Inl (Sc_reserve k))"
| "domain_resume (Sc_reserve k) x h = (h, Inl (Sc_head k))"
| "domain_resume (Sc_head k) x h = snapshot_next k (loaded x) [] h"
| "domain_resume (Sc_slot k r i hs) x h =
     (if Suc i < kSlots then (h, Inl (Sc_slot k r (Suc i) (add_hazard (loaded x) hs)))
      else (h, Inl (Sc_next k r (add_hazard (loaded x) hs))))"
| "domain_resume (Sc_next k r hs) x h = snapshot_next k (loaded x) hs h"
| "domain_resume (Sc_free k hs kept p rest n) x h = sweep k hs kept rest (n + 1) h"
| "domain_resume (Sc_count k n) x h = scan_done k h"
| "domain_resume (O_top p) x h = (h, Inl (O_new p (loaded x)))"
| "domain_resume (O_new p below) x h = (h, Inl (O_expected (the (loaded x))))"
| "domain_resume (O_expected b) x h = (h, Inl (O_cas b (loaded x)))"
| "domain_resume (O_cas b e) x h = (if won x then leave h else (h, Inl (O_failed b (loaded x))))"
| "domain_resume (O_failed b v) x h = (h, Inl (O_expected b))"
| "domain_resume (X_clear r i) x h =
     (if Suc i < kSlots then (h, Inl (X_clear r (Suc i))) else (h, Inl (X_release r)))"
| "domain_resume (X_release r) x h = (fresh_cache, Inr None)"

text \<open>\<^verbatim>\<open>hp_reclaimer\<close>: how the operations of the seam start.\<close>

definition record_of :: "tl_cache \<Rightarrow> nat" where
  "record_of h = the (rec h)"

fun hp_start_op :: "domain_aux rop \<Rightarrow> tl_cache \<Rightarrow> domain_flow" where
  "hp_start_op Guard h = (if rec h = None then (h, Inl A_head) else (h, Inr None))"
| "hp_start_op (Protect i src) h = (h, Inl (P_load (record_of h) i src))"
| "hp_start_op (Publish i p) h = (h, Inl (S_store (record_of h) i p))"
| "hp_start_op (Retire p) h = (h\<lparr>bag := bag h @ [p]\<rparr>, Inl R_count)"
| "hp_start_op Unguard h = (h, Inl (U_clear (record_of h) 0))"

definition hp_reclaimer :: "(tl_cache, domain_pc, domain_aux, 'a) reclaimer" where
  "hp_reclaimer = \<lparr>r_start = hp_start_op, r_act = domain_act, r_resume = domain_resume\<rparr>"

end
