(* ===== verification/Hp_Queue.thy ===== *)
theory Hp_Queue imports Hazard_Pointer begin

text \<open>
  The program the hazard-pointer build is: threads that use one queue through
  \<^verbatim>\<open>hp_reclaimer\<close> (theory Hazard_Pointer), call the domain's own operations, and exit.
\<close>

section \<open>The queue with the domain's own interface beside it\<close>

text \<open>
  A client thread calls the queue, \<^verbatim>\<open>hp_domain::drain\<close>, \<^verbatim>\<open>get_stats\<close> and
  \<^verbatim>\<open>in_flight\<close>, and its exit runs the destructor of its \<^verbatim>\<open>tl_cache\<close>.
\<close>

datatype 'a client_op = Queue_op "'a op" | Drain | Get_stats | In_flight | Exit_thread

datatype answer = Drained | Stats "64 word" "64 word" | Flight "64 word" | Exited

datatype 'a client_pc =
    In_queue "('a, domain_aux, domain_pc) pc"
  | Draining domain_pc
  | Leaving domain_pc
  | Stats_retired
  | Stats_freed "64 word"
  | Flight_freed
  | Flight_retired "64 word"
  | Answering answer

text \<open>\<open>Retires\<close> and \<open>Frees\<close> mark the two ends of a node's time in the domain: the
  \<^verbatim>\<open>push_back\<close> in \<^verbatim>\<open>retire\<close> and the call of the deleter in \<^verbatim>\<open>scan\<close>.\<close>

datatype 'a client_event =
    Queue_event "'a event"
  | Domain_call nat "'a client_op"
  | Retires nat "nat option"
  | Frees nat "nat option"
  | Domain_answer nat answer

type_synonym 'a client = "'a client_pc \<times> tl_cache"

fun client_act :: "orders \<Rightarrow> 'a client \<Rightarrow> (domain_loc, 'a cell) action" where
  "client_act w (In_queue p, h) = queue_act w hp_reclaimer p"
| "client_act w (Draining d, h) = domain_act d"
| "client_act w (Leaving d, h) = domain_act d"
| "client_act w (Stats_retired, h) = Load (Aux Retired_count) relaxed"
| "client_act w (Stats_freed n, h) = Load (Aux Freed_count) relaxed"
| "client_act w (Flight_freed, h) = Load (Aux Freed_count) relaxed"
| "client_act w (Flight_retired n, h) = Load (Aux Retired_count) relaxed"
| "client_act w (Answering y, h) = Skip"

fun in_domain :: "(domain_pc \<Rightarrow> 'a client_pc) \<Rightarrow> answer \<Rightarrow> domain_flow \<Rightarrow> 'a client" where
  "in_domain f y (h, Inl d) = (f d, h)"
| "in_domain f y (h, Inr p) = (Answering y, h)"

fun client_resume :: "'a client \<Rightarrow> 'a cell result \<Rightarrow> 'a client" where
  "client_resume (In_queue p, h) x = map_prod In_queue id (queue_resume hp_reclaimer (p, h) x)"
| "client_resume (Draining d, h) x = in_domain Draining Drained (domain_resume d x h)"
| "client_resume (Leaving d, h) x = in_domain Leaving Exited (domain_resume d x h)"
| "client_resume (Stats_retired, h) x = (Stats_freed (number x), h)"
| "client_resume (Stats_freed n, h) x = (Answering (Stats n (number x)), h)"
| "client_resume (Flight_freed, h) x = (Flight_retired (number x), h)"
| "client_resume (Flight_retired n, h) x = (Answering (Flight (clamp (number x) n)), h)"
| "client_resume (Answering y, h) x = (In_queue Idle, h)"

fun domain_note :: "nat \<Rightarrow> domain_pc \<Rightarrow> tl_cache \<Rightarrow> 'a client_event list" where
  "domain_note t (Sc_free k hs kept p rest n) h = [Frees t p]"
| "domain_note t d h = []"

fun client_log :: "nat \<Rightarrow> 'a client \<Rightarrow> 'a cell result \<Rightarrow> (domain_loc, 'a cell) memory
    \<Rightarrow> 'a client_event list" where
  "client_log t (In_queue (Call d k), h) x M = domain_note t d h"
| "client_log t (In_queue (Start (Retire p) k), h) x M = [Retires t p]"
| "client_log t (Draining d, h) x M = domain_note t d h"
| "client_log t (Leaving d, h) x M = domain_note t d h"
| "client_log t (Answering y, h) x M = [Domain_answer t y]"
| "client_log t (In_queue p, h) x M = map Queue_event (queue_note t (p, h) x M)"
| "client_log t (p, h) x M = []"

definition leave_thread :: "tl_cache \<Rightarrow> 'a client" where
  "leave_thread h =
     in_domain Leaving Exited (if bag h \<noteq> [] then (h, Inl (Sc_adopt For_exit)) else leave h)"

fun client_call :: "nat \<Rightarrow> 'a client_op \<Rightarrow> 'a client \<Rightarrow> ('a client \<times> 'a client_event list) option" where
  "client_call t (Queue_op x) (In_queue p, h) =
     map_option (map_prod (map_prod In_queue id) (map Queue_event)) (queue_call t x (p, h))"
| "client_call t Drain (In_queue Idle, h) =
     Some ((Draining (Sc_adopt For_drain), h), [Domain_call t Drain])"
| "client_call t Get_stats (In_queue Idle, h) =
     Some ((Stats_retired, h), [Domain_call t Get_stats])"
| "client_call t In_flight (In_queue Idle, h) =
     Some ((Flight_freed, h), [Domain_call t In_flight])"
| "client_call t Exit_thread (In_queue Idle, h) =
     Some (leave_thread h, [Domain_call t Exit_thread])"
| "client_call t x p = None"

definition hp_queue
    :: "orders \<Rightarrow> (domain_loc, 'a cell, 'a client, 'a client_op, 'a client_event) program" where
  "hp_queue w =
     \<lparr>act = client_act w, resume = client_resume, log = client_log, call = client_call,
      idle = (\<lambda>(p, h). p = In_queue Idle)\<rparr>"

text \<open>The globals of the domain are initialised statically, before the queue is constructed.\<close>

definition globals :: "(domain_loc \<times> 'a cell) list" where
  "globals =
     [(Aux Records, Ptr None), (Aux Orphans, Ptr None), (Aux Nrecords, Num 0),
      (Aux Retired_count, Num 0), (Aux Freed_count, Num 0)]"

type_synonym 'a hp_state = "(domain_loc, 'a cell, 'a client, 'a client_event) state"

definition hp_queue_start :: "'a \<Rightarrow> nat \<Rightarrow> 'a hp_state" where
  "hp_queue_start dflt a =
     \<lparr>mem = share 0 (the (perform 0 ((New (\<lambda>_. globals), 0) # constructor dflt a) blank)),
      thr = (\<lambda>_. (In_queue Idle, fresh_cache)), trace = []\<rparr>"

end
