(* ===== verification/Memory_Exec.thy ===== *)
theory Memory_Exec imports Machine Memory_Facts "HOL-Library.AList" begin

text \<open>
  The memory and the runs of theories Memory and Machine on finite tables: a data refinement whose
  only purpose is evaluation.  Every function of the memory becomes an association list, each
  operation is carried over, and \<open>table_run\<close> is proved to compute exactly \<open>run\<close>; the
  concrete executions of the development are evaluated through it.
\<close>

section \<open>Tables\<close>

definition look :: "'b \<Rightarrow> ('a \<times> 'b) list \<Rightarrow> 'a \<Rightarrow> 'b" where
  "look d xs k = (case map_of xs k of None \<Rightarrow> d | Some v \<Rightarrow> v)"

definition put :: "'a \<Rightarrow> 'b \<Rightarrow> ('a \<times> 'b) list \<Rightarrow> ('a \<times> 'b) list" where
  "put k v xs = AList.update k v xs"

lemma look_put [simp]: "look d (put k v xs) = (look d xs)(k := v)"
  by (auto simp: look_def put_def update_conv fun_eq_iff)

type_synonym 'l table_view = "('l coord \<times> nat) list"

definition join :: "('c \<times> nat) list \<Rightarrow> ('c \<times> nat) list \<Rightarrow> ('c \<times> nat) list" where
  "join xs ys = map (\<lambda>(c, n). (c, max n (look 0 ys c))) xs @ filter (\<lambda>(c, n). map_of xs c = None) ys"

lemma map_of_max: "map_of (map (\<lambda>(c, n). (c, max n (f c))) xs) c = map_option (\<lambda>n. max n (f c)) (map_of xs c)"
  for f :: "'c \<Rightarrow> nat"
  by (induction xs) auto

lemma map_of_filter_fst: "map_of (filter (\<lambda>(c, n). P c) xs) c = (if P c then map_of xs c else None)"
  by (induction xs) auto

lemma look_join [simp]: "look 0 (join xs ys) = sup (look 0 xs) (look 0 ys)"
  by (auto simp: look_def join_def map_of_max map_of_filter_fst map_add_def fun_eq_iff split: option.splits)

lemma look_Nil [simp]: "look 0 [] = blind"
  by (simp add: look_def fun_eq_iff)

definition dot :: "'c \<Rightarrow> nat \<Rightarrow> ('c \<times> nat) list" where
  "dot c k = [(c, k)]"

lemma look_dot [simp]: "look 0 (dot c k) = point c k"
  by (auto simp: look_def dot_def fun_eq_iff)

section \<open>The memory\<close>

text \<open>\<open>first_view\<close> is the view of every thread that has no entry of its own.\<close>

record ('l, 'v) table_memory =
  t_hist :: "(('l \<times> nat) \<times> ('v \<times> 'l table_view) list) list"
  t_gen :: "('l \<times> nat) list"
  t_live :: "('l \<times> bool) list"
  t_accs :: "(('l \<times> nat) \<times> (nat \<times> nat) list) list"
  t_cur :: "(nat \<times> 'l table_view) list"
  t_acq :: "(nat \<times> 'l table_view) list"
  t_rel :: "(nat \<times> 'l table_view) list"
  t_scv :: "'l table_view"
  first_view :: "'l table_view"

definition memory_of :: "('l, 'v) table_memory \<Rightarrow> ('l, 'v) memory" where
  "memory_of T =
     \<lparr>hist = (\<lambda>l g. map (map_prod id (look 0)) (look [] (t_hist T) (l, g))),
      gen = look 0 (t_gen T), live = look False (t_live T),
      accs = (\<lambda>l g. look [] (t_accs T) (l, g)),
      cur = (\<lambda>t. look 0 (look (first_view T) (t_cur T) t)),
      acq = (\<lambda>t. look 0 (look (first_view T) (t_acq T) t)),
      rel = (\<lambda>t. look 0 (look [] (t_rel T) t)), scv = look 0 (t_scv T)\<rparr>"

definition t_place :: "('l, 'v) table_memory \<Rightarrow> 'l \<Rightarrow> 'l coord" where
  "t_place T l = At l (look 0 (t_gen T) l)"

definition t_msgs :: "('l, 'v) table_memory \<Rightarrow> 'l \<Rightarrow> ('v \<times> 'l table_view) list" where
  "t_msgs T l = look [] (t_hist T) (l, look 0 (t_gen T) l)"

definition t_view :: "('l, 'v) table_memory \<Rightarrow> nat \<Rightarrow> 'l table_view" where
  "t_view T t = look (first_view T) (t_cur T) t"

definition t_later :: "('l, 'v) table_memory \<Rightarrow> nat \<Rightarrow> 'l table_view" where
  "t_later T t = look (first_view T) (t_acq T) t"

definition t_seen :: "('l, 'v) table_memory \<Rightarrow> nat \<Rightarrow> 'l \<Rightarrow> nat" where
  "t_seen T t l = look 0 (t_view T t) (t_place T l)"

definition t_latest :: "('l, 'v) table_memory \<Rightarrow> 'l \<Rightarrow> nat" where
  "t_latest T l = length (t_msgs T l)"

lemma table_queries [simp]:
  "place (memory_of T) l = t_place T l" "gen (memory_of T) l = look 0 (t_gen T) l"
  "live (memory_of T) l = look False (t_live T) l"
  "msgs (memory_of T) l = map (map_prod id (look 0)) (t_msgs T l)"
  "cur (memory_of T) t = look 0 (t_view T t)" "acq (memory_of T) t = look 0 (t_later T t)"
  "seen (memory_of T) t l = t_seen T t l" "latest (memory_of T) l = t_latest T l"
  "rel (memory_of T) t = look 0 (look [] (t_rel T) t)" "scv (memory_of T) = look 0 (t_scv T)"
  "accs (memory_of T) l g = look [] (t_accs T) (l, g)"
  by (simp_all add: memory_of_def place_def t_place_def msgs_def t_msgs_def t_view_def t_later_def
      seen_def t_seen_def latest_def t_latest_def)

section \<open>The building blocks\<close>

definition t_touch :: "nat \<Rightarrow> 'l \<Rightarrow> ('l, 'v) table_memory \<Rightarrow> ('l, 'v) table_memory" where
  "t_touch t l T =
     (let n = Suc (look 0 (t_view T t) (Clock t)); lg = (l, look 0 (t_gen T) l) in
      T\<lparr>t_accs := put lg ((t, n) # look [] (t_accs T) lg) (t_accs T),
        t_cur := put t (put (Clock t) n (t_view T t)) (t_cur T),
        t_acq := put t (put (Clock t) n (t_later T t)) (t_acq T)\<rparr>)"

definition t_see :: "nat \<Rightarrow> 'l table_view \<Rightarrow> ('l, 'v) table_memory \<Rightarrow> ('l, 'v) table_memory" where
  "t_see t V T =
     T\<lparr>t_cur := put t (join (t_view T t) V) (t_cur T), t_acq := put t (join (t_later T t) V) (t_acq T)\<rparr>"

definition t_see_later :: "nat \<Rightarrow> 'l table_view \<Rightarrow> ('l, 'v) table_memory \<Rightarrow> ('l, 'v) table_memory" where
  "t_see_later t V T = T\<lparr>t_acq := put t (join (t_later T t) V) (t_acq T)\<rparr>"

definition t_push :: "'l \<Rightarrow> 'v \<Rightarrow> 'l table_view \<Rightarrow> ('l, 'v) table_memory \<Rightarrow> ('l, 'v) table_memory" where
  "t_push l v V T =
     T\<lparr>t_hist := put (l, look 0 (t_gen T) l) (t_msgs T l @ [(v, V)]) (t_hist T)\<rparr>"

definition t_fence :: "nat \<Rightarrow> ('l, 'v) table_memory \<Rightarrow> ('l, 'v) table_memory" where
  "t_fence t T =
     (let V = join (t_later T t) (t_scv T) in
      T\<lparr>t_cur := put t V (t_cur T), t_acq := put t V (t_acq T), t_rel := put t V (t_rel T), t_scv := V\<rparr>)"

definition t_birth :: "nat \<Rightarrow> 'l \<times> 'v \<Rightarrow> ('l, 'v) table_memory \<Rightarrow> ('l, 'v) table_memory" where
  "t_birth t lv T =
     (let l = fst lv; g = Suc (look 0 (t_gen T) l) in
      t_see t (dot (At l g) 1)
        (T\<lparr>t_hist := put (l, g) [(snd lv, [])] (t_hist T), t_gen := put l g (t_gen T),
           t_live := put l True (t_live T)\<rparr>))"

definition t_bury :: "'l \<Rightarrow> ('l, 'v) table_memory \<Rightarrow> ('l, 'v) table_memory" where
  "t_bury l T = T\<lparr>t_live := put l False (t_live T)\<rparr>"

lemma table_blocks:
  "memory_of (t_touch t l T) = touch t l (memory_of T)"
  "memory_of (t_see t V T) = see t (look 0 V) (memory_of T)"
  "memory_of (t_see_later t V T) = see_later t (look 0 V) (memory_of T)"
  "memory_of (t_push l v V T) = push l v (look 0 V) (memory_of T)"
  "memory_of (t_fence t T) = sc_fence t (memory_of T)"
  "memory_of (t_bury l T) = bury l (memory_of T)"
  by (auto simp: memory_of_def t_touch_def touch_def t_see_def see_def t_see_later_def see_later_def
      t_push_def push_def msgs_def t_msgs_def t_fence_def sc_fence_def t_bury_def bury_def
      t_view_def t_later_def Let_def fun_eq_iff)

lemma table_birth: "memory_of (t_birth t lv T) = birth t lv (memory_of T)"
  unfolding t_birth_def birth_def Let_def table_blocks
  by (rule arg_cong2 [where f = "see t"]) (auto simp: memory_of_def fun_eq_iff)

lemma table_fold_birth: "memory_of (fold (t_birth t) fs T) = fold (birth t) fs (memory_of T)"
  by (induction fs arbitrary: T) (simp_all add: table_birth)

lemma table_fold_bury: "memory_of (fold t_bury ls T) = fold bury ls (memory_of T)"
  by (induction ls arbitrary: T) (simp_all add: table_blocks)

section \<open>Accesses\<close>

datatype ('l, 'v) table_outcome = T_blocked | T_ub ub | T_done "'v result" "('l, 'v) table_memory"

fun outcome_of :: "('l, 'v) table_outcome \<Rightarrow> ('l, 'v) outcome" where
  "outcome_of T_blocked = Blocked"
| "outcome_of (T_ub e) = Ub e"
| "outcome_of (T_done r T) = Done r (memory_of T)"

definition t_guarded :: "('l, 'v) table_memory \<Rightarrow> nat \<Rightarrow> 'l \<Rightarrow> ('l, 'v) table_outcome \<Rightarrow> ('l, 'v) table_outcome" where
  "t_guarded T t l x =
     (if \<not> look False (t_live T) l then T_ub Use_after_free
      else if t_seen T t l = 0 then T_ub Data_race else x)"

definition t_quiet :: "('l, 'v) table_memory \<Rightarrow> nat \<Rightarrow> 'l \<Rightarrow> bool" where
  "t_quiet T t l =
     (t_latest T l \<le> t_seen T t l \<and>
      list_all (\<lambda>(u, n). n \<le> look 0 (t_view T t) (Clock u)) (look [] (t_accs T) (l, look 0 (t_gen T) l)))"

definition t_read_at :: "nat \<Rightarrow> 'l \<Rightarrow> memory_order \<Rightarrow> nat \<Rightarrow> ('l, 'v) table_memory \<Rightarrow> ('l, 'v) table_memory" where
  "t_read_at t l mo k T =
     (let V = snd (t_msgs T l ! (k - 1)); T1 = t_see t (dot (t_place T l) k) (t_touch t l T)
      in if is_acq mo then t_see t V T1 else t_see_later t V T1)"

definition t_write_next :: "nat \<Rightarrow> 'l \<Rightarrow> 'v \<Rightarrow> memory_order \<Rightarrow> 'l table_view \<Rightarrow> ('l, 'v) table_memory \<Rightarrow> ('l, 'v) table_memory" where
  "t_write_next t l v mo W T =
     (let c = t_place T l; k = Suc (t_latest T l); T1 = t_see t (dot c k) T
      in t_push l v (join W (if is_rel mo then t_view T1 t else join (look [] (t_rel T1) t) (dot c k))) T1)"

definition t_rmw_at :: "nat \<Rightarrow> 'l \<Rightarrow> 'v \<Rightarrow> memory_order \<Rightarrow> ('l, 'v) table_memory \<Rightarrow> ('l, 'v) table_memory" where
  "t_rmw_at t l v mo T =
     t_write_next t l v mo (snd (t_msgs T l ! (t_latest T l - 1))) (t_read_at t l mo (t_latest T l) T)"

lemma table_write_next: "memory_of (t_write_next t l v mo W T) = write_next t l v mo (look 0 W) (memory_of T)"
proof -
  let ?T1 = "t_see t (dot (t_place T l) (Suc (t_latest T l))) T"
  have "see t (point (t_place T l) (Suc (t_latest T l))) (memory_of T) = memory_of ?T1"
    by (simp add: table_blocks)
  then show ?thesis
    by (simp add: t_write_next_def write_next_def Let_def table_blocks(4) released_def)
qed

lemma table_read_at:
  "0 < k \<Longrightarrow> k \<le> t_latest T l \<Longrightarrow> memory_of (t_read_at t l mo k T) = read_at t l mo k (memory_of T)"
  by (auto simp: t_read_at_def read_at_def Let_def table_blocks t_latest_def)

lemma table_rmw_at:
  "0 < t_latest T l \<Longrightarrow> memory_of (t_rmw_at t l v mo T) = rmw_at t l v mo (memory_of T)"
  by (simp add: t_rmw_at_def rmw_at_def table_write_next table_read_at t_latest_def)

lemma table_guarded:
  "outcome_of (t_guarded T t l x) =
     guarded (memory_of T) t l (if look False (t_live T) l \<and> t_seen T t l \<noteq> 0 then outcome_of x else Blocked)"
  by (simp add: t_guarded_def guarded_def access_def)

lemma table_quiet: "t_quiet T t l = quiet (memory_of T) t l"
  by (simp add: t_quiet_def quiet_def)

fun table_step :: "nat \<Rightarrow> ('l, 'v) action \<Rightarrow> nat \<times> bool \<Rightarrow> ('l, 'v) table_memory \<Rightarrow> ('l, 'v) table_outcome" where
  "table_step t (Load l mo) c T =
     t_guarded T t l
       (if t_seen T t l \<le> fst c \<and> fst c \<le> t_latest T l
        then T_done (Val (fst (t_msgs T l ! (fst c - 1)))) (t_read_at t l mo (fst c) T) else T_blocked)"
| "table_step t (Store l v mo) c T =
     t_guarded T t l
       (if t_seen T t l < t_latest T l then T_ub Unordered_store
        else T_done Unit (t_write_next t l v mo [] (t_touch t l T)))"
| "table_step t (Cas weak l e d smo fmo) c T =
     t_guarded T t l
       (if \<not> (t_seen T t l \<le> fst c \<and> fst c \<le> t_latest T l) then T_blocked
        else let v = fst (t_msgs T l ! (fst c - 1)) in
          if snd c then
            (if fst c = t_latest T l \<and> v = e then T_done (Swapped True v) (t_rmw_at t l d smo T)
             else T_blocked)
          else
            (if v \<noteq> e \<or> weak then T_done (Swapped False v) (t_read_at t l fmo (fst c) T) else T_blocked))"
| "table_step t (Rmw l f mo) c T =
     t_guarded T t l
       (if t_latest T l = 0 then T_blocked
        else let v = fst (t_msgs T l ! (t_latest T l - 1)) in T_done (Val v) (t_rmw_at t l (f v) mo T))"
| "table_step t Fence c T = T_done Unit (t_fence t T)"
| "table_step t (Read l) c T =
     t_guarded T t l
       (if t_seen T t l < t_latest T l then T_ub Data_race
        else if t_latest T l = 0 then T_blocked
        else T_done (Val (fst (t_msgs T l ! (t_latest T l - 1)))) (t_touch t l T))"
| "table_step t (Write l v) c T =
     t_guarded T t l
       (if \<not> t_quiet T t l then T_ub Data_race
        else T_done Unit (t_write_next t l v relaxed [] (t_touch t l T)))"
| "table_step t (New f) c T =
     (if list_ex (\<lambda>(l, _). look False (t_live T) l) (f (fst c)) then T_blocked
      else T_done (Addr (fst c)) (fold (t_birth t) (f (fst c)) T))"
| "table_step t (Delete ls) c T =
     (if list_ex (\<lambda>l. \<not> look False (t_live T) l) ls then T_ub Use_after_free
      else if list_ex (\<lambda>l. \<not> t_quiet T t l) ls then T_ub Data_race
      else T_done Unit (fold t_bury ls T))"
| "table_step t (Fail e) c T = T_ub e"
| "table_step t Skip c T = T_done Unit T"

text \<open>
  The tables stand for a memory in which no thread has seen a message that does not exist, which
  every memory a program reaches is.
\<close>

lemma table_step:
  assumes wf: "\<And>l. t_seen T t l \<le> t_latest T l"
  shows "outcome_of (table_step t x c T) = mem_step t x c (memory_of T)"
proof -
  have nz: "t_latest T l \<noteq> 0" if "t_seen T t l \<noteq> 0" for l using wf [of l] that by simp
  have msg: "map (map_prod id (look 0)) (t_msgs T l) ! (k - 1) = map_prod id (look 0) (t_msgs T l ! (k - 1))"
    if "t_seen T t l \<noteq> 0" "t_seen T t l \<le> k" "k \<le> t_latest T l" for l k
    using that by (intro nth_map) (simp add: t_latest_def)
  show ?thesis
  proof (cases x)
    case (Load l mo)
    then show ?thesis
      by (auto simp: table_guarded mem_step.simps readable_def guarded_def access_def table_read_at
          msg [unfolded One_nat_def] split: option.split)
  next
    case (Cas weak l e d smo fmo)
    then show ?thesis
      by (auto simp: table_guarded mem_step.simps readable_def guarded_def access_def table_read_at
          table_rmw_at Let_def msg [unfolded One_nat_def] split: option.split)
  next
    case (Rmw l f mo)
    then show ?thesis using nz [of l] msg [of l "t_latest T l"] wf [of l]
      by (auto simp: table_guarded mem_step.simps guarded_def access_def table_rmw_at Let_def split: option.split)
  next
    case (Read l)
    then show ?thesis using nz [of l] msg [of l "t_latest T l"] wf [of l]
      by (auto simp: table_guarded mem_step.simps guarded_def access_def table_blocks split: option.split)
  qed (auto simp: table_guarded mem_step.simps guarded_def access_def table_write_next table_blocks
      table_quiet table_fold_birth table_fold_bury split: option.split)
qed

section \<open>Runs\<close>

record ('l, 'v, 'p, 'e) table_state =
  t_mem :: "('l, 'v) table_memory"
  t_thr :: "(nat \<times> 'p) list"
  first_thr :: "'p"
  t_trace :: "'e list"

definition state_of :: "('l, 'v, 'p, 'e) table_state \<Rightarrow> ('l, 'v, 'p, 'e) state" where
  "state_of S = \<lparr>mem = memory_of (t_mem S), thr = look (first_thr S) (t_thr S), trace = t_trace S\<rparr>"

fun table_settle :: "('l, 'v, 'p, 'o, 'e) program \<Rightarrow> nat \<Rightarrow> ('l, 'v, 'p, 'e) table_state
    \<Rightarrow> ('l, 'v) table_outcome \<Rightarrow> ('l, 'v, 'p, 'e) table_state verdict" where
  "table_settle P t S T_blocked = Running S"
| "table_settle P t S (T_ub e) = Crashed e"
| "table_settle P t S (T_done r T) =
     (let p = look (first_thr S) (t_thr S) t in
      Running (S\<lparr>t_mem := T, t_thr := put t (resume P p r) (t_thr S),
                 t_trace := t_trace S @ log P t p r (memory_of (t_mem S))\<rparr>))"

definition t_synchronize :: "nat \<Rightarrow> nat \<Rightarrow> ('l, 'v) table_memory \<Rightarrow> ('l, 'v) table_memory" where
  "t_synchronize t u T = t_see u (t_view T t) T"

fun table_exec :: "('l, 'v, 'p, 'o, 'e) program \<Rightarrow> 'o command \<Rightarrow> ('l, 'v, 'p, 'e) table_state
    \<Rightarrow> ('l, 'v, 'p, 'e) table_state verdict" where
  "table_exec P (Step t k b) S =
     table_settle P t S (table_step t (act P (look (first_thr S) (t_thr S) t)) (k, b) (t_mem S))"
| "table_exec P (Invoke t x) S =
     (case call P t x (look (first_thr S) (t_thr S) t) of
        None \<Rightarrow> Running S
      | Some (p, es) \<Rightarrow> Running (S\<lparr>t_thr := put t p (t_thr S), t_trace := t_trace S @ es\<rparr>))"
| "table_exec P (Sync t u) S =
     Running (if idle P (look (first_thr S) (t_thr S) u) then S\<lparr>t_mem := t_synchronize t u (t_mem S)\<rparr> else S)"

fun table_run :: "('l, 'v, 'p, 'o, 'e) program \<Rightarrow> 'o command list \<Rightarrow> ('l, 'v, 'p, 'e) table_state
    \<Rightarrow> ('l, 'v, 'p, 'e) table_state verdict" where
  "table_run P [] S = Running S"
| "table_run P (c # cs) S =
     (case table_exec P c S of Running S' \<Rightarrow> table_run P cs S' | Crashed e \<Rightarrow> Crashed e)"

fun verdict_of :: "('l, 'v, 'p, 'e) table_state verdict \<Rightarrow> ('l, 'v, 'p, 'e) state verdict" where
  "verdict_of (Running S) = Running (state_of S)"
| "verdict_of (Crashed e) = Crashed e"

lemma wf_seen: "mem_wf (memory_of T) \<Longrightarrow> t_seen T t l \<le> t_latest T l"
  using seen_le_latest [of "memory_of T" t l] by simp

lemma table_settle:
  "verdict_of (table_settle P t S x) = settle P t (state_of S) (outcome_of x)"
  by (cases x) (auto simp: state_of_def Let_def)

lemma table_exec:
  assumes "mem_wf (mem (state_of S))"
  shows "verdict_of (table_exec P c S) = exec P c (state_of S)"
proof (cases c)
  case (Step t k b)
  have "\<And>l. t_seen (t_mem S) t l \<le> t_latest (t_mem S) l"
    using assms by (simp add: state_of_def wf_seen)
  then show ?thesis using Step by (simp add: table_settle table_step) (simp add: state_of_def)
qed (auto simp: state_of_def t_synchronize_def synchronize_def table_blocks split: option.split)

lemma exec_wf:
  assumes "mem_wf (mem s)" "exec P c s = Running s'"
  shows "mem_wf (mem s')"
proof (cases c)
  case (Step t k b)
  with assms show ?thesis
    by (cases "mem_step t (act P (thr s t)) (k, b) (mem s)") (auto intro: wf_mem_step)
qed (use assms in \<open>auto simp: wf_synchronize split: option.splits if_splits\<close>)

lemma table_run:
  "mem_wf (mem (state_of S)) \<Longrightarrow> verdict_of (table_run P cs S) = run P cs (state_of S)"
proof (induction cs arbitrary: S)
  case (Cons c cs)
  note e = table_exec [OF Cons.prems, of P c]
  show ?case
  proof (cases "table_exec P c S")
    case (Running S')
    then have "exec P c (state_of S) = Running (state_of S')" using e by simp
    then show ?thesis using Cons.IH [OF exec_wf [OF Cons.prems]] Running by simp
  next
    case (Crashed x)
    then show ?thesis using e [symmetric] by simp
  qed
qed simp

lemma run_table:
  "mem_wf (mem (state_of S)) \<Longrightarrow> run P cs (state_of S) = verdict_of (table_run P cs S)"
  by (rule table_run [symmetric])

definition table_observe :: "nat \<Rightarrow> ('l, 'v, 'p, 'e) table_state verdict \<Rightarrow> ('p \<times> 'e list) option" where
  "table_observe t v =
     (case v of Running S \<Rightarrow> Some (look (first_thr S) (t_thr S) t, t_trace S) | Crashed e \<Rightarrow> None)"

lemma observe_table:
  "mem_wf (mem (state_of S)) \<Longrightarrow> observe t (run P cs (state_of S)) = table_observe t (table_run P cs S)"
  by (cases "table_run P cs S") (simp_all add: run_table observe_def table_observe_def, simp add: state_of_def)

lemma crash_table:
  "mem_wf (mem (state_of S)) \<Longrightarrow> crash_of (run P cs (state_of S)) = crash_of (table_run P cs S)"
  by (cases "table_run P cs S") (simp_all add: run_table crash_of_def)

section \<open>Setting up\<close>

definition t_blank :: "('l, 'v) table_memory" where
  "t_blank = \<lparr>t_hist = [], t_gen = [], t_live = [], t_accs = [], t_cur = [], t_acq = [], t_rel = [],
     t_scv = [], first_view = []\<rparr>"

fun t_perform :: "nat \<Rightarrow> (('l, 'v) action \<times> nat) list \<Rightarrow> ('l, 'v) table_memory \<Rightarrow> ('l, 'v) table_memory option" where
  "t_perform t [] T = Some T"
| "t_perform t ((x, k) # xs) T =
     (case table_step t x (k, True) T of T_done r T' \<Rightarrow> t_perform t xs T' | _ \<Rightarrow> None)"

definition t_share :: "nat \<Rightarrow> ('l, 'v) table_memory \<Rightarrow> ('l, 'v) table_memory" where
  "t_share t T = T\<lparr>t_cur := [], t_acq := [], first_view := t_view T t\<rparr>"

lemma table_blank: "memory_of t_blank = blank"
  by (simp add: memory_of_def t_blank_def blank_def look_def fun_eq_iff)

lemma table_share: "memory_of (t_share t T) = share t (memory_of T)"
  by (simp add: t_share_def share_def) (simp add: memory_of_def t_view_def look_def)

lemma table_perform:
  "mem_wf (memory_of T) \<Longrightarrow> map_option memory_of (t_perform t xs T) = perform t xs (memory_of T)"
proof (induction t xs T rule: t_perform.induct)
  case (2 t x k xs T)
  have e: "outcome_of (table_step t x (k, True) T) = mem_step t x (k, True) (memory_of T)"
    using 2(2) by (intro table_step wf_seen)
  show ?case
  proof (cases "table_step t x (k, True) T")
    case (T_done r T')
    then have d: "mem_step t x (k, True) (memory_of T) = Done r (memory_of T')" using e by simp
    then have "mem_wf (memory_of T')" by (rule wf_mem_step [OF 2(2)])
    then show ?thesis using 2(1) [OF T_done] T_done d by simp
  qed (use e [symmetric] in simp_all)
qed simp

end
