(* ===== verification/Hp_Runs.thy ===== *)
theory Hp_Runs imports Hp_Queue Memory_Exec Memory_Now begin

text \<open>
  Executions of the hazard-pointer queue: its start state on the tables of theory Memory_Exec, and
  the concrete runs that the properties are exercised on.
\<close>

section \<open>The start state\<close>

lemma hp_start_performs:
  "\<exists>M :: (domain_loc, 'a cell) memory.
     perform 0 ((New (\<lambda>_. globals), 0) # constructor dflt a) blank = Some M"
  by (simp add: setup_simps constructor_def make_node_def globals_def)

lemma hp_queue_start_wf: "mem_wf (mem (hp_queue_start dflt a))"
proof -
  obtain M :: "(domain_loc, 'a cell) memory"
    where M: "perform 0 ((New (\<lambda>_. globals), 0) # constructor dflt a) blank = Some M"
    using hp_start_performs [of dflt a] by (elim exE)
  show ?thesis
    using wf_share [OF wf_perform [OF M wf_blank]] M by (simp add: hp_queue_start_def del: perform.simps)
qed

definition hp_table_start :: "'a \<Rightarrow> nat \<Rightarrow> (domain_loc, 'a cell, 'a client, 'a client_event) table_state" where
  "hp_table_start dflt a =
     \<lparr>t_mem = t_share 0 (the (t_perform 0 ((New (\<lambda>_. globals), 0) # constructor dflt a) t_blank)),
      t_thr = [], first_thr = (In_queue Idle, fresh_cache), t_trace = []\<rparr>"

lemma hp_table_state: "state_of (hp_table_start dflt a) = hp_queue_start dflt a"
proof -
  let ?xs = "(New (\<lambda>_. globals), 0) # constructor dflt a"
  let ?T = "t_perform 0 ?xs t_blank"
  have p: "map_option memory_of ?T = perform 0 ?xs blank"
    using table_perform [of t_blank 0 ?xs] by (simp add: table_blank wf_blank del: t_perform.simps perform.simps)
  then obtain T where T: "?T = Some T"
    using hp_start_performs [of dflt a] by (cases ?T) auto
  then have "memory_of T = the (perform 0 ?xs blank)" using p by (metis option.sel option.simps(9))
  then show ?thesis
    using T by (simp add: state_of_def hp_table_start_def hp_queue_start_def table_share look_def fun_eq_iff
        del: t_perform.simps perform.simps)
qed

lemma hp_observe:
  "observe t (run (hp_queue w) cs (hp_queue_start dflt a)) =
     table_observe t (table_run (hp_queue w) cs (hp_table_start dflt a))"
  using observe_table [of "hp_table_start dflt a"] by (simp add: hp_table_state hp_queue_start_wf)

lemma hp_crash:
  "crash_of (run (hp_queue w) cs (hp_queue_start dflt a)) =
     crash_of (table_run (hp_queue w) cs (hp_table_start dflt a))"
  using crash_table [of "hp_table_start dflt a"] by (simp add: hp_table_state hp_queue_start_wf)

section \<open>Runs\<close>

definition go :: "nat \<Rightarrow> nat list \<Rightarrow> 'o command list" where
  "go t ks = map (\<lambda>k. Step t k True) ks"

text \<open>Thread 1 takes a new record 20 and enqueues 42 in node 9; it dequeues it again, retiring the
  dummy node 7; it drains, which frees the dummy.\<close>

definition hp_enqueue :: "nat client_op command list" where
  "hp_enqueue =
     Invoke 1 (Queue_op (Enqueue 42)) # go 1 [9, 0, 1, 20, 0, 1, 0, 1, 0, 2, 0, 0, 2, 1, 2, 1, 2, 0, 0, 0, 0]"

definition hp_dequeue :: "nat client_op command list" where
  "hp_dequeue =
     Invoke 1 (Queue_op Try_dequeue) #
     go 1 [0, 0, 2, 0, 0, 2, 3, 2, 0, 0, 0, 2, 0, 2, 0, 0, 2, 0, 0, 0, 0]"

definition hp_drain :: "nat client_op command list" where
  "hp_drain = Invoke 1 Drain # go 1 [0, 0, 2, 2, 5, 4, 0, 0, 0, 0]"

definition hp_demo_trace :: "nat client_event list" where
  "hp_demo_trace =
     [Queue_event (Begin 1 (Enqueue 42)), Queue_event (Linked 1 9 1 42), Queue_event (Return 1 Enqueued),
      Queue_event (Begin 1 Try_dequeue), Queue_event (Unlinked 1 9 1 42), Retires 1 (Some 7),
      Queue_event (Return 1 (Dequeued (Some 42))),
      Domain_call 1 Drain, Frees 1 (Some 7), Domain_answer 1 Drained]"

lemma hp_demo_table:
  "table_observe 1 (table_run (hp_queue shipped) (hp_enqueue @ hp_dequeue @ hp_drain) (hp_table_start 0 7)) =
     Some ((In_queue Idle, \<lparr>rec = Some 20, bag = []\<rparr>), hp_demo_trace)"
  by code_simp

text \<open>The same, seen right after the dequeue: the dummy waits in the bag.\<close>

lemma hp_waiting_table:
  "table_observe 1 (table_run (hp_queue shipped) (hp_enqueue @ hp_dequeue) (hp_table_start 0 7)) =
     Some ((In_queue Idle, \<lparr>rec = Some 20, bag = [Some 7]\<rparr>), take 7 hp_demo_trace)"
  by code_simp

text \<open>Threads 1 and 2 take their records: thread 2 finds record 20 taken and adds record 21.\<close>

definition hp_two :: "nat client_op command list" where
  "hp_two =
     Invoke 1 (Queue_op (Enqueue 42)) # go 1 [9, 0, 1, 20, 0, 1, 0, 1, 0] @
     Invoke 2 (Queue_op (Enqueue 43)) # go 2 [10, 0, 2] @ Step 2 1 False # go 2 [0, 21, 0, 2, 0, 2, 0, 2]"

lemma hp_two_table:
  "table_observe 1 (table_run (hp_queue shipped) hp_two (hp_table_start 0 7)) =
     Some ((In_queue (Call (P_load 20 0 Tail) (KE_protect 9)), \<lparr>rec = Some 20, bag = []\<rparr>),
       [Queue_event (Begin 1 (Enqueue 42)), Queue_event (Begin 2 (Enqueue 43))])"
  "table_observe 2 (table_run (hp_queue shipped) hp_two (hp_table_start 0 7)) =
     Some ((In_queue (Call (P_store 21 0 Tail (Some 7)) (KE_protect 10)), \<lparr>rec = Some 21, bag = []\<rparr>),
       [Queue_event (Begin 1 (Enqueue 42)), Queue_event (Begin 2 (Enqueue 43))])"
  by code_simp+

text \<open>Thread 2 has read \<^verbatim>\<open>head_\<close> in \<^verbatim>\<open>empty()\<close> when thread 1 dequeues and drains.\<close>

definition hp_unguarded :: "nat client_op command list" where
  "hp_unguarded =
     hp_enqueue @ Invoke 2 (Queue_op Is_empty) # go 2 [2] @ hp_dequeue @ hp_drain @ go 2 [2]"

lemma hp_unguarded_table:
  "crash_of (table_run (hp_queue shipped) hp_unguarded (hp_table_start (0 :: nat) 7)) = Some Use_after_free"
  by code_simp

text \<open>
  \<^verbatim>\<open>empty()\<close> takes no guard: called while another thread dequeues and scans, it
  reads the \<^verbatim>\<open>next\<close> field of a node that has been freed.  Its contract (quiesced states
  only) is needed with \<^verbatim>\<open>hp_reclaimer\<close>, while with the leaky reclaimer it is not.
\<close>

lemma hp_empty_use_after_free:
  "crash_of (run (hp_queue shipped) hp_unguarded (hp_queue_start (0 :: nat) 7)) = Some Use_after_free"
  unfolding hp_crash by (rule hp_unguarded_table)

end
