(* ===== verification/Hp_Records.thy ===== *)
theory Hp_Records imports Hp_Runs begin

text \<open>
  Ownership of hazard records: a record is in the hands of at most one thread, and a thread only
  writes the slots of the record it holds.  The argument is about the newest value of the
  \<^verbatim>\<open>active\<close> flags alone, so it needs no assumption on the rest of the execution.
\<close>

section \<open>Which operation a program point belongs to\<close>

datatype kind = K_guard | K_protect | K_publish | K_retire | K_unguard | K_drain | K_exit

fun scan_kind :: "scan_for \<Rightarrow> kind" where
  "scan_kind For_retire = K_retire"
| "scan_kind For_drain = K_drain"
| "scan_kind For_exit = K_exit"

fun kind_of :: "domain_pc \<Rightarrow> kind" where
  "kind_of A_head = K_guard"
| "kind_of (A_try r) = K_guard"
| "kind_of (A_next r) = K_guard"
| "kind_of A_new = K_guard"
| "kind_of (A_count r) = K_guard"
| "kind_of (A_top r) = K_guard"
| "kind_of (A_link r h) = K_guard"
| "kind_of (A_push r h) = K_guard"
| "kind_of (P_load r i src) = K_protect"
| "kind_of (P_store r i src p) = K_protect"
| "kind_of (P_fence r i src p) = K_protect"
| "kind_of (P_check r i src p) = K_protect"
| "kind_of (S_store r i p) = K_publish"
| "kind_of S_fence = K_publish"
| "kind_of (U_clear r i) = K_unguard"
| "kind_of R_count = K_retire"
| "kind_of R_threshold = K_retire"
| "kind_of (Sc_adopt k) = scan_kind k"
| "kind_of (Sc_item k b) = scan_kind k"
| "kind_of (Sc_onext k b) = scan_kind k"
| "kind_of (Sc_odelete k b n) = scan_kind k"
| "kind_of (Sc_fence k) = scan_kind k"
| "kind_of (Sc_reserve k) = scan_kind k"
| "kind_of (Sc_head k) = scan_kind k"
| "kind_of (Sc_slot k r i hs) = scan_kind k"
| "kind_of (Sc_next k r hs) = scan_kind k"
| "kind_of (Sc_free k hs kept p rest n) = scan_kind k"
| "kind_of (Sc_count k n) = scan_kind k"
| "kind_of (O_top p) = K_exit"
| "kind_of (O_new p below) = K_exit"
| "kind_of (O_expected b) = K_exit"
| "kind_of (O_cas b e) = K_exit"
| "kind_of (O_failed b v) = K_exit"
| "kind_of (X_clear r i) = K_exit"
| "kind_of (X_release r) = K_exit"

fun rop_kind :: "'x rop \<Rightarrow> kind" where
  "rop_kind Guard = K_guard"
| "rop_kind (Protect i src) = K_protect"
| "rop_kind (Publish i p) = K_publish"
| "rop_kind (Retire p) = K_retire"
| "rop_kind Unguard = K_unguard"

fun cont_kind :: "'a cont \<Rightarrow> kind" where
  "cont_kind (KE_guard n) = K_guard"
| "cont_kind (KE_protect n) = K_protect"
| "cont_kind KE_leave = K_unguard"
| "cont_kind KD_guard = K_guard"
| "cont_kind KD_protect = K_protect"
| "cont_kind (KD_set p q r) = K_publish"
| "cont_kind (KD_retire v) = K_retire"
| "cont_kind (KD_leave y) = K_unguard"

text \<open>The record whose slots or flag a program point writes, and the one it has allocated.\<close>

fun writes_record :: "domain_pc \<Rightarrow> nat option" where
  "writes_record (P_load r i src) = Some r"
| "writes_record (P_store r i src p) = Some r"
| "writes_record (P_fence r i src p) = Some r"
| "writes_record (P_check r i src p) = Some r"
| "writes_record (S_store r i p) = Some r"
| "writes_record (U_clear r i) = Some r"
| "writes_record (X_clear r i) = Some r"
| "writes_record (X_release r) = Some r"
| "writes_record _ = None"

fun fresh_record :: "domain_pc \<Rightarrow> nat option" where
  "fresh_record (A_count r) = Some r"
| "fresh_record (A_top r) = Some r"
| "fresh_record (A_link r h) = Some r"
| "fresh_record (A_push r h) = Some r"
| "fresh_record _ = None"

fun domain_of :: "'a client_pc \<Rightarrow> domain_pc option" where
  "domain_of (In_queue (Call d k)) = Some d"
| "domain_of (Draining d) = Some d"
| "domain_of (Leaving d) = Some d"
| "domain_of _ = None"

definition fresh_in_hand :: "domain_pc option \<Rightarrow> nat option" where
  "fresh_in_hand x = (case x of None \<Rightarrow> None | Some d \<Rightarrow> fresh_record d)"

definition in_hand :: "'a client \<Rightarrow> nat option" where
  "in_hand c = (case rec (snd c) of Some r \<Rightarrow> Some r | None \<Rightarrow> fresh_in_hand (domain_of (fst c)))"

section \<open>Discipline of the program points\<close>

definition domain_ok :: "kind \<Rightarrow> domain_pc \<Rightarrow> tl_cache \<Rightarrow> bool" where
  "domain_ok k d h \<longleftrightarrow>
     kind_of d = k \<and> (k = K_guard \<longrightarrow> rec h = None) \<and>
     (\<forall>r. writes_record d = Some r \<longrightarrow> rec h = Some r)"

fun queue_ok :: "('a, domain_aux, domain_pc) pc \<Rightarrow> tl_cache \<Rightarrow> bool" where
  "queue_ok (Start x k) h \<longleftrightarrow>
     rop_kind x = cont_kind k \<and> (cont_kind k \<noteq> K_guard \<longrightarrow> rec h \<noteq> None)"
| "queue_ok (Call d k) h \<longleftrightarrow>
     domain_ok (cont_kind k) d h \<and> (cont_kind k \<noteq> K_guard \<longrightarrow> rec h \<noteq> None)"
| "queue_ok Idle h \<longleftrightarrow> True"
| "queue_ok (E_new v) h \<longleftrightarrow> True"
| "queue_ok M_head h \<longleftrightarrow> True"
| "queue_ok (M_next p) h \<longleftrightarrow> True"
| "queue_ok (Finish y) h \<longleftrightarrow> True"
| "queue_ok _ h \<longleftrightarrow> rec h \<noteq> None"

fun client_ok :: "'a client \<Rightarrow> bool" where
  "client_ok (In_queue p, h) \<longleftrightarrow> queue_ok p h"
| "client_ok (Draining d, h) \<longleftrightarrow> domain_ok K_drain d h"
| "client_ok (Leaving d, h) \<longleftrightarrow> domain_ok K_exit d h"
| "client_ok (p, h) \<longleftrightarrow> True"

lemmas flow_defs = try_record_def got_record_def adopt_next_def snapshot_next_def

lemma sweep_flow:
  "\<exists>h' d. sweep k hs kept ps n h = (h', Inl d) \<and>
     kind_of d = scan_kind k \<and> writes_record d = None \<and> fresh_record d = None \<and> rec h' = rec h"
proof (induction ps arbitrary: kept)
  case (Cons p ps)
  then show ?case by (cases "protected_by hs p") simp_all
qed simp

lemma leave_flow:
  "(\<exists>h' d. leave h = (h', Inl d) \<and> kind_of d = K_exit \<and> fresh_record d = None \<and> rec h' = rec h \<and>
      (\<forall>r. writes_record d = Some r \<longrightarrow> rec h = Some r)) \<or>
   leave h = (fresh_cache, Inr None) \<and> rec h = None"
  by (cases "bag h"; cases "rec h") simp_all

lemma scan_done_flow:
  "(\<exists>h' d. scan_done k h = (h', Inl d) \<and> kind_of d = scan_kind k \<and> fresh_record d = None \<and>
      rec h' = rec h \<and> (\<forall>r. writes_record d = Some r \<longrightarrow> rec h = Some r)) \<or>
   (\<exists>h'. scan_done k h = (h', Inr None) \<and> rec h' = rec h)"
  using leave_flow [of h] by (cases k) (auto simp: fresh_cache_def)

text \<open>Only four program points change what a thread holds: taking a free record, allocating one,
  publishing it, and releasing it at thread exit.\<close>

fun exchanges :: "domain_pc \<Rightarrow> bool" where
  "exchanges (A_try r) = True"
| "exchanges A_new = True"
| "exchanges (A_push r h) = True"
| "exchanges (X_release r) = True"
| "exchanges _ = False"

definition calm :: "kind \<Rightarrow> nat option \<Rightarrow> tl_cache \<Rightarrow> domain_flow \<Rightarrow> bool" where
  "calm k f h y \<longleftrightarrow>
     (\<exists>h' d. y = (h', Inl d) \<and> domain_ok k d h' \<and> rec h' = rec h \<and> fresh_record d = f) \<or>
     (\<exists>h' p. y = (h', Inr p) \<and> rec h' = rec h \<and> k \<noteq> K_guard \<and> f = None)"

lemma calm_flows:
  assumes "k = scan_kind j"
  shows "calm k None h (sweep j hs kept ps n h)" "calm k None h (scan_done j h)"
    "calm k None h (adopt_next j b h)" "calm k None h (snapshot_next j q hs h)"
proof -
  have k: "k \<noteq> K_guard" using assms by (cases j) simp_all
  show sw: "calm k None h (sweep j hs kept ps n h)" for hs kept ps n
    using sweep_flow [of j hs kept ps n h] k assms by (auto simp: calm_def domain_ok_def)
  show sd: "calm k None h (scan_done j h)"
    using scan_done_flow [of j h] k assms by (auto simp: calm_def domain_ok_def)
  show "calm k None h (adopt_next j b h)"
    using sd k assms by (auto simp: adopt_next_def calm_def domain_ok_def split: option.split)
  show "calm k None h (snapshot_next j q hs h)"
    using sw k assms by (auto simp: snapshot_next_def calm_def domain_ok_def split: option.split)
qed

lemma calm_leave: "calm K_exit None h (leave h)"
  using leave_flow [of h] by (auto simp: calm_def domain_ok_def fresh_cache_def)

lemma calm_bag: "calm k f (h\<lparr>bag := b\<rparr>) y = calm k f h y"
  by (simp add: calm_def)

lemma resume_calm:
  assumes "domain_ok k d h" "\<not> exchanges d"
  shows "calm k (fresh_record d) h (domain_resume d x h)"
proof (cases d)
  case (Sc_adopt j)
  then show ?thesis using assms calm_flows(3) [of k j] by (simp add: domain_ok_def)
next
  case (Sc_odelete j b n)
  then show ?thesis using assms calm_flows(3) [of k j] by (simp add: domain_ok_def)
next
  case (Sc_head j)
  then show ?thesis using assms calm_flows(4) [of k j] by (simp add: domain_ok_def)
next
  case (Sc_next j r hs)
  then show ?thesis using assms calm_flows(4) [of k j] by (simp add: domain_ok_def)
next
  case (Sc_free j hs kept p rest n)
  then show ?thesis using assms calm_flows(1) [of k j] by (simp add: domain_ok_def)
next
  case (Sc_count j n)
  then show ?thesis using assms calm_flows(2) [of k j] by (simp add: domain_ok_def)
next
  case (O_cas b e)
  then show ?thesis using assms calm_leave by (simp add: domain_ok_def calm_def)
next
  case (A_head)
  then show ?thesis using assms by (auto simp: domain_ok_def calm_def try_record_def split: option.split)
next
  case (A_next r)
  then show ?thesis using assms by (auto simp: domain_ok_def calm_def try_record_def split: option.split)
qed (use assms in \<open>auto simp: domain_ok_def calm_def\<close>)

section \<open>One step\<close>

definition taken :: "(domain_loc, 'a cell) memory \<Rightarrow> nat \<Rightarrow> bool" where
  "taken M r \<longleftrightarrow> live M (Aux (Active r)) \<and> newest M (Aux (Active r)) = Flag True"

text \<open>A step may give up a record, or take one nobody has.\<close>

definition fair :: "(domain_loc, 'a cell) memory \<Rightarrow> (domain_loc, 'a cell) memory
    \<Rightarrow> nat option \<Rightarrow> nat option \<Rightarrow> bool" where
  "fair M M' r r' \<longleftrightarrow>
     (\<forall>x. r' = Some x \<and> r \<noteq> Some x \<longrightarrow> \<not> taken M x \<and> taken M' x) \<and>
     (\<forall>x. taken M x \<and> (r = Some x \<longrightarrow> r' = Some x) \<longrightarrow> taken M' x)"

lemma fair_calm:
  assumes "\<And>x. taken M' x = taken M x" "r' = r \<or> r' = None"
  shows "fair M M' r r'"
  using assms by (auto simp: fair_def)

lemma continue_ok: "rec h \<noteq> None \<Longrightarrow> queue_ok (continue k p) h"
  by (cases k) simp_all

lemma queue_next_ok:
  assumes "queue_ok p h" "domain_of (In_queue p) = None" "\<And>x k. p \<noteq> Start x k"
  shows "queue_ok (queue_next p y) h" "domain_of (In_queue (queue_next p y)) = None"
    "queue_resume R (p, h) y = (queue_next p y, h)"
  using assms by (cases p; auto)+

lemma domain_of_continue: "domain_of (In_queue (continue k p)) = None"
  by (cases k) simp_all

lemma start_op_ok:
  assumes "queue_ok (Start x k) h" "queue_resume hp_reclaimer (Start x k, h) y = (p', h')"
  shows "queue_ok p' h'" "in_hand (In_queue p', h') = in_hand (In_queue (Start x k), h)"
proof -
  have "queue_ok p' h' \<and> in_hand (In_queue p', h') = in_hand (In_queue (Start x k), h)"
  proof (cases x)
    case Guard
    then show ?thesis using assms
      by (cases "rec h") (auto simp: hp_reclaimer_def in_hand_def domain_ok_def fresh_in_hand_def continue_ok)
  qed (use assms in \<open>auto simp: hp_reclaimer_def in_hand_def domain_ok_def record_of_def fresh_in_hand_def\<close>)
  then show "queue_ok p' h'" "in_hand (In_queue p', h') = in_hand (In_queue (Start x k), h)" by auto
qed

lemma hands:
  "in_hand (Draining d, h) = (case rec h of Some r \<Rightarrow> Some r | None \<Rightarrow> fresh_record d)"
  "in_hand (Leaving d, h) = (case rec h of Some r \<Rightarrow> Some r | None \<Rightarrow> fresh_record d)"
  "in_hand (In_queue (Call d k), h) = (case rec h of Some r \<Rightarrow> Some r | None \<Rightarrow> fresh_record d)"
  "in_hand (In_queue (continue k p), h) = rec h" "in_hand (Answering y, h) = rec h"
  by (simp_all add: in_hand_def fresh_in_hand_def domain_of_continue split: option.splits)

lemma hand_outside: "domain_of p = None \<Longrightarrow> in_hand (p, h) = rec h"
  by (simp add: in_hand_def fresh_in_hand_def split: option.splits)

text \<open>The client around a flow of the domain.\<close>

fun place_of :: "'a client_pc \<Rightarrow> kind" where
  "place_of (In_queue (Call d k)) = cont_kind k"
| "place_of (Leaving d) = K_exit"
| "place_of p = K_drain"

lemma domain_client_ok:
  "domain_of p = Some d \<Longrightarrow> client_ok (p, h) \<Longrightarrow>
     domain_ok (place_of p) d h \<and>
     (\<forall>e k. p = In_queue (Call e k) \<and> cont_kind k \<noteq> K_guard \<longrightarrow> rec h \<noteq> None)"
  by (cases p rule: domain_of.cases) auto

lemma client_calm:
  assumes d: "domain_of p = Some d" and ok: "client_ok (p, h)" and x: "\<not> exchanges d"
  shows "client_ok (client_resume (p, h) y)" "in_hand (client_resume (p, h) y) = in_hand (p, h)"
proof -
  have cm: "calm (place_of p) (fresh_record d) h (domain_resume d y h)"
    using resume_calm [OF _ x] domain_client_ok [OF d ok] by blast
  have "client_ok (client_resume (p, h) y) \<and> in_hand (client_resume (p, h) y) = in_hand (p, h)"
    using d
  proof (cases p rule: domain_of.cases)
    case (1 e k)
    then show ?thesis using cm d domain_client_ok [OF d ok]
      by (auto simp: calm_def hp_reclaimer_def hands split: option.splits intro!: continue_ok)
  qed (use cm d in \<open>auto simp: calm_def hands split: option.splits\<close>)
  then show "client_ok (client_resume (p, h) y)" "in_hand (client_resume (p, h) y) = in_hand (p, h)"
    by auto
qed

text \<open>Accesses that leave every \<^verbatim>\<open>active\<close> flag alone.\<close>

lemma queue_writes:
  "domain_of (In_queue p) = None \<Longrightarrow> Aux l \<notin> writes (queue_act w hp_reclaimer p) c"
  by (cases p) (auto simp: deref_def make_node_def split: option.split)

lemma domain_writes: "\<not> exchanges d \<Longrightarrow> Aux (Active r) \<notin> writes (domain_act d) c"
  by (cases d) (auto simp: delete_node_def make_orphan_def split: option.split)

lemma client_writes:
  "(\<And>d. domain_of (fst p) = Some d \<Longrightarrow> \<not> exchanges d) \<Longrightarrow> Aux (Active r) \<notin> writes (client_act w p) c"
proof (induction w p rule: client_act.induct)
  case (1 w p h)
  then show ?case
    using queue_writes [of p "Active r" w c] domain_writes
    by (cases p) (auto simp: hp_reclaimer_def)
qed (auto simp: domain_writes)

lemma taken_frame:
  assumes "mem_wf M" "mem_step t (client_act w p) c M = Done y M'"
    "\<And>d. domain_of (fst p) = Some d \<Longrightarrow> \<not> exchanges d"
  shows "taken M' r = taken M r"
  using now_frame [OF assms(1,2) client_writes [OF assms(3)]] by (simp add: taken_def)

lemma cont_not_exit: "cont_kind k \<noteq> K_exit"
  by (cases k) simp_all

lemma exchange_step:
  assumes wf: "mem_wf M" and d: "domain_of p = Some d" and ok: "client_ok (p, h)" and x: "exchanges d"
    and st: "mem_step t (domain_act d) c M = Done y M'"
  shows "client_ok (client_resume (p, h) y)"
    "fair M M' (in_hand (p, h)) (in_hand (client_resume (p, h) y))"
proof -
  have dk: "domain_ok (place_of p) d h" using domain_client_ok [OF d ok] by blast
  have "client_ok (client_resume (p, h) y) \<and> fair M M' (in_hand (p, h)) (in_hand (client_resume (p, h) y))"
  proof (cases d)
    case (A_try r)
    then obtain k where p: "p = In_queue (Call (A_try r) k)" "cont_kind k = K_guard" "rec h = None"
      using d dk by (cases p rule: domain_of.cases) (auto simp: domain_ok_def)
    show ?thesis
      using now_cas [OF wf st [unfolded A_try domain_act.simps]] p
      by (auto simp: hp_reclaimer_def hands fair_def taken_def got_record_def domain_ok_def intro!: continue_ok)
  next
    case A_new
    then obtain k where p: "p = In_queue (Call A_new k)" "cont_kind k = K_guard" "rec h = None"
      using d dk by (cases p rule: domain_of.cases) (auto simp: domain_ok_def)
    show ?thesis
      using now_new [OF st [unfolded A_new domain_act.simps]] p
      by (simp add: hp_reclaimer_def hands fair_def taken_def domain_ok_def make_record_def)
  next
    case (A_push r e)
    then obtain k where p: "p = In_queue (Call (A_push r e) k)" "cont_kind k = K_guard" "rec h = None"
      using d dk by (cases p rule: domain_of.cases) (auto simp: domain_ok_def)
    show ?thesis
      using now_cas [OF wf st [unfolded A_push domain_act.simps]] p
      by (auto simp: hp_reclaimer_def hands fair_def taken_def got_record_def domain_ok_def intro!: continue_ok)
  next
    case (X_release r)
    then have r: "place_of p = K_exit" "rec h = Some r"
      using dk by (auto simp: domain_ok_def)
    then have p: "p = Leaving (X_release r)"
      using d X_release by (cases p rule: domain_of.cases) (simp_all add: cont_not_exit)
    show ?thesis
      using now_store [OF st [unfolded X_release domain_act.simps]] p r
      by (auto simp: hands fair_def taken_def fresh_cache_def)
  qed (use x in simp_all)
  then show "client_ok (client_resume (p, h) y)"
    "fair M M' (in_hand (p, h)) (in_hand (client_resume (p, h) y))" by auto
qed

lemma client_step:
  assumes wf: "mem_wf M" and ok: "client_ok (p, h)"
    and st: "mem_step t (client_act w (p, h)) c M = Done y M'"
  shows "client_ok (client_resume (p, h) y) \<and> fair M M' (in_hand (p, h)) (in_hand (client_resume (p, h) y))"
proof (cases "domain_of p")
  case None
  have "client_ok (client_resume (p, h) y) \<and>
      (in_hand (client_resume (p, h) y) = in_hand (p, h) \<or> in_hand (client_resume (p, h) y) = None)"
  proof (cases p)
    case (In_queue q)
    show ?thesis
    proof (cases "\<exists>x k. q = Start x k")
      case True
      then obtain x k where q: "q = Start x k" by blast
      obtain p' h' where r: "queue_resume hp_reclaimer (Start x k, h) y = (p', h')" by (metis surj_pair)
      show ?thesis using start_op_ok [OF _ r] ok In_queue q r by simp
    next
      case False
      then show ?thesis
        using queue_next_ok(1,2) [of q h y] queue_next_ok(3) [of q h hp_reclaimer y] None ok In_queue
        by (simp add: hand_outside)
    qed
  qed (use None ok in \<open>simp_all add: hand_outside\<close>)
  then show ?thesis
    using taken_frame [OF wf st] None fair_calm [of M' M] by simp
next
  case (Some d)
  have act: "client_act w (p, h) = domain_act d"
    using Some by (cases p rule: domain_of.cases) (auto simp: hp_reclaimer_def)
  show ?thesis
  proof (cases "exchanges d")
    case True
    then show ?thesis using exchange_step [OF wf Some ok True] st act by simp
  next
    case False
    then show ?thesis
      using client_calm [OF Some ok False] taken_frame [OF wf st] Some fair_calm [of M' M] by simp
  qed
qed

section \<open>Every reachable state\<close>

definition records_inv :: "'a hp_state \<Rightarrow> bool" where
  "records_inv s \<longleftrightarrow> mem_wf (mem s) \<and>
     (\<forall>t. client_ok (thr s t) \<and> (\<forall>r. in_hand (thr s t) = Some r \<longrightarrow> taken (mem s) r)) \<and>
     (\<forall>t u r. in_hand (thr s t) = Some r \<and> in_hand (thr s u) = Some r \<longrightarrow> t = u)"

lemma records_step:
  assumes inv: "records_inv s" and at: "thr s t = c" and wf: "mem_wf M'"
    and ok: "client_ok c'" and f: "fair (mem s) M' (in_hand c) (in_hand c')"
  shows "records_inv \<lparr>mem = M', thr = (thr s)(t := c'), trace = tr\<rparr>"
proof -
  have excl: "in_hand (thr s u) = Some r \<Longrightarrow> in_hand (thr s v) = Some r \<Longrightarrow> u = v" for u v r
    using inv unfolding records_inv_def by blast
  have tk: "in_hand (thr s u) = Some r \<Longrightarrow> taken (mem s) r" for u r
    using inv unfolding records_inv_def by blast
  have new: "in_hand c' = Some r \<Longrightarrow> in_hand c \<noteq> Some r \<Longrightarrow> \<not> taken (mem s) r \<and> taken M' r" for r
    using f unfolding fair_def by blast
  have keep: "taken (mem s) r \<Longrightarrow> in_hand c \<noteq> Some r \<or> in_hand c' = Some r \<Longrightarrow> taken M' r" for r
    using f unfolding fair_def by blast
  have other: "in_hand (thr s u) = Some r \<Longrightarrow> u \<noteq> t \<Longrightarrow> in_hand c \<noteq> Some r \<and> in_hand c' \<noteq> Some r" for u r
    using excl [of u r t] new [of r] tk [of u r] at by blast
  let ?th = "(thr s)(t := c')"
  have "in_hand (?th u) = Some r \<longrightarrow> taken M' r" for u r
  proof (cases "u = t")
    case True
    then show ?thesis using keep [of r] new [of r] tk [of t r] at by (cases "in_hand c = Some r") simp_all
  next
    case False
    then show ?thesis using keep [of r] tk [of u r] other [of u r] by simp
  qed
  moreover have "in_hand (?th u) = Some r \<and> in_hand (?th v) = Some r \<longrightarrow> u = v" for u v r
    using other [of u r] other [of v r] excl [of u r v] by (cases "u = t"; cases "v = t") (simp_all, blast+)
  moreover have "client_ok (?th u)" for u
    using inv ok by (simp add: records_inv_def)
  ultimately show ?thesis
    unfolding records_inv_def state.simps using wf by (intro conjI allI) assumption+
qed

lemma call_ok_hand:
  assumes "client_ok c" "client_call t x c = Some (c', es)"
  shows "client_ok c'" "in_hand c' = in_hand c"
proof -
  have "client_ok c' \<and> in_hand c' = in_hand c"
    using assms
  proof (induction t x c rule: client_call.induct)
    case (1 t x p h)
    from "1.prems" obtain q g where q: "queue_call t x (p, h) = Some ((q, h), g)" "c' = (In_queue q, h)"
      by (auto elim!: queue_call.elims)
    moreover from q(1) have "queue_ok q h" "domain_of (In_queue q) = None" "domain_of (In_queue p) = None"
      by (auto elim!: queue_call.elims)
    ultimately show ?case using q(2) by (simp add: hand_outside)
  next
    case (5 t h)
    then have c': "c' = leave_thread h" by simp
    show ?case
    proof (cases "bag h = []")
      case True
      then show ?thesis
        using leave_flow [of h] c'
        by (auto simp: leave_thread_def hands hand_outside domain_ok_def fresh_cache_def split: option.split
            simp del: leave.simps)
    next
      case False
      then show ?thesis using c'
        by (simp add: leave_thread_def hands hand_outside domain_ok_def split: option.split)
    qed
  qed (auto simp: in_hand_def domain_ok_def fresh_in_hand_def split: option.split)
  then show "client_ok c'" "in_hand c' = in_hand c" by auto
qed

lemma records_exec:
  assumes inv: "records_inv s" and ex: "exec (hp_queue w) c s = Running s'"
  shows "records_inv s'"
proof (cases c)
  case (Step t k b)
  obtain p h where at: "thr s t = (p, h)" by (metis surj_pair)
  have ok: "client_ok (p, h)" and wf: "mem_wf (mem s)" using inv at by (auto simp: records_inv_def dest: spec [of _ t])
  show ?thesis
  proof (cases "mem_step t (client_act w (p, h)) (k, b) (mem s)")
    case (Done y M')
    then have s': "s' = \<lparr>mem = M', thr = (thr s)(t := client_resume (p, h) y),
        trace = trace s @ client_log t (p, h) y (mem s)\<rparr>"
      using ex Step at by (simp add: hp_queue_def)
    show ?thesis
      unfolding s' using client_step [OF wf ok Done] wf_mem_step [OF wf Done]
      by (intro records_step [OF inv at]) auto
  qed (use ex Step at inv in \<open>simp_all add: hp_queue_def\<close>)
next
  case (Invoke t x)
  show ?thesis
  proof (cases "client_call t x (thr s t)")
    case None
    then show ?thesis using ex Invoke inv by (simp add: hp_queue_def)
  next
    case (Some z)
    then obtain c' es where z: "client_call t x (thr s t) = Some (c', es)" by (metis surj_pair)
    then have s': "s' = \<lparr>mem = mem s, thr = (thr s)(t := c'), trace = trace s @ es\<rparr>"
      using ex Invoke by (cases s) (simp add: hp_queue_def)
    have "client_ok (thr s t)" "mem_wf (mem s)" using inv by (auto simp: records_inv_def)
    then show ?thesis
      unfolding s' using call_ok_hand [OF _ z]
      by (intro records_step [OF inv refl]) (auto intro: fair_calm)
  qed
next
  case (Sync t u)
  then have "s' = s \<or> s' = s\<lparr>mem := synchronize t u (mem s)\<rparr>" using ex by (auto split: if_splits)
  then show ?thesis
    using inv by (auto simp: records_inv_def taken_def now_synchronize wf_synchronize)
qed

lemma records_start: "records_inv (hp_queue_start dflt a)"
  using hp_queue_start_wf [of dflt a]
  by (simp add: records_inv_def) (simp add: hp_queue_start_def in_hand_def fresh_in_hand_def fresh_cache_def)

lemma records_reach: "reach (hp_queue w) (hp_queue_start dflt a) s \<Longrightarrow> records_inv s"
  by (induction rule: reach.induct) (auto intro: records_start records_exec)

lemma hp_reach_run: "run (hp_queue w) cs (hp_queue_start dflt a) = Running s \<Longrightarrow> records_inv s"
  by (rule records_reach [OF run_reach [OF reach_start]])

text \<open>
  C17. Record ownership: whatever the schedule, a hazard record is in the hands of at most one
  thread (from its allocation or the compare-exchange that takes it, to the store that releases
  it), and its \<^verbatim>\<open>active\<close> flag is set all that time.
\<close>

theorem record_exclusive:
  assumes "reach (hp_queue w) (hp_queue_start dflt a) s" and "in_hand (thr s t) = Some r" and "u \<noteq> t"
  shows "in_hand (thr s u) \<noteq> Some r \<and> newest (mem s) (Aux (Active r)) = Flag True"
  using records_reach [OF assms(1)] assms(2,3) unfolding records_inv_def taken_def by blast

theorem record_exclusive_witness:
  "\<exists>s. in_hand (thr (s :: nat hp_state) 1) = Some 20 \<and> in_hand (thr s 2) \<noteq> Some 20"
proof -
  obtain s where s: "reach (hp_queue shipped) (hp_queue_start (0 :: nat) 7) s"
    "thr s 1 = (In_queue (Call (P_load 20 0 Tail) (KE_protect 9)), \<lparr>rec = Some 20, bag = []\<rparr>)"
    by (rule observe_reach [OF trans [OF hp_observe hp_two_table(1)]]) blast
  then have "in_hand (thr s 1) = Some 20" by (simp add: in_hand_def)
  then show ?thesis using record_exclusive [OF s(1), of 1 20 2] by auto
qed

text \<open>
  Single writer: a thread about to store into a slot, or to release a record, holds that
  record, so a slot only ever changes by the thread that holds its record, and a scan that reads
  the slots reads one thread's protocol at a time.
\<close>

lemma slot_single_writer:
  assumes "reach (hp_queue w) (hp_queue_start dflt a) s"
    and "client_act w (thr s t) = Store (Aux l) v mo"
  shows "\<exists>r. (l = Active r \<or> (\<exists>i. l = Slot_of r i)) \<and> rec (snd (thr s t)) = Some r"
proof -
  obtain p h where at: "thr s t = (p, h)" by (metis surj_pair)
  have ok: "client_ok (p, h)" using records_reach [OF assms(1)] at by (auto simp: records_inv_def dest: spec [of _ t])
  show ?thesis
  proof (cases "domain_of p")
    case None
    then have "Aux l \<notin> writes (client_act w (p, h)) 0"
      using queue_writes [of _ l w 0] by (cases p) auto
    then show ?thesis using assms(2) at by simp
  next
    case (Some d)
    have act: "domain_act d = Store (Aux l) v mo"
      using assms(2) at Some by (cases p rule: domain_of.cases) (auto simp: hp_reclaimer_def)
    then have "\<exists>r. (l = Active r \<or> (\<exists>i. l = Slot_of r i)) \<and> writes_record d = Some r"
      by (cases d) (auto simp: delete_node_def split: option.splits)
    then show ?thesis using domain_client_ok [OF Some ok] at by (auto simp: domain_ok_def)
  qed
qed

end
