(* ===== verification/Hp_Scan.thy ===== *)
theory Hp_Scan imports Hazard_Pointer begin

text \<open>
  The sequential content of \<^verbatim>\<open>hp_domain::scan\<close>: what the search answers, what the free loop
  frees and keeps, how much it must free, and what the counters report.
\<close>

section \<open>The search\<close>

lemma binary_search_sorted: "sorted xs \<Longrightarrow> binary_search xs x \<longleftrightarrow> x \<in> set xs"
proof (induction xs x rule: binary_search.induct)
  case (1 xs x)
  show ?case
  proof (cases "xs = []")
    case True
    then show ?thesis by (simp add: binary_search.simps [of "[]"])
  next
    case False
    let ?m = "length xs div 2"
    have m: "?m < length xs" using False by simp
    have split: "xs = take ?m xs @ xs ! ?m # drop (Suc ?m) xs"
      using m by (rule id_take_nth_drop)
    then have mem: "x \<in> set xs \<longleftrightarrow> x \<in> set (take ?m xs) \<or> x = xs ! ?m \<or> x \<in> set (drop (Suc ?m) xs)"
      by (metis Un_iff insert_iff list.simps(15) set_append)
    have "sorted (take ?m xs @ xs ! ?m # drop (Suc ?m) xs)" using "1.prems" split by simp
    then have parts: "sorted (take ?m xs)" "sorted (drop (Suc ?m) xs)"
      "\<forall>y \<in> set (take ?m xs). y \<le> xs ! ?m" "\<forall>y \<in> set (drop (Suc ?m) xs). xs ! ?m \<le> y"
      by (auto simp: sorted_append)
    consider "xs ! ?m = x" | "xs ! ?m < x" | "x < xs ! ?m" by linarith
    then show ?thesis
    proof cases
      case 1
      then show ?thesis using False mem by (simp add: binary_search.simps [of xs] Let_def)
    next
      case 2
      then have "binary_search xs x = binary_search (drop (Suc ?m) xs) x"
        using False by (simp add: binary_search.simps [of xs] Let_def)
      then show ?thesis using "1.IH"(1) [OF False refl] 2 parts(2,3) mem by force
    next
      case 3
      then have "binary_search xs x = binary_search (take ?m xs) x"
        using False by (simp add: binary_search.simps [of xs] Let_def)
      then show ?thesis using "1.IH"(2) [OF False refl] 3 parts(1,4) mem by force
    qed
  qed
qed

lemma protected_by_sort: "protected_by (sort hs) = (\<lambda>p. p \<in> Some ` set hs)"
  by (auto simp: protected_by_def binary_search_sorted fun_eq_iff split: option.splits)

section \<open>The free loop\<close>

text \<open>Running the loop on its own: the nodes it deletes, in order, and where it ends.\<close>

fun free_loop :: "nat \<Rightarrow> domain_flow \<Rightarrow> nat option list \<times> domain_flow" where
  "free_loop fuel (h, Inl (Sc_free k hs kept p rest n)) =
     (case fuel of
        0 \<Rightarrow> ([], (h, Inl (Sc_free k hs kept p rest n)))
      | Suc f \<Rightarrow>
          (let (fs, y) = free_loop f (domain_resume (Sc_free k hs kept p rest n) (Unit :: unit cell result) h)
           in (p # fs, y)))"
| "free_loop fuel y = ([], y)"

lemma free_loop_sweep:
  "length ps \<le> fuel \<Longrightarrow>
     free_loop fuel (sweep k hs kept ps n h) =
       (filter (\<lambda>p. \<not> protected_by hs p) ps,
        (h\<lparr>bag := kept @ filter (protected_by hs) ps\<rparr>,
         Inl (Sc_count k (n + of_nat (length (filter (\<lambda>p. \<not> protected_by hs p) ps))))))"
proof (induction ps arbitrary: kept n fuel)
  case (Cons p ps)
  then show ?case
    by (cases fuel) (auto simp: algebra_simps)
qed simp

text \<open>
  C19.  A scan frees exactly the retired nodes that no hazard of its snapshot names, in the order
  of the bag, keeps the others in order, and adds the number it freed to the counter.
\<close>

theorem scan_frees_unprotected:
  "free_loop (length (bag h)) (snapshot_next k None hs h) =
     (filter (\<lambda>p. p \<notin> Some ` set hs) (bag h),
      (h\<lparr>bag := filter (\<lambda>p. p \<in> Some ` set hs) (bag h)\<rparr>,
       Inl (Sc_count k (of_nat (length (filter (\<lambda>p. p \<notin> Some ` set hs) (bag h)))))))"
  by (simp add: snapshot_next_def free_loop_sweep protected_by_sort)

section \<open>How much a scan frees\<close>

lemma kept_le_hazards:
  assumes "distinct ps"
  shows "length (filter (\<lambda>p. p \<in> Some ` set hs) ps) \<le> length hs"
proof -
  have "length (filter (\<lambda>p. p \<in> Some ` set hs) ps) = card (set (filter (\<lambda>p. p \<in> Some ` set hs) ps))"
    by (rule distinct_card [symmetric]) (simp add: assms)
  also have "\<dots> \<le> card (Some ` set hs)" by (rule card_mono) auto
  also have "\<dots> \<le> length hs" by (metis card_image_le card_length finite_set le_trans)
  finally show ?thesis .
qed

lemma unat_scan_threshold:
  assumes "unat n < 2 ^ 62"
  shows "unat (scan_threshold n) = max 64 (4 * unat n)"
proof -
  have "unat (4 * n) = 4 * unat n" using assms by (simp add: unat_word_ariths)
  then show ?thesis
    by (simp add: scan_threshold_def kSlots_def max_def word_le_nat_alt)
qed

text \<open>
  The garbage bound: a scan that \<^verbatim>\<open>retire\<close> starts (the bag has reached the threshold)
  finds at most \<^verbatim>\<open>kSlots\<close> hazards per record, so of distinct retired nodes it keeps at
  most half.
\<close>

lemma scan_frees_half:
  assumes "distinct (bag h)" and "unat n < 2 ^ 62" and "length hs \<le> kSlots * unat n"
    and "domain_resume R_threshold (Val (Num n)) h = (h, Inl (Sc_adopt For_retire))"
  shows "2 * length (filter (\<lambda>p. p \<in> Some ` set hs) (bag h)) \<le> length (bag h)"
proof -
  have "max 64 (4 * unat n) \<le> length (bag h)"
    using assms(4) unat_scan_threshold [OF assms(2)] by (simp split: if_splits)
  moreover have "length (filter (\<lambda>p. p \<in> Some ` set hs) (bag h)) \<le> 2 * unat n"
    using kept_le_hazards [OF assms(1), of hs] assms(3) by (simp add: kSlots_def)
  ultimately show ?thesis by simp
qed

lemma scan_frees_half_witness:
  "2 * length (filter (\<lambda>p. p \<in> Some ` set [3, 5]) (map Some [0 ..< 64])) \<le> length (map Some [0 ..< 64 :: nat])"
  using scan_frees_half [of "\<lparr>rec = Some 20, bag = map Some [0 ..< 64]\<rparr>" 1 "[3, 5]"]
  by (simp add: distinct_map kSlots_def scan_threshold_def del: upt_rec_numeral)

section \<open>The counters\<close>

text \<open>
  \<^verbatim>\<open>in_flight\<close> never wraps: whatever two counter values the sampler read, it reports
  their difference, or zero when the sample of \<^verbatim>\<open>freed\<close> is ahead.
\<close>

lemma in_flight_clamped: "unat (clamp retired freed) = unat retired - unat freed"
  by (auto simp: clamp_def word_less_nat_alt unat_sub word_le_nat_alt)

end
