(* ===== verification/Hp_Typed.thy ===== *)
theory Hp_Typed imports Hp_Runs begin

text \<open>
  The types of the atomics.  The C++ declarations give every location a type
  (\<^verbatim>\<open>atomic<node*>\<close>, \<^verbatim>\<open>atomic<void*>\<close>, \<^verbatim>\<open>atomic<bool>\<close>,
  \<^verbatim>\<open>atomic<size_t>\<close>, the element type); the model keeps cells of all types in one memory.
  No message of the wrong type is ever written, so a load yields a cell of the type its program
  point expects, and the projections \<open>ptr\<close>, \<open>dat\<close> and \<open>num\<close> never fall back to a
  default.
\<close>

section \<open>Types\<close>

datatype cell_type = Pointer | Datum | Boolean | Counter

fun type_of :: "domain_loc \<Rightarrow> cell_type" where
  "type_of Head = Pointer"
| "type_of Tail = Pointer"
| "type_of (Next a) = Pointer"
| "type_of (Value a) = Datum"
| "type_of (Aux (Slot_of r i)) = Pointer"
| "type_of (Aux (Active r)) = Boolean"
| "type_of (Aux (Next_record r)) = Pointer"
| "type_of (Aux (Orphan_item b)) = Pointer"
| "type_of (Aux (Orphan_next b)) = Pointer"
| "type_of (Aux Records) = Pointer"
| "type_of (Aux Orphans) = Pointer"
| "type_of (Aux Nrecords) = Counter"
| "type_of (Aux Retired_count) = Counter"
| "type_of (Aux Freed_count) = Counter"

inductive has_type :: "'a cell \<Rightarrow> cell_type \<Rightarrow> bool" where
  ty_ptr: "has_type (Ptr p) Pointer"
| ty_dat: "has_type (Dat v) Datum"
| ty_flag: "has_type (Flag b) Boolean"
| ty_num: "has_type (Num n) Counter"

declare has_type.intros [intro!, simp]

inductive_cases has_typeE: "has_type c Pointer" "has_type c Datum" "has_type c Boolean" "has_type c Counter"

inductive_simps has_type_simps [simp]: "has_type (Ptr p) T" "has_type (Dat v) T" "has_type (Flag b) T" "has_type (Num n) T"

abbreviation fits :: "domain_loc \<Rightarrow> 'a cell \<Rightarrow> bool" where
  "fits l c \<equiv> has_type c (type_of l)"

definition typed :: "(domain_loc, 'a cell) memory \<Rightarrow> bool" where
  "typed M \<longleftrightarrow> (\<forall>l g. \<forall>m \<in> set (hist M l g). fits l (fst m))"

text \<open>What an action may write, and the type of its result.\<close>

fun writes_typed :: "(domain_loc, 'a cell) action \<Rightarrow> bool" where
  "writes_typed (Store l v mo) \<longleftrightarrow> fits l v"
| "writes_typed (Cas weak l e d smo fmo) \<longleftrightarrow> fits l d"
| "writes_typed (Rmw l f mo) \<longleftrightarrow> (\<forall>v. fits l v \<longrightarrow> fits l (f v))"
| "writes_typed (Write l v) \<longleftrightarrow> fits l v"
| "writes_typed (New f) \<longleftrightarrow> (\<forall>a. \<forall>lv \<in> set (f a). fits (fst lv) (snd lv))"
| "writes_typed _ \<longleftrightarrow> True"

fun result_typed :: "(domain_loc, 'a cell) action \<Rightarrow> 'a cell result \<Rightarrow> bool" where
  "result_typed (Load l mo) r \<longleftrightarrow> (\<exists>c. r = Val c \<and> fits l c)"
| "result_typed (Cas weak l e d smo fmo) r \<longleftrightarrow> (\<exists>b c. r = Swapped b c \<and> fits l c)"
| "result_typed (Rmw l f mo) r \<longleftrightarrow> (\<exists>c. r = Val c \<and> fits l c)"
| "result_typed (Read l) r \<longleftrightarrow> (\<exists>c. r = Val c \<and> fits l c)"
| "result_typed (New f) r \<longleftrightarrow> (\<exists>a. r = Addr a)"
| "result_typed _ r \<longleftrightarrow> r = Unit"

section \<open>Preservation\<close>

lemma typed_msg: "typed M \<Longrightarrow> 0 < k \<Longrightarrow> k \<le> latest M l \<Longrightarrow> fits l (fst (msgs M l ! (k - 1)))"
proof -
  assume "typed M" "0 < k" "k \<le> latest M l"
  moreover then have "msgs M l ! (k - 1) \<in> set (hist M l (gen M l))" by (simp add: msgs_def latest_def)
  ultimately show ?thesis unfolding typed_def by blast
qed

lemma typed_cong: "hist M' = hist M \<Longrightarrow> typed M' = typed M"
  by (simp add: typed_def)

lemma typed_write_next: "typed M \<Longrightarrow> fits l v \<Longrightarrow> typed (write_next t l v mo W M)"
  by (auto simp: typed_def write_next_hist msgs_def)

lemma typed_rmw_at: "typed M \<Longrightarrow> fits l v \<Longrightarrow> typed (rmw_at t l v mo M)"
  by (auto simp: typed_def rmw_at_hist msgs_def)

lemma typed_birth: "typed M \<Longrightarrow> fits (fst lv) (snd lv) \<Longrightarrow> typed (birth t lv M)"
  by (auto simp: typed_def birth_def Let_def)

lemma typed_fold_birth:
  "typed M \<Longrightarrow> \<forall>lv \<in> set fs. fits (fst lv) (snd lv) \<Longrightarrow> typed (fold (birth t) fs M)"
  by (induction fs arbitrary: M) (simp_all add: typed_birth)

lemma typed_step:
  assumes wf: "mem_wf M" and ty: "typed M" and st: "mem_step t x c M = Done r M'" and wt: "writes_typed x"
  shows "typed M'" "result_typed x r"
proof -
  have pos: "0 < seen M t l \<Longrightarrow> 0 < latest M l" for l by (rule latest_pos [OF wf])
  have last: "0 < seen M t l \<Longrightarrow> fits l (fst (msgs M l ! (latest M l - Suc 0)))" for l
    using typed_msg [OF ty pos order.refl] by simp
  have "typed M' \<and> result_typed x r"
  proof (cases x)
    case (Load l mo)
    then show ?thesis using st typed_msg [OF ty] typed_cong [of M' M]
      by (auto simp: load_Done ty elim: order.strict_trans2)
  next
    case (Cas w l e d smo fmo)
    then show ?thesis using st wt typed_msg [OF ty] ty
      by (auto simp: cas_Done Let_def typed_rmw_at typed_cong [of "read_at t l fmo k M" M for k]
          elim: order.strict_trans2)
  next
    case (New f)
    then show ?thesis using st wt ty by (auto simp: new_Done typed_fold_birth)
  next
    case (Delete ls)
    then show ?thesis using st ty
      by (auto simp: mem_step.simps(9) typed_cong [of "fold bury ls M" M] bury_parts split: if_splits)
  next
    case Fence
    then have "hist M' = hist M" "r = Unit" using st by (auto simp: sc_fence_def Let_def)
    then show ?thesis using Fence ty typed_cong [of M' M] by simp
  qed (use st wt ty last typed_cong [of "touch t l M" M for l] in
      \<open>auto simp: outcome_simps Let_def typed_rmw_at typed_write_next\<close>)
  then show "typed M'" "result_typed x r" by auto
qed

section \<open>Every program point writes what it may\<close>

lemma domain_typed: "writes_typed (domain_act d)"
  by (cases d) (auto simp: make_record_def make_orphan_def delete_node_def add_to_def split: option.split)

lemma client_typed: "writes_typed (client_act w p)"
proof (induction w p rule: client_act.induct)
  case (1 w p h)
  then show ?case
    by (cases p) (auto simp: deref_def make_node_def hp_reclaimer_def domain_typed split: option.split)
qed (simp_all add: domain_typed)

lemma perform_typed:
  "perform t xs M = Some M' \<Longrightarrow> mem_wf M \<Longrightarrow> typed M \<Longrightarrow> \<forall>x \<in> set xs. writes_typed (fst x) \<Longrightarrow> typed M'"
proof (induction xs arbitrary: M)
  case (Cons x xs)
  obtain a k where x: "x = (a, k)" by (meson surj_pair)
  obtain r M1 where st: "mem_step t a (k, True) M = Done r M1" and p: "perform t xs M1 = Some M'"
    using Cons.prems(1) x by (auto split: outcome.splits)
  show ?case
    by (rule Cons.IH [OF p wf_mem_step [OF Cons.prems(2) st] typed_step(1) [OF Cons.prems(2,3) st]])
      (use Cons.prems(4) x in simp_all)
qed simp

lemma start_typed: "typed (mem (hp_queue_start dflt a))"
proof -
  obtain M :: "(domain_loc, 'a cell) memory"
    where M: "perform 0 ((New (\<lambda>_. globals), 0) # constructor dflt a) blank = Some M"
    using hp_start_performs [of dflt a] by (elim exE)
  have "typed (blank :: (domain_loc, 'a cell) memory)" by (simp add: typed_def blank_def)
  then have "typed M"
    by (rule perform_typed [OF M wf_blank]) (simp add: constructor_def globals_def make_node_def)
  then show ?thesis using M typed_cong [of "share 0 M" M] by (simp add: hp_queue_start_def share_def)
qed

lemma exec_typed:
  assumes "mem_wf (mem s)" "typed (mem s)" "exec (hp_queue w) c s = Running s'"
  shows "mem_wf (mem s') \<and> typed (mem s')"
proof (cases c)
  case (Step t k b)
  let ?o = "mem_step t (client_act w (thr s t)) (k, b) (mem s)"
  show ?thesis
  proof (cases ?o)
    case (Done r M')
    then have "mem_wf M'" "typed M'"
      using wf_mem_step [OF assms(1)] typed_step(1) [OF assms(1,2) _ client_typed] by blast+
    then show ?thesis using Done assms(3) Step by (auto simp: hp_queue_def)
  qed (use assms Step in \<open>auto simp: hp_queue_def\<close>)
next
  case (Sync t u)
  then show ?thesis using assms typed_cong [of "synchronize t u (mem s)" "mem s"] wf_synchronize [of "mem s" t u]
    by (auto simp: synchronize_def split: if_splits)
qed (use assms in \<open>auto split: option.splits\<close>)

lemma reach_typed: "reach (hp_queue w) (hp_queue_start dflt a) s \<Longrightarrow> mem_wf (mem s) \<and> typed (mem s)"
proof (induction rule: reach.induct)
  case reach_start
  show ?case by (intro conjI hp_queue_start_wf start_typed)
next
  case (reach_step s c s')
  then show ?case using exec_typed by blast
qed

end
