(* ===== verification/Memory_Steps.thy ===== *)
theory Memory_Steps imports Memory_Quiet begin

text \<open>
  What one action does to a memory, for invariants that follow a location through its history: the
  locations an action does not write keep their history, those it writes only grow, and a property
  of views that survives joins survives every action.
\<close>

section \<open>Histories grow\<close>

lemma birth_hist_other: "l \<noteq> fst lv \<Longrightarrow> hist (birth t lv M) l = hist M l \<and> gen (birth t lv M) l = gen M l"
  by (simp add: birth_def Let_def)

lemma fold_birth_other:
  "l \<notin> fst ` set fs \<Longrightarrow> hist (fold (birth t) fs M) l = hist M l \<and> gen (fold (birth t) fs M) l = gen M l"
  by (induction fs arbitrary: M) (auto simp: birth_hist_other)

lemma step_frame:
  assumes "mem_wf M" "mem_step t x c M = Done r M'" "l \<notin> writes x (fst c)"
  shows "hist M' l = hist M l" "gen M' l = gen M l" "live M' l = live M l" "newest M' l = newest M l"
    "latest M' l = latest M l" "place M' l = place M l" "msgs M' l = msgs M l"
proof -
  have "hist M' l = hist M l \<and> gen M' l = gen M l"
  proof (cases x)
    case (New f)
    then show ?thesis using assms fold_birth_other [of l "f (fst c)" t M] by (auto simp: new_Done)
  next
    case (Cas w y e d smo fmo)
    then show ?thesis using assms by (auto simp: cas_Done Let_def rmw_at_hist)
  qed (use assms in \<open>auto simp: outcome_simps mem_step.simps(9) Let_def write_next_hist rmw_at_hist bury_parts
      fence_views split: if_splits\<close>)
  then show "hist M' l = hist M l" "gen M' l = gen M l" "latest M' l = latest M l" "place M' l = place M l"
    "msgs M' l = msgs M l"
    by (simp_all add: latest_def place_def msgs_def)
  show "live M' l = live M l" "newest M' l = newest M l" by (rule now_frame [OF assms])+
qed

lemma birth_grows: "mem_wf M \<Longrightarrow> \<exists>zs. hist (birth t lv M) l g = hist M l g @ zs"
  by (cases lv) (auto simp: birth_def Let_def mem_wf_def)

lemma fold_birth_grows: "mem_wf M \<Longrightarrow> \<exists>zs. hist (fold (birth t) fs M) l g = hist M l g @ zs"
proof (induction fs arbitrary: M)
  case (Cons f fs)
  obtain ys where ys: "hist (birth t f M) l g = hist M l g @ ys" using birth_grows [OF Cons.prems] by blast
  obtain zs where "hist (fold (birth t) fs (birth t f M)) l g = hist (birth t f M) l g @ zs"
    using Cons.IH [OF wf_birth [OF Cons.prems]] by blast
  then show ?case using ys by simp
qed simp

lemma step_grows:
  assumes "mem_wf M" "mem_step t x c M = Done r M'"
  shows "\<exists>zs. hist M' l g = hist M l g @ zs"
proof (cases x)
  case (New f)
  then show ?thesis using assms fold_birth_grows [of M t "f (fst c)" l g] by (auto simp: new_Done)
next
  case (Cas w y e d smo fmo)
  then show ?thesis using assms by (auto simp: cas_Done Let_def rmw_at_hist msgs_def)
qed (use assms in \<open>auto simp: outcome_simps mem_step.simps(9) Let_def write_next_hist rmw_at_hist bury_parts
    fence_views msgs_def split: if_splits\<close>)

lemma grown_nth: "\<exists>zs. ys = xs @ zs \<Longrightarrow> k < length xs \<Longrightarrow> ys ! k = xs ! k \<and> length xs \<le> length ys"
  by (auto simp: nth_append)

lemma step_nth:
  assumes "mem_wf M" "mem_step t x c M = Done r M'" "k < length (hist M l g)"
  shows "hist M' l g ! k = hist M l g ! k"
  using grown_nth [OF step_grows [OF assms(1,2), of l g]] assms(3) by blast

lemma step_length:
  assumes "mem_wf M" "mem_step t x c M = Done r M'"
  shows "length (hist M l g) \<le> length (hist M' l g)"
  using step_grows [OF assms, of l g] by auto

section \<open>Properties of all views\<close>

definition all_views :: "('l, 'v) memory \<Rightarrow> ('l view \<Rightarrow> bool) \<Rightarrow> bool" where
  "all_views M Q \<longleftrightarrow>
     (\<forall>t. Q (cur M t) \<and> Q (acq M t) \<and> Q (rel M t)) \<and> Q (scv M) \<and>
     (\<forall>l g. \<forall>m \<in> set (hist M l g). Q (snd m))"

text \<open>A property that joins, clocks and the views of new objects respect.\<close>

definition joinable :: "('l view \<Rightarrow> bool) \<Rightarrow> bool" where
  "joinable Q \<longleftrightarrow>
     Q blind \<and> (\<forall>V W. Q V \<longrightarrow> Q W \<longrightarrow> Q (sup V W)) \<and> (\<forall>V u n. Q V \<longrightarrow> Q (V(Clock u := n))) \<and>
     (\<forall>l g. Q (point (At l g) 1))"

lemma joinableD:
  assumes "joinable Q"
  shows "Q blind" "Q V \<Longrightarrow> Q W \<Longrightarrow> Q (sup V W)" "Q V \<Longrightarrow> Q (V(Clock u := n))" "Q (point (At l g) 1)"
  using assms by (auto simp: joinable_def)

lemma all_viewsD:
  assumes "all_views M Q"
  shows "Q (cur M t)" "Q (acq M t)" "Q (rel M t)" "Q (scv M)" "m \<in> set (hist M l g) \<Longrightarrow> Q (snd m)"
  using assms by (auto simp: all_views_def)

lemma all_views_touch: "joinable Q \<Longrightarrow> all_views M Q \<Longrightarrow> all_views (touch t l M) Q"
  by (auto simp: all_views_def joinableD touch_def Let_def)

lemma all_views_see: "joinable Q \<Longrightarrow> all_views M Q \<Longrightarrow> Q V \<Longrightarrow> all_views (see t V M) Q"
  by (auto simp: all_views_def joinableD)

lemma all_views_see_later: "joinable Q \<Longrightarrow> all_views M Q \<Longrightarrow> Q V \<Longrightarrow> all_views (see_later t V M) Q"
  by (auto simp: all_views_def joinableD)

text \<open>A read is harmless when its timestamp alone is, or when it acquires a message whose view
  covers for it.\<close>

lemma all_views_read_at:
  assumes q: "joinable Q" and v: "all_views M Q" and k: "0 < k" "k \<le> latest M l"
    and p: "Q (point (place M l) k) \<or>
      is_acq mo \<and> Q (sup (point (place M l) k) (snd (msgs M l ! (k - 1))))"
  shows "all_views (read_at t l mo k M) Q"
proof -
  let ?V = "snd (msgs M l ! (k - 1))" and ?P = "point (place M l) k"
  have m: "Q ?V"
  proof (rule all_viewsD(5) [OF v])
    show "msgs M l ! (k - 1) \<in> set (hist M l (gen M l))"
      using k by (simp add: latest_def msgs_def)
  qed
  note t = all_views_touch [OF q v, of t l]
  from p show ?thesis
  proof
    assume "Q ?P"
    then have "all_views (see t ?P (touch t l M)) Q" by (rule all_views_see [OF q t])
    then show ?thesis
      using m by (simp add: read_at_def Let_def all_views_see [OF q] all_views_see_later [OF q])
  next
    assume a: "is_acq mo \<and> Q (sup ?P ?V)"
    then have e: "see t ?V (see t ?P (touch t l M)) = see t (sup ?P ?V) (touch t l M)"
      by (simp add: see_def sup_assoc)
    moreover have "all_views (see t (sup ?P ?V) (touch t l M)) Q" using a by (intro all_views_see [OF q t]) blast
    ultimately have "all_views (see t ?V (see t ?P (touch t l M))) Q" by (simp only:)
    then show ?thesis using a unfolding read_at_def Let_def by (simp only: if_True)
  qed
qed

lemma all_views_push: "all_views M Q \<Longrightarrow> Q V \<Longrightarrow> all_views (push l v V M) Q"
  by (auto simp: all_views_def push_def msgs_def)

lemma all_views_write_next:
  assumes q: "joinable Q" and v: "all_views M Q" and W: "Q W"
    and p: "Q (point (place M l) (Suc (latest M l))) \<or>
      is_rel mo \<and> Q (sup (cur M t) (point (place M l) (Suc (latest M l)))) \<and>
        Q (sup (acq M t) (point (place M l) (Suc (latest M l))))"
  shows "all_views (write_next t l v mo W M) Q"
proof -
  let ?P = "point (place M l) (Suc (latest M l))"
  let ?M = "see t ?P M"
  have "Q (cur ?M t)" "Q (acq ?M t)" and rel: "is_rel mo \<or> Q ?P"
    using p all_viewsD [OF v] joinableD(2) [OF q] by auto
  then have "all_views ?M Q" using v by (auto simp: all_views_def)
  moreover have "Q (sup W (released t (place M l) (Suc (latest M l)) mo ?M))"
    using W rel \<open>Q (cur ?M t)\<close> all_viewsD(3) [OF v] joinableD(2) [OF q] by (auto simp: released_def)
  ultimately show ?thesis by (simp add: write_next_def Let_def all_views_push)
qed

lemma all_views_rmw_at:
  assumes q: "joinable Q" and v: "all_views M Q" and k: "0 < latest M l"
    and p: "\<And>k. Q (point (place M l) k)"
  shows "all_views (rmw_at t l x mo M) Q"
proof -
  have m: "Q (snd (msgs M l ! (latest M l - 1)))"
  proof (rule all_viewsD(5) [OF v])
    show "msgs M l ! (latest M l - 1) \<in> set (hist M l (gen M l))"
      using k by (simp add: latest_def msgs_def)
  qed
  show ?thesis
    unfolding rmw_at_def
  proof (rule all_views_write_next [OF q all_views_read_at [OF q v k order.refl] m])
    show "Q (point (place M l) (latest M l)) \<or>
        is_acq mo \<and> Q (sup (point (place M l) (latest M l)) (snd (msgs M l ! (latest M l - 1))))"
      using p by blast
    have "place (read_at t l mo (latest M l) M) l = place M l"
      "latest (read_at t l mo (latest M l) M) l = latest M l"
      by simp_all
    then show "Q (point (place (read_at t l mo (latest M l) M) l) (Suc (latest (read_at t l mo (latest M l) M) l))) \<or>
        is_rel mo \<and>
        Q (sup (cur (read_at t l mo (latest M l) M) t)
            (point (place (read_at t l mo (latest M l) M) l) (Suc (latest (read_at t l mo (latest M l) M) l)))) \<and>
        Q (sup (acq (read_at t l mo (latest M l) M) t)
            (point (place (read_at t l mo (latest M l) M) l) (Suc (latest (read_at t l mo (latest M l) M) l))))"
      using p by metis
  qed
qed

lemma all_views_fence: "joinable Q \<Longrightarrow> all_views M Q \<Longrightarrow> all_views (sc_fence t M) Q"
  by (auto simp: all_views_def joinableD sc_fence_def Let_def)

lemma all_views_birth: "joinable Q \<Longrightarrow> all_views M Q \<Longrightarrow> all_views (birth t lv M) Q"
  unfolding birth_def Let_def
  by (rule all_views_see) (auto simp: all_views_def joinableD(1) joinableD(4) [unfolded One_nat_def])

lemma all_views_fold_birth: "joinable Q \<Longrightarrow> all_views M Q \<Longrightarrow> all_views (fold (birth t) fs M) Q"
  by (induction fs arbitrary: M) (auto intro: all_views_birth)

lemma all_views_fold_bury: "all_views M Q \<Longrightarrow> all_views (fold bury ls M) Q"
proof (induction ls arbitrary: M)
  case (Cons l ls)
  then have "all_views (bury l M) Q" by (simp add: all_views_def bury_def)
  then show ?case using Cons.IH by simp
qed simp

lemma all_views_synchronize: "joinable Q \<Longrightarrow> all_views M Q \<Longrightarrow> all_views (synchronize t u M) Q"
  unfolding synchronize_def by (rule all_views_see) (auto simp: all_views_def)

text \<open>\<open>harmless\<close> says of an action what a property of views needs for it.\<close>

fun harmless :: "('l, 'v) memory \<Rightarrow> nat \<Rightarrow> ('l view \<Rightarrow> bool) \<Rightarrow> ('l, 'v) action \<Rightarrow> bool" where
  "harmless M t Q (Load l mo) \<longleftrightarrow>
     (\<forall>k. 0 < k \<and> k \<le> latest M l \<longrightarrow> Q (point (place M l) k) \<or>
        is_acq mo \<and> Q (sup (point (place M l) k) (snd (msgs M l ! (k - 1)))))"
| "harmless M t Q (Store l v mo) \<longleftrightarrow>
     Q (point (place M l) (Suc (latest M l))) \<or>
     is_rel mo \<and> (\<forall>V. Q V \<and> cur M t \<le> V \<longrightarrow> Q (sup V (point (place M l) (Suc (latest M l)))))"
| "harmless M t Q (Cas weak l e d smo fmo) \<longleftrightarrow> (\<forall>k. Q (point (place M l) k))"
| "harmless M t Q (Rmw l f mo) \<longleftrightarrow> (\<forall>k. Q (point (place M l) k))"
| "harmless M t Q (Write l v) \<longleftrightarrow> (\<forall>k. Q (point (place M l) k))"
| "harmless M t Q _ \<longleftrightarrow> True"

lemma all_views_step:
  assumes q: "joinable Q" and v: "all_views M Q" and wf: "mem_wf M" and lg: "lags M"
    and st: "mem_step t x c M = Done r M'" and h: "harmless M t Q x"
  shows "all_views M' Q"
proof (cases x)
  case (Load l mo)
  then show ?thesis
    using st h by (auto simp: load_Done intro!: all_views_read_at [OF q v] elim: order.strict_trans2)
next
  case (Store l y mo)
  have "cur M t \<le> cur (touch t l M) t" "cur M t \<le> acq (touch t l M) t"
    using lags_touch [OF lg, of t l] touch_mono [of M t t l] by (auto simp: lags_def intro: order.trans)
  then show ?thesis
    using st h Store all_viewsD [OF all_views_touch [OF q v, of t l]]
    by (auto simp: store_Done joinableD(1) [OF q] intro!: all_views_write_next [OF q all_views_touch [OF q v]])
next
  case (Cas w l e d smo fmo)
  have pos: "0 < latest M l" if "0 < seen M t l" using latest_pos [OF wf that] .
  then show ?thesis
    using st h Cas
    by (auto simp: cas_Done Let_def intro!: all_views_rmw_at [OF q v] all_views_read_at [OF q v]
        elim: order.strict_trans2)
next
  case (Rmw l f mo)
  then show ?thesis
    using st h latest_pos [OF wf] by (auto simp: rmw_Done Let_def intro!: all_views_rmw_at [OF q v])
next
  case (Write l y)
  then show ?thesis
    using st h joinableD(1) [OF q]
    by (auto simp: write_Done intro!: all_views_write_next [OF q all_views_touch [OF q v]])
next
  case (Read l)
  then show ?thesis using st by (auto simp: read_Done all_views_touch [OF q v])
next
  case (Delete ls)
  then show ?thesis using st by (auto simp: mem_step.simps(9) all_views_fold_bury [OF v] split: if_splits)
next
  case Skip
  then show ?thesis using st v by simp
qed (use st in \<open>auto simp: outcome_simps all_views_fence [OF q v] all_views_fold_birth [OF q v] intro: v\<close>)

section \<open>What a step reads, writes and records\<close>

fun touched :: "('l, 'v) action \<Rightarrow> 'l option" where
  "touched (Load l mo) = Some l"
| "touched (Store l v mo) = Some l"
| "touched (Cas weak l e d smo fmo) = Some l"
| "touched (Rmw l f mo) = Some l"
| "touched (Read l) = Some l"
| "touched (Write l v) = Some l"
| "touched _ = None"

lemma read_at_accs_touch: "accs (read_at t l mo k M) = accs (touch t l M)"
  by (simp add: read_at_def Let_def)

lemma rmw_at_accs_touch: "accs (rmw_at t l v mo M) = accs (touch t l M)"
  unfolding rmw_at_def write_next_frame by (rule read_at_accs_touch)

lemma fold_birth_accs: "accs (fold (birth t) fs M) = accs M"
  by (induction fs arbitrary: M) (auto simp: birth_parts)

lemma touch_accs_fun: "accs (touch t l M) = (accs M)(l := (accs M l)(gen M l := (t, Suc (cur M t (Clock t))) # accs M l (gen M l)))"
  by (simp add: touch_def Let_def)

lemma step_accs:
  assumes "mem_step t x c M = Done r M'"
  shows "accs M' = (case touched x of None \<Rightarrow> accs M | Some l \<Rightarrow> accs (touch t l M))"
  using assms
  by (cases x) (auto simp: outcome_simps mem_step.simps(9) Let_def read_at_accs_touch rmw_at_accs_touch
      fold_birth_accs bury_views fence_views split: if_splits)

lemma step_accs_in:
  assumes "mem_step t x c M = Done r M'" "(v, n) \<in> set (accs M' l g)"
  shows "(v, n) \<in> set (accs M l g) \<or> touched x = Some l \<and> g = gen M l \<and> v = t"
  using assms(2) step_accs [OF assms(1)]
  by (cases "touched x") (auto simp: touch_accs_fun split: if_splits)

lemma step_accs_other:
  assumes "mem_step t x c M = Done r M'" "touched x \<noteq> Some l"
  shows "accs M' l = accs M l"
  using step_accs [OF assms(1)] assms(2) by (cases "touched x") (auto simp: touch_accs_fun)

lemma fold_birth_scv: "scv (fold (birth t) fs M) = scv M"
  by (induction fs arbitrary: M) (auto simp: birth_def Let_def)

lemma fold_bury_scv: "scv (fold bury ls M) = scv M"
  by (induction ls arbitrary: M) (auto simp: bury_def)

lemma write_next_scv: "scv (write_next t l v mo W M) = scv M"
  by (simp add: write_next_def Let_def push_def)

lemma read_at_scv: "scv (read_at t l mo k M) = scv M"
  by (simp add: read_at_def Let_def touch_def)

lemma step_scv: "mem_step t x c M = Done r M' \<Longrightarrow> x \<noteq> Fence \<Longrightarrow> scv M' = scv M"
  by (cases x) (auto simp: outcome_simps mem_step.simps(9) Let_def read_at_scv write_next_scv rmw_at_def
      fold_birth_scv fold_bury_scv touch_def split: if_splits)

lemma step_scv_mono: "mem_step t x c M = Done r M' \<Longrightarrow> scv M \<le> scv M'"
  by (cases "x = Fence") (auto simp: step_scv fence_scv)

lemma load_facts:
  assumes "mem_step t (Load l mo) c M = Done r M'"
  obtains k where "seen M t l \<le> k" "0 < k" "k \<le> latest M l" "0 < seen M t l" "r = Val (fst (msgs M l ! (k - 1)))"
    "k \<le> cur M' t (place M l)" "is_acq mo \<Longrightarrow> snd (msgs M l ! (k - 1)) \<le> cur M' t"
    "hist M' = hist M" "gen M' = gen M" "live M' = live M"
proof (rule that [of "fst c"])
  have M': "M' = read_at t l mo (fst c) M" using assms by (simp add: load_Done)
  show "is_acq mo \<Longrightarrow> snd (msgs M l ! (fst c - 1)) \<le> cur M' t"
    unfolding M' by (rule read_at_acquires)
qed (use assms in \<open>auto simp: load_Done read_at_place elim: order.strict_trans2\<close>)

lemma read_facts:
  assumes "mem_step t (Read l) c M = Done r M'"
  shows "latest M l \<le> seen M t l" "hist M' = hist M" "gen M' = gen M" "live M' = live M"
  using assms by (auto simp: read_Done)

lemma store_facts:
  assumes "mem_step t (Store l v mo) c M = Done r M'"
  obtains W where "msgs M' l = msgs M l @ [(v, W)]" "hist M' l (gen M l) = hist M l (gen M l) @ [(v, W)]"
    "is_rel mo \<Longrightarrow> cur M t \<le> W" "is_rel mo \<Longrightarrow> W \<le> cur M' t" "Suc (latest M l) \<le> W (place M l)"
    "Suc (latest M l) \<le> cur M' t (place M l)" "gen M' = gen M" "live M' = live M"
    "latest M' l = Suc (latest M l)" "latest M l \<le> seen M t l"
proof -
  let ?T = "touch t l M"
  have M': "M' = write_next t l v mo blind ?T" "latest M l \<le> seen M t l" using assms by (auto simp: store_Done)
  have h: "hist M' l (gen M l) = hist M l (gen M l) @ [(v, written t l mo blind ?T)]"
    by (simp add: M' write_next_hist msgs_def)
  then have m: "msgs M' l = msgs M l @ [(v, written t l mo blind ?T)]" by (simp add: M' msgs_def)
  have up: "written t l mo blind ?T \<le> cur M' t" if "is_rel mo"
    using that by (simp add: M' written_def released_def) (simp add: le_fun_def)
  have own: "Suc (latest M l) \<le> written t l mo blind ?T (place M l)"
    using written_place [of ?T l t mo blind] by simp
  have low: "cur M t \<le> written t l mo blind ?T" if "is_rel mo"
    using order.trans [OF touch_mono written_releases [OF that]] .
  show thesis
    by (rule that [OF m h low up own]) (use M' m in \<open>auto simp: latest_def\<close>)
qed

lemma write_facts:
  assumes "mem_step t (Write l v) c M = Done r M'"
  obtains W where "msgs M' l = msgs M l @ [(v, W)]" "hist M' l (gen M l) = hist M l (gen M l) @ [(v, W)]"
    "Suc (latest M l) \<le> cur M' t (place M l)" "gen M' = gen M" "live M' = live M" "quiet M t l"
proof -
  let ?T = "touch t l M"
  have M': "M' = write_next t l v relaxed blind ?T" "quiet M t l" using assms by (auto simp: write_Done)
  have h: "hist M' l (gen M l) = hist M l (gen M l) @ [(v, written t l relaxed blind ?T)]"
    by (simp add: M' write_next_hist msgs_def)
  then have m: "msgs M' l = msgs M l @ [(v, written t l relaxed blind ?T)]" by (simp add: M' msgs_def)
  show thesis by (rule that [OF m h]) (use M' in \<open>auto simp: latest_def\<close>)
qed

lemma won_facts:
  assumes "mem_step t (Cas weak l e d smo fmo) c M = Done r M'" "r = Swapped True v"
  obtains W where "msgs M' l = msgs M l @ [(d, W)]" "hist M' l (gen M l) = hist M l (gen M l) @ [(d, W)]"
    "snd (msgs M l ! (latest M l - 1)) \<le> W" "is_rel smo \<Longrightarrow> cur M t \<le> W" "Suc (latest M l) \<le> W (place M l)"
    "is_acq smo \<Longrightarrow> snd (msgs M l ! (latest M l - 1)) \<le> cur M' t"
    "Suc (latest M l) \<le> cur M' t (place M l)" "gen M' = gen M" "live M' = live M" "0 < latest M l"
    "fst (msgs M l ! (latest M l - 1)) = e" "M' = rmw_at t l d smo M"
proof -
  have M': "M' = rmw_at t l d smo M" "0 < latest M l" "fst (msgs M l ! (latest M l - 1)) = e"
    using assms by (auto simp: cas_Done Let_def)
  have h: "hist M' l (gen M l) = hist M l (gen M l) @ [(d, swapped t l smo M)]"
    by (simp add: M' rmw_at_hist msgs_def)
  then have m: "msgs M' l = msgs M l @ [(d, swapped t l smo M)]" by (simp add: M' msgs_def)
  have low: "snd (msgs M l ! (latest M l - 1)) \<le> swapped t l smo M" by (simp add: swapped_def written_def)
  have acq: "snd (msgs M l ! (latest M l - 1)) \<le> cur M' t" if "is_acq smo"
    using read_at_acquires [OF that, of M l "latest M l" t]
    by (rule order.trans) (simp add: M'(1) rmw_at_def)
  show thesis
    by (rule that [OF m h low swapped_releases swapped_place acq])
      (use M' in \<open>auto simp: rmw_at_place\<close>)
qed

text \<open>Allocation of several locations at once.\<close>

lemma fold_birth_new:
  assumes "distinct (map fst fs)" "(l, v) \<in> set fs"
  shows "hist (fold (birth t) fs M) l = (hist M l)(Suc (gen M l) := [(v, blind)]) \<and>
    gen (fold (birth t) fs M) l = Suc (gen M l) \<and> live (fold (birth t) fs M) l \<and>
    1 \<le> cur (fold (birth t) fs M) t (At l (Suc (gen M l)))"
  using assms
proof (induction fs arbitrary: M)
  case (Cons f fs)
  show ?case
  proof (cases "f = (l, v)")
    case True
    then have l: "l \<notin> fst ` set fs" using Cons.prems(1) by auto
    let ?B = "birth t (l, v) M"
    have b: "hist ?B l = (hist M l)(Suc (gen M l) := [(v, blind)])" "gen ?B l = Suc (gen M l)" "live ?B l"
      "1 \<le> cur ?B t (At l (Suc (gen M l)))"
      by (simp_all add: birth_def Let_def)
    have "live (fold (birth t) fs ?B) l" using b(3) by (auto simp: live_fold_birth fold_upd_other [OF l])
    moreover have "cur ?B t \<le> cur (fold (birth t) fs ?B) t"
    proof -
      have "cur N t \<le> cur (fold (birth t) gs N) t" for gs and N :: "('a, 'b) memory"
        by (induction gs arbitrary: N) (auto intro: order.trans [OF birth_parts(2)])
      then show ?thesis .
    qed
    moreover have "hist (fold (birth t) fs ?B) l = hist ?B l" "gen (fold (birth t) fs ?B) l = gen ?B l"
      using fold_birth_other [OF l, of t ?B] by blast+
    moreover have "1 \<le> cur (fold (birth t) fs ?B) t (At l (Suc (gen M l)))"
      by (rule order.trans [OF b(4)]) (rule view_leD [OF \<open>cur ?B t \<le> cur (fold (birth t) fs ?B) t\<close>])
    ultimately show ?thesis unfolding True fold_simps b(1,2) by blast
  next
    case False
    then have m: "(l, v) \<in> set fs" and ne: "fst f \<noteq> l" using Cons.prems by (auto simp: image_iff)
    then have "hist (birth t f M) l = hist M l" "gen (birth t f M) l = gen M l"
      using birth_hist_other [of l f t M] by auto
    then show ?thesis using Cons.IH [OF _ m, of "birth t f M"] Cons.prems(1) by simp
  qed
qed simp

end
