(* ===== verification/Hp_Steps.thy ===== *)
theory Hp_Steps imports Hp_Records Memory_Steps Ms_Queue_Frame begin

text \<open>
  The steps of the hazard-pointer queue, for invariants that are proved one layer at a time: what a
  command can do, which locations are ever allocated or freed, and the facts that hold of every
  reachable memory (views, clocks, the globals, the two fields of a node).
\<close>

section \<open>Commands\<close>

definition stepped :: "'a hp_state \<Rightarrow> nat \<Rightarrow> 'a cell result \<Rightarrow> (domain_loc, 'a cell) memory \<Rightarrow> 'a hp_state" where
  "stepped s t r M' =
     \<lparr>mem = M', thr = (thr s)(t := client_resume (thr s t) r),
      trace = trace s @ client_log t (thr s t) r (mem s)\<rparr>"

definition called :: "'a hp_state \<Rightarrow> nat \<Rightarrow> 'a client \<Rightarrow> 'a client_event list \<Rightarrow> 'a hp_state" where
  "called s t q es = s\<lparr>thr := (thr s)(t := q), trace := trace s @ es\<rparr>"

lemma stepped_parts [simp]:
  "mem (stepped s t r M') = M'" "thr (stepped s t r M') u = (if u = t then client_resume (thr s t) r else thr s u)"
  "trace (stepped s t r M') = trace s @ client_log t (thr s t) r (mem s)"
  by (simp_all add: stepped_def)

lemma called_parts [simp]:
  "mem (called s t q es) = mem s" "thr (called s t q es) u = (if u = t then q else thr s u)"
  "trace (called s t q es) = trace s @ es"
  by (simp_all add: called_def)

lemma hp_exec_cases:
  assumes ex: "exec (hp_queue w) c s = Running s'"
  obtains (same) "s' = s"
  | (step) t k r M' where "c = Step t (fst k) (snd k)" "mem_step t (client_act w (thr s t)) k (mem s) = Done r M'"
      "s' = stepped s t r M'"
  | (call) t x q es where "c = Invoke t x" "client_call t x (thr s t) = Some (q, es)" "s' = called s t q es"
  | (sync) t u where "c = Sync t u" "fst (thr s u) = In_queue Idle" "s' = s\<lparr>mem := synchronize t u (mem s)\<rparr>"
proof (cases c)
  case (Step t k b)
  show thesis
  proof (cases "mem_step t (client_act w (thr s t)) (k, b) (mem s)")
    case (Done r M')
    then show thesis using step [of t "(k, b)" r M'] ex Step by (simp add: hp_queue_def stepped_def)
  qed (use ex Step same in \<open>simp_all add: hp_queue_def\<close>)
next
  case (Invoke t x)
  show thesis
  proof (cases "client_call t x (thr s t)")
    case (Some z)
    then obtain q es where "client_call t x (thr s t) = Some (q, es)" by (metis surj_pair)
    then show thesis using call [of t x q es] ex Invoke by (simp add: hp_queue_def called_def)
  qed (use ex Invoke same in \<open>simp add: hp_queue_def\<close>)
next
  case (Sync t u)
  then have "s' = (if fst (thr s u) = In_queue Idle then s\<lparr>mem := synchronize t u (mem s)\<rparr> else s)"
    using ex by (simp add: hp_queue_def case_prod_unfold)
  then show thesis using same sync [OF Sync] by (cases "fst (thr s u) = In_queue Idle") simp_all
qed

lemma hp_invariant:
  assumes start: "I (hp_queue_start dflt a)"
    and step: "\<And>s t k r M'. reach (hp_queue w) (hp_queue_start dflt a) s \<Longrightarrow>
      reach (hp_queue w) (hp_queue_start dflt a) (stepped s t r M') \<Longrightarrow> I s \<Longrightarrow>
      mem_step t (client_act w (thr s t)) k (mem s) = Done r M' \<Longrightarrow> I (stepped s t r M')"
    and call: "\<And>s t x q es. reach (hp_queue w) (hp_queue_start dflt a) s \<Longrightarrow> I s \<Longrightarrow>
      client_call t x (thr s t) = Some (q, es) \<Longrightarrow> I (called s t q es)"
    and sync: "\<And>s t u. reach (hp_queue w) (hp_queue_start dflt a) s \<Longrightarrow> I s \<Longrightarrow>
      fst (thr s u) = In_queue Idle \<Longrightarrow> I (s\<lparr>mem := synchronize t u (mem s)\<rparr>)"
  shows "reach (hp_queue w) (hp_queue_start dflt a) s \<Longrightarrow> I s"
proof (induction rule: reach.induct)
  case (reach_step s c s')
  have next_reach: "reach (hp_queue w) (hp_queue_start dflt a) s'"
    by (rule reach.reach_step [OF reach_step.hyps])
  from reach_step.hyps(2) show ?case
    by (cases rule: hp_exec_cases) (use reach_step next_reach step call sync in \<open>blast+\<close>)
qed (rule start)

fun entry :: "'a op \<Rightarrow> ('a, domain_aux, domain_pc) pc" where
  "entry (Enqueue v) = E_new v"
| "entry Try_dequeue = Start Guard KD_guard"
| "entry Is_empty = M_head"

lemma hp_call_cases:
  assumes "client_call t x c = Some (q, es)"
  obtains (queue) y h where "x = Queue_op y" "c = (In_queue Idle, h)" "q = (In_queue (entry y), h)"
      "es = [Queue_event (Begin t y)]"
  | (drain) h where "x = Drain" "c = (In_queue Idle, h)" "q = (Draining (Sc_adopt For_drain), h)" "es = [Domain_call t Drain]"
  | (look) h where "x = Get_stats \<or> x = In_flight" "c = (In_queue Idle, h)" "q = (Stats_retired, h) \<or> q = (Flight_freed, h)"
      "es = [Domain_call t x]"
  | (exit) h where "x = Exit_thread" "c = (In_queue Idle, h)" "q = leave_thread h" "es = [Domain_call t Exit_thread]"
  using assms
proof (induction t x c rule: client_call.induct)
  case (1 t x p h)
  then obtain y where "queue_call t x (p, h) = Some ((y, h), [Begin t x])" "q = (In_queue y, h)" "es = [Queue_event (Begin t x)]" "p = Idle"
    by (auto elim!: queue_call.elims)
  moreover then have "y = entry x" by (auto elim!: queue_call.elims)
  ultimately show ?case using 1 by blast
qed auto

section \<open>Allocation\<close>

fun allocs :: "('l, 'v) action \<Rightarrow> nat \<Rightarrow> 'l set" where
  "allocs (New f) k = fst ` set (f k)"
| "allocs (Delete ls) k = set ls"
| "allocs (Load l mo) k = {}"
| "allocs (Store l v mo) k = {}"
| "allocs (Cas weak l e d smo fmo) k = {}"
| "allocs (Rmw l f mo) k = {}"
| "allocs Fence k = {}"
| "allocs (Read l) k = {}"
| "allocs (Write l v) k = {}"
| "allocs (Fail e) k = {}"
| "allocs Skip k = {}"

lemma step_allocs:
  assumes "mem_wf M" "mem_step t x c M = Done r M'" "l \<notin> allocs x (fst c)"
  shows "live M' l = live M l" "gen M' l = gen M l" "place M' l = place M l"
proof -
  have "live M' l = live M l \<and> gen M' l = gen M l"
  proof (cases "l \<in> writes x (fst c)")
    case False
    then show ?thesis using step_frame [OF assms(1,2)] by blast
  next
    case True
    show ?thesis
    proof (cases x)
      case (Cas w y e d smo fmo)
      then show ?thesis using assms by (auto simp: cas_Done Let_def)
    qed (use assms True in \<open>auto simp: outcome_simps Let_def\<close>)
  qed
  then show "live M' l = live M l" "gen M' l = gen M l" "place M' l = place M l"
    by (simp_all add: place_def)
qed

lemma step_cur: "lags M \<Longrightarrow> mem_step t x c M = Done r M' \<Longrightarrow> cur M u \<le> cur M' u"
proof (cases x)
  case (New f)
  have "cur M u \<le> cur (fold (birth t) fs M) u" for fs
    by (induction fs arbitrary: M) (auto intro: order.trans [OF birth_parts(2)])
  then show "mem_step t x c M = Done r M' \<Longrightarrow> ?thesis" using New by (auto simp: new_Done)
next
  case Fence
  then show "lags M \<Longrightarrow> mem_step t x c M = Done r M' \<Longrightarrow> ?thesis" by (auto simp: fence_cur)
next
  case (Delete ls)
  then show "mem_step t x c M = Done r M' \<Longrightarrow> ?thesis"
    by (auto simp: mem_step.simps(9) bury_views split: if_splits)
next
  case (Cas w y e d smo fmo)
  then show "mem_step t x c M = Done r M' \<Longrightarrow> ?thesis"
    by (auto simp: cas_Done Let_def read_at_mono rmw_at_mono)
next
  case (Store l v mo)
  then show "mem_step t x c M = Done r M' \<Longrightarrow> ?thesis"
    by (auto simp: store_Done touch_mono intro!: le_supI1)
next
  case (Write l v)
  then show "mem_step t x c M = Done r M' \<Longrightarrow> ?thesis"
    by (auto simp: write_Done touch_mono intro!: le_supI1)
qed (auto simp: outcome_simps Let_def read_at_mono rmw_at_mono touch_mono)

text \<open>The locations that live for ever, and the nodes.\<close>

definition always :: "domain_loc set" where
  "always = {Head, Tail, Aux Records, Aux Orphans, Aux Nrecords, Aux Retired_count, Aux Freed_count}"

lemma domain_new:
  "domain_act d = New f \<Longrightarrow> f = make_record \<or> (\<exists>x y. f = make_orphan x y)"
  "domain_act d = Delete ls \<Longrightarrow> (\<exists>a. ls = [Next a, Value a]) \<or> (\<exists>b. ls = [Aux (Orphan_item b), Aux (Orphan_next b)])"
  by (cases d; auto simp: delete_node_def split: option.splits)+

lemma client_new: "client_act w p = New f \<Longrightarrow> (\<exists>v. f = make_node v) \<or> f = make_record \<or> (\<exists>x y. f = make_orphan x y)"
proof (induction w p rule: client_act.induct)
  case (1 w p h)
  then show ?case using domain_new(1)
    by (cases p) (auto simp: hp_reclaimer_def deref_def split: option.splits)
qed (use domain_new(1) in auto)

lemma client_delete:
  "client_act w p = Delete ls \<Longrightarrow> (\<exists>a. ls = [Next a, Value a]) \<or> (\<exists>b. ls = [Aux (Orphan_item b), Aux (Orphan_next b)])"
proof (induction w p rule: client_act.induct)
  case (1 w p h)
  then show ?case using domain_new(2)
    by (cases p) (auto simp: hp_reclaimer_def deref_def split: option.splits)
qed (use domain_new(2) in auto)

lemma client_always: "l \<in> always \<Longrightarrow> l \<notin> allocs (client_act w p) k"
  using client_new [of w p] client_delete [of w p]
  by (cases "client_act w p") (auto simp: always_def make_node_def make_record_def make_orphan_def)

section \<open>Facts of every reachable memory\<close>

definition base :: "(domain_loc, 'a cell) memory \<Rightarrow> bool" where
  "base M \<longleftrightarrow> mem_wf M \<and> lags M \<and> timed M \<and> paired M \<and>
     (\<forall>l \<in> always. live M l \<and> gen M l = 1 \<and> (\<forall>u. 1 \<le> cur M u (At l 1))) \<and>
     (\<forall>u. 2 \<le> cur M u (At Head 1) \<and> 2 \<le> cur M u (At Tail 1))"

lemma baseD:
  assumes "base M"
  shows "mem_wf M" "lags M" "timed M" "paired M" "l \<in> always \<Longrightarrow> live M l"
    "l \<in> always \<Longrightarrow> gen M l = 1" "l \<in> always \<Longrightarrow> 1 \<le> cur M u (At l 1)" "l \<in> always \<Longrightarrow> place M l = At l 1"
    "2 \<le> cur M u (At Head 1)" "2 \<le> cur M u (At Tail 1)"
  using assms by (simp_all add: base_def place_def)

lemma always_in [simp]:
  "Head \<in> always" "Tail \<in> always" "Aux Records \<in> always" "Aux Orphans \<in> always" "Aux Nrecords \<in> always"
  "Aux Retired_count \<in> always" "Aux Freed_count \<in> always" "Next a \<notin> always" "Value a \<notin> always"
  "Aux (Slot_of r i) \<notin> always" "Aux (Active r) \<notin> always" "Aux (Next_record r) \<notin> always"
  "Aux (Orphan_item a) \<notin> always" "Aux (Orphan_next a) \<notin> always"
  by (simp_all add: always_def)

lemma paired_step:
  assumes wf: "mem_wf M" and pr: "paired M" and st: "mem_step t (client_act w p) k M = Done r M'"
  shows "paired M'"
  unfolding paired_def
proof
  fix a
  show "gen M' (Next a) = gen M' (Value a) \<and> live M' (Next a) = live M' (Value a)"
  proof (cases "client_act w p")
    case (New f)
    then have "M' = fold (birth t) (f (fst k)) M" using st by (simp add: new_Done)
    then show ?thesis using client_new [OF New] pr
      by (auto simp: make_node_def make_record_def make_orphan_def paired_def birth_parts live_birth)
  next
    case (Delete ls)
    then have "M' = fold bury ls M" using st by (auto simp: mem_step.simps(9) split: if_splits)
    then show ?thesis using client_delete [OF Delete] pr by (auto simp: paired_def bury_parts)
  qed (use step_allocs [OF wf st] pr in \<open>simp_all add: paired_def\<close>)
qed

lemma base_step:
  assumes b: "base M" and st: "mem_step t (client_act w p) k M = Done r M'"
  shows "base M'"
proof -
  note al = step_allocs [OF baseD(1) [OF b] st client_always]
  have up: "cur M u c \<le> cur M' u c" for u c using step_cur [OF baseD(2) [OF b] st] by (rule view_leD)
  have "live M' l \<and> gen M' l = 1 \<and> (\<forall>u. 1 \<le> cur M' u (At l 1))" if "l \<in> always" for l
    using al [OF that] baseD(5-7) [OF b that] up by (auto intro: order.trans)
  moreover have "2 \<le> cur M' u (At Head 1) \<and> 2 \<le> cur M' u (At Tail 1)" for u
    using baseD(9,10) [OF b, of u] up [of u] by (auto intro: order.trans)
  ultimately show ?thesis
    unfolding base_def using wf_mem_step [OF baseD(1) [OF b] st] lags_mem_step [OF baseD(2) [OF b] st]
      timed_mem_step [OF baseD(3,2) [OF b] st] paired_step [OF baseD(1,4) [OF b] st] by blast
qed

lemma sync_cur: "cur M v \<le> cur (synchronize t u M) v"
  by (simp add: synchronize_def)

lemma sync_parts [simp]:
  "hist (synchronize t u M) = hist M" "gen (synchronize t u M) = gen M" "live (synchronize t u M) = live M"
  "accs (synchronize t u M) = accs M" "scv (synchronize t u M) = scv M" "newest (synchronize t u M) = newest M"
  "latest (synchronize t u M) = latest M" "msgs (synchronize t u M) = msgs M" "place (synchronize t u M) = place M"
  by (simp_all only: now_synchronize) (simp_all add: synchronize_def see_def latest_def msgs_def place_def fun_eq_iff)

lemma timed_synchronize: "timed M \<Longrightarrow> timed (synchronize t u M)"
  unfolding synchronize_def by (rule timed_see)

lemma base_sync: "base M \<Longrightarrow> base (synchronize t u M)"
  unfolding base_def using wf_synchronize [of M t u] lags_synchronize [of M t u] timed_synchronize [of M t u]
    order.trans [OF _ view_leD [OF sync_cur [of M _ t u]]]
  by (auto simp: paired_def)

lemmas hp_start_simps = hp_queue_start_def globals_def constructor_def make_node_def setup_simps

lemma hp_start_memory:
  fixes dflt :: 'a and a :: nat
  defines "M \<equiv> mem (hp_queue_start dflt a)"
  shows "gen M = (\<lambda>_. 0)(Aux Records := 1, Aux Orphans := 1, Aux Nrecords := 1, Aux Retired_count := 1,
      Aux Freed_count := 1, Head := 1, Tail := 1, Next a := 1, Value a := 1)"
    and "live M = (\<lambda>_. False)(Aux Records := True, Aux Orphans := True, Aux Nrecords := True,
      Aux Retired_count := True, Aux Freed_count := True, Head := True, Tail := True, Next a := True, Value a := True)"
    and "\<And>u. cur M u (At (Aux Records) 1) = 1 \<and> cur M u (At (Aux Orphans) 1) = 1 \<and> cur M u (At (Aux Nrecords) 1) = 1 \<and>
      cur M u (At (Aux Retired_count) 1) = 1 \<and> cur M u (At (Aux Freed_count) 1) = 1 \<and>
      cur M u (At Head 1) = 2 \<and> cur M u (At Tail 1) = 2 \<and> cur M u (At (Next a) 1) = 1 \<and> cur M u (At (Value a) 1) = 1"
    and "map fst (hist M Head 1) = [Ptr None, Ptr (Some a)]" and "map fst (hist M Tail 1) = [Ptr None, Ptr (Some a)]"
    and "hist M (Next a) 1 = [(Ptr None, blind)]" and "hist M (Value a) 1 = [(Dat dflt, blind)]"
    and "hist M (Aux Records) 1 = [(Ptr None, blind)]" and "hist M (Aux Orphans) 1 = [(Ptr None, blind)]"
    and "head_view M 0 (At (Next a) 1) = 1 \<and> head_view M 0 (At (Value a) 1) = 1"
    and "tail_view M 0 (At (Next a) 1) = 1 \<and> tail_view M 0 (At (Value a) 1) = 1"
    and "acq M = cur M" and "rel M = (\<lambda>_. blind)" and "scv M = blind"
    and "accs M = (\<lambda>_ _. [])(Head := (\<lambda>_. [])(1 := [(0, 1)]), Tail := (\<lambda>_. [])(1 := [(0, Suc 1)]))"
  unfolding M_def
  by (simp_all add: hp_start_simps head_view_def tail_view_def)

lemma hp_start_thr: "thr (hp_queue_start dflt a) u = (In_queue Idle, fresh_cache)" "trace (hp_queue_start dflt a) = []"
  by (simp_all add: hp_queue_start_def)

lemma perform_inv:
  assumes "perform t xs M = Some M'" "I M" "\<And>x M r M'. I M \<Longrightarrow> mem_step t (fst x) (snd x, True) M = Done r M' \<Longrightarrow> I M'"
  shows "I M'"
  using assms(1,2)
proof (induction xs arbitrary: M)
  case (Cons x xs)
  obtain y k where x: "x = (y, k)" by (meson surj_pair)
  obtain r M1 where st: "mem_step t y (k, True) M = Done r M1" and p: "perform t xs M1 = Some M'"
    using Cons.prems(1) x by (auto split: outcome.splits)
  show ?case using Cons.IH [OF p] assms(3) [OF Cons.prems(2), of "(y, k)" r M1] st by simp
qed simp

lemma base_start: "base (mem (hp_queue_start dflt a))"
proof -
  let ?M = "mem (hp_queue_start dflt a)"
  note m = hp_start_memory [of dflt a]
  have "timed ?M"
    unfolding timed_def
  proof (intro allI impI)
    fix l g u n assume "(u, n) \<in> set (accs ?M l g)"
    then have "l = Head \<and> g = 1 \<and> u = 0 \<and> n = 1 \<or> l = Tail \<and> g = 1 \<and> u = 0 \<and> n = 2"
      by (auto simp: m(15) split: if_splits)
    then show "n \<le> cur ?M u (Clock u) \<and> g \<le> gen ?M l"
      using m(1) by (auto simp: hp_start_simps)
  qed
  moreover have "lags ?M" using m(12) by (simp add: lags_def)
  moreover have "paired ?M" by (simp add: paired_def m(1,2))
  moreover have "live ?M l \<and> gen ?M l = 1 \<and> (\<forall>u. 1 \<le> cur ?M u (At l 1))" if "l \<in> always" for l
    using that m(1-3) by (auto simp: always_def)
  ultimately show ?thesis using hp_queue_start_wf [of dflt a] m(3) unfolding base_def by auto
qed

lemma base_reach: "reach (hp_queue w) (hp_queue_start dflt a) s \<Longrightarrow> base (mem s)"
  by (rule hp_invariant [where I = "\<lambda>s. base (mem s)"]) (simp_all add: base_start base_step base_sync)

end
