(* ===== verification/Hp_Lists.thy ===== *)
theory Hp_Lists imports Hp_Steps begin

text \<open>
  The list of hazard records.  It only grows, at its head; a thread that follows it only meets
  records whose fields it knows, so that no access to a record is a race, and a thread that has not
  pushed its new record yet is alone with it.
\<close>

section \<open>The list\<close>

abbreviation slot_at :: "nat \<Rightarrow> nat \<Rightarrow> domain_loc coord" where
  "slot_at r i \<equiv> At (Aux (Slot_of r i)) 1"

definition recs :: "(domain_loc, 'a cell) memory \<Rightarrow> nat list" where
  "recs M = map (\<lambda>m. the (ptr (fst m))) (tl (hist M (Aux Records) 1))"

definition rec_known :: "(domain_loc, 'a cell) memory \<Rightarrow> domain_loc view \<Rightarrow> nat \<Rightarrow> bool" where
  "rec_known M V r \<longleftrightarrow>
     1 \<le> V (slot_at r 0) \<and> 1 \<le> V (slot_at r 1) \<and> 1 \<le> V (At (Aux (Active r)) 1) \<and>
     1 \<le> V (At (Aux (Next_record r)) 1) \<and> length (hist M (Aux (Next_record r)) 1) \<le> V (At (Aux (Next_record r)) 1)"

definition listed :: "(domain_loc, 'a cell) memory \<Rightarrow> domain_loc view \<Rightarrow> nat \<Rightarrow> nat \<Rightarrow> bool" where
  "listed M V r k \<longleftrightarrow>
     k < length (recs M) \<and> recs M ! k = r \<and> k + 2 \<le> V (At (Aux Records) 1) \<and>
     (\<forall>j\<le>k. rec_known M V (recs M ! j))"

definition unlisted :: "(domain_loc, 'a cell) memory \<Rightarrow> nat \<Rightarrow> domain_loc view \<Rightarrow> nat \<Rightarrow> bool" where
  "unlisted M u V r \<longleftrightarrow>
     r \<notin> set (recs M) \<and> live M (Aux (Active r)) \<and> rec_known M V r \<and>
     (\<forall>x \<in> set (accs M (Aux (Next_record r)) 1). fst x = u)"

definition one_record :: "(domain_loc, 'a cell) memory \<Rightarrow> nat \<Rightarrow> bool" where
  "one_record M r \<longleftrightarrow>
     (\<forall>l \<in> {Aux (Slot_of r 0), Aux (Slot_of r 1), Aux (Next_record r)}. live M l = live M (Aux (Active r))) \<and>
     (\<forall>l \<in> {Aux (Slot_of r 0), Aux (Slot_of r 1), Aux (Next_record r), Aux (Active r)}.
        gen M l = (if live M l then 1 else 0))"

definition list_ok :: "(domain_loc, 'a cell) memory \<Rightarrow> bool" where
  "list_ok M \<longleftrightarrow>
     (\<forall>r. one_record M r) \<and> distinct (recs M) \<and>
     map fst (hist M (Aux Records) 1) = Ptr None # map (\<lambda>r. Ptr (Some r)) (recs M) \<and>
     (\<forall>k<length (recs M). live M (Aux (Active (recs M ! k))) \<and>
        newest M (Aux (Next_record (recs M ! k))) = Ptr (if k = 0 then None else Some (recs M ! (k - 1))) \<and>
        listed M (snd (hist M (Aux Records) 1 ! Suc k)) (recs M ! k) k)"

text \<open>The record of the list that a program point is at, the slot it works on, and the location it
  protects a pointer from.\<close>

fun visits :: "domain_pc \<Rightarrow> nat option" where
  "visits (A_try r) = Some r"
| "visits (A_next r) = Some r"
| "visits (Sc_slot k r i hs) = Some r"
| "visits (Sc_next k r hs) = Some r"
| "visits _ = None"

fun slot_no :: "domain_pc \<Rightarrow> nat option" where
  "slot_no (P_load r i src) = Some i"
| "slot_no (P_store r i src p) = Some i"
| "slot_no (P_fence r i src p) = Some i"
| "slot_no (P_check r i src p) = Some i"
| "slot_no (S_store r i p) = Some i"
| "slot_no (U_clear r i) = Some i"
| "slot_no (X_clear r i) = Some i"
| "slot_no (Sc_slot k r i hs) = Some i"
| "slot_no _ = None"

fun source :: "domain_pc \<Rightarrow> domain_loc option" where
  "source (P_load r i src) = Some src"
| "source (P_store r i src p) = Some src"
| "source (P_fence r i src p) = Some src"
| "source (P_check r i src p) = Some src"
| "source _ = None"

fun pushes :: "domain_pc \<Rightarrow> (nat \<times> nat option) option" where
  "pushes (A_push r e) = Some (r, e)"
| "pushes _ = None"

definition list_pc :: "(domain_loc, 'a cell) memory \<Rightarrow> nat \<Rightarrow> domain_loc view \<Rightarrow> domain_pc \<Rightarrow> bool" where
  "list_pc M u V d \<longleftrightarrow>
     (\<forall>r. visits d = Some r \<longrightarrow> (\<exists>k. listed M V r k)) \<and>
     (\<forall>i. slot_no d = Some i \<longrightarrow> i < kSlots) \<and> (\<forall>src. source d = Some src \<longrightarrow> src = Head \<or> src = Tail) \<and>
     (\<forall>r. fresh_record d = Some r \<longrightarrow> unlisted M u V r) \<and>
     (\<forall>r e. pushes d = Some (r, e) \<longrightarrow> newest M (Aux (Next_record r)) = Ptr e)"

lemma list_pcD:
  assumes "list_pc M u V d"
  shows "visits d = Some r \<Longrightarrow> \<exists>k. listed M V r k" "slot_no d = Some i \<Longrightarrow> i < kSlots"
    "fresh_record d = Some r \<Longrightarrow> unlisted M u V r"
    "pushes d = Some (r, e) \<Longrightarrow> newest M (Aux (Next_record r)) = Ptr e"
    "source d = Some src \<Longrightarrow> src = Head \<or> src = Tail"
  using assms by (auto simp: list_pc_def)

definition held :: "(domain_loc, 'a cell) memory \<Rightarrow> domain_loc view \<Rightarrow> nat \<Rightarrow> bool" where
  "held M V r \<longleftrightarrow> rec_known M V r \<and> (\<exists>k<length (recs M). recs M ! k = r \<and> k + 2 \<le> V (At (Aux Records) 1))"

definition list_thread :: "(domain_loc, 'a cell) memory \<Rightarrow> nat \<Rightarrow> domain_loc view \<Rightarrow> domain_pc option \<Rightarrow> tl_cache \<Rightarrow> bool" where
  "list_thread M u V od h \<longleftrightarrow>
     (\<forall>r. rec h = Some r \<longrightarrow> held M V r) \<and> (\<forall>d. od = Some d \<longrightarrow> list_pc M u V d)"

text \<open>The queue only names the two slots there are.\<close>

fun slots_named :: "('a, domain_aux, domain_pc) pc \<Rightarrow> bool" where
  "slots_named (Start (Protect i src) k) \<longleftrightarrow> i < kSlots \<and> (src = Head \<or> src = Tail)"
| "slots_named (Start (Publish i p) k) \<longleftrightarrow> i < kSlots"
| "slots_named p \<longleftrightarrow> True"

fun client_slots :: "'a client_pc \<Rightarrow> bool" where
  "client_slots (In_queue p) \<longleftrightarrow> slots_named p"
| "client_slots p \<longleftrightarrow> True"

definition lists_inv :: "'a hp_state \<Rightarrow> bool" where
  "lists_inv s \<longleftrightarrow> list_ok (mem s) \<and>
     (\<forall>u. list_thread (mem s) u (cur (mem s) u) (domain_of (fst (thr s u))) (snd (thr s u)) \<and>
          client_slots (fst (thr s u)))"

section \<open>Frames\<close>

definition longer :: "(domain_loc, 'a cell) memory \<Rightarrow> (domain_loc, 'a cell) memory \<Rightarrow> bool" where
  "longer M M' \<longleftrightarrow>
     (\<exists>X. recs M' = recs M @ X) \<and>
     (\<forall>r \<in> set (recs M). hist M' (Aux (Next_record r)) 1 = hist M (Aux (Next_record r)) 1)"

lemma longerD:
  assumes "longer M M'"
  obtains X where "recs M' = recs M @ X" "\<forall>r \<in> set (recs M). hist M' (Aux (Next_record r)) 1 = hist M (Aux (Next_record r)) 1"
  using assms unfolding longer_def by blast

lemma rec_known_mono: "rec_known M V r \<Longrightarrow> V \<le> W \<Longrightarrow> rec_known M W r"
  unfolding rec_known_def using view_le_mono by metis

lemma rec_known_cong: "hist M' (Aux (Next_record r)) 1 = hist M (Aux (Next_record r)) 1 \<Longrightarrow> rec_known M' V r = rec_known M V r"
  by (simp add: rec_known_def)

lemma listed_mono: "listed M V r k \<Longrightarrow> V \<le> W \<Longrightarrow> listed M W r k"
  unfolding listed_def using rec_known_mono view_le_mono by metis

lemma listed_longer:
  assumes "listed M V r k" "longer M M'"
  shows "listed M' V r k"
proof -
  obtain X where X: "recs M' = recs M @ X"
    "\<forall>r \<in> set (recs M). hist M' (Aux (Next_record r)) 1 = hist M (Aux (Next_record r)) 1"
    by (rule longerD [OF assms(2)])
  have k: "k < length (recs M)" "recs M ! k = r" "k + 2 \<le> V (At (Aux Records) 1)" using assms(1) by (auto simp: listed_def)
  have "rec_known M' V (recs M' ! j)" if "j \<le> k" for j
  proof -
    have "rec_known M V (recs M ! j)" "recs M ! j \<in> set (recs M)" using assms(1) that k(1) by (auto simp: listed_def)
    then show ?thesis using X rec_known_cong [of M' "recs M ! j" M] k(1) that by (simp add: nth_append)
  qed
  then show ?thesis using k X(1) by (simp add: listed_def nth_append)
qed

lemma listed_held: "listed M V r k \<Longrightarrow> held M V r"
  by (auto simp: listed_def held_def)

lemma held_mono: "held M V r \<Longrightarrow> V \<le> W \<Longrightarrow> held M W r"
  unfolding held_def using rec_known_mono view_le_mono by metis

lemma held_longer:
  assumes "held M V r" "longer M M'"
  shows "held M' V r"
proof -
  obtain X where X: "recs M' = recs M @ X"
    "\<forall>r \<in> set (recs M). hist M' (Aux (Next_record r)) 1 = hist M (Aux (Next_record r)) 1"
    by (rule longerD [OF assms(2)])
  obtain k where k: "k < length (recs M)" "recs M ! k = r" "k + 2 \<le> V (At (Aux Records) 1)" "rec_known M V r"
    using assms(1) by (auto simp: held_def)
  then have "r \<in> set (recs M)" by auto
  then have "rec_known M' V r" using k(4) X(2) rec_known_cong by blast
  then show ?thesis using k X(1) by (auto simp: held_def nth_append intro!: exI [of _ k])
qed

lemma held_live: "list_ok M \<Longrightarrow> held M V r \<Longrightarrow> live M (Aux (Active r))"
  by (auto simp: list_ok_def held_def)

lemma held_usable:
  assumes "list_ok M" "held M V r"
  shows "\<And>i. i < kSlots \<Longrightarrow> live M (Aux (Slot_of r i)) \<and> place M (Aux (Slot_of r i)) = slot_at r i \<and> 0 < V (slot_at r i)"
    "live M (Aux (Active r))" "place M (Aux (Active r)) = At (Aux (Active r)) 1" "0 < V (At (Aux (Active r)) 1)"
    "live M (Aux (Next_record r))" "place M (Aux (Next_record r)) = At (Aux (Next_record r)) 1"
    "0 < V (At (Aux (Next_record r)) 1)" "latest M (Aux (Next_record r)) \<le> V (At (Aux (Next_record r)) 1)"
proof -
  have lv: "live M (Aux (Active r))" by (rule held_live [OF assms])
  have one: "one_record M r" using assms(1) by (simp add: list_ok_def)
  have kn: "rec_known M V r" using assms(2) by (auto simp: held_def)
  note f = one [unfolded one_record_def] kn [unfolded rec_known_def] lv
  show "live M (Aux (Slot_of r i)) \<and> place M (Aux (Slot_of r i)) = slot_at r i \<and> 0 < V (slot_at r i)" if "i < kSlots" for i
  proof -
    have "i = 0 \<or> i = 1" using that by (auto simp: kSlots_def)
    then show ?thesis using f by (auto simp: place_def)
  qed
  show "live M (Aux (Active r))" "place M (Aux (Active r)) = At (Aux (Active r)) 1" "0 < V (At (Aux (Active r)) 1)"
    "live M (Aux (Next_record r))" "place M (Aux (Next_record r)) = At (Aux (Next_record r)) 1"
    "0 < V (At (Aux (Next_record r)) 1)" "latest M (Aux (Next_record r)) \<le> V (At (Aux (Next_record r)) 1)"
    using f by (auto simp: place_def latest_def msgs_def)
qed

lemma longer_same:
  "recs M' = recs M \<Longrightarrow> (\<And>r. r \<in> set (recs M) \<Longrightarrow> hist M' (Aux (Next_record r)) 1 = hist M (Aux (Next_record r)) 1) \<Longrightarrow>
    longer M M'"
  by (simp add: longer_def)

text \<open>What a step leaves to a thread that is alone with its new record.\<close>

definition spares :: "(domain_loc, 'a cell) memory \<Rightarrow> (domain_loc, 'a cell) memory \<Rightarrow> nat \<Rightarrow> bool" where
  "spares M M' r \<longleftrightarrow>
     r \<notin> set (recs M') \<and> live M' (Aux (Active r)) \<and> newest M' (Aux (Next_record r)) = newest M (Aux (Next_record r)) \<and>
     hist M' (Aux (Next_record r)) 1 = hist M (Aux (Next_record r)) 1 \<and>
     accs M' (Aux (Next_record r)) 1 = accs M (Aux (Next_record r)) 1"

lemma list_thread_frame:
  assumes th: "list_thread M u V od h" and V: "V \<le> W" and lo: "longer M M'"
    and sp: "\<And>d r. od = Some d \<Longrightarrow> fresh_record d = Some r \<Longrightarrow> spares M M' r"
  shows "list_thread M' u W od h"
proof -
  have "list_pc M' u W d" if d: "od = Some d" for d
  proof -
    have pc: "list_pc M u V d" using th d by (simp add: list_thread_def)
    have "\<exists>k. listed M' W r k" if r: "visits d = Some r" for r
    proof -
      obtain k where "listed M V r k" using list_pcD(1) [OF pc r] by blast
      then show ?thesis using listed_longer [OF listed_mono [OF _ V] lo] by blast
    qed
    moreover have "unlisted M' u W r" if "fresh_record d = Some r" for r
    proof -
      have "unlisted M u V r" using pc that by (auto simp: list_pc_def)
      then show ?thesis using sp [OF d that] rec_known_mono [OF _ V, of M r] rec_known_cong [of M' r M]
        by (simp add: unlisted_def spares_def)
    qed
    moreover have "newest M' (Aux (Next_record r)) = Ptr e" if "pushes d = Some (r, e)" for r e
    proof -
      have "fresh_record d = Some r" using that by (cases d) simp_all
      then have "spares M M' r" by (rule sp [OF d])
      then show ?thesis using pc that by (simp add: list_pc_def spares_def)
    qed
    ultimately show ?thesis using pc by (simp add: list_pc_def)
  qed
  moreover have "held M' W r" if "rec h = Some r" for r
    using th that held_longer [OF held_mono [OF _ V] lo] by (simp add: list_thread_def)
  ultimately show ?thesis by (simp add: list_thread_def)
qed

section \<open>Steps that leave the list alone\<close>

fun lists_on :: "domain_pc \<Rightarrow> bool" where
  "lists_on A_new = True"
| "lists_on (A_link r h) = True"
| "lists_on (A_push r h) = True"
| "lists_on _ = False"

lemma domain_list_frame:
  assumes "\<not> lists_on d"
  shows "Aux Records \<notin> writes (domain_act d) k" "Aux (Next_record r) \<notin> writes (domain_act d) k"
    "Aux (Next_record r) \<notin> allocs (domain_act d) k" "Aux (Active r) \<notin> allocs (domain_act d) k"
    "Aux (Slot_of r i) \<notin> allocs (domain_act d) k"
  using assms by (cases d; auto simp: delete_node_def make_orphan_def split: option.split)+

definition list_still :: "(domain_loc, 'a cell) memory \<Rightarrow> (domain_loc, 'a cell) memory \<Rightarrow> bool" where
  "list_still M M' \<longleftrightarrow>
     hist M' (Aux Records) = hist M (Aux Records) \<and>
     (\<forall>r. hist M' (Aux (Next_record r)) = hist M (Aux (Next_record r)) \<and>
        newest M' (Aux (Next_record r)) = newest M (Aux (Next_record r)) \<and>
        (\<forall>l \<in> {Aux (Slot_of r 0), Aux (Slot_of r 1), Aux (Next_record r), Aux (Active r)}.
           live M' l = live M l \<and> gen M' l = gen M l))"

lemma list_still_ok:
  assumes "list_still M M'" "list_ok M"
  shows "list_ok M'" "longer M M'"
proof -
  have re: "recs M' = recs M" using assms(1) by (simp add: recs_def list_still_def)
  show lo: "longer M M'" by (rule longer_same [OF re]) (use assms(1) in \<open>simp add: list_still_def\<close>)
  have li: "listed M' V r k = listed M V r k" for V r k
    using assms(1) by (simp add: listed_def re rec_known_def list_still_def)
  have "one_record M' r = one_record M r" for r
    using assms(1) by (simp add: one_record_def list_still_def)
  then show "list_ok M'"
    using assms by (simp add: list_ok_def re li) (simp add: list_still_def)
qed

lemma client_list_still:
  assumes wf: "mem_wf M" and st: "mem_step t (client_act w (p, h)) k M = Done y M'"
    and d: "\<And>d. domain_of p = Some d \<Longrightarrow> \<not> lists_on d"
  shows "list_still M M'"
proof -
  have w: "Aux l \<notin> writes (client_act w (p, h)) (fst k)" if "l = Records \<or> (\<exists>r. l = Next_record r)" for l
  proof (cases "domain_of p")
    case None
    then show ?thesis
      using queue_writes [of _ l w "fst k"] that by (cases p) auto
  next
    case (Some e)
    then have "client_act w (p, h) = domain_act e"
      by (cases p rule: domain_of.cases) (auto simp: hp_reclaimer_def)
    then show ?thesis using domain_list_frame(1,2) [OF d [OF Some]] that by auto
  qed
  have a: "Aux l \<notin> allocs (client_act w (p, h)) (fst k)" if "(\<exists>r. l = Next_record r) \<or> (\<exists>r. l = Active r) \<or> (\<exists>r i. l = Slot_of r i)" for l
  proof (cases "domain_of p")
    case None
    then have "Aux l \<notin> writes (client_act w (p, h)) (fst k)"
      using queue_writes [of _ l w "fst k"] by (cases p) auto
    then show ?thesis by (cases "client_act w (p, h)") auto
  next
    case (Some e)
    then have "client_act w (p, h) = domain_act e"
      by (cases p rule: domain_of.cases) (auto simp: hp_reclaimer_def)
    then show ?thesis using domain_list_frame(3-5) [OF d [OF Some]] that by (elim disjE exE) simp_all
  qed
  show ?thesis
    unfolding list_still_def
    using step_frame(1,4) [OF wf st w] step_allocs(1,2) [OF wf st a] by (simp add: disj_imp)
qed

section \<open>A new record\<close>

lemma list_okD:
  assumes "list_ok M"
  shows "one_record M r" "distinct (recs M)"
    "map fst (hist M (Aux Records) 1) = Ptr None # map (\<lambda>r. Ptr (Some r)) (recs M)"
    "k < length (recs M) \<Longrightarrow> live M (Aux (Active (recs M ! k)))"
    "k < length (recs M) \<Longrightarrow> newest M (Aux (Next_record (recs M ! k))) = Ptr (if k = 0 then None else Some (recs M ! (k - 1)))"
    "k < length (recs M) \<Longrightarrow> listed M (snd (hist M (Aux Records) 1 ! Suc k)) (recs M ! k) k"
  using assms unfolding list_ok_def by blast+

lemma recs_live: "list_ok M \<Longrightarrow> r \<in> set (recs M) \<Longrightarrow> live M (Aux (Active r))"
  using list_okD(4) by (metis in_set_conv_nth)

lemma timed_unborn: "timed M \<Longrightarrow> gen M l < g \<Longrightarrow> accs M l g = []"
proof (cases "accs M l g")
  case (Cons x xs)
  obtain u n where "x = (u, n)" by (meson surj_pair)
  then show "timed M \<Longrightarrow> gen M l < g \<Longrightarrow> ?thesis" using timed_gen [of M u n l g] Cons by simp
qed simp

lemma new_record:
  assumes b: "base M" and ok: "list_ok M" and st: "mem_step t (New make_record) k M = Done y M'"
  shows "list_ok M'" "longer M M'" "unlisted M' t (cur M' t) (fst k)" "y = Addr (fst k)"
    "\<And>r. r \<notin> set (recs M) \<Longrightarrow> live M (Aux (Active r)) \<Longrightarrow> spares M M' r"
proof -
  let ?a = "fst k" let ?fs = "make_record ?a :: (domain_loc \<times> 'a cell) list"
  have M': "M' = fold (birth t) ?fs M" "y = Addr ?a" and dead: "\<not> live M (Aux (Active ?a))"
    "\<not> live M (Aux (Slot_of ?a 0))" "\<not> live M (Aux (Slot_of ?a 1))" "\<not> live M (Aux (Next_record ?a))"
    using st by (auto simp: new_Done make_record_def)
  show "y = Addr (fst k)" by (rule M'(2))
  have out: "?a \<notin> set (recs M)" using dead recs_live [OF ok] by blast
  have other: "hist M' l = hist M l" "gen M' l = gen M l" "live M' l = live M l" "newest M' l = newest M l"
    if "l \<notin> fst ` set ?fs" for l
    using step_frame(1-4) [OF baseD(1) [OF b] st, of l] that by simp_all
  have re: "recs M' = recs M" unfolding recs_def using other(1) [of "Aux Records"] by (simp add: make_record_def)
  have nr: "hist M' (Aux (Next_record r)) = hist M (Aux (Next_record r))" "newest M' (Aux (Next_record r)) = newest M (Aux (Next_record r))"
    if "r \<noteq> ?a" for r
    using other(1,4) [of "Aux (Next_record r)"] that by (simp_all add: make_record_def)
  show lo: "longer M M'" by (rule longer_same [OF re]) (use nr(1) out in metis)
  have zero: "gen M l = 0" if "l \<in> fst ` set ?fs" for l
    using list_okD(1) [OF ok, of ?a] dead that by (auto simp: one_record_def make_record_def)
  have born: "hist M' l 1 = [(v, blind)]" "gen M' l = 1" "live M' l" "1 \<le> cur M' t (At l 1)" if "(l, v) \<in> set ?fs" for l v
  proof -
    have "distinct (map fst ?fs)" by (simp add: make_record_def)
    moreover have "gen M l = 0" using zero that by force
    ultimately show "hist M' l 1 = [(v, blind)]" "gen M' l = 1" "live M' l" "1 \<le> cur M' t (At l 1)"
      using fold_birth_new [OF _ that, of t M] M'(1) by simp_all
  qed
  have one: "one_record M' r" for r
  proof (cases "r = ?a")
    case True
    show ?thesis unfolding True one_record_def using born(2,3) by (simp add: make_record_def)
  next
    case False
    then show ?thesis using list_okD(1) [OF ok, of r] other by (simp add: one_record_def make_record_def)
  qed
  have li: "listed M V r j \<Longrightarrow> listed M' V r j" for V r j by (rule listed_longer [OF _ lo])
  show "list_ok M'"
    unfolding list_ok_def
  proof (intro conjI allI impI one)
    show "distinct (recs M')" using list_okD(2) [OF ok] re by simp
    show "map fst (hist M' (Aux Records) 1) = Ptr None # map (\<lambda>r. Ptr (Some r)) (recs M')"
      using list_okD(3) [OF ok] re other(1) [of "Aux Records"] by (simp add: make_record_def)
    fix j assume j: "j < length (recs M')"
    then have ne: "recs M ! j \<noteq> ?a" using out re by (metis nth_mem)
    show "live M' (Aux (Active (recs M' ! j)))"
      using list_okD(4) [OF ok] j re ne other(3) [of "Aux (Active (recs M ! j))"] by (simp add: make_record_def)
    show "newest M' (Aux (Next_record (recs M' ! j))) = Ptr (if j = 0 then None else Some (recs M' ! (j - 1)))"
      using list_okD(5) [OF ok] j re nr(2) [OF ne] by simp
    show "listed M' (snd (hist M' (Aux Records) 1 ! Suc j)) (recs M' ! j) j"
      using li [OF list_okD(6) [OF ok]] j re other(1) [of "Aux Records"] by (simp add: make_record_def)
  qed
  have acc: "accs M' = accs M" using M'(1) by (simp add: fold_birth_accs)
  show "unlisted M' t (cur M' t) (fst k)"
    unfolding unlisted_def rec_known_def
    using out re born acc timed_unborn [OF baseD(3) [OF b], of "Aux (Next_record ?a)" 1] zero
    by (simp add: make_record_def)
  show "spares M M' r" if "r \<notin> set (recs M)" "live M (Aux (Active r))" for r
  proof -
    have "r \<noteq> ?a" using that(2) dead by blast
    then show ?thesis using that re nr acc other(3) [of "Aux (Active r)"] by (simp add: spares_def make_record_def)
  qed
qed

lemma link_record:
  assumes b: "base M" and ok: "list_ok M" and un: "unlisted M t (cur M t) r"
    and st: "mem_step t (Write (Aux (Next_record r)) (Ptr e)) k M = Done y M'"
  shows "list_ok M'" "longer M M'" "unlisted M' t (cur M' t) r" "newest M' (Aux (Next_record r)) = Ptr e"
    "\<And>q. q \<noteq> r \<Longrightarrow> q \<notin> set (recs M) \<Longrightarrow> live M (Aux (Active q)) \<Longrightarrow> spares M M' q"
proof -
  let ?l = "Aux (Next_record r) :: domain_loc"
  obtain W where W: "msgs M' ?l = msgs M ?l @ [(Ptr e, W)]" "hist M' ?l (gen M ?l) = hist M ?l (gen M ?l) @ [(Ptr e, W)]"
    "Suc (latest M ?l) \<le> cur M' t (place M ?l)" "gen M' = gen M" "live M' = live M" "quiet M t ?l"
    by (rule write_facts [OF st])
  have r: "r \<notin> set (recs M)" "live M (Aux (Active r))" "rec_known M (cur M t) r"
    "\<forall>x \<in> set (accs M ?l 1). fst x = t" using un by (auto simp: unlisted_def)
  have g: "gen M ?l = 1" using list_okD(1) [OF ok, of r] r(2) by (simp add: one_record_def)
  show nw: "newest M' ?l = Ptr e" using W(1) by (simp add: newest_def)
  have other: "hist M' l = hist M l" "newest M' l = newest M l" if "l \<noteq> ?l" for l
    using step_frame(1,4) [OF baseD(1) [OF b] st, of l] that by simp_all
  have re: "recs M' = recs M" unfolding recs_def using other(1) [of "Aux Records"] by simp
  have nr: "hist M' (Aux (Next_record q)) = hist M (Aux (Next_record q))" "newest M' (Aux (Next_record q)) = newest M (Aux (Next_record q))"
    if "q \<noteq> r" for q
    using other [of "Aux (Next_record q)"] that by simp_all
  show lo: "longer M M'" by (rule longer_same [OF re]) (use nr(1) r(1) in metis)
  have li: "listed M V q j \<Longrightarrow> listed M' V q j" for V q j by (rule listed_longer [OF _ lo])
  show "list_ok M'"
    unfolding list_ok_def
  proof (intro conjI allI impI)
    show "one_record M' q" for q using list_okD(1) [OF ok, of q] W(4,5) by (simp add: one_record_def)
    show "distinct (recs M')" using list_okD(2) [OF ok] re by simp
    show "map fst (hist M' (Aux Records) 1) = Ptr None # map (\<lambda>r. Ptr (Some r)) (recs M')"
      using list_okD(3) [OF ok] re other(1) [of "Aux Records"] by simp
    fix j assume j: "j < length (recs M')"
    then have ne: "recs M ! j \<noteq> r" using r(1) re by (metis nth_mem)
    show "live M' (Aux (Active (recs M' ! j)))" using list_okD(4) [OF ok] j re W(5) by simp
    show "newest M' (Aux (Next_record (recs M' ! j))) = Ptr (if j = 0 then None else Some (recs M' ! (j - 1)))"
      using list_okD(5) [OF ok] j re nr(2) [OF ne] by simp
    show "listed M' (snd (hist M' (Aux Records) 1 ! Suc j)) (recs M' ! j) j"
      using li [OF list_okD(6) [OF ok]] j re other(1) [of "Aux Records"] by simp
  qed
  have up: "cur M t \<le> cur M' t" by (rule step_cur [OF baseD(2) [OF b] st])
  have "length (hist M' ?l 1) \<le> cur M' t (At ?l 1)" using W(2,3) g by (simp add: place_def latest_def msgs_def)
  then have "rec_known M' (cur M' t) r"
    using r(3) view_le_mono [OF up] unfolding rec_known_def by blast
  moreover have "\<forall>x \<in> set (accs M' ?l 1). fst x = t"
  proof
    fix x assume "x \<in> set (accs M' ?l 1)"
    then show "fst x = t" using step_accs_in [OF st, of "fst x" "snd x" ?l 1] r(4) by auto
  qed
  ultimately show "unlisted M' t (cur M' t) r" using r(1,2) re W(5) by (simp add: unlisted_def)
  show "spares M M' q" if "q \<noteq> r" "q \<notin> set (recs M)" "live M (Aux (Active q))" for q
  proof -
    have "accs M' (Aux (Next_record q)) = accs M (Aux (Next_record q))"
      by (rule step_accs_other [OF st]) (use that(1) in simp)
    then show ?thesis using that re nr W(5) by (simp add: spares_def)
  qed
qed

lemma nth_tl_map: "map fst xs = y # map f ys \<Longrightarrow> k < length ys \<Longrightarrow> fst (xs ! Suc k) = f (ys ! k)"
proof (cases xs)
  case (Cons x zs)
  moreover assume "map fst xs = y # map f ys" "k < length ys"
  ultimately have "map fst zs = map f ys" "k < length zs" using map_eq_imp_length_eq by fastforce+
  then show ?thesis using Cons \<open>k < length ys\<close> by (metis nth_Cons_Suc nth_map)
qed simp

lemma records_latest:
  assumes "base M" "list_ok M"
  shows "latest M (Aux Records) = Suc (length (recs M))" "msgs M (Aux Records) = hist M (Aux Records) 1"
    "newest M (Aux Records) = Ptr (if recs M = [] then None else Some (last (recs M)))"
proof -
  show m: "msgs M (Aux Records) = hist M (Aux Records) 1" using baseD(6) [OF assms(1)] by (simp add: msgs_def)
  have "length (map fst (hist M (Aux Records) 1)) = Suc (length (recs M))" unfolding list_okD(3) [OF assms(2)] by simp
  then show "latest M (Aux Records) = Suc (length (recs M))" by (simp add: latest_def m)
  have ne: "hist M (Aux Records) 1 \<noteq> []" using list_okD(3) [OF assms(2)] by auto
  have "newest M (Aux Records) = last (map fst (hist M (Aux Records) 1))"
    using last_map [OF ne, of fst] by (simp add: newest_def m)
  then show "newest M (Aux Records) = Ptr (if recs M = [] then None else Some (last (recs M)))"
    unfolding list_okD(3) [OF assms(2)] by (simp add: last_map)
qed

lemma push_record:
  assumes b: "base M" and ok: "list_ok M" and un: "unlisted M t (cur M t) r" and nx: "newest M (Aux (Next_record r)) = Ptr e"
    and st: "mem_step t (Cas True (Aux Records) (Ptr e) (Ptr (Some r)) release relaxed) k M = Done y M'"
    and won: "won y"
  shows "list_ok M'" "longer M M'" "held M' (cur M' t) r"
    "\<And>q. q \<noteq> r \<Longrightarrow> q \<notin> set (recs M) \<Longrightarrow> live M (Aux (Active q)) \<Longrightarrow> spares M M' q"
proof -
  let ?l = "Aux Records :: domain_loc"
  obtain v where y: "y = Swapped True v" using won by (cases y) simp_all
  have ms: "msgs M ?l = hist M ?l 1" "gen M ?l = 1" "place M ?l = At ?l 1"
    using records_latest(2) [OF b ok] baseD(6,8) [OF b] by simp_all
  obtain W where W: "hist M' ?l 1 = hist M ?l 1 @ [(Ptr (Some r), W)]"
    "snd (hist M ?l 1 ! (latest M ?l - 1)) \<le> W" "cur M t \<le> W" "Suc (latest M ?l) \<le> W (At ?l 1)"
    "Suc (latest M ?l) \<le> cur M' t (At ?l 1)" "gen M' = gen M" "live M' = live M" "0 < latest M ?l"
    "fst (hist M ?l 1 ! (latest M ?l - 1)) = Ptr e"
    using won_facts [OF st y] ms by (metis is_rel.simps(1))
  have r: "r \<notin> set (recs M)" "live M (Aux (Active r))" "rec_known M (cur M t) r" using un by (auto simp: unlisted_def)
  have other: "hist M' l = hist M l" "newest M' l = newest M l" if "l \<noteq> ?l" for l
    using step_frame(1,4) [OF baseD(1) [OF b] st, of l] that by simp_all
  have "hist M ?l 1 \<noteq> []" using list_okD(3) [OF ok] by auto
  then have re: "recs M' = recs M @ [r]" unfolding recs_def W(1) by simp
  show lo: "longer M M'" unfolding longer_def using re other(1) by simp
  have nx': "e = (if recs M = [] then None else Some (last (recs M)))"
  proof -
    have "newest M ?l = fst (hist M ?l 1 ! (latest M ?l - 1))" using newest_nth [OF W(8)] ms by simp
    then show ?thesis using records_latest(3) [OF b ok] W(9) by simp
  qed
  have len: "latest M ?l = Suc (length (recs M))" by (rule records_latest(1) [OF b ok])
  have len': "length (hist M ?l 1) = Suc (length (recs M))" using len ms by (simp add: latest_def)
  have kn: "rec_known M' V q = rec_known M V q" for V q by (rule rec_known_cong) (simp add: other)
  have low: "\<forall>j<length (recs M). rec_known M W (recs M ! j)"
  proof (cases "recs M = []")
    case False
    then obtain n where n: "length (recs M) = Suc n" by (cases "recs M") auto
    have "listed M (snd (hist M ?l 1 ! Suc n)) (recs M ! n) n" by (rule list_okD(6) [OF ok]) (simp add: n)
    then have "listed M W (recs M ! n) n" by (rule listed_mono) (use W(2) len n in simp)
    then show ?thesis using n by (simp add: listed_def less_Suc_eq_le)
  qed simp
  have new: "listed M' W r (length (recs M))"
    unfolding listed_def kn
  proof (intro conjI allI impI)
    fix j assume "j \<le> length (recs M)"
    then show "rec_known M W (recs M' ! j)"
      using low rec_known_mono [OF r(3) W(3)] by (cases "j = length (recs M)") (simp_all add: re nth_append)
  qed (use W(4) len in \<open>simp_all add: re\<close>)
  have li: "listed M V q j \<Longrightarrow> listed M' V q j" for V q j by (rule listed_longer [OF _ lo])
  show "list_ok M'"
    unfolding list_ok_def
  proof (intro conjI allI impI)
    show "one_record M' q" for q using list_okD(1) [OF ok, of q] W(6,7) by (simp add: one_record_def)
    show "distinct (recs M')" using list_okD(2) [OF ok] re r(1) by simp
    show "map fst (hist M' ?l 1) = Ptr None # map (\<lambda>r. Ptr (Some r)) (recs M')"
      using list_okD(3) [OF ok] re W(1) by simp
    fix j assume "j < length (recs M')"
    then consider "j < length (recs M)" | "j = length (recs M)" using re by fastforce
    then show "live M' (Aux (Active (recs M' ! j)))"
      "newest M' (Aux (Next_record (recs M' ! j))) = Ptr (if j = 0 then None else Some (recs M' ! (j - 1)))"
      "listed M' (snd (hist M' ?l 1 ! Suc j)) (recs M' ! j) j"
    proof (atomize (full), cases)
      case 1
      then show "live M' (Aux (Active (recs M' ! j))) \<and>
          newest M' (Aux (Next_record (recs M' ! j))) = Ptr (if j = 0 then None else Some (recs M' ! (j - 1))) \<and>
          listed M' (snd (hist M' ?l 1 ! Suc j)) (recs M' ! j) j"
        using list_okD(4,5) [OF ok, of j] li [OF list_okD(6) [OF ok]] re W(1,7) other(2) len'
        by (cases j) (simp_all add: nth_append)
    next
      case 2
      then show "live M' (Aux (Active (recs M' ! j))) \<and>
          newest M' (Aux (Next_record (recs M' ! j))) = Ptr (if j = 0 then None else Some (recs M' ! (j - 1))) \<and>
          listed M' (snd (hist M' ?l 1 ! Suc j)) (recs M' ! j) j"
        using new r(2) nx nx' re W(1,7) other(2) len' by (auto simp: nth_append last_conv_nth)
    qed
  qed
  have up: "cur M t \<le> cur M' t" by (rule step_cur [OF baseD(2) [OF b] st])
  show "held M' (cur M' t) r"
    unfolding held_def kn using rec_known_mono [OF r(3) up] W(5) len re by (auto intro!: exI [of _ "length (recs M)"])
  show "spares M M' q" if "q \<noteq> r" "q \<notin> set (recs M)" "live M (Aux (Active q))" for q
  proof -
    have "accs M' (Aux (Next_record q)) = accs M (Aux (Next_record q))"
      by (rule step_accs_other [OF st]) simp
    then show ?thesis using that re other W(7) by (simp add: spares_def)
  qed
qed

section \<open>The thread that moves\<close>

lemma listed_in: "listed M V r k \<Longrightarrow> r \<in> set (recs M)"
  by (auto simp: listed_def)

lemma held_in: "held M V r \<Longrightarrow> r \<in> set (recs M)"
  by (auto simp: held_def)

lemma still_spares:
  assumes "list_still M M'" "q \<notin> set (recs M)" "live M (Aux (Active q))"
    "accs M' (Aux (Next_record q)) = accs M (Aux (Next_record q))"
  shows "spares M M' q"
proof -
  have "recs M' = recs M" using assms(1) by (simp add: recs_def list_still_def)
  then show ?thesis using assms by (simp add: spares_def list_still_def)
qed

lemma spares_unlisted: "unlisted M u V r \<Longrightarrow> spares M M' r \<Longrightarrow> V \<le> W \<Longrightarrow> unlisted M' u W r"
  using rec_known_mono [of M V r W] rec_known_cong [of M' r M W] by (simp add: unlisted_def spares_def)

lemma domain_touches: "touched (domain_act d) = Some (Aux (Next_record q)) \<Longrightarrow> visits d = Some q \<or> (\<exists>e. d = A_link q e) \<or> source d = Some (Aux (Next_record q))"
  by (cases d) (auto simp: delete_node_def split: option.splits)

lemma list_domain_memory:
  assumes b: "base M" and ok: "list_ok M" and pc: "list_pc M t (cur M t) d"
    and st: "mem_step t (domain_act d) k M = Done y M'"
  shows "list_ok M' \<and> longer M M' \<and>
    (\<forall>q. fresh_record d \<noteq> Some q \<and> q \<notin> set (recs M) \<and> live M (Aux (Active q)) \<longrightarrow> spares M M' q) \<and>
    (\<forall>r. fresh_record d = Some r \<and> \<not> ((\<exists>e. d = A_push r e) \<and> won y) \<longrightarrow> unlisted M' t (cur M' t) r)"
proof -
  have still: ?thesis if ls: "list_still M M'" and nl: "\<And>q e. d \<noteq> A_link q e"
  proof -
    note ok' = list_still_ok [OF ls ok]
    have acc: "accs M' (Aux (Next_record q)) = accs M (Aux (Next_record q))" if "q \<notin> set (recs M)" for q
    proof (rule step_accs_other [OF st])
      show "touched (domain_act d) \<noteq> Some (Aux (Next_record q))"
        using domain_touches [of d q] list_pcD(1) [OF pc, of q] list_pcD(5) [OF pc] listed_in that nl by blast
    qed
    have sp: "spares M M' q" if "q \<notin> set (recs M)" "live M (Aux (Active q))" for q
      by (rule still_spares [OF ls that acc [OF that(1)]])
    have "unlisted M' t (cur M' t) r" if "fresh_record d = Some r" for r
    proof -
      have un: "unlisted M t (cur M t) r" by (rule list_pcD(3) [OF pc that])
      then show ?thesis
        using spares_unlisted [OF un sp step_cur [OF baseD(2) [OF b] st]] by (simp add: unlisted_def)
    qed
    then show ?thesis using ok' sp by blast
  qed
  have frame: "list_still M M'" if "\<not> lists_on d"
  proof -
    have "mem_step t (client_act shipped (Draining d, undefined)) k M = Done y M'" using st by simp
    then show ?thesis by (rule client_list_still [OF baseD(1) [OF b]]) (use that in simp)
  qed
  show ?thesis
  proof (cases d)
    case A_new
    then show ?thesis using new_record [OF b ok, of t k y M'] st by simp
  next
    case (A_link r e)
    have un: "unlisted M t (cur M t) r" using list_pcD(3) [OF pc] A_link by simp
    show ?thesis using link_record [OF b ok un, of e k y M'] st A_link by simp
  next
    case (A_push r e)
    have un: "unlisted M t (cur M t) r" and nx: "newest M (Aux (Next_record r)) = Ptr e"
      using list_pcD(3,4) [OF pc] A_push by simp_all
    show ?thesis
    proof (cases "won y")
      case True
      then show ?thesis using push_record [OF b ok un nx, of k y M'] st A_push by simp
    next
      case False
      then have "hist M' = hist M" "gen M' = gen M" "live M' = live M"
        using st A_push by (auto simp: cas_Done Let_def)
      then have "list_still M M'" using newest_cong [of M' M] by (simp add: list_still_def)
      then show ?thesis using still A_push by simp
    qed
  qed (use still frame in simp_all)
qed

lemma records_msg:
  assumes b: "base M" and ok: "list_ok M" and k: "0 < k" "k \<le> latest M (Aux Records)"
    and V: "snd (msgs M (Aux Records) ! (k - 1)) \<le> V"
    and p: "ptr (fst (msgs M (Aux Records) ! (k - 1))) = Some r"
  shows "k = k - 2 + 2" "listed M V r (k - 2)"
proof -
  have ms: "msgs M (Aux Records) = hist M (Aux Records) 1" by (rule records_latest(2) [OF b ok])
  have "k \<noteq> 1"
  proof
    assume "k = 1"
    moreover have "fst (hist M (Aux Records) 1 ! 0) = Ptr None"
      using list_okD(3) [OF ok] by (metis list.sel(1) list.simps(8) neq_Nil_conv nth_Cons_0 list.simps(9) list.distinct(1))
    ultimately show False using p ms by simp
  qed
  then show k2: "k = k - 2 + 2" using k(1) by simp
  let ?j = "k - 2"
  have j: "?j < length (recs M)" "k - 1 = Suc ?j" using k records_latest(1) [OF b ok] k2 by simp_all
  have "fst (hist M (Aux Records) 1 ! Suc ?j) = Ptr (Some (recs M ! ?j))"
    by (rule nth_tl_map [OF list_okD(3) [OF ok] j(1)])
  then have r: "recs M ! ?j = r" using p ms j(2) by simp
  have "listed M (snd (hist M (Aux Records) 1 ! Suc ?j)) (recs M ! ?j) ?j" by (rule list_okD(6) [OF ok j(1)])
  then show "listed M V r ?j" using V ms j(2) r by (auto intro: listed_mono)
qed

lemma next_listed:
  assumes ok: "list_ok M" and li: "listed M V r k" and nx: "newest M (Aux (Next_record r)) = c" and p: "ptr c = Some q"
  shows "listed M V q (k - 1)"
proof -
  have k: "k < length (recs M)" "recs M ! k = r" using li by (auto simp: listed_def)
  then have "c = Ptr (if k = 0 then None else Some (recs M ! (k - 1)))" using list_okD(5) [OF ok] nx by blast
  then have "0 < k" "recs M ! (k - 1) = q" using p by (auto split: if_splits)
  then show ?thesis using li by (auto simp: listed_def)
qed

section \<open>Where the thread that moves goes\<close>

definition onward :: "domain_pc + nat option \<Rightarrow> domain_pc option" where
  "onward f = (case f of Inl d \<Rightarrow> Some d | Inr p \<Rightarrow> None)"

lemma onward_simps [simp]: "onward (Inl d) = Some d" "onward (Inr p) = None"
  by (simp_all add: onward_def)

text \<open>A program point that asks nothing of the list.\<close>

definition plain :: "domain_pc \<Rightarrow> bool" where
  "plain d \<longleftrightarrow> visits d = None \<and> fresh_record d = None \<and> source d = None \<and> (\<forall>i. slot_no d = Some i \<longrightarrow> i < kSlots)"

lemma plain_pc: "plain d \<Longrightarrow> list_pc M u V d"
proof -
  assume "plain d"
  moreover then have "pushes d = None" by (cases d) (simp_all add: plain_def)
  ultimately show ?thesis by (simp add: plain_def list_pc_def)
qed

definition plain_flow :: "tl_cache \<Rightarrow> domain_flow \<Rightarrow> bool" where
  "plain_flow h y \<longleftrightarrow> (rec (fst y) = rec h \<or> rec (fst y) = None) \<and> (\<forall>d. onward (snd y) = Some d \<longrightarrow> plain d)"

lemma plain_sweep: "plain_flow h (sweep k hs kept ps n h)"
  by (induction ps arbitrary: kept) (simp_all add: plain_flow_def plain_def)

lemma plain_leave: "plain_flow h (leave h)"
  by (cases "bag h"; cases "rec h") (simp_all add: plain_flow_def plain_def fresh_cache_def kSlots_def)

lemma plain_done: "plain_flow h (scan_done k h)"
  using plain_leave [of h] by (cases k) (simp_all add: plain_flow_def)

lemma plain_adopt: "plain_flow h (adopt_next k b h)"
  using plain_done [of h k] by (simp add: adopt_next_def plain_flow_def plain_def split: option.split)

lemma plain_bag: "plain_flow (h\<lparr>bag := b\<rparr>) y \<Longrightarrow> plain_flow h y"
  by (simp add: plain_flow_def)

lemma plain_thread:
  assumes "plain_flow h y" "\<And>r. rec h = Some r \<Longrightarrow> held M V r"
  shows "list_thread M u V (onward (snd y)) (fst y)"
  unfolding list_thread_def using assms plain_pc by (auto simp: plain_flow_def)

lemma list_domain_thread:
  fixes M :: "(domain_loc, 'a cell) memory"
  assumes b: "base M" and ok: "list_ok M" and pc: "list_pc M t (cur M t) d"
    and hd: "\<And>r. rec h = Some r \<Longrightarrow> held M (cur M t) r" and dk: "domain_ok K d h"
    and st: "mem_step t (domain_act d) k M = Done y M'"
  shows "list_thread M' t (cur M' t) (onward (snd (domain_resume d y h))) (fst (domain_resume d y h))"
proof -
  have mm: "longer M M'" "list_ok M'" using list_domain_memory [OF b ok pc st] by blast+
  have un: "unlisted M' t (cur M' t) r" if "fresh_record d = Some r" "\<not> ((\<exists>e. d = A_push r e) \<and> won y)" for r
    using list_domain_memory [OF b ok pc st] that by blast
  have up: "cur M t \<le> cur M' t" by (rule step_cur [OF baseD(2) [OF b] st])
  have hd': "held M' (cur M' t) r" if "rec h = Some r" for r
    by (rule held_longer [OF held_mono [OF hd [OF that] up] mm(1)])
  have keep: "\<exists>j. listed M' (cur M' t) r j" if "visits d = Some r" for r
    using list_pcD(1) [OF pc that] listed_longer [OF listed_mono [OF _ up] mm(1)] by blast
  have plain: ?thesis if "plain_flow h (domain_resume d y h)"
    by (rule plain_thread [OF that hd'])
  have head: "\<exists>j. listed M' (cur M' t) q j" if a: "domain_act d = (Load (Aux Records) acquire :: (domain_loc, 'a cell) action)" "loaded y = Some q" for q
  proof -
    obtain n where n: "0 < n" "n \<le> latest M (Aux Records)" "y = Val (fst (msgs M (Aux Records) ! (n - 1)))"
      "snd (msgs M (Aux Records) ! (n - 1)) \<le> cur M' t"
      using load_facts [OF st [unfolded a(1)]] by (metis is_acq.simps(1))
    have "listed M (cur M' t) q (n - 2)"
      using records_msg(2) [OF b ok n(1,2,4)] n(3) a(2) by simp
    then show ?thesis using listed_longer [OF _ mm(1)] by blast
  qed
  have walk: "\<exists>j. listed M' (cur M' t) q j" if a: "domain_act d = (Read (Aux (Next_record r)) :: (domain_loc, 'a cell) action)" "visits d = Some r" "loaded y = Some q" for q r
  proof -
    obtain j where j: "listed M (cur M t) r j" using list_pcD(1) [OF pc a(2)] by blast
    have "y = Val (newest M (Aux (Next_record r)))" using now_read [OF baseD(1) [OF b] st [unfolded a(1)]] by simp
    then have "listed M (cur M t) q (j - 1)" using next_listed [OF ok j refl] a(3) by simp
    then show ?thesis using listed_longer [OF listed_mono [OF _ up] mm(1)] by blast
  qed
  show ?thesis
  proof (cases d)
    case A_head
    then show ?thesis using head hd'
      by (auto simp: try_record_def list_thread_def list_pc_def split: option.split)
  next
    case (A_try r)
    then show ?thesis using keep [of r] hd' listed_held
      by (auto simp: got_record_def list_thread_def list_pc_def)
  next
    case (A_next r)
    then show ?thesis using walk [of r] hd'
      by (auto simp: try_record_def list_thread_def list_pc_def split: option.split)
  next
    case A_new
    then show ?thesis using new_record(3,4) [OF b ok, of t k y M'] st hd'
      by (auto simp: list_thread_def list_pc_def)
  next
    case (A_link r e)
    have un: "unlisted M t (cur M t) r" using list_pcD(3) [OF pc] A_link by simp
    then show ?thesis using link_record(3,4) [OF b ok un, of e k y M'] st A_link hd'
      by (simp add: list_thread_def list_pc_def)
  next
    case (A_push r e)
    have u: "unlisted M t (cur M t) r" and nx: "newest M (Aux (Next_record r)) = Ptr e"
      using list_pcD(3,4) [OF pc] A_push by simp_all
    show ?thesis
    proof (cases "won y")
      case True
      then show ?thesis using push_record(3) [OF b ok u nx, of k y M'] st A_push
        by (simp add: got_record_def list_thread_def)
    next
      case False
      then show ?thesis using un [of r] A_push hd' by (simp add: list_thread_def list_pc_def)
    qed
  next
    case (Sc_adopt j)
    then show ?thesis using plain plain_adopt by simp
  next
    case (Sc_odelete j q n)
    then show ?thesis using plain plain_adopt by simp
  next
    case (Sc_head j)
    show ?thesis
    proof (cases "loaded y")
      case None
      then show ?thesis using plain plain_sweep Sc_head by (simp add: snapshot_next_def)
    next
      case (Some q)
      then show ?thesis using Sc_head head hd' by (simp add: snapshot_next_def list_thread_def list_pc_def kSlots_def)
    qed
  next
    case (Sc_slot j r i hs)
    then show ?thesis using keep [of r] hd' by (simp add: list_thread_def list_pc_def)
  next
    case (Sc_next j r hs)
    show ?thesis
    proof (cases "loaded y")
      case None
      then show ?thesis using plain plain_sweep Sc_next by (simp add: snapshot_next_def)
    next
      case (Some q)
      then show ?thesis using Sc_next walk [of r] hd' by (simp add: snapshot_next_def list_thread_def list_pc_def kSlots_def)
    qed
  next
    case (Sc_free j hs kept p rest n)
    then show ?thesis using plain plain_sweep by simp
  next
    case (Sc_count j n)
    then show ?thesis using plain plain_done by simp
  next
    case (O_cas q e)
    then show ?thesis using plain plain_leave [of h] by (simp add: plain_flow_def plain_def del: leave.simps)
  qed (use un list_pcD [OF pc] hd' plain in
      \<open>auto simp: list_thread_def list_pc_def plain_flow_def plain_def kSlots_def fresh_cache_def\<close>)
qed

section \<open>Every reachable state\<close>

lemma resume_domain:
  assumes "domain_of p = Some d"
  shows "domain_of (fst (client_resume (p, h) y)) = onward (snd (domain_resume d y h))"
    "snd (client_resume (p, h) y) = fst (domain_resume d y h)"
proof -
  obtain h' f where f: "domain_resume d y h = (h', f)" by (meson surj_pair)
  have "domain_of (fst (client_resume (p, h) y)) = onward f \<and> snd (client_resume (p, h) y) = h'"
    using assms f
    by (cases p rule: domain_of.cases; cases f) (auto simp: hp_reclaimer_def domain_of_continue)
  then show "domain_of (fst (client_resume (p, h) y)) = onward (snd (domain_resume d y h))"
    "snd (client_resume (p, h) y) = fst (domain_resume d y h)" using f by simp_all
qed

lemma resume_start:
  "domain_of (fst (client_resume (In_queue (Start x k), h) y)) = onward (snd (hp_start_op x h))"
  "snd (client_resume (In_queue (Start x k), h) y) = fst (hp_start_op x h)"
  by (cases x; simp add: hp_reclaimer_def domain_of_continue)+

lemma resume_else:
  assumes "domain_of p = None" "\<And>x k. p \<noteq> In_queue (Start x k)"
  shows "domain_of (fst (client_resume (p, h) y)) = None" "snd (client_resume (p, h) y) = h"
proof -
  have "domain_of (fst (client_resume (p, h) y)) = None \<and> snd (client_resume (p, h) y) = h"
  proof (cases p)
    case (In_queue q)
    then show ?thesis using assms by (cases q) auto
  qed (use assms in auto)
  then show "domain_of (fst (client_resume (p, h) y)) = None" "snd (client_resume (p, h) y) = h" by auto
qed

lemma slots_continue: "slots_named (continue k p)"
  by (cases k) (simp_all add: kSlots_def)

lemma client_slots_step: "client_slots (fst c) \<Longrightarrow> client_slots (fst (client_resume c y))"
proof (induction c y rule: client_resume.induct)
  case (1 q h y)
  have en: "slots_named (fst (enter k z))" for k :: "'a cont" and z :: "tl_cache \<times> (domain_pc + nat option)"
    by (cases "(k, z)" rule: enter.cases) (auto simp: slots_continue)
  show ?case by (cases q) (auto simp: en kSlots_def)
next
  case (2 d h y)
  have "client_slots (fst (in_domain Draining Drained z))" for z by (cases z; cases "snd z") auto
  then show ?case by simp
next
  case (3 d h y)
  have "client_slots (fst (in_domain Leaving Exited z))" for z by (cases z; cases "snd z") auto
  then show ?case by simp
qed simp_all

lemma lists_invD:
  assumes "lists_inv s"
  shows "list_ok (mem s)" "list_thread (mem s) u (cur (mem s) u) (domain_of (fst (thr s u))) (snd (thr s u))"
    "client_slots (fst (thr s u))"
  using assms by (auto simp: lists_inv_def)

lemma records_invD:
  assumes "records_inv s"
  shows "mem_wf (mem s)" "client_ok (thr s t)" "in_hand (thr s t) = Some r \<Longrightarrow> taken (mem s) r"
    "in_hand (thr s t) = Some r \<Longrightarrow> in_hand (thr s u) = Some r \<Longrightarrow> t = u"
  using assms unfolding records_inv_def by blast+

text \<open>A new record that nobody else has a hand on.\<close>

lemma fresh_hand:
  assumes "client_ok (p, h)" "domain_of p = Some d" "fresh_record d = Some r"
  shows "in_hand (p, h) = Some r"
proof -
  have dk: "domain_ok (place_of p) d h" using domain_client_ok [OF assms(2,1)] by blast
  have "kind_of d = K_guard" using assms(3) by (cases d) simp_all
  then have "rec h = None" using dk by (simp add: domain_ok_def)
  then show ?thesis using assms(2,3) by (simp add: in_hand_def fresh_in_hand_def)
qed

lemma list_thread_start:
  assumes hd: "\<And>r. rec h = Some r \<Longrightarrow> held M V r" and sl: "slots_named (Start x k)"
  shows "list_thread M u V (onward (snd (hp_start_op x h))) (fst (hp_start_op x h))"
  using assms by (cases x) (auto simp: list_thread_def list_pc_def kSlots_def)

lemma client_domain_act: "domain_of p = Some d \<Longrightarrow> client_act w (p, h) = domain_act d"
  by (cases p rule: domain_of.cases) (auto simp: hp_reclaimer_def)

lemma outside_touches:
  assumes "domain_of p = None" "touched (client_act w (p, h)) = Some (Aux l)"
  shows "l = Retired_count \<or> l = Freed_count"
proof (cases p)
  case (In_queue q)
  then show ?thesis using assms by (cases q) (auto simp: deref_def split: option.splits)
qed (use assms in auto)

lemma lists_step:
  assumes b: "base (mem s)" and ri: "records_inv s" and li: "lists_inv s"
    and st: "mem_step t (client_act w (thr s t)) k (mem s) = Done r M'"
  shows "lists_inv (stepped s t r M')"
proof -
  let ?M = "mem s"
  obtain p h where at: "thr s t = (p, h)" by (meson surj_pair)
  note ok = lists_invD(1) [OF li]
  have th: "list_thread ?M t (cur ?M t) (domain_of p) h" "client_slots p" "client_ok (p, h)"
    using lists_invD(2,3) [OF li, of t] records_invD(2) [OF ri, of t] at by simp_all
  have hd: "held ?M (cur ?M t) q" if "rec h = Some q" for q using th(1) that by (simp add: list_thread_def)
  have up: "cur ?M u \<le> cur M' u" for u by (rule step_cur [OF baseD(2) [OF b] st])
  have fresh: "r \<notin> set (recs ?M) \<and> live ?M (Aux (Active r)) \<and> (u \<noteq> t \<longrightarrow> (\<forall>e. domain_of p = Some e \<longrightarrow> fresh_record e \<noteq> Some r))"
    if d: "domain_of (fst (thr s u)) = Some d" "fresh_record d = Some r" for u d r
  proof -
    have "list_pc ?M u (cur ?M u) d" using lists_invD(2) [OF li, of u] d(1) by (simp add: list_thread_def)
    then have "unlisted ?M u (cur ?M u) r" using d(2) by (rule list_pcD(3))
    moreover have "u = t" if e: "domain_of p = Some e" "fresh_record e = Some r" for e
    proof -
      have "in_hand (thr s u) = Some r" "in_hand (thr s t) = Some r"
        using fresh_hand [OF _ d] fresh_hand [OF th(3) e] records_invD(2) [OF ri, of u] at
        by (metis prod.collapse)+
      then show ?thesis by (rule records_invD(4) [OF ri])
    qed
    ultimately show ?thesis by (auto simp: unlisted_def)
  qed
  have "list_ok M' \<and> longer ?M M' \<and>
      (\<forall>u d r. u \<noteq> t \<and> domain_of (fst (thr s u)) = Some d \<and> fresh_record d = Some r \<longrightarrow> spares ?M M' r) \<and>
      list_thread M' t (cur M' t) (domain_of (fst (client_resume (p, h) r))) (snd (client_resume (p, h) r))"
  proof (cases "domain_of p")
    case (Some d)
    have st': "mem_step t (domain_act d) k ?M = Done r M'" using st at client_domain_act [OF Some] by simp
    have pc: "list_pc ?M t (cur ?M t) d" using th(1) Some by (simp add: list_thread_def)
    have dk: "domain_ok (place_of p) d h" using domain_client_ok [OF Some th(3)] by blast
    show ?thesis
      using list_domain_memory [OF b ok pc st'] list_domain_thread [OF b ok pc hd dk st'] fresh Some
      by (auto simp: resume_domain [OF Some])
  next
    case None
    have ls: "list_still ?M M'"
      by (rule client_list_still [OF baseD(1) [OF b] st [unfolded at]]) (simp add: None)
    note ok' = list_still_ok [OF ls ok]
    have hd': "held M' (cur M' t) q" if "rec h = Some q" for q
      by (rule held_longer [OF held_mono [OF hd [OF that] up] ok'(2)])
    have "list_thread M' t (cur M' t) (domain_of (fst (client_resume (p, h) r))) (snd (client_resume (p, h) r))"
    proof (cases "\<exists>x j. p = In_queue (Start x j)")
      case True
      then obtain x j where p: "p = In_queue (Start x j)" by blast
      show ?thesis unfolding p resume_start
        by (rule list_thread_start [of _ _ _ _ j]) (use hd' th(2) p in simp_all)
    next
      case False
      then show ?thesis using resume_else [OF None, of h r] hd' by (auto simp: list_thread_def)
    qed
    moreover have "spares ?M M' q" if "q \<notin> set (recs ?M)" "live ?M (Aux (Active q))" for q
    proof (rule still_spares [OF ls that])
      have "touched (client_act w (p, h)) \<noteq> Some (Aux (Next_record q))"
        using outside_touches [OF None, of w h] by (auto simp del: One_nat_def)
      then show "accs M' (Aux (Next_record q)) = accs ?M (Aux (Next_record q))"
        using step_accs_other [OF st] at by simp
    qed
    ultimately show ?thesis using ok' fresh by blast
  qed
  then have mm: "list_ok M'" "longer ?M M'"
    and sp: "\<And>u d r. u \<noteq> t \<Longrightarrow> domain_of (fst (thr s u)) = Some d \<Longrightarrow> fresh_record d = Some r \<Longrightarrow> spares ?M M' r"
    and own: "list_thread M' t (cur M' t) (domain_of (fst (client_resume (p, h) r))) (snd (client_resume (p, h) r))"
    by blast+
  have "list_thread M' u (cur M' u) (domain_of (fst (thr s u))) (snd (thr s u))" if "u \<noteq> t" for u
    by (rule list_thread_frame [OF lists_invD(2) [OF li] up mm(2) sp [OF that]])
  then show ?thesis
    using mm own lists_invD(3) [OF li] client_slots_step [OF lists_invD(3) [OF li], of t r] at by (simp add: lists_inv_def)
qed

lemma in_leaving:
  "domain_of (fst (in_domain Leaving y z)) = onward (snd z)" "snd (in_domain Leaving y z) = fst z"
  "client_slots (fst (in_domain Leaving y z))"
  by (cases z; cases "snd z"; simp)+

lemma lists_call:
  assumes li: "lists_inv s" and cl: "client_call t x (thr s t) = Some (q, es)"
  shows "lists_inv (called s t q es)"
proof -
  obtain p h where at: "thr s t = (p, h)" by (meson surj_pair)
  have hd: "held (mem s) (cur (mem s) t) r" if "rec h = Some r" for r
    using lists_invD(2) [OF li, of t] at that by (simp add: list_thread_def)
  have idle: "list_thread (mem s) t (cur (mem s) t) None h" using hd by (simp add: list_thread_def)
  have "client_slots (fst q) \<and> list_thread (mem s) t (cur (mem s) t) (domain_of (fst q)) (snd q)"
    using cl
  proof (cases rule: hp_call_cases)
    case (queue y h)
    then show ?thesis using idle at by (cases y) auto
  next
    case (drain h)
    then show ?thesis using hd at by (simp add: list_thread_def list_pc_def)
  next
    case (look h)
    then show ?thesis using idle at by auto
  next
    case (exit g)
    let ?y = "if bag h \<noteq> [] then (h, Inl (Sc_adopt For_exit)) else leave h"
    have q: "q = in_domain Leaving Exited ?y" using exit at by (simp add: leave_thread_def)
    have "plain_flow h ?y" using plain_leave [of h] by (auto simp: plain_flow_def plain_def simp del: leave.simps)
    then have "list_thread (mem s) t (cur (mem s) t) (onward (snd ?y)) (fst ?y)" by (rule plain_thread [OF _ hd])
    then show ?thesis unfolding q by (simp only: in_leaving simp_thms)
  qed
  then show ?thesis using li by (simp add: lists_inv_def)
qed

lemma lists_sync:
  assumes li: "lists_inv s"
  shows "lists_inv (s\<lparr>mem := synchronize t u (mem s)\<rparr>)"
proof -
  let ?M = "mem s" let ?M' = "synchronize t u ?M"
  have ls: "list_still ?M ?M'" by (simp add: list_still_def)
  note ok = list_still_ok [OF ls lists_invD(1) [OF li]]
  have "list_thread ?M' v (cur ?M' v) (domain_of (fst (thr s v))) (snd (thr s v))" for v
  proof (rule list_thread_frame [OF lists_invD(2) [OF li] sync_cur ok(2)])
    fix d r assume d: "domain_of (fst (thr s v)) = Some d" "fresh_record d = Some r"
    have "list_pc ?M v (cur ?M v) d" using lists_invD(2) [OF li, of v] d(1) by (simp add: list_thread_def)
    then have "unlisted ?M v (cur ?M v) r" using d(2) by (rule list_pcD(3))
    then show "spares ?M ?M' r" by (intro still_spares [OF ls]) (simp_all add: unlisted_def)
  qed
  then show ?thesis using ok(1) lists_invD(3) [OF li] by (simp add: lists_inv_def)
qed

lemma lists_start: "lists_inv (hp_queue_start dflt a)"
proof -
  let ?M = "mem (hp_queue_start dflt a)"
  note m = hp_start_memory [of dflt a]
  have re: "recs ?M = []" unfolding recs_def m(8) by simp
  have "\<forall>r. one_record ?M r" unfolding one_record_def m(1,2) by simp
  then have "list_ok ?M" unfolding list_ok_def re m(8) by simp
  then show ?thesis by (simp add: lists_inv_def list_thread_def hp_start_thr fresh_cache_def)
qed

lemma lists_reach: "reach (hp_queue w) (hp_queue_start dflt a) s \<Longrightarrow> lists_inv s"
  by (rule hp_invariant [where I = lists_inv])
    (simp_all add: lists_start lists_call lists_sync lists_step [OF base_reach records_reach])

end
