(* ===== verification/Hp_Slots.thy ===== *)
theory Hp_Slots imports Hp_Lists begin

text \<open>
  The slots of a record, from hand to hand.  Whoever holds a record knows everything that was ever
  stored in its slots: the release of the \<^verbatim>\<open>active\<close> flag hands it on to the next holder.
  And whoever has seen a store to a slot finds the record in the list.
\<close>

section \<open>The view that goes with a record\<close>

text \<open>\<open>upto s r Q\<close>: the view of the thread that holds record \<open>r\<close>, or of the message that
  released it, satisfies \<open>Q\<close>.\<close>

definition upto :: "'a hp_state \<Rightarrow> nat \<Rightarrow> (domain_loc view \<Rightarrow> bool) \<Rightarrow> bool" where
  "upto s r Q \<longleftrightarrow>
     (\<forall>u. in_hand (thr s u) = Some r \<longrightarrow> Q (cur (mem s) u)) \<and>
     ((\<forall>u. in_hand (thr s u) \<noteq> Some r) \<longrightarrow> Q (snd (last (hist (mem s) (Aux (Active r)) 1))))"

definition rising :: "(domain_loc view \<Rightarrow> bool) \<Rightarrow> bool" where
  "rising Q \<longleftrightarrow> (\<forall>V W. V \<le> W \<longrightarrow> Q V \<longrightarrow> Q W)"

lemma risingD: "rising Q \<Longrightarrow> V \<le> W \<Longrightarrow> Q V \<Longrightarrow> Q W"
  unfolding rising_def by blast

lemma upto_impI: "upto s r P \<Longrightarrow> (\<And>V. P V \<Longrightarrow> Q V) \<Longrightarrow> upto s r Q"
  unfolding upto_def by blast

lemma upto_conj: "upto s r P \<Longrightarrow> upto s r Q \<Longrightarrow> upto s r (\<lambda>V. P V \<and> Q V)"
  unfolding upto_def by blast

lemma upto_held: "upto s r Q \<Longrightarrow> in_hand (thr s u) = Some r \<Longrightarrow> Q (cur (mem s) u)"
  unfolding upto_def by blast

lemma upto_holder:
  assumes "records_inv s" "in_hand (thr s u) = Some r" "Q (cur (mem s) u)"
  shows "upto s r Q"
proof -
  have "v = u" if "in_hand (thr s v) = Some r" for v using records_invD(4) [OF assms(1) that assms(2)] .
  then show ?thesis using assms(2,3) unfolding upto_def by blast
qed

text \<open>How a step passes a record on.\<close>

lemma exchange_hand:
  assumes ok: "client_ok (p, h)" and d: "domain_of p = Some d"
  shows "d = A_try r \<Longrightarrow> in_hand (p, h) = None \<and> in_hand (client_resume (p, h) y) = (if won y then Some r else None)"
    "d = A_new \<Longrightarrow> in_hand (p, h) = None \<and> in_hand (client_resume (p, h) y) = Some (the (loaded y))"
    "d = A_push r e \<Longrightarrow> in_hand (p, h) = Some r \<and> in_hand (client_resume (p, h) y) = Some r"
    "d = X_release r \<Longrightarrow> in_hand (p, h) = Some r \<and> in_hand (client_resume (p, h) y) = None"
proof -
  have dk: "domain_ok (place_of p) d h" using domain_client_ok [OF d ok] by blast
  have g: "rec h = None" if "kind_of d = K_guard" using dk that by (simp add: domain_ok_def)
  have c: "in_hand (client_resume (p, h) y) =
      (case rec (fst (domain_resume d y h)) of Some r \<Rightarrow> Some r
       | None \<Rightarrow> fresh_in_hand (onward (snd (domain_resume d y h))))"
    unfolding in_hand_def resume_domain [OF d] ..
  have i: "in_hand (p, h) = (case rec h of Some r \<Rightarrow> Some r | None \<Rightarrow> fresh_record d)"
    using d by (simp add: in_hand_def fresh_in_hand_def split: option.split)
  show "d = A_try r \<Longrightarrow> in_hand (p, h) = None \<and> in_hand (client_resume (p, h) y) = (if won y then Some r else None)"
    using g d by (auto simp: c i fresh_in_hand_def got_record_def)
  show "d = A_new \<Longrightarrow> in_hand (p, h) = None \<and> in_hand (client_resume (p, h) y) = Some (the (loaded y))"
    using g d by (auto simp: c i fresh_in_hand_def)
  show "d = A_push r e \<Longrightarrow> in_hand (p, h) = Some r \<and> in_hand (client_resume (p, h) y) = Some r"
    using g d by (auto simp: c i fresh_in_hand_def got_record_def)
  show "d = X_release r \<Longrightarrow> in_hand (p, h) = Some r \<and> in_hand (client_resume (p, h) y) = None"
    using dk d by (auto simp: c i fresh_in_hand_def domain_ok_def fresh_cache_def)
qed

lemma outside_hand:
  assumes "client_ok (p, h)" "domain_of p = None"
  shows "in_hand (client_resume (p, h) y) = in_hand (p, h)"
proof (cases "\<exists>x k. p = In_queue (Start x k)")
  case True
  then obtain x k where p: "p = In_queue (Start x k)" by blast
  have "rec (fst (hp_start_op x h)) = rec h" "fresh_in_hand (onward (snd (hp_start_op x h))) = None"
    by (cases x; simp add: fresh_in_hand_def)+
  moreover have "fresh_in_hand (domain_of (fst (In_queue (Start x k), h))) = None" by (simp add: fresh_in_hand_def)
  ultimately show ?thesis unfolding p in_hand_def resume_start by (simp split: option.split)
next
  case False
  then have "domain_of (fst (client_resume (p, h) y)) = None" "snd (client_resume (p, h) y) = h"
    using resume_else [OF assms(2), of h y] by blast+
  then show ?thesis using assms(2) by (simp add: in_hand_def split: option.split)
qed

lemma active_frame:
  assumes wf: "mem_wf M" and st: "mem_step t (client_act w (p, h)) k M = Done y M'"
    and d: "\<And>d. domain_of p = Some d \<Longrightarrow> \<not> exchanges d"
  shows "hist M' (Aux (Active r)) = hist M (Aux (Active r))"
  by (rule step_frame(1) [OF wf st client_writes]) (use d in simp)

lemma upto_step:
  assumes b: "base (mem s)" and ri: "records_inv s" and li: "lists_inv s"
    and st: "mem_step t (client_act w (thr s t)) k (mem s) = Done y M'"
    and Q: "rising Q" and up: "upto s r Q" and lv: "live (mem s) (Aux (Active r))"
  shows "upto (stepped s t y M') r Q"
proof -
  let ?M = "mem s" let ?s' = "stepped s t y M'"
  obtain p h where at: "thr s t = (p, h)" by (meson surj_pair)
  have ok: "client_ok (p, h)" using records_invD(2) [OF ri, of t] at by simp
  have cur: "cur ?M u \<le> cur M' u" for u by (rule step_cur [OF baseD(2) [OF b] st])
  have same: ?thesis if "in_hand (client_resume (p, h) y) = in_hand (p, h)"
    "hist M' (Aux (Active r)) = hist ?M (Aux (Active r))"
  proof -
    have "in_hand (thr ?s' u) = in_hand (thr s u)" for u using that(1) at by simp
    then show ?thesis using up that(2) risingD [OF Q cur] unfolding upto_def by simp
  qed
  have away: ?thesis if "in_hand (p, h) \<noteq> Some r" "in_hand (client_resume (p, h) y) \<noteq> Some r"
    "hist M' (Aux (Active r)) = hist ?M (Aux (Active r))"
  proof -
    have "in_hand (thr ?s' u) = Some r \<longleftrightarrow> in_hand (thr s u) = Some r" for u using that(1,2) at by simp
    then show ?thesis using up that(3) risingD [OF Q cur] unfolding upto_def by simp
  qed
  show ?thesis
  proof (cases "domain_of p")
    case None
    then show ?thesis using same outside_hand [OF ok None] active_frame [OF baseD(1) [OF b] st [unfolded at]] by simp
  next
    case (Some d)
    note hands = exchange_hand [OF ok Some, where y = y]
    have st': "mem_step t (domain_act d) k ?M = Done y M'" using st at client_domain_act [OF Some] by simp
    show ?thesis
    proof (cases d)
      case (A_try q)
      note h = hands(1) [OF A_try]
      show ?thesis
      proof (cases "won y \<and> q = r")
        case True
        then obtain v where y: "y = Swapped True v" by (cases y) auto
        have free: "in_hand (thr s u) \<noteq> Some r" for u
        proof
          assume "in_hand (thr s u) = Some r"
          then have "newest ?M (Aux (Active r)) = Flag True" using records_invD(3) [OF ri] by (simp add: taken_def)
          moreover have "newest ?M (Aux (Active r)) = Flag False"
            using now_cas [OF baseD(1) [OF b] st' [unfolded A_try domain_act.simps]] True by auto
          ultimately show False by simp
        qed
        have g: "gen ?M (Aux (Active r)) = 1" using list_okD(1) [OF lists_invD(1) [OF li], of r] lv by (simp add: one_record_def)
        have ms: "msgs ?M (Aux (Active r)) = hist ?M (Aux (Active r)) 1" by (simp add: msgs_def g)
        have c: "mem_step t (Cas False (Aux (Active r)) (Flag False) (Flag True) acquire relaxed) k ?M = Done y M'"
          using st' A_try True by simp
        have "snd (msgs ?M (Aux (Active r)) ! (latest ?M (Aux (Active r)) - 1)) \<le> cur M' t \<and> 0 < latest ?M (Aux (Active r))"
          using won_facts [OF c y] by (metis is_acq.simps(1))
        then have "snd (last (hist ?M (Aux (Active r)) 1)) \<le> cur M' t"
          using ms last_conv_nth [of "hist ?M (Aux (Active r)) 1"] by (auto simp: latest_def)
        then have q: "Q (cur M' t)" using up free risingD [OF Q] unfolding upto_def by blast
        have "in_hand (thr ?s' u) = Some r \<longleftrightarrow> u = t" for u using free h True at by simp
        then show ?thesis using q unfolding upto_def by auto
      next
        case False
        have hs: "hist M' (Aux (Active r)) = hist ?M (Aux (Active r))"
        proof (cases "q = r")
          case True
          then show ?thesis using False st' A_try by (auto simp: cas_Done Let_def)
        next
          case False
          then show ?thesis by (intro step_frame(1) [OF baseD(1) [OF b] st']) (simp add: A_try)
        qed
        show ?thesis by (rule away) (use h False hs in auto)
      qed
    next
      case A_new
      have y: "y = Addr (fst k)" and dead: "\<not> live ?M (Aux (Active (fst k)))"
        using st' A_new by (auto simp: new_Done make_record_def)
      then have ne: "fst k \<noteq> r" using lv by blast
      have hs: "hist M' (Aux (Active r)) = hist ?M (Aux (Active r))"
        by (rule step_frame(1) [OF baseD(1) [OF b] st']) (use A_new ne in \<open>simp add: make_record_def\<close>)
      show ?thesis by (rule away) (use hands(2) [OF A_new] hs y ne in simp_all)
    next
      case (A_push q e)
      have hs: "hist M' (Aux (Active r)) = hist ?M (Aux (Active r))"
        by (rule step_frame(1) [OF baseD(1) [OF b] st']) (use A_push in simp)
      show ?thesis by (rule same) (use hands(3) [OF A_push] hs in simp_all)
    next
      case (X_release q)
      note h = hands(4) [OF X_release]
      show ?thesis
      proof (cases "q = r")
        case True
        have g: "gen ?M (Aux (Active r)) = 1" using list_okD(1) [OF lists_invD(1) [OF li], of r] lv by (simp add: one_record_def)
        have c: "mem_step t (Store (Aux (Active r)) (Flag False) release) k ?M = Done y M'"
          using st' X_release True by simp
        obtain W where W: "hist M' (Aux (Active r)) 1 = hist ?M (Aux (Active r)) 1 @ [(Flag False, W)]" "cur ?M t \<le> W"
          using store_facts [OF c] g by (metis is_rel.simps(1))
        have "Q (cur ?M t)" using up h True at unfolding upto_def by simp
        then have q: "Q W" by (rule risingD [OF Q W(2)])
        have "in_hand (thr ?s' u) \<noteq> Some r" for u
        proof (cases "u = t")
          case False
          then show ?thesis using records_invD(4) [OF ri, of t r u] h True at by auto
        qed (use h at in simp)
        then show ?thesis using q W(1) unfolding upto_def by simp
      next
        case False
        have hs: "hist M' (Aux (Active r)) = hist ?M (Aux (Active r))"
          by (rule step_frame(1) [OF baseD(1) [OF b] st']) (use X_release False in simp)
        show ?thesis by (rule away) (use h False hs in auto)
      qed
    qed (use same client_calm(2) [OF Some ok] active_frame [OF baseD(1) [OF b] st [unfolded at]] Some in simp_all)
  qed
qed

lemma upto_call:
  assumes ri: "records_inv s" and up: "upto s r Q" and cl: "client_call t x (thr s t) = Some (q, es)"
  shows "upto (called s t q es) r Q"
proof -
  have "in_hand (thr (called s t q es) u) = in_hand (thr s u)" for u
    using call_ok_hand(2) [OF records_invD(2) [OF ri] cl] by simp
  then show ?thesis using up by (simp add: upto_def)
qed

lemma upto_sync: "rising Q \<Longrightarrow> upto s r Q \<Longrightarrow> upto (s\<lparr>mem := synchronize t u (mem s)\<rparr>) r Q"
  unfolding upto_def using risingD [OF _ sync_cur] by (simp, blast)

section \<open>What the view knows of the slots\<close>

definition knows_slots :: "(domain_loc, 'a cell) memory \<Rightarrow> nat \<Rightarrow> domain_loc view \<Rightarrow> bool" where
  "knows_slots M r V \<longleftrightarrow>
     length (hist M (Aux (Active r)) 1) \<le> V (At (Aux (Active r)) 1) \<and>
     (\<forall>i<kSlots. length (hist M (Aux (Slot_of r i)) 1) \<le> V (slot_at r i) \<and>
        (\<forall>m \<in> set (hist M (Aux (Slot_of r i)) 1). snd m \<le> V))"

lemma knows_slots_rising: "rising (knows_slots M r)"
  unfolding rising_def knows_slots_def by (auto elim!: view_le_mono order.trans)

definition slot_msgs :: "(domain_loc, 'a cell) memory \<Rightarrow> nat \<Rightarrow> nat \<Rightarrow> bool" where
  "slot_msgs M r i \<longleftrightarrow>
     hist M (Aux (Slot_of r i)) 1 \<noteq> [] \<and> fst (hd (hist M (Aux (Slot_of r i)) 1)) = Ptr None \<and>
     (\<forall>k. 0 < k \<and> k < length (hist M (Aux (Slot_of r i)) 1) \<longrightarrow> Suc k \<le> snd (hist M (Aux (Slot_of r i)) 1 ! k) (slot_at r i)) \<and>
     (r \<notin> set (recs M) \<longrightarrow> length (hist M (Aux (Slot_of r i)) 1) = 1)"

definition slots_inv :: "'a hp_state \<Rightarrow> bool" where
  "slots_inv s \<longleftrightarrow>
     (\<forall>r. live (mem s) (Aux (Active r)) \<longrightarrow>
        upto s r (knows_slots (mem s) r) \<and> (\<forall>i<kSlots. slot_msgs (mem s) r i))"

lemma slots_invD:
  assumes "slots_inv s" "live (mem s) (Aux (Active r))"
  shows "upto s r (knows_slots (mem s) r)" "i < kSlots \<Longrightarrow> slot_msgs (mem s) r i"
  using assms by (auto simp: slots_inv_def)

text \<open>Who writes a slot, a flag, or allocates a record.\<close>

lemma domain_slot_writes:
  "Aux (Slot_of r i) \<in> writes (domain_act d) k \<Longrightarrow>
     d = A_new \<and> k = r \<or>
     writes_record d = Some r \<and> slot_no d = Some i \<and> (\<exists>v. domain_act d = Store (Aux (Slot_of r i)) (Ptr v) release)"
  by (cases d) (auto simp: delete_node_def make_record_def make_orphan_def split: option.splits)

lemma domain_active_writes:
  "Aux (Active r) \<in> writes (domain_act d) k \<Longrightarrow> d = A_new \<and> k = r \<or> d = A_try r \<or> d = X_release r"
  by (cases d) (simp_all add: delete_node_def make_record_def make_orphan_def split: option.splits)

lemma slot_here:
  assumes "list_ok M" "live M (Aux (Active r))" "i < kSlots"
  shows "gen M (Aux (Slot_of r i)) = 1" "live M (Aux (Slot_of r i))" "msgs M (Aux (Slot_of r i)) = hist M (Aux (Slot_of r i)) 1"
    "gen M (Aux (Active r)) = 1" "msgs M (Aux (Active r)) = hist M (Aux (Active r)) 1"
proof -
  have "i = 0 \<or> i = 1" using assms(3) by (auto simp: kSlots_def)
  then show g: "gen M (Aux (Slot_of r i)) = 1" and "live M (Aux (Slot_of r i))"
    and a: "gen M (Aux (Active r)) = 1"
    using list_okD(1) [OF assms(1), of r] assms(2) by (auto simp: one_record_def)
  show "msgs M (Aux (Slot_of r i)) = hist M (Aux (Slot_of r i)) 1" "msgs M (Aux (Active r)) = hist M (Aux (Active r)) 1"
    unfolding msgs_def g a by (rule refl)+
qed

lemma slot_place: "list_ok M \<Longrightarrow> live M (Aux (Active r)) \<Longrightarrow> i < kSlots \<Longrightarrow> place M (Aux (Slot_of r i)) = slot_at r i"
  by (simp add: place_def slot_here(1))

lemma slot_msgs_longer: "slot_msgs M r i \<Longrightarrow> longer M M' \<Longrightarrow>
    hist M' (Aux (Slot_of r i)) 1 = hist M (Aux (Slot_of r i)) 1 \<Longrightarrow> slot_msgs M' r i"
  unfolding slot_msgs_def longer_def by (metis Un_iff set_append)

lemma longer_step:
  assumes b: "base (mem s)" and li: "lists_inv s" and st: "mem_step t (client_act w (thr s t)) k (mem s) = Done y M'"
  shows "longer (mem s) M'"
proof -
  obtain p h where at: "thr s t = (p, h)" by (meson surj_pair)
  note lo = lists_invD(1) [OF li]
  show ?thesis
  proof (cases "domain_of p")
    case None
    show ?thesis
      by (rule list_still_ok(2) [OF client_list_still [OF baseD(1) [OF b] st [unfolded at]] lo]) (simp add: None)
  next
    case (Some d)
    have "list_pc (mem s) t (cur (mem s) t) d" using lists_invD(2) [OF li, of t] at Some by (simp add: list_thread_def)
    then show ?thesis using list_domain_memory [OF b lo] st at client_domain_act [OF Some] by metis
  qed
qed

lemma slots_step:
  fixes s :: "'a hp_state"
  assumes b: "base (mem s)" and ri: "records_inv s" and li: "lists_inv s" and sl: "slots_inv s"
    and ri': "records_inv (stepped s t y M')" and li': "lists_inv (stepped s t y M')"
    and st: "mem_step t (client_act w (thr s t)) k (mem s) = Done y M'"
  shows "slots_inv (stepped s t y M')"
proof -
  let ?M = "mem s" let ?s' = "stepped s t y M'"
  obtain p h where at: "thr s t = (p, h)" by (meson surj_pair)
  have ok: "client_ok (p, h)" using records_invD(2) [OF ri, of t] at by simp
  have wf: "mem_wf ?M" by (rule baseD(1) [OF b])
  have lo: "list_ok ?M" "list_ok M'" using lists_invD(1) [OF li] lists_invD(1) [OF li'] by simp_all
  have cur: "cur ?M t \<le> cur M' t" by (rule step_cur [OF baseD(2) [OF b] st])
  have lng: "longer ?M M'" by (rule longer_step [OF b li st])
  have "upto ?s' r (knows_slots M' r) \<and> (\<forall>i<kSlots. slot_msgs M' r i)" if lv': "live M' (Aux (Active r))" for r
  proof -
    have held: ?thesis if "in_hand (thr ?s' t) = Some r" "knows_slots M' r (cur M' t)" "\<forall>i<kSlots. slot_msgs M' r i"
      using upto_holder [OF ri' that(1), of "knows_slots M' r"] that(2,3) by simp
    have frame: ?thesis if lv: "live ?M (Aux (Active r))"
      and a: "Aux (Active r) \<notin> writes (client_act w (p, h)) (fst k)"
      and sw: "\<And>i. Aux (Slot_of r i) \<notin> writes (client_act w (p, h)) (fst k)"
    proof -
      have ha: "hist M' (Aux (Active r)) = hist ?M (Aux (Active r))"
        by (rule step_frame(1) [OF wf st]) (use a at in simp)
      have hs: "hist M' (Aux (Slot_of r i)) = hist ?M (Aux (Slot_of r i))" for i
        by (rule step_frame(1) [OF wf st]) (use sw at in simp)
      have "knows_slots M' r = knows_slots ?M r" by (rule ext) (simp add: knows_slots_def ha hs)
      moreover have "upto ?s' r (knows_slots ?M r)"
        by (rule upto_step [OF b ri li st knows_slots_rising slots_invD(1) [OF sl lv] lv])
      moreover have "slot_msgs M' r i" if "i < kSlots" for i
        by (rule slot_msgs_longer [OF slots_invD(2) [OF sl lv that] lng]) (simp add: hs)
      ultimately show ?thesis by simp
    qed
    show ?thesis
    proof (cases "domain_of p")
      case None
      have nw: "Aux l \<notin> writes (client_act w (p, h)) (fst k)" if "l = Active r \<or> (\<exists>i. l = Slot_of r i)" for l
        using queue_writes [of _ l w "fst k"] None that by (cases p) auto
      have "Aux (Active r) \<notin> allocs (client_act w (p, h)) (fst k)"
        using nw [of "Active r"] by (cases "client_act w (p, h)") auto
      then have "live ?M (Aux (Active r))" using step_allocs(1) [OF wf st] lv' at by metis
      then show ?thesis by (rule frame) (use nw in auto)
    next
      case (Some d)
      have act: "client_act w (p, h) = domain_act d" by (rule client_domain_act [OF Some])
      have st': "mem_step t (domain_act d) k ?M = Done y M'" using st at act by simp
      have dk: "domain_ok (place_of p) d h" using domain_client_ok [OF Some ok] by blast
      have pc: "list_pc ?M t (cur ?M t) d" "\<And>q. rec h = Some q \<Longrightarrow> held ?M (cur ?M t) q"
        using lists_invD(2) [OF li, of t] at Some by (auto simp: list_thread_def)
      note hands = exchange_hand [OF ok Some, where y = y]
      have new: ?thesis if n: "d = A_new" "fst k = r"
      proof (rule held)
        have "\<forall>(l, v) \<in> set (make_record r :: (domain_loc \<times> 'a cell) list). \<not> live ?M l" and y: "y = Addr r"
          and M': "M' = fold (birth t) (make_record r) ?M"
          using st' n by (auto simp: new_Done list_all_iff)
        then have dead: "\<not> live ?M (Aux (Active r))" "\<not> live ?M (Aux (Slot_of r 0))" "\<not> live ?M (Aux (Slot_of r 1))"
          by (auto simp: make_record_def)
        have nin: "r \<notin> set (recs ?M)" using dead recs_live [OF lo(1)] by blast
        have g: "gen ?M (Aux (Active r)) = 0" "gen ?M (Aux (Slot_of r 0)) = 0" "gen ?M (Aux (Slot_of r 1)) = 0"
          using list_okD(1) [OF lo(1), of r] dead by (simp_all add: one_record_def)
        have dist: "distinct (map fst (make_record r :: (domain_loc \<times> 'a cell) list))" by (simp add: make_record_def)
        have a: "hist M' (Aux (Active r)) 1 = [(Flag True, blind)]" "1 \<le> cur M' t (At (Aux (Active r)) 1)"
          using fold_birth_new [OF dist, of "Aux (Active r)" "Flag True" t ?M] M' g by (simp_all add: make_record_def)
        have s: "hist M' (Aux (Slot_of r i)) 1 = [(Ptr None, blind)] \<and> 1 \<le> cur M' t (slot_at r i)" if "i < kSlots" for i
        proof -
          have "i = 0 \<or> i = 1" using that by (auto simp: kSlots_def)
          then show ?thesis
            using fold_birth_new [OF dist, of "Aux (Slot_of r i)" "Ptr None" t ?M] M' g by (auto simp: make_record_def)
        qed
        show "in_hand (thr ?s' t) = Some r" using hands(2) [OF n(1)] y at by simp
        show "knows_slots M' r (cur M' t)" unfolding knows_slots_def using a s by (auto simp: le_fun_def)
        show "\<forall>i<kSlots. slot_msgs M' r i" unfolding slot_msgs_def using s by auto
      qed
      show ?thesis
      proof (cases "live ?M (Aux (Active r))")
        case False
        then have "Aux (Active r) \<in> allocs (domain_act d :: (domain_loc, 'a cell) action) (fst k)"
          using step_allocs(1) [OF wf st', of "Aux (Active r)"] lv' by argo
        then have "d = A_new \<and> fst k = r"
          by (cases d) (auto simp: delete_node_def make_record_def make_orphan_def split: option.splits)
        then show ?thesis using new by blast
      next
        case lv: True
        note kn = slots_invD [OF sl lv]
        have n: "\<not> (d = A_new \<and> fst k = r)"
          using st' lv by (auto simp: new_Done make_record_def)
        consider (slot) i v where "writes_record d = Some r" "slot_no d = Some i" "domain_act d = (Store (Aux (Slot_of r i)) (Ptr v) release :: (domain_loc, 'a cell) action)"
          | (taking) "d = A_try r" | (leaving) "d = X_release r"
          | (other) "Aux (Active r) \<notin> writes (client_act w (p, h)) (fst k)" "\<And>i. Aux (Slot_of r i) \<notin> writes (client_act w (p, h)) (fst k)"
          using domain_slot_writes [of r _ d "fst k", where ?'a = 'a] domain_active_writes [of r d "fst k", where ?'a = 'a] n act by metis
        then show ?thesis
        proof cases
          case other
          then show ?thesis by (rule frame [OF lv])
        next
          case (slot i v)
          have i: "i < kSlots" by (rule list_pcD(2) [OF pc(1) slot(2)])
          have rec: "rec h = Some r" using dk slot(1) by (simp add: domain_ok_def)
          have nx: "\<not> exchanges d" using slot(3) by (cases d) (auto simp: delete_node_def split: option.splits)
          have hand: "in_hand (p, h) = Some r" "in_hand (thr ?s' t) = Some r"
            using rec client_calm(2) [OF Some ok nx, of y] at by (simp_all add: in_hand_def)
          note here = slot_here [OF lo(1) lv i]
          let ?l = "Aux (Slot_of r i) :: domain_loc"
          obtain W where W: "hist M' ?l 1 = hist ?M ?l 1 @ [(Ptr v, W)]" "W \<le> cur M' t"
            "Suc (length (hist ?M ?l 1)) \<le> W (slot_at r i)" "Suc (length (hist ?M ?l 1)) \<le> cur M' t (slot_at r i)"
            using store_facts [OF st' [unfolded slot(3)]] here slot_place [OF lo(1) lv i]
            by (metis is_rel.simps(1) latest_def)
          have other: "hist M' l = hist ?M l" if "l \<noteq> ?l" for l
            by (rule step_frame(1) [OF wf st']) (use slot(3) that in simp)
          have k0: "knows_slots ?M r (cur ?M t)" using upto_held [OF kn(1)] hand(1) at by simp
          then have k1: "knows_slots ?M r (cur M' t)" by (rule risingD [OF knows_slots_rising cur])
          have "knows_slots M' r (cur M' t)"
            unfolding knows_slots_def
          proof (intro conjI allI impI)
            show "length (hist M' (Aux (Active r)) 1) \<le> cur M' t (At (Aux (Active r)) 1)"
              using k1 other [of "Aux (Active r)"] by (simp add: knows_slots_def)
            fix j assume j: "j < kSlots"
            show "length (hist M' (Aux (Slot_of r j)) 1) \<le> cur M' t (slot_at r j)"
              using k1 j W(1,4) other [of "Aux (Slot_of r j)"] by (cases "j = i") (simp_all add: knows_slots_def)
            show "\<forall>m \<in> set (hist M' (Aux (Slot_of r j)) 1). snd m \<le> cur M' t"
              using k1 j W(1,2) other [of "Aux (Slot_of r j)"] by (cases "j = i") (simp_all add: knows_slots_def)
          qed
          moreover have "slot_msgs M' r j" if j: "j < kSlots" for j
          proof (cases "j = i")
            case False
            then show ?thesis
              by (intro slot_msgs_longer [OF kn(2) [OF j] lng]) (simp add: other)
          next
            case True
            have nn: "r \<in> set (recs M')"
              using held_in [OF held_longer [OF pc(2) [OF rec] lng]] .
            show ?thesis
              using kn(2) [OF i] W(1,3) nn unfolding slot_msgs_def True
              by (auto simp: nth_append less_Suc_eq)
          qed
          ultimately show ?thesis using held hand(2) by blast
        next
          case taking
          note h = hands(1) [OF taking]
          have c: "mem_step t (Cas False (Aux (Active r)) (Flag False) (Flag True) acquire relaxed) k ?M = Done y M'"
            using st' taking by simp
          have os: "hist M' l = hist ?M l" if "l \<noteq> Aux (Active r)" for l
            by (rule step_frame(1) [OF wf st']) (use taking that in simp)
          have sm: "slot_msgs M' r i" if "i < kSlots" for i
            by (rule slot_msgs_longer [OF kn(2) [OF that] lng]) (simp add: os)
          have up: "upto ?s' r (knows_slots ?M r)"
            by (rule upto_step [OF b ri li st knows_slots_rising kn(1) lv])
          show ?thesis
          proof (cases "won y")
            case True
            then obtain v where y: "y = Swapped True v" by (cases y) auto
            have hand: "in_hand (thr ?s' t) = Some r" using h True at by simp
            have a: "length (hist M' (Aux (Active r)) 1) \<le> cur M' t (At (Aux (Active r)) 1)"
              using won_facts [OF c y] slot_here(4,5) [OF lo(1) lv, of 0]
              by (metis (no_types, lifting) kSlots_def length_append_singleton latest_def place_def zero_less_numeral)
            have "knows_slots ?M r (cur M' t)" using upto_held [OF up hand] by simp
            then have "knows_slots M' r (cur M' t)" using a os by (simp add: knows_slots_def)
            then show ?thesis using held hand sm by blast
          next
            case False
            then have "hist M' (Aux (Active r)) = hist ?M (Aux (Active r))" using c by (auto simp: cas_Done Let_def)
            then have "knows_slots M' r = knows_slots ?M r" by (intro ext) (simp add: knows_slots_def os)
            then show ?thesis using up sm by simp
          qed
        next
          case leaving
          note h = hands(4) [OF leaving]
          have c: "mem_step t (Store (Aux (Active r)) (Flag False) release) k ?M = Done y M'"
            using st' leaving by simp
          have os: "hist M' l = hist ?M l" if "l \<noteq> Aux (Active r)" for l
            by (rule step_frame(1) [OF wf st']) (use leaving that in simp)
          have sm: "slot_msgs M' r i" if "i < kSlots" for i
            by (rule slot_msgs_longer [OF kn(2) [OF that] lng]) (simp add: os)
          note here = slot_here(4,5) [OF lo(1) lv, of 0, unfolded kSlots_def, simplified]
          obtain W where W: "hist M' (Aux (Active r)) 1 = hist ?M (Aux (Active r)) 1 @ [(Flag False, W)]" "cur ?M t \<le> W"
            "Suc (length (hist ?M (Aux (Active r)) 1)) \<le> W (At (Aux (Active r)) 1)"
            using store_facts [OF c] here unfolding place_def latest_def by (metis One_nat_def is_rel.simps(1))
          have "knows_slots ?M r (cur ?M t)" using upto_held [OF kn(1)] h at by simp
          then have "knows_slots ?M r W" by (rule risingD [OF knows_slots_rising W(2)])
          then have W': "knows_slots M' r W" using W(1,3) os by (simp add: knows_slots_def)
          have "in_hand (thr ?s' u) \<noteq> Some r" for u
          proof (cases "u = t")
            case False
            then show ?thesis using records_invD(4) [OF ri, of t r u] h at by auto
          qed (use h at in simp)
          then have "upto ?s' r (knows_slots M' r)" using W' W(1) unfolding upto_def by simp
          then show ?thesis using sm by simp
        qed
      qed
    qed
  qed
  then show ?thesis by (simp add: slots_inv_def)
qed

lemma slots_call:
  assumes "records_inv s" "slots_inv s" "client_call t x (thr s t) = Some (q, es)"
  shows "slots_inv (called s t q es)"
  using upto_call [OF assms(1) _ assms(3)] assms(2) by (simp add: slots_inv_def)

lemma slot_msgs_cong: "hist M' = hist M \<Longrightarrow> slot_msgs M' r i = slot_msgs M r i"
  by (simp add: slot_msgs_def recs_def)

lemma knows_slots_cong: "hist M' = hist M \<Longrightarrow> knows_slots M' r = knows_slots M r"
  by (intro ext) (simp add: knows_slots_def)

lemma slots_sync:
  assumes "slots_inv s"
  shows "slots_inv (s\<lparr>mem := synchronize t u (mem s)\<rparr>)"
  unfolding slots_inv_def
proof (intro allI impI conjI)
  let ?M' = "synchronize t u (mem s)"
  fix r i assume lv: "live (mem (s\<lparr>mem := ?M'\<rparr>)) (Aux (Active r))"
  have "upto s r (knows_slots (mem s) r)" using slots_invD(1) [OF assms] lv by simp
  then show "upto (s\<lparr>mem := ?M'\<rparr>) r (knows_slots (mem (s\<lparr>mem := ?M'\<rparr>)) r)"
    using upto_sync [OF knows_slots_rising, of s r "mem s" r t u] knows_slots_cong [of ?M' "mem s" r] by simp
  show "i < kSlots \<Longrightarrow> slot_msgs (mem (s\<lparr>mem := ?M'\<rparr>)) r i"
    using slots_invD(2) [OF assms] lv slot_msgs_cong [of ?M' "mem s" r i] by simp
qed

lemma slots_start: "slots_inv (hp_queue_start dflt a)"
  unfolding slots_inv_def hp_start_memory(2) by simp

lemma slots_reach: "reach (hp_queue w) (hp_queue_start dflt a) s \<Longrightarrow> slots_inv s"
  by (rule hp_invariant [where I = slots_inv])
    (simp_all add: slots_start slots_call slots_sync slots_step [OF base_reach records_reach lists_reach _ records_reach lists_reach]
      records_reach)

section \<open>A store to a slot reveals its record\<close>

definition reveals :: "(domain_loc, 'a cell) memory \<Rightarrow> domain_loc view \<Rightarrow> bool" where
  "reveals M V \<longleftrightarrow>
     (\<forall>k<length (recs M). \<forall>i<kSlots. 2 \<le> V (slot_at (recs M ! k) i) \<longrightarrow> k + 2 \<le> V (At (Aux Records) 1))"

lemma reveals_joinable: "joinable (reveals M)"
  unfolding joinable_def reveals_def by (auto simp: le_max_iff_disj)

definition reveal_inv :: "'a hp_state \<Rightarrow> bool" where
  "reveal_inv s \<longleftrightarrow> all_views (mem s) (reveals (mem s))"

lemma reveals_longer:
  assumes "reveals M V" "longer M M'" "bounded M' V"
    and "\<And>r i. r \<notin> set (recs M) \<Longrightarrow> r \<in> set (recs M') \<Longrightarrow> i < kSlots \<Longrightarrow> length (hist M' (Aux (Slot_of r i)) 1) \<le> 1"
    and "distinct (recs M')"
  shows "reveals M' V"
  unfolding reveals_def
proof (intro allI impI)
  fix k i assume k: "k < length (recs M')" and i: "i < kSlots" and two: "2 \<le> V (slot_at (recs M' ! k) i)"
  obtain X where X: "recs M' = recs M @ X" by (rule longerD [OF assms(2)])
  show "k + 2 \<le> V (At (Aux Records) 1)"
  proof (cases "k < length (recs M)")
    case True
    then show ?thesis using assms(1) i two X by (simp add: reveals_def nth_append)
  next
    case False
    then have "recs M' ! k \<in> set X" using k X by (simp add: nth_append)
    then have "recs M' ! k \<notin> set (recs M)" "recs M' ! k \<in> set (recs M')" using X assms(5) by auto
    then have "length (hist M' (Aux (Slot_of (recs M' ! k) i)) 1) \<le> 1" using assms(4) i by blast
    then have "V (slot_at (recs M' ! k) i) \<le> 1" using assms(3) unfolding bounded_def by (meson le_trans)
    then show ?thesis using two by simp
  qed
qed

lemma reveals_point: "(\<And>r i. l \<noteq> Aux (Slot_of r i)) \<Longrightarrow> reveals M (point (place M l) k)"
  unfolding reveals_def
proof (intro allI impI)
  fix j i assume l: "\<And>r i. l \<noteq> Aux (Slot_of r i)" and two: "2 \<le> point (place M l) k (slot_at (recs M ! j) i)"
  have "slot_at (recs M ! j) i \<noteq> place M l" using l by (auto simp: place_def)
  then show "j + 2 \<le> point (place M l) k (At (Aux Records) 1)" using two by simp
qed

lemma reveals_load:
  assumes ok: "list_ok M" and lv: "live M (Aux (Active r))" and i: "i < kSlots" and sm: "slot_msgs M r i"
    and k: "0 < k" "k \<le> latest M (Aux (Slot_of r i))"
    and v: "reveals M (snd (msgs M (Aux (Slot_of r i)) ! (k - 1)))"
  shows "reveals M (sup (point (place M (Aux (Slot_of r i))) k) (snd (msgs M (Aux (Slot_of r i)) ! (k - 1))))"
proof -
  let ?V = "snd (msgs M (Aux (Slot_of r i)) ! (k - 1))"
  have ms: "msgs M (Aux (Slot_of r i)) = hist M (Aux (Slot_of r i)) 1" by (rule slot_here(3) [OF ok lv i])
  have pl: "place M (Aux (Slot_of r i)) = slot_at r i" by (rule slot_place [OF ok lv i])
  have own: "k \<le> ?V (slot_at r i)" if "2 \<le> k"
  proof -
    have "0 < k - 1" "k - 1 < length (hist M (Aux (Slot_of r i)) 1)" using that k by (simp_all add: latest_def ms)
    then have "Suc (k - 1) \<le> snd (hist M (Aux (Slot_of r i)) 1 ! (k - 1)) (slot_at r i)"
      using sm unfolding slot_msgs_def by blast
    then show ?thesis using ms that by simp
  qed
  show ?thesis
    unfolding reveals_def
  proof (intro allI impI)
    fix j n assume j: "j < length (recs M)" "n < kSlots"
      and two: "2 \<le> sup (point (place M (Aux (Slot_of r i))) k) ?V (slot_at (recs M ! j) n)"
    then have "2 \<le> ?V (slot_at (recs M ! j) n)" using own pl by (auto simp: le_max_iff_disj split: if_splits)
    then have "j + 2 \<le> ?V (At (Aux Records) 1)" using v j by (simp add: reveals_def)
    then show "j + 2 \<le> sup (point (place M (Aux (Slot_of r i))) k) ?V (At (Aux Records) 1)" by simp
  qed
qed

lemma held_index: "held M V r \<Longrightarrow> distinct (recs M) \<Longrightarrow> k < length (recs M) \<Longrightarrow> recs M ! k = r \<Longrightarrow> k + 2 \<le> V (At (Aux Records) 1)"
  unfolding held_def using nth_eq_iff_index_eq by blast

lemma reveal_harmless:
  fixes s :: "'a hp_state"
  assumes b: "base (mem s)" and ri: "records_inv s" and li: "lists_inv s" and sl: "slots_inv s" and rv: "reveal_inv s"
    and at: "thr s t = (p, h)"
  shows "harmless (mem s) t (reveals (mem s)) (client_act w (p, h))"
proof -
  let ?M = "mem s"
  have lo: "list_ok ?M" by (rule lists_invD(1) [OF li])
  have pt: "\<And>l k. (\<And>r i. l \<noteq> Aux (Slot_of r i)) \<Longrightarrow> reveals ?M (point (place ?M l) k)" by (rule reveals_point)
  show ?thesis
  proof (cases "domain_of p")
    case None
    show ?thesis
    proof (cases p)
      case (In_queue q)
      then show ?thesis using None by (cases q) (auto simp: pt deref_def split: option.split)
    qed (use None in \<open>auto simp: pt\<close>)
  next
    case (Some d)
    have act: "client_act w (p, h) = domain_act d" by (rule client_domain_act [OF Some])
    have dk: "domain_ok (place_of p) d h" using domain_client_ok [OF Some] records_invD(2) [OF ri, of t] at by simp
    have pc: "list_pc ?M t (cur ?M t) d" "\<And>q. rec h = Some q \<Longrightarrow> held ?M (cur ?M t) q"
      using lists_invD(2) [OF li, of t] at Some by (auto simp: list_thread_def)
    have store: "harmless ?M t (reveals ?M) (Store (Aux (Slot_of r i)) (Ptr v) release)"
      if w: "writes_record d = Some r" "slot_no d = Some i" for r i v
    proof -
      have rec: "rec h = Some r" using dk w(1) by (simp add: domain_ok_def)
      have hd: "held ?M (cur ?M t) r" by (rule pc(2) [OF rec])
      have i: "i < kSlots" by (rule list_pcD(2) [OF pc(1) w(2)])
      have pl: "place ?M (Aux (Slot_of r i)) = slot_at r i" by (rule slot_place [OF lo held_live [OF lo hd] i])
      have "reveals ?M (sup V (point (slot_at r i) k))" if V: "reveals ?M V" "cur ?M t \<le> V" for V k
        unfolding reveals_def
      proof (intro allI impI)
        fix j n assume j: "j < length (recs ?M)" "n < kSlots" and two: "2 \<le> sup V (point (slot_at r i) k) (slot_at (recs ?M ! j) n)"
        show "j + 2 \<le> sup V (point (slot_at r i) k) (At (Aux Records) 1)"
        proof (cases "recs ?M ! j = r")
          case True
          then have "j + 2 \<le> cur ?M t (At (Aux Records) 1)" using held_index [OF hd list_okD(2) [OF lo] j(1)] by simp
          then show ?thesis using view_le_mono [OF V(2)] by (simp add: le_max_iff_disj)
        next
          case False
          then have "2 \<le> V (slot_at (recs ?M ! j) n)" using two by simp
          then show ?thesis using V(1) j by (simp add: reveals_def)
        qed
      qed
      then show ?thesis by (simp add: pl)
    qed
    show ?thesis
      unfolding act
    proof (cases d)
      case (Sc_slot j r i hs)
      obtain n where n: "listed ?M (cur ?M t) r n" using list_pcD(1) [OF pc(1), of r] Sc_slot by auto
      have lv: "live ?M (Aux (Active r))" by (rule held_live [OF lo listed_held [OF n]])
      have i: "i < kSlots" using list_pcD(2) [OF pc(1), of i] Sc_slot by simp
      have "reveals ?M (snd m)" if "m \<in> set (hist ?M l g)" for m l g
        using rv that unfolding reveal_inv_def by (rule all_viewsD(5))
      then have "reveals ?M (snd (msgs ?M (Aux (Slot_of r i)) ! (k - 1)))" if "0 < k" "k \<le> latest ?M (Aux (Slot_of r i))" for k
        using that unfolding msgs_def latest_def by (metis Suc_pred' le_simps(3) nth_mem One_nat_def diff_Suc_1)
      then show "harmless ?M t (reveals ?M) (domain_act d)"
        using reveals_load [OF lo lv i slots_invD(2) [OF sl lv i]] Sc_slot by auto
    next
      case (P_load r i src)
      then show "harmless ?M t (reveals ?M) (domain_act d)" using list_pcD(5) [OF pc(1), of src] pt by auto
    next
      case (P_check r i src q)
      then show "harmless ?M t (reveals ?M) (domain_act d)" using list_pcD(5) [OF pc(1), of src] pt by auto
    next
      case (Sc_free j hs kept q rest n)
      then show "harmless ?M t (reveals ?M) (domain_act d)" by (simp add: delete_node_def split: option.split)
    qed (use store in \<open>simp_all add: pt\<close>)
  qed
qed

lemma records_written:
  assumes "Aux Records \<in> writes (client_act w (p, h)) k"
  obtains q e where "domain_of p = Some (A_push q e)"
proof (cases "domain_of p")
  case None
  then show ?thesis using queue_writes [of _ Records w k] assms by (cases p) auto
next
  case (Some d)
  then obtain q e where "d = A_push q e"
    using assms unfolding client_domain_act [OF Some]
    by (cases d) (auto simp: delete_node_def make_record_def make_orphan_def split: option.splits)
  then show ?thesis using that Some by blast
qed

lemma reveal_step:
  assumes b: "base (mem s)" and ri: "records_inv s" and li: "lists_inv s" and sl: "slots_inv s" and rv: "reveal_inv s"
    and li': "lists_inv (stepped s t y M')"
    and st: "mem_step t (client_act w (thr s t)) k (mem s) = Done y M'"
  shows "reveal_inv (stepped s t y M')"
proof -
  let ?M = "mem s"
  obtain p h where at: "thr s t = (p, h)" by (meson surj_pair)
  have lo: "list_ok ?M" "list_ok M'" using lists_invD(1) [OF li] lists_invD(1) [OF li'] by simp_all
  have v: "all_views M' (reveals ?M)"
    by (rule all_views_step [OF reveals_joinable _ baseD(1,2) [OF b] st])
      (use rv reveal_harmless [OF b ri li sl rv at] at in \<open>simp_all add: reveal_inv_def\<close>)
  have one: "length (hist M' (Aux (Slot_of r i)) 1) \<le> 1" if r: "r \<notin> set (recs ?M)" "r \<in> set (recs M')" "i < kSlots" for r i
  proof -
    have "recs M' \<noteq> recs ?M" using r by auto
    then have "hist M' (Aux Records) \<noteq> hist ?M (Aux Records)" by (auto simp: recs_def)
    then have wr: "Aux Records \<in> writes (client_act w (p, h)) (fst k)" using step_frame(1) [OF baseD(1) [OF b] st] at by metis
    obtain q e where d: "domain_of p = Some (A_push q e)" by (rule records_written [OF wr])
    have "hist M' (Aux (Slot_of r i)) = hist ?M (Aux (Slot_of r i))"
      by (intro step_frame(1) [OF baseD(1) [OF b] st]) (simp add: at client_domain_act [OF d])
    moreover have "live M' (Aux (Active r))" by (rule recs_live [OF lo(2) r(2)])
    then have lv: "live ?M (Aux (Active r))"
      using step_allocs(1) [OF baseD(1) [OF b] st] at by (simp add: client_domain_act [OF d])
    then have "length (hist ?M (Aux (Slot_of r i)) 1) = 1"
      using slots_invD(2) [OF sl lv r(3)] r(1) by (simp add: slot_msgs_def)
    ultimately show ?thesis by simp
  qed
  have w: "mem_wf M'" by (rule baseD(1) [OF base_step [OF b st]])
  have lng: "longer ?M M'" by (rule longer_step [OF b li st])
  have re: "reveals M' V" if "reveals ?M V" "bounded M' V" for V
    by (rule reveals_longer [OF that(1) lng that(2) one list_okD(2) [OF lo(2)]])
  have bd: "bounded M' (cur M' u)" "bounded M' (acq M' u)" "bounded M' (rel M' u)" "bounded M' (scv M')" for u
    using w by (simp_all add: mem_wf_def)
  have "reveals M' (snd m)" if "m \<in> set (hist M' l g)" for m l g
  proof -
    have "bounded M' (snd m)" using w that by (simp add: mem_wf_def)
    then show ?thesis using re all_viewsD(5) [OF v that] by blast
  qed
  then show ?thesis
    using re [OF all_viewsD(1) [OF v] bd(1)] re [OF all_viewsD(2) [OF v] bd(2)] re [OF all_viewsD(3) [OF v] bd(3)]
      re [OF all_viewsD(4) [OF v] bd(4)] unfolding reveal_inv_def all_views_def by simp
qed

lemma reveals_cong: "hist M' = hist M \<Longrightarrow> reveals M' = reveals M"
  by (intro ext) (simp add: reveals_def recs_def)

lemma reveal_sync:
  assumes "reveal_inv s"
  shows "reveal_inv (s\<lparr>mem := synchronize t u (mem s)\<rparr>)"
proof -
  have "reveals (synchronize t u (mem s)) = reveals (mem s)" by (rule reveals_cong) simp
  then show ?thesis using assms all_views_synchronize [OF reveals_joinable] by (simp add: reveal_inv_def)
qed

lemma reveal_start: "reveal_inv (hp_queue_start dflt a)"
proof -
  have "recs (mem (hp_queue_start dflt a)) = []" unfolding recs_def hp_start_memory(8) by simp
  then show ?thesis by (simp add: reveal_inv_def all_views_def reveals_def)
qed

lemma reveal_call: "reveal_inv s \<Longrightarrow> reveal_inv (called s t q es)"
  by (simp add: reveal_inv_def)

lemma reveal_reach: "reach (hp_queue w) (hp_queue_start dflt a) s \<Longrightarrow> reveal_inv s"
  by (rule hp_invariant [where I = reveal_inv])
    (simp_all add: reveal_start reveal_call reveal_sync
      reveal_step [OF base_reach records_reach lists_reach slots_reach _ lists_reach])

end
