(* ===== verification/Hp_Orphans.thy ===== *)
theory Hp_Orphans imports Hp_Slots Hp_Typed begin

text \<open>
  The orphans: nodes that a leaving thread hands on.  Each orphan is in the shared list or with one
  thread, whose view, or the view of the message that put it there, knows every access ever made to
  it.  So the plain accesses to orphans do not race, and none is freed twice.
\<close>

section \<open>Knowing everything about a location\<close>

definition settled_at :: "('l, 'v) memory \<Rightarrow> 'l view \<Rightarrow> 'l \<Rightarrow> bool" where
  "settled_at M V l \<longleftrightarrow>
     live M l \<and> 1 \<le> V (place M l) \<and> latest M l \<le> V (place M l) \<and>
     (\<forall>x \<in> set (accs M l (gen M l)). snd x \<le> V (Clock (fst x)))"

lemma settled_mono: "settled_at M V l \<Longrightarrow> V \<le> W \<Longrightarrow> settled_at M W l"
  unfolding settled_at_def by (auto elim!: view_le_mono order.trans)

lemma settled_frame:
  assumes wf: "mem_wf M" and st: "mem_step t x c M = Done y M'" and w: "l \<notin> writes x (fst c)" and tl: "touched x \<noteq> Some l"
  shows "settled_at M' V l = settled_at M V l"
  using step_frame [OF wf st w] step_accs_other [OF st tl] by (simp add: settled_at_def)

lemma settled_quiet: "settled_at M (cur M t) l \<Longrightarrow> quiet M t l \<and> 0 < seen M t l \<and> live M l"
  by (auto simp: settled_at_def quiet_def seen_def list_all_iff)

lemma settled_own:
  assumes lg: "lags M" and tm: "timed M'" and s: "settled_at M (cur M t) l" and st: "mem_step t x c M = Done y M'"
    and k: "live M' l" "place M' l = place M l" "latest M' l \<le> cur M' t (place M l)"
  shows "settled_at M' (cur M' t) l"
proof -
  have up: "cur M t \<le> cur M' t" by (rule step_cur [OF lg st])
  have g: "gen M' l = gen M l" using k(2) by (simp add: place_def)
  have "snd a \<le> cur M' t (Clock (fst a))" if "a \<in> set (accs M' l (gen M' l))" for a
  proof -
    obtain u n where a: "a = (u, n)" by (meson surj_pair)
    show ?thesis
    proof (cases "u = t")
      case True
      then show ?thesis using timedD [OF tm] that a by auto
    next
      case False
      then have "(u, n) \<in> set (accs M l (gen M l))" using step_accs_in [OF st] that a g by auto
      then have "n \<le> cur M t (Clock u)" using s unfolding settled_at_def by auto
      then show ?thesis using order.trans [OF _ view_leD [OF up, of "Clock u"]] a by simp
    qed
  qed
  then show ?thesis using s k view_leD [OF up, of "place M l"] unfolding settled_at_def by auto
qed

section \<open>The shared list and the lists in hand\<close>

definition orphan_known :: "(domain_loc, 'a cell) memory \<Rightarrow> domain_loc view \<Rightarrow> nat \<Rightarrow> bool" where
  "orphan_known M V b \<longleftrightarrow> settled_at M V (Aux (Orphan_item b)) \<and> settled_at M V (Aux (Orphan_next b))"

lemma orphan_known_mono: "orphan_known M V b \<Longrightarrow> V \<le> W \<Longrightarrow> orphan_known M W b"
  unfolding orphan_known_def by (auto intro: settled_mono)

fun stacked :: "(domain_loc, 'a cell) memory \<Rightarrow> nat option \<Rightarrow> nat list \<Rightarrow> bool" where
  "stacked M p [] \<longleftrightarrow> p = None"
| "stacked M p (b # bs) \<longleftrightarrow> p = Some b \<and> stacked M (ptr (newest M (Aux (Orphan_next b)))) bs"

lemma stacked_cong:
  "(\<And>b. b \<in> set bs \<Longrightarrow> newest M' (Aux (Orphan_next b)) = newest M (Aux (Orphan_next b))) \<Longrightarrow> stacked M' p bs = stacked M p bs"
  by (induction M p bs rule: stacked.induct) simp_all

lemma stacked_None [simp]: "stacked M None bs \<longleftrightarrow> bs = []"
  by (cases bs) simp_all

lemma stacked_Some: "stacked M (Some b) bs \<longleftrightarrow> (\<exists>cs. bs = b # cs \<and> stacked M (ptr (newest M (Aux (Orphan_next b)))) cs)"
  by (cases bs) auto

text \<open>The list that goes with a program point.\<close>

fun in_list :: "(domain_loc, 'a cell) memory \<Rightarrow> domain_pc option \<Rightarrow> nat list \<Rightarrow> bool" where
  "in_list M (Some (Sc_item k b)) bs \<longleftrightarrow> stacked M (Some b) bs"
| "in_list M (Some (Sc_onext k b)) bs \<longleftrightarrow> stacked M (Some b) bs"
| "in_list M (Some (Sc_odelete k b n)) bs \<longleftrightarrow> (\<exists>cs. bs = b # cs \<and> stacked M n cs)"
| "in_list M (Some (O_expected b)) bs \<longleftrightarrow> bs = [b]"
| "in_list M (Some (O_cas b e)) bs \<longleftrightarrow> bs = [b] \<and> newest M (Aux (Orphan_next b)) = Ptr e"
| "in_list M (Some (O_failed b v)) bs \<longleftrightarrow> bs = [b]"
| "in_list M _ bs \<longleftrightarrow> bs = []"

type_synonym orphans = "nat option \<Rightarrow> nat list"

definition holder_view :: "(domain_loc, 'a cell) memory \<Rightarrow> nat option \<Rightarrow> domain_loc view" where
  "holder_view M x = (case x of None \<Rightarrow> snd (last (hist M (Aux Orphans) 1)) | Some u \<Rightarrow> cur M u)"

lemma holder_view_simps [simp]: "holder_view M (Some u) = cur M u"
  by (simp add: holder_view_def)

definition orphans_ok :: "'a hp_state \<Rightarrow> orphans \<Rightarrow> bool" where
  "orphans_ok s A \<longleftrightarrow>
     (\<forall>x. distinct (A x)) \<and> (\<forall>x y b. b \<in> set (A x) \<and> b \<in> set (A y) \<longrightarrow> x = y) \<and>
     (\<forall>x. \<forall>b \<in> set (A x). orphan_known (mem s) (holder_view (mem s) x) b) \<and>
     stacked (mem s) (ptr (newest (mem s) (Aux Orphans))) (A None) \<and>
     (\<forall>u. in_list (mem s) (domain_of (fst (thr s u))) (A (Some u)))"

lemma orphans_okD:
  assumes "orphans_ok s A"
  shows "distinct (A x)" "b \<in> set (A x) \<Longrightarrow> b \<in> set (A y) \<Longrightarrow> x = y"
    "b \<in> set (A x) \<Longrightarrow> orphan_known (mem s) (holder_view (mem s) x) b"
    "stacked (mem s) (ptr (newest (mem s) (Aux Orphans))) (A None)"
    "in_list (mem s) (domain_of (fst (thr s u))) (A (Some u))"
  using assms unfolding orphans_ok_def by blast+

text \<open>How a step passes orphans on.\<close>

fun pass_on :: "domain_pc option \<Rightarrow> 'a cell result \<Rightarrow> nat \<Rightarrow> orphans \<Rightarrow> orphans" where
  "pass_on (Some (Sc_adopt k)) y t A = A(None := [], Some t := A None)"
| "pass_on (Some (Sc_odelete k b n)) y t A = A(Some t := tl (A (Some t)))"
| "pass_on (Some (O_new p q)) y t A = A(Some t := [the (loaded y)])"
| "pass_on (Some (O_cas b e)) y t A = (if won y then A(None := b # A None, Some t := []) else A)"
| "pass_on _ y t A = A"

text \<open>The orphan a program point accesses.\<close>

fun accesses :: "domain_pc \<Rightarrow> nat option" where
  "accesses (Sc_item k b) = Some b"
| "accesses (Sc_onext k b) = Some b"
| "accesses (Sc_odelete k b n) = Some b"
| "accesses (O_expected b) = Some b"
| "accesses (O_failed b v) = Some b"
| "accesses _ = None"

lemma domain_orphan_frame:
  assumes "list_pc M t V d" "accesses d \<noteq> Some b" "\<And>p q. d = O_new p q \<Longrightarrow> fst k \<noteq> b"
    "l = Aux (Orphan_item b) \<or> l = Aux (Orphan_next b)"
  shows "l \<notin> writes (domain_act d :: (domain_loc, 'a cell) action) (fst k)"
    "touched (domain_act d :: (domain_loc, 'a cell) action) \<noteq> Some l"
  using assms list_pcD(5) [OF assms(1)]
  by (cases d; auto simp: delete_node_def make_record_def make_orphan_def split: option.splits)+

lemma client_orphan_frame:
  assumes lt: "list_thread M t V (domain_of p) h" and a: "\<And>d. domain_of p = Some d \<Longrightarrow> accesses d \<noteq> Some b"
    "\<And>q r. domain_of p = Some (O_new q r) \<Longrightarrow> fst k \<noteq> b" and l: "l = Aux (Orphan_item b) \<or> l = Aux (Orphan_next b)"
  shows "l \<notin> writes (client_act w (p, h)) (fst k)" "touched (client_act w (p, h)) \<noteq> Some l"
proof -
  have "l \<notin> writes (client_act w (p, h)) (fst k) \<and> touched (client_act w (p, h)) \<noteq> Some l"
  proof (cases "domain_of p")
    case None
    then show ?thesis using l outside_touches [OF None, of w h] queue_writes [of _ _ w "fst k"] by (cases p) auto
  next
    case (Some d)
    then have "list_pc M t V d" using lt by (simp add: list_thread_def)
    then show ?thesis
      using domain_orphan_frame [of M t V d b k l] a Some l client_domain_act [OF Some, of w h] by auto
  qed
  then show "l \<notin> writes (client_act w (p, h)) (fst k)" "touched (client_act w (p, h)) \<noteq> Some l" by blast+
qed

section \<open>Steps\<close>

lemma no_orphan_flows:
  "in_list M (onward (snd (leave h))) []" "in_list M (onward (snd (scan_done k h))) []"
  "in_list M (onward (snd (sweep k hs kept ps n h))) []" "in_list M (onward (snd (snapshot_next k q hs h))) []"
proof -
  show l: "in_list M (onward (snd (leave h))) []" by (cases "bag h"; cases "rec h") simp_all
  show "in_list M (onward (snd (scan_done k h))) []" using l by (cases k) (simp_all del: leave.simps)
  show sw: "in_list M (onward (snd (sweep k hs kept ps n h))) []" for hs kept ps n
    by (induction ps arbitrary: kept) simp_all
  show "in_list M (onward (snd (snapshot_next k q hs h))) []"
    using sw by (simp add: snapshot_next_def split: option.split)
qed

fun special :: "domain_pc \<Rightarrow> bool" where
  "special (Sc_adopt k) = True"
| "special (Sc_item k b) = True"
| "special (Sc_onext k b) = True"
| "special (Sc_odelete k b n) = True"
| "special (O_new p q) = True"
| "special (O_expected b) = True"
| "special (O_cas b e) = True"
| "special (O_failed b v) = True"
| "special _ = False"

lemma not_special:
  assumes "\<not> special d"
  shows "in_list M (Some d) bs \<longleftrightarrow> bs = []" "pass_on (Some d) y t A = A" "accesses d = None"
    "Aux Orphans \<notin> writes (domain_act d :: (domain_loc, 'a cell) action) k"
proof -
  show "in_list M (Some d) bs \<longleftrightarrow> bs = []" using assms by (cases d) simp_all
  show "pass_on (Some d) y t A = A" using assms by (cases d) simp_all
  show "accesses d = None" using assms by (cases d) simp_all
  show "Aux Orphans \<notin> writes (domain_act d :: (domain_loc, 'a cell) action) k"
    using assms by (cases d) (auto simp: delete_node_def make_record_def split: option.splits)
qed

lemma not_special_next:
  assumes "\<not> special d"
  shows "in_list M (onward (snd (domain_resume d y h))) []"
proof (cases d)
  case (A_push r e)
  then show ?thesis by (cases "won y") (simp_all add: got_record_def)
qed (use assms no_orphan_flows(2-4) in \<open>simp_all add: try_record_def got_record_def split: option.split\<close>)

lemma rmw_acquires: "is_acq mo \<Longrightarrow> snd (msgs M l ! (latest M l - 1)) \<le> cur (rmw_at t l v mo M) t"
  using read_at_acquires [of mo M l "latest M l" t] by (auto simp: rmw_at_def intro: le_supI1 order.trans)

lemma in_list_accesses: "in_list M (Some d) bs \<Longrightarrow> accesses d = Some b \<Longrightarrow> b \<in> set bs"
  by (cases d) (auto simp: stacked_Some)

lemma outside_list:
  assumes "domain_of p = None"
  shows "in_list M (domain_of (fst (client_resume (p, h) y))) []"
proof (cases "\<exists>x k. p = In_queue (Start x k)")
  case True
  then obtain x k where p: "p = In_queue (Start x k)" by blast
  show ?thesis unfolding p resume_start by (cases x) auto
next
  case False
  then show ?thesis using resume_else(1) [OF assms, of h y] by simp
qed

lemma orphans_step:
  fixes s :: "'a hp_state"
  assumes b: "base (mem s)" and ty: "typed (mem s)" and li: "lists_inv s" and oi: "orphans_ok s A"
    and st: "mem_step t (client_act w (thr s t)) k (mem s) = Done y M'"
  shows "orphans_ok (stepped s t y M') (pass_on (domain_of (fst (thr s t))) y t A)"
proof -
  let ?M = "mem s" let ?s' = "stepped s t y M'"
  obtain p h where at: "thr s t = (p, h)" by (meson surj_pair)
  note wf = baseD(1) [OF b] and lg = baseD(2) [OF b]
  have b': "base M'" by (rule base_step [OF b st])
  have tm: "timed M'" by (rule baseD(3) [OF b'])
  have up: "cur ?M u \<le> cur M' u" for u by (rule step_cur [OF lg st])
  have lt: "list_thread ?M t (cur ?M t) (domain_of p) h" using lists_invD(2) [OF li, of t] at by simp
  have st': "mem_step t (client_act w (p, h)) k ?M = Done y M'" using st at by simp
  have mine: "in_list ?M (domain_of p) (A (Some t))" using orphans_okD(5) [OF oi, of t] at by simp
  have live: "orphan_known ?M V q \<Longrightarrow> live ?M (Aux (Orphan_item q))" for V q by (simp add: orphan_known_def settled_at_def)
  have other: "orphan_known M' V q = orphan_known ?M V q \<and> newest M' (Aux (Orphan_next q)) = newest ?M (Aux (Orphan_next q))"
    if q: "q \<in> set (A x)" "\<And>d. domain_of p = Some d \<Longrightarrow> accesses d \<noteq> Some q" for x q V
  proof -
    have new: "fst k \<noteq> q" if d: "domain_of p = Some (O_new r z)" for r z
    proof
      assume "fst k = q"
      moreover have "\<not> live ?M (Aux (Orphan_item (fst k)))"
        using st' client_domain_act [OF d, of w h] by (simp add: new_Done make_orphan_def)
      ultimately show False using live [OF orphans_okD(3) [OF oi q(1)]] by simp
    qed
    note fr = client_orphan_frame [OF lt q(2) new]
    show ?thesis
      unfolding orphan_known_def
      using settled_frame [OF wf st' fr] step_frame(4) [OF wf st' fr(1)] by simp
  qed
  have away: "orphan_known M' V q = orphan_known ?M V q \<and> newest M' (Aux (Orphan_next q)) = newest ?M (Aux (Orphan_next q))"
    if q: "q \<in> set (A x)" "x \<noteq> Some t" for x q V
  proof (rule other [OF q(1)])
    fix d assume d: "domain_of p = Some d"
    show "accesses d \<noteq> Some q"
    proof
      assume "accesses d = Some q"
      then have "q \<in> set (A (Some t))" using in_list_accesses mine d by auto
      then show False using orphans_okD(2) [OF oi] q by blast
    qed
  qed
  have others: "in_list M' (domain_of (fst (thr ?s' u))) (A (Some u))" if "u \<noteq> t" for u
  proof -
    have "in_list ?M (domain_of (fst (thr s u))) (A (Some u))" by (rule orphans_okD(5) [OF oi])
    moreover have "newest M' (Aux (Orphan_next q)) = newest ?M (Aux (Orphan_next q))" if "q \<in> set (A (Some u))" for q
      using away [OF that] \<open>u \<noteq> t\<close> by simp
    ultimately show ?thesis using that
      by (cases "(?M, domain_of (fst (thr s u)), A (Some u))" rule: in_list.cases)
        (auto simp: stacked_Some cong: stacked_cong)
  qed
  have views: "orphan_known M' (cur M' u) q" if "q \<in> set (A (Some u))" "u \<noteq> t" for u q
    using away [OF that(1)] that(2) orphan_known_mono [OF _ up] orphans_okD(3) [OF oi that(1)] by simp
  have stack_same: "stacked M' (ptr (newest M' (Aux Orphans))) (A None)" "\<forall>q \<in> set (A None). orphan_known M' (holder_view M' None) q"
    if hs: "hist M' (Aux Orphans) = hist ?M (Aux Orphans)"
  proof -
    have g: "gen M' (Aux Orphans) = gen ?M (Aux Orphans)" using baseD(6) [OF b, of "Aux Orphans"] baseD(6) [OF b', of "Aux Orphans"] by simp
    have nw: "newest M' (Aux Orphans) = newest ?M (Aux Orphans)" by (simp add: newest_def msgs_def hs g)
    have "stacked M' (ptr (newest M' (Aux Orphans))) (A None) = stacked ?M (ptr (newest ?M (Aux Orphans))) (A None)"
      unfolding nw by (rule stacked_cong) (use away [of _ None] in simp)
    then show "stacked M' (ptr (newest M' (Aux Orphans))) (A None)" using orphans_okD(4) [OF oi] by simp
    show "\<forall>q \<in> set (A None). orphan_known M' (holder_view M' None) q"
      using away [of _ None] orphans_okD(3) [OF oi, of _ None] by (simp add: holder_view_def hs)
  qed
  have own: "orphan_known M' (cur M' t) q" if q: "q \<in> set (A (Some t))"
    and al: "\<And>l. l = Aux (Orphan_item q) \<or> l = Aux (Orphan_next q) \<Longrightarrow> l \<notin> allocs (client_act w (p, h)) (fst k)"
    and wr: "\<And>l. l = Aux (Orphan_item q) \<or> l = Aux (Orphan_next q) \<Longrightarrow> l \<in> writes (client_act w (p, h)) (fst k) \<Longrightarrow>
      latest M' l \<le> cur M' t (place ?M l)" for q
  proof -
    have kn: "orphan_known ?M (cur ?M t) q" using orphans_okD(3) [OF oi q] by simp
    have "settled_at M' (cur M' t) l" if l: "l = Aux (Orphan_item q) \<or> l = Aux (Orphan_next q)" for l
    proof (rule settled_own [OF lg tm _ st'])
      show s: "settled_at ?M (cur ?M t) l" using kn l by (auto simp: orphan_known_def)
      show "live M' l" "place M' l = place ?M l" using step_allocs [OF wf st' al [OF l]] s by (auto simp: settled_at_def)
      show "latest M' l \<le> cur M' t (place ?M l)"
      proof (cases "l \<in> writes (client_act w (p, h)) (fst k)")
        case False
        then show ?thesis using step_frame(5) [OF wf st' False] s view_leD [OF up [of t], of "place ?M l"]
          by (auto simp: settled_at_def intro: order.trans)
      qed (rule wr [OF l])
    qed
    then show ?thesis by (simp add: orphan_known_def)
  qed
  have install: "orphans_ok ?s' A'"
    if ds: "\<And>x. distinct (A' x)" "\<And>x y q. q \<in> set (A' x) \<Longrightarrow> q \<in> set (A' y) \<Longrightarrow> x = y"
      and oth: "\<And>u. u \<noteq> t \<Longrightarrow> A' (Some u) = A (Some u)"
      and stk: "stacked M' (ptr (newest M' (Aux Orphans))) (A' None)" "\<forall>q \<in> set (A' None). orphan_known M' (holder_view M' None) q"
      and me: "\<forall>q \<in> set (A' (Some t)). orphan_known M' (cur M' t) q" "in_list M' (domain_of (fst (client_resume (p, h) y))) (A' (Some t))"
    for A'
  proof -
    have "\<forall>q \<in> set (A' x). orphan_known M' (holder_view M' x) q" for x
    proof (cases x)
      case (Some u)
      then show ?thesis using me(1) views oth by (cases "u = t") auto
    qed (use stk(2) in simp)
    moreover have "in_list M' (domain_of (fst (thr ?s' u))) (A' (Some u))" for u
      using me(2) others oth at by (cases "u = t") auto
    ultimately show ?thesis using ds stk(1) unfolding orphans_ok_def by auto
  qed
  note old = orphans_okD(1) [OF oi] orphans_okD(2) [OF oi]
  show ?thesis
  proof (cases "\<exists>d. domain_of p = Some d \<and> special d")
    case False
    have e: "A (Some t) = []" and nx: "in_list M' (domain_of (fst (client_resume (p, h) y))) []"
      and A': "pass_on (domain_of p) y t A = A" and nw: "Aux Orphans \<notin> writes (client_act w (p, h)) (fst k)"
    proof -
      have "A (Some t) = [] \<and> in_list M' (domain_of (fst (client_resume (p, h) y))) [] \<and> pass_on (domain_of p) y t A = A \<and>
        Aux Orphans \<notin> writes (client_act w (p, h)) (fst k)"
      proof (cases "domain_of p")
        case None
        then show ?thesis using outside_list [OF None, of M' h y] mine queue_writes [of _ Orphans w "fst k"] by (cases p) auto
      next
        case (Some d)
        then have n: "\<not> special d" using False by simp
        show ?thesis using mine Some
          by (simp add: not_special [OF n] not_special_next [OF n] resume_domain(1) [OF Some] client_domain_act [OF Some])
      qed
      then show "A (Some t) = []" "in_list M' (domain_of (fst (client_resume (p, h) y))) []" "pass_on (domain_of p) y t A = A"
        "Aux Orphans \<notin> writes (client_act w (p, h)) (fst k)" by blast+
    qed
    show ?thesis
      using install [of A] old stack_same [OF step_frame(1) [OF wf st' nw]] e nx A' at by simp
  next
    case True
    then obtain d where d: "domain_of p = Some d" and sp: "special d" by blast
    note act = client_domain_act [OF d, of w h] and res = resume_domain(1) [OF d, of h y]
    have sd: "mem_step t (domain_act d) k ?M = Done y M'" using st' act by simp
    have in_d: "in_list ?M (Some d) (A (Some t))" using mine d by simp
    show ?thesis
    proof (cases d)
      case (Sc_item j q)
      have y: "M' = M'" ..
      have me: "\<forall>x \<in> set (A (Some t)). orphan_known M' (cur M' t) x"
        by (intro ballI own) (use act Sc_item in auto)
      have nx: "newest M' = newest ?M" using now_read [OF wf sd [unfolded Sc_item domain_act.simps]] by simp
      have "in_list M' (domain_of (fst (client_resume (p, h) y))) (A (Some t))"
        using in_d Sc_item res stacked_cong [of "A (Some t)" M' ?M "Some q"] nx by simp
      then show ?thesis
        using install [of A] old stack_same [OF step_frame(1) [OF wf st']] me d at act Sc_item by simp
    next
      case (Sc_onext j q)
      have me: "\<forall>x \<in> set (A (Some t)). orphan_known M' (cur M' t) x"
        by (intro ballI own) (use act Sc_onext in auto)
      have nx: "newest M' = newest ?M" "y = Val (newest ?M (Aux (Orphan_next q)))"
        using now_read [OF wf sd [unfolded Sc_onext domain_act.simps]] by simp_all
      obtain cs where cs: "A (Some t) = q # cs" "stacked ?M (ptr (newest ?M (Aux (Orphan_next q)))) cs"
        using in_d Sc_onext by (auto simp: stacked_Some)
      have "in_list M' (domain_of (fst (client_resume (p, h) y))) (A (Some t))"
        using cs Sc_onext res stacked_cong [of cs M' ?M] nx by simp
      then show ?thesis
        using install [of A] old stack_same [OF step_frame(1) [OF wf st']] me d at act Sc_onext by simp
    next
      case (Sc_odelete j q n)
      obtain cs where cs: "A (Some t) = q # cs" "stacked ?M n cs" using in_d Sc_odelete by auto
      have qn: "q \<notin> set cs" using old(1) [of "Some t"] cs(1) by simp
      let ?A = "A(Some t := cs)"
      have kn: "orphan_known M' (cur M' t) x \<and> newest M' (Aux (Orphan_next x)) = newest ?M (Aux (Orphan_next x))" if x: "x \<in> set cs" for x
      proof -
        have "x \<in> set (A (Some t))" "accesses d \<noteq> Some x" using x qn cs(1) Sc_odelete by auto
        then show ?thesis using other [of x "Some t"] d orphans_okD(3) [OF oi, of x "Some t"] orphan_known_mono [OF _ up] by auto
      qed
      have "stacked M' n cs" using stacked_cong [of cs M' ?M n] kn cs(2) by simp
      then have nx: "in_list M' (domain_of (fst (client_resume (p, h) y))) cs"
        using Sc_odelete res by (cases n) (simp_all add: adopt_next_def no_orphan_flows(2))
      have hs: "hist M' (Aux Orphans) = hist ?M (Aux Orphans)"
        by (rule step_frame(1) [OF wf sd]) (simp add: Sc_odelete)
      have sub: "set (?A x) \<subseteq> set (A x)" for x using cs(1) by auto
      have "orphans_ok ?s' ?A"
      proof (rule install)
        show "distinct (?A x)" for x using old(1) [of x] old(1) [of "Some t"] cs(1) by simp
        show "x = z" if "r \<in> set (?A x)" "r \<in> set (?A z)" for x z r using old(2) sub that by blast
      qed (use stack_same [OF hs] kn nx in simp_all)
      then show ?thesis using d at Sc_odelete cs(1) by simp
    next
      case (Sc_adopt j)
      have e: "A (Some t) = []" using in_d Sc_adopt by simp
      let ?A = "A(None := [], Some t := A None)"
      have sr: "mem_step t (Rmw (Aux Orphans) (\<lambda>_. Ptr None) acquire) k ?M = Done y M'" using sd Sc_adopt by simp
      have y: "y = Val (newest ?M (Aux Orphans))" "newest M' = (newest ?M)(Aux Orphans := Ptr None)"
        using now_rmw [OF wf sr] by simp_all
      have ms: "msgs ?M (Aux Orphans) = hist ?M (Aux Orphans) 1" "place ?M (Aux Orphans) = At (Aux Orphans) 1"
        using baseD(6) [OF b, of "Aux Orphans"] by (simp_all add: msgs_def place_def)
      have acq: "holder_view ?M None \<le> cur M' t"
      proof -
        have "0 < seen ?M t (Aux Orphans)" using sr by (simp add: rmw_Done)
        then have "0 < latest ?M (Aux Orphans)" by (rule latest_pos [OF wf])
        then have "holder_view ?M None = snd (msgs ?M (Aux Orphans) ! (latest ?M (Aux Orphans) - 1))"
          by (simp add: holder_view_def latest_def ms(1) last_conv_nth)
        also have "\<dots> \<le> cur M' t"
        proof -
          have "M' = rmw_at t (Aux Orphans) (Ptr None) acquire ?M" using sr by (simp add: rmw_Done Let_def)
          then show ?thesis using rmw_acquires [of acquire ?M "Aux Orphans"] by simp
        qed
        finally show ?thesis .
      qed
      have kn: "orphan_known M' (cur M' t) x \<and> newest M' (Aux (Orphan_next x)) = newest ?M (Aux (Orphan_next x))" if x: "x \<in> set (A None)" for x
        using away [OF x] orphan_known_mono [OF orphans_okD(3) [OF oi x] acq] by simp
      have "stacked M' (loaded y) (A None)"
        using stacked_cong [of "A None" M' ?M] kn orphans_okD(4) [OF oi] y(1) by simp
      then have "in_list M' (domain_of (fst (client_resume (p, h) y))) (A None)"
        using Sc_adopt res by (cases "loaded y") (simp_all add: adopt_next_def no_orphan_flows(2))
      then have "orphans_ok ?s' ?A"
      proof (intro install)
        show "distinct (?A x)" for x using old(1) [of x] old(1) [of None] by simp
        show "x = z" if "q \<in> set (?A x)" "q \<in> set (?A z)" for x z q
          using that old(2) [of q None] old(2) [of q x z] by (auto split: if_splits)
      qed (use kn y(2) in simp_all)
      then show ?thesis using d at Sc_adopt by simp
    next
      case (O_new r z)
      have e: "A (Some t) = []" using in_d O_new by simp
      let ?q = "fst k" let ?A = "A(Some t := [?q])"
      have sn: "mem_step t (New (make_orphan r z)) k ?M = Done y M'" using sd O_new by simp
      have y: "y = Addr ?q" "M' = fold (birth t) (make_orphan r z ?q) ?M" and dead: "\<not> live ?M (Aux (Orphan_item ?q))"
        using sn by (simp_all add: new_Done make_orphan_def)
      have fresh: "?q \<notin> set (A x)" for x using orphans_okD(3) [OF oi, of ?q x] live dead by auto
      have "settled_at M' (cur M' t) l" if l: "l = Aux (Orphan_item ?q) \<or> l = Aux (Orphan_next ?q)" for l
      proof -
        obtain v :: "'a cell" where v: "(l, v) \<in> set (make_orphan r z ?q)" using l by (auto simp: make_orphan_def)
        note nb = fold_birth_new [OF _ v, of t ?M, folded y(2)]
        have n: "hist M' l = (hist ?M l)(Suc (gen ?M l) := [(v, blind)])" "gen M' l = Suc (gen ?M l)" "live M' l"
          "1 \<le> cur M' t (At l (Suc (gen ?M l)))" using nb by (simp_all add: make_orphan_def)
        have "accs M' l (gen M' l) = []"
          using timed_unborn [OF baseD(3) [OF b], of l "Suc (gen ?M l)"] step_accs [OF sn] n(2) by simp
        then show ?thesis using n by (simp add: settled_at_def place_def latest_def msgs_def)
      qed
      then have "orphan_known M' (cur M' t) ?q" by (simp add: orphan_known_def)
      moreover have "in_list M' (domain_of (fst (client_resume (p, h) y))) [?q]" using O_new res y(1) by simp
      moreover have hs: "hist M' (Aux Orphans) = hist ?M (Aux Orphans)"
        by (rule step_frame(1) [OF wf sn]) (simp add: make_orphan_def)
      ultimately have "orphans_ok ?s' ?A"
      proof (intro install)
        show "distinct (?A x)" for x using old(1) [of x] by simp
        show "x = w" if "q \<in> set (?A x)" "q \<in> set (?A w)" for x w q
          using that old(2) [of q x w] fresh by (auto split: if_splits)
      qed (use stack_same [OF hs] in simp_all)
      then show ?thesis using d at O_new y(1) by simp
    next
      case (O_expected q)
      have e: "A (Some t) = [q]" using in_d O_expected by simp
      have me: "\<forall>x \<in> set (A (Some t)). orphan_known M' (cur M' t) x"
        by (intro ballI own) (use act O_expected in auto)
      have nx: "newest M' = newest ?M" "y = Val (newest ?M (Aux (Orphan_next q)))"
        using now_read [OF wf sd [unfolded O_expected domain_act.simps]] by simp_all
      have "settled_at ?M (cur ?M t) (Aux (Orphan_next q))"
        using orphans_okD(3) [OF oi, of q "Some t"] e by (simp add: orphan_known_def)
      then have "0 < seen ?M t (Aux (Orphan_next q))" by (simp add: settled_quiet)
      then have "0 < latest ?M (Aux (Orphan_next q))" by (rule latest_pos [OF wf])
      then have "\<exists>z. newest ?M (Aux (Orphan_next q)) = Ptr z"
        using typed_msg [OF ty _ order.refl, of "Aux (Orphan_next q)"] newest_nth [of ?M "Aux (Orphan_next q)"]
        by (auto elim: has_typeE)
      then have "in_list M' (domain_of (fst (client_resume (p, h) y))) (A (Some t))" using e O_expected res nx by auto
      then show ?thesis
        using install [of A] old stack_same [OF step_frame(1) [OF wf st']] me d at act O_expected by simp
    next
      case (O_cas q e)
      have e: "A (Some t) = [q]" "newest ?M (Aux (Orphan_next q)) = Ptr e" using in_d O_cas by simp_all
      have sc: "mem_step t (Cas True (Aux Orphans) (Ptr e) (Ptr (Some q)) release relaxed) k ?M = Done y M'" using sd O_cas by simp
      have me: "\<forall>x \<in> set (A (Some t)). orphan_known M' (cur M' t) x"
        by (intro ballI own) (use act O_cas in auto)
      have nq: "newest M' (Aux (Orphan_next x)) = newest ?M (Aux (Orphan_next x))" for x
        by (rule step_frame(4) [OF wf sc]) simp
      show ?thesis
      proof (cases "won y")
        case False
        have hs: "hist M' (Aux Orphans) = hist ?M (Aux Orphans)" using sc False by (auto simp: cas_Done Let_def)
        have "in_list M' (domain_of (fst (client_resume (p, h) y))) (A (Some t))" using e O_cas res False by simp
        then show ?thesis using install [of A] old stack_same [OF hs] me d at O_cas False by simp
      next
        case True
        then obtain v where yv: "y = Swapped True v" by (cases y) auto
        obtain W where W: "hist M' (Aux Orphans) (gen ?M (Aux Orphans)) = hist ?M (Aux Orphans) (gen ?M (Aux Orphans)) @ [(Ptr (Some q), W)]"
          "snd (msgs ?M (Aux Orphans) ! (latest ?M (Aux Orphans) - 1)) \<le> W" "cur ?M t \<le> W" "0 < latest ?M (Aux Orphans)"
          "fst (msgs ?M (Aux Orphans) ! (latest ?M (Aux Orphans) - 1)) = Ptr e" "gen M' = gen ?M"
          using won_facts [OF sc yv] by (metis is_rel.simps(1))
        have g: "gen ?M (Aux Orphans) = 1" by (rule baseD(6) [OF b]) simp
        have hv: "holder_view M' None = W" using W(1) g by (simp add: holder_view_def)
        have old_view: "holder_view ?M None \<le> W"
          using W(2,4) g by (simp add: holder_view_def latest_def msgs_def last_conv_nth)
        have tops: "newest ?M (Aux Orphans) = Ptr e" "newest M' (Aux Orphans) = Ptr (Some q)"
          using W(1,4,5,6) g by (simp_all add: newest_def msgs_def latest_def last_conv_nth)
        let ?A = "A(None := q # A None, Some t := [])"
        have qn: "q \<notin> set (A None)" using old(2) [of q "Some t" None] e(1) by auto
        have "stacked M' e (A None)" using orphans_okD(4) [OF oi] tops(1) stacked_cong [of "A None" M' ?M e] nq by simp
        then have stk: "stacked M' (ptr (newest M' (Aux Orphans))) (?A None)" using e(2) nq tops(2) by simp
        have kq: "orphan_known M' W q"
        proof -
          have fr: "Aux l \<notin> writes (Cas True (Aux Orphans) (Ptr e) (Ptr (Some q)) release relaxed) (fst k)"
            "touched (Cas True (Aux Orphans) (Ptr e) (Ptr (Some q)) release relaxed) \<noteq> Some (Aux l)"
            if "l = Orphan_item q \<or> l = Orphan_next q" for l using that by auto
          have "orphan_known M' V q = orphan_known ?M V q" for V
            unfolding orphan_known_def by (simp add: settled_frame [OF wf sc])
          then show ?thesis using orphan_known_mono [OF orphans_okD(3) [OF oi, of q "Some t"] ] W(3) e(1) by simp
        qed
        have kn: "\<forall>x \<in> set (?A None). orphan_known M' (holder_view M' None) x"
          using kq hv away [of _ None] orphan_known_mono [OF orphans_okD(3) [OF oi] old_view] by auto
        have "in_list M' (domain_of (fst (client_resume (p, h) y))) (?A (Some t))"
          using O_cas res True by (simp add: no_orphan_flows(1) del: leave.simps)
        then have "orphans_ok ?s' ?A"
        proof (intro install)
          show "distinct (?A x)" for x using old(1) [of x] old(1) [of None] qn by simp
          show "x = w" if "c \<in> set (?A x)" "c \<in> set (?A w)" for x w c
            using that old(2) [of c x w] old(2) [of q "Some t"] e(1) by (auto split: if_splits)
        qed (use stk kn in simp_all)
        then show ?thesis using d at O_cas True by simp
      qed
    next
      case (O_failed q v)
      have e: "A (Some t) = [q]" using in_d O_failed by simp
      have sw: "mem_step t (Write (Aux (Orphan_next q)) (Ptr v)) k ?M = Done y M'" using sd O_failed by simp
      have "latest M' (Aux (Orphan_next q)) \<le> cur M' t (place ?M (Aux (Orphan_next q)))"
        using write_facts [OF sw] by (metis latest_def length_append_singleton)
      then have me: "\<forall>x \<in> set (A (Some t)). orphan_known M' (cur M' t) x"
        by (intro ballI own) (use act O_failed e in auto)
      have "in_list M' (domain_of (fst (client_resume (p, h) y))) (A (Some t))" using e O_failed res by simp
      then show ?thesis
        using install [of A] old stack_same [OF step_frame(1) [OF wf st']] me d at act O_failed by simp
    qed (use sp in simp_all)
  qed
qed

lemma leave_thread_list: "in_list M (domain_of (fst (leave_thread h))) []"
proof -
  have e: "domain_of (fst (leave_thread h)) = onward (snd (if bag h \<noteq> [] then (h, Inl (Sc_adopt For_exit)) else leave h))"
    unfolding leave_thread_def by (rule in_leaving(1))
  show ?thesis unfolding e by (simp add: no_orphan_flows(1) del: leave.simps)
qed

lemma orphans_call:
  assumes oi: "orphans_ok s A" and cl: "client_call t x (thr s t) = Some (q, es)"
  shows "orphans_ok (called s t q es) A"
proof -
  have "dom = None" if "domain_of (fst (thr s t)) = dom" "fst (thr s t) = In_queue Idle" for dom using that by auto
  moreover have "fst (thr s t) = In_queue Idle \<and> in_list (mem s) (domain_of (fst q)) []"
    using cl
  proof (cases rule: hp_call_cases)
    case (queue y h)
    then show ?thesis by (cases y) simp_all
  next
    case (look h)
    then show ?thesis by auto
  next
    case (exit h)
    then show ?thesis by (simp add: leave_thread_list)
  qed simp
  ultimately have "in_list (mem s) (domain_of (fst q)) (A (Some t))" using orphans_okD(5) [OF oi, of t] by simp
  then show ?thesis using oi by (simp add: orphans_ok_def)
qed

lemma orphans_sync:
  assumes oi: "orphans_ok s A"
  shows "orphans_ok (s\<lparr>mem := synchronize t u (mem s)\<rparr>) A"
proof -
  let ?M' = "synchronize t u (mem s)"
  have h: "hist ?M' = hist (mem s)" "gen ?M' = gen (mem s)" by simp_all
  have nw: "newest ?M' = newest (mem s)" by (rule newest_cong [OF h])
  have "settled_at ?M' V l = settled_at (mem s) V l" for V l
    by (simp add: settled_at_def place_def latest_def msgs_def)
  then have kn: "orphan_known ?M' V b = orphan_known (mem s) V b" for V b by (simp add: orphan_known_def)
  have hv: "holder_view (mem s) x \<le> holder_view ?M' x" for x
    by (cases x) (simp_all add: holder_view_def sync_cur)
  have st: "stacked ?M' p bs = stacked (mem s) p bs" for p bs by (rule stacked_cong) (simp add: nw)
  have "in_list ?M' od bs = in_list (mem s) od bs" for od bs
    by (cases "(mem s, od, bs)" rule: in_list.cases) (simp_all add: st nw)
  moreover have "orphan_known (mem s) (holder_view ?M' x) b" if "b \<in> set (A x)" for x b
    by (rule orphan_known_mono [OF orphans_okD(3) [OF oi that] hv])
  ultimately show ?thesis
    using oi unfolding orphans_ok_def by (simp add: kn st nw)
qed

lemma orphans_start: "orphans_ok (hp_queue_start dflt a) (\<lambda>_. [])"
  using hp_start_memory(1,9) [of dflt a]
  by (simp add: orphans_ok_def hp_start_thr newest_def msgs_def)

section \<open>No access to an orphan is undefined\<close>

lemma orphan_defined:
  fixes s :: "'a hp_state"
  assumes b: "base (mem s)" and oi: "orphans_ok s A" and d: "domain_of (fst (thr s t)) = Some d" and ac: "accesses d = Some q"
  shows "mem_step t (domain_act d) c (mem s) \<noteq> Ub e"
proof -
  have "q \<in> set (A (Some t))" using in_list_accesses [of "mem s" d] orphans_okD(5) [OF oi, of t] d ac by simp
  then have kn: "settled_at (mem s) (cur (mem s) t) (Aux (Orphan_item q))" "settled_at (mem s) (cur (mem s) t) (Aux (Orphan_next q))"
    using orphans_okD(3) [OF oi, of q "Some t"] by (simp_all add: orphan_known_def)
  note qs = settled_quiet [OF kn(1)] settled_quiet [OF kn(2)]
  have l: "latest (mem s) (Aux (Orphan_item q)) \<le> seen (mem s) t (Aux (Orphan_item q))"
    "latest (mem s) (Aux (Orphan_next q)) \<le> seen (mem s) t (Aux (Orphan_next q))"
    using qs by (simp_all add: quiet_def)
  show ?thesis
    using ac qs l
    by (cases d) (auto simp: mem_step.simps guarded_Ub)
qed

end
