(* ===== verification/Hp_Guard.thy ===== *)
theory Hp_Guard imports Hp_Slots Hp_Scan begin

text \<open>
  What a hazard does to the scans.  An address in the bag of a thread that is scanning is at risk;
  the scan \<^emph>\<open>watches\<close> a store to a slot if it still has to read the slot, and can only read that
  store or a later one, or if it has noted the address already.  \<open>guard\<close> says that every scan that
  puts the address at risk watches the store, or else satisfies \<open>Q\<close>, which is what a scan learns
  from a later store to the slot; no step breaks it.
\<close>

section \<open>Risk and watch\<close>

fun at_stake :: "domain_pc \<Rightarrow> tl_cache \<Rightarrow> nat option list" where
  "at_stake (Sc_reserve k) h = bag h"
| "at_stake (Sc_head k) h = bag h"
| "at_stake (Sc_slot k r i hs) h = bag h"
| "at_stake (Sc_next k r hs) h = bag h"
| "at_stake (Sc_free k hs kept p rest n) h = p # rest"
| "at_stake _ h = []"

definition risks :: "domain_pc option \<Rightarrow> tl_cache \<Rightarrow> nat \<Rightarrow> bool" where
  "risks od h a \<longleftrightarrow> (\<exists>d. od = Some d \<and> Some a \<in> set (at_stake d h))"

lemma risks_simps [simp]: "risks None h a \<longleftrightarrow> False" "risks (Some d) h a \<longleftrightarrow> Some a \<in> set (at_stake d h)"
  by (simp_all add: risks_def)

definition before :: "(domain_loc, 'a cell) memory \<Rightarrow> nat \<Rightarrow> nat \<Rightarrow> bool" where
  "before M r q \<longleftrightarrow> (\<exists>m n. m < n \<and> n < length (recs M) \<and> recs M ! m = r \<and> recs M ! n = q)"

fun ahead :: "(domain_loc, 'a cell) memory \<Rightarrow> domain_pc \<Rightarrow> nat \<Rightarrow> nat \<Rightarrow> bool" where
  "ahead M (Sc_reserve k) r i \<longleftrightarrow> True"
| "ahead M (Sc_head k) r i \<longleftrightarrow> True"
| "ahead M (Sc_slot k q j hs) r i \<longleftrightarrow> r = q \<and> j \<le> i \<or> before M r q"
| "ahead M (Sc_next k q hs) r i \<longleftrightarrow> before M r q"
| "ahead M _ r i \<longleftrightarrow> False"

fun noted :: "domain_pc \<Rightarrow> nat list" where
  "noted (Sc_slot k r i hs) = hs"
| "noted (Sc_next k r hs) = hs"
| "noted (Sc_free k hs kept p rest n) = hs"
| "noted _ = []"

definition watches :: "(domain_loc, 'a cell) memory \<Rightarrow> domain_loc view \<Rightarrow> domain_pc option \<Rightarrow> nat \<Rightarrow> nat \<Rightarrow> nat \<Rightarrow> nat \<Rightarrow> bool" where
  "watches M V od r i ts a \<longleftrightarrow>
     (\<exists>d. od = Some d \<and> (ahead M d r i \<and> ts \<le> V (slot_at r i) \<or> a \<in> set (noted d)))"

abbreviation dom_pc :: "'a client \<Rightarrow> domain_pc option" where
  "dom_pc c \<equiv> domain_of (fst c)"

definition guard :: "'a hp_state \<Rightarrow> nat \<Rightarrow> nat \<Rightarrow> nat \<Rightarrow> nat \<Rightarrow> (domain_loc view \<Rightarrow> bool) \<Rightarrow> bool" where
  "guard s r i ts a Q \<longleftrightarrow>
     (\<forall>u. risks (dom_pc (thr s u)) (snd (thr s u)) a \<longrightarrow>
        watches (mem s) (cur (mem s) u) (dom_pc (thr s u)) r i ts a \<or> Q (cur (mem s) u))"

lemma guardD: "guard s r i ts a Q \<Longrightarrow> risks (dom_pc (thr s u)) (snd (thr s u)) a \<Longrightarrow>
    watches (mem s) (cur (mem s) u) (dom_pc (thr s u)) r i ts a \<or> Q (cur (mem s) u)"
  by (simp add: guard_def)

text \<open>The store the guard is about: message \<open>ts\<close> of slot \<open>i\<close> of record \<open>r\<close> holds address \<open>a\<close>,
  and a fence has passed it on.\<close>

definition posted :: "(domain_loc, 'a cell) memory \<Rightarrow> nat \<Rightarrow> nat \<Rightarrow> nat \<Rightarrow> nat \<Rightarrow> bool" where
  "posted M r i ts a \<longleftrightarrow>
     i < kSlots \<and> 2 \<le> ts \<and> ts \<le> length (hist M (Aux (Slot_of r i)) 1) \<and>
     fst (hist M (Aux (Slot_of r i)) 1 ! (ts - 1)) = Ptr (Some a) \<and> r \<in> set (recs M) \<and> ts \<le> scv M (slot_at r i)"

lemma before_longer: "before M r q \<Longrightarrow> longer M M' \<Longrightarrow> before M' r q"
  by (auto simp: before_def longer_def nth_append) (metis less_trans nth_append)

lemma ahead_longer: "ahead M d r i \<Longrightarrow> longer M M' \<Longrightarrow> ahead M' d r i"
  by (cases d) (auto simp: before_longer)

lemma watches_later:
  assumes "watches M V od r i ts a" "longer M M'" "V \<le> W"
  shows "watches M' W od r i ts a"
proof -
  obtain d where d: "od = Some d" "ahead M d r i \<and> ts \<le> V (slot_at r i) \<or> a \<in> set (noted d)"
    using assms(1) by (auto simp: watches_def)
  have "ahead M d r i \<longrightarrow> ahead M' d r i" "V (slot_at r i) \<le> W (slot_at r i)"
    using ahead_longer [OF _ assms(2)] view_leD [OF assms(3)] by blast+
  then have "ahead M' d r i \<and> ts \<le> W (slot_at r i) \<or> a \<in> set (noted d)" using d(2) order.trans by blast
  then show ?thesis using d(1) by (simp add: watches_def)
qed

section \<open>The thread that scans\<close>

lemma sweep_shape:
  "\<exists>h' d. sweep k hs kept ps n h = (h', Inl d) \<and> set (at_stake d h') \<subseteq> set ps \<and>
     (at_stake d h' \<noteq> [] \<longrightarrow> noted d = hs) \<and>
     (\<forall>k' hs' kept' q rest n'. d = Sc_free k' hs' kept' q rest n' \<longrightarrow> hs' = hs \<and> \<not> protected_by hs q)"
proof (induction ps arbitrary: kept)
  case (Cons p ps)
  show ?case
  proof (cases "protected_by hs p")
    case True
    obtain h' d where "sweep k hs (kept @ [p]) ps n h = (h', Inl d)" "set (at_stake d h') \<subseteq> set ps"
      "at_stake d h' \<noteq> [] \<longrightarrow> noted d = hs"
      "\<forall>k' hs' kept' q rest n'. d = Sc_free k' hs' kept' q rest n' \<longrightarrow> hs' = hs \<and> \<not> protected_by hs q"
      using Cons.IH [of "kept @ [p]"] by blast
    then show ?thesis using True by (intro exI [of _ h'] exI [of _ d]) auto
  qed simp
qed simp

lemma sweep_stake:
  assumes "sweep k hs kept ps n h = (h', f)" "onward f = Some d"
  shows "set (at_stake d h') \<subseteq> set ps" "risks (Some d) h' a \<Longrightarrow> noted d = hs"
    "d = Sc_free k' hs' kept' q rest n' \<Longrightarrow> hs' = hs \<and> \<not> protected_by hs q"
proof -
  have sh: "f = Inl d \<and> set (at_stake d h') \<subseteq> set ps \<and> (at_stake d h' \<noteq> [] \<longrightarrow> noted d = hs) \<and>
     (\<forall>k' hs' kept' q rest n'. d = Sc_free k' hs' kept' q rest n' \<longrightarrow> hs' = hs \<and> \<not> protected_by hs q)"
    using sweep_shape [of k hs kept ps n h] assms by auto
  then show "set (at_stake d h') \<subseteq> set ps" by blast
  show "risks (Some d) h' a \<Longrightarrow> noted d = hs" using sh by (cases "at_stake d h'") auto
  show "d = Sc_free k' hs' kept' q rest n' \<Longrightarrow> hs' = hs \<and> \<not> protected_by hs q" using sh by blast
qed

lemma sweep_watch:
  assumes "sweep k hs kept ps n h = (h', f)" "a \<in> set hs" "risks (onward f) h' a"
  shows "watches M V (onward f) r i ts a"
proof -
  obtain d where d: "onward f = Some d" using assms(3) by (auto simp: risks_def)
  then show ?thesis using sweep_stake(2) [OF assms(1) d] assms(2,3) by (simp add: watches_def)
qed

text \<open>Where nothing is put at risk.\<close>

lemma safe_flows:
  "\<not> risks (onward (snd (leave h))) (fst (leave h)) a"
  "\<not> risks (onward (snd (scan_done k h))) (fst (scan_done k h)) a"
  "\<not> risks (onward (snd (adopt_next k b h))) (fst (adopt_next k b h)) a"
proof -
  show l: "\<not> risks (onward (snd (leave h))) (fst (leave h)) a"
    by (cases "bag h"; cases "rec h") (auto simp: risks_def)
  show s: "\<not> risks (onward (snd (scan_done k h))) (fst (scan_done k h)) a"
    using l by (cases k) (auto simp: risks_def)
  show "\<not> risks (onward (snd (adopt_next k b h))) (fst (adopt_next k b h)) a"
    using s by (auto simp: adopt_next_def risks_def split: option.splits)
qed

lemma domain_watch:
  fixes M :: "(domain_loc, 'a cell) memory"
  assumes b: "base M" and ok: "list_ok M" and pc: "list_pc M t (cur M t) d" and sl: "slot_msgs M r i"
    and lv: "live M (Aux (Active r))" and rv: "reveals M (cur M t)" and lng: "longer M M'"
    and st: "mem_step t (domain_act d) k M = Done y M'"
    and po: "posted M r i ts a" and Q: "rising Q"
    and later: "\<forall>m. ts \<le> m \<and> m < length (hist M (Aux (Slot_of r i)) 1) \<longrightarrow> Q (snd (hist M (Aux (Slot_of r i)) 1 ! m))"
    and w: "risks (Some d) h a \<Longrightarrow> watches M (cur M t) (Some d) r i ts a \<or> Q (cur M t)"
    and r': "risks (onward (snd (domain_resume d y h))) (fst (domain_resume d y h)) a"
  shows "watches M' (cur M' t) (onward (snd (domain_resume d y h))) r i ts a \<or> Q (cur M' t)"
proof -
  have up: "cur M t \<le> cur M' t" by (rule step_cur [OF baseD(2) [OF b] st])
  have Q': "Q (cur M t) \<Longrightarrow> Q (cur M' t)" by (rule risingD [OF Q up])
  obtain m where m: "m < length (recs M)" "recs M ! m = r" using po by (auto simp: posted_def in_set_conv_nth)
  note dist = list_okD(2) [OF ok]
  obtain X where X: "recs M' = recs M @ X" by (rule longerD [OF lng])
  have stay: ?thesis if "domain_resume d y h = (h, Inl d')" "at_stake d' h = at_stake d h" "noted d' = noted d"
    "ahead M d r i \<Longrightarrow> ts \<le> cur M t (slot_at r i) \<Longrightarrow> ahead M' d' r i" for d'
  proof -
    have "risks (Some d) h a" using r' that(1,2) by (simp add: risks_def)
    then have "watches M (cur M t) (Some d) r i ts a \<or> Q (cur M t)" by (rule w)
    then show ?thesis using that Q' view_le_mono [OF up] by (auto simp: watches_def)
  qed
  show ?thesis
  proof (cases d)
    case (Sc_fence j)
    have "ts \<le> cur M' t (slot_at r i)"
      using st Sc_fence po by (auto simp: posted_def fence_views le_max_iff_disj)
    then show ?thesis by (simp add: Sc_fence watches_def)
  next
    case (Sc_reserve j)
    then show ?thesis by (intro stay) auto
  next
    case (Sc_head j)
    have st': "mem_step t (Load (Aux Records) acquire) k M = Done y M'" using st Sc_head by simp
    obtain n where n: "0 < n" "n \<le> latest M (Aux Records)" "y = Val (fst (msgs M (Aux Records) ! (n - 1)))"
      "snd (msgs M (Aux Records) ! (n - 1)) \<le> cur M' t" "seen M t (Aux Records) \<le> n"
      using load_facts [OF st'] by (metis is_acq.simps(1))
    note ms = records_latest(2) [OF b ok]
    have stake: "Some a \<in> set (bag h)"
    proof (cases "loaded y")
      case None
      obtain h' f where fl: "sweep j (sort []) [] (bag h) 0 h = (h', f)" by (meson surj_pair)
      then obtain d' where d': "onward f = Some d'" "risks (Some d') h' a"
        using r' Sc_head None by (auto simp: snapshot_next_def risks_def)
      then show ?thesis using sweep_stake(1) [OF fl d'(1)] by auto
    qed (use r' Sc_head in \<open>auto simp: snapshot_next_def\<close>)
    have "watches M (cur M t) (Some d) r i ts a \<or> Q (cur M t)" by (rule w) (use stake Sc_head in simp)
    then consider "Q (cur M t)" | "ts \<le> cur M t (slot_at r i)" using Sc_head by (auto simp: watches_def)
    then show ?thesis
    proof cases
      case 2
      have "2 \<le> cur M t (slot_at (recs M ! m) i)" using 2 po m(2) by (simp add: posted_def)
      then have "m + 2 \<le> cur M t (At (Aux Records) 1)" using rv [unfolded reveals_def, rule_format, OF m(1), of i] po by (simp add: posted_def)
      then have mn: "m + 2 \<le> n" using n(5) baseD(8) [OF b, of "Aux Records"] by (simp add: seen_def)
      have jn: "n - 2 < length (recs M)" "n - 1 = Suc (n - 2)" using n(2) mn records_latest(1) [OF b ok] by simp_all
      then have "fst (msgs M (Aux Records) ! (n - 1)) = Ptr (Some (recs M ! (n - 2)))"
        using nth_tl_map [OF list_okD(3) [OF ok] jn(1)] ms by simp
      then have y: "loaded y = Some (recs M ! (n - 2))" using n(3) by simp
      have "r = recs M ! (n - 2) \<or> before M' r (recs M ! (n - 2))"
      proof (cases "m = n - 2")
        case False
        then have "m < n - 2" using mn by simp
        then have "before M r (recs M ! (n - 2))" using m jn(1) unfolding before_def by blast
        then show ?thesis using before_longer [OF _ lng] by blast
      qed (use m(2) in simp)
      then show ?thesis using Sc_head y view_le_mono [OF up 2] by (auto simp: snapshot_next_def watches_def)
    qed (use Q' in simp)
  next
    case (Sc_slot j q n hs)
    have st': "mem_step t (Load (Aux (Slot_of q n)) acquire) k M = Done y M'" using st Sc_slot by simp
    have n: "n < kSlots" using list_pcD(2) [OF pc] Sc_slot by simp
    have stake: "Some a \<in> set (bag h)" using r' Sc_slot by (auto split: if_splits)
    have i2: "i < kSlots" "i = 0 \<or> i = 1" "n = 0 \<or> n = 1" using po n by (auto simp: posted_def kSlots_def)
    have "watches M (cur M t) (Some d) r i ts a \<or> Q (cur M t)" by (rule w) (use stake Sc_slot in simp)
    then consider "Q (cur M t)" | "a \<in> set hs" | "r = q" "i = n" "ts \<le> cur M t (slot_at r i)"
      | "r = q \<and> Suc n \<le> i \<or> before M r q" "ts \<le> cur M t (slot_at r i)"
      using Sc_slot by (auto simp: watches_def) (metis Suc_leI le_neq_implies_less)
    then show ?thesis
    proof cases
      case 3
      have ms: "msgs M (Aux (Slot_of q n)) = hist M (Aux (Slot_of r i)) 1"
        using slot_here(3) [OF ok lv i2(1)] 3 by simp
      have pl: "place M (Aux (Slot_of q n)) = slot_at r i" using slot_place [OF ok lv i2(1)] 3 by simp
      obtain m where m: "0 < m" "m \<le> latest M (Aux (Slot_of q n))" "y = Val (fst (msgs M (Aux (Slot_of q n)) ! (m - 1)))"
        "snd (msgs M (Aux (Slot_of q n)) ! (m - 1)) \<le> cur M' t" "seen M t (Aux (Slot_of q n)) \<le> m"
        using load_facts [OF st'] by (metis is_acq.simps(1))
      have tm: "ts \<le> m" using m(5) 3(3) pl by (simp add: seen_def)
      show ?thesis
      proof (cases "m = ts")
        case True
        then have "loaded y = Some a" using m(3) ms po by (simp add: posted_def)
        then show ?thesis using Sc_slot by (auto simp: watches_def add_hazard_def)
      next
        case False
        then have "ts \<le> m - 1 \<and> m - 1 < length (hist M (Aux (Slot_of r i)) 1)" using tm m(1,2) unfolding latest_def ms by auto
        then have "Q (snd (hist M (Aux (Slot_of r i)) 1 ! (m - 1)))" using later by blast
        then show ?thesis using risingD [OF Q m(4)] ms by simp
      qed
    next
      case 4
      have "before M' r q" if "before M r q" by (rule before_longer [OF that lng])
      then show ?thesis using 4 Sc_slot view_le_mono [OF up 4(2)] n i2 by (auto simp: watches_def kSlots_def)
    qed (use Q' Sc_slot in \<open>auto simp: watches_def add_hazard_def split: option.split\<close>)
  next
    case (Sc_next j q hs)
    have st': "mem_step t (Read (Aux (Next_record q))) k M = Done y M'" using st Sc_next by simp
    have y: "y = Val (newest M (Aux (Next_record q)))" using now_read [OF baseD(1) [OF b] st'] by simp
    obtain n where n: "listed M (cur M t) q n" using list_pcD(1) [OF pc, of q] Sc_next by auto
    then have nq: "n < length (recs M)" "recs M ! n = q" by (auto simp: listed_def)
    have nx: "loaded y = (if n = 0 then None else Some (recs M ! (n - 1)))"
      using y list_okD(5) [OF ok nq(1)] nq(2) by simp
    obtain h' f where fl: "sweep j (sort hs) [] (bag h) 0 h = (h', f)" by (meson surj_pair)
    have stake: "Some a \<in> set (bag h)"
    proof (cases "loaded y")
      case None
      then obtain d' where d': "onward f = Some d'" "risks (Some d') h' a"
        using r' Sc_next fl by (auto simp: snapshot_next_def risks_def)
      then show ?thesis using sweep_stake(1) [OF fl d'(1)] by auto
    qed (use r' Sc_next in \<open>auto simp: snapshot_next_def\<close>)
    have "watches M (cur M t) (Some d) r i ts a \<or> Q (cur M t)" by (rule w) (use stake Sc_next in simp)
    then consider "Q (cur M t)" | "a \<in> set hs" | "before M r q" "ts \<le> cur M t (slot_at r i)"
      using Sc_next by (auto simp: watches_def)
    then show ?thesis
    proof cases
      case 2
      then show ?thesis using Sc_next fl r' sweep_watch [OF fl] by (auto simp: snapshot_next_def watches_def split: option.splits)
    next
      case 3
      then obtain m' n' where mn: "m' < n'" "n' < length (recs M)" "recs M ! m' = r" "recs M ! n' = q" by (auto simp: before_def)
      then have n': "n' = n" using nq dist nth_eq_iff_index_eq by blast
      have y': "loaded y = Some (recs M ! (n - 1))" using nx mn(1) n' by simp
      have "r = recs M ! (n - 1) \<or> before M' r (recs M ! (n - 1))"
      proof (cases "m' = n - 1")
        case False
        then have "m' < n - 1" "n - 1 < length (recs M)" using mn n' by simp_all
        then have "before M r (recs M ! (n - 1))" using mn(3) unfolding before_def by blast
        then show ?thesis using before_longer [OF _ lng] by blast
      qed (use mn(3) in simp)
      then show ?thesis using Sc_next y' view_le_mono [OF up 3(2)] by (auto simp: snapshot_next_def watches_def)
    qed (use Q' in simp)
  next
    case (Sc_free j hs kept q rest n)
    obtain h' f where fl: "sweep j hs kept rest (n + 1) h = (h', f)" by (meson surj_pair)
    then obtain d' where d': "onward f = Some d'" "risks (Some d') h' a" using r' Sc_free by (auto simp: risks_def)
    have "set (at_stake d' h') \<subseteq> set rest" "noted d' = hs" using sweep_stake [OF fl d'(1)] d'(2) by blast+
    then have "risks (Some d) h a" using d'(2) Sc_free by auto
    then have "a \<in> set hs \<or> Q (cur M t)" using w Sc_free by (auto simp: watches_def)
    then show ?thesis using Q' sweep_watch [OF fl] r' Sc_free fl by auto
  qed (use r' safe_flows in \<open>auto simp: try_record_def got_record_def simp del: leave.simps split: option.splits if_splits\<close>)
qed

section \<open>No step breaks a guard\<close>

lemma outside_safe:
  assumes "domain_of p = None"
  shows "\<not> risks (dom_pc (client_resume (p, h) y)) (snd (client_resume (p, h) y)) a"
proof (cases "\<exists>x k. p = In_queue (Start x k)")
  case True
  then obtain x k where p: "p = In_queue (Start x k)" by blast
  show ?thesis unfolding p resume_start by (cases x) auto
next
  case False
  then show ?thesis using resume_else(1) [OF assms, of h y] by simp
qed

lemma posted_later:
  assumes wf: "mem_wf M" and st: "mem_step t x c M = Done y M'" and lng: "longer M M'" and po: "posted M r i ts a"
  shows "posted M' r i ts a"
proof -
  have "hist M' (Aux (Slot_of r i)) 1 ! (ts - 1) = hist M (Aux (Slot_of r i)) 1 ! (ts - 1)"
    by (rule step_nth [OF wf st]) (use po in \<open>auto simp: posted_def\<close>)
  moreover have "set (recs M) \<subseteq> set (recs M')" using lng by (auto simp: longer_def)
  ultimately show ?thesis
    using po step_length [OF wf st, of "Aux (Slot_of r i)" 1] view_leD [OF step_scv_mono [OF st], of "slot_at r i"]
    unfolding posted_def by auto
qed

lemma guard_step:
  fixes s :: "'a hp_state"
  assumes b: "base (mem s)" and li: "lists_inv s" and sl: "slots_inv s" and rv: "reveal_inv s"
    and st: "mem_step t (client_act w (thr s t)) k (mem s) = Done y M'"
    and po: "posted (mem s) r i ts a" and Q: "rising Q"
    and later: "\<forall>m. ts \<le> m \<and> m < length (hist (mem s) (Aux (Slot_of r i)) 1) \<longrightarrow> Q (snd (hist (mem s) (Aux (Slot_of r i)) 1 ! m))"
    and g: "guard s r i ts a Q"
  shows "guard (stepped s t y M') r i ts a Q"
  unfolding guard_def
proof (intro allI impI)
  fix u
  let ?M = "mem s" let ?s' = "stepped s t y M'"
  assume rk: "risks (dom_pc (thr ?s' u)) (snd (thr ?s' u)) a"
  have lng: "longer ?M M'" by (rule longer_step [OF b li st])
  have up: "cur ?M u \<le> cur M' u" by (rule step_cur [OF baseD(2) [OF b] st])
  have lo: "list_ok ?M" by (rule lists_invD(1) [OF li])
  show "watches (mem ?s') (cur (mem ?s') u) (dom_pc (thr ?s' u)) r i ts a \<or> Q (cur (mem ?s') u)"
  proof (cases "u = t")
    case False
    then show ?thesis using guardD [OF g, of u] rk watches_later [OF _ lng up] risingD [OF Q up] by auto
  next
    case True
    obtain p h where at: "thr s t = (p, h)" by (meson surj_pair)
    have "domain_of p \<noteq> None" using rk outside_safe [of p h y a] True at by auto
    then obtain d where d: "domain_of p = Some d" by blast
    have pc: "list_pc ?M t (cur ?M t) d" using lists_invD(2) [OF li, of t] at d by (simp add: list_thread_def)
    have lv: "live ?M (Aux (Active r))" by (rule recs_live [OF lo]) (use po in \<open>simp add: posted_def\<close>)
    have rvt: "reveals ?M (cur ?M t)" using rv all_viewsD(1) unfolding reveal_inv_def by blast
    have i: "i < kSlots" using po by (simp add: posted_def)
    have st': "mem_step t (domain_act d) k ?M = Done y M'" using st at client_domain_act [OF d] by simp
    have "watches M' (cur M' t) (onward (snd (domain_resume d y h))) r i ts a \<or> Q (cur M' t)"
      by (rule domain_watch [OF b lo pc slots_invD(2) [OF sl lv i] lv rvt lng st' po Q later, where h = h])
        (use guardD [OF g, of t] rk True at d resume_domain [OF d, of h y] in simp_all)
    then show ?thesis using True at resume_domain(1) [OF d, of h y] by simp
  qed
qed

end
