(* ===== verification/Hp_Bags.thy ===== *)
theory Hp_Bags imports Hp_Orphans Hp_Guard "HOL-Library.Multiset" begin

text \<open>
  Where the retired nodes are.  Each is in the bag of a thread, in its hands while a scan or the
  hand-over works on it, or in an orphan.  A step takes none twice: what it moves is named below,
  and the only step that adds one is the dequeue that unlinks it.
\<close>

section \<open>What a thread carries\<close>

fun stock :: "domain_pc \<Rightarrow> tl_cache \<Rightarrow> nat option list" where
  "stock (Sc_free k hs kept p rest n) h = kept @ p # rest"
| "stock (O_top p) h = p # bag h"
| "stock (O_new p q) h = p # bag h"
| "stock _ h = bag h"

fun carries :: "'a client \<Rightarrow> nat option list" where
  "carries (In_queue (Start (Retire p) k), h) = p # bag h"
| "carries (p, h) = (case domain_of p of None \<Rightarrow> bag h | Some d \<Rightarrow> stock d h)"

lemma carries_domain: "domain_of p = Some d \<Longrightarrow> carries (p, h) = stock d h"
  by (cases p rule: domain_of.cases) simp_all

lemma carries_idle: "domain_of p = None \<Longrightarrow> (\<And>q k. p \<noteq> In_queue (Start (Retire q) k)) \<Longrightarrow> carries (p, h) = bag h"
  by (cases "(p, h)" rule: carries.cases) auto

definition flow_stock :: "domain_flow \<Rightarrow> nat option list" where
  "flow_stock y = (case snd y of Inl d \<Rightarrow> stock d (fst y) | Inr p \<Rightarrow> bag (fst y))"

lemma flow_stock_simps [simp]: "flow_stock (h, Inl d) = stock d h" "flow_stock (h, Inr p) = bag h"
  by (simp_all add: flow_stock_def)

lemma carries_continue: "carries (In_queue (continue k p), h) = bag h"
  by (cases k) simp_all

lemma carries_resume:
  assumes "domain_of p = Some d"
  shows "carries (client_resume (p, h) y) = flow_stock (domain_resume d y h)"
proof -
  obtain h' f where f: "domain_resume d y h = (h', f)" by (meson surj_pair)
  then show ?thesis using assms
    by (cases p rule: domain_of.cases; cases f) (auto simp: hp_reclaimer_def carries_continue)
qed

lemma stock_flows:
  "mset (flow_stock (leave h)) = mset (bag h)" "mset (flow_stock (scan_done k h)) = mset (bag h)"
  "mset (flow_stock (adopt_next k b h)) = mset (bag h)" "mset (flow_stock (sweep k hs kept ps n h)) = mset kept + mset ps"
  "mset (flow_stock (snapshot_next k q hs h)) = mset (bag h)"
proof -
  show l: "mset (flow_stock (leave h)) = mset (bag h)" by (cases "bag h"; cases "rec h") (simp_all add: fresh_cache_def)
  show s: "mset (flow_stock (scan_done k h)) = mset (bag h)" using l by (cases k) (simp_all del: leave.simps)
  show "mset (flow_stock (adopt_next k b h)) = mset (bag h)" using s
    by (cases b; cases "bag h = []") (simp_all add: adopt_next_def)
  show w: "mset (flow_stock (sweep k hs kept ps n h)) = mset kept + mset ps" for hs kept n ps
    by (induction ps arbitrary: kept) auto
  show "mset (flow_stock (snapshot_next k q hs h)) = mset (bag h)"
    using w by (simp add: snapshot_next_def split: option.split)
qed

text \<open>What one step of the domain does to the stock.\<close>

fun stock_gain :: "domain_pc \<Rightarrow> 'a cell result \<Rightarrow> nat option list" where
  "stock_gain (Sc_item k b) y = [loaded y]"
| "stock_gain _ y = []"

fun stock_loss :: "domain_pc \<Rightarrow> nat option list" where
  "stock_loss (Sc_free k hs kept p rest n) = [p]"
| "stock_loss (O_new p q) = [p]"
| "stock_loss _ = []"

lemma stock_step:
  "mset (flow_stock (domain_resume d y h)) + mset (stock_loss d) \<subseteq># mset (stock d h) + mset (stock_gain d y)"
  by (cases d) (auto simp: stock_flows try_record_def got_record_def fresh_cache_def simp del: leave.simps split: option.split)

lemma outside_stock:
  assumes "domain_of p = None"
  shows "mset (carries (client_resume (p, h) y)) =
    mset (carries (p, h)) + (case p of In_queue (D_cas q z v) \<Rightarrow> if won y then {#q#} else {#} | _ \<Rightarrow> {#})"
proof (cases p)
  case (In_queue q)
  show ?thesis
  proof (cases q)
    case (Start x k)
    show ?thesis using In_queue Start
      by (cases x) (auto simp: hp_reclaimer_def carries_continue)
  qed (use In_queue assms in auto)
qed (use assms in auto)

section \<open>What the orphans hold\<close>

fun emptied :: "domain_pc option \<Rightarrow> bool" where
  "emptied (Some (Sc_onext k b)) = True"
| "emptied (Some (Sc_odelete k b n)) = True"
| "emptied _ = False"

definition item_of :: "(domain_loc, 'a cell) memory \<Rightarrow> nat \<Rightarrow> nat option" where
  "item_of M b = ptr (newest M (Aux (Orphan_item b)))"

definition full :: "'a hp_state \<Rightarrow> orphans \<Rightarrow> nat option \<Rightarrow> nat list" where
  "full s A x = (case x of None \<Rightarrow> A None | Some u \<Rightarrow> if emptied (dom_pc (thr s u)) then tl (A (Some u)) else A (Some u))"

lemma full_simps:
  "full s A None = A None" "full s A (Some u) = (if emptied (dom_pc (thr s u)) then tl (A (Some u)) else A (Some u))"
  by (simp_all add: full_def)

definition holdings :: "'a hp_state \<Rightarrow> orphans \<Rightarrow> nat option \<Rightarrow> nat option list" where
  "holdings s A x = (case x of None \<Rightarrow> [] | Some u \<Rightarrow> carries (thr s u)) @ map (item_of (mem s)) (full s A x)"

lemma holdings_simps:
  "holdings s A None = map (item_of (mem s)) (A None)"
  "holdings s A (Some u) = carries (thr s u) @ map (item_of (mem s)) (full s A (Some u))"
  by (simp_all add: holdings_def full_def)

lemma full_in: "b \<in> set (full s A x) \<Longrightarrow> b \<in> set (A x)"
  by (cases x) (auto simp: full_simps split: if_splits intro: list.set_sel(2) [OF _ ])

text \<open>An orphan keeps its item.\<close>

lemma item_writes:
  assumes "Aux (Orphan_item b) \<in> writes (client_act w (p, h)) k"
  shows "(\<exists>f. client_act w (p, h) = New f) \<or> (\<exists>ls. client_act w (p, h) = Delete ls)"
proof (cases "domain_of p")
  case None
  then show ?thesis using assms queue_writes [of _ "Orphan_item b" w k] by (cases p) auto
next
  case (Some d)
  then show ?thesis using assms client_domain_act [OF Some, of w h]
    by (cases d) (auto simp: delete_node_def make_record_def split: option.splits)
qed

lemma item_stays:
  assumes wf: "mem_wf M" and st: "mem_step t (client_act w (p, h)) k M = Done y M'" and lv: "live M (Aux (Orphan_item b))"
  shows "item_of M' b = item_of M b"
proof (cases "Aux (Orphan_item b) \<in> writes (client_act w (p, h)) (fst k)")
  case False
  then show ?thesis using step_frame(4) [OF wf st False] by (simp add: item_of_def)
next
  case True
  from item_writes [OF this] show ?thesis
  proof (elim disjE exE)
    fix f assume f: "client_act w (p, h) = New f"
    then have "\<not> live M (Aux (Orphan_item b))" using True st by (auto simp: new_Done list_all_iff)
    then show ?thesis using lv by blast
  next
    fix ls assume "client_act w (p, h) = Delete ls"
    then show ?thesis using now_delete [of t ls k M y M'] st by (simp add: item_of_def)
  qed
qed

section \<open>One step\<close>

fun freed :: "domain_pc option \<Rightarrow> nat option list" where
  "freed (Some (Sc_free k hs kept p rest n)) = [p]"
| "freed _ = []"

fun unlinked :: "'a client_pc \<Rightarrow> 'a cell result \<Rightarrow> nat option list" where
  "unlinked (In_queue (D_cas q z v)) y = (if won y then [q] else [])"
| "unlinked p y = []"

lemma unlinked_none: "domain_of p = Some d \<Longrightarrow> unlinked p y = []"
  by (cases p rule: domain_of.cases) simp_all

lemma not_emptied:
  "\<not> emptied (onward (snd (leave h)))" "\<not> emptied (onward (snd (scan_done k h)))" "\<not> emptied (onward (snd (adopt_next k b h)))"
  "\<not> emptied (onward (snd (sweep k hs kept ps n h)))" "\<not> emptied (onward (snd (snapshot_next k q hs h)))"
proof -
  show l: "\<not> emptied (onward (snd (leave h)))" by (cases "bag h"; cases "rec h") simp_all
  show s: "\<not> emptied (onward (snd (scan_done k h)))" using l by (cases k) (simp_all del: leave.simps)
  show "\<not> emptied (onward (snd (adopt_next k b h)))" using s by (auto simp: adopt_next_def split: option.split)
  show w: "\<not> emptied (onward (snd (sweep k hs kept ps n h)))" for hs kept ps n by (induction ps arbitrary: kept) simp_all
  show "\<not> emptied (onward (snd (snapshot_next k q hs h)))" using w by (auto simp: snapshot_next_def split: option.split)
qed

lemma not_special_calm: "\<not> special d \<Longrightarrow> \<not> emptied (onward (snd (domain_resume d y h))) \<and> stock_gain d y = [] \<and> stock_loss d = freed (Some d)"
  using not_emptied by (cases d) (auto simp: try_record_def got_record_def simp del: leave.simps split: option.split)

lemma holdings_other:
  fixes s :: "'a hp_state"
  assumes b: "base (mem s)" and oi: "orphans_ok s A" and st: "mem_step t (client_act w (thr s t)) k (mem s) = Done y M'"
    and u: "u \<noteq> t"
  shows "holdings (stepped s t y M') (pass_on od z t A) (Some u) = holdings s A (Some u)"
proof -
  have "pass_on od z t A (Some u) = A (Some u)" using u by (cases "(od, z, t, A)" rule: pass_on.cases) auto
  then have f: "full (stepped s t y M') (pass_on od z t A) (Some u) = full s A (Some u)" using u by (simp add: full_simps)
  obtain p h where at: "thr s t = (p, h)" by (meson surj_pair)
  have "item_of M' b = item_of (mem s) b" if "b \<in> set (full s A (Some u))" for b
    using item_stays [OF baseD(1) [OF assms(1)], of t w p h k y M' b] st at orphans_okD(3) [OF oi full_in [OF that]]
    by (simp add: orphan_known_def settled_at_def)
  then show ?thesis using u f by (simp add: holdings_simps)
qed

lemma orphans_acquired:
  assumes b: "base M" and st: "mem_step t (Rmw (Aux Orphans) f acquire) k M = Done y M'"
  shows "holder_view M None \<le> cur M' t"
proof -
  have "0 < seen M t (Aux Orphans)" using st by (simp add: rmw_Done)
  then have "0 < latest M (Aux Orphans)" by (rule latest_pos [OF baseD(1) [OF b]])
  then have "holder_view M None = snd (msgs M (Aux Orphans) ! (latest M (Aux Orphans) - 1))"
    using baseD(6) [OF b, of "Aux Orphans"] by (simp add: holder_view_def latest_def msgs_def last_conv_nth)
  moreover obtain v where "M' = rmw_at t (Aux Orphans) v acquire M" using st by (auto simp: rmw_Done Let_def)
  ultimately show ?thesis using rmw_acquires [of acquire M "Aux Orphans"] by simp
qed

lemma orphans_released:
  assumes b: "base M" and st: "mem_step t (Cas True (Aux Orphans) e d release relaxed) k M = Done y M'" and won: "won y"
  shows "holder_view M None \<le> holder_view M' None" "cur M t \<le> holder_view M' None"
proof -
  obtain v where yv: "y = Swapped True v" using won by (cases y) auto
  obtain W where W: "hist M' (Aux Orphans) (gen M (Aux Orphans)) = hist M (Aux Orphans) (gen M (Aux Orphans)) @ [(d, W)]"
    "snd (msgs M (Aux Orphans) ! (latest M (Aux Orphans) - 1)) \<le> W" "cur M t \<le> W" "0 < latest M (Aux Orphans)"
    using won_facts [OF st yv] by (metis is_rel.simps(1))
  have g: "gen M (Aux Orphans) = 1" by (rule baseD(6) [OF b]) simp
  have "holder_view M' None = W" using W(1) g by (simp add: holder_view_def)
  moreover have "holder_view M None \<le> W" using W(2,4) g by (simp add: holder_view_def latest_def msgs_def last_conv_nth)
  ultimately show "holder_view M None \<le> holder_view M' None" "cur M t \<le> holder_view M' None" using W(3) by simp_all
qed

lemma holdings_step:
  fixes s :: "'a hp_state"
  assumes b: "base (mem s)" and oi: "orphans_ok s A" and at: "thr s t = (p, h)"
    and st: "mem_step t (client_act w (thr s t)) k (mem s) = Done y M'"
  defines "H \<equiv> holdings s A" and "H' \<equiv> holdings (stepped s t y M') (pass_on (domain_of p) y t A)"
  obtains (keep) "mset (H' (Some t)) + mset (freed (domain_of p)) \<subseteq># mset (H (Some t)) + mset (unlinked p y)" "H' None = H None"
      "hist M' (Aux Orphans) = hist (mem s) (Aux Orphans)"
  | (adopt) "mset (H' (Some t)) = mset (H (Some t)) + mset (H None)" "H' None = []" "holder_view (mem s) None \<le> cur M' t"
      "freed (domain_of p) = []" "unlinked p y = []"
  | (pass) q where "mset (H (Some t)) = add_mset q (mset (H' (Some t)))" "H' None = q # H None"
      "holder_view (mem s) None \<le> holder_view M' None" "cur (mem s) t \<le> holder_view M' None"
      "freed (domain_of p) = []" "unlinked p y = []"
proof -
  let ?M = "mem s" let ?s' = "stepped s t y M'"
  note wf = baseD(1) [OF b]
  have st': "mem_step t (client_act w (p, h)) k ?M = Done y M'" using st at by simp
  have mine: "in_list ?M (domain_of p) (A (Some t))" using orphans_okD(5) [OF oi, of t] at by simp
  have item: "item_of M' b = item_of ?M b" if "b \<in> set (A x)" for b x
    using item_stays [OF wf st'] orphans_okD(3) [OF oi that] by (simp add: orphan_known_def settled_at_def)
  have items: "map (item_of M') bs = map (item_of ?M) bs" if "set bs \<subseteq> set (A x)" for bs x
    using item that by (auto simp: subset_iff)
  note goal = that
  show thesis
  proof (cases "\<exists>d. domain_of p = Some d \<and> special d")
    case False
    have "A (Some t) = [] \<and> pass_on (domain_of p) y t A = A \<and> Aux Orphans \<notin> writes (client_act w (p, h)) (fst k) \<and>
      mset (carries (client_resume (p, h) y)) + mset (freed (domain_of p)) \<subseteq># mset (carries (p, h)) + mset (unlinked p y)"
    proof (cases "domain_of p")
      case None
      have "(case p of In_queue (D_cas q z v) \<Rightarrow> if won y then {#q#} else {#} | _ \<Rightarrow> {#}) = mset (unlinked p y)"
        by (cases "(p, y)" rule: unlinked.cases) auto
      then show ?thesis using outside_stock [OF None, of h y] mine queue_writes [of _ Orphans w "fst k"] None by (cases p) auto
    next
      case (Some d)
      then have n: "\<not> special d" using False by simp
      have "A (Some t) = []" using mine Some by (simp add: not_special(1) [OF n])
      moreover have "mset (carries (client_resume (p, h) y)) + mset (freed (domain_of p)) \<subseteq># mset (carries (p, h)) + mset (unlinked p y)"
        using stock_step [of d y h] not_special_calm [OF n, of y h] Some
        by (simp add: carries_resume [OF Some] carries_domain [OF Some] unlinked_none [OF Some])
      ultimately show ?thesis
        by (simp add: Some not_special(2,4) [OF n] client_domain_act [OF Some])
    qed
    then have e: "A (Some t) = []" "pass_on (domain_of p) y t A = A" "Aux Orphans \<notin> writes (client_act w (p, h)) (fst k)"
      "mset (carries (client_resume (p, h) y)) + mset (freed (domain_of p)) \<subseteq># mset (carries (p, h)) + mset (unlinked p y)" by blast+
    show thesis
      by (rule goal(1)) (use e at items [of "A None" None] step_frame(1) [OF wf st' e(3)] in \<open>simp_all add: H_def H'_def holdings_simps full_simps\<close>)
  next
    case True
    then obtain d where d: "domain_of p = Some d" and sp: "special d" by blast
    have act: "client_act w (p, h) = domain_act d" by (rule client_domain_act [OF d])
    have sd: "mem_step t (domain_act d) k ?M = Done y M'" using st' act by simp
    have in_d: "in_list ?M (Some d) (A (Some t))" using mine d by simp
    have fr: "freed (domain_of p) = []" "unlinked p y = []" using d sp unlinked_none [OF d] by (cases d; simp)+
    have c: "carries (thr s t) = stock d h" "carries (client_resume (p, h) y) = flow_stock (domain_resume d y h)"
      unfolding at by (rule carries_domain [OF d], rule carries_resume [OF d])
    have dp: "dom_pc (client_resume (p, h) y) = onward (snd (domain_resume d y h))" by (rule resume_domain(1) [OF d])
    have Ht: "H (Some t) = stock d h @ map (item_of ?M) (if emptied (Some d) then tl (A (Some t)) else A (Some t))"
      by (simp add: H_def holdings_simps full_simps c(1) [unfolded at] at d)
    have Ht': "H' (Some t) = flow_stock (domain_resume d y h) @ map (item_of M')
        (if emptied (onward (snd (domain_resume d y h))) then tl (pass_on (Some d) y t A (Some t)) else pass_on (Some d) y t A (Some t))"
      by (simp add: H'_def holdings_simps full_simps c(2) at d dp)
    have HN: "H None = map (item_of ?M) (A None)" "H' None = map (item_of M') (pass_on (Some d) y t A None)"
      by (simp_all add: H_def H'_def holdings_simps d)
    have keepI: thesis if "mset (H' (Some t)) \<subseteq># mset (H (Some t))" "pass_on (Some d) y t A None = A None"
      "hist M' (Aux Orphans) = hist ?M (Aux Orphans)"
      by (rule goal(1)) (use that fr HN items [of "A None" None] in simp_all)
    have hist_same: "hist M' (Aux Orphans) = hist ?M (Aux Orphans)"
      if "Aux Orphans \<notin> writes (domain_act d :: (domain_loc, 'a cell) action) (fst k)"
      by (rule step_frame(1) [OF wf sd that])
    show thesis
    proof (cases d)
      case (Sc_item j q)
      have y: "loaded y = item_of ?M q"
        using now_read [OF wf sd [unfolded Sc_item domain_act.simps]] by (simp add: item_of_def)
      obtain cs where cs: "A (Some t) = q # cs" using in_d Sc_item by (auto simp: stacked_Some)
      show thesis
        by (rule keepI) (use Sc_item y cs hist_same in \<open>simp_all add: Ht Ht' items [of cs "Some t"] subset_insertI del: mset_map\<close>)
    next
      case (Sc_onext j q)
      have sub: "set (tl (A (Some t))) \<subseteq> set (A (Some t))" by (cases "A (Some t)") auto
      show thesis
        by (rule keepI) (use Sc_onext hist_same in \<open>simp_all del: mset_map add: items [OF sub] Ht Ht'\<close>)
    next
      case (Sc_odelete j q n)
      have sub: "set (tl (A (Some t))) \<subseteq> set (A (Some t))" by (cases "A (Some t)") auto
      show thesis
        by (rule keepI) (use Sc_odelete hist_same not_emptied in \<open>simp_all del: mset_map add: items [OF sub] Ht Ht' stock_flows\<close>)
    next
      case (Sc_adopt j)
      have sr: "mem_step t (Rmw (Aux Orphans) (\<lambda>_. Ptr None) acquire) k ?M = Done y M'" using sd Sc_adopt by simp
      have "holder_view ?M None \<le> cur M' t"
        using orphans_acquired [OF b sr] by simp
      moreover have "A (Some t) = []" using in_d Sc_adopt by simp
      ultimately show thesis
        by (intro goal(2)) (use Sc_adopt not_emptied fr HN in \<open>simp_all del: mset_map add: items [of "A None" None] Ht Ht' stock_flows\<close>)
    next
      case (O_new r z)
      have sn: "mem_step t (New (make_orphan r z)) k ?M = Done y M'" using sd O_new by simp
      have "loaded y = Some (fst k)" "newest M' (Aux (Orphan_item (fst k))) = Ptr r"
        using now_new [OF sn] by (simp_all add: make_orphan_def)
      moreover have "A (Some t) = []" using in_d O_new by simp
      ultimately show thesis
        by (intro keepI hist_same) (use O_new in \<open>simp_all add: Ht Ht' item_of_def make_orphan_def\<close>)
    next
      case (O_expected q)
      show thesis
        by (rule keepI) (use O_expected hist_same in \<open>simp_all del: mset_map add: items [of "A (Some t)" "Some t"] Ht Ht'\<close>)
    next
      case (O_failed q v)
      show thesis
        by (rule keepI) (use O_failed hist_same in \<open>simp_all del: mset_map add: items [of "A (Some t)" "Some t"] Ht Ht'\<close>)
    next
      case (O_cas q e)
      have e: "A (Some t) = [q]" using in_d O_cas by simp
      have sc: "mem_step t (Cas True (Aux Orphans) (Ptr e) (Ptr (Some q)) release relaxed) k ?M = Done y M'" using sd O_cas by simp
      show thesis
      proof (cases "won y")
        case False
        then have "hist M' (Aux Orphans) = hist ?M (Aux Orphans)" using sc by (auto simp: cas_Done Let_def)
        then show thesis
          by (intro keepI) (use O_cas False in \<open>simp_all del: mset_map add: items [of "A (Some t)" "Some t"] Ht Ht'\<close>)
      next
        case True
        have v: "holder_view ?M None \<le> holder_view M' None" "cur ?M t \<le> holder_view M' None"
          using orphans_released [OF b sc True] by simp_all
        show thesis
          by (rule goal(3) [of "item_of ?M q"])
            (use O_cas True e item [of q "Some t"] v fr HN not_emptied stock_flows(1) [of h] in
              \<open>simp_all add: Ht Ht' items [of "A None" None] del: leave.simps mset_map\<close>)
      qed
    qed (use sp in simp_all)
  qed
qed

end
