(* ===== verification/Hp_Shadow.thy ===== *)
theory Hp_Shadow imports Hp_Slots Ms_Queue_Safe "HOL-Library.Countable" begin

text \<open>
  The queue inside the hazard-pointer build, seen without the reclamation.  A node of it is an
  address and the generation of the object there; under the leaky reclaimer the same node would
  have an address of its own.  \<open>shadows M L\<close> says that memory \<open>M\<close> looks to the queue like
  memory \<open>L\<close> of the leaky build: the same modification orders, and views that know at least
  as much.
\<close>

section \<open>Names of nodes\<close>

definition addr :: "nat \<Rightarrow> nat" where
  "addr x = fst (prod_decode x)"

definition born :: "nat \<Rightarrow> nat" where
  "born x = snd (prod_decode x)"

definition name :: "nat \<Rightarrow> nat \<Rightarrow> nat" where
  "name a g = prod_encode (a, g)"

lemma name_simps [simp]: "addr (name a g) = a" "born (name a g) = g" "name (addr x) (born x) = x"
  by (simp_all add: addr_def born_def name_def)

lemma name_eqI: "addr x = addr y \<Longrightarrow> born x = born y \<Longrightarrow> x = y"
  by (metis name_simps(3))

lemma name_iff: "x = name a g \<longleftrightarrow> addr x = a \<and> born x = g"
  by (metis name_simps)

fun forget :: "'a cell \<Rightarrow> 'a cell" where
  "forget (Ptr p) = Ptr (map_option addr p)"
| "forget (Dat v) = Dat v"
| "forget (Flag b) = Flag b"
| "forget (Num n) = Num n"

fun queue_loc :: "unit loc \<Rightarrow> bool" where
  "queue_loc (Aux x) = False"
| "queue_loc _ = True"

fun shadow :: "unit loc \<Rightarrow> domain_loc coord" where
  "shadow Head = At Head 1"
| "shadow Tail = At Tail 1"
| "shadow (Next x) = At (Next (addr x)) (born x)"
| "shadow (Value x) = At (Value (addr x)) (born x)"
| "shadow (Aux x) = At (Aux Records) 0"

fun hist_at :: "('l, 'v) memory \<Rightarrow> 'l coord \<Rightarrow> ('l, 'v) msg list" where
  "hist_at M (At l g) = hist M l g"
| "hist_at M (Clock u) = []"

lemma shadow_inj: "queue_loc l \<Longrightarrow> queue_loc l' \<Longrightarrow> shadow l = shadow l' \<Longrightarrow> l = l'"
  by (cases l; cases l') (simp_all add: name_eqI)

section \<open>The relation\<close>

definition below :: "unit loc view \<Rightarrow> domain_loc view \<Rightarrow> bool" where
  "below V W \<longleftrightarrow> (\<forall>l. queue_loc l \<longrightarrow> V (At l 1) \<le> W (shadow l))"

lemma belowD: "below V W \<Longrightarrow> queue_loc l \<Longrightarrow> V (At l 1) \<le> W (shadow l)"
  by (simp add: below_def)

lemma below_mono: "below V W \<Longrightarrow> W \<le> X \<Longrightarrow> below V X"
  unfolding below_def by (auto intro: order.trans [OF _ view_leD])

lemma below_sup: "below V W \<Longrightarrow> below V' W' \<Longrightarrow> below (sup V V') (sup W W')"
  unfolding below_def sup_fun_def sup_nat_def by (auto intro: max.mono simp del: max.bounded_iff)

lemma below_left: "below V X \<Longrightarrow> below V' X \<Longrightarrow> below (sup V V') X"
  unfolding below_def by simp

lemma below_point:
  assumes "queue_loc l" shows "below (point (At l 1) k) (point (shadow l) k)"
  unfolding below_def
proof (intro allI impI)
  fix l' assume "queue_loc l'"
  then show "point (At l 1) k (At l' 1) \<le> point (shadow l) k (shadow l')"
    using shadow_inj [OF assms] by (cases "l' = l") simp_all
qed

lemma below_blind: "below blind W"
  by (simp add: below_def)

definition alike :: "(unit loc, 'a cell) msg \<Rightarrow> (domain_loc, 'a cell) msg \<Rightarrow> bool" where
  "alike m n \<longleftrightarrow> fst n = forget (fst m) \<and> below (snd m) (snd n)"

definition allocated :: "(domain_loc, 'a cell) memory \<Rightarrow> unit loc \<Rightarrow> bool" where
  "allocated M l \<longleftrightarrow> (case l of Next x \<Rightarrow> 1 \<le> born x \<and> born x \<le> gen M (Next (addr x))
     | Value x \<Rightarrow> 1 \<le> born x \<and> born x \<le> gen M (Value (addr x)) | Aux x \<Rightarrow> False | _ \<Rightarrow> True)"

definition shadows :: "(domain_loc, 'a cell) memory \<Rightarrow> (unit loc, 'a cell) memory \<Rightarrow> bool" where
  "shadows M L \<longleftrightarrow>
     (\<forall>l. queue_loc l \<longrightarrow>
        list_all2 alike (hist L l 1) (hist_at M (shadow l)) \<and>
        live L l = allocated M l \<and> gen L l = (if live L l then 1 else 0)) \<and>
     (\<forall>t. below (cur L t) (cur M t) \<and> rel L t = blind)"

lemma shadowsD:
  assumes "shadows M L"
  shows "queue_loc l \<Longrightarrow> list_all2 alike (hist L l 1) (hist_at M (shadow l))"
    "queue_loc l \<Longrightarrow> live L l = allocated M l"
    "queue_loc l \<Longrightarrow> live L l \<Longrightarrow> gen L l = 1" "queue_loc l \<Longrightarrow> \<not> live L l \<Longrightarrow> gen L l = 0"
    "below (cur L t) (cur M t)" "rel L t = blind"
  using assms by (auto simp: shadows_def)

text \<open>\<open>here M l l'\<close>: location \<open>l'\<close> currently is the object \<open>l\<close> stands for.\<close>

definition here :: "(domain_loc, 'a cell) memory \<Rightarrow> unit loc \<Rightarrow> domain_loc \<Rightarrow> bool" where
  "here M l l' \<longleftrightarrow> queue_loc l \<and> allocated M l \<and> place M l' = shadow l"

lemma here_msgs:
  assumes "shadows M L" "here M l l'"
  shows "live L l" "gen L l = 1" "place L l = At l 1" "list_all2 alike (msgs L l) (msgs M l')"
    "latest L l = latest M l'" "seen L t l \<le> seen M t l'"
proof -
  have q: "queue_loc l" "place M l' = shadow l" "allocated M l" using assms(2) by (auto simp: here_def)
  show lv: "live L l" using shadowsD(2) [OF assms(1) q(1)] q(3) by simp
  show g: "gen L l = 1" by (rule shadowsD(3) [OF assms(1) q(1) lv])
  then show p: "place L l = At l 1" by (simp add: place_def)
  have "hist_at M (shadow l) = msgs M l'" by (simp add: q(2) [symmetric] place_def msgs_def)
  then show a: "list_all2 alike (msgs L l) (msgs M l')"
    using shadowsD(1) [OF assms(1) q(1)] by (simp add: msgs_def g)
  then show "latest L l = latest M l'" by (simp add: latest_def list_all2_lengthD)
  show "seen L t l \<le> seen M t l'"
    using belowD [OF shadowsD(5) [OF assms(1)] q(1)] q(2) p by (simp add: seen_def)
qed

lemma alike_nth: "list_all2 alike xs ys \<Longrightarrow> k < length xs \<Longrightarrow> fst (ys ! k) = forget (fst (xs ! k)) \<and> below (snd (xs ! k)) (snd (ys ! k))"
  using list_all2_nthD unfolding alike_def by blast

section \<open>The building blocks keep it\<close>

lemma shadows_cong:
  assumes "shadows M L" "hist M' = hist M" "gen M' = gen M" "hist L' = hist L" "gen L' = gen L" "live L' = live L"
    and "\<And>u. below (cur L' u) (cur M' u)" "rel L' = rel L"
  shows "shadows M' L'"
proof -
  have "hist_at M' c = hist_at M c" for c by (cases c) (simp_all add: assms(2))
  moreover have "allocated M' l = allocated M l" for l by (simp add: allocated_def assms(3) split: loc.split)
  ultimately show ?thesis using assms by (simp add: shadows_def)
qed

lemma touch_shadow: "cur (touch t l M) u (shadow l') = cur M u (shadow l')"
  by (cases l') simp_all

lemma below_touch: "below V (cur (touch t l M) u) = below V (cur M u)" "below (cur (touch t l' L) u) W = below (cur L u) W"
  by (simp_all add: below_def touch_shadow)

lemma shadows_touch:
  assumes "shadows M L" shows "shadows (touch t l' M) (touch t l L)"
  by (rule shadows_cong [OF assms]) (simp_all add: shadowsD(5,6) [OF assms] below_touch)

lemma shadows_see:
  assumes "shadows M L" "below V W" shows "shadows (see t W M) (see t V L)"
  by (rule shadows_cong [OF assms(1)]) (simp_all add: shadowsD(5,6) [OF assms(1)] below_sup assms(2))

lemma shadows_see_later: "shadows M L \<Longrightarrow> shadows (see_later t W M) (see_later t V L)"
  by (rule shadows_cong) (simp_all add: shadowsD(5))

lemma shadows_read_at:
  assumes sh: "shadows M L" and h: "here M l l'" and k: "0 < k" "k \<le> latest L l"
  shows "shadows (read_at t l' mo k M) (read_at t l mo k L)"
proof -
  note hm = here_msgs [OF sh h]
  have q: "queue_loc l" "place M l' = shadow l" using h by (simp_all add: here_def)
  have "below (snd (msgs L l ! (k - 1))) (snd (msgs M l' ! (k - 1)))"
    using alike_nth [OF hm(4), of "k - 1"] k by (simp add: latest_def)
  moreover have "shadows (see t (point (place M l') k) (touch t l' M)) (see t (point (place L l) k) (touch t l L))"
    unfolding q(2) hm(3) by (rule shadows_see [OF shadows_touch [OF sh] below_point [OF q(1)]])
  ultimately show ?thesis
    unfolding read_at_def Let_def using shadows_see shadows_see_later by (cases "is_acq mo") auto
qed

lemma shadows_write_next:
  assumes sh: "shadows M L" and h: "here M l l'" and W: "below V W"
  shows "shadows (write_next t l' (forget v) mo W M) (write_next t l v mo V L)"
proof -
  note hm = here_msgs [OF sh h]
  have q: "queue_loc l" "place M l' = shadow l" "allocated M l" using h by (simp_all add: here_def)
  have pt: "below (point (place L l) k) (point (place M l') k)" for k
    unfolding q(2) hm(3) by (rule below_point [OF q(1)])
  have wr: "below (written t l mo V L) (written t l' mo W M)"
    unfolding written_def hm(5)
    using W pt shadowsD(5,6) [OF sh] by (simp add: below_sup below_blind)
  have cur: "below (cur (write_next t l v mo V L) u) (cur (write_next t l' (forget v) mo W M) u)" for u
    unfolding write_next_cur hm(5) using pt shadowsD(5) [OF sh] by (simp add: below_sup)
  have hL: "hist (write_next t l v mo V L) x 1 = (if x = l then msgs L l @ [(v, written t l mo V L)] else hist L x 1)" for x
    by (simp add: write_next_hist hm(2))
  have hM: "hist_at (write_next t l' (forget v) mo W M) (shadow x) =
      (if x = l then msgs M l' @ [(forget v, written t l' mo W M)] else hist_at M (shadow x))" if x: "queue_loc x" for x
  proof (cases "x = l")
    case True
    then show ?thesis using q(2) by (simp add: place_def write_next_hist flip: q(2))
  next
    case False
    then have "shadow x \<noteq> place M l'" using shadow_inj [OF x q(1)] q(2) by auto
    then show ?thesis using False by (cases "shadow x") (auto simp: write_next_hist place_def)
  qed
  have al: "allocated (write_next t l' (forget v) mo W M) x = allocated M x" for x
    by (simp add: allocated_def split: loc.split)
  have "list_all2 alike (hist (write_next t l v mo V L) x 1) (hist_at (write_next t l' (forget v) mo W M) (shadow x))"
    if x: "queue_loc x" for x
    unfolding hL hM [OF x] using hm(4) wr shadowsD(1) [OF sh x]
    by (simp add: list_all2_appendI alike_def)
  then show ?thesis
    unfolding shadows_def using cur al shadowsD(2-4,6) [OF sh] by simp
qed

lemma shadows_rmw_at:
  assumes sh: "shadows M L" and h: "here M l l'" and k: "0 < latest L l"
  shows "shadows (rmw_at t l' (forget v) mo M) (rmw_at t l v mo L)"
proof -
  note hm = here_msgs [OF sh h]
  have h': "here (read_at t l' mo (latest M l') M) l l'"
    using h by (simp add: here_def allocated_def cong: loc.case_cong)
  have "below (snd (msgs L l ! (latest L l - 1))) (snd (msgs M l' ! (latest M l' - 1)))"
  proof -
    have "latest L l - 1 < length (msgs L l)" using k by (simp add: latest_def)
    then show ?thesis using alike_nth [OF hm(4)] hm(5) by simp
  qed
  then show ?thesis
    unfolding rmw_at_def hm(5) [symmetric]
    using shadows_write_next [OF shadows_read_at [OF sh h k order.refl] h' [folded hm(5)]] by blast
qed

text \<open>What the queue does not do itself leaves its memory alone.\<close>

lemma shadows_stutter:
  assumes sh: "shadows M L" and h: "\<And>l. queue_loc l \<Longrightarrow> hist_at M' (shadow l) = hist_at M (shadow l) \<and> allocated M' l = allocated M l"
    and cur: "\<And>u. cur M u \<le> cur M' u"
  shows "shadows M' L"
  unfolding shadows_def using h shadowsD [OF sh] below_mono [OF _ cur] by simp

section \<open>Actions\<close>

text \<open>Reading needs the leaky memory to know the object too, which its safety gives.\<close>

lemma shadow_load:
  assumes sh: "shadows M L" and h: "here M l l'" and kn: "0 < seen L t l"
    and st: "mem_step t (Load l' mo) (k, b) M = Done y M'"
  obtains v L' where "mem_step t (Load l mo) (k, b) L = Done (Val v) L'" "y = Val (forget v)" "shadows M' L'"
proof -
  note hm = here_msgs [OF sh h]
  have s: "seen M t l' \<le> k" "k \<le> latest M l'" "y = Val (fst (msgs M l' ! (k - 1)))" "M' = read_at t l' mo k M"
    using st by (simp_all add: load_Done)
  have k: "seen L t l \<le> k" "k \<le> latest L l" "0 < k" using s(1,2) hm(5) hm(6) [of t] kn by linarith+
  have v: "fst (msgs M l' ! (k - 1)) = forget (fst (msgs L l ! (k - 1)))"
    using alike_nth [OF hm(4), of "k - 1"] k by (simp add: latest_def)
  have "shadows (read_at t l' mo k M) (read_at t l mo k L)" by (rule shadows_read_at [OF sh h k(3,2)])
  then show ?thesis using that [of "fst (msgs L l ! (k - 1))"] k hm(1) kn s(3,4) v by (simp add: load_Done)
qed

lemma shadow_read:
  assumes sh: "shadows M L" and h: "here M l l'" and wf: "mem_wf L"
    and kn: "0 < seen L t l" "latest L l \<le> seen L t l"
    and st: "mem_step t (Read l') c M = Done y M'"
  obtains v L' where "mem_step t (Read l) c L = Done (Val v) L'" "y = Val (forget v)" "shadows M' L'"
proof -
  note hm = here_msgs [OF sh h]
  have s: "y = Val (fst (msgs M l' ! (latest M l' - 1)))" "M' = touch t l' M" using st by (simp_all add: read_Done)
  have "0 < latest L l" using kn(1) seen_le_latest [OF wf, of t l] by linarith
  then have "latest L l - 1 < length (msgs L l)" by (simp add: latest_def)
  then have "fst (msgs M l' ! (latest M l' - 1)) = forget (fst (msgs L l ! (latest L l - 1)))"
    using alike_nth [OF hm(4)] hm(5) by simp
  then show ?thesis using that [of "fst (msgs L l ! (latest L l - 1))"] shadows_touch [OF sh] hm(1) kn s by (simp add: read_Done)
qed

lemma shadow_cas:
  assumes sh: "shadows M L" and h: "here M l l'" and kn: "0 < seen L t l"
    and st: "mem_step t (Cas weak l' (forget e) (forget d) smo fmo) (k, b) M = Done y M'"
    and eq: "\<forall>v. v = fst (msgs L l ! (latest L l - 1)) \<and> forget v = forget e \<longrightarrow> v = e"
  obtains v L' where "mem_step t (Cas weak l e d smo fmo) (k, b) L = Done (Swapped b v) L'"
    "y = Swapped b (forget v)" "shadows M' L'"
proof -
  note hm = here_msgs [OF sh h]
  have s: "seen M t l' \<le> k" "k \<le> latest M l'" using st by (auto simp: cas_Done Let_def)
  have k: "seen L t l \<le> k" "k \<le> latest L l" "0 < k" using s(1,2) hm(5) hm(6) [of t] kn by linarith+
  define v where "v = fst (msgs L l ! (k - 1))"
  have v: "fst (msgs M l' ! (k - 1)) = forget v"
    using alike_nth [OF hm(4), of "k - 1"] k by (simp add: latest_def v_def)
  show ?thesis
  proof (cases b)
    case True
    then have w: "k = latest M l'" "forget v = forget e" "y = Swapped True (forget v)" "M' = rmw_at t l' (forget d) smo M"
      using st v by (auto simp: cas_Done Let_def)
    have ve: "v = e" using eq w(1,2) hm(5) by (simp add: v_def)
    have lp: "0 < latest L l" using k w(1) hm(5) by simp
    have "mem_step t (Cas weak l e d smo fmo) (k, b) L = Done (Swapped True v) (rmw_at t l d smo L)"
      using True k kn hm(1,5) w(1) ve v_def by (simp add: cas_Done Let_def)
    then show ?thesis using that True w(3,4) shadows_rmw_at [OF sh h lp] by simp
  next
    case False
    then have w: "forget v \<noteq> forget e \<or> weak" "y = Swapped False (forget v)" "M' = read_at t l' fmo k M"
      using st v by (auto simp: cas_Done Let_def)
    have "mem_step t (Cas weak l e d smo fmo) (k, b) L = Done (Swapped False v) (read_at t l fmo k L)"
      using False k kn hm(1) w(1) by (auto simp: cas_Done Let_def v_def)
    then show ?thesis using that False w(2,3) shadows_read_at [OF sh h k(3,2)] by simp
  qed
qed

section \<open>Allocation\<close>

lemma shadow_new:
  assumes sh: "shadows M L" and pr: "paired M"
    and st: "mem_step t (New (make_node v)) (a, b) M = Done y M'"
  obtains L' where "mem_step t (New (make_node v)) (name a (Suc (gen M (Next a))), b) L =
      Done (Addr (name a (Suc (gen M (Next a))))) L'" "y = Addr a" "shadows M' L'"
    "gen M' (Next a) = Suc (gen M (Next a))" "live M' (Next a)" "live M' (Value a)"
proof -
  let ?x = "name a (Suc (gen M (Next a)))"
  let ?L = "fold (birth t) (make_node v ?x) L"
  have M': "y = Addr a" "M' = fold (birth t) (make_node v a) M"
    using st by (simp_all add: new_Done)
  have gv: "gen M (Value a) = gen M (Next a)" using pr by (simp add: paired_def)
  have dead: "\<not> live L (Next ?x)" "\<not> live L (Value ?x)"
    using shadowsD(2) [OF sh, of "Next ?x"] shadowsD(2) [OF sh, of "Value ?x"] gv by (simp_all add: allocated_def)
  then have step: "mem_step t (New (make_node v)) (?x, b) L = Done (Addr ?x) ?L" by (simp add: new_Done make_node_def)
  have g0: "gen L (Next ?x) = 0" "gen L (Value ?x) = 0"
    using shadowsD(4) [OF sh _ dead(1)] shadowsD(4) [OF sh _ dead(2)] by simp_all
  have genM: "gen M' l = (if l = Next a \<or> l = Value a then Suc (gen M (Next a)) else gen M l)" for l
    by (simp add: M'(2) make_node_def birth_def Let_def gv)
  have genL: "gen ?L l = (if l = Next ?x \<or> l = Value ?x then 1 else gen L l)" for l
    by (simp add: make_node_def birth_def Let_def g0)
  have liveL: "live ?L l = (l = Next ?x \<or> l = Value ?x \<or> live L l)" for l
    by (simp add: make_node_def birth_def Let_def)
  have hM: "hist M' l g = (if l = Next a \<and> g = Suc (gen M (Next a)) then [(Ptr None, blind)]
      else if l = Value a \<and> g = Suc (gen M (Next a)) then [(Dat v, blind)] else hist M l g)" for l g
    by (simp add: M'(2) make_node_def birth_def Let_def gv)
  have hL: "hist ?L l 1 = (if l = Next ?x then [(Ptr None, blind)] else if l = Value ?x then [(Dat v, blind)] else hist L l 1)" for l
    by (simp add: make_node_def birth_def Let_def g0)
  have al: "allocated M' l = (l = Next ?x \<or> l = Value ?x \<or> allocated M l)" for l
    by (cases l) (auto simp: allocated_def genM gv le_Suc_eq name_iff)
  have hists: "list_all2 alike (hist ?L l 1) (hist_at M' (shadow l))" if q: "queue_loc l" for l
  proof (cases "l = Next ?x \<or> l = Value ?x")
    case True
    then show ?thesis unfolding hL by (auto simp: hM alike_def below_blind)
  next
    case False
    have "hist_at M' (shadow l) = hist_at M (shadow l)"
      using False by (cases l) (auto simp: hM name_iff)
    then show ?thesis using False shadowsD(1) [OF sh q] unfolding hL by simp
  qed
  have cM: "cur M u \<le> cur M' u" for u
    unfolding M'(2) make_node_def by (simp add: birth_def Let_def le_supI1)
  have cL: "cur ?L u = (if u = t then sup (sup (cur L t) (point (At (Next ?x) 1) 1)) (point (At (Value ?x) 1) 1) else cur L u)" for u
    by (simp add: make_node_def birth_def Let_def g0)
  have pts: "point (shadow (Next ?x)) 1 \<le> cur M' t" "point (shadow (Value ?x)) 1 \<le> cur M' t"
    by (simp_all add: M'(2) make_node_def birth_def Let_def gv le_supI2) (rule le_supI1, simp add: le_supI2)
  have cur: "below (cur ?L u) (cur M' u)" for u
  proof (cases "u = t")
    case True
    have "below (point (At l 1) 1) (cur M' t)" if "l = Next ?x \<or> l = Value ?x" for l
      using below_mono [OF below_point [of l 1]] pts that by auto
    then show ?thesis using True below_mono [OF shadowsD(5) [OF sh] cM] by (simp add: cL below_left)
  next
    case False
    then show ?thesis using below_mono [OF shadowsD(5) [OF sh] cM] by (simp add: cL)
  qed
  have rel: "rel ?L u = blind" for u
    using shadowsD(6) [OF sh] by (simp add: make_node_def birth_def Let_def)
  have "shadows M' ?L"
    unfolding shadows_def
    using hists al shadowsD(2-4) [OF sh] cur rel by (auto simp: genL liveL)
  then show ?thesis using that step M'(1) genM M'(2) by (simp add: make_node_def live_birth)
qed

section \<open>Construction\<close>

lemma leaky_start_rel: "rel (mem (leaky_start_state dflt a)) u = blind"
  by (simp add: start_defs)

lemma below_iffs:
  "below (sup V V') X \<longleftrightarrow> below V X \<and> below V' X" "below (V(Clock c := n)) X = below V X"
  "below (point (At l 1) k) X \<longleftrightarrow> (queue_loc l \<longrightarrow> k \<le> X (shadow l))" "below blind X"
  by (auto simp: below_def)

lemma shadow_start: "shadows (mem (hp_queue_start dflt a)) (mem (leaky_start_state dflt (name a 1)))"
proof -
  define d where "d = name a 1"
  let ?M = "mem (hp_queue_start dflt a)" let ?L = "mem (leaky_start_state dflt d)"
  note m = hp_start_memory [of dflt a] and m' = start_memory [of dflt d]
  have d: "x = d \<longleftrightarrow> addr x = a \<and> born x = 1" for x by (simp add: d_def name_iff)
  have da: "addr d = a" "born d = 1" by (simp_all add: d_def)
  have gL: "gen ?L l = (if live ?L l then 1 else 0)" for l by (simp add: m'(1,2))
  have al: "live ?L l = allocated ?M l" if "queue_loc l" for l
    unfolding m'(2) using that d by (cases l) (auto simp: allocated_def m(1))
  have hL: "l \<noteq> Head \<Longrightarrow> l \<noteq> Tail \<Longrightarrow> hist ?L l 1 =
      (if l = Next d then [(Ptr None, blind)] else if l = Value d then [(Dat dflt, blind)] else [])" for l
    by (simp add: start_defs)
  have hM: "hist ?M (Next b) g = (if b = a \<and> g = 1 then [(Ptr None, blind)] else [])"
    "hist ?M (Value b) g = (if b = a \<and> g = 1 then [(Dat dflt, blind)] else [])" for b g
    by (simp_all add: hp_start_simps)
  note bi = below_iffs [unfolded One_nat_def]
  have ht: "list_all2 alike (hist ?L Head 1) (hist ?M Head 1)" "list_all2 alike (hist ?L Tail 1) (hist ?M Tail 1)"
    by (simp_all add: start_defs hp_start_simps alike_def bi da [unfolded One_nat_def])
  have "list_all2 alike (hist ?L l 1) (hist_at ?M (shadow l))" if q: "queue_loc l" for l
  proof (cases "l = Head \<or> l = Tail")
    case True
    then show ?thesis using ht by auto
  next
    case False
    then show ?thesis using q hL [of l] d by (cases l) (auto simp: hM alike_def below_blind simp del: One_nat_def)
  qed
  moreover have "below (cur ?L u) (cur ?M u)" for u
    by (simp add: start_defs hp_start_simps bi da [unfolded One_nat_def])
  ultimately show ?thesis
    unfolding shadows_def d_def [symmetric] using al gL leaky_start_rel by auto
qed

end
