(* ===== verification/Hp_Sim.thy ===== *)
theory Hp_Sim imports Hp_Shadow Hp_Typed Ms_Queue_Props begin

text \<open>
  Each step of the hazard-pointer queue is a step of the leaky queue, or none: the program points
  correspond, and so do the actions as long as the addresses that are compared stand for nodes that
  have not been freed.
\<close>

section \<open>Program points\<close>

fun loc_of :: "unit loc \<Rightarrow> domain_loc" where
  "loc_of Head = Head"
| "loc_of Tail = Tail"
| "loc_of (Next x) = Next (addr x)"
| "loc_of (Value x) = Value (addr x)"
| "loc_of (Aux x) = Aux Records"

abbreviation at_addr :: "nat option \<Rightarrow> nat option" where
  "at_addr p \<equiv> map_option addr p"

fun rop_of :: "unit rop \<Rightarrow> domain_aux rop" where
  "rop_of Guard = Guard"
| "rop_of (Protect i src) = Protect i (loc_of src)"
| "rop_of (Publish i p) = Publish i (at_addr p)"
| "rop_of (Retire p) = Retire (at_addr p)"
| "rop_of Unguard = Unguard"

fun cont_of :: "'a cont \<Rightarrow> 'a cont" where
  "cont_of (KE_guard n) = KE_guard (addr n)"
| "cont_of (KE_protect n) = KE_protect (addr n)"
| "cont_of KE_leave = KE_leave"
| "cont_of KD_guard = KD_guard"
| "cont_of KD_protect = KD_protect"
| "cont_of (KD_set p q r) = KD_set (at_addr p) (at_addr q) (at_addr r)"
| "cont_of (KD_retire v) = KD_retire v"
| "cont_of (KD_leave y) = KD_leave y"

type_synonym 'a leaky_point = "('a, unit, unit leaky_pc) pc"

fun pc_of :: "'a leaky_point \<Rightarrow> ('a, domain_aux, domain_pc) pc" where
  "pc_of Idle = Idle"
| "pc_of (Start x k) = Start (rop_of x) (cont_of k)"
| "pc_of (Call r k) = Idle"
| "pc_of (E_new v) = E_new v"
| "pc_of (E_next n p) = E_next (addr n) (at_addr p)"
| "pc_of (E_check n p q) = E_check (addr n) (at_addr p) (at_addr q)"
| "pc_of (E_help n p q) = E_help (addr n) (at_addr p) (at_addr q)"
| "pc_of (E_link n p) = E_link (addr n) (at_addr p)"
| "pc_of (E_swing n p) = E_swing (addr n) (at_addr p)"
| "pc_of (D_tail p) = D_tail (at_addr p)"
| "pc_of (D_next p q) = D_next (at_addr p) (at_addr q)"
| "pc_of (D_check p q r) = D_check (at_addr p) (at_addr q) (at_addr r)"
| "pc_of (D_help p q r) = D_help (at_addr p) (at_addr q) (at_addr r)"
| "pc_of (D_value p q) = D_value (at_addr p) (at_addr q)"
| "pc_of (D_cas p q v) = D_cas (at_addr p) (at_addr q) v"
| "pc_of M_head = M_head"
| "pc_of (M_next p) = M_next (at_addr p)"
| "pc_of (Finish y) = Finish y"

fun event_of :: "'a event \<Rightarrow> 'a event" where
  "event_of (Begin t x) = Begin t x"
| "event_of (Linked t x g v) = Linked t (addr x) (born x) v"
| "event_of (Unlinked t x g v) = Unlinked t (addr x) (born x) v"
| "event_of (Return t y) = Return t y"

text \<open>The operations of \<^verbatim>\<open>empty()\<close>, which has no guard, are left out.\<close>

fun guarded_pc :: "'a leaky_point \<Rightarrow> bool" where
  "guarded_pc M_head = False"
| "guarded_pc (M_next p) = False"
| "guarded_pc _ = True"

text \<open>The nodes a program point relies on not being freed, with the slots that protect them.\<close>

fun shields :: "'a leaky_point \<Rightarrow> (nat \<times> nat option) list" where
  "shields (E_next n p) = [(0, p)]"
| "shields (E_check n p q) = [(0, p)]"
| "shields (E_help n p q) = [(0, p)]"
| "shields (E_link n p) = [(0, p)]"
| "shields (E_swing n p) = [(0, p)]"
| "shields (Start x (KD_set p q r)) = [(0, p)]"
| "shields (D_tail p) = [(0, p)]"
| "shields (D_next p q) = [(0, p)]"
| "shields (D_check p q r) = [(0, p)]"
| "shields (D_help p q r) = [(0, q)]"
| "shields (D_value p q) = [(0, p), (1, q)]"
| "shields (D_cas p q v) = [(0, p), (1, q)]"
| "shields _ = []"

definition node_live :: "(domain_loc, 'a cell) memory \<Rightarrow> nat \<Rightarrow> bool" where
  "node_live M x \<longleftrightarrow> live M (Next (addr x)) \<and> gen M (Next (addr x)) = born x"

definition steady :: "(domain_loc, 'a cell) memory \<Rightarrow> 'a leaky_point \<Rightarrow> bool" where
  "steady M p \<longleftrightarrow>
     (\<forall>i x. (i, Some x) \<in> set (shields p) \<longrightarrow> node_live M x) \<and> (\<forall>n. owned p = Some n \<longrightarrow> node_live M n)"

definition names :: "nat \<Rightarrow> 'a event list \<Rightarrow> nat list" where
  "names d tr = map fst (chain d tr)"

text \<open>An address that is used twice is used by younger nodes later in the queue, and what is in the
  queue has not been freed.\<close>

definition aged :: "nat list \<Rightarrow> bool" where
  "aged N \<longleftrightarrow> (\<forall>j<length N. \<forall>i<j. addr (N ! i) = addr (N ! j) \<longrightarrow> born (N ! i) < born (N ! j))"

definition first :: "(unit loc, 'a cell) memory \<Rightarrow> nat" where
  "first L = latest L Head - 2"

definition kept_alive :: "(domain_loc, 'a cell) memory \<Rightarrow> (unit loc, 'a cell) memory \<Rightarrow> nat list \<Rightarrow> bool" where
  "kept_alive M L N \<longleftrightarrow> (\<forall>j<length N. first L \<le> j \<longrightarrow> node_live M (N ! j))"

lemma node_live_eq: "node_live M x \<Longrightarrow> node_live M y \<Longrightarrow> addr x = addr y \<Longrightarrow> x = y"
  by (auto simp: node_live_def intro: name_eqI)

lemma same_address:
  assumes "aged N" "node_live M (N ! i)" "i \<le> j" "j < length N" "addr (N ! i) = addr (N ! j)"
    "born (N ! j) \<le> gen M (Next (addr (N ! j)))"
  shows "i = j"
proof (rule ccontr)
  assume "i \<noteq> j"
  then have "born (N ! i) < born (N ! j)" using assms(1,3-5) by (auto simp: aged_def)
  then show False using assms(2,5,6) by (simp add: node_live_def)
qed

lemma here_node:
  assumes "shadows M L" "paired M" "node_live M x"
  shows "live L (Next x) \<Longrightarrow> here M (Next x) (Next (addr x))" "live L (Value x) \<Longrightarrow> here M (Value x) (Value (addr x))"
  using shadowsD(2) [OF assms(1), of "Next x"] shadowsD(2) [OF assms(1), of "Value x"] assms(2,3)
  by (auto simp: here_def node_live_def place_def paired_def)

lemma here_ends: "base M \<Longrightarrow> here M Head Head" "base M \<Longrightarrow> here M Tail Tail"
  by (auto simp: here_def allocated_def baseD(8))

text \<open>An access the leaky queue makes is defined, so the object is there and known.\<close>

lemma defined_known:
  assumes "\<And>c e. mem_step t x c M \<noteq> Ub e" "touched x = Some l"
  shows "live M l" "0 < seen M t l"
proof -
  have "access M t l = None"
  proof (rule ccontr)
    assume "access M t l \<noteq> None"
    then obtain e where "access M t l = Some e" by auto
    then have "mem_step t x (0, True) M = Ub e" using assms(2) by (cases x) (auto simp: mem_step.simps guarded_def)
    then show False using assms(1) by blast
  qed
  then show "live M l" "0 < seen M t l" by (simp_all add: access_None)
qed

lemma read_known:
  assumes "\<And>c e. mem_step t (Read l) c M \<noteq> Ub e"
  shows "latest M l \<le> seen M t l"
proof (rule ccontr)
  assume "\<not> latest M l \<le> seen M t l"
  then have "mem_step t (Read l) (0, True) M = Ub Data_race"
    using defined_known [OF assms, of l] by (simp add: mem_step.simps guarded_Ub)
  then show False using assms by blast
qed

section \<open>Actions of the queue\<close>

lemma first_core: "core L N h t \<Longrightarrow> first L = h"
  by (simp add: first_def head_hist(2))

lemma forget_ptr: "forget v = Ptr p \<Longrightarrow> \<exists>q. v = Ptr q \<and> p = at_addr q"
  by (cases v) auto

lemma newest_tail:
  assumes "core L N h t" shows "fst (msgs L Tail ! (latest L Tail - 1)) = Ptr (Some (map fst N ! t))"
proof -
  have t: "t < length N" using core_shape [OF assms] by (simp add: shape_def)
  obtain j where j: "latest L Tail = j + 2" "j \<le> t" "fst (msgs L Tail ! (latest L Tail - 1)) = Ptr (Some (fst (N ! j)))"
    by (rule tail_msg [OF assms _ order.refl]) (use tail_hist(2) [OF assms] in simp)
  then show ?thesis using tail_hist(2) [OF assms] t by simp
qed

lemma newest_head:
  assumes "core L N h t" shows "fst (msgs L Head ! (latest L Head - 1)) = Ptr (Some (map fst N ! h))"
proof -
  have t: "h < length N" using core_shape [OF assms] by (simp add: shape_def)
  obtain j where j: "latest L Head = j + 2" "j \<le> h" "fst (msgs L Head ! (latest L Head - 1)) = Ptr (Some (fst (N ! j)))"
    by (rule head_msg [OF assms _ order.refl]) (use head_hist(2) [OF assms] in simp)
  then show ?thesis using head_hist(2) [OF assms] t by simp
qed

lemma chain_born:
  assumes "shadows M L" "core L N h t" "j < length N"
  shows "1 \<le> born (map fst N ! j)" "born (map fst N ! j) \<le> gen M (Next (addr (map fst N ! j)))"
    "live L (Next (map fst N ! j))" "live L (Value (map fst N ! j))"
proof -
  have l: "live L (Next (fst (N ! j)))" "live L (Value (fst (N ! j)))"
    using node_in_shape [OF assms(2,3)] by (simp_all add: node_at_def)
  then show "live L (Next (map fst N ! j))" "live L (Value (map fst N ! j))" using assms(3) by simp_all
  show "1 \<le> born (map fst N ! j)" "born (map fst N ! j) \<le> gen M (Next (addr (map fst N ! j)))"
    using shadowsD(2) [OF assms(1), of "Next (fst (N ! j))"] l(1) assms(3) by (simp_all add: allocated_def)
qed

lemma queue_sim:
  fixes M :: "(domain_loc, 'a cell) memory"
  assumes sh: "shadows M (mem sl)" and bs: "base M" and ty: "typed M" and inv: "queue_inv d sl"
    and at: "thr sl t = (p, ())" and gd: "guarded_pc p" and nc: "\<And>x k. p \<noteq> Start x k" "\<And>r k. p \<noteq> Call r k"
    and sd: "steady M p" and ag: "aged (names d (trace sl))" and ka: "kept_alive M (mem sl) (names d (trace sl))"
    and st: "mem_step t (queue_act shipped hp_reclaimer (pc_of p)) (k, b) M = Done y M'"
  shows "\<exists>k' y' L'. mem_step t (queue_act shipped leaky_reclaimer p) (k', b) (mem sl) = Done y' L' \<and> shadows M' L' \<and>
    pc_of (queue_next p y') = queue_next (pc_of p) y \<and>
    map event_of (queue_note t (p, ()) y' (mem sl)) = queue_note t (pc_of p, h) y M \<and>
    (if \<exists>v. p = E_new v then node_live M' (the (loaded y')) else k' = k)"
proof -
  let ?L = "mem sl" let ?N = "chain d (trace sl)" let ?V = "cur (mem sl) t"
  have Nn: "names d (trace sl) = map fst ?N" by (simp add: names_def)
  obtain hd' tl' where co: "core ?L ?N hd' tl'" "pc_ok ?L ?N ?V p" "2 \<le> ?V (At Head 1)" "2 \<le> ?V (At Tail 1)"
    by (rule at_point [OF inv at])
  have wf: "mem_wf ?L" by (rule core_wf [OF co(1)])
  have lens: "hd' \<le> tl'" "tl' < length ?N" using core_shape [OF co(1)] by (simp_all add: shape_def)
  have df: "mem_step t (queue_act shipped leaky_reclaimer p) c ?L \<noteq> Ub e" for c e
    using step_defined [OF inv, of t c e] at by (simp add: leaky_queue_def ms_queue_def)
  have nn: "nth_node ?N q j \<longleftrightarrow> j < length ?N \<and> q = Some (map fst ?N ! j)" for q j
    by (auto simp: nth_node_def)
  have pr: "paired M" by (rule baseD(4) [OF bs])
  have live_n: "node_live M (map fst ?N ! j)" if "hd' \<le> j" "j < length ?N" for j
    using ka that first_core [OF co(1)] by (simp add: kept_alive_def Nn)
  have shield: "node_live M x" if "(i, Some x) \<in> set (shields p)" for i x using sd that by (auto simp: steady_def)
  have same: "i = j" if "node_live M (map fst ?N ! i)" "i \<le> j" "j < length ?N" "addr (map fst ?N ! i) = addr (map fst ?N ! j)" for i j
    by (rule same_address [OF ag [unfolded Nn] that(1,2) _ that(4)])
      (use that chain_born(2) [OF sh co(1) that(3)] in simp_all)
  note ends = here_ends [OF bs]
  have tail_same: "v = Ptr (Some x)" if "node_live M x" "v = fst (msgs ?L Tail ! (latest ?L Tail - 1))" "forget v = forget (Ptr (Some x))" for v x
    using node_live_eq [OF live_n [OF lens] that(1)] that(2,3) newest_tail [OF co(1)] by simp
  have head_same: "v = Ptr (Some x)" if "node_live M x" "v = fst (msgs ?L Head ! (latest ?L Head - 1))" "forget v = forget (Ptr (Some x))" for v x
    using node_live_eq [OF live_n that(1)] lens that(2,3) newest_head [OF co(1)] by simp
  have swing: "\<exists>v L'. mem_step t (Cas weak Tail (Ptr (Some x)) (Ptr z) release relaxed) (k, b) ?L = Done (Swapped b v) L' \<and>
      y = Swapped b (forget v) \<and> shadows M' L'"
    if "mem_step t (Cas weak Tail (Ptr (Some (addr x))) (Ptr (at_addr z)) release relaxed) (k, b) M = Done y M'" "node_live M x"
      "touched (queue_act shipped leaky_reclaimer p) = Some Tail" for weak x z
  proof -
    have kn: "0 < seen ?L t Tail" by (rule defined_known(2) [OF df that(3)])
    have "mem_step t (Cas weak Tail (forget (Ptr (Some x))) (forget (Ptr z)) release relaxed) (k, b) M = Done y M'"
      using that(1) by simp
    moreover have "\<forall>v. v = fst (msgs ?L Tail ! (latest ?L Tail - 1)) \<and> forget v = forget (Ptr (Some x)) \<longrightarrow> v = Ptr (Some x)"
      using tail_same [OF that(2)] by blast
    ultimately obtain v L' where "mem_step t (Cas weak Tail (Ptr (Some x)) (Ptr z) release relaxed) (k, b) ?L = Done (Swapped b v) L'"
      "y = Swapped b (forget v)" "shadows M' L'" by (rule shadow_cas [OF sh ends(2) kn])
    then show ?thesis by blast
  qed
  show ?thesis
  proof (cases p)
    case (E_next n q)
    then obtain j where j: "nth_node ?N q j" using co(2) by (auto simp: tail_at_def)
    then obtain x where x: "q = Some x" "x = map fst ?N ! j" "j < length ?N" by (auto simp: nn)
    have h: "here M (Next x) (Next (addr x))"
      by (rule here_node(1) [OF sh pr shield]) (use E_next x chain_born(3) [OF sh co(1) x(3)] in simp_all)
    have kn: "0 < seen ?L t (Next x)" using defined_known(2) [OF df, of "Next x"] E_next x(1) by (simp add: deref_def)
    from st have "mem_step t (Load (Next (addr x)) acquire) (k, b) M = Done y M'" by (simp add: E_next x(1) deref_def)
    then obtain v L' where "mem_step t (Load (Next x) acquire) (k, b) ?L = Done (Val v) L'" "y = Val (forget v)" "shadows M' L'"
      by (rule shadow_load [OF sh h kn])
    then show ?thesis using E_next x(1) by (intro exI [of _ k] exI [of _ "Val v"] exI [of _ L']) (cases v; simp add: deref_def)
  next
    case (E_check n q z)
    then obtain j where j: "nth_node ?N q j" "j + 2 \<le> ?V (At Tail 1)" using co(2) by (auto simp: tail_at_def)
    then obtain x where x: "q = Some x" "x = map fst ?N ! j" "j < length ?N" by (auto simp: nn)
    have kn: "0 < seen ?L t Tail" using defined_known(2) [OF df, of Tail] E_check by simp
    from st have "mem_step t (Load Tail acquire) (k, b) M = Done y M'" by (simp add: E_check)
    then obtain v L' where L: "mem_step t (Load Tail acquire) (k, b) ?L = Done (Val v) L'" "y = Val (forget v)" "shadows M' L'"
      by (rule shadow_load [OF sh ends(2) kn])
    have k: "j + 2 \<le> k" "k \<le> latest ?L Tail" "v = fst (msgs ?L Tail ! (k - 1))"
      using L(1) j(2) tail_hist(3) [OF co(1)] by (auto simp: load_Done seen_def)
    obtain i where i: "k = i + 2" "i \<le> tl'" "v = Ptr (Some (map fst ?N ! i))" "i < length ?N"
      by (rule tail_msg [OF co(1) _ k(2)]) (use k in auto)
    have "node_live M x" by (rule shield [of 0]) (simp add: E_check x(1))
    then have "addr x = addr (map fst ?N ! i) \<longleftrightarrow> x = map fst ?N ! i"
      using same [of j i] x(2) i(1,4) k(1) by auto
    then show ?thesis using E_check x(1) L i(3) by (intro exI [of _ k] exI [of _ "Val v"] exI [of _ L']) auto
  next
    case (E_help n q z)
    then obtain j where "nth_node ?N q j" using co(2) by (auto simp: link_at_def)
    then obtain x where x: "q = Some x" by (auto simp: nn)
    have "\<exists>v L'. mem_step t (Cas True Tail (Ptr (Some x)) (Ptr z) release relaxed) (k, b) ?L = Done (Swapped b v) L' \<and>
      y = Swapped b (forget v) \<and> shadows M' L'"
      by (rule swing) (use st E_help x shield [of 0 x] in simp_all)
    then show ?thesis using E_help x by (intro exI [of _ k]) auto
  next
    case (E_link n q)
    then obtain j where "nth_node ?N q j" using co(2) by (auto simp: tail_at_def)
    then obtain x where x: "q = Some x" "x = map fst ?N ! j" "j < length ?N" by (auto simp: nn)
    have h: "here M (Next x) (Next (addr x))"
      by (rule here_node(1) [OF sh pr shield]) (use E_link x chain_born(3) [OF sh co(1) x(3)] in simp_all)
    have kn: "0 < seen ?L t (Next x)" using defined_known(2) [OF df, of "Next x"] E_link x(1) by (simp add: deref_def)
    have own: "unshared ?L ?N ?V n" "node_live M n"
      using thread_okD(5) [OF queue_inv_thread(1) [OF inv, of t]] at E_link sd by (simp_all add: steady_def)
    have "mem_step t (Cas True (Next (addr x)) (forget (Ptr None)) (forget (Ptr (Some n))) release relaxed) (k, b) M = Done y M'"
      using st by (simp add: E_link x(1) deref_def shipped_def)
    moreover have "\<forall>v. v = fst (msgs ?L (Next x) ! (latest ?L (Next x) - 1)) \<and> forget v = forget (Ptr None) \<longrightarrow> v = Ptr None"
      using forget_ptr [of _ None] by fastforce
    ultimately obtain v L' where L: "mem_step t (Cas True (Next x) (Ptr None) (Ptr (Some n)) release relaxed) (k, b) ?L = Done (Swapped b v) L'"
      "y = Swapped b (forget v)" "shadows M' L'"
      by (rule shadow_cas [OF sh h kn])
    have vn: "value_of ?L n = value_of M (addr n)"
    proof -
      have ln: "live ?L (Value n)" using own(1) by (simp add: unshared_def node_at_def)
      have hv: "here M (Value n) (Value (addr n))" by (rule here_node(2) [OF sh pr own(2) ln])
      note ms = here_msgs(4,5) [OF sh hv]
      have one: "latest ?L (Value n) = 1"
        using own(1) by (simp add: unshared_def node_at_def latest_def msgs_def)
      then obtain m m' where m: "msgs ?L (Value n) = [m]" "msgs M (Value (addr n)) = [m']" "fst m' = forget (fst m)"
        using ms by (auto simp: latest_def length_Suc_conv alike_def list_all2_Cons1)
      have "\<exists>w. fst m' = Dat w"
        using typed_msg [OF ty, of 1 "Value (addr n)"] m(2) by (cases "fst m'") (simp_all add: latest_def)
      then show ?thesis using m by (cases "fst m") (auto simp: value_of_def)
    qed
    show ?thesis using E_link x(1) L vn own(2)
      by (intro exI [of _ k] exI [of _ "Swapped b v"] exI [of _ L']) (simp add: deref_def shipped_def node_live_def)
  next
    case (E_swing n q)
    then obtain j where "nth_node ?N q j" using co(2) by (auto simp: link_at_def)
    then obtain x where x: "q = Some x" by (auto simp: nn)
    have "\<exists>v L'. mem_step t (Cas False Tail (Ptr (Some x)) (Ptr (Some n)) release relaxed) (k, b) ?L = Done (Swapped b v) L' \<and>
      y = Swapped b (forget v) \<and> shadows M' L'"
      by (rule swing) (use st E_swing x shield [of 0 x] in simp_all)
    then show ?thesis using E_swing x by (intro exI [of _ k]) auto
  next
    case (D_help q z u)
    then obtain j where "nth_node ?N z j" using co(2) by (auto simp: link_at_def)
    then obtain x where x: "z = Some x" by (auto simp: nn)
    have "\<exists>v L'. mem_step t (Cas True Tail (Ptr (Some x)) (Ptr u) release relaxed) (k, b) ?L = Done (Swapped b v) L' \<and>
      y = Swapped b (forget v) \<and> shadows M' L'"
      by (rule swing) (use st D_help x shield [of 0 x] in simp_all)
    then show ?thesis using D_help x by (intro exI [of _ k]) auto
  next
    case (D_tail q)
    have kn: "0 < seen ?L t Tail" using defined_known(2) [OF df, of Tail] D_tail by (simp add: shipped_def)
    from st have "mem_step t (Load Tail acquire) (k, b) M = Done y M'" by (simp add: D_tail shipped_def)
    then obtain v L' where L: "mem_step t (Load Tail acquire) (k, b) ?L = Done (Val v) L'" "y = Val (forget v)" "shadows M' L'"
      by (rule shadow_load [OF sh ends(2) kn])
    then show ?thesis using D_tail by (intro exI [of _ k] exI [of _ "Val v"] exI [of _ L']) (cases v; simp add: shipped_def)
  next
    case (D_next q z)
    then obtain j where "nth_node ?N q j" using co(2) by (auto simp: head_at_def)
    then obtain x where x: "q = Some x" "x = map fst ?N ! j" "j < length ?N" by (auto simp: nn)
    have h: "here M (Next x) (Next (addr x))"
      by (rule here_node(1) [OF sh pr shield]) (use D_next x chain_born(3) [OF sh co(1) x(3)] in simp_all)
    have kn: "0 < seen ?L t (Next x)" using defined_known(2) [OF df, of "Next x"] D_next x(1) by (simp add: deref_def)
    from st have "mem_step t (Load (Next (addr x)) acquire) (k, b) M = Done y M'" by (simp add: D_next x(1) deref_def)
    then obtain v L' where "mem_step t (Load (Next x) acquire) (k, b) ?L = Done (Val v) L'" "y = Val (forget v)" "shadows M' L'"
      by (rule shadow_load [OF sh h kn])
    then show ?thesis using D_next x(1) by (intro exI [of _ k] exI [of _ "Val v"] exI [of _ L']) (cases v; simp add: deref_def)
  next
    case (D_check q z u)
    then obtain j j' where j: "nth_node ?N q j" "j + 2 \<le> ?V (At Head 1)" "nth_node ?N z j'" "j \<le> j'"
      using co(2) by (auto simp: snapshot_def head_at_def tail_at_def)
    then obtain x x' where x: "q = Some x" "x = map fst ?N ! j" "j < length ?N" "z = Some x'" "x' = map fst ?N ! j'" "j' < length ?N"
      by (auto simp: nn)
    have kn: "0 < seen ?L t Head" using defined_known(2) [OF df, of Head] D_check by simp
    from st have "mem_step t (Load Head acquire) (k, b) M = Done y M'" by (simp add: D_check)
    then obtain v L' where L: "mem_step t (Load Head acquire) (k, b) ?L = Done (Val v) L'" "y = Val (forget v)" "shadows M' L'"
      by (rule shadow_load [OF sh ends(1) kn])
    have k: "j + 2 \<le> k" "k \<le> latest ?L Head" "v = fst (msgs ?L Head ! (k - 1))"
      using L(1) j(2) head_hist(3) [OF co(1)] by (auto simp: load_Done seen_def)
    obtain i where i: "k = i + 2" "i \<le> hd'" "v = Ptr (Some (map fst ?N ! i))" "i < length ?N"
      by (rule head_msg [OF co(1) _ k(2)]) (use k in auto)
    have lx: "node_live M x" by (rule shield [of 0]) (simp add: D_check x(1))
    then have "addr x = addr (map fst ?N ! i) \<longleftrightarrow> x = map fst ?N ! i"
      using same [of j i] x(2) i(1,4) k(1) by auto
    moreover have "addr x = addr x' \<longleftrightarrow> x = x'" using same [of j j'] lx x j(4) by auto
    ultimately show ?thesis using D_check x(1,4) L i(3)
      by (intro exI [of _ k] exI [of _ "Val v"] exI [of _ L']) (auto split: if_splits)
  next
    case (D_value q z)
    then obtain j where "nth_node ?N z (Suc j)" using co(2) by auto
    then obtain x where x: "z = Some x" "x = map fst ?N ! Suc j" "Suc j < length ?N" by (auto simp: nn)
    have h: "here M (Value x) (Value (addr x))"
      by (rule here_node(2) [OF sh pr shield [of 1]]) (use D_value x chain_born(4) [OF sh co(1) x(3)] in simp_all)
    have df': "mem_step t (Read (Value x)) c ?L \<noteq> Ub e" for c e using df [of c e] D_value x(1) by (simp add: deref_def)
    have kn: "0 < seen ?L t (Value x)" by (rule defined_known(2) [OF df']) simp
    from st have st': "mem_step t (Read (Value (addr x))) (k, b) M = Done y M'" by (simp add: D_value x(1) deref_def)
    then obtain v L' where L: "mem_step t (Read (Value x)) (k, b) ?L = Done (Val v) L'" "y = Val (forget v)" "shadows M' L'"
      by (rule shadow_read [OF sh h wf kn read_known [OF df']])
    have "\<exists>w. forget v = Dat w"
    proof -
      have "result_typed (Read (Value (addr x))) y"
        by (rule typed_step(2) [OF baseD(1) [OF bs] ty st']) simp
      then show ?thesis using L(2) by (cases "forget v") auto
    qed
    then show ?thesis using D_value x(1) L
      by (intro exI [of _ k] exI [of _ "Val v"] exI [of _ L']) (cases v; auto simp: deref_def)
  next
    case (D_cas q z w)
    then obtain j where "nth_node ?N q j" "nth_node ?N z (Suc j)" using co(2) by auto
    then obtain x x' where x: "q = Some x" "z = Some x'" by (auto simp: nn)
    have lx: "node_live M x" "node_live M x'" using shield [of 0 x] shield [of 1 x'] D_cas x by simp_all
    have kn: "0 < seen ?L t Head" using defined_known(2) [OF df, of Head] D_cas by simp
    have "mem_step t (Cas True Head (forget (Ptr (Some x))) (forget (Ptr (Some x'))) release relaxed) (k, b) M = Done y M'"
      using st by (simp add: D_cas x)
    moreover have "\<forall>v. v = fst (msgs ?L Head ! (latest ?L Head - 1)) \<and> forget v = forget (Ptr (Some x)) \<longrightarrow> v = Ptr (Some x)"
      using head_same [OF lx(1)] by blast
    ultimately obtain v L' where L: "mem_step t (Cas True Head (Ptr (Some x)) (Ptr (Some x')) release relaxed) (k, b) ?L = Done (Swapped b v) L'"
      "y = Swapped b (forget v)" "shadows M' L'"
      by (rule shadow_cas [OF sh ends(1) kn])
    then show ?thesis using D_cas x lx(2)
      by (intro exI [of _ k] exI [of _ "Swapped b v"] exI [of _ L']) (simp add: node_live_def)
  next
    case (E_new v)
    from st have st': "mem_step t (New (make_node v)) (k, b) M = Done y M'" by (simp add: E_new)
    obtain L' where "mem_step t (New (make_node v)) (name k (Suc (gen M (Next k))), b) ?L =
        Done (Addr (name k (Suc (gen M (Next k))))) L'" "y = Addr k" "shadows M' L'"
        "gen M' (Next k) = Suc (gen M (Next k))" "live M' (Next k)"
      by (rule shadow_new [OF sh pr st'])
    then show ?thesis using E_new
      by (intro exI [of _ "name k (Suc (gen M (Next k)))"] exI [of _ "Addr (name k (Suc (gen M (Next k))))"] exI [of _ L'])
        (simp add: node_live_def)
  qed (use gd nc st sh in auto)
qed

section \<open>States\<close>

fun serves :: "domain_pc \<Rightarrow> unit rop \<Rightarrow> bool" where
  "serves d Guard \<longleftrightarrow> kind_of d = K_guard"
| "serves d (Protect i src) \<longleftrightarrow> kind_of d = K_protect \<and> slot_no d = Some i \<and> source d = Some (loc_of src)"
| "serves d (Publish i p) \<longleftrightarrow> d = S_fence \<or> (\<exists>r. d = S_store r i (at_addr p))"
| "serves d (Retire p) \<longleftrightarrow> kind_of d = K_retire"
| "serves d Unguard \<longleftrightarrow> kind_of d = K_unguard"

fun tracks :: "'a client_pc \<Rightarrow> 'a leaky_point \<Rightarrow> bool" where
  "tracks (In_queue (Call d k)) q \<longleftrightarrow> (\<exists>x k'. q = Start x k' \<and> k = cont_of k' \<and> serves d x)"
| "tracks (In_queue p) q \<longleftrightarrow> p = pc_of q \<and> (\<forall>r k. q \<noteq> Call r k) \<and> guarded_pc q"
| "tracks p q \<longleftrightarrow> q = Idle"

fun queue_event :: "'a client_event \<Rightarrow> 'a event list" where
  "queue_event (Queue_event e) = [e]"
| "queue_event (Domain_call t x) = []"
| "queue_event (Retires t p) = []"
| "queue_event (Frees t p) = []"
| "queue_event (Domain_answer t y) = []"

definition queue_events :: "'a client_event list \<Rightarrow> 'a event list" where
  "queue_events tr = concat (map queue_event tr)"

lemma queue_events_append [simp]: "queue_events (xs @ ys) = queue_events xs @ queue_events ys"
  by (simp add: queue_events_def)

lemma queue_events_map [simp]: "queue_events (map Queue_event es) = es"
  by (induction es) (simp_all add: queue_events_def)

definition mimics :: "'a hp_state \<Rightarrow> 'a leaky_state \<Rightarrow> bool" where
  "mimics s sl \<longleftrightarrow>
     shadows (mem s) (mem sl) \<and> (\<forall>t. tracks (fst (thr s t)) (fst (thr sl t))) \<and>
     queue_events (trace s) = map event_of (trace sl)"

lemma mimicsD:
  assumes "mimics s sl"
  shows "shadows (mem s) (mem sl)" "tracks (fst (thr s t)) (fst (thr sl t))" "queue_events (trace s) = map event_of (trace sl)"
  using assms by (auto simp: mimics_def)

text \<open>A step that the leaky queue does not make.\<close>

lemma domain_spares:
  assumes wf: "mem_wf M" and st: "mem_step t (domain_act d) k M = Done y M'" and l: "\<And>x. l \<noteq> Aux x"
  shows "hist M' l = hist M l" "gen M' l = gen M l"
proof -
  have "hist M' l = hist M l \<and> gen M' l = gen M l"
  proof (cases "\<exists>ls. domain_act d = (Delete ls :: (domain_loc, 'a cell) action)")
    case True
    then show ?thesis using st by (auto simp: mem_step.simps(9) bury_parts split: if_splits)
  next
    case False
    have "l \<notin> writes (domain_act d :: (domain_loc, 'a cell) action) (fst k)"
      using False l
      by (cases d) (auto simp: delete_node_def make_record_def make_orphan_def split: option.splits)
    then show ?thesis using step_frame [OF wf st] by blast
  qed
  then show "hist M' l = hist M l" "gen M' l = gen M l" by auto
qed

lemma domain_shadows:
  assumes sh: "shadows M L" and bs: "base M" and st: "mem_step t (domain_act d) k M = Done y M'"
  shows "shadows M' L"
proof (rule shadows_stutter [OF sh])
  fix l :: "unit loc" assume q: "queue_loc l"
  note sp = domain_spares [OF baseD(1) [OF bs] st]
  show "hist_at M' (shadow l) = hist_at M (shadow l) \<and> allocated M' l = allocated M l"
    using q by (cases l) (simp_all add: sp allocated_def)
qed (rule step_cur [OF baseD(2) [OF bs] st])

end
