(* ===== verification/Hp_Mimic.thy ===== *)
theory Hp_Mimic imports Hp_Sim begin

text \<open>
  A state of the hazard-pointer queue and a state of the leaky queue that it mimics move together:
  a step inside the domain is no step of the leaky queue, the end of an operation of the domain is
  one, the check that validates a hazard is the load of \<^verbatim>\<open>protect\<close>, and a step of the queue
  is the same step.
\<close>

section \<open>The leaky queue\<close>

abbreviation leaky_reach :: "'a \<Rightarrow> nat \<Rightarrow> 'a leaky_state \<Rightarrow> bool" where
  "leaky_reach dflt d sl \<equiv> reach (leaky_queue shipped) (leaky_start_state dflt d) sl"

lemma leaky_reach_inv: "leaky_reach dflt d sl \<Longrightarrow> queue_inv d sl"
  by (rule leaky.reach_inv)

lemma leaky_reach_step:
  assumes "leaky_reach dflt d sl" "mem_step t (queue_act shipped leaky_reclaimer p) (k, b) (mem sl) = Done y L'" "thr sl t = (p, ())"
  shows "leaky_reach dflt d (settled sl t y L')"
proof (rule reach_step [OF assms(1)])
  show "exec (leaky_queue shipped) (Step t k b) sl = Running (settled sl t y L')"
    using assms(2,3) by (simp add: leaky_queue_def ms_queue_def settled_def)
qed

lemma settled_parts:
  "mem (settled s u r M') = M'" "trace (settled s u r M') = trace s @ queue_note u (thr s u) r (mem s)"
  "thr (settled s u r M') v = (if v = u then queue_resume leaky_reclaimer (thr s u) r else thr s v)"
  by (simp_all add: settled_def)

lemma leaky_resume:
  "queue_resume leaky_reclaimer (p, h) y = (queue_next p y, h)" if "\<And>x k. p \<noteq> Start x k" "\<And>r k. p \<noteq> Call r k"
  using that by (cases p) auto

section \<open>What a serving thread does next\<close>

lemma serves_kind: "serves d x \<Longrightarrow> kind_of d = rop_kind x"
  by (cases x) auto

fun no_protect :: "'x rop \<Rightarrow> bool" where
  "no_protect (Protect i src) = False"
| "no_protect _ = True"

lemma serves_other:
  assumes "no_protect x" "serves d x" "domain_resume d y h = (h', Inl d')" "kind_of d' = kind_of d"
  shows "serves d' x"
proof (cases x)
  case (Publish i p)
  then show ?thesis using assms by (cases d) (auto split: if_splits)
qed (use assms in auto)

lemma serves_protect:
  assumes "serves d (Protect i src)" "domain_resume d y h = (h', Inl d')"
  shows "serves d' (Protect i src)"
  using assms by (cases d) (auto split: if_splits)

lemma start_serves:
  assumes "hp_start_op (rop_of x) h = (h', Inl d)"
  shows "serves d x"
  using assms by (cases x) (auto split: if_splits)

lemma start_ends:
  assumes "hp_start_op (rop_of x) h = (h', Inr p)"
  shows "no_protect x"
  using assms by (cases x) (auto split: if_splits)

lemma protect_ends:
  assumes "serves d (Protect i src)" "domain_resume d y h = (h', Inr p)"
  shows "\<exists>r. d = P_check r i (loc_of src) p \<and> loaded y = p \<and> h' = h"
  using assms by (cases d) (auto split: if_splits)

text \<open>Where the queue goes on does not depend on what an operation other than
  \<^verbatim>\<open>protect\<close> returns.\<close>

lemma continue_other:
  assumes "start_ok M N V x k" "no_protect x"
  shows "pc_of (continue k q) = continue (cont_of k) p"
  using assms by (cases k) auto

lemma continue_protect:
  assumes "start_ok M N V (Protect i src) k"
  shows "pc_of (continue k (Some z)) = continue (cont_of k) (Some (addr z))" "i = 0"
    "src = Head \<and> k = KD_protect \<or> src = Tail \<and> (\<exists>n. k = KE_protect n)"
  using assms by (cases k; auto)+

lemma tracks_queue:
  assumes "\<And>d k. p \<noteq> Call d k" shows "tracks (In_queue p) q \<longleftrightarrow> p = pc_of q \<and> (\<forall>r k. q \<noteq> Call r k) \<and> guarded_pc q"
  using assms by (cases p) auto

lemma guarded_continue: "guarded_pc (continue k p)" "continue k p \<noteq> Call r j"
  by (cases k; simp)+

lemma tracks_continue:
  assumes "pc_of (continue k' q) = continue k p"
  shows "tracks (In_queue (continue k p)) (continue k' q)"
proof -
  have "continue k p \<noteq> (Call d j :: ('a, domain_aux, domain_pc) pc)" for d j by (cases k) simp_all
  then have "tracks (In_queue (continue k p)) q' \<longleftrightarrow> continue k p = pc_of q' \<and> (\<forall>r j. q' \<noteq> Call r j) \<and> guarded_pc q'" for q'
    by (rule tracks_queue)
  then show ?thesis using assms guarded_continue(1) [of k' q] by (simp add: guarded_continue(2))
qed

lemma guarded_next:
  assumes "guarded_pc p" "\<And>r k. p \<noteq> Call r k"
  shows "guarded_pc (queue_next p y)" "queue_next p y \<noteq> Call r k"
  using assms by (cases p; simp)+

lemma pc_of_next: "(\<And>r k. p \<noteq> Call r k) \<Longrightarrow> pc_of p \<noteq> Call d k"
  by (cases p) simp_all

lemma tracks_next:
  assumes "guarded_pc p" "\<And>r k. p \<noteq> Call r k" "pc_of (queue_next p y') = queue_next (pc_of p) y"
  shows "tracks (In_queue (queue_next (pc_of p) y)) (queue_next p y')"
  using guarded_next [OF assms(1,2)] pc_of_next [of "queue_next p y'"] assms(3) by (subst tracks_queue) auto

section \<open>One step\<close>

lemma outside_log:
  "domain_of P = Some d \<Longrightarrow> queue_events (client_log t (P, h) y M) = []"
  "(\<And>p. P \<noteq> In_queue p) \<Longrightarrow> queue_events (client_log t (P, h) y M) = []"
  "queue_events (client_log t (In_queue (Start x k), h) y M) = []"
proof -
  have n: "queue_events (domain_note t d h :: 'a client_event list) = []" for d by (cases d) (simp_all add: queue_events_def)
  have e: "queue_events [Domain_answer t z :: 'a client_event] = []" "queue_events ([] :: 'a client_event list) = []"
    "queue_events [Retires t p :: 'a client_event] = []" for z p by (simp_all add: queue_events_def)
  show "domain_of P = Some d \<Longrightarrow> queue_events (client_log t (P, h) y M) = []"
    using n by (cases P rule: domain_of.cases) auto
  show "(\<And>p. P \<noteq> In_queue p) \<Longrightarrow> queue_events (client_log t (P, h) y M) = []" using n e by (cases P) auto
  show "queue_events (client_log t (In_queue (Start x k), h) y M) = []" using e by (cases x) auto
qed

lemma queue_log:
  assumes "\<And>x k. p \<noteq> Start x k" "\<And>d k. p \<noteq> Call d k"
  shows "queue_events (client_log t (In_queue p, h) y M) = queue_note t (p, h) y M"
  using assms by (cases p) (auto simp: queue_events_def)

lemma outside_shadows:
  assumes sh: "shadows M L" and bs: "base M" and st: "mem_step t (client_act w (P, h)) k M = Done y M'"
    and P: "domain_of P = Some d \<or> (\<forall>p. P \<noteq> In_queue p) \<or> (\<exists>x j. P = In_queue (Start x j))"
  shows "shadows M' L"
proof (cases "domain_of P")
  case (Some e)
  then show ?thesis using domain_shadows [OF sh bs] st client_domain_act [OF Some, of w h] by simp
next
  case None
  have w: "writes (client_act w (P, h)) (fst k) = {}" using None P by (cases P) auto
  note fr = step_frame [OF baseD(1) [OF bs] st]
  show ?thesis
  proof (rule shadows_stutter [OF sh])
    fix l :: "unit loc" assume q: "queue_loc l"
    have e: "hist M' l' = hist M l'" "gen M' l' = gen M l'" for l' using fr(1,2) [of l'] w by auto
    show "hist_at M' (shadow l) = hist_at M (shadow l) \<and> allocated M' l = allocated M l"
      using q by (cases l) (simp_all add: e allocated_def)
  qed (rule step_cur [OF baseD(2) [OF bs] st])
qed

text \<open>How the leaky state moves with a step of thread \<open>t\<close> that takes message \<open>k\<close>.\<close>

definition stayed :: "'a hp_state \<Rightarrow> 'a leaky_state \<Rightarrow> nat \<Rightarrow> 'a leaky_state \<Rightarrow> bool" where
  "stayed s sl t sl' \<longleftrightarrow> sl' = sl \<and>
     (\<forall>p. fst (thr s t) = In_queue p \<longrightarrow> (\<exists>x k. p = Start x k) \<or> (\<exists>d k. p = Call d k))"

definition resumed :: "'a leaky_state \<Rightarrow> nat \<Rightarrow> 'a leaky_state \<Rightarrow> bool" where
  "resumed sl t sl' \<longleftrightarrow> (\<exists>x k. no_protect x \<and> fst (thr sl t) = Start x k \<and> fst (thr sl' t) = continue k None \<and>
     mem sl' = mem sl \<and> trace sl' = trace sl)"

definition checked :: "nat \<Rightarrow> 'a hp_state \<Rightarrow> 'a leaky_state \<Rightarrow> nat \<Rightarrow> nat \<Rightarrow> 'a leaky_state \<Rightarrow> bool" where
  "checked d s sl t n sl' \<longleftrightarrow> (\<exists>src r k j. (src = Head \<and> k = KD_protect \<or> src = Tail \<and> (\<exists>m. k = KE_protect m)) \<and>
     domain_of (fst (thr s t)) = Some (P_check r 0 (loc_of src) (Some (addr (names d (trace sl) ! j)))) \<and>
     fst (thr sl t) = Start (Protect 0 src) k \<and> fst (thr sl' t) = continue k (Some (names d (trace sl) ! j)) \<and>
     j < length (names d (trace sl)) \<and> n = j + 2 \<and>
     latest (mem sl') Head = latest (mem sl) Head \<and> trace sl' = trace sl)"

definition followed :: "'a hp_state \<Rightarrow> 'a leaky_state \<Rightarrow> nat \<Rightarrow> bool \<Rightarrow> (domain_loc, 'a cell) memory \<Rightarrow> nat \<Rightarrow> 'a leaky_state \<Rightarrow> bool" where
  "followed s sl t b M' k sl' \<longleftrightarrow> (\<exists>p k' y. fst (thr s t) = In_queue (pc_of p) \<and> thr sl t = (p, ()) \<and>
     (\<forall>x k. p \<noteq> Start x k) \<and> (\<forall>r k. p \<noteq> Call r k) \<and>
     mem_step t (queue_act shipped leaky_reclaimer p) (k', b) (mem sl) = Done y (mem sl') \<and>
     sl' = settled sl t y (mem sl') \<and>
     (if \<exists>v. p = E_new v then node_live M' (the (loaded y)) else k' = k))"

lemma mimic_step:
  fixes s :: "'a hp_state"
  assumes mi: "mimics s sl" and lr: "leaky_reach dflt d sl" and bs: "base (mem s)" and ty: "typed (mem s)"
    and ri: "records_inv s"
    and sd: "steady (mem s) (fst (thr sl t))" and ag: "aged (names d (trace sl))"
    and ka: "kept_alive (mem s) (mem sl) (names d (trace sl))"
    and st: "mem_step t (client_act shipped (thr s t)) (k, b) (mem s) = Done y M'"
  obtains sl' where "leaky_reach dflt d sl'" "mimics (stepped s t y M') sl'" "\<forall>u. u \<noteq> t \<longrightarrow> thr sl' u = thr sl u"
    "stayed s sl t sl' \<or> resumed sl t sl' \<or> checked d s sl t k sl' \<or> followed s sl t b M' k sl'"
proof -
  let ?M = "mem s" let ?L = "mem sl" let ?N = "chain d (trace sl)"
  obtain P h where at: "thr s t = (P, h)" by (meson surj_pair)
  obtain q where at': "thr sl t = (q, ())" by (metis old.unit.exhaust surj_pair)
  have inv: "queue_inv d sl" by (rule leaky_reach_inv [OF lr])
  note sh = mimicsD(1) [OF mi]
  have tr: "tracks P q" using mimicsD(2) [OF mi, of t] at at' by simp
  have st': "mem_step t (client_act shipped (P, h)) (k, b) ?M = Done y M'" using st at by simp
  have skip: "mem_step t Skip (0, b) ?L = Done Unit ?L" by simp
  have build: "mimics (stepped s t y M') sl'"
    if "shadows M' (mem sl')" "tracks (fst (client_resume (P, h) y)) (fst (thr sl' t))" "\<forall>u. u \<noteq> t \<longrightarrow> thr sl' u = thr sl u"
      "queue_events (client_log t (P, h) y ?M) = map event_of (drop (length (trace sl)) (trace sl'))"
      "take (length (trace sl)) (trace sl') = trace sl" for sl'
  proof -
    have "map event_of (trace sl') = map event_of (trace sl) @ map event_of (drop (length (trace sl)) (trace sl'))"
      by (metis append_take_drop_id map_append that(5))
    then show ?thesis using that(1-4) mimicsD(2,3) [OF mi] at by (simp add: mimics_def)
  qed
  note goal = that
  have stay: thesis if "shadows M' ?L" "tracks (fst (client_resume (P, h) y)) q" "queue_events (client_log t (P, h) y ?M) = []"
    "\<forall>p. P = In_queue p \<longrightarrow> (\<exists>x k. p = Start x k) \<or> (\<exists>d k. p = Call d k)"
    using build [of sl] that at at' by (intro goal [of sl]) (simp_all add: lr stayed_def)
  obtain hd' tl' where co: "core ?L ?N hd' tl'" "pc_ok ?L ?N (cur ?L t) q" "2 \<le> cur ?L t (At Head 1)" "2 \<le> cur ?L t (At Tail 1)"
    by (rule at_point [OF inv at'])
  have resume: thesis
    if x: "no_protect x" "q = Start x k'" "fst (client_resume (P, h) y) = In_queue (continue (cont_of k') z)"
      and sh': "shadows M' ?L" and ev: "queue_events (client_log t (P, h) y ?M) = []" for x k' z
  proof -
    let ?s = "settled sl t Unit ?L"
    have pc: "queue_resume leaky_reclaimer (q, ()) Unit = (continue k' None, ())"
      using x by (cases x) (simp_all add: leaky_reclaimer_def)
    have "pc_of (continue k' None) = continue (cont_of k') z" by (rule continue_other) (use co(2) x in auto)
    then have tk: "tracks (fst (client_resume (P, h) y)) (continue k' None)" using x(3) tracks_continue by simp
    have tr': "trace ?s = trace sl" using x(2) at' by (simp add: settled_parts)
    have "leaky_reach dflt d ?s"
      by (rule leaky_reach_step [OF lr _ at']) (use x skip in simp)
    moreover have "mimics (stepped s t y M') ?s"
      by (rule build) (use sh' tk pc at' ev tr' in \<open>simp_all add: settled_parts(1,3)\<close>)
    moreover have "resumed sl t ?s"
      unfolding resumed_def using x(1,2) at' pc tr' by (intro exI [of _ x] exI [of _ k']) (simp add: settled_parts(1,3))
    ultimately show thesis by (intro goal [of ?s]) (simp_all add: settled_parts(3))
  qed
  consider (call) e k2 where "P = In_queue (Call e k2)" | (start) x k2 where "P = In_queue (Start x k2)"
    | (queue) p where "P = In_queue p" "\<forall>x k. p \<noteq> Start x k" "\<forall>e k. p \<noteq> Call e k" | (out) "\<forall>p. P \<noteq> In_queue p"
    by (metis pc.exhaust)
  then show thesis
  proof cases
    case out
    have "tracks (fst (client_resume (P, h) y)) q"
    proof -
      have "q = Idle" using tr out by (cases P) auto
      moreover have "tracks (fst (in_domain Draining z fl)) (Idle :: 'a leaky_point)" "tracks (fst (in_domain Leaving z fl)) (Idle :: 'a leaky_point)" for z fl
        by (cases fl; cases "snd fl"; simp)+
      ultimately show ?thesis using out by (cases P) auto
    qed
    then show thesis using stay outside_shadows [OF sh bs st'] outside_log(2) out by blast
  next
    case start
    then obtain x' k' where q: "q = Start x' k'" "x = rop_of x'" "k2 = cont_of k'"
      using tr by (cases q) auto
    note ev = outside_log(3) [of t x k2 h y ?M]
    have sh2: "shadows M' ?L" by (rule outside_shadows [OF sh bs st']) (use start in blast)
    obtain h' f where f: "hp_start_op x h = (h', f)" by (meson surj_pair)
    show thesis
    proof (cases f)
      case (Inl d2)
      then have "tracks (fst (client_resume (P, h) y)) q"
        using start f q start_serves [of x' h h' d2] by (simp add: hp_reclaimer_def)
      then show thesis using stay sh2 ev start by simp
    next
      case (Inr z)
      then have "fst (client_resume (P, h) y) = In_queue (continue (cont_of k') z)"
        using start f q by (simp add: hp_reclaimer_def)
      then show thesis using resume [of x' k' z] start_ends [of x' h h' z] f Inr q sh2 ev start by simp
    qed
  next
    case call
    then obtain x k' where q: "q = Start x k'" "k2 = cont_of k'" "serves e x" using tr by auto
    have dm: "domain_of P = Some e" using call by simp
    have ev: "queue_events (client_log t (P, h) y ?M) = []" by (rule outside_log(1) [OF dm])
    have sh2: "shadows M' ?L" by (rule outside_shadows [OF sh bs st']) (use dm in blast)
    obtain h' f where f: "domain_resume e y h = (h', f)" by (meson surj_pair)
    have so: "start_ok ?L ?N (cur ?L t) x k'" using co(2) q(1) by simp
    show thesis
    proof (cases f)
      case (Inl e')
      have "serves e' x"
      proof (cases "no_protect x")
        case True
        have "client_ok (client_resume (P, h) y)" "client_ok (P, h)"
          using client_step [of ?M P h t shipped "(k, b)" y M'] records_invD(2) [OF ri, of t] at st' baseD(1) [OF bs] by auto
        then have "kind_of e' = cont_kind k2" "kind_of e = cont_kind k2"
          using call f Inl by (auto simp: hp_reclaimer_def domain_ok_def)
        then show ?thesis using serves_other [OF True q(3)] f Inl by simp
      next
        case False
        then obtain i src where "x = Protect i src" by (cases x) auto
        then show ?thesis using serves_protect q(3) f Inl by blast
      qed
      then have "tracks (fst (client_resume (P, h) y)) q" using call f Inl q by (simp add: hp_reclaimer_def)
      then show thesis using stay sh2 ev call by simp
    next
      case (Inr z)
      then have res: "fst (client_resume (P, h) y) = In_queue (continue (cont_of k') z)" using call f q by (simp add: hp_reclaimer_def)
      show thesis
      proof (cases "no_protect x")
        case True
        then show thesis using resume [OF True q(1) res sh2 ev] by blast
      next
        case False
        then obtain i src where x: "x = Protect i src" by (cases x) auto
        obtain r where r: "e = P_check r i (loc_of src) z" "loaded y = z" using protect_ends q(3) x f Inr by blast
        have src: "i = 0" "src = Head \<and> k' = KD_protect \<or> src = Tail \<and> (\<exists>n. k' = KE_protect n)"
          using continue_protect(2,3) so x by blast+
        have hr: "here ?M src (loc_of src)" using here_ends [OF bs] src(2) by auto
        have kn: "0 < seen ?L t src" using src(2) co(3,4) head_hist(3) [OF co(1)] tail_hist(3) [OF co(1)] by (auto simp: seen_def)
        have st2: "mem_step t (Load (loc_of src) acquire) (k, b) ?M = Done y M'" using st' client_domain_act [OF dm] r(1) by simp
        obtain v L' where L: "mem_step t (Load src acquire) (k, b) ?L = Done (Val v) L'" "y = Val (forget v)" "shadows M' L'"
          by (rule shadow_load [OF sh hr kn st2])
        have kk: "2 \<le> k" "k \<le> latest ?L src" "v = fst (msgs ?L src ! (k - 1))"
          using L(1) src(2) co(3,4) head_hist(3) [OF co(1)] tail_hist(3) [OF co(1)] by (auto simp: load_Done seen_def)
        obtain j where j: "k = j + 2" "v = Ptr (Some (names d (trace sl) ! j))" "j < length (names d (trace sl))"
        proof -
          consider "src = Head" | "src = Tail" using src(2) by blast
          then show thesis
          proof cases
            case 1
            then show thesis using head_msg [OF co(1) kk(1)] kk(2,3) that by (auto simp: names_def)
          next
            case 2
            then show thesis using tail_msg [OF co(1) kk(1)] kk(2,3) that by (auto simp: names_def)
          qed
        qed
        let ?z = "names d (trace sl) ! j"
        let ?s1 = "settled sl t Unit ?L" let ?s2 = "settled ?s1 t (Val v) L'"
        have s1: "leaky_reach dflt d ?s1"
          by (rule leaky_reach_step [OF lr _ at']) (use q(1) skip in simp)
        have a1: "thr ?s1 t = (Call (L_load src) k', ())" "mem ?s1 = ?L" "trace ?s1 = trace sl"
          using at' q(1) x by (simp_all add: settled_parts leaky_reclaimer_def)
        have s2: "leaky_reach dflt d ?s2"
          by (rule leaky_reach_step [OF s1 _ a1(1)]) (use L(1) a1(2) in \<open>simp add: leaky_reclaimer_def\<close>)
        have a2: "thr ?s2 t = (continue k' (Some ?z), ())" "mem ?s2 = L'" "trace ?s2 = trace sl"
          using a1 j(2) by (simp_all add: settled_parts leaky_reclaimer_def)
        have zz: "z = Some (addr ?z)" using r(2) L(2) j(2) by simp
        have "pc_of (continue k' (Some ?z)) = continue (cont_of k') z"
          using continue_protect(1) so x zz by blast
        then have tk: "tracks (fst (client_resume (P, h) y)) (continue k' (Some ?z))" using res tracks_continue by simp
        have "mimics (stepped s t y M') ?s2"
          by (rule build) (use L(3) tk a2 ev in \<open>simp_all add: settled_parts(3)\<close>)
        moreover have "latest L' Head = latest ?L Head"
          using L(1) by (auto simp: load_Done)
        then have "checked d s sl t k ?s2"
          unfolding checked_def using src r(1) zz dm at at' q(1) x a2 j
          by (intro exI [of _ src] exI [of _ r] exI [of _ k'] exI [of _ j]) simp
        ultimately show thesis using s2 by (intro goal [of ?s2]) (simp_all add: settled_parts(3))
      qed
    qed
  next
    case queue
    have p: "p = pc_of q" "\<And>r k. q \<noteq> Call r k" "guarded_pc q"
      using tr queue tracks_queue [of p q] by auto
    have ns: "\<And>x k. q \<noteq> Start x k" using p(1) queue(2) by auto
    have "mem_step t (queue_act shipped hp_reclaimer (pc_of q)) (k, b) ?M = Done y M'" using st' queue(1) p(1) by simp
    then obtain k' y' L' where L: "mem_step t (queue_act shipped leaky_reclaimer q) (k', b) ?L = Done y' L'" "shadows M' L'"
      "pc_of (queue_next q y') = queue_next (pc_of q) y"
      "map event_of (queue_note t (q, ()) y' ?L) = queue_note t (pc_of q, h) y ?M"
      "if \<exists>v. q = E_new v then node_live M' (the (loaded y')) else k' = k"
      using queue_sim [OF sh bs ty inv at' p(3) ns p(2) _ ag ka, where h = h] sd at' by fastforce
    let ?s = "settled sl t y' L'"
    have res: "fst (client_resume (P, h) y) = In_queue (queue_next (pc_of q) y)"
      using queue(2,3) unfolding queue(1) p(1) [symmetric] by (cases p) auto
    have lres: "thr ?s t = (queue_next q y', ())" using at' leaky_resume [OF ns p(2)] by (simp add: settled_parts)
    have "mimics (stepped s t y M') ?s"
    proof (rule build)
      show "tracks (fst (client_resume (P, h) y)) (fst (thr ?s t))"
        using res lres tracks_next [OF p(3,2) L(3)] by simp
      show "queue_events (client_log t (P, h) y ?M) = map event_of (drop (length (trace sl)) (trace ?s))"
        using queue_log [of p t h y ?M] queue p(1) L(4) at' by (simp add: settled_parts(2))
    qed (use L(2) in \<open>simp_all add: settled_parts\<close>)
    moreover have "followed s sl t b M' k ?s"
      unfolding followed_def using at at' queue(1) p(1,2) ns L(1,5)
      by (intro exI [of _ q] exI [of _ k'] exI [of _ y']) (simp add: settled_parts)
    ultimately show thesis using leaky_reach_step [OF lr L(1) at'] by (intro goal [of ?s]) (simp_all add: settled_parts(3))
  qed
qed

section \<open>Calls and synchronisation\<close>

lemma mimic_call:
  fixes s :: "'a hp_state"
  assumes mi: "mimics s sl" and lr: "leaky_reach dflt d sl" and cl: "client_call t x (thr s t) = Some (p, es)"
    and ne: "x \<noteq> Queue_op Is_empty"
  obtains sl' where "leaky_reach dflt d sl'" "mimics (called s t p es) sl'" "\<forall>u. u \<noteq> t \<longrightarrow> thr sl' u = thr sl u"
    "mem sl' = mem sl" "names d (trace sl') = names d (trace sl)" "fst (thr sl t) = Idle"
    "fst (thr sl' t) = Idle \<or> fst (thr sl' t) = Start Guard KD_guard \<or> (\<exists>v. fst (thr sl' t) = E_new v)"
proof -
  note goal = that
  have stay: thesis if "fst (thr s t) = In_queue Idle" "tracks (fst p) (Idle :: 'a leaky_point)" "queue_events es = []"
  proof -
    have i: "fst (thr sl t) = Idle" using mimicsD(2) [OF mi, of t] that(1) by (cases "fst (thr sl t)") auto
    then have "mimics (called s t p es) sl" using mi that by (simp add: mimics_def)
    then show thesis using goal [of sl] lr i by simp
  qed
  show thesis
    using cl
  proof (cases rule: hp_call_cases)
    case (queue y h)
    then have i: "fst (thr sl t) = Idle" using mimicsD(2) [OF mi, of t] by (cases "fst (thr sl t)") auto
    then have il: "thr sl t = (Idle, ())" by (metis old.unit.exhaust surjective_pairing)
    obtain q :: "'a leaky_point" where q: "queue_call t y (Idle, ()) = Some ((q, ()), [Begin t y])" "pc_of q = entry y"
      "q = Start Guard KD_guard \<or> (\<exists>v. q = E_new v)"
      using queue(1) ne by (cases y) auto
    let ?s = "sl\<lparr>thr := (thr sl)(t := (q, ())), trace := trace sl @ [Begin t y]\<rparr>"
    have r: "leaky_reach dflt d ?s"
      by (rule reach_step [OF lr, of "Invoke t y"]) (simp add: leaky_queue_def ms_queue_def il q(1))
    have "tracks (In_queue (entry y)) q" using q(3) unfolding q(2) [symmetric] by auto
    then have "mimics (called s t p es) ?s"
      using mi queue(3,4) by (auto simp: mimics_def queue_events_def)
    moreover have "names d (trace ?s) = names d (trace sl)" by (simp add: names_def chain_def)
    ultimately show thesis using goal [of ?s] r q(3) i by auto
  next
    case (drain h)
    then show thesis using stay by (simp add: queue_events_def)
  next
    case (look h)
    then show thesis using stay by (auto simp: queue_events_def)
  next
    case (exit h)
    have "tracks (fst (in_domain Leaving z fl)) (Idle :: 'a leaky_point)" for z fl
      by (cases fl; cases "snd fl"; simp)
    then show thesis using stay exit by (simp add: queue_events_def leave_thread_def)
  qed
qed

lemma mimic_sync:
  fixes s :: "'a hp_state"
  assumes mi: "mimics s sl" and lr: "leaky_reach dflt d sl" and u: "fst (thr s u) = In_queue Idle"
  obtains sl' where "leaky_reach dflt d sl'" "mimics (s\<lparr>mem := synchronize t u (mem s)\<rparr>) sl'" "thr sl' = thr sl"
    "latest (mem sl') = latest (mem sl)" "trace sl' = trace sl"
proof -
  let ?s = "sl\<lparr>mem := synchronize t u (mem sl)\<rparr>"
  have i: "fst (thr sl u) = Idle" using mimicsD(2) [OF mi, of u] u by (cases "fst (thr sl u)") auto
  have "leaky_reach dflt d ?s"
    by (rule reach_step [OF lr, of "Sync t u"]) (simp add: leaky_queue_def ms_queue_def i)
  moreover have "shadows (synchronize t u (mem s)) (synchronize t u (mem sl))"
    unfolding synchronize_def by (rule shadows_see [OF mimicsD(1) [OF mi] shadowsD(5) [OF mimicsD(1) [OF mi]]])
  then have "mimics (s\<lparr>mem := synchronize t u (mem s)\<rparr>) ?s" using mi by (simp add: mimics_def)
  ultimately show thesis using that [of ?s] by (simp add: synchronize_def latest_def msgs_def fun_eq_iff)
qed

lemma mimic_start: "mimics (hp_queue_start dflt a) (leaky_start_state dflt (name a 1))"
  using shadow_start [of dflt a]
  by (simp add: mimics_def hp_start_thr leaky_start_state_def queue_start_def queue_events_def)

section \<open>What a step adds to the chain\<close>

lemma followed_chain:
  assumes inv: "queue_inv d sl" and at: "thr sl t = (p, ())"
    and nc: "\<And>x k. p \<noteq> Start x k" "\<And>r k. p \<noteq> Call r k"
    and st: "mem_step t (queue_act shipped leaky_reclaimer p) (k, b) (mem sl) = Done y (mem sl')" and sl': "sl' = settled sl t y (mem sl')"
  shows "names d (trace sl') = names d (trace sl) @ (case p of E_link n q \<Rightarrow> if won y then [n] else [] | _ \<Rightarrow> [])"
    "first (mem sl') = (case p of D_cas q z v \<Rightarrow> if won y then Suc (first (mem sl)) else first (mem sl) | _ \<Rightarrow> first (mem sl))"
    "fst (thr sl' t) = queue_next p y"
proof -
  have "trace sl' = trace sl @ queue_note t (p, ()) y (mem sl)" using settled_parts(2) [of sl t y "mem sl'"] sl' at by simp
  then show "names d (trace sl') = names d (trace sl) @ (case p of E_link n q \<Rightarrow> if won y then [n] else [] | _ \<Rightarrow> [])"
    using nc by (cases p) (auto simp: names_def chain_def)
  have "thr sl' t = (queue_next p y, ())"
    using settled_parts(3) [of sl t y "mem sl'" t] sl' at leaky_resume [OF nc] by simp
  then show "fst (thr sl' t) = queue_next p y" by simp
  obtain h' t' where co: "core (mem sl) (chain d (trace sl)) h' t'" by (rule queue_inv_core [OF inv])
  have two: "latest (mem sl) Head = h' + 2" by (rule head_hist(2) [OF co])
  have wf: "mem_wf (mem sl)" by (rule queue_inv_wf [OF inv])
  show "first (mem sl') = (case p of D_cas q z v \<Rightarrow> if won y then Suc (first (mem sl)) else first (mem sl) | _ \<Rightarrow> first (mem sl))"
  proof (cases "Head \<in> writes (queue_act shipped leaky_reclaimer p) k")
    case True
    then obtain q z v where p: "p = D_cas q z v"
      using nc by (cases p) (auto simp: deref_def make_node_def split: option.splits)
    then show ?thesis using st two
      by (auto simp: cas_Done Let_def first_def rmw_at_hist latest_def msgs_def)
  next
    case False
    have h: "hist (mem sl') Head = hist (mem sl) Head" "gen (mem sl') Head = gen (mem sl) Head"
      using step_frame(1,2) [OF wf st, of Head] False by simp_all
    then have l: "latest (mem sl') Head = latest (mem sl) Head" by (simp add: latest_def msgs_def)
    moreover have "\<not> won y" if "p = D_cas q z v" for q z v using False st that by (simp add: cas_Done)
    ultimately show ?thesis by (cases p) (simp_all add: first_def)
  qed
qed

end
