(* ===== verification/Hp_Items.thy ===== *)
theory Hp_Items imports Hp_Bags Hp_Mimic begin

text \<open>
  A retired node is one that the queue has unlinked and nobody has freed; whoever holds it knows
  that \<^verbatim>\<open>head_\<close> and \<^verbatim>\<open>tail_\<close> have passed it.  No node is held twice, so none is
  freed twice, and a node that a scan may free is one the last fence told everybody about.
\<close>

section \<open>Items\<close>

definition passed :: "domain_loc view \<Rightarrow> nat \<Rightarrow> bool" where
  "passed V j \<longleftrightarrow> j + 3 \<le> V (At Head 1) \<and> j + 3 \<le> V (At Tail 1)"

definition item_at :: "(domain_loc, 'a cell) memory \<Rightarrow> nat list \<Rightarrow> nat \<Rightarrow> domain_loc view \<Rightarrow> nat \<Rightarrow> bool" where
  "item_at M N F V a \<longleftrightarrow>
     (\<exists>j<F. j < length N \<and> addr (N ! j) = a \<and> node_live M (N ! j) \<and> passed V j \<and>
        2 \<le> V (shadow (Next (N ! j))) \<and> 1 \<le> V (shadow (Value (N ! j))))"

lemma passed_mono: "passed V j \<Longrightarrow> V \<le> W \<Longrightarrow> passed W j"
  unfolding passed_def by (auto intro: order.trans [OF _ view_leD])

lemma item_at_mono:
  assumes "item_at M N F V a" "V \<le> W" "F \<le> F'" "\<And>x. x \<in> set N \<Longrightarrow> addr x = a \<Longrightarrow> node_live M x \<Longrightarrow> node_live M' x"
  shows "item_at M' (N @ X) F' W a"
proof -
  obtain j where j: "j < F" "j < length N" "addr (N ! j) = a" "node_live M (N ! j)" "passed V j"
    "2 \<le> V (shadow (Next (N ! j)))" "1 \<le> V (shadow (Value (N ! j)))"
    using assms(1) by (auto simp: item_at_def)
  have "(N @ X) ! j = N ! j" using j(2) by (simp add: nth_append)
  moreover have "V c \<le> W c" for c by (rule view_leD [OF assms(2)])
  ultimately show ?thesis
    unfolding item_at_def using j assms(3,4) passed_mono [OF j(5) assms(2)]
    by (intro exI [of _ j]) (auto intro: order.trans)
qed

definition staked :: "'a client \<Rightarrow> nat option list" where
  "staked c = (case dom_pc c of None \<Rightarrow> [] | Some d \<Rightarrow> at_stake d (snd c))"

definition item_in :: "(domain_loc, 'a cell) memory \<Rightarrow> nat list \<Rightarrow> nat \<Rightarrow> domain_loc view \<Rightarrow> nat option \<Rightarrow> bool" where
  "item_in M N F V p \<longleftrightarrow> (\<exists>a. p = Some a \<and> item_at M N F V a)"

lemma item_in_mono:
  assumes "item_in M N F V p" "V \<le> W" "F \<le> F'" "\<And>x. x \<in> set N \<Longrightarrow> p = Some (addr x) \<Longrightarrow> node_live M x \<Longrightarrow> node_live M' x"
  shows "item_in M' (N @ X) F' W p"
proof -
  obtain a where a: "p = Some a" "item_at M N F V a" using assms(1) by (auto simp: item_in_def)
  have "item_at M' (N @ X) F' W a" by (rule item_at_mono [OF a(2) assms(2,3)]) (use assms(4) a(1) in auto)
  then show ?thesis using a(1) by (simp add: item_in_def)
qed

definition items_ok :: "'a hp_state \<Rightarrow> orphans \<Rightarrow> nat list \<Rightarrow> nat \<Rightarrow> bool" where
  "items_ok s A N F \<longleftrightarrow>
     (\<forall>x. distinct (holdings s A x) \<and> (\<forall>p \<in> set (holdings s A x). item_in (mem s) N F (holder_view (mem s) x) p)) \<and>
     (\<forall>x y p. p \<in> set (holdings s A x) \<and> p \<in> set (holdings s A y) \<longrightarrow> x = y) \<and>
     (\<forall>u. \<forall>p \<in> set (staked (thr s u)). item_in (mem s) N F (scv (mem s)) p)"

lemma items_okD:
  assumes "items_ok s A N F"
  shows "distinct (holdings s A x)" "p \<in> set (holdings s A x) \<Longrightarrow> item_in (mem s) N F (holder_view (mem s) x) p"
    "p \<in> set (holdings s A x) \<Longrightarrow> p \<in> set (holdings s A y) \<Longrightarrow> x = y"
    "p \<in> set (staked (thr s u)) \<Longrightarrow> item_in (mem s) N F (scv (mem s)) p"
  using assms unfolding items_ok_def by blast+

section \<open>Lives of nodes\<close>

lemma node_live_step:
  assumes wf: "mem_wf M" and st: "mem_step t (client_act w (p, h)) k M = Done y M'" and lv: "node_live M x"
    and nf: "Some (addr x) \<notin> set (freed (domain_of p))"
  shows "node_live M' x"
proof -
  let ?l = "Next (addr x) :: domain_loc"
  have "?l \<notin> allocs (client_act w (p, h)) (fst k)"
  proof
    assume a: "?l \<in> allocs (client_act w (p, h)) (fst k)"
    show False
    proof (cases "domain_of p")
      case None
      have "\<exists>v. client_act w (p, h) = New (make_node v) \<and> fst k = addr x"
      proof (cases p)
        case (In_queue q)
        then show ?thesis using a None by (cases q) (auto simp: make_node_def deref_def split: option.splits)
      qed (use a None in auto)
      then show False using st lv by (auto simp: new_Done make_node_def node_live_def)
    next
      case (Some d)
      then show False using a nf client_domain_act [OF Some, of w h]
        by (cases d) (auto simp: delete_node_def make_record_def make_orphan_def split: option.splits)
    qed
  qed
  then show ?thesis using step_allocs [OF wf st] lv by (simp add: node_live_def)
qed

section \<open>Items at risk\<close>

lemma staked_step:
  assumes "q \<in> set (staked (client_resume (p, h) y))"
  shows "(\<exists>k. domain_of p = Some (Sc_fence k)) \<and> q \<in> set (bag h) \<or>
    q \<in> set (staked (p, h)) \<and> (\<forall>k hs kept f rest n. domain_of p = Some (Sc_free k hs kept f rest n) \<longrightarrow> q \<in> set rest)"
proof (cases "domain_of p")
  case None
  have "staked (client_resume (p, h) y) = []"
  proof (cases "\<exists>x k. p = In_queue (Start x k)")
    case True
    then obtain x k where p: "p = In_queue (Start x k)" by blast
    then show ?thesis unfolding staked_def p resume_start by (cases x) auto
  next
    case False
    then show ?thesis using resume_else(1) [OF None, of h y] by (simp add: staked_def)
  qed
  then show ?thesis using assms by simp
next
  case (Some d)
  obtain d' where d': "onward (snd (domain_resume d y h)) = Some d'" "q \<in> set (at_stake d' (fst (domain_resume d y h)))"
    using assms unfolding staked_def resume_domain [OF Some] by (cases "onward (snd (domain_resume d y h))") auto
  have lv: "at_stake e (fst (leave h)) = []" if "onward (snd (leave h)) = Some e" for e
    using that by (cases "bag h"; cases "rec h") auto
  have sd: "at_stake e (fst (scan_done k h)) = []" if "onward (snd (scan_done k h)) = Some e" for e k
    using that lv by (cases k) (auto simp del: leave.simps)
  have an: "at_stake e (fst (adopt_next k b h)) = []" if "onward (snd (adopt_next k b h)) = Some e" for e k b
    using that sd by (auto simp: adopt_next_def split: option.splits if_splits)
  have sw: "set (at_stake e (fst (sweep k hs kept ps n h))) \<subseteq> set ps" if "onward (snd (sweep k hs kept ps n h)) = Some e" for e k hs kept ps n
    using sweep_stake(1) [of k hs kept ps n h "fst (sweep k hs kept ps n h)" "snd (sweep k hs kept ps n h)"] that by simp
  have sn: "set (at_stake e (fst (snapshot_next k r hs h))) \<subseteq> set (bag h)" if "onward (snd (snapshot_next k r hs h)) = Some e" for e k r hs
    using that sw by (fastforce simp: snapshot_next_def split: option.splits)
  show ?thesis
  proof (cases d)
    case (O_cas b e)
    then show ?thesis using d' lv by (cases "won y") (auto simp del: leave.simps)
  next
    case (Sc_free k hs kept f rest n)
    then show ?thesis using d' sw Some by (fastforce simp: staked_def)
  qed (use d' Some sd an sn in \<open>fastforce simp: staked_def try_record_def got_record_def split: option.splits if_splits\<close>)+
qed

section \<open>One step\<close>

lemma sub_distinct:
  assumes "mset xs + mset ys \<subseteq># mset zs" "distinct zs"
  shows "distinct xs" "set xs \<inter> set ys = {}" "set xs \<union> set ys \<subseteq> set zs"
proof -
  have m: "mset (xs @ ys) \<subseteq># mset zs" using assms(1) by simp
  have "count (mset (xs @ ys)) a \<le> 1" for a
  proof -
    have "count (mset zs) a = (if a \<in> set zs then 1 else 0)" using assms(2) unfolding distinct_count_atmost_1 by blast
    then have "count (mset zs) a \<le> 1" by simp
    then show ?thesis using mset_subset_eq_count [OF m, of a] by (rule order.trans [rotated])
  qed
  then have "count (mset (xs @ ys)) a = (if a \<in> set (xs @ ys) then 1 else 0)" for a
    by (metis One_nat_def count_greater_zero_iff le_antisym Suc_leI not_in_iff set_mset_mset)
  then have "distinct (xs @ ys)" unfolding distinct_count_atmost_1 by blast
  then show "distinct xs" "set xs \<inter> set ys = {}" by simp_all
  show "set xs \<union> set ys \<subseteq> set zs" using set_mset_mono [OF m] by simp
qed

lemma freed_staked: "set (freed (domain_of p)) \<subseteq> set (staked (p, h))" "set (freed (domain_of p)) \<subseteq> set (carries (p, h))"
proof -
  show "set (freed (domain_of p)) \<subseteq> set (staked (p, h))"
    by (cases "domain_of p" rule: freed.cases) (auto simp: staked_def)
  show "set (freed (domain_of p)) \<subseteq> set (carries (p, h))"
    by (cases "domain_of p" rule: freed.cases) (auto simp: carries_domain)
qed

lemma unlinked_length: "length (unlinked p y) \<le> 1"
  by (cases "(p, y)" rule: unlinked.cases) auto

lemma staked_carries: "set (staked (p, h)) \<subseteq> set (carries (p, h))"
proof (cases "domain_of p")
  case (Some d)
  then show ?thesis by (cases d) (auto simp: staked_def carries_domain)
qed (simp add: staked_def)

lemma items_step:
  fixes s :: "'a hp_state"
  assumes b: "base (mem s)" and oi: "orphans_ok s A" and io: "items_ok s A N F" and at: "thr s t = (p, h)"
    and st: "mem_step t (client_act w (thr s t)) k (mem s) = Done y M'" and F: "F \<le> F'"
    and new: "\<forall>q \<in> set (unlinked p y). item_in M' (N @ X) F' (cur M' t) q \<and> (\<forall>x. q \<notin> set (holdings s A x))"
  shows "items_ok (stepped s t y M') (pass_on (domain_of p) y t A) (N @ X) F'"
proof -
  let ?M = "mem s" let ?s' = "stepped s t y M'" let ?A = "pass_on (domain_of p) y t A"
  note D = items_okD [OF io]
  have st': "mem_step t (client_act w (p, h)) k ?M = Done y M'" using st at by simp
  have up: "cur ?M u \<le> cur M' u" for u by (rule step_cur [OF baseD(2) [OF b] st])
  have fr: "q \<in> set (holdings s A (Some t))" if "q \<in> set (freed (domain_of p))" for q
    using that freed_staked(2) [of p h] at by (auto simp: holdings_simps)
  have keeps: "item_in M' (N @ X) F' W q" if "item_in ?M N F V q" "V \<le> W" "q \<notin> set (freed (domain_of p))" for q V W
    by (rule item_in_mono [OF that(1,2) F]) (use that(3) node_live_step [OF baseD(1) [OF b] st'] in auto)
  have other: "holdings ?s' ?A (Some u) = holdings s A (Some u)" if "u \<noteq> t" for u
    by (rule holdings_other [OF b oi st that])
  have others: "distinct (holdings ?s' ?A (Some u))" "q \<in> set (holdings ?s' ?A (Some u)) \<Longrightarrow> item_in M' (N @ X) F' (cur M' u) q"
    if "u \<noteq> t" for u q
  proof -
    show "distinct (holdings ?s' ?A (Some u))" using other [OF that] D(1) by simp
    assume q: "q \<in> set (holdings ?s' ?A (Some u))"
    have "q \<notin> set (freed (domain_of p))" using D(3) [of q "Some t" "Some u"] fr q other [OF that] that by auto
    then show "item_in M' (N @ X) F' (cur M' u) q" using keeps [OF _ up] D(2) [of q "Some u"] q other [OF that] by simp
  qed
  have stake: "item_in M' (N @ X) F' (scv M') q" if q: "q \<in> set (staked (thr ?s' u))" for q u
  proof (cases "u = t")
    case False
    then have q': "q \<in> set (staked (thr s u))" using q by simp
    then have "q \<in> set (holdings s A (Some u))"
      using staked_carries [of "fst (thr s u)" "snd (thr s u)"] by (auto simp: holdings_simps)
    then have "q \<notin> set (freed (domain_of p))" using D(3) [of q "Some t" "Some u"] fr False by auto
    then show ?thesis using keeps [OF D(4) [OF q'] step_scv_mono [OF st]] by blast
  next
    case True
    have qs: "q \<in> set (staked (client_resume (p, h) y))" using q True at by simp
    from staked_step [OF this] show ?thesis
    proof (elim disjE conjE exE)
      fix j assume d: "domain_of p = Some (Sc_fence j)" and bag: "q \<in> set (bag h)"
      have "q \<in> set (holdings s A (Some t))" using bag carries_domain [OF d, of h] at by (simp add: holdings_simps)
      then have i: "item_in ?M N F (cur ?M t) q" using D(2) [of q "Some t"] by simp
      have "mem_step t Fence k ?M = Done y M'" using st' client_domain_act [OF d, of w h] by simp
      then have "cur ?M t \<le> scv M'" using le_supI1 [OF spec [OF baseD(2) [OF b, unfolded lags_def], of t]] by (auto simp: fence_views)
      then show ?thesis using keeps [OF i] d by simp
    next
      assume q': "q \<in> set (staked (p, h))"
        and rest: "\<forall>k hs kept f rest n. domain_of p = Some (Sc_free k hs kept f rest n) \<longrightarrow> q \<in> set rest"
      have dc: "distinct (carries (p, h))" using D(1) [of "Some t"] at by (simp add: holdings_simps)
      have "q \<notin> set (freed (domain_of p))"
      proof
        assume "q \<in> set (freed (domain_of p))"
        then obtain k' hs kept rs n where d: "domain_of p = Some (Sc_free k' hs kept q rs n)"
          by (cases "domain_of p" rule: freed.cases) auto
        then show False using rest dc by (auto simp: carries_domain)
      qed
      then show ?thesis using keeps [OF D(4) [of q t] step_scv_mono [OF st]] q' at by simp
    qed
  qed
  have build: "items_ok ?s' ?A (N @ X) F'"
    if "distinct (holdings ?s' ?A (Some t))" "distinct (holdings ?s' ?A None)"
      "\<forall>q \<in> set (holdings ?s' ?A (Some t)). item_in M' (N @ X) F' (cur M' t) q"
      "\<forall>q \<in> set (holdings ?s' ?A None). item_in M' (N @ X) F' (holder_view M' None) q"
      "set (holdings ?s' ?A (Some t)) \<inter> set (holdings ?s' ?A None) = {}"
      "set (holdings ?s' ?A (Some t)) \<union> set (holdings ?s' ?A None) \<subseteq>
         set (holdings s A (Some t)) \<union> set (holdings s A None) \<union> set (unlinked p y)"
  proof -
    have away: "q \<notin> set (holdings s A (Some u))" if "u \<noteq> t" "q \<in> set (holdings ?s' ?A x)" "x = Some t \<or> x = None" for u q x
    proof -
      have "q \<in> set (holdings s A (Some t)) \<union> set (holdings s A None) \<union> set (unlinked p y)"
        using \<open>set (holdings ?s' ?A (Some t)) \<union> set (holdings ?s' ?A None) \<subseteq> _\<close> that(2,3) by auto
      then show ?thesis using D(3) [of q "Some u"] new that(1) by auto
    qed
    have "x = z" if "q \<in> set (holdings ?s' ?A x)" "q \<in> set (holdings ?s' ?A z)" for q x z
    proof -
      have mine: "x = z" if "x = Some t \<or> x = None" "z = Some t \<or> z = None"
        using that \<open>set (holdings ?s' ?A (Some t)) \<inter> set (holdings ?s' ?A None) = {}\<close>
          \<open>q \<in> set (holdings ?s' ?A x)\<close> \<open>q \<in> set (holdings ?s' ?A z)\<close> by auto
      show ?thesis
      proof (cases "x = Some t \<or> x = None")
        case True
        have "z = Some t \<or> z = None"
        proof (rule ccontr)
          assume "\<not> (z = Some t \<or> z = None)"
          then obtain v where v: "z = Some v" "v \<noteq> t" by auto
          then show False using away [OF v(2) that(1) True] that(2) other [OF v(2)] by simp
        qed
        then show ?thesis using mine True by blast
      next
        case False
        then obtain u where u: "x = Some u" "u \<noteq> t" by auto
        then have qu: "q \<in> set (holdings s A (Some u))" using that(1) other by simp
        then have "\<not> (z = Some t \<or> z = None)" using away [OF u(2) that(2)] by blast
        then obtain v where v: "z = Some v" "v \<noteq> t" by auto
        then show ?thesis using D(3) [OF qu, of "Some v"] that(2) other u by simp
      qed
    qed
    moreover have "distinct (holdings ?s' ?A x) \<and> (\<forall>q \<in> set (holdings ?s' ?A x). item_in M' (N @ X) F' (holder_view M' x) q)" for x
    proof (cases x)
      case (Some u)
      then show ?thesis using that(1,3) others by (cases "u = t") auto
    qed (use that in simp)
    ultimately show ?thesis using stake unfolding items_ok_def stepped_parts(1) by blast
  qed
  have un: "distinct (holdings s A (Some t) @ unlinked p y)"
    using D(1) new unlinked_length [of p y] by (cases "unlinked p y") auto
  show ?thesis
    using b oi at st
  proof (cases rule: holdings_step)
    case keep
    note sd = sub_distinct [of "holdings ?s' ?A (Some t)" "freed (domain_of p)" "holdings s A (Some t) @ unlinked p y"]
    have k: "distinct (holdings ?s' ?A (Some t))" "set (holdings ?s' ?A (Some t)) \<inter> set (freed (domain_of p)) = {}"
      "set (holdings ?s' ?A (Some t)) \<subseteq> set (holdings s A (Some t)) \<union> set (unlinked p y)"
      using sd keep(1) un by auto
    have hv: "holder_view M' None = holder_view ?M None" by (simp add: holder_view_def keep(3))
    show ?thesis
    proof (rule build)
      show "\<forall>q \<in> set (holdings ?s' ?A (Some t)). item_in M' (N @ X) F' (cur M' t) q"
        using k(2,3) keeps [OF _ up] D(2) [of _ "Some t"] new by fastforce
      show "\<forall>q \<in> set (holdings ?s' ?A None). item_in M' (N @ X) F' (holder_view M' None) q"
      proof
        fix q assume "q \<in> set (holdings ?s' ?A None)"
        then have q: "q \<in> set (holdings s A None)" using keep(2) by simp
        then have "q \<notin> set (freed (domain_of p))" using D(3) [of q None "Some t"] fr by auto
        then show "item_in M' (N @ X) F' (holder_view M' None) q" using keeps [OF D(2) [OF q] order.refl] hv by simp
      qed
      show "set (holdings ?s' ?A (Some t)) \<inter> set (holdings ?s' ?A None) = {}"
        using k(3) keep(2) D(3) [of _ None "Some t"] new by auto
    qed (use k keep(2) D(1) in auto)
  next
    case adopt
    have set_eq: "set (holdings ?s' ?A (Some t)) = set (holdings s A (Some t)) \<union> set (holdings s A None)"
      using arg_cong [OF adopt(1), of set_mset] by simp
    have "distinct (holdings s A (Some t) @ holdings s A None)" using D(1) D(3) [of _ "Some t" None] by auto
    then have "distinct (holdings ?s' ?A (Some t))" using adopt(1) mset_eq_imp_distinct_iff by (metis mset_append)
    moreover have "\<forall>q \<in> set (holdings ?s' ?A (Some t)). item_in M' (N @ X) F' (cur M' t) q"
      using set_eq keeps [OF _ up] keeps [OF _ adopt(3)] D(2) [of _ "Some t"] D(2) [of _ None] adopt(4) by auto
    ultimately show ?thesis using set_eq adopt(2) by (intro build) auto
  next
    case (pass q)
    have set_eq: "set (holdings s A (Some t)) = insert q (set (holdings ?s' ?A (Some t)))"
      using arg_cong [OF pass(1), of set_mset] by simp
    have "distinct (q # holdings ?s' ?A (Some t))" using D(1) [of "Some t"] pass(1) mset_eq_imp_distinct_iff
      by (metis mset.simps(2))
    then have d: "distinct (holdings ?s' ?A (Some t))" "q \<notin> set (holdings ?s' ?A (Some t))" by simp_all
    have dis: "set (holdings s A (Some t)) \<inter> set (holdings s A None) = {}" using D(3) [of _ "Some t" None] by auto
    show ?thesis
    proof (rule build)
      show "\<forall>r \<in> set (holdings ?s' ?A (Some t)). item_in M' (N @ X) F' (cur M' t) r"
        using set_eq keeps [OF _ up] D(2) [of _ "Some t"] pass(5) by auto
      show "\<forall>r \<in> set (holdings ?s' ?A None). item_in M' (N @ X) F' (holder_view M' None) r"
        using pass keeps [OF _ pass(3)] keeps [OF _ pass(4)] D(2) [of _ "Some t"] D(2) [of _ None] set_eq by auto
      show "distinct (holdings ?s' ?A None)" using pass(2) D(1) dis set_eq by auto
      show "set (holdings ?s' ?A (Some t)) \<inter> set (holdings ?s' ?A None) = {}"
        using pass(2) d(2) dis set_eq by auto
    qed (use d(1) set_eq pass(2) in auto)
  qed
qed

lemma items_cong:
  assumes io: "items_ok s A N F" and h: "\<And>x. mset (holdings s' A x) = mset (holdings s A x)"
    and v: "\<And>x. holder_view (mem s) x \<le> holder_view (mem s') x" "scv (mem s) \<le> scv (mem s')"
    and m: "gen (mem s') = gen (mem s)" "live (mem s') = live (mem s)"
    and st: "\<And>u. set (staked (thr s' u)) \<subseteq> set (staked (thr s u))"
  shows "items_ok s' A N F"
proof -
  have "item_in (mem s') (N @ []) F W p" if "item_in (mem s) N F V p" "V \<le> W" for V W p
    by (rule item_in_mono [OF that order.refl]) (simp add: node_live_def m)
  then have up: "item_in (mem s') N F W p" if "item_in (mem s) N F V p" "V \<le> W" for V W p using that by simp
  have se: "set (holdings s' A x) = set (holdings s A x)" for x by (rule mset_eq_setD [OF h])
  have d: "distinct (holdings s' A x) = distinct (holdings s A x)" for x by (rule mset_eq_imp_distinct_iff [OF h])
  show ?thesis
    unfolding items_ok_def se d using items_okD [OF io] up v st by blast
qed

lemma leave_thread_carries:
  "mset (carries (leave_thread h)) = mset (bag h)" "\<not> emptied (dom_pc (leave_thread h))" "staked (leave_thread h) = []"
proof -
  obtain h' f where f: "(if bag h \<noteq> [] then (h, Inl (Sc_adopt For_exit)) else leave h) = (h', f)" by (meson surj_pair)
  have c: "carries (leave_thread h) = flow_stock (h', f)" "dom_pc (leave_thread h) = onward f"
    unfolding leave_thread_def f by (cases f; simp)+
  show "mset (carries (leave_thread h)) = mset (bag h)"
    using f stock_flows(1) [of h] unfolding c by (auto split: if_splits simp del: leave.simps)
  show "\<not> emptied (dom_pc (leave_thread h))" using f not_emptied(1) [of h] unfolding c by (auto split: if_splits simp del: leave.simps)
  show "staked (leave_thread h) = []"
    using f unfolding staked_def leave_thread_def
    by (cases "bag h"; cases "rec h") auto
qed

lemma items_call:
  assumes io: "items_ok s A N F" and cl: "client_call t x (thr s t) = Some (q, es)"
  shows "items_ok (called s t q es) A N F"
proof -
  obtain h where at: "thr s t = (In_queue Idle, h)" and q: "mset (carries q) = mset (bag h)" "\<not> emptied (dom_pc q)" "staked q = []"
    using cl
  proof (cases rule: hp_call_cases)
    case (queue y h)
    then show thesis by (intro that [of h]) (cases y; simp add: staked_def)+
  next
    case (drain h)
    then show thesis by (intro that [of h]) (simp_all add: staked_def)
  next
    case (look h)
    then show thesis by (intro that [of h]) (auto simp: staked_def)
  next
    case (exit h)
    then show thesis using leave_thread_carries [of h] by (intro that [of h]) simp_all
  qed
  have "mset (holdings (called s t q es) A x) = mset (holdings s A x)" for x
  proof (cases x)
    case (Some u)
    then show ?thesis using at q by (cases "u = t") (simp_all add: holdings_simps full_simps)
  qed (simp add: holdings_simps)
  then show ?thesis by (rule items_cong [OF io]) (simp_all add: q(3))
qed

lemma items_sync:
  assumes io: "items_ok s A N F"
  shows "items_ok (s\<lparr>mem := synchronize t u (mem s)\<rparr>) A N F"
proof -
  have i: "item_of (synchronize t u (mem s)) = item_of (mem s)" by (simp add: item_of_def fun_eq_iff)
  have "holder_view (mem s) x \<le> holder_view (synchronize t u (mem s)) x" for x
    by (cases x) (simp_all add: holder_view_def sync_cur)
  moreover have "holdings (s\<lparr>mem := synchronize t u (mem s)\<rparr>) A x = holdings s A x" for x
    by (cases x) (simp_all add: holdings_simps full_simps i)
  ultimately show ?thesis by (intro items_cong [OF io]) simp_all
qed

lemma items_start: "items_ok (hp_queue_start dflt a) (\<lambda>_. []) N F"
proof -
  have "holdings (hp_queue_start dflt a) (\<lambda>_. []) x = []" for x
    by (cases x) (simp_all add: holdings_simps full_simps hp_start_thr fresh_cache_def)
  then show ?thesis by (simp add: items_ok_def staked_def hp_start_thr)
qed

end
