(* ===== verification/Hp_Nodes.thy ===== *)
theory Hp_Nodes imports Hp_Items begin

text \<open>
  Which nodes of the mimicked queue are alive: all from the current \<^verbatim>\<open>head_\<close> on, all that
  a thread has allocated and not yet linked, and the retired ones that are still held.  Of a node
  that has been freed everybody who has passed a fence knows that it had left the queue.
\<close>

section \<open>The chain\<close>

lemma chain_facts:
  assumes mi: "mimics s sl" and lr: "leaky_reach dflt d sl"
  shows "distinct (names d (trace sl))" "first (mem sl) < length (names d (trace sl))"
    "j < length (names d (trace sl)) \<Longrightarrow> born (names d (trace sl) ! j) \<le> gen (mem s) (Next (addr (names d (trace sl) ! j)))"
    "owned (fst (thr sl u)) = Some n \<Longrightarrow> n \<notin> set (names d (trace sl))"
proof -
  note inv = leaky_reach_inv [OF lr]
  obtain h t where co: "core (mem sl) (chain d (trace sl)) h t" by (rule queue_inv_core [OF inv])
  show "distinct (names d (trace sl))" using core_shape [OF co] by (simp add: shape_def names_def)
  show "first (mem sl) < length (names d (trace sl))"
    using core_shape [OF co] first_core [OF co] by (simp add: shape_def names_def)
  show "j < length (names d (trace sl)) \<Longrightarrow> born (names d (trace sl) ! j) \<le> gen (mem s) (Next (addr (names d (trace sl) ! j)))"
    using chain_born(2) [OF mimicsD(1) [OF mi] co, of j] by (simp add: names_def)
  show "owned (fst (thr sl u)) = Some n \<Longrightarrow> n \<notin> set (names d (trace sl))"
    using thread_okD(5) [OF queue_inv_thread(1) [OF inv, of u]] by (simp add: unshared_def names_def)
qed

lemma owned_then: "owned (continue k p) = owned_k k"
  by (cases k) simp_all

lemma mimic_chain:
  assumes inv: "queue_inv d sl"
    and mv: "stayed s sl t sl' \<or> resumed sl t sl' \<or> checked d s sl t k sl' \<or> followed s sl t b M' k sl'"
  obtains X where "names d (trace sl') = names d (trace sl) @ X"
    "X = [] \<or> (\<exists>n. owned (fst (thr sl t)) = Some n \<and> X = [n])" "first (mem sl) \<le> first (mem sl')"
    "\<And>n. owned (fst (thr sl' t)) = Some n \<Longrightarrow> owned (fst (thr sl t)) = Some n \<or> node_live M' n"
  using mv
proof (elim disjE)
  assume "stayed s sl t sl'"
  then show thesis using that [of "[]"] by (simp add: stayed_def)
next
  assume "resumed sl t sl'"
  then show thesis using that [of "[]"] unfolding resumed_def by (auto simp: owned_then)
next
  assume "checked d s sl t k sl'"
  then show thesis using that [of "[]"] unfolding checked_def by (auto simp: owned_then first_def)
next
  assume "followed s sl t b M' k sl'"
  then obtain p k' y where p: "thr sl t = (p, ())" "\<And>x k. p \<noteq> Start x k" "\<And>r k. p \<noteq> Call r k"
    "mem_step t (queue_act shipped leaky_reclaimer p) (k', b) (mem sl) = Done y (mem sl')" "sl' = settled sl t y (mem sl')"
    "if \<exists>v. p = E_new v then node_live M' (the (loaded y)) else k' = k" by (auto simp: followed_def)
  note mc = followed_chain [OF inv p(1-5)]
  let ?X = "case p of E_link n q \<Rightarrow> if won y then [n] else [] | _ \<Rightarrow> []"
  have "?X = [] \<or> (\<exists>n. owned p = Some n \<and> ?X = [n])" by (cases p) auto
  moreover have "first (mem sl) \<le> first (mem sl')" unfolding mc(2) by (cases p) auto
  moreover have "owned p = Some n \<or> node_live M' n" if "owned (queue_next p y) = Some n" for n
    using that p(2,3,6) by (cases p) (auto split: if_splits)
  ultimately show thesis using that [OF mc(1)] p(1) mc(3) by simp
qed

section \<open>The invariant\<close>

definition gone :: "(domain_loc, 'a cell) memory \<Rightarrow> nat list \<Rightarrow> bool" where
  "gone M N \<longleftrightarrow> (\<forall>j<length N. \<not> node_live M (N ! j) \<longrightarrow> passed (scv M) j)"

definition nodes_ok :: "nat \<Rightarrow> 'a hp_state \<Rightarrow> 'a leaky_state \<Rightarrow> bool" where
  "nodes_ok d s sl \<longleftrightarrow>
     aged (names d (trace sl)) \<and> kept_alive (mem s) (mem sl) (names d (trace sl)) \<and>
     gone (mem s) (names d (trace sl)) \<and> (\<forall>u n. owned (fst (thr sl u)) = Some n \<longrightarrow> node_live (mem s) n)"

lemma nodes_okD:
  assumes "nodes_ok d s sl"
  shows "aged (names d (trace sl))" "kept_alive (mem s) (mem sl) (names d (trace sl))" "gone (mem s) (names d (trace sl))"
    "owned (fst (thr sl u)) = Some n \<Longrightarrow> node_live (mem s) n"
  using assms by (auto simp: nodes_ok_def)

text \<open>What a step frees is an item at risk.\<close>

lemma freed_item:
  assumes io: "items_ok s A N F" and at: "thr s t = (p, h)" and lv: "node_live (mem s) x"
    and fr: "Some (addr x) \<in> set (freed (domain_of p))"
  shows "\<exists>j<F. j < length N \<and> x = N ! j \<and> passed (scv (mem s)) j"
proof -
  have "item_in (mem s) N F (scv (mem s)) (Some (addr x))"
    by (rule items_okD(4) [OF io, of _ t]) (use fr freed_staked(1) [of p h] at in auto)
  then obtain j where j: "j < F" "j < length N" "addr (N ! j) = addr x" "node_live (mem s) (N ! j)" "passed (scv (mem s)) j"
    by (auto simp: item_in_def item_at_def)
  then show ?thesis using node_live_eq [OF lv j(4)] by auto
qed

lemma aged_snoc:
  assumes ag: "aged N" and lv: "node_live M n" and nn: "n \<notin> set N"
    and bn: "\<And>j. j < length N \<Longrightarrow> born (N ! j) \<le> gen M (Next (addr (N ! j)))"
  shows "aged (N @ [n])"
  unfolding aged_def
proof (intro allI impI)
  fix j i assume j: "j < length (N @ [n])" and i: "i < j" and e: "addr ((N @ [n]) ! i) = addr ((N @ [n]) ! j)"
  show "born ((N @ [n]) ! i) < born ((N @ [n]) ! j)"
  proof (cases "j < length N")
    case True
    then show ?thesis using ag i e by (simp add: aged_def nth_append)
  next
    case False
    then have j: "j = length N" "(N @ [n]) ! j = n" "(N @ [n]) ! i = N ! i" "i < length N" using j i by (simp_all add: nth_append)
    have "born (N ! i) \<le> born n" using bn [OF j(4)] lv e j by (simp add: node_live_def)
    moreover have "born (N ! i) \<noteq> born n"
      using name_eqI [of "N ! i" n] e j nn nth_mem [OF j(4)] by auto
    ultimately show ?thesis using j by simp
  qed
qed

lemma nodes_step:
  fixes s :: "'a hp_state"
  assumes b: "base (mem s)" and mi: "mimics s sl" and lr: "leaky_reach dflt d sl"
    and io: "items_ok s A (names d (trace sl)) (first (mem sl))" and no: "nodes_ok d s sl"
    and at: "thr s t = (p, h)" and st: "mem_step t (client_act w (thr s t)) k (mem s) = Done y M'"
    and oth: "\<forall>u. u \<noteq> t \<longrightarrow> thr sl' u = thr sl u"
    and mv: "stayed s sl t sl' \<or> resumed sl t sl' \<or> checked d s sl t (fst k) sl' \<or> followed s sl t (snd k) M' (fst k) sl'"
  shows "nodes_ok d (stepped s t y M') sl'"
proof -
  let ?M = "mem s" let ?N = "names d (trace sl)"
  note cf = chain_facts [OF mi lr] and D = nodes_okD [OF no]
  obtain X where X: "names d (trace sl') = ?N @ X" "X = [] \<or> (\<exists>n. owned (fst (thr sl t)) = Some n \<and> X = [n])"
    "first (mem sl) \<le> first (mem sl')" "\<And>n. owned (fst (thr sl' t)) = Some n \<Longrightarrow> owned (fst (thr sl t)) = Some n \<or> node_live M' n"
    using mimic_chain [OF leaky_reach_inv [OF lr] mv] by metis
  have st': "mem_step t (client_act w (p, h)) k ?M = Done y M'" using st at by simp
  have dies: "\<exists>j<first (mem sl). j < length ?N \<and> x = ?N ! j \<and> passed (scv ?M) j" if "node_live ?M x" "\<not> node_live M' x" for x
    using freed_item [OF io at that(1)] node_live_step [OF baseD(1) [OF b] st' that(1)] that(2) by blast
  have own: "node_live M' n" if "owned (fst (thr sl u)) = Some n" for u n
  proof (rule ccontr)
    assume "\<not> node_live M' n"
    then have "n \<in> set ?N" using dies [OF D(4) [OF that]] by auto
    then show False using cf(4) that by blast
  qed
  have new: "node_live M' n \<and> node_live ?M n \<and> n \<notin> set ?N" if "n \<in> set X" for n
    using X(2) that own [of t n] D(4) [of t n] cf(4) [of t n] by auto
  have nth: "(?N @ X) ! i = ?N ! i" if "i < length ?N" for i using that by (simp add: nth_append)
  have tail: "(?N @ X) ! i \<in> set X" if "i < length (?N @ X)" "\<not> i < length ?N" for i
    using that by (simp add: nth_append)
  have "aged (?N @ X)"
    using X(2) D(1) aged_snoc [OF D(1), of ?M] new cf(3) by auto
  moreover have "kept_alive M' (mem sl') (?N @ X)"
    unfolding kept_alive_def
  proof (intro allI impI)
    fix j assume j: "j < length (?N @ X)" "first (mem sl') \<le> j"
    show "node_live M' ((?N @ X) ! j)"
    proof (cases "j < length ?N")
      case True
      have lv: "node_live ?M (?N ! j)" using D(2) True j(2) X(3) by (auto simp: kept_alive_def)
      show ?thesis
      proof (rule ccontr)
        assume "\<not> node_live M' ((?N @ X) ! j)"
        then obtain i where "i < first (mem sl)" "i < length ?N" "?N ! j = ?N ! i" using dies [OF lv] nth [OF True] by auto
        then show False using cf(1) True j(2) X(3) by (auto simp: nth_eq_iff_index_eq)
      qed
    qed (use new tail [OF j(1)] in blast)
  qed
  moreover have "gone M' (?N @ X)"
    unfolding gone_def
  proof (intro allI impI)
    fix j assume j: "j < length (?N @ X)" "\<not> node_live M' ((?N @ X) ! j)"
    then have jn: "j < length ?N" using new tail by blast
    have "passed (scv ?M) j"
    proof (cases "node_live ?M (?N ! j)")
      case True
      then obtain i where "i < length ?N" "?N ! j = ?N ! i" "passed (scv ?M) i" using dies [OF True] j(2) nth [OF jn] by auto
      then show ?thesis using cf(1) jn by (simp add: nth_eq_iff_index_eq)
    qed (use D(3) jn in \<open>simp add: gone_def\<close>)
    then show "passed (scv M') j" using passed_mono step_scv_mono [OF st] by blast
  qed
  moreover have "node_live M' n" if "owned (fst (thr sl' u)) = Some n" for u n
    using that X(4) own oth by (cases "u = t") auto
  ultimately show ?thesis by (simp add: nodes_ok_def X(1))
qed

text \<open>The dequeue that unlinks a node makes it an item.\<close>

lemma unlinked_item:
  fixes s :: "'a hp_state"
  assumes b: "base (mem s)" and mi: "mimics s sl" and lr: "leaky_reach dflt d sl" and lr': "leaky_reach dflt d sl'"
    and mi': "mimics (stepped s t y M') sl'"
    and io: "items_ok s A (names d (trace sl)) (first (mem sl))" and no: "nodes_ok d s sl"
    and at: "thr s t = (p, h)" and st: "mem_step t (client_act shipped (thr s t)) k (mem s) = Done y M'"
    and mv: "stayed s sl t sl' \<or> resumed sl t sl' \<or> checked d s sl t (fst k) sl' \<or> followed s sl t (snd k) M' (fst k) sl'"
    and q: "q \<in> set (unlinked p y)"
  shows "item_in M' (names d (trace sl')) (first (mem sl')) (cur M' t) q \<and> (\<forall>x. q \<notin> set (holdings s A x))"
proof -
  let ?M = "mem s" let ?L = "mem sl" let ?N = "names d (trace sl)" let ?C = "chain d (trace sl)"
  note inv = leaky_reach_inv [OF lr] and sh = mimicsD(1) [OF mi] and cf = chain_facts [OF mi lr]
  obtain q0 z v where p: "p = In_queue (D_cas q0 z v)" "won y" "q = q0"
    using q by (cases "(p, y)" rule: unlinked.cases) (auto split: if_splits)
  have after: "thr (stepped s t y M') t = (In_queue (Start (Retire q0) (KD_retire v)), h)" by (simp add: at p(1,2))
  have tr: "tracks p (fst (thr sl t))" "tracks (In_queue (Start (Retire q0) (KD_retire v))) (fst (thr sl' t))"
    using mimicsD(2) [OF mi, of t] mimicsD(2) [OF mi', of t] unfolding at after fst_conv .
  obtain ql zl where pl: "fst (thr sl t) = D_cas ql zl v" "q0 = at_addr ql" using tr(1) p(1) by (cases "fst (thr sl t)") auto
  have "followed s sl t (snd k) M' (fst k) sl'"
    using mv
  proof (elim disjE)
    assume "stayed s sl t sl'"
    then show ?thesis using at p(1) by (simp add: stayed_def)
  next
    assume "resumed sl t sl'"
    then show ?thesis using pl(1) by (auto simp: resumed_def)
  next
    assume "checked d s sl t (fst k) sl'"
    then show ?thesis using pl(1) by (auto simp: checked_def)
  qed
  then obtain pl' k' y' where m: "thr sl t = (pl', ())" "\<And>x k. pl' \<noteq> Start x k" "\<And>r k. pl' \<noteq> Call r k"
    "mem_step t (queue_act shipped leaky_reclaimer pl') (k', snd k) ?L = Done y' (mem sl')" "sl' = settled sl t y' (mem sl')"
    by (auto simp: followed_def)
  note mc = followed_chain [OF inv m]
  have pl': "pl' = D_cas ql zl v" using pl(1) m(1) by simp
  have w': "won y'" using tr(2) mc(3) pl' by (cases "won y'") auto
  have F': "first (mem sl') = Suc (first ?L)" "names d (trace sl') = ?N" using mc(1,2) pl' w' by simp_all
  obtain h0 t0 where co: "core ?L ?C h0 t0" "pc_ok ?L ?C (cur ?L t) pl'"
    by (rule at_point [OF inv m(1)])
  have F: "first ?L = h0" by (rule first_core [OF co(1)])
  obtain i where i: "nth_node ?C ql i" "knows ?C (Suc i) (cur ?L t)" "i + 3 \<le> cur ?L t (At Tail 1)"
    using co(2) pl' by auto
  have il: "i < length ?C" "ql = Some (?N ! i)" using i(1) by (simp_all add: nth_node_def names_def)
  have "newest ?L Head = Ptr ql"
    using now_cas [OF queue_inv_wf [OF inv], of t True Head "Ptr ql" "Ptr zl" release relaxed "(k', snd k)" y' "mem sl'"] m(4) pl' w' by auto
  then have "ql = Some (?N ! h0)"
    using newest_head [OF co(1)] newest_nth [of ?L Head] head_hist(2) [OF co(1)] by (simp add: names_def)
  moreover have h0: "h0 < length ?N" using cf(2) F by simp
  moreover have "i < length ?N" using il(1) by (simp add: names_def)
  ultimately have ih: "i = h0" using il(2) cf(1) by (simp add: nth_eq_iff_index_eq)
  let ?x = "?N ! h0"
  have lx: "node_live ?M ?x" using nodes_okD(2) [OF no] F h0 by (simp add: kept_alive_def)
  have st': "mem_step t (client_act shipped (p, h)) k ?M = Done y M'" using st at by simp
  have lx': "node_live M' ?x" by (rule node_live_step [OF baseD(1) [OF b] st' lx]) (simp add: p(1))
  have up: "cur ?M t c \<le> cur M' t c" for c by (rule view_leD [OF step_cur [OF baseD(2) [OF b] st]])
  have bel: "cur ?L t (At l 1) \<le> cur M' t (shadow l)" if "queue_loc l" for l
    using belowD [OF shadowsD(5) [OF sh] that] up order.trans by blast
  have hd: "h0 + 3 \<le> cur M' t (At Head 1)"
  proof -
    have "mem_step t (Cas True Head (Ptr q0) (Ptr z) release relaxed) k ?M = Done y M'" using st' p(1) by simp
    moreover obtain u where "y = Swapped True u" using p(2) by (cases y) auto
    ultimately have "Suc (latest ?M Head) \<le> cur M' t (place ?M Head)" by (rule won_facts)
    then show ?thesis
      using here_msgs(5) [OF sh here_ends(1) [OF b]] head_hist(2) [OF co(1)] baseD(8) [OF b, of Head] by simp
  qed
  have tl: "h0 + 3 \<le> cur M' t (At Tail 1)" using i(3) ih bel [of Tail] by simp
  have one: "snd (?C ! h0) = 1"
  proof -
    have "node_at ?L (?C ! h0) (links ?C h0)" using node_in_shape [OF co(1)] il(1) ih by simp
    then show ?thesis using shadowsD(3) [OF sh, of "Next (fst (?C ! h0))"] by (simp add: node_at_def)
  qed
  have x: "fst (?C ! h0) = ?x" using il(1) ih by (simp add: names_def)
  have "2 \<le> cur ?L t (At (Next ?x) 1)" "1 \<le> cur ?L t (At (Value ?x) 1)"
    using i(2) one x unfolding knows_def ih nx_def vl_def by (auto dest: spec [of _ h0])
  then have fields: "2 \<le> cur M' t (shadow (Next ?x))" "1 \<le> cur M' t (shadow (Value ?x))"
    using bel [of "Next ?x"] bel [of "Value ?x"] by (auto simp del: shadow.simps)
  have it: "item_at M' ?N (Suc h0) (cur M' t) (addr ?x)"
    unfolding item_at_def passed_def using h0 lx' hd tl fields by (intro exI [of _ h0]) simp
  have qx: "q = Some (addr ?x)" using p(3) pl(2) il(2) ih by simp
  have "q \<notin> set (holdings s A x)" for x
  proof
    assume "q \<in> set (holdings s A x)"
    then have "item_in ?M ?N h0 (holder_view ?M x) q" using items_okD(2) [OF io] F by simp
    then obtain j where j: "j < h0" "j < length ?N" "addr (?N ! j) = addr ?x" "node_live ?M (?N ! j)"
      using qx by (auto simp: item_in_def item_at_def)
    then have "?N ! j = ?x" using node_live_eq [OF j(4) lx] by simp
    then show False using cf(1) j(1,2) h0 by (simp add: nth_eq_iff_index_eq)
  qed
  then show ?thesis using it qx F F' by (simp add: item_in_def)
qed

lemma nodes_call:
  assumes no: "nodes_ok d s sl" and "\<forall>u. u \<noteq> t \<longrightarrow> thr sl' u = thr sl u" "mem sl' = mem sl" "names d (trace sl') = names d (trace sl)"
    "fst (thr sl' t) = Idle \<or> fst (thr sl' t) = Start Guard KD_guard \<or> (\<exists>v. fst (thr sl' t) = E_new v)"
  shows "nodes_ok d (called s t q es) sl'"
proof -
  have "node_live (mem s) n" if "owned (fst (thr sl' u)) = Some n" for u n
    using nodes_okD(4) [OF no, of u n] assms(2,5) that by (cases "u = t") auto
  then show ?thesis using nodes_okD(1-3) [OF no] assms(3,4) by (simp add: nodes_ok_def)
qed

lemma nodes_sync:
  assumes no: "nodes_ok d s sl" and "thr sl' = thr sl" "latest (mem sl') = latest (mem sl)" "trace sl' = trace sl"
  shows "nodes_ok d (s\<lparr>mem := synchronize t u (mem s)\<rparr>) sl'"
proof -
  have "node_live (synchronize t u (mem s)) = node_live (mem s)" by (simp add: node_live_def fun_eq_iff)
  then show ?thesis using nodes_okD [OF no] assms(2-4) by (simp add: nodes_ok_def kept_alive_def gone_def first_def)
qed

lemma nodes_start: "nodes_ok (name a 1) (hp_queue_start dflt a) (leaky_start_state dflt (name a 1))"
proof -
  have "node_live (mem (hp_queue_start dflt a)) (name a 1)"
    unfolding node_live_def name_simps hp_start_memory(1,2) by simp
  then show ?thesis
    by (simp add: nodes_ok_def names_def chain_def leaky_start_state_def queue_start_def aged_def kept_alive_def gone_def)
qed

end
