(* ===== verification/Hp_Spare.thy ===== *)
theory Hp_Spare imports Hp_Nodes begin

text \<open>
  What a guarded address is worth: no scan frees it.  The facts a thread relies on while it uses a
  node are collected here, each with the steps of the other threads that leave it alone.
\<close>

section \<open>What a scan is about to free is not among its hazards\<close>

definition free_ok :: "'a hp_state \<Rightarrow> bool" where
  "free_ok s \<longleftrightarrow> (\<forall>u k hs kept q rest n. dom_pc (thr s u) = Some (Sc_free k hs kept q rest n) \<longrightarrow>
     sorted hs \<and> \<not> protected_by hs q)"

lemma free_okD: "free_ok s \<Longrightarrow> dom_pc (thr s u) = Some (Sc_free k hs kept q rest n) \<Longrightarrow> sorted hs \<and> \<not> protected_by hs q"
  unfolding free_ok_def by blast

lemma sweep_frees: "onward (snd (sweep k hs kept ps n h)) = Some (Sc_free k' hs' kept' q rest n') \<Longrightarrow> hs' = hs \<and> \<not> protected_by hs q"
  using sweep_stake(3) [of k hs kept ps n h "fst (sweep k hs kept ps n h)" "snd (sweep k hs kept ps n h)"] by simp

lemma no_free_flows:
  "onward (snd (leave h)) \<noteq> Some (Sc_free k' hs' kept' q rest n')"
  "onward (snd (scan_done k h)) \<noteq> Some (Sc_free k' hs' kept' q rest n')"
  "onward (snd (adopt_next k b h)) \<noteq> Some (Sc_free k' hs' kept' q rest n')"
proof -
  show l: "onward (snd (leave h)) \<noteq> Some (Sc_free k' hs' kept' q rest n')" by (cases "bag h"; cases "rec h") simp_all
  show s: "onward (snd (scan_done k h)) \<noteq> Some (Sc_free k' hs' kept' q rest n')" using l by (cases k) (simp_all del: leave.simps)
  show "onward (snd (adopt_next k b h)) \<noteq> Some (Sc_free k' hs' kept' q rest n')"
    using s by (simp add: adopt_next_def split: option.split)
qed

lemma free_ok_step:
  assumes fo: "free_ok s"
  shows "free_ok (stepped s t y M')"
  unfolding free_ok_def
proof (intro allI impI)
  fix u k hs kept q rest n assume d: "dom_pc (thr (stepped s t y M') u) = Some (Sc_free k hs kept q rest n)"
  show "sorted hs \<and> \<not> protected_by hs q"
  proof (cases "u = t")
    case False
    then show ?thesis using d free_okD [OF fo, of u] by simp
  next
    case True
    obtain p h where at: "thr s t = (p, h)" by (meson surj_pair)
    show ?thesis
    proof (cases "domain_of p")
      case None
      have "dom_pc (client_resume (p, h) y) \<noteq> Some (Sc_free k hs kept q rest n)"
      proof (cases "\<exists>x k. p = In_queue (Start x k)")
        case True
        then obtain x k where p: "p = In_queue (Start x k)" by blast
        then show ?thesis unfolding p resume_start by (cases x) auto
      next
        case False
        then show ?thesis using resume_else(1) [OF None, of h y] by simp
      qed
      then show ?thesis using d True at by simp
    next
      case (Some e)
      have d': "onward (snd (domain_resume e y h)) = Some (Sc_free k hs kept q rest n)"
        using d True at resume_domain(1) [OF Some, of h y] by simp
      show ?thesis
      proof (cases e)
        case (Sc_head j)
        then show ?thesis using d' sweep_frees [of j "[]" "[]" "bag h" 0 h] by (auto simp: snapshot_next_def split: option.splits)
      next
        case (Sc_next j r gs)
        then show ?thesis using d' sweep_frees [of j "sort gs" "[]" "bag h" 0 h]
          by (auto simp: snapshot_next_def split: option.splits)
      next
        case (Sc_free j hs2 kept2 q2 rest2 n2)
        then show ?thesis using d' sweep_frees [of j hs2 kept2 rest2 "n2 + 1" h k hs kept q rest n] free_okD [OF fo, of t j hs2 kept2 q2 rest2 n2] at Some by auto
      qed (use d' no_free_flows in \<open>auto simp: try_record_def got_record_def simp del: leave.simps split: option.splits if_splits\<close>)
    qed
  qed
qed

lemma free_ok_call:
  fixes s :: "'a hp_state"
  assumes fo: "free_ok s" and cl: "client_call t x (thr s t) = Some (q, es)"
  shows "free_ok (called s t q es)"
proof -
  have "dom_pc q \<noteq> Some (Sc_free k hs kept r rest n)" for k hs kept r rest n
    using cl
  proof (cases rule: hp_call_cases)
    case (queue y h)
    then show ?thesis by (cases y) simp_all
  next
    case (exit h)
    have "dom_pc (leave_thread h :: 'a client) = onward (snd (if bag h \<noteq> [] then (h, Inl (Sc_adopt For_exit)) else leave h))"
      unfolding leave_thread_def by (rule in_leaving(1))
    then show ?thesis using no_free_flows(1) [of h] exit by (auto split: if_splits simp del: leave.simps)
  qed auto
  then show ?thesis using fo by (simp add: free_ok_def)
qed

section \<open>The layers below\<close>

definition protocol :: "'a hp_state \<Rightarrow> bool" where
  "protocol s \<longleftrightarrow> base (mem s) \<and> typed (mem s) \<and> records_inv s \<and> lists_inv s \<and> slots_inv s \<and> reveal_inv s \<and> free_ok s"

lemma protocolD:
  assumes "protocol s"
  shows "base (mem s)" "typed (mem s)" "records_inv s" "lists_inv s" "slots_inv s" "reveal_inv s" "free_ok s"
  using assms by (auto simp: protocol_def)

lemma protocol_reach: "reach (hp_queue w) (hp_queue_start dflt a) s \<Longrightarrow> protocol s"
proof -
  assume r: "reach (hp_queue w) (hp_queue_start dflt a) s"
  have "free_ok s"
    by (rule hp_invariant [where I = free_ok, OF _ _ _ _ r])
      (simp_all add: free_ok_step free_ok_call, simp_all add: free_ok_def hp_start_thr)
  then show ?thesis
    using base_reach [OF r] reach_typed [OF r] records_reach [OF r] lists_reach [OF r] slots_reach [OF r] reveal_reach [OF r]
    by (simp add: protocol_def)
qed

section \<open>Guarded addresses\<close>

abbreviation none :: "domain_loc view \<Rightarrow> bool" where
  "none \<equiv> \<lambda>_. False"

lemma risks_staked: "risks (dom_pc c) (snd c) a \<longleftrightarrow> Some a \<in> set (staked c)"
  by (cases "dom_pc c") (simp_all add: staked_def)

text \<open>A guarded address is not freed.\<close>

lemma guard_spares:
  assumes fo: "free_ok s" and g: "guard s r i ts a none"
  shows "Some a \<notin> set (freed (dom_pc (thr s t)))"
proof
  assume "Some a \<in> set (freed (dom_pc (thr s t)))"
  then obtain k hs kept rest n where d: "dom_pc (thr s t) = Some (Sc_free k hs kept (Some a) rest n)"
    by (cases "dom_pc (thr s t)" rule: freed.cases) auto
  then have "risks (dom_pc (thr s t)) (snd (thr s t)) a" by simp
  then have "a \<in> set hs" using guardD [OF g, of t] d by (auto simp: watches_def)
  moreover have "sorted hs" "\<not> protected_by hs (Some a)" using free_okD [OF fo d] by auto
  ultimately show False by (simp add: protected_by_def binary_search_sorted)
qed

abbreviation slot_msgs_of :: "(domain_loc, 'a cell) memory \<Rightarrow> nat \<Rightarrow> nat \<Rightarrow> (domain_loc, 'a cell) msg list" where
  "slot_msgs_of M r i \<equiv> hist M (Aux (Slot_of r i)) 1"

text \<open>The newest store to the slot holds the address, and a fence has passed it on.\<close>

definition shown :: "(domain_loc, 'a cell) memory \<Rightarrow> nat \<Rightarrow> nat \<Rightarrow> nat \<Rightarrow> bool" where
  "shown M r i a \<longleftrightarrow> posted M r i (length (slot_msgs_of M r i)) a"

definition guarded_by :: "'a hp_state \<Rightarrow> nat \<Rightarrow> nat \<Rightarrow> nat \<Rightarrow> bool" where
  "guarded_by s r i a \<longleftrightarrow> guard s r i (length (slot_msgs_of (mem s) r i)) a none"

lemma shown_step:
  assumes pr: "protocol s" and st: "mem_step t (client_act w (thr s t)) k (mem s) = Done y M'"
    and h: "slot_msgs_of M' r i = slot_msgs_of (mem s) r i" and sh: "shown (mem s) r i a"
  shows "shown M' r i a"
  using posted_later [OF baseD(1) [OF protocolD(1) [OF pr]] st longer_step [OF protocolD(1,4) [OF pr] st]] sh
  unfolding shown_def h by blast

lemma guarded_step:
  fixes s :: "'a hp_state"
  assumes pr: "protocol s" and st: "mem_step t (client_act w (thr s t)) k (mem s) = Done y M'"
    and h: "slot_msgs_of M' r i = slot_msgs_of (mem s) r i" and sh: "shown (mem s) r i a" and g: "guarded_by s r i a"
  shows "guarded_by (stepped s t y M') r i a"
proof -
  have "guard (stepped s t y M') r i (length (slot_msgs_of (mem s) r i)) a none"
    by (rule guard_step [OF protocolD(1,4,5,6) [OF pr] st sh [unfolded shown_def] _ _ g [unfolded guarded_by_def]])
      (auto simp: rising_def)
  then show ?thesis unfolding guarded_by_def stepped_parts(1) h .
qed

lemma guarded_live:
  assumes pr: "protocol s" and st: "mem_step t (client_act w (thr s t)) k (mem s) = Done y M'"
    and g: "guarded_by s r i (addr x)" and lv: "node_live (mem s) x"
  shows "node_live M' x"
proof -
  obtain p h where at: "thr s t = (p, h)" by (meson surj_pair)
  have "Some (addr x) \<notin> set (freed (domain_of p))"
    using guard_spares [OF protocolD(7) [OF pr] g [unfolded guarded_by_def], of t] at by simp
  then show ?thesis using node_live_step [OF baseD(1) [OF protocolD(1) [OF pr]] _ lv] st at by metis
qed

text \<open>Only the holder of a record writes its slots.\<close>

lemma slot_kept:
  fixes s :: "'a hp_state"
  assumes pr: "protocol s" and st: "mem_step t (client_act w (thr s t)) k (mem s) = Done y M'"
    and r: "rec (snd (thr s u)) = Some r" and i: "i < kSlots"
    and own: "u = t \<Longrightarrow> \<forall>d. dom_pc (thr s t) = Some d \<longrightarrow> writes_record d \<noteq> Some r \<or> slot_no d \<noteq> Some i \<or>
      Aux (Slot_of r i) \<notin> writes (domain_act d :: (domain_loc, 'a cell) action) (fst k)"
  shows "slot_msgs_of M' r i = slot_msgs_of (mem s) r i"
proof -
  obtain p h where at: "thr s t = (p, h)" by (meson surj_pair)
  have st': "mem_step t (client_act w (p, h)) k (mem s) = Done y M'" using st at by simp
  note wf = baseD(1) [OF protocolD(1) [OF pr]]
  have hu: "in_hand (thr s u) = Some r" using r by (simp add: in_hand_def)
  have "Aux (Slot_of r i) \<notin> writes (client_act w (p, h)) (fst k)"
  proof
    assume wr: "Aux (Slot_of r i) \<in> writes (client_act w (p, h)) (fst k)"
    obtain d where d: "domain_of p = Some d"
      using wr queue_writes [of _ "Slot_of r i" w "fst k"] by (cases "domain_of p"; cases p) auto
    have act: "client_act w (p, h) = domain_act d" by (rule client_domain_act [OF d])
    have wd: "Aux (Slot_of r i) \<in> writes (domain_act d :: (domain_loc, 'a cell) action) (fst k)" using wr act by simp
    from domain_slot_writes [OF this] show False
    proof (elim disjE conjE exE)
      assume dn: "d = A_new" "fst k = r"
      have "\<not> live (mem s) (Aux (Active r))" using st' act dn by (simp add: new_Done make_record_def)
      moreover have "held (mem s) (cur (mem s) u) r"
        using lists_invD(2) [OF protocolD(4) [OF pr], of u] r by (simp add: list_thread_def)
      then have "live (mem s) (Aux (Active r))" by (rule held_live [OF lists_invD(1) [OF protocolD(4) [OF pr]]])
      ultimately show False by blast
    next
      fix v assume wd': "writes_record d = Some r" "slot_no d = Some i"
      have "rec h = Some r"
        using domain_client_ok [OF d] records_invD(2) [OF protocolD(3) [OF pr], of t] at wd'(1) by (auto simp: domain_ok_def)
      then have "in_hand (thr s t) = Some r" using at by (simp add: in_hand_def)
      then have "u = t" using records_invD(4) [OF protocolD(3) [OF pr] hu] by blast
      then show False using own at d wd' wd by auto
    qed
  qed
  then show ?thesis using step_frame(1) [OF wf st'] by metis
qed

end
