(* ===== verification/Hp_Hazards.thy ===== *)
theory Hp_Hazards imports Hp_Spare begin

text \<open>
  The hazards of the queue operations.  A node that a program point uses is shielded: a slot shows
  its address and every scan that has the address in its bag watches the slot.  Before that, the
  address is reserved: whatever node of the queue it may turn out to stand for is either guarded
  already or one that the coming check of \<^verbatim>\<open>head_\<close> or \<^verbatim>\<open>tail_\<close> will not return.
\<close>

section \<open>What a thread relies on\<close>

definition stored :: "(domain_loc, 'a cell) memory \<Rightarrow> nat \<Rightarrow> nat \<Rightarrow> nat \<Rightarrow> bool" where
  "stored M r i a \<longleftrightarrow>
     i < kSlots \<and> r \<in> set (recs M) \<and> 2 \<le> length (slot_msgs_of M r i) \<and> fst (last (slot_msgs_of M r i)) = Ptr (Some a)"

lemma shown_stored: "shown M r i a \<longleftrightarrow> stored M r i a \<and> length (slot_msgs_of M r i) \<le> scv M (slot_at r i)"
  by (cases "slot_msgs_of M r i = []") (auto simp: shown_def stored_def posted_def last_conv_nth)

definition shielded :: "'a hp_state \<Rightarrow> nat \<Rightarrow> nat \<Rightarrow> nat \<Rightarrow> bool" where
  "shielded s t i x \<longleftrightarrow>
     (\<exists>r. rec (snd (thr s t)) = Some r \<and> shown (mem s) r i (addr x) \<and> guarded_by s r i (addr x) \<and> node_live (mem s) x)"

definition reserved :: "'a hp_state \<Rightarrow> nat list \<Rightarrow> nat \<Rightarrow> nat \<Rightarrow> domain_loc \<Rightarrow> nat \<Rightarrow> bool" where
  "reserved s N t i src a \<longleftrightarrow>
     (\<exists>r. rec (snd (thr s t)) = Some r \<and> shown (mem s) r i a \<and>
        (\<forall>j<length N. addr (N ! j) = a \<longrightarrow> node_live (mem s) (N ! j) \<and> guarded_by s r i a \<or> j + 3 \<le> cur (mem s) t (At src 1)))"

definition noted_in :: "'a hp_state \<Rightarrow> nat \<Rightarrow> nat \<Rightarrow> nat \<Rightarrow> bool" where
  "noted_in s t i a \<longleftrightarrow> (\<exists>r. rec (snd (thr s t)) = Some r \<and> stored (mem s) r i a)"

definition hazards_ok :: "'a hp_state \<Rightarrow> nat list \<Rightarrow> nat \<Rightarrow> 'a leaky_point \<Rightarrow> bool" where
  "hazards_ok s N t q \<longleftrightarrow>
     (\<forall>i x. (i, Some x) \<in> set (shields q) \<longrightarrow> shielded s t i x) \<and>
     (\<forall>p z x. q = D_check p z (Some x) \<longrightarrow> reserved s N t 1 Head (addr x)) \<and>
     (\<forall>r i src a. dom_pc (thr s t) = Some (P_check r i src (Some a)) \<longrightarrow> reserved s N t i src a) \<and>
     (\<forall>r i src a. dom_pc (thr s t) = Some (P_fence r i src (Some a)) \<longrightarrow> noted_in s t i a) \<and>
     (\<forall>i x k. dom_pc (thr s t) = Some S_fence \<and> q = Start (Publish i (Some x)) k \<longrightarrow> noted_in s t i (addr x))"

lemma hazards_okD:
  assumes "hazards_ok s N t q"
  shows "(i, Some x) \<in> set (shields q) \<Longrightarrow> shielded s t i x"
    "q = D_check p z (Some x) \<Longrightarrow> reserved s N t 1 Head (addr x)"
    "dom_pc (thr s t) = Some (P_check r i src (Some a)) \<Longrightarrow> reserved s N t i src a"
    "dom_pc (thr s t) = Some (P_fence r i src (Some a)) \<Longrightarrow> noted_in s t i a"
    "dom_pc (thr s t) = Some S_fence \<Longrightarrow> q = Start (Publish i (Some x)) k \<Longrightarrow> noted_in s t i (addr x)"
  using assms unfolding hazards_ok_def by blast+

text \<open>A thread about to use a node finds it alive.\<close>

lemma shielded_steady:
  assumes "\<forall>i x. (i, Some x) \<in> set (shields q) \<longrightarrow> shielded s t i x" "\<forall>n. owned q = Some n \<longrightarrow> node_live (mem s) n"
  shows "steady (mem s) q"
  using assms by (auto simp: steady_def shielded_def)

section \<open>Steps that leave the slots of the thread alone\<close>

lemma stored_step:
  assumes pr: "protocol s" and st: "mem_step t (client_act w (thr s t)) k (mem s) = Done y M'"
    and h: "slot_msgs_of M' r i = slot_msgs_of (mem s) r i" and so: "stored (mem s) r i a"
  shows "stored M' r i a"
proof -
  have "set (recs (mem s)) \<subseteq> set (recs M')" using longer_step [OF protocolD(1,4) [OF pr] st] by (auto simp: longer_def)
  then show ?thesis using so unfolding stored_def h by blast
qed

lemma shielded_step:
  fixes s :: "'a hp_state"
  assumes pr: "protocol s" and st: "mem_step t (client_act w (thr s t)) k (mem s) = Done y M'"
    and r: "rec (snd (thr (stepped s t y M') u)) = rec (snd (thr s u))"
    and h: "\<And>r. rec (snd (thr s u)) = Some r \<Longrightarrow> i < kSlots \<Longrightarrow> slot_msgs_of M' r i = slot_msgs_of (mem s) r i"
    and so: "shielded s u i x"
  shows "shielded (stepped s t y M') u i x"
proof -
  obtain q where q: "rec (snd (thr s u)) = Some q" "shown (mem s) q i (addr x)" "guarded_by s q i (addr x)" "node_live (mem s) x"
    using so by (auto simp: shielded_def)
  have i: "i < kSlots" using q(2) by (simp add: shown_stored stored_def)
  note h' = h [OF q(1) i]
  show ?thesis
    unfolding shielded_def stepped_parts(1)
    using r q(1) shown_step [OF pr st h' q(2)] guarded_step [OF pr st h' q(2,3)] guarded_live [OF pr st q(3,4)] by auto
qed

lemma noted_step:
  fixes s :: "'a hp_state"
  assumes pr: "protocol s" and st: "mem_step t (client_act w (thr s t)) k (mem s) = Done y M'"
    and r: "rec (snd (thr (stepped s t y M') u)) = rec (snd (thr s u))"
    and h: "\<And>r. rec (snd (thr s u)) = Some r \<Longrightarrow> i < kSlots \<Longrightarrow> slot_msgs_of M' r i = slot_msgs_of (mem s) r i"
    and so: "noted_in s u i a"
  shows "noted_in (stepped s t y M') u i a"
proof -
  obtain q where q: "rec (snd (thr s u)) = Some q" "stored (mem s) q i a" using so by (auto simp: noted_in_def)
  have "stored M' q i a" by (rule stored_step [OF pr st h [OF q(1)] q(2)]) (use q(2) in \<open>simp add: stored_def\<close>)
  then show ?thesis using q(1) r by (simp add: noted_in_def)
qed

lemma reserved_step:
  fixes s :: "'a hp_state"
  assumes pr: "protocol s" and st: "mem_step t (client_act w (thr s t)) k (mem s) = Done y M'"
    and r: "rec (snd (thr (stepped s t y M') u)) = rec (snd (thr s u))"
    and h: "\<And>r. rec (snd (thr s u)) = Some r \<Longrightarrow> i < kSlots \<Longrightarrow> slot_msgs_of M' r i = slot_msgs_of (mem s) r i"
    and X: "\<And>n r. n \<in> set X \<Longrightarrow> node_live M' n \<and> guarded_by (stepped s t y M') r i (addr n)"
    and so: "reserved s N u i src a"
  shows "reserved (stepped s t y M') (N @ X) u i src a"
proof -
  obtain q where q: "rec (snd (thr s u)) = Some q" "shown (mem s) q i a"
    "\<And>j. j < length N \<Longrightarrow> addr (N ! j) = a \<Longrightarrow> node_live (mem s) (N ! j) \<and> guarded_by s q i a \<or> j + 3 \<le> cur (mem s) u (At src 1)"
    using so by (auto simp: reserved_def)
  have i: "i < kSlots" using q(2) by (simp add: shown_stored stored_def)
  note h' = h [OF q(1) i]
  have up: "cur (mem s) u (At src 1) \<le> cur M' u (At src 1)"
    by (rule view_leD [OF step_cur [OF baseD(2) [OF protocolD(1) [OF pr]] st]])
  have "node_live M' ((N @ X) ! j) \<and> guarded_by (stepped s t y M') q i a \<or> j + 3 \<le> cur M' u (At src 1)"
    if j: "j < length (N @ X)" "addr ((N @ X) ! j) = a" for j
  proof (cases "j < length N")
    case True
    then have e: "(N @ X) ! j = N ! j" by (simp add: nth_append)
    then have aj: "addr (N ! j) = a" using j(2) by simp
    from q(3) [OF True aj] show ?thesis
    proof
      assume g: "node_live (mem s) (N ! j) \<and> guarded_by s q i a"
      then have "node_live M' (N ! j)" using guarded_live [OF pr st, of q i "N ! j"] aj by simp
      then show ?thesis using guarded_step [OF pr st h' q(2)] g e by simp
    next
      assume "j + 3 \<le> cur (mem s) u (At src 1)"
      then show ?thesis using up by (blast intro: order.trans)
    qed
  next
    case False
    then have "(N @ X) ! j \<in> set X" using j(1) by (simp add: nth_append)
    then show ?thesis using X j(2) by blast
  qed
  then show ?thesis
    unfolding reserved_def stepped_parts(1) using r q(1) shown_step [OF pr st h' q(2)] by auto
qed

section \<open>The fence\<close>

lemma fence_reserves:
  assumes no: "nodes_ok d s sl" and io: "items_ok s A (names d (trace sl)) F" and dn: "distinct (names d (trace sl))"
    and r: "rec (snd (thr s t)) = Some r" and sh: "shown (mem s) r i a"
    and sc: "scv (mem s) \<le> cur (mem s) t" and src: "src = Head \<or> src = Tail"
  shows "reserved s (names d (trace sl)) t i src a"
proof -
  let ?N = "names d (trace sl)" let ?M = "mem s"
  have known: "j + 3 \<le> cur ?M t (At src 1)" if "passed (scv ?M) j" for j
    using passed_mono [OF that sc] src by (auto simp: passed_def)
  have "node_live ?M (?N ! j) \<and> guarded_by s r i a \<or> j + 3 \<le> cur ?M t (At src 1)"
    if j: "j < length ?N" "addr (?N ! j) = a" for j
  proof (cases "node_live ?M (?N ! j)")
    case False
    then show ?thesis using nodes_okD(3) [OF no] j known by (auto simp: gone_def)
  next
    case True
    show ?thesis
    proof (cases "\<exists>u. risks (dom_pc (thr s u)) (snd (thr s u)) a")
      case False
      then have "guarded_by s r i a" by (simp add: guarded_by_def guard_def)
      then show ?thesis using True by blast
    next
      case rk: True
      then obtain u where "Some a \<in> set (staked (thr s u))" using risks_staked by blast
      then have "item_in ?M ?N F (scv ?M) (Some a)" by (rule items_okD(4) [OF io])
      then obtain m where m: "m < length ?N" "addr (?N ! m) = a" "node_live ?M (?N ! m)" "passed (scv ?M) m"
        by (auto simp: item_in_def item_at_def)
      then have "?N ! m = ?N ! j" using node_live_eq [OF m(3) True] j(2) by simp
      then have "m = j" using dn m(1) j(1) by (simp add: nth_eq_iff_index_eq)
      then show ?thesis using known [OF m(4)] by simp
    qed
  qed
  then show ?thesis unfolding reserved_def using r sh by blast
qed

section \<open>A step of the thread itself\<close>

text \<open>Storing to a slot.\<close>

lemma store_noted:
  fixes s :: "'a hp_state"
  assumes pr: "protocol s" and r: "rec (snd (thr s t)) = Some r" and i: "i < kSlots"
    and st: "mem_step t (Store (Aux (Slot_of r i)) (Ptr (Some a)) release) k (mem s) = Done y M'"
    and st': "mem_step t (client_act w (thr s t)) k (mem s) = Done y M'"
  shows "stored M' r i a"
proof -
  let ?M = "mem s"
  note lo = lists_invD(1) [OF protocolD(4) [OF pr]]
  have hd: "held ?M (cur ?M t) r" using lists_invD(2) [OF protocolD(4) [OF pr], of t] r by (simp add: list_thread_def)
  have lv: "live ?M (Aux (Active r))" by (rule held_live [OF lo hd])
  obtain W where W: "hist M' (Aux (Slot_of r i)) 1 = slot_msgs_of ?M r i @ [(Ptr (Some a), W)]"
    using store_facts [OF st] slot_here(1) [OF lo lv i] by metis
  have ne: "slot_msgs_of ?M r i \<noteq> []" using slots_invD(2) [OF protocolD(5) [OF pr] lv i] by (simp add: slot_msgs_def)
  have "r \<in> set (recs ?M)" using hd by (auto simp: held_def)
  then have "r \<in> set (recs M')" using longer_step [OF protocolD(1,4) [OF pr] st'] by (auto simp: longer_def)
  moreover have "2 \<le> length (slot_msgs_of M' r i)" using W ne by (cases "slot_msgs_of ?M r i") simp_all
  ultimately show ?thesis using W i by (simp add: stored_def)
qed

text \<open>Fencing after it.\<close>

lemma fence_shows:
  fixes s :: "'a hp_state"
  assumes pr: "protocol s" and st: "mem_step t (client_act w (thr s t)) k (mem s) = Done y M'"
    and f: "client_act w (thr s t) = Fence" and n: "noted_in s t i a"
  obtains r where "rec (snd (thr s t)) = Some r" "shown M' r i a" "scv M' \<le> cur M' t" "slot_msgs_of M' r i = slot_msgs_of (mem s) r i"
proof -
  let ?M = "mem s"
  obtain r where r: "rec (snd (thr s t)) = Some r" "stored ?M r i a" using n by (auto simp: noted_in_def)
  have M': "M' = sc_fence t ?M" using st f by simp
  have h: "slot_msgs_of M' r i = slot_msgs_of ?M r i" by (simp add: M' fence_views)
  note lo = lists_invD(1) [OF protocolD(4) [OF pr]]
  have hd: "held ?M (cur ?M t) r" using lists_invD(2) [OF protocolD(4) [OF pr], of t] r(1) by (simp add: list_thread_def)
  have "upto s r (knows_slots ?M r)" by (rule slots_invD(1) [OF protocolD(5) [OF pr] held_live [OF lo hd]])
  moreover have "in_hand (thr s t) = Some r" using r(1) by (simp add: in_hand_def)
  ultimately have "length (slot_msgs_of ?M r i) \<le> cur ?M t (slot_at r i)"
    using upto_held r(2) by (fastforce simp: knows_slots_def stored_def)
  also have "\<dots> \<le> acq ?M t (slot_at r i)"
    by (rule view_leD [OF spec [OF baseD(2) [OF protocolD(1) [OF pr], unfolded lags_def]]])
  also have "\<dots> \<le> scv M' (slot_at r i)" by (simp add: M' fence_views)
  finally have "shown M' r i a"
    using stored_step [OF pr st h r(2)] h by (simp add: shown_stored del: One_nat_def)
  moreover have "scv M' \<le> cur M' t" by (simp add: M' fence_views)
  ultimately show thesis using that r(1) h by blast
qed

lemma hazards_other:
  fixes s :: "'a hp_state"
  assumes pr: "protocol s" and st: "mem_step t (client_act w (thr s t)) k (mem s) = Done y M'" and u: "u \<noteq> t"
    and X: "\<And>n r i. n \<in> set X \<Longrightarrow> node_live M' n \<and> guarded_by (stepped s t y M') r i (addr n)"
    and ok: "hazards_ok s N u q"
  shows "hazards_ok (stepped s t y M') (N @ X) u q"
proof -
  have r: "rec (snd (thr (stepped s t y M') u)) = rec (snd (thr s u))" using u by simp
  have h: "slot_msgs_of M' r i = slot_msgs_of (mem s) r i" if "rec (snd (thr s u)) = Some r" "i < kSlots" for r i
    by (rule slot_kept [OF pr st that]) (use u in simp)
  note D = hazards_okD [OF ok]
  have d: "dom_pc (thr (stepped s t y M') u) = dom_pc (thr s u)" using u by simp
  have "shielded s u i x \<Longrightarrow> shielded (stepped s t y M') u i x" for i x by (rule shielded_step [OF pr st r h])
  moreover have "noted_in s u i a \<Longrightarrow> noted_in (stepped s t y M') u i a" for i a by (rule noted_step [OF pr st r h])
  moreover have "reserved s N u i src a \<Longrightarrow> reserved (stepped s t y M') (N @ X) u i src a" for i src a
    by (rule reserved_step [OF pr st r h X])
  ultimately show ?thesis unfolding hazards_ok_def d using D by blast
qed

section \<open>Where a thread comes from\<close>

lemma own_points:
  assumes ok: "client_ok (P, h)" "client_ok (client_resume (P, h) y)" and e: "dom_pc (client_resume (P, h) y) = Some e"
  shows "e = P_check r i src p \<Longrightarrow> domain_of P = Some (P_fence r i src p) \<and> snd (client_resume (P, h) y) = h"
    "e = P_fence r i src p \<Longrightarrow> domain_of P = Some (P_store r i src p) \<and> snd (client_resume (P, h) y) = h"
    "e = S_fence \<Longrightarrow> \<exists>r i p. domain_of P = Some (S_store r i p) \<and> snd (client_resume (P, h) y) = h"
proof -
  have "(e = P_check r i src p \<longrightarrow> domain_of P = Some (P_fence r i src p) \<and> snd (client_resume (P, h) y) = h) \<and>
    (e = P_fence r i src p \<longrightarrow> domain_of P = Some (P_store r i src p) \<and> snd (client_resume (P, h) y) = h) \<and>
    (e = S_fence \<longrightarrow> (\<exists>r i p. domain_of P = Some (S_store r i p) \<and> snd (client_resume (P, h) y) = h))"
  proof (cases "domain_of P")
    case None
    show ?thesis
    proof (cases "\<exists>x k. P = In_queue (Start x k)")
      case True
      then obtain x k where P: "P = In_queue (Start x k)" by blast
      show ?thesis using e unfolding P resume_start by (cases x) (auto split: if_splits)
    next
      case False
      then show ?thesis using resume_else(1) [OF None, of h y] e by simp
    qed
  next
    case (Some d)
    note rd = resume_domain [OF Some, of h y]
    have ed: "onward (snd (domain_resume d y h)) = Some e" using rd(1) e by simp
    have "kind_of e = kind_of d"
    proof -
      obtain h' f where f: "domain_resume d y h = (h', f)" by (meson surj_pair)
      then have fe: "f = Inl e" using ed by (cases f) simp_all
      show ?thesis using ok Some f fe
        by (cases P rule: domain_of.cases) (auto simp: domain_ok_def hp_reclaimer_def)
    qed
    then have "kind_of d = K_protect \<or> kind_of d = K_publish \<or> (e \<noteq> P_check r i src p \<and> e \<noteq> P_fence r i src p \<and> e \<noteq> S_fence)"
      by auto
    then show ?thesis
    proof (elim disjE)
      assume "kind_of d = K_protect"
      then show ?thesis using ed Some rd(2) by (cases d) (auto split: if_splits elim: scan_kind.elims)
    next
      assume "kind_of d = K_publish"
      then show ?thesis using ed Some rd(2) by (cases d) (auto split: if_splits elim: scan_kind.elims)
    qed auto
  qed
  then show "e = P_check r i src p \<Longrightarrow> domain_of P = Some (P_fence r i src p) \<and> snd (client_resume (P, h) y) = h"
    "e = P_fence r i src p \<Longrightarrow> domain_of P = Some (P_store r i src p) \<and> snd (client_resume (P, h) y) = h"
    "e = S_fence \<Longrightarrow> \<exists>r i p. domain_of P = Some (S_store r i p) \<and> snd (client_resume (P, h) y) = h" by blast+
qed

text \<open>The shields of the next program point of the queue.\<close>

lemma shields_next:
  assumes "\<And>x k. p \<noteq> Start x k" "\<And>r k. p \<noteq> Call r k" "(i, Some x) \<in> set (shields (queue_next p y))"
  shows "(i, Some x) \<in> set (shields p) \<or> (\<exists>hd tl. p = D_check hd tl (Some x) \<and> queue_next p y = D_value hd (Some x) \<and> i = 1)"
  using assms by (cases p) (auto split: if_splits)

lemma shields_continue:
  assumes "(i, Some x) \<in> set (shields (continue k None))"
  shows "\<exists>z r. k = KD_set (Some x) z r \<and> i = 0"
  using assms by (cases k) auto

lemma shields_start:
  assumes "(i, Some x) \<in> set (shields (Start x0 c))"
  shows "\<exists>z r. c = KD_set (Some x) z r \<and> i = 0"
  using assms by (cases c) auto

text \<open>While slot 1 is being set, slot 0 stays.\<close>

lemma publish_keeps:
  fixes s :: "'a hp_state"
  assumes pr: "protocol s" and at: "thr s t = (P, h)" and st: "mem_step t (client_act w (thr s t)) k (mem s) = Done y M'"
    and tr: "tracks P (Start (Publish 1 p) c)" and so: "shielded s t 0 x"
  shows "shielded (stepped s t y M') t 0 x"
proof -
  consider (start) c' where "P = In_queue (Start (Publish 1 (at_addr p)) c')"
    | (call) e c' where "P = In_queue (Call e c')" "e = S_fence \<or> (\<exists>r. e = S_store r 1 (at_addr p))"
  proof (cases P)
    case (In_queue q)
    show thesis
    proof (cases "\<exists>e c'. q = Call e c'")
      case True
      then obtain e c' where "q = Call e c'" by blast
      then show thesis using call [of e c'] In_queue tr by auto
    next
      case False
      then have "q = pc_of (Start (Publish 1 p) c)"
        using tr tracks_queue [of q "Start (Publish 1 p) c"] In_queue by blast
      then show thesis using start In_queue by simp
    qed
  qed (use tr in auto)
  then show ?thesis
  proof cases
    case start
    show ?thesis
    proof (rule shielded_step [OF pr st _ _ so])
      show "rec (snd (thr (stepped s t y M') t)) = rec (snd (thr s t))"
        using at start resume_start(2) [of "Publish 1 (at_addr p)" c' h y] by simp
      show "slot_msgs_of M' r 0 = slot_msgs_of (mem s) r 0" if "rec (snd (thr s t)) = Some r" "0 < kSlots" for r
        by (rule slot_kept [OF pr st that]) (simp add: at start)
    qed
  next
    case call
    have d: "domain_of P = Some e" using call(1) by simp
    show ?thesis
    proof (rule shielded_step [OF pr st _ _ so])
      show "rec (snd (thr (stepped s t y M') t)) = rec (snd (thr s t))"
        using at resume_domain(2) [OF d, of h y] call(2) by auto
      show "slot_msgs_of M' r 0 = slot_msgs_of (mem s) r 0" if "rec (snd (thr s t)) = Some r" "0 < kSlots" for r
        by (rule slot_kept [OF pr st that]) (use call(2) in \<open>auto simp: at d\<close>)
    qed
  qed
qed

section \<open>The thread itself\<close>

lemma hazards_own:
  fixes s :: "'a hp_state"
  assumes pr: "protocol s" and pr': "protocol (stepped s t y M')" and mi: "mimics s sl" and mi': "mimics (stepped s t y M') sl'"
    and lr: "leaky_reach dflt d sl" and lr': "leaky_reach dflt d sl'"
    and no': "nodes_ok d (stepped s t y M') sl'" and io': "items_ok (stepped s t y M') A (names d (trace sl')) F"
    and ok: "hazards_ok s (names d (trace sl)) t (fst (thr sl t))"
    and at: "thr s t = (P, h)" and st: "mem_step t (client_act shipped (thr s t)) k (mem s) = Done y M'"
    and mv: "stayed s sl t sl' \<or> resumed sl t sl' \<or> checked d s sl t (fst k) sl' \<or> followed s sl t (snd k) M' (fst k) sl'"
  shows "hazards_ok (stepped s t y M') (names d (trace sl')) t (fst (thr sl' t))"
proof -
  let ?M = "mem s" let ?s' = "stepped s t y M'" let ?N = "names d (trace sl)" let ?N' = "names d (trace sl')"
  note D = hazards_okD [OF ok]
  have ck: "client_ok (P, h)" "client_ok (client_resume (P, h) y)"
    using records_invD(2) [OF protocolD(3) [OF pr], of t] records_invD(2) [OF protocolD(3) [OF pr'], of t] at by simp_all
  have st': "mem_step t (client_act shipped (P, h)) k ?M = Done y M'" using st at by simp
  have thr': "thr ?s' t = client_resume (P, h) y" using at by simp
  have tr: "tracks P (fst (thr sl t))" "tracks (fst (client_resume (P, h) y)) (fst (thr sl' t))"
    using mimicsD(2) [OF mi, of t] mimicsD(2) [OF mi', of t] unfolding thr' at by simp_all
  obtain q where q: "thr sl t = (q, ())" by (metis old.unit.exhaust surj_pair)
  obtain h0 t0 where co: "core (mem sl) (chain d (trace sl)) h0 t0" "pc_ok (mem sl) (chain d (trace sl)) (cur (mem sl) t) q"
    by (rule at_point [OF leaky_reach_inv [OF lr] q])
  have lp: "list_pc ?M t (cur ?M t) e" if "domain_of P = Some e" for e
    using lists_invD(2) [OF protocolD(4) [OF pr], of t] at that by (simp add: list_thread_def)
  note dn' = chain_facts(1) [OF mi' lr']
  have fence: "reserved ?s' ?N' t i src a"
    if "client_act shipped (thr s t) = Fence" "noted_in s t i a" "src = Head \<or> src = Tail" "snd (client_resume (P, h) y) = h" for i src a
  proof -
    note c = that
    obtain r where r: "rec (snd (thr s t)) = Some r" "shown M' r i a" "scv M' \<le> cur M' t"
      by (rule fence_shows [OF pr st c(1,2)])
    show ?thesis by (rule fence_reserves [OF no' io' dn', of _ r]) (use r c(3,4) at in simp_all)
  qed
  have note_store: "noted_in ?s' t i a"
    if "client_act shipped (thr s t) = Store (Aux (Slot_of r i)) (Ptr (Some a)) release" "rec h = Some r" "i < kSlots"
      "snd (client_resume (P, h) y) = h" for r i a
  proof -
    have "stored M' r i a" by (rule store_noted [OF pr _ that(3) _ st]) (use st that at in simp_all)
    then show ?thesis using that(2,4) at by (simp add: noted_in_def)
  qed
  have rec_of: "rec h = Some r" if "domain_of P = Some e" "writes_record e = Some r" for e r
    using domain_client_ok [OF that(1) ck(1)] that(2) by (auto simp: domain_ok_def)
  have checks: "reserved ?s' ?N' t i src a" if "dom_pc (thr ?s' t) = Some (P_check r i src (Some a))" for r i src a
  proof -
    have e: "dom_pc (client_resume (P, h) y) = Some (P_check r i src (Some a))" using that unfolding thr' .
    have dp: "domain_of P = Some (P_fence r i src (Some a))" "snd (client_resume (P, h) y) = h"
      using own_points(1) [OF ck e refl] by simp_all
    show ?thesis
    proof (rule fence)
      show "client_act shipped (thr s t) = Fence" using client_domain_act [OF dp(1), of shipped h] at by simp
      show "noted_in s t i a" by (rule D(4) [of r i src a]) (use dp(1) at in simp)
      show "src = Head \<or> src = Tail" by (rule list_pcD(5) [OF lp [OF dp(1)]]) simp
    qed (rule dp(2))
  qed
  have fences: "noted_in ?s' t i a" if "dom_pc (thr ?s' t) = Some (P_fence r i src (Some a))" for r i src a
  proof -
    have e: "dom_pc (client_resume (P, h) y) = Some (P_fence r i src (Some a))" using that unfolding thr' .
    have dp: "domain_of P = Some (P_store r i src (Some a))" "snd (client_resume (P, h) y) = h"
      using own_points(2) [OF ck e refl] by simp_all
    show ?thesis
    proof (rule note_store [of r])
      show "client_act shipped (thr s t) = Store (Aux (Slot_of r i)) (Ptr (Some a)) release"
        using client_domain_act [OF dp(1), of shipped h] at by simp
      show "rec h = Some r" by (rule rec_of [OF dp(1)]) simp
      show "i < kSlots" by (rule list_pcD(2) [OF lp [OF dp(1)]]) simp
    qed (rule dp(2))
  qed
  have qf: "fst (thr sl t) = q" using q by simp
  show ?thesis
    using mv
  proof (elim disjE)
    assume "stayed s sl t sl'"
    then have sl': "sl' = sl" and inq: "\<And>p. P = In_queue p \<Longrightarrow> (\<exists>x k. p = Start x k) \<or> (\<exists>d k. p = Call d k)"
      using at by (auto simp: stayed_def)
    have qs: "q = Idle \<or> (\<exists>x c. q = Start x c)"
    proof (cases "\<exists>p. P = In_queue p")
      case True
      then obtain p where p: "P = In_queue p" by blast
      from inq [OF p] show ?thesis
      proof (elim disjE exE)
        fix x c assume "p = Start x c"
        then have "pc_of q = Start x c" using tr(1) p qf by auto
        then show ?thesis by (cases q) auto
      next
        fix e c assume "p = Call e c"
        then show ?thesis using tr(1) p qf by auto
      qed
    qed (use tr(1) qf in \<open>cases P; auto\<close>)
    have "shielded ?s' t i x" if ix: "(i, Some x) \<in> set (shields q)" for i x
    proof -
      obtain x0 z r where c: "q = Start x0 (KD_set (Some x) z r)" "i = 0"
        using qs ix shields_start by fastforce
      then have "x0 = Publish 1 r" using co(2) by simp
      then show ?thesis using publish_keeps [OF pr at st, of r "KD_set (Some x) z r" x] tr(1) D(1) [of 0 x] c qf by simp
    qed
    moreover have "noted_in ?s' t i (addr x)" if dq: "dom_pc (thr ?s' t) = Some S_fence" "q = Start (Publish i (Some x)) c" for i x c
    proof -
      have e: "dom_pc (client_resume (P, h) y) = Some S_fence" using dq(1) unfolding thr' .
      obtain r j p where dp: "domain_of P = Some (S_store r j p)" "snd (client_resume (P, h) y) = h"
        using own_points(3) [OF ck e refl] by auto
      have sv: "j = i" "p = Some (addr x)"
        using tr(1) dp(1) dq(2) qf by (cases P rule: domain_of.cases; auto)+
      show ?thesis
      proof (rule note_store [of r])
        show "client_act shipped (thr s t) = Store (Aux (Slot_of r i)) (Ptr (Some (addr x))) release"
          using client_domain_act [OF dp(1), of shipped h] at sv by simp
        show "rec h = Some r" by (rule rec_of [OF dp(1)]) simp
        show "i < kSlots" using list_pcD(2) [OF lp [OF dp(1)], of i] sv by simp
      qed (rule dp(2))
    qed
    ultimately show ?thesis
      unfolding hazards_ok_def sl' qf using checks fences qs sl' by auto
  next
    assume "resumed sl t sl'"
    then obtain x0 c where rs: "no_protect x0" "q = Start x0 c" "fst (thr sl' t) = continue c None" "trace sl' = trace sl"
      using q by (auto simp: resumed_def)
    have "shielded ?s' t i x" if ix: "(i, Some x) \<in> set (shields (continue c None :: 'a leaky_point))" for i x
    proof -
      obtain z r where c: "c = KD_set (Some x) z r" "i = 0" using shields_continue [OF ix] by blast
      then have "x0 = Publish 1 r" using co(2) rs(2) by simp
      then show ?thesis using publish_keeps [OF pr at st, of r "KD_set (Some x) z r" x] tr(1) D(1) [of 0 x] c rs(2) qf by simp
    qed
    moreover have "reserved ?s' ?N' t 1 Head (addr x)" if cc: "continue c None = (D_check p z (Some x) :: 'a leaky_point)" for p z x
    proof -
      have c: "c = KD_set p z (Some x)" using cc by (cases c) auto
      then have x0: "x0 = Publish 1 (Some x)" using co(2) rs(2) by simp
      have "tracks (fst (client_resume (P, h) y)) (D_check p z (Some x) :: 'a leaky_point)" using tr(2) rs(3) cc by simp
      then have post: "\<And>e c'. fst (client_resume (P, h) y) \<noteq> In_queue (Call e c')" "\<And>X c'. fst (client_resume (P, h) y) \<noteq> In_queue (Start X c')"
        by auto
      have "domain_of P = Some S_fence"
      proof -
        have sv: "tracks P (Start (Publish 1 (Some x)) c :: 'a leaky_point)" using tr(1) qf rs(2) x0 by simp
        then obtain p0 where p0: "P = In_queue p0" by (cases P) auto
        show ?thesis
        proof (cases "\<exists>e c'. p0 = Call e c'")
          case True
          then obtain e c' where e: "p0 = Call e c'" by blast
          have "e = S_fence \<or> (\<exists>r. e = S_store r 1 (Some (addr x)))" using sv p0 e by auto
          then show ?thesis using post(1) [of S_fence c'] p0 e by (auto simp: hp_reclaimer_def)
        next
          case False
          then have "p0 = Start (Publish 1 (Some (addr x))) (cont_of c)"
            using sv tracks_queue [of p0 "Start (Publish 1 (Some x)) c"] p0 by auto
          then show ?thesis using post(1) [of "S_store (record_of h) 1 (Some (addr x))" "cont_of c"] p0 by (simp add: hp_reclaimer_def)
        qed
      qed
      note dp = this
      show ?thesis
      proof (rule fence)
        show "client_act shipped (thr s t) = Fence" using client_domain_act [OF dp, of shipped h] at by simp
        show "noted_in s t 1 (addr x)" by (rule D(5) [of 1 x c]) (use dp at qf rs(2) x0 in simp_all)
        show "snd (client_resume (P, h) y) = h" using resume_domain(2) [OF dp, of h y] by simp
      qed simp
    qed
    moreover have "continue c None \<noteq> (Start (Publish i (Some x)) c' :: 'a leaky_point)" for i x c' by (cases c) simp_all
    ultimately show ?thesis
      unfolding hazards_ok_def rs(3) using checks fences by blast
  next
    assume "checked d s sl t (fst k) sl'"
    then obtain src r c j where ch: "src = Head \<and> c = KD_protect \<or> src = Tail \<and> (\<exists>m. c = KE_protect m)"
      "domain_of P = Some (P_check r 0 (loc_of src) (Some (addr (?N ! j))))" "q = Start (Protect 0 src) c"
      "fst (thr sl' t) = continue c (Some (?N ! j))" "j < length ?N" "fst k = j + 2" "trace sl' = trace sl"
      using at q by (auto simp: checked_def)
    have act: "mem_step t (Load (loc_of src) acquire) k ?M = Done y M'" using st' client_domain_act [OF ch(2), of shipped h] by simp
    have "reserved s ?N t 0 (loc_of src) (addr (?N ! j))" by (rule D(3) [of r]) (use ch(2) at in simp)
    then obtain r0 where r0: "rec h = Some r0" "shown ?M r0 0 (addr (?N ! j))"
      "node_live ?M (?N ! j) \<and> guarded_by s r0 0 (addr (?N ! j)) \<or> j + 3 \<le> cur ?M t (At (loc_of src) 1)"
      using ch(5) at by (auto simp: reserved_def)
    have "loc_of src \<in> always" using ch(1) by auto
    then have "cur ?M t (At (loc_of src) 1) \<le> fst k"
      using act baseD(8) [OF protocolD(1) [OF pr], of "loc_of src"] by (simp add: load_Done seen_def)
    then have so: "shielded s t 0 (?N ! j)" using r0 ch(6) at by (auto simp: shielded_def)
    have sh: "shielded ?s' t 0 (?N ! j)"
    proof (rule shielded_step [OF pr st _ _ so])
      show "rec (snd (thr ?s' t)) = rec (snd (thr s t))"
        using at resume_domain(2) [OF ch(2), of h y] by simp
      show "slot_msgs_of M' r 0 = slot_msgs_of ?M r 0" if "rec (snd (thr s t)) = Some r" "0 < kSlots" for r
        by (rule slot_kept [OF pr st that]) (simp add: at ch(2))
    qed
    have "shields (continue c (Some (?N ! j)) :: 'a leaky_point) = [(0, Some (?N ! j))]" using ch(1) by auto
    moreover have "continue c (Some (?N ! j)) \<noteq> (D_check p z u :: 'a leaky_point)"
      "continue c (Some (?N ! j)) \<noteq> (Start (Publish i u) c' :: 'a leaky_point)" for p z u i c' using ch(1) by auto
    ultimately show ?thesis
      unfolding hazards_ok_def ch(4) using checks fences sh by auto
  next
    assume "followed s sl t (snd k) M' (fst k) sl'"
    then obtain k' y' where m: "P = In_queue (pc_of q)" "\<And>x k. q \<noteq> Start x k" "\<And>r k. q \<noteq> Call r k"
      "mem_step t (queue_act shipped leaky_reclaimer q) (k', snd k) (mem sl) = Done y' (mem sl')" "sl' = settled sl t y' (mem sl')"
      "if \<exists>v. q = E_new v then node_live M' (the (loaded y')) else k' = fst k"
      using at q by (auto simp: followed_def)
    note mc = followed_chain [OF leaky_reach_inv [OF lr] q m(2-5)]
    have dn: "domain_of P = None" using m(1,3) pc_of_next [of q] by (cases "pc_of q") auto
    have nst: "\<And>x k. P \<noteq> In_queue (Start x k)" using m(1,2) by (cases q) auto
    have h': "snd (client_resume (P, h) y) = h" "dom_pc (client_resume (P, h) y) = None"
      using resume_else [OF dn nst, of h y] by simp_all
    have keep: "shielded ?s' t i x" if so: "shielded s t i x" for i x
    proof (rule shielded_step [OF pr st _ _ so])
      show "rec (snd (thr ?s' t)) = rec (snd (thr s t))" using at h' by simp
      show "slot_msgs_of M' r i = slot_msgs_of ?M r i" if "rec (snd (thr s t)) = Some r" "i < kSlots" for r
        by (rule slot_kept [OF pr st that]) (simp add: at dn)
    qed
    have "shielded ?s' t i x" if ix: "(i, Some x) \<in> set (shields (queue_next q y'))" for i x
      using shields_next [OF m(2,3) ix]
    proof (elim disjE exE conjE)
      assume "(i, Some x) \<in> set (shields q)"
      then show ?thesis using keep D(1) qf by blast
    next
      fix hd tl assume c: "q = D_check hd tl (Some x)" "queue_next q y' = D_value hd (Some x)" "i = 1"
      have "reserved s ?N t 1 Head (addr x)" by (rule D(2)) (use c(1) qf in simp)
      moreover obtain j where j: "x = ?N ! j" "j < length ?N" "\<not> j + 3 \<le> cur ?M t (At Head 1)"
      proof -
        obtain i0 where i0: "nth_node (chain d (trace sl)) hd i0" "nth_node (chain d (trace sl)) (Some x) (Suc i0)"
          "i0 + 2 \<le> cur (mem sl) t (At Head 1)"
          using co(2) c(1) by (auto simp: snapshot_def head_at_def)
        have ld: "mem_step t (Load Head acquire) (k', snd k) (mem sl) = Done y' (mem sl')" using m(4) c(1) by simp
        have hd': "hd = loaded y'" using c(1,2) by (simp split: if_splits)
        have kk: "2 \<le> k'" "k' \<le> latest (mem sl) Head" "y' = Val (fst (msgs (mem sl) Head ! (k' - 1)))"
          using ld i0(3) head_hist(3) [OF co(1)] by (auto simp: load_Done seen_def)
        obtain m where mm: "k' = m + 2" "fst (msgs (mem sl) Head ! (k' - 1)) = Ptr (Some (fst (chain d (trace sl) ! m)))" "m < length (chain d (trace sl))"
          by (rule head_msg [OF co(1) kk(1,2)])
        have "?N ! m = ?N ! i0" "m < length ?N" "i0 < length ?N"
          using hd' kk(3) mm(2,3) i0(1) by (auto simp: nth_node_def names_def)
        then have mi: "m = i0" using chain_facts(1) [OF mi lr] by (simp add: nth_eq_iff_index_eq)
        have "mem_step t (Load Head acquire) k ?M = Done y M'" using st' m(1) c(1) by simp
        then have "cur ?M t (At Head 1) \<le> fst k"
          using baseD(8) [OF protocolD(1) [OF pr], of Head] by (simp add: load_Done seen_def)
        moreover have "fst k = i0 + 2" using m(6) c(1) mm(1) mi by simp
        ultimately show thesis using that [of "Suc i0"] i0(2) by (auto simp: nth_node_def names_def)
      qed
      ultimately have "shielded s t 1 x" using at by (auto simp: reserved_def shielded_def)
      then show ?thesis using keep c(3) by simp
    qed
    moreover have "queue_next q y' \<noteq> D_check p z u" for p z u using m(2,3) by (cases q) auto
    ultimately show ?thesis
      unfolding hazards_ok_def mc(3) thr' h'(2) by auto
  qed
qed

end
