(* ===== verification/Hp_Cover.thy ===== *)
theory Hp_Cover imports Hp_Hazards begin

text \<open>
  Every access to a node that is still there is covered: it was made under a hazard, the scans that
  have the address in their bags watch the store that showed it, and whoever stores to the slot
  later knows of the access.  A scan that frees the node has therefore seen all of them.
\<close>

section \<open>Covered accesses\<close>

definition knows_of :: "nat \<Rightarrow> nat \<Rightarrow> domain_loc view \<Rightarrow> bool" where
  "knows_of v n V \<longleftrightarrow> n \<le> V (Clock v)"

lemma knows_of_rising: "rising (knows_of v n)"
  unfolding rising_def knows_of_def by (auto intro: order.trans [OF _ view_leD])

definition covers :: "'a hp_state \<Rightarrow> nat \<Rightarrow> nat \<Rightarrow> nat \<Rightarrow> bool" where
  "covers s a v n \<longleftrightarrow>
     (\<exists>r i ts. posted (mem s) r i ts a \<and> guard s r i ts a (knows_of v n) \<and>
        (\<forall>m. ts \<le> m \<and> m < length (slot_msgs_of (mem s) r i) \<longrightarrow> knows_of v n (snd (slot_msgs_of (mem s) r i ! m))) \<and>
        upto s r (knows_of v n))"

definition covered :: "'a hp_state \<Rightarrow> bool" where
  "covered s \<longleftrightarrow>
     (\<forall>a. live (mem s) (Next a) \<longrightarrow> (\<forall>l \<in> {Next a, Value a}. \<forall>x \<in> set (accs (mem s) l (gen (mem s) l)). covers s a (fst x) (snd x)))"

lemma coveredD:
  "covered s \<Longrightarrow> live (mem s) (Next a) \<Longrightarrow> l = Next a \<or> l = Value a \<Longrightarrow> (v, n) \<in> set (accs (mem s) l (gen (mem s) l)) \<Longrightarrow>
    covers s a v n"
  unfolding covered_def by fastforce

lemma guard_weaken: "guard s r i ts a none \<Longrightarrow> guard s r i ts a Q"
  by (simp add: guard_def)

text \<open>A scan that is about to free the node knows of the access.\<close>

lemma covers_free:
  assumes fo: "free_ok s" and c: "covers s a v n" and d: "dom_pc (thr s t) = Some (Sc_free k hs kept (Some a) rest m)"
  shows "n \<le> cur (mem s) t (Clock v)"
proof -
  obtain r i ts where g: "guard s r i ts a (knows_of v n)" using c by (auto simp: covers_def)
  have "risks (dom_pc (thr s t)) (snd (thr s t)) a" using d by simp
  from guardD [OF g this] show ?thesis
  proof
    assume "watches (mem s) (cur (mem s) t) (dom_pc (thr s t)) r i ts a"
    then have "a \<in> set hs" using d by (auto simp: watches_def)
    then show ?thesis using free_okD [OF fo d] by (auto simp: protected_by_def binary_search_sorted)
  qed (simp add: knows_of_def)
qed

section \<open>Steps\<close>

text \<open>A later store to the slot is made by a holder of the record, who knows of the access.\<close>

lemma later_step:
  fixes s :: "'a hp_state"
  assumes pr: "protocol s" and st: "mem_step t (client_act w (thr s t)) k (mem s) = Done y M'"
    and po: "posted (mem s) r i ts a" and Q: "rising Q" and up: "upto s r Q"
    and later: "\<forall>m. ts \<le> m \<and> m < length (slot_msgs_of (mem s) r i) \<longrightarrow> Q (snd (slot_msgs_of (mem s) r i ! m))"
  shows "\<forall>m. ts \<le> m \<and> m < length (slot_msgs_of M' r i) \<longrightarrow> Q (snd (slot_msgs_of M' r i ! m))"
proof (intro allI impI)
  fix m assume m: "ts \<le> m \<and> m < length (slot_msgs_of M' r i)"
  let ?M = "mem s"
  note wf = baseD(1) [OF protocolD(1) [OF pr]]
  obtain p h where at: "thr s t = (p, h)" by (meson surj_pair)
  have st': "mem_step t (client_act w (p, h)) k ?M = Done y M'" using st at by simp
  note lo = lists_invD(1) [OF protocolD(4) [OF pr]]
  have lv: "live ?M (Aux (Active r))" by (rule recs_live [OF lo]) (use po in \<open>simp add: posted_def\<close>)
  have i: "i < kSlots" using po by (simp add: posted_def)
  show "Q (snd (slot_msgs_of M' r i ! m))"
  proof (cases "m < length (slot_msgs_of ?M r i)")
    case True
    then show ?thesis using later m step_nth [OF wf st True] by simp
  next
    case False
    have wr: "Aux (Slot_of r i) \<in> writes (client_act w (p, h)) (fst k)"
    proof (rule ccontr)
      assume "Aux (Slot_of r i) \<notin> writes (client_act w (p, h)) (fst k)"
      then show False using step_frame(1) [OF wf st'] False m by metis
    qed
    obtain d where d: "domain_of p = Some d"
      using wr queue_writes [of _ "Slot_of r i" w "fst k"] by (cases "domain_of p"; cases p) auto
    have act: "client_act w (p, h) = domain_act d" by (rule client_domain_act [OF d])
    have "Aux (Slot_of r i) \<in> writes (domain_act d :: (domain_loc, 'a cell) action) (fst k)" using wr act by simp
    from domain_slot_writes [OF this] show ?thesis
    proof (elim disjE conjE exE)
      assume "d = A_new" "fst k = r"
      then show ?thesis using st' act lv by (simp add: new_Done make_record_def)
    next
      fix v assume w: "writes_record d = Some r" "domain_act d = (Store (Aux (Slot_of r i)) (Ptr v) release :: (domain_loc, 'a cell) action)"
      have "rec h = Some r"
        using domain_client_ok [OF d] records_invD(2) [OF protocolD(3) [OF pr], of t] at w(1) by (auto simp: domain_ok_def)
      then have "Q (cur ?M t)" using upto_held [OF up, of t] at by (simp add: in_hand_def)
      moreover obtain W where W: "slot_msgs_of M' r i = slot_msgs_of ?M r i @ [(Ptr v, W)]" "cur ?M t \<le> W"
      proof -
        have sd: "mem_step t (Store (Aux (Slot_of r i)) (Ptr v) release) k ?M = Done y M'" using st' act w(2) by simp
        show thesis by (rule store_facts [OF sd]) (use that slot_here(1) [OF lo lv i] in simp)
      qed
      ultimately show ?thesis using False m risingD [OF Q W(2)] by (simp add: nth_append)
    qed
  qed
qed

lemma covers_step:
  fixes s :: "'a hp_state"
  assumes pr: "protocol s" and st: "mem_step t (client_act w (thr s t)) k (mem s) = Done y M'"
    and c: "covers s a v n"
  shows "covers (stepped s t y M') a v n"
proof -
  obtain r i ts where h: "posted (mem s) r i ts a" "guard s r i ts a (knows_of v n)"
    "\<forall>m. ts \<le> m \<and> m < length (slot_msgs_of (mem s) r i) \<longrightarrow> knows_of v n (snd (slot_msgs_of (mem s) r i ! m))"
    "upto s r (knows_of v n)" using c unfolding covers_def by blast
  note P = protocolD [OF pr]
  have lv: "live (mem s) (Aux (Active r))" by (rule recs_live [OF lists_invD(1) [OF P(4)]]) (use h(1) in \<open>simp add: posted_def\<close>)
  have "posted M' r i ts a" by (rule posted_later [OF baseD(1) [OF P(1)] st longer_step [OF P(1,4) st] h(1)])
  moreover have "guard (stepped s t y M') r i ts a (knows_of v n)"
    by (rule guard_step [OF P(1,4,5,6) st h(1) knows_of_rising h(3,2)])
  moreover have "upto (stepped s t y M') r (knows_of v n)"
    by (rule upto_step [OF P(1,3,4) st knows_of_rising h(4) lv])
  ultimately show ?thesis
    unfolding covers_def stepped_parts(1) using later_step [OF pr st h(1) knows_of_rising h(4,3)] by blast
qed

text \<open>A new access is covered by the shield it is made under.\<close>

lemma covers_new:
  assumes pr: "protocol s" and sh: "shielded s t i x" and n: "n \<le> cur (mem s) t (Clock t)"
  shows "covers s (addr x) t n"
proof -
  obtain r where r: "rec (snd (thr s t)) = Some r" "shown (mem s) r i (addr x)" "guarded_by s r i (addr x)"
    using sh by (auto simp: shielded_def)
  have "upto s r (knows_of t n)"
    by (rule upto_holder [OF protocolD(3) [OF pr], of t]) (use r(1) n in \<open>simp_all add: in_hand_def knows_of_def\<close>)
  then show ?thesis
    using r(2,3) guard_weaken unfolding covers_def shown_def guarded_by_def
    by (intro exI [of _ r] exI [of _ i] exI [of _ "length (slot_msgs_of (mem s) r i)"]) auto
qed

lemma covered_step:
  fixes s :: "'a hp_state"
  assumes pr: "protocol s" and pr': "protocol (stepped s t y M')"
    and st: "mem_step t (client_act w (thr s t)) k (mem s) = Done y M'"
    and sh: "\<And>a. touched (client_act w (thr s t)) = Some (Next a) \<or> touched (client_act w (thr s t)) = Some (Value a) \<Longrightarrow>
      \<exists>i x. addr x = a \<and> shielded (stepped s t y M') t i x"
    and cv: "covered s"
  shows "covered (stepped s t y M')"
  unfolding covered_def stepped_parts(1)
proof (intro allI impI ballI)
  let ?M = "mem s"
  fix a l x assume lv': "live M' (Next a)" and l: "l \<in> {Next a, Value a}" and x: "x \<in> set (accs M' l (gen M' l))"
  obtain v n where vn: "x = (v, n)" by (meson surj_pair)
  note B = protocolD(1) [OF pr] and B' = protocolD(1) [OF pr', unfolded stepped_parts(1)]
  have "covers (stepped s t y M') a v n"
  proof (cases "touched (client_act w (thr s t)) = Some l \<and> v = t")
    case True
    then obtain i z where z: "addr z = a" "shielded (stepped s t y M') t i z" using sh [of a] l by auto
    have "n \<le> cur M' t (Clock t)" using timedD [OF baseD(3) [OF B']] x vn True by blast
    then show ?thesis using covers_new [OF pr' z(2)] z(1) True by simp
  next
    case False
    then have old: "(v, n) \<in> set (accs ?M l (gen M' l))" using step_accs_in [OF st, of v n l "gen M' l"] x vn by blast
    show ?thesis
    proof (cases "l \<in> allocs (client_act w (thr s t)) (fst k)")
      case False
      note al = step_allocs [OF baseD(1) [OF B] st False]
      have "live M' l" using lv' l baseD(4) [OF B'] by (auto simp: paired_def)
      then have "live ?M (Next a)" using al(1) l baseD(4) [OF B] by (auto simp: paired_def)
      then show ?thesis using covers_step [OF pr st coveredD [OF cv _ _ old [unfolded al(2)]]] l by blast
    next
      case True
      obtain p h where at: "thr s t = (p, h)" by (meson surj_pair)
      show ?thesis
      proof (cases "client_act w (thr s t)")
        case (New f)
        have "gen M' l = Suc (gen ?M l)"
        proof -
          from client_new [OF New] obtain e where e: "f = make_node e" using True l New by (auto simp: make_record_def make_orphan_def)
          then obtain u where u: "(l, u) \<in> set (make_node e (fst k) :: (domain_loc \<times> 'a cell) list)" using True New by auto
          have "M' = fold (birth t) (make_node e (fst k)) ?M" using st New e by (simp add: new_Done)
          then show ?thesis using fold_birth_new [OF _ u, of t ?M] by (simp add: make_node_def)
        qed
        then have "accs ?M l (gen M' l) = []" using timed_unborn [OF baseD(3) [OF B], of l "Suc (gen ?M l)"] by simp
        then show ?thesis using old by simp
      next
        case (Delete ls)
        have "live M' l" using lv' l baseD(4) [OF B'] by (auto simp: paired_def)
        then show ?thesis using now_delete [of t ls k ?M y M'] st Delete True by simp
      qed (use True in simp_all)
    qed
  qed
  then show "covers (stepped s t y M') a (fst x) (snd x)" using vn by simp
qed

end
