(* ===== verification/Hp_Inv.thy ===== *)
theory Hp_Inv imports Hp_Cover begin

text \<open>
  The invariant of the queue with its hazard pointers, for the operations that take a guard: some
  state of the leaky queue is mimicked, every node is where the layers below say, and every hazard
  holds.
\<close>

section \<open>Calls and synchronisation\<close>

text \<open>A change that starts no scan and takes away no knowledge.\<close>

definition calmer :: "'a hp_state \<Rightarrow> 'a hp_state \<Rightarrow> bool" where
  "calmer s s' \<longleftrightarrow>
     hist (mem s') = hist (mem s) \<and> gen (mem s') = gen (mem s) \<and> live (mem s') = live (mem s) \<and>
     accs (mem s') = accs (mem s) \<and> scv (mem s') = scv (mem s) \<and> (\<forall>u. cur (mem s) u \<le> cur (mem s') u) \<and>
     (\<forall>u. staked (thr s' u) = [] \<or> thr s' u = thr s u) \<and> (\<forall>u. rec (snd (thr s' u)) = rec (snd (thr s u)))"

lemma calmerD:
  assumes "calmer s s'"
  shows "hist (mem s') = hist (mem s)" "gen (mem s') = gen (mem s)" "live (mem s') = live (mem s)" "accs (mem s') = accs (mem s)"
    "scv (mem s') = scv (mem s)" "cur (mem s) u \<le> cur (mem s') u" "staked (thr s' u) = [] \<or> thr s' u = thr s u"
    "rec (snd (thr s' u)) = rec (snd (thr s u))"
  using assms by (auto simp: calmer_def)

lemma calm_longer: "hist M' = hist M \<Longrightarrow> longer M M'"
  by (simp add: longer_def recs_def)

lemma calm_guard:
  assumes c: "calmer s s'" and Q: "rising Q" and g: "guard s r i ts a Q"
  shows "guard s' r i ts a Q"
  unfolding guard_def
proof (intro allI impI)
  fix u assume rk: "risks (dom_pc (thr s' u)) (snd (thr s' u)) a"
  then have e: "thr s' u = thr s u" using calmerD(7) [OF c, of u] risks_staked [of "thr s' u" a] by auto
  from guardD [OF g rk [unfolded e]]
  show "watches (mem s') (cur (mem s') u) (dom_pc (thr s' u)) r i ts a \<or> Q (cur (mem s') u)"
    unfolding e using watches_later [OF _ calm_longer [OF calmerD(1) [OF c]] calmerD(6) [OF c]] risingD [OF Q calmerD(6) [OF c]] by blast
qed

lemma calm_posted: "calmer s s' \<Longrightarrow> posted (mem s') r i ts a = posted (mem s) r i ts a"
  by (simp add: posted_def recs_def calmerD)

lemma calm_shown: "calmer s s' \<Longrightarrow> shown (mem s') r i a = shown (mem s) r i a"
  by (simp add: shown_def posted_def recs_def calmerD)

lemma calm_guarded: "calmer s s' \<Longrightarrow> guarded_by s r i a \<Longrightarrow> guarded_by s' r i a"
  unfolding guarded_by_def by (simp add: calmerD(1) calm_guard rising_def)

lemma calm_live: "calmer s s' \<Longrightarrow> node_live (mem s') x = node_live (mem s) x"
  by (simp add: node_live_def calmerD)

lemma calm_hazards:
  assumes c: "calmer s s'" and ok: "hazards_ok s N u q" and e: "dom_pc (thr s' u) = dom_pc (thr s u)"
  shows "hazards_ok s' N u q"
proof -
  note D = hazards_okD [OF ok]
  have sh: "shielded s u i x \<Longrightarrow> shielded s' u i x" for i x
    unfolding shielded_def calmerD(8) [OF c] calm_shown [OF c] calm_live [OF c] using calm_guarded [OF c] by blast
  have cu: "cur (mem s) u d \<le> cur (mem s') u d" for d by (rule view_leD [OF calmerD(6) [OF c]])
  have re: "reserved s N u i src a \<Longrightarrow> reserved s' N u i src a" for i src a
    unfolding reserved_def calmerD(8) [OF c] calm_shown [OF c] calm_live [OF c]
    using calm_guarded [OF c] cu order.trans by blast
  have no: "noted_in s u i a \<Longrightarrow> noted_in s' u i a" for i a
    unfolding noted_in_def calmerD(8) [OF c] by (simp add: stored_def recs_def calmerD(1) [OF c])
  show ?thesis
    unfolding hazards_ok_def e
    by (intro conjI allI impI) (use sh [OF D(1)] re [OF D(2)] re [OF D(3)] no [OF D(4)] no [OF D(5)] in \<open>blast+\<close>)
qed

lemma calm_covers:
  assumes c: "calmer s s'" and u: "\<And>r. upto s r (knows_of v n) \<Longrightarrow> upto s' r (knows_of v n)" and cv: "covers s a v n"
  shows "covers s' a v n"
proof -
  obtain r i ts where h: "posted (mem s) r i ts a" "guard s r i ts a (knows_of v n)"
    "\<forall>m. ts \<le> m \<and> m < length (slot_msgs_of (mem s) r i) \<longrightarrow> knows_of v n (snd (slot_msgs_of (mem s) r i ! m))"
    "upto s r (knows_of v n)" using cv unfolding covers_def by blast
  show ?thesis
    unfolding covers_def calm_posted [OF c] calmerD(1) [OF c]
    using h(1,3) calm_guard [OF c knows_of_rising h(2)] u [OF h(4)] by blast
qed

lemma calm_covered:
  assumes c: "calmer s s'" and u: "\<And>r Q. rising Q \<Longrightarrow> upto s r Q \<Longrightarrow> upto s' r Q" and cv: "covered s"
  shows "covered s'"
  using cv calm_covers [OF c u [OF knows_of_rising]] unfolding covered_def calmerD(2-4) [OF c] by blast

lemma call_calmer:
  fixes s :: "'a hp_state"
  assumes cl: "client_call t x (thr s t) = Some (q, es)"
  shows "calmer s (called s t q es)" "dom_pc (thr s t) = None"
    "dom_pc q \<noteq> Some (P_check r i src p)" "dom_pc q \<noteq> Some (P_fence r i src p)" "dom_pc q \<noteq> Some S_fence"
proof -
  have "staked q = [] \<and> dom_pc (thr s t) = None \<and> rec (snd q) = rec (snd (thr s t)) \<and>
    dom_pc q \<noteq> Some (P_check r i src p) \<and> dom_pc q \<noteq> Some (P_fence r i src p) \<and> dom_pc q \<noteq> Some S_fence"
    using cl
  proof (cases rule: hp_call_cases)
    case (queue y h)
    then show ?thesis by (cases y) (simp_all add: staked_def)
  next
    case (drain h)
    then show ?thesis by (simp add: staked_def)
  next
    case (look h)
    then show ?thesis by (auto simp: staked_def)
  next
    case (exit h)
    have "(dom_pc (leave_thread h :: 'a client) = None \<and> rec (snd (leave_thread h :: 'a client)) = rec h \<or>
      (\<exists>d. dom_pc (leave_thread h :: 'a client) = Some d \<and> kind_of d = K_exit \<and> rec (snd (leave_thread h :: 'a client)) = rec h))"
    proof (cases "bag h = []")
      case True
      then show ?thesis by (cases "rec h") (simp_all add: leave_thread_def fresh_cache_def)
    qed (simp add: leave_thread_def)
    then show ?thesis using exit leave_thread_carries(3) [of h] by auto
  qed
  then show "calmer s (called s t q es)" "dom_pc (thr s t) = None"
    "dom_pc q \<noteq> Some (P_check r i src p)" "dom_pc q \<noteq> Some (P_fence r i src p)" "dom_pc q \<noteq> Some S_fence"
    by (auto simp: calmer_def)
qed

lemma sync_calmer: "calmer s (s\<lparr>mem := synchronize t u (mem s)\<rparr>)"
  by (simp add: calmer_def sync_cur)

section \<open>The invariant\<close>

definition safe_inv :: "'a \<Rightarrow> nat \<Rightarrow> 'a hp_state \<Rightarrow> 'a leaky_state \<Rightarrow> orphans \<Rightarrow> bool" where
  "safe_inv dflt d s sl A \<longleftrightarrow>
     protocol s \<and> leaky_reach dflt d sl \<and> mimics s sl \<and> orphans_ok s A \<and>
     items_ok s A (names d (trace sl)) (first (mem sl)) \<and> nodes_ok d s sl \<and>
     (\<forall>t. hazards_ok s (names d (trace sl)) t (fst (thr sl t))) \<and> covered s"

lemma safe_invD:
  assumes "safe_inv dflt d s sl A"
  shows "protocol s" "leaky_reach dflt d sl" "mimics s sl" "orphans_ok s A"
    "items_ok s A (names d (trace sl)) (first (mem sl))" "nodes_ok d s sl"
    "hazards_ok s (names d (trace sl)) t (fst (thr sl t))" "covered s"
  using assms by (auto simp: safe_inv_def)

lemma safe_inv_steady: "safe_inv dflt d s sl A \<Longrightarrow> steady (mem s) (fst (thr sl t))"
  using shielded_steady [of "fst (thr sl t)" s t] hazards_okD(1) [OF safe_invD(7) [of dflt d s sl A t]] nodes_okD(4) [OF safe_invD(6) [of dflt d s sl A], of t]
  by blast

text \<open>Which nodes the queue touches.\<close>

lemma queue_touches:
  assumes "touched (queue_act w R p) = Some (Next a) \<or> touched (queue_act w R p) = Some (Value a)" "\<And>r k. p \<noteq> Call r k"
  shows "(\<exists>n q. p = E_next n (Some a) \<or> p = E_link n (Some a) \<or> p = D_next (Some a) q \<or> p = D_value q (Some a)) \<or> p = M_next (Some a)"
  using assms by (cases p) (auto simp: deref_def split: option.splits)

lemma domain_spares_nodes:
  assumes "list_pc M t V d" "l = Next a \<or> l = Value a"
  shows "touched (domain_act d :: (domain_loc, 'a cell) action) \<noteq> Some l"
  using assms list_pcD(5) [OF assms(1)] by (cases d) (auto simp: delete_node_def split: option.splits)

lemma safe_inv_step:
  fixes s :: "'a hp_state"
  assumes cr: "safe_inv dflt d s sl A" and pr': "protocol (stepped s t y M')"
    and st: "mem_step t (client_act shipped (thr s t)) k (mem s) = Done y M'"
  shows "\<exists>sl' A'. safe_inv dflt d (stepped s t y M') sl' A'"
proof -
  let ?M = "mem s" let ?s' = "stepped s t y M'"
  note C = safe_invD [OF cr] and P = protocolD [OF safe_invD(1) [OF cr]]
  obtain p h where at: "thr s t = (p, h)" by (meson surj_pair)
  have st2: "mem_step t (client_act shipped (thr s t)) (fst k, snd k) ?M = Done y M'" using st by simp
  obtain sl' where lr': "leaky_reach dflt d sl'" and mi': "mimics ?s' sl'" and oth: "\<forall>u. u \<noteq> t \<longrightarrow> thr sl' u = thr sl u"
    and mv: "stayed s sl t sl' \<or> resumed sl t sl' \<or> checked d s sl t (fst k) sl' \<or> followed s sl t (snd k) M' (fst k) sl'"
    by (rule mimic_step [OF C(3,2) P(1,2,3) safe_inv_steady [OF cr] nodes_okD(1,2) [OF C(6)] st2])
  obtain X where X: "names d (trace sl') = names d (trace sl) @ X" "X = [] \<or> (\<exists>n. owned (fst (thr sl t)) = Some n \<and> X = [n])"
    "first (mem sl) \<le> first (mem sl')"
    using mimic_chain [OF leaky_reach_inv [OF C(2)] mv] by metis
  have no': "nodes_ok d ?s' sl'" by (rule nodes_step [OF P(1) C(3,2,5,6) at st oth mv])
  have oi': "orphans_ok ?s' (pass_on (domain_of p) y t A)" using orphans_step [OF P(1,2,4) C(4) st] at by simp
  have io': "items_ok ?s' (pass_on (domain_of p) y t A) (names d (trace sl')) (first (mem sl'))"
    unfolding X(1)
    by (rule items_step [OF P(1) C(4,5) at st X(3)])
      (use unlinked_item [OF P(1) C(3,2) lr' mi' C(5,6) at st mv] X(1) in auto)
  have fresh: "node_live M' n \<and> guarded_by ?s' r i (addr n)" if n: "n \<in> set X" for n r i
  proof -
    have Xn: "X = [n]" using X(2) n by auto
    let ?j = "length (names d (trace sl))"
    have nj: "names d (trace sl') ! ?j = n" "?j < length (names d (trace sl'))" using X(1) Xn by simp_all
    have F: "first (mem sl') \<le> ?j" using chain_facts(2) [OF mi' lr'] X(1) Xn by simp
    have lv: "node_live M' n" using nodes_okD(2) [OF no'] nj F by (auto simp: kept_alive_def)
    have "\<not> risks (dom_pc (thr ?s' u)) (snd (thr ?s' u)) (addr n)" for u
    proof
      assume "risks (dom_pc (thr ?s' u)) (snd (thr ?s' u)) (addr n)"
      then have "item_in M' (names d (trace sl')) (first (mem sl')) (scv M') (Some (addr n))"
        using items_okD(4) [OF io', of _ u] risks_staked [of "thr ?s' u" "addr n"] by simp
      then obtain j where j: "j < first (mem sl')" "j < length (names d (trace sl'))" "addr (names d (trace sl') ! j) = addr n"
        "node_live M' (names d (trace sl') ! j)" by (auto simp: item_in_def item_at_def)
      then have "names d (trace sl') ! j = names d (trace sl') ! ?j" using node_live_eq [OF j(4) lv] nj(1) by simp
      then show False using chain_facts(1) [OF mi' lr'] j(1,2) nj(2) F by (simp add: nth_eq_iff_index_eq)
    qed
    then have "guarded_by ?s' r i (addr n)" unfolding guarded_by_def guard_def by blast
    then show ?thesis using lv by simp
  qed
  have hz: "hazards_ok ?s' (names d (trace sl')) u (fst (thr sl' u))" for u
  proof (cases "u = t")
    case True
    then show ?thesis using hazards_own [OF C(1) pr' C(3) mi' C(2) lr' no' io' C(7) at st mv] by simp
  next
    case False
    then show ?thesis using hazards_other [OF C(1) st False fresh C(7) [of u]] oth X(1) by simp
  qed
  have cv: "covered ?s'"
  proof (rule covered_step [OF C(1) pr' st _ C(8)])
    fix a assume tc: "touched (client_act shipped (thr s t)) = Some (Next a) \<or> touched (client_act shipped (thr s t)) = Some (Value a)"
    show "\<exists>i x. addr x = a \<and> shielded ?s' t i x"
    proof (cases "domain_of p")
      case (Some e)
      have "list_pc ?M t (cur ?M t) e" using lists_invD(2) [OF P(4), of t] at Some by (simp add: list_thread_def)
      then show ?thesis using tc domain_spares_nodes client_domain_act [OF Some, of shipped h] at by fastforce
    next
      case None
      obtain q where q1: "p = In_queue q" using tc at None by (cases p) auto
      then have q2: "\<And>e k. q \<noteq> Call e k" using None by auto
      note q = q1 q2
      have tr: "q = pc_of (fst (thr sl t))" "guarded_pc (fst (thr sl t))" "\<And>r k. fst (thr sl t) \<noteq> Call r k"
        using mimicsD(2) [OF C(3), of t] tracks_queue [of q "fst (thr sl t)"] q at by auto
      have "(\<exists>n z. q = E_next n (Some a) \<or> q = E_link n (Some a) \<or> q = D_next (Some a) z \<or> q = D_value z (Some a)) \<or> q = M_next (Some a)"
        by (rule queue_touches [where w = shipped and R = hp_reclaimer]) (use tc at q in simp_all)
      then obtain i x where ix: "addr x = a" "(i, Some x) \<in> set (shields (fst (thr sl t)))"
        using tr(1,2) by (cases "fst (thr sl t)") auto
      have so: "shielded s t i x" by (rule hazards_okD(1) [OF C(7) ix(2)])
      have ns: "\<And>x k. p \<noteq> In_queue (Start x k)" using tc at q(1) by auto
      have "shielded ?s' t i x"
      proof (rule shielded_step [OF C(1) st _ _ so])
        show "rec (snd (thr ?s' t)) = rec (snd (thr s t))" using resume_else(2) [OF None ns, of h y] at by simp
        show "slot_msgs_of M' r i = slot_msgs_of ?M r i" if "rec (snd (thr s t)) = Some r" "i < kSlots" for r
          by (rule slot_kept [OF C(1) st that]) (simp add: at None)
      qed
      then show ?thesis using ix(1) by blast
    qed
  qed
  show ?thesis using pr' lr' mi' oi' io' no' hz cv unfolding safe_inv_def by blast
qed

text \<open>The start of an operation, and a synchronisation between threads.\<close>

lemma safe_inv_call:
  fixes s :: "'a hp_state"
  assumes cr: "safe_inv dflt d s sl A" and pr': "protocol (called s t q es)"
    and cl: "client_call t x (thr s t) = Some (q, es)" and ne: "x \<noteq> Queue_op Is_empty"
  shows "\<exists>sl'. safe_inv dflt d (called s t q es) sl' A"
proof -
  let ?s' = "called s t q es"
  note C = safe_invD [OF cr] and P = protocolD [OF safe_invD(1) [OF cr]]
  note cm = call_calmer [OF cl]
  obtain sl' where sl': "leaky_reach dflt d sl'" "mimics ?s' sl'" "\<forall>u. u \<noteq> t \<longrightarrow> thr sl' u = thr sl u"
    "mem sl' = mem sl" "names d (trace sl') = names d (trace sl)" "fst (thr sl t) = Idle"
    "fst (thr sl' t) = Idle \<or> fst (thr sl' t) = Start Guard KD_guard \<or> (\<exists>v. fst (thr sl' t) = E_new v)"
    by (rule mimic_call [OF C(3,2) cl ne])
  have hz: "hazards_ok ?s' (names d (trace sl')) u (fst (thr sl' u))" for u
  proof (cases "u = t")
    case True
    then show ?thesis using sl'(7) cm(3-5) unfolding hazards_ok_def by auto
  next
    case False
    then show ?thesis using calm_hazards [OF cm(1) C(7) [of u]] sl'(3,5) by simp
  qed
  have "covered ?s'" by (rule calm_covered [OF cm(1) upto_call [OF P(3) _ cl] C(8)])
  then have "safe_inv dflt d ?s' sl' A"
    using pr' sl'(1,2) orphans_call [OF C(4) cl] items_call [OF C(5) cl] nodes_call [OF C(6) sl'(3,4,5,7)] hz
    unfolding safe_inv_def sl'(4,5) by simp
  then show ?thesis by blast
qed

lemma safe_inv_sync:
  fixes s :: "'a hp_state"
  assumes cr: "safe_inv dflt d s sl A" and u: "fst (thr s u) = In_queue Idle"
    and pr': "protocol (s\<lparr>mem := synchronize t u (mem s)\<rparr>)"
  shows "\<exists>sl'. safe_inv dflt d (s\<lparr>mem := synchronize t u (mem s)\<rparr>) sl' A"
proof -
  let ?s' = "s\<lparr>mem := synchronize t u (mem s)\<rparr>"
  note C = safe_invD [OF cr]
  obtain sl' where sl': "leaky_reach dflt d sl'" "mimics ?s' sl'" "thr sl' = thr sl"
    "latest (mem sl') = latest (mem sl)" "trace sl' = trace sl"
    by (rule mimic_sync [OF C(3,2) u])
  have f: "first (mem sl') = first (mem sl)" by (simp add: first_def sl'(4))
  have hz: "hazards_ok ?s' (names d (trace sl')) v (fst (thr sl' v))" for v
    using calm_hazards [OF sync_calmer C(7) [of v]] sl'(3,5) by simp
  have "covered ?s'" by (rule calm_covered [OF sync_calmer upto_sync C(8)])
  then have "safe_inv dflt d ?s' sl' A"
    using pr' sl'(1,2) orphans_sync [OF C(4)] items_sync [OF C(5)] nodes_sync [OF C(6) sl'(3,4,5)] hz
    unfolding safe_inv_def f sl'(5) by simp
  then show ?thesis by blast
qed

lemma safe_inv_start: "safe_inv dflt (name a 1) (hp_queue_start dflt a) (leaky_start_state dflt (name a 1)) (\<lambda>_. [])"
proof -
  let ?s = "hp_queue_start dflt a" let ?l = "leaky_start_state dflt (name a 1)"
  have "fst (thr ?l u) = Idle" for u by (simp add: leaky_start_state_def queue_start_def)
  then have "hazards_ok ?s N u (fst (thr ?l u))" for N u by (simp add: hazards_ok_def hp_start_thr)
  moreover have "covered ?s" by (simp add: covered_def hp_start_memory(15))
  moreover have "protocol ?s" by (rule protocol_reach [OF reach_start])
  moreover have "leaky_reach dflt (name a 1) ?l" by (rule reach_start)
  ultimately show ?thesis
    unfolding safe_inv_def by (intro conjI allI mimic_start orphans_start items_start nodes_start)
qed

section \<open>The reachable states\<close>

text \<open>A run in which no thread asks the queue whether it is empty.\<close>

definition unasked :: "'a client_event list \<Rightarrow> bool" where
  "unasked tr \<longleftrightarrow> (\<forall>e \<in> set tr. \<forall>t. e \<noteq> Queue_event (Begin t Is_empty))"

lemma unasked_append [simp]: "unasked (xs @ ys) \<longleftrightarrow> unasked xs \<and> unasked ys"
  by (auto simp: unasked_def)

lemma asks:
  assumes "client_call t (Queue_op Is_empty) c = Some (q, es)" shows "\<not> unasked es"
  using assms by (cases rule: hp_call_cases) (auto simp: unasked_def)

lemma safe_inv_reach:
  fixes s :: "'a hp_state"
  assumes "reach (hp_queue shipped) (hp_queue_start dflt a) s" "unasked (trace s)"
  shows "\<exists>sl A. safe_inv dflt (name a 1) s sl A"
  using assms
proof (induction rule: reach.induct)
  case reach_start
  show ?case by (intro exI) (rule safe_inv_start)
next
  case (reach_step s c s')
  have pr': "protocol s'" by (rule protocol_reach [OF reach.reach_step [OF reach_step.hyps]])
  show ?case
    using reach_step.hyps(2)
  proof (cases rule: hp_exec_cases)
    case same
    then show ?thesis using reach_step by simp
  next
    case (step t k r M')
    have "unasked (trace s)" using reach_step.prems step(3) by simp
    then obtain sl A where "safe_inv dflt (name a 1) s sl A" using reach_step.IH by blast
    then show ?thesis using safe_inv_step [OF _ pr' [unfolded step(3)] step(2)] step(3) by blast
  next
    case (call t x q es)
    have ua: "unasked (trace s)" "unasked es" using reach_step.prems call(3) by simp_all
    obtain sl A where "safe_inv dflt (name a 1) s sl A" using reach_step.IH ua(1) by blast
    then show ?thesis using safe_inv_call [OF _ pr' [unfolded call(3)] call(2)] asks call(2) ua(2) call(3) by blast
  next
    case (sync t u)
    obtain sl A where "safe_inv dflt (name a 1) s sl A" using reach_step.IH reach_step.prems sync(3) by auto
    then show ?thesis using safe_inv_sync [OF _ sync(2) pr' [unfolded sync(3)]] sync(3) by blast
  qed
qed

end
