(* ===== verification/Hp_List_Props.thy ===== *)
theory Hp_List_Props imports Hp_Slots Ms_Queue_Safe begin

text \<open>
  What the invariants of the record list and of the slots give, for any memory orders of the queue
  and with every operation of the client: no access to a record is undefined, the list only grows,
  and a record is handed over together with all that was ever stored in it.
\<close>

fun record_loc :: "domain_loc \<Rightarrow> bool" where
  "record_loc (Aux (Slot_of r i)) = True"
| "record_loc (Aux (Active r)) = True"
| "record_loc (Aux (Next_record r)) = True"
| "record_loc (Aux Records) = True"
| "record_loc _ = False"

lemma store_defined:
  "live M l \<Longrightarrow> 0 < seen M t l \<Longrightarrow> latest M l \<le> seen M t l \<Longrightarrow> mem_step t (Store l v mo) c M \<noteq> Ub e"
  by (simp add: mem_step.simps guarded_Ub)

lemma write_defined:
  "live M l \<Longrightarrow> 0 < seen M t l \<Longrightarrow> quiet M t l \<Longrightarrow> mem_step t (Write l v) c M \<noteq> Ub e"
  by (simp add: mem_step.simps guarded_Ub)

lemma held_seen:
  assumes "list_ok M" "held M (cur M t) r"
  shows "i < kSlots \<Longrightarrow> live M (Aux (Slot_of r i)) \<and> 0 < seen M t (Aux (Slot_of r i))"
    "live M (Aux (Active r)) \<and> 0 < seen M t (Aux (Active r))"
    "live M (Aux (Next_record r)) \<and> 0 < seen M t (Aux (Next_record r)) \<and>
       latest M (Aux (Next_record r)) \<le> seen M t (Aux (Next_record r))"
  using held_usable [OF assms] by (simp_all add: seen_def)

lemma unlisted_write:
  assumes "list_ok M" "timed M" "unlisted M t (cur M t) r"
  shows "mem_step t (Write (Aux (Next_record r)) v) c M \<noteq> Ub e"
proof (rule write_defined)
  let ?l = "Aux (Next_record r)"
  have lv: "live M ?l" "gen M ?l = 1"
    using list_okD(1) [OF assms(1), of r] assms(3) by (auto simp: unlisted_def one_record_def)
  have k: "rec_known M (cur M t) r" "\<forall>x \<in> set (accs M ?l 1). fst x = t"
    using assms(3) by (simp_all add: unlisted_def)
  show "live M ?l" by (rule lv)
  show "0 < seen M t ?l" using k(1) lv by (simp add: rec_known_def seen_def place_def)
  have "n \<le> cur M t (Clock u)" if "(u, n) \<in> set (accs M ?l 1)" for u n
    using timedD [OF assms(2) that] k(2) that by auto
  then show "quiet M t ?l" using k(1) lv
    by (auto simp: quiet_def list_all_iff rec_known_def seen_def place_def latest_def msgs_def)
qed

section \<open>The properties\<close>

text \<open>
  No access to a hazard record, to its link or to the head of the list is undefined, whatever
  the threads do: records are published before they are reached, never freed, and stored to only by
  a holder that has seen every earlier store.
\<close>

lemma record_access_defined:
  assumes s: "reach (hp_queue w) (hp_queue_start dflt a) s"
    and l: "touched (client_act w (thr s t)) = Some l" "record_loc l"
  shows "mem_step t (client_act w (thr s t)) c (mem s) \<noteq> Ub e"
proof -
  let ?M = "mem s" let ?V = "cur (mem s) t"
  obtain p h where at: "thr s t = (p, h)" by (meson surj_pair)
  have ok: "list_ok ?M" by (rule lists_invD(1) [OF lists_reach [OF s]])
  have bs: "base ?M" by (rule base_reach [OF s])
  show ?thesis
  proof (cases "domain_of p")
    case None
    have "\<exists>x. l = Aux x" using l(2) by (cases l) auto
    then show ?thesis using outside_touches [OF None, of w h] l at by auto
  next
    case (Some d)
    have act: "client_act w (thr s t) = domain_act d" using at client_domain_act [OF Some] by simp
    have tl: "touched (domain_act d :: (domain_loc, 'a cell) action) = Some l" using l(1) act by simp
    have dk: "domain_ok (place_of p) d h"
      using domain_client_ok [OF Some] records_invD(2) [OF records_reach [OF s], of t] at by simp
    have pc: "list_pc ?M t ?V d" "\<And>q. rec h = Some q \<Longrightarrow> held ?M ?V q"
      using lists_invD(2) [OF lists_reach [OF s], of t] at Some by (auto simp: list_thread_def)
    have vis: "held ?M ?V r" if "visits d = Some r" for r
      using list_pcD(1) [OF pc(1) that] listed_held by blast
    have own: "held ?M ?V r \<and> knows_slots ?M r ?V" if "writes_record d = Some r" for r
    proof -
      have "rec h = Some r" using dk that by (simp add: domain_ok_def)
      then have r: "held ?M ?V r" "in_hand (thr s t) = Some r" using pc(2) at by (simp_all add: in_hand_def)
      show ?thesis
        using upto_held [OF slots_invD(1) [OF slots_reach [OF s] held_live [OF ok r(1)]] r(2)] r(1) by simp
    qed
    have store: "mem_step t (Store (Aux (Slot_of r i)) v mo) c ?M \<noteq> Ub e"
      if "writes_record d = Some r" "slot_no d = Some i" for r i v mo
    proof -
      have i: "i < kSlots" by (rule list_pcD(2) [OF pc(1) that(2)])
      note h = own [OF that(1)]
      note here = slot_here(3) [OF ok held_live [OF ok conjunct1 [OF h]] i]
      show ?thesis using held_usable(1) [OF ok conjunct1 [OF h] i] h i
        by (intro store_defined) (auto simp: seen_def latest_def here knows_slots_def)
    qed
    have rcs: "live ?M (Aux Records)" "0 < seen ?M t (Aux Records)" using baseD(5,7) [OF bs, of "Aux Records"] baseD(8) [OF bs, of "Aux Records"]
      by (simp_all add: seen_def Suc_le_eq)
    show ?thesis
      unfolding act
    proof (cases d)
      case (X_release r)
      note h = own [of r, unfolded X_release, simplified]
      note here = slot_here(5) [OF ok held_live [OF ok conjunct1 [OF h]], of 0, unfolded kSlots_def, simplified]
      show "mem_step t (domain_act d) c ?M \<noteq> Ub e"
        using held_usable(2-4) [OF ok conjunct1 [OF h]] h unfolding X_release domain_act.simps
        by (intro store_defined) (auto simp: seen_def latest_def here knows_slots_def)
    next
      case (A_link r q)
      then show "mem_step t (domain_act d) c ?M \<noteq> Ub e"
        using unlisted_write [OF ok baseD(3) [OF bs] list_pcD(3) [OF pc(1), of r]] by simp
    qed (use store vis rcs tl l(2) held_seen [OF ok vis] list_pcD(2,5) [OF pc(1)] in
        \<open>auto simp: load_defined cas_defined read_defined delete_node_def split: option.splits\<close>)
  qed
qed

lemma hp_two_reached:
  obtains s where "reach (hp_queue shipped) (hp_queue_start (0 :: nat) 7) s"
    "thr s 2 = (In_queue (Call (P_store 21 0 Tail (Some 7)) (KE_protect 10)), \<lparr>rec = Some 21, bag = []\<rparr>)"
  by (rule observe_reach [OF hp_two_table(2) [folded hp_observe]]) blast

text \<open>What following the list from a pointer yields.\<close>

fun follow :: "nat \<Rightarrow> (domain_loc, 'a cell) memory \<Rightarrow> nat option \<Rightarrow> nat list" where
  "follow 0 M p = []"
| "follow (Suc n) M None = []"
| "follow (Suc n) M (Some r) = r # follow n M (ptr (newest M (Aux (Next_record r))))"

lemma follow_from:
  assumes ok: "list_ok M"
  shows "k \<le> length (recs M) \<Longrightarrow> k \<le> n \<Longrightarrow>
    follow n M (if k = 0 then None else Some (recs M ! (k - 1))) = rev (take k (recs M))"
proof (induction k arbitrary: n)
  case 0
  then show ?case by (cases n) simp_all
next
  case (Suc k)
  obtain m where n: "n = Suc m" "k \<le> m" using Suc.prems(2) by (cases n) auto
  have k: "k < length (recs M)" using Suc.prems(1) by simp
  have "follow m M (if k = 0 then None else Some (recs M ! (k - 1))) = rev (take k (recs M))"
    using Suc.IH k n(2) by simp
  then show ?case using list_okD(5) [OF ok k] k n(1) by (simp add: take_Suc_conv_app_nth)
qed

text \<open>
  C18. The list of records is complete: following it from its newest head yields every record ever
  pushed, each once, the latest first.
\<close>

theorem record_list_complete:
  assumes "reach (hp_queue w) (hp_queue_start dflt a) s" and "length (recs (mem s)) \<le> n"
  shows "follow n (mem s) (ptr (newest (mem s) (Aux Records))) = rev (recs (mem s)) \<and> distinct (recs (mem s))"
proof -
  let ?M = "mem s"
  have ok: "list_ok ?M" by (rule lists_invD(1) [OF lists_reach [OF assms(1)]])
  have g: "gen ?M (Aux Records) = 1" by (rule baseD(6) [OF base_reach [OF assms(1)]]) simp
  have "fst (last (hist ?M (Aux Records) 1)) = last (Ptr None # map (\<lambda>r. Ptr (Some r)) (recs ?M))"
    using list_okD(3) [OF ok] last_map [of "hist ?M (Aux Records) 1" fst] by force
  also have "\<dots> = Ptr (if length (recs ?M) = 0 then None else Some (recs ?M ! (length (recs ?M) - 1)))"
    by (simp add: last_map last_conv_nth)
  finally have "ptr (newest ?M (Aux Records)) =
      (if length (recs ?M) = 0 then None else Some (recs ?M ! (length (recs ?M) - 1)))"
    by (simp add: newest_def msgs_def g)
  then show ?thesis using follow_from [OF ok order.refl assms(2)] list_okD(2) [OF ok] by simp
qed

theorem record_list_complete_witness:
  "\<exists>s. thr s 2 = (In_queue (Call (P_store 21 0 Tail (Some (7 :: nat))) (KE_protect 10)), \<lparr>rec = Some 21, bag = []\<rparr>) \<and>
     distinct (recs (mem (s :: nat hp_state))) \<and>
     follow (length (recs (mem s))) (mem s) (ptr (newest (mem s) (Aux Records))) = rev (recs (mem s))"
proof -
  obtain s where s: "reach (hp_queue shipped) (hp_queue_start (0 :: nat) 7) s"
    "thr s 2 = (In_queue (Call (P_store 21 0 Tail (Some 7)) (KE_protect 10)), \<lparr>rec = Some 21, bag = []\<rparr>)"
    by (rule hp_two_reached)
  then show ?thesis using record_list_complete [OF s(1) order.refl] by blast
qed

text \<open>
  A scan misses no hazard: a thread that has seen a store to a slot, which is what the fences
  of the protocol give it, finds the record of the slot in the list, whichever head of the list its
  load returns.
\<close>

lemma scan_finds_record:
  assumes s: "reach (hp_queue w) (hp_queue_start dflt a) s"
    and k: "k < length (recs (mem s))" "i < kSlots" "2 \<le> cur (mem s) t (slot_at (recs (mem s) ! k) i)"
    and st: "mem_step t (Load (Aux Records) mo) c (mem s) = Done y M'"
  shows "\<exists>n. y = Val (Ptr (Some (recs (mem s) ! n))) \<and> k \<le> n \<and> n < length (recs (mem s))"
proof -
  let ?M = "mem s"
  have ok: "list_ok ?M" by (rule lists_invD(1) [OF lists_reach [OF s]])
  have g: "gen ?M (Aux Records) = 1" by (rule baseD(6) [OF base_reach [OF s]]) simp
  have "reveals ?M (cur ?M t)" using reveal_reach [OF s] all_viewsD(1) unfolding reveal_inv_def by blast
  then have "k + 2 \<le> cur ?M t (At (Aux Records) 1)" using k by (simp add: reveals_def)
  then have c: "k + 2 \<le> fst c" "fst c \<le> latest ?M (Aux Records)" "y = Val (fst (msgs ?M (Aux Records) ! (fst c - 1)))"
    using st by (auto simp: load_Done seen_def place_def g)
  have "latest ?M (Aux Records) = Suc (length (recs ?M))"
    using arg_cong [OF list_okD(3) [OF ok], of length] by (simp add: latest_def msgs_def g)
  then have n: "fst c - 2 < length (recs ?M)" "k \<le> fst c - 2" "fst c - 1 = Suc (fst c - 2)" using c by simp_all
  then have "fst (msgs ?M (Aux Records) ! (fst c - 1)) = Ptr (Some (recs ?M ! (fst c - 2)))"
    using nth_tl_map [OF list_okD(3) [OF ok] n(1)] by (simp add: msgs_def g)
  then show ?thesis using n c(3) by blast
qed

end
