(* ===== verification/Hp_Safe.thy ===== *)
theory Hp_Safe imports Hp_Inv Hp_List_Props begin

text \<open>
  No access of the hazard-pointer queue is undefined, in a run in which no thread calls
  \<^verbatim>\<open>empty()\<close>: the queue's accesses are those of the leaky queue, to nodes that a hazard
  keeps alive; the records and the orphans are the domain's own; and when a scan deletes a node,
  every access to it happened before.
\<close>

section \<open>The queue\<close>

lemma queue_defined:
  assumes sh: "shadows M L" and bs: "base M" and sd: "steady M p" and gd: "guarded_pc p"
    and nc: "\<And>x k. p \<noteq> Start x k" "\<And>r k. p \<noteq> Call r k"
    and df: "\<And>c e. mem_step t (queue_act shipped leaky_reclaimer p) c L \<noteq> Ub e"
  shows "mem_step t (queue_act shipped hp_reclaimer (pc_of p)) c M \<noteq> Ub e"
proof -
  note pr = baseD(4) [OF bs]
  have ends: "live M Head" "0 < seen M t Head" "live M Tail" "0 < seen M t Tail"
    using baseD(5,8) [OF bs, of Head] baseD(5,8) [OF bs, of Tail] baseD(9,10) [OF bs, of t] by (simp_all add: seen_def)
  have nx: "live M (Next (addr x)) \<and> 0 < seen M t (Next (addr x))"
    if "node_live M x" "live L (Next x)" "0 < seen L t (Next x)" for x
    using here_msgs(6) [OF sh here_node(1) [OF sh pr that(1,2)], of t] that(1,3) by (simp add: node_live_def)
  have vl: "live M (Value (addr x)) \<and> 0 < seen M t (Value (addr x)) \<and> latest M (Value (addr x)) \<le> seen M t (Value (addr x))"
    if "node_live M x" "live L (Value x)" "0 < seen L t (Value x)" "latest L (Value x) \<le> seen L t (Value x)" for x
    using here_msgs(5) [OF sh here_node(2) [OF sh pr that(1,2)]] here_msgs(6) [OF sh here_node(2) [OF sh pr that(1,2)], of t] that pr by (simp add: node_live_def paired_def)
  have sv: "node_live M x" if "(i, Some x) \<in> set (shields p)" for i x using sd that by (auto simp: steady_def)
  have nf: "q \<noteq> None" if "queue_act shipped leaky_reclaimer p = deref q f" for q and f :: "nat \<Rightarrow> (unit loc, 'a cell) action"
    using df [of c Null_deref] that by (cases q) (simp_all add: deref_def)
  show ?thesis
  proof (cases p)
    case (E_next n q)
    then obtain x where q: "q = Some x" using nf by (cases q) auto
    have k: "live L (Next x)" "0 < seen L t (Next x)" using defined_known [OF df, of "Next x"] E_next q by (simp_all add: deref_def)
    show ?thesis using nx [OF sv [of 0 x] k] E_next q by (simp add: deref_def load_defined)
  next
    case (E_link n q)
    then obtain x where q: "q = Some x" using nf by (cases q) auto
    have k: "live L (Next x)" "0 < seen L t (Next x)" using defined_known [OF df, of "Next x"] E_link q by (simp_all add: deref_def)
    show ?thesis using nx [OF sv [of 0 x] k] E_link q by (simp add: deref_def cas_defined)
  next
    case (D_next q z)
    then obtain x where q: "q = Some x" using nf by (cases q) auto
    have k: "live L (Next x)" "0 < seen L t (Next x)" using defined_known [OF df, of "Next x"] D_next q by (simp_all add: deref_def)
    show ?thesis using nx [OF sv [of 0 x] k] D_next q by (simp add: deref_def load_defined)
  next
    case (D_value z q)
    then obtain x where q: "q = Some x" using nf by (cases q) auto
    have df': "mem_step t (Read (Value x)) c L \<noteq> Ub e" for c e using df [of c e] D_value q by (simp add: deref_def)
    have k: "live L (Value x)" "0 < seen L t (Value x)" using defined_known [OF df', of "Value x"] by simp_all
    show ?thesis using vl [OF sv [of 1 x] k read_known [OF df']] D_value q by (simp add: deref_def read_defined)
  qed (use gd nc ends in \<open>simp_all add: load_defined cas_defined new_defined\<close>)
qed

section \<open>Freeing\<close>

lemma delete_defined:
  "live M l \<Longrightarrow> live M l' \<Longrightarrow> quiet M t l \<Longrightarrow> quiet M t l' \<Longrightarrow> mem_step t (Delete [l, l']) c M \<noteq> Ub e"
  by (simp add: mem_step.simps)

lemma free_defined:
  fixes s :: "'a hp_state"
  assumes cr: "safe_inv dflt d s sl A" and pc: "dom_pc (thr s t) = Some (Sc_free k hs kept (Some a) rest n)"
  shows "mem_step t (Delete [Next a, Value a]) c (mem s) \<noteq> Ub e"
proof -
  let ?M = "mem s" let ?L = "mem sl" let ?V = "cur (mem s) t" let ?N = "names d (trace sl)"
  note C = safe_invD [OF cr] and P = protocolD [OF safe_invD(1) [OF cr]]
  note sh = mimicsD(1) [OF C(3)] and pr = baseD(4) [OF P(1)]
  have "Some a \<in> set (carries (thr s t))"
    using carries_domain [of "fst (thr s t)" _ "snd (thr s t)"] pc by simp
  then have "item_in ?M ?N (first ?L) ?V (Some a)" using items_okD(2) [OF C(5), of "Some a" "Some t"] by (simp add: holdings_simps)
  then obtain j where j: "j < length ?N" "addr (?N ! j) = a" "node_live ?M (?N ! j)"
    "2 \<le> ?V (shadow (Next (?N ! j)))" "1 \<le> ?V (shadow (Value (?N ! j)))"
    by (auto simp: item_in_def item_at_def)
  let ?x = "?N ! j"
  obtain h u where co: "core ?L (chain d (trace sl)) h u" by (rule queue_inv_core [OF leaky_reach_inv [OF C(2)]])
  have jn: "j < length (chain d (trace sl))" "?x = fst (chain d (trace sl) ! j)" using j(1) by (simp_all add: names_def)
  have na: "node_at ?L (chain d (trace sl) ! j) (links (chain d (trace sl)) j)" by (rule node_in_shape [OF co jn(1)])
  have hx: "here ?M (Next ?x) (Next a)" "here ?M (Value ?x) (Value a)"
    using here_node [OF sh pr j(3)] na by (simp_all add: node_at_def jn(2) flip: j(2))
  have "latest ?L (Next ?x) \<le> 2" using arg_cong [OF next_msgs [OF co jn(1)], of length] by (simp add: latest_def jn(2) links_def)
  moreover have "latest ?L (Value ?x) = 1" using na by (simp add: node_at_def latest_def msgs_def jn(2))
  ultimately have lt: "latest ?M (Next a) \<le> 2" "latest ?M (Value a) = 1" using here_msgs(5) [OF sh] hx by metis+
  have lv: "live ?M (Next a)" "live ?M (Value a)" using j(2,3) pr by (auto simp: node_live_def paired_def)
  have pl: "place ?M (Next a) = shadow (Next ?x)" "place ?M (Value a) = shadow (Value ?x)" using hx by (simp_all add: here_def)
  have ac: "m \<le> ?V (Clock v)" if "l = Next a \<or> l = Value a" "(v, m) \<in> set (accs ?M l (gen ?M l))" for l v m
    by (rule covers_free [OF P(7) coveredD [OF C(8) lv(1) that] pc])
  have "quiet ?M t (Next a)" "quiet ?M t (Value a)"
    using lt j(4,5) pl ac by (auto simp: quiet_def seen_def list_all_iff)
  then show ?thesis by (rule delete_defined [OF lv])
qed

section \<open>Every step\<close>

lemma rmw_defined: "live M l \<Longrightarrow> 0 < seen M t l \<Longrightarrow> mem_step t (Rmw l f mo) c M \<noteq> Ub e"
  by (simp add: mem_step.simps guarded_Ub Let_def)

lemma hp_step_defined:
  fixes s :: "'a hp_state"
  assumes rc: "reach (hp_queue shipped) (hp_queue_start dflt a) s" and ua: "unasked (trace s)"
  shows "mem_step t (client_act shipped (thr s t)) c (mem s) \<noteq> Ub e"
proof -
  let ?M = "mem s"
  obtain sl A where cr: "safe_inv dflt (name a 1) s sl A" using safe_inv_reach [OF rc ua] by blast
  note C = safe_invD [OF cr] and P = protocolD [OF safe_invD(1) [OF cr]]
  obtain p h where at: "thr s t = (p, h)" by (meson surj_pair)
  have al: "live ?M l \<and> 0 < seen ?M t l" if "l \<in> always" for l
    using baseD(5,7,8) [OF P(1) that] by (simp add: seen_def Suc_le_eq)
  show ?thesis
  proof (cases "domain_of p")
    case (Some d)
    have act: "client_act shipped (thr s t) = domain_act d" using at client_domain_act [OF Some] by simp
    have pc: "list_pc ?M t (cur ?M t) d" using lists_invD(2) [OF P(4), of t] at Some by (simp add: list_thread_def)
    have dm: "dom_pc (thr s t) = Some d" using at Some by simp
    show ?thesis
    proof (cases "\<exists>q. accesses d = Some q")
      case True
      then show ?thesis using orphan_defined [OF P(1) C(4), of t d _ c e] Some at act by auto
    next
      case False
      show ?thesis
      proof (cases "\<exists>l. touched (domain_act d :: (domain_loc, 'a cell) action) = Some l \<and> record_loc l")
        case True
        then show ?thesis using record_access_defined [OF rc] act by metis
      next
        case nr: False
        show ?thesis
          unfolding act
        proof (cases d)
          case (Sc_free k hs kept q rest n)
          show "mem_step t (domain_act d) c ?M \<noteq> Ub e"
            using free_defined [OF cr, of t k hs kept _ rest n c e] dm Sc_free by (cases q) (simp_all add: delete_node_def)
        qed (use nr False al list_pcD(5) [OF pc] in
            \<open>auto simp: load_defined cas_defined rmw_defined new_defined\<close>)
      qed
    qed
  next
    case None
    show ?thesis
    proof (cases "\<exists>q. p = In_queue q \<and> (\<forall>x k. q \<noteq> Start x k)")
      case True
      then obtain q where q: "p = In_queue q" "\<And>x k. q \<noteq> Start x k" by blast
      have nc: "\<And>r k. q \<noteq> Call r k" using None q(1) by auto
      obtain q' where q': "thr sl t = (q', ())" by (metis old.unit.exhaust surj_pair)
      have tr: "q = pc_of q'" "\<And>r k. q' \<noteq> Call r k" "guarded_pc q'"
        using mimicsD(2) [OF C(3), of t] at q' q(1) tracks_queue [of q q'] nc by auto
      have ns: "q' \<noteq> Start x k" for x k using q(2) [of "rop_of x" "cont_of k"] tr(1) by auto
      have df: "mem_step t (queue_act shipped leaky_reclaimer q') c (mem sl) \<noteq> Ub e" for c e
        using step_defined [OF leaky_reach_inv [OF C(2)], of t c e] q' by (simp add: leaky_queue_def ms_queue_def)
      have "steady ?M q'" using safe_inv_steady [OF cr, of t] q' by simp
      then show ?thesis
        using queue_defined [OF mimicsD(1) [OF C(3)] P(1) _ tr(3) ns tr(2) df] at q(1) tr(1) by simp
    next
      case False
      then show ?thesis using None at al by (cases p) (auto simp: load_defined)
    qed
  qed
qed

end
