(* ===== verification/Hp_Queue_Props.thy ===== *)
theory Hp_Queue_Props imports Hp_Safe Fifo begin

text \<open>
  What \<^verbatim>\<open>ms_queue<T, hp_reclaimer>\<close> promises the threads that use it together with the
  domain's own operations and thread exit, and leave \<^verbatim>\<open>empty()\<close> alone: the contract of
  theory Fifo, and the refinement of the queue that never frees a node.
\<close>

section \<open>Elements in memory\<close>

definition hp_elements :: "'a hp_state \<Rightarrow> (node \<times> 'a) list" where
  "hp_elements s = items (length (trace s)) (mem s) (head_of (mem s))"

fun split_name :: "node \<times> 'a \<Rightarrow> node \<times> 'a" where
  "split_name ((x, g), v) = ((addr x, born x), v)"

lemma events_of:
  "enqueued (map event_of tr) = map split_name (enqueued tr)"
  "dequeued (map event_of tr) = map split_name (dequeued tr)"
  by (induction tr rule: enqueued.induct) simp_all

lemma value_shadow:
  assumes sh: "shadows M L" and h: "here M (Value x) (Value (addr x))" and ty: "typed M" and one: "latest L (Value x) = 1"
  shows "value_of L x = value_of M (addr x)"
proof -
  note hm = here_msgs(4,5) [OF sh h]
  obtain m m' where m: "msgs L (Value x) = [m]" "msgs M (Value (addr x)) = [m']" "fst m' = forget (fst m)"
    using hm one by (auto simp: latest_def length_Suc_conv alike_def list_all2_Cons1)
  have "\<exists>w. fst m' = Dat w"
    using typed_msg [OF ty, of 1 "Value (addr x)"] m(2) by (cases "fst m'") (simp_all add: latest_def)
  then show ?thesis using m by (cases "fst m") (auto simp: value_of_def)
qed

lemma last_shadow:
  assumes sh: "shadows M L" and h: "here M l l'" and ne: "msgs L l \<noteq> []"
  shows "fst (last (msgs M l')) = forget (fst (last (msgs L l)))"
proof -
  note hm = here_msgs(4) [OF sh h]
  have "length (msgs L l) = length (msgs M l')" using hm by (rule list_all2_lengthD)
  moreover from this have "msgs M l' \<noteq> []" using ne by auto
  ultimately show ?thesis using alike_nth [OF hm, of "length (msgs L l) - 1"] ne by (simp add: last_conv_nth)
qed

lemma ptr_forget: "ptr (forget v) = map_option addr (ptr v)"
  by (cases v) simp_all

lemma shadow_items:
  fixes M :: "(domain_loc, 'a cell) memory"
  assumes sh: "shadows M L" and bs: "base M" and ty: "typed M" and co: "core L N h t"
    and lv: "\<And>i. h \<le> i \<Longrightarrow> i < length N \<Longrightarrow> node_live M (fst (N ! i))"
  shows "h \<le> i \<Longrightarrow> i < length N \<Longrightarrow>
    items k M (Some (addr (fst (N ! i)))) = map split_name (items k L (Some (fst (N ! i))))"
proof (induction k arbitrary: i)
  case (Suc k)
  note pr = baseD(4) [OF bs]
  let ?x = "fst (N ! i)"
  have na: "node_at L (N ! j) (links N j)" if "j < length N" for j by (rule node_in_shape [OF co that])
  have hx: "here M (Next ?x) (Next (addr ?x))"
    by (rule here_node(1) [OF sh pr lv [OF Suc.prems]]) (use na [OF Suc.prems(2)] in \<open>simp add: node_at_def\<close>)
  have ms: "map fst (msgs L (Next ?x)) = links N i" by (rule next_msgs [OF co Suc.prems(2)])
  then have ne: "msgs L (Next ?x) \<noteq> []" by (auto simp: links_def split: if_splits)
  have ll: "fst (last (msgs L (Next ?x))) = last (links N i)" using last_map [OF ne, of fst] ms by simp
  have lm: "ptr (fst (last (msgs M (Next (addr ?x))))) = map_option addr (ptr (last (links N i) :: 'a cell))"
    unfolding last_shadow [OF sh hx ne] ptr_forget ll by (rule refl)
  show ?case
  proof (cases "Suc i < length N")
    case False
    then show ?thesis using lm ll by (simp add: links_def)
  next
    case True
    let ?y = "fst (N ! Suc i)"
    have ly: "node_live M ?y" using lv True Suc.prems(1) by simp
    have hy: "here M (Value ?y) (Value (addr ?y))" "latest L (Value ?y) = 1"
      using here_node(2) [OF sh pr ly] na [OF True] by (simp_all add: node_at_def latest_def msgs_def)
    have "value_of L ?y = value_of M (addr ?y)" by (rule value_shadow [OF sh hy(1) ty hy(2)])
    then show ?thesis
      using lm ll Suc.IH [of "Suc i"] Suc.prems True ly by (simp add: links_def node_live_def)
  qed
qed simp

lemma safe_inv_elements:
  fixes s :: "'a hp_state"
  assumes cr: "safe_inv dflt d s sl A"
  shows "hp_elements s = map split_name (elements sl)"
proof -
  let ?N = "chain d (trace sl)" let ?M = "mem s" let ?L = "mem sl"
  note C = safe_invD [OF cr] and P = protocolD [OF safe_invD(1) [OF cr]]
  note sh = mimicsD(1) [OF C(3)]
  obtain h t where co: "core ?L ?N h t" "elements sl = contents ?L ?N h"
    by (rule inv_elements [OF leaky_reach_inv [OF C(2)]])
  have h: "h < length ?N" using core_shape [OF co(1)] by (simp add: shape_def)
  have lv: "node_live ?M (fst (?N ! i))" if "h \<le> i" "i < length ?N" for i
    using nodes_okD(2) [OF C(6)] that first_core [OF co(1)] by (auto simp: kept_alive_def names_def)
  have "length (concat (map queue_event tr)) \<le> length tr" for tr :: "'a client_event list"
  proof (induction tr)
    case (Cons e tr)
    then show ?case by (cases e) auto
  qed simp
  then have "length (trace sl) \<le> length (trace s)"
    using arg_cong [OF mimicsD(3) [OF C(3)], of length] by (metis length_map queue_events_def)
  then have "length ?N \<le> Suc h + length (trace s)"
    using length_enqueued [of "trace sl"] by (simp add: chain_enqueued)
  then have el: "items (length (trace s)) ?L (Some (fst (?N ! h))) = elements sl"
    using items_from [OF co(1) h] co(2) by (simp add: contents_def)
  have "head_of ?M = Some (addr (fst (?N ! h)))"
  proof -
    have ne: "msgs ?L Head \<noteq> []" using head_hist(2) [OF co(1)] by (auto simp: latest_def)
    have "ptr (fst (last (msgs ?M Head))) = map_option addr (ptr (fst (last (msgs ?L Head))))"
      unfolding last_shadow [OF sh here_ends(1) [OF P(1)] ne] ptr_forget ..
    then show ?thesis using head_of_core [OF co(1)] by (simp add: head_of_def)
  qed
  then show ?thesis
    using shadow_items [OF sh P(1,2) co(1) lv order.refl h, of "length (trace s)"] el by (simp add: hp_elements_def)
qed

section \<open>The contract\<close>

text \<open>The queue as the threads use it that do not call \<^verbatim>\<open>empty()\<close>, whose contract is
  quiesced states only.\<close>

definition hp_users :: "orders \<Rightarrow> (domain_loc, 'a cell, 'a client, 'a client_op, 'a client_event) program" where
  "hp_users w = (hp_queue w)\<lparr>call := \<lambda>t x c. if x = Queue_op Is_empty then None else client_call t x c\<rparr>"

lemma users_exec:
  "exec (hp_users w) c s = (if \<exists>t. c = Invoke t (Queue_op Is_empty) then Running s else exec (hp_queue w) c s)"
proof (cases c)
  case (Step t k b)
  then show ?thesis
    by (cases "mem_step t (client_act w (thr s t)) (k, b) (mem s)") (simp_all add: hp_users_def hp_queue_def)
qed (simp_all add: hp_users_def hp_queue_def)

lemma unasked_exec:
  assumes "exec (hp_queue w) c s = Running s'" "unasked (trace s)" "\<And>t. c \<noteq> Invoke t (Queue_op Is_empty)"
  shows "unasked (trace s')"
  using assms(1)
proof (cases rule: hp_exec_cases)
  case (step t k r M')
  have "unasked (client_log t (thr s t) r (mem s))"
  proof -
    obtain p h where at: "thr s t = (p, h)" by (meson surj_pair)
    have "unasked (domain_note t d h)" for d by (cases d) (simp_all add: unasked_def)
    moreover have "unasked (map Queue_event (queue_note t (q, h) r (mem s)))" for q
      by (cases q) (auto simp: unasked_def)
    ultimately show ?thesis unfolding at
      by (cases "(t, (p, h), r, mem s)" rule: client_log.cases) (auto simp: unasked_def)
  qed
  then show ?thesis using step(3) assms(2) by simp
next
  case (call t x q es)
  have "unasked es" using call(2)
  proof (cases rule: hp_call_cases)
    case (queue y h)
    then show ?thesis using assms(3) call(1) by (auto simp: unasked_def)
  qed (auto simp: unasked_def)
  then show ?thesis using call(3) assms(2) by simp
qed (use assms(2) in simp_all)

lemma hp_exec_defined:
  fixes s :: "'a hp_state"
  assumes "reach (hp_queue shipped) (hp_queue_start dflt a) s" "unasked (trace s)"
  shows "exec (hp_queue shipped) c s \<noteq> Crashed e"
proof (cases c)
  case (Step t k b)
  then show ?thesis using hp_step_defined [OF assms, of t "(k, b)"]
    by (cases "mem_step t (client_act shipped (thr s t)) (k, b) (mem s)") (auto simp: hp_queue_def)
qed (simp_all split: option.split)

lemma hp_accounts:
  fixes s :: "'a hp_state"
  assumes "reach (hp_queue shipped) (hp_queue_start dflt a) s" "unasked (trace s)"
  shows "enqueued (queue_events (trace s)) = dequeued (queue_events (trace s)) @ hp_elements s"
proof -
  obtain sl A where cr: "safe_inv dflt (name a 1) s sl A" using safe_inv_reach [OF assms] by blast
  note C = safe_invD [OF cr]
  show ?thesis
    unfolding mimicsD(3) [OF C(3)] events_of safe_inv_elements [OF cr] leaky_fifo.reach_fifo [OF C(2)] by simp
qed

interpretation hp: fifo_system "hp_users shipped" "hp_queue_start dflt a"
    "\<lambda>s. reach (hp_queue shipped) (hp_queue_start dflt a) s \<and> unasked (trace s)"
    "\<lambda>tr. enqueued (queue_events tr)" "\<lambda>tr. dequeued (queue_events tr)" hp_elements for dflt :: 'a and a :: nat
proof (unfold_locales, goal_cases)
  case 1
  then show ?case by (simp add: reach_start unasked_def hp_start_thr)
next
  case (2 s c s')
  then show ?case using unasked_exec [of shipped c s s'] reach_step
    by (auto simp: users_exec split: if_splits)
next
  case (3 s c e)
  then show ?case using hp_exec_defined [of dflt a s c e] by (auto simp: users_exec)
next
  case (4 s)
  then show ?case using hp_accounts [of dflt a s] by simp
qed

lemma users_run:
  assumes "\<forall>t. Invoke t (Queue_op Is_empty) \<notin> set cs"
  shows "run (hp_queue w) cs s = run (hp_users w) cs s"
  using assms
proof (induction cs arbitrary: s)
  case (Cons c cs)
  then have "exec (hp_users w) c s = exec (hp_queue w) c s" by (auto simp: users_exec)
  then show ?case using Cons by (auto split: verdict.split)
qed simp

lemma users_reach:
  fixes s :: "'a hp_state"
  assumes "reach (hp_queue w) s0 s" "unasked (trace s)"
  shows "reach (hp_users w) s0 s"
  using assms
proof (induction rule: reach.induct)
  case (reach_step s c s')
  show ?case
  proof (cases "\<exists>t. c = Invoke t (Queue_op Is_empty)")
    case True
    then obtain t where c: "c = Invoke t (Queue_op Is_empty)" by blast
    from reach_step.hyps(2) have "s' = s"
    proof (cases rule: hp_exec_cases)
      case (call u x q es)
      then show ?thesis using c asks [of u "thr s u" q es] reach_step.prems by auto
    qed (simp_all add: c)
    then show ?thesis using reach_step by simp
  next
    case False
    have "unasked (trace s)" using reach_step.hyps(2) reach_step.prems by (cases rule: hp_exec_cases) simp_all
    then have "reach (hp_users w) s0 s" by (rule reach_step.IH)
    then show ?thesis by (rule reach.reach_step [where c = c]) (use reach_step.hyps(2) False in \<open>simp add: users_exec\<close>)
  qed
qed (rule reach_start)

section \<open>The properties\<close>

text \<open>
  C3. No schedule of threads that enqueue, dequeue, drain, read the counters and exit has undefined
  behaviour: with the orders of the code no node, record or orphan is accessed before it is
  published, after it was freed, or in a race, and none is freed twice.
\<close>

theorem hp_no_undefined:
  "\<forall>t. Invoke t (Queue_op Is_empty) \<notin> set cs \<Longrightarrow>
     run (hp_queue shipped) cs (hp_queue_start dflt a) \<noteq> Crashed e"
  unfolding users_run by (rule hp.run_not_crashed)

theorem hp_no_undefined_witness:
  "run (hp_queue shipped) (hp_enqueue @ hp_dequeue @ hp_drain) (hp_queue_start (0 :: nat) 7) \<noteq> Crashed Use_after_free"
  by (rule hp_no_undefined) (simp add: hp_enqueue_def hp_dequeue_def hp_drain_def go_def)

text \<open>
  C4. Freeing nodes changes nothing that a caller can see: every run of the queue with hazard
  pointers in which no thread has called \<^verbatim>\<open>empty()\<close> so far (\<open>unasked\<close>: not even between other
  operations, where the code allows it) has the calls, publications and returns of a run of the queue that never frees a node,
  a node of the latter standing for an address and its how-manieth allocation.
\<close>

theorem hp_refines_leaky:
  fixes s :: "'a hp_state"
  assumes "reach (hp_queue shipped) (hp_queue_start dflt a) s" and "unasked (trace s)"
  shows "\<exists>sl. reach (leaky_queue shipped) (leaky_start_state dflt (name a 1)) sl \<and>
    queue_events (trace s) = map event_of (trace sl)"
proof -
  obtain sl A where cr: "safe_inv dflt (name a 1) s sl A" using safe_inv_reach [OF assms] by blast
  show ?thesis using safe_invD(2,3) [OF cr] mimicsD(3) by blast
qed

lemma hp_demo_reached:
  obtains s where "reach (hp_queue shipped) (hp_queue_start (0 :: nat) 7) s" "trace s = hp_demo_trace"
  by (rule observe_reach [OF hp_demo_table [folded hp_observe]]) blast

lemma hp_demo_unasked: "unasked hp_demo_trace"
  by (simp add: unasked_def hp_demo_trace_def)

theorem hp_refines_leaky_witness:
  "\<exists>sl. reach (leaky_queue shipped) (leaky_start_state (0 :: nat) (name 7 1)) sl \<and> length (trace sl) = 6 \<and>
     map event_of (trace sl) = queue_events hp_demo_trace"
proof -
  obtain s where s: "reach (hp_queue shipped) (hp_queue_start (0 :: nat) 7) s" "trace s = hp_demo_trace"
    by (rule hp_demo_reached)
  obtain sl where sl: "reach (leaky_queue shipped) (leaky_start_state (0 :: nat) (name 7 1)) sl"
    "queue_events (trace s) = map event_of (trace sl)"
    using hp_refines_leaky [OF s(1)] hp_demo_unasked s(2) by auto
  have "length (trace sl) = length (queue_events (trace s))" by (simp add: sl(2))
  also have "\<dots> = 6" by (simp add: s(2) hp_demo_trace_def queue_events_def)
  finally have "length (trace sl) = 6" .
  then show ?thesis using sl s(2) by (intro exI [of _ sl]) simp
qed

text \<open>
  C5. First in first out, with nodes freed and their addresses used again, at every point of a run in
  which no thread has called \<^verbatim>\<open>empty()\<close> so far (\<open>unasked\<close>): what has been enqueued is, in order,
  what has been dequeued followed by what a walk from \<^verbatim>\<open>head_\<close> finds in memory.
\<close>

theorem hp_fifo:
  fixes s :: "'a hp_state"
  assumes "reach (hp_queue shipped) (hp_queue_start dflt a) s" and "unasked (trace s)"
  shows "enqueued (queue_events (trace s)) = dequeued (queue_events (trace s)) @ hp_elements s"
  by (rule hp.reach_fifo [OF users_reach [OF assms]])

theorem hp_fifo_witness:
  "\<exists>s. trace (s :: nat hp_state) = hp_demo_trace \<and> dequeued (queue_events hp_demo_trace) = [((9, 1), 42)] \<and> hp_elements s = []"
proof -
  obtain s where s: "reach (hp_queue shipped) (hp_queue_start (0 :: nat) 7) s" "trace s = hp_demo_trace"
    by (rule hp_demo_reached)
  have "enqueued (queue_events (trace s)) = dequeued (queue_events (trace s)) @ hp_elements s"
    by (rule hp_fifo [OF s(1)]) (simp add: s(2) hp_demo_unasked)
  then show ?thesis using s(2) by (intro exI [of _ s]) (simp add: hp_demo_trace_def queue_events_def)
qed









end
