(* ===== verification/Hp_Bound.thy ===== *)
theory Hp_Bound imports Hp_Inv begin

text \<open>
  How much garbage a thread can hold.  The counter of records is never behind the list, so that a
  scan notes at most two hazards for each record counted, keeps no more nodes than hazards, and
  leaves the bag below the threshold of the next scan.
\<close>

section \<open>The counter of records\<close>

definition created :: "(domain_loc, 'a cell) memory \<Rightarrow> nat" where
  "created M = length (hist M (Aux Nrecords) 1) - 1"

fun counting :: "domain_pc option \<Rightarrow> bool" where
  "counting (Some (A_top r)) = True"
| "counting (Some (A_link r e)) = True"
| "counting (Some (A_push r e)) = True"
| "counting _ = False"

definition counts_ok :: "'a hp_state \<Rightarrow> bool" where
  "counts_ok s \<longleftrightarrow>
     map fst (hist (mem s) (Aux Nrecords) 1) = map (\<lambda>n. Num (of_nat n)) [0..<Suc (created (mem s))] \<and>
     finite {u. counting (domain_of (fst (thr s u)))} \<and>
     length (recs (mem s)) + card {u. counting (domain_of (fst (thr s u)))} \<le> created (mem s)"

lemma counts_okD:
  assumes "counts_ok s"
  shows "map fst (hist (mem s) (Aux Nrecords) 1) = map (\<lambda>n. Num (of_nat n)) [0..<Suc (created (mem s))]"
    "finite {u. counting (domain_of (fst (thr s u)))}"
    "length (recs (mem s)) + card {u. counting (domain_of (fst (thr s u)))} \<le> created (mem s)"
  using assms by (auto simp: counts_ok_def)

lemma not_counting:
  "\<not> counting (onward (snd (leave h)))" "\<not> counting (onward (snd (scan_done k h)))"
  "\<not> counting (onward (snd (adopt_next k b h)))" "\<not> counting (onward (snd (sweep k hs kept ps n h)))"
proof -
  show l: "\<not> counting (onward (snd (leave h)))" by (cases "bag h"; cases "rec h") simp_all
  show s: "\<not> counting (onward (snd (scan_done k h)))" using l by (cases k) (simp_all del: leave.simps)
  show "\<not> counting (onward (snd (adopt_next k b h)))" using s by (auto simp: adopt_next_def split: option.split)
  show "\<not> counting (onward (snd (sweep k hs kept ps n h)))"
    by (induction ps arbitrary: kept) auto
qed

text \<open>Who is between counting a record and pushing it.\<close>

lemma counting_step:
  "counting (domain_of (fst (client_resume (p, h) y))) \<longleftrightarrow>
     (case domain_of p of Some (A_count r) \<Rightarrow> True | Some (A_push r e) \<Rightarrow> \<not> won y | od \<Rightarrow> counting od)"
proof (cases "domain_of p")
  case None
  show ?thesis
  proof (cases "\<exists>x k. p = In_queue (Start x k)")
    case True
    then obtain x k where p: "p = In_queue (Start x k)" by blast
    show ?thesis unfolding p resume_start by (cases x) auto
  next
    case False
    then show ?thesis using resume_else(1) [OF None, of h y] None by simp
  qed
next
  case (Some d)
  show ?thesis
    unfolding resume_domain(1) [OF Some] Some
    by (cases d) (auto simp: not_counting try_record_def got_record_def snapshot_next_def simp del: leave.simps split: option.split)
qed

lemma nrecords_step:
  assumes b: "base M" and st: "mem_step t (client_act w (p, h)) k M = Done y M'"
  shows "if \<exists>r. domain_of p = Some (A_count r)
    then \<exists>W. hist M' (Aux Nrecords) 1 = hist M (Aux Nrecords) 1 @ [(add_to 1 (fst (last (hist M (Aux Nrecords) 1))), W)]
    else hist M' (Aux Nrecords) 1 = hist M (Aux Nrecords) 1"
proof (cases "\<exists>r. domain_of p = Some (A_count r)")
  case True
  then obtain r where r: "domain_of p = Some (A_count r)" by blast
  have st': "mem_step t (Rmw (Aux Nrecords) (add_to 1) relaxed) k M = Done y M'"
    using st client_domain_act [OF r, of w h] by simp
  have ms: "msgs M (Aux Nrecords) = hist M (Aux Nrecords) 1" "gen M (Aux Nrecords) = 1"
    using baseD(6) [OF b, of "Aux Nrecords"] by (simp_all add: msgs_def)
  have "0 < latest M (Aux Nrecords)"
    using st' seen_le_latest [OF baseD(1) [OF b], of t "Aux Nrecords"] by (auto simp: rmw_Done)
  then have ne: "hist M (Aux Nrecords) 1 \<noteq> []" by (auto simp: latest_def ms)
  have "M' = rmw_at t (Aux Nrecords) (add_to 1 (fst (last (hist M (Aux Nrecords) 1)))) relaxed M"
    using st' ne by (simp add: rmw_Done Let_def latest_def ms last_conv_nth)
  then have "hist M' (Aux Nrecords) 1 = hist M (Aux Nrecords) 1 @
      [(add_to 1 (fst (last (hist M (Aux Nrecords) 1))), swapped t (Aux Nrecords) relaxed M)]"
    by (simp add: rmw_at_hist ms)
  then show ?thesis using True by auto
next
  case False
  have "Aux Nrecords \<notin> writes (client_act w (p, h)) (fst k)"
  proof (cases "domain_of p")
    case None
    then show ?thesis using queue_writes [of _ Nrecords w "fst k"] by (cases p) auto
  next
    case (Some d)
    then show ?thesis using False client_domain_act [OF Some, of w h]
      by (cases d) (auto simp: delete_node_def make_record_def make_orphan_def split: option.splits)
  qed
  then show ?thesis using step_frame(1) [OF baseD(1) [OF b] st] False by simp
qed

lemma recs_step:
  assumes b: "base M" and st: "mem_step t (client_act w (p, h)) k M = Done y M'"
  shows "length (recs M') = length (recs M) +
    (case domain_of p of Some (A_push r e) \<Rightarrow> of_bool (won y) | _ \<Rightarrow> 0) \<or> hist M (Aux Records) 1 = []"
proof (cases "\<exists>r e. domain_of p = Some (A_push r e)")
  case True
  then obtain r e where r: "domain_of p = Some (A_push r e)" by blast
  have st': "mem_step t (Cas True (Aux Records) (Ptr e) (Ptr (Some r)) release relaxed) k M = Done y M'"
    using st client_domain_act [OF r, of w h] by simp
  have g: "gen M (Aux Records) = 1" using baseD(6) [OF b, of "Aux Records"] by simp
  show ?thesis
  proof (cases "won y")
    case True
    then obtain v where y: "y = Swapped True v" by (cases y) auto
    obtain W where "hist M' (Aux Records) (gen M (Aux Records)) = hist M (Aux Records) (gen M (Aux Records)) @ [(Ptr (Some r), W)]"
      by (rule won_facts [OF st' y])
    then show ?thesis using r True g by (cases "hist M (Aux Records) 1") (auto simp: recs_def)
  next
    case False
    then have "hist M' = hist M" using st' by (auto simp: cas_Done Let_def)
    then show ?thesis using r False by (simp add: recs_def)
  qed
next
  case False
  have "Aux Records \<notin> writes (client_act w (p, h)) (fst k)"
  proof (cases "domain_of p")
    case None
    then show ?thesis using queue_writes [of _ Records w "fst k"] by (cases p) auto
  next
    case (Some d)
    then show ?thesis using False client_domain_act [OF Some, of w h]
      by (cases d) (auto simp: delete_node_def make_record_def make_orphan_def split: option.splits)
  qed
  then have "recs M' = recs M" using step_frame(1) [OF baseD(1) [OF b] st] by (simp add: recs_def)
  then show ?thesis using False by (auto split: option.split domain_pc.split)
qed

lemma counts_step:
  fixes s :: "'a hp_state"
  assumes b: "base (mem s)" and li: "lists_inv s" and co: "counts_ok s"
    and st: "mem_step t (client_act w (thr s t)) k (mem s) = Done y M'"
  shows "counts_ok (stepped s t y M')"
proof -
  let ?M = "mem s" let ?S = "{u. counting (domain_of (fst (thr s u)))}"
  let ?S' = "{u. counting (domain_of (fst (thr (stepped s t y M') u)))}"
  note C = counts_okD [OF co]
  obtain p h where at: "thr s t = (p, h)" by (meson surj_pair)
  have st': "mem_step t (client_act w (p, h)) k ?M = Done y M'" using st at by simp
  have ne: "hist ?M (Aux Records) 1 \<noteq> []" using list_okD(3) [OF lists_invD(1) [OF li]] by auto
  have nn: "hist ?M (Aux Nrecords) 1 \<noteq> []" using C(1) by auto
  have t: "t \<in> ?S' \<longleftrightarrow> (case domain_of p of Some (A_count r) \<Rightarrow> True | Some (A_push r e) \<Rightarrow> \<not> won y | od \<Rightarrow> counting od)"
    using counting_step [of p h y] at by simp
  have tS: "t \<in> ?S \<longleftrightarrow> counting (domain_of p)" using at by simp
  have S1: "?S' = insert t ?S" if "t \<in> ?S'" using that by auto
  have S2: "?S' = ?S - {t}" if "t \<notin> ?S'" using that by auto
  have fin: "finite ?S'" using C(2) S1 S2 by (cases "t \<in> ?S'") simp_all
  have rc: "length (recs M') = length (recs ?M) + (case domain_of p of Some (A_push r e) \<Rightarrow> of_bool (won y) | _ \<Rightarrow> 0)"
    using recs_step [OF b st'] ne by simp
  consider (count) r where "domain_of p = Some (A_count r)" | (push) r e where "domain_of p = Some (A_push r e)" "won y"
    | (else) "\<And>r. domain_of p \<noteq> Some (A_count r)" "\<And>r e. domain_of p = Some (A_push r e) \<Longrightarrow> \<not> won y" by blast
  then show ?thesis
  proof cases
    case count
    obtain W where W: "hist M' (Aux Nrecords) 1 = hist ?M (Aux Nrecords) 1 @ [(add_to 1 (fst (last (hist ?M (Aux Nrecords) 1))), W)]"
      using nrecords_step [OF b st'] count by auto
    have cr: "created M' = Suc (created ?M)" using W nn by (cases "hist ?M (Aux Nrecords) 1") (simp_all add: created_def)
    have "fst (last (hist ?M (Aux Nrecords) 1)) = Num (of_nat (created ?M))"
      using last_map [OF nn, of fst] C(1) by simp
    then have h: "map fst (hist M' (Aux Nrecords) 1) = map (\<lambda>n. Num (of_nat n)) [0..<Suc (created M')]"
      using W C(1) by (simp add: cr add_to_def add.commute)
    have "t \<in> ?S'" "t \<notin> ?S" using t tS count by simp_all
    then have "?S' = insert t ?S" "t \<notin> ?S" using S1 by blast+
    then have "card ?S' = Suc (card ?S)" using C(2) by simp
    then show ?thesis unfolding counts_ok_def using h fin C(3) cr rc count by simp
  next
    case push
    have h: "hist M' (Aux Nrecords) 1 = hist ?M (Aux Nrecords) 1" using nrecords_step [OF b st'] push(1) by simp
    have "t \<in> ?S" using tS push(1) by simp
    moreover have "t \<notin> ?S'" using t push by simp
    then have "?S' = ?S - {t}" by (rule S2)
    ultimately have "Suc (card ?S') = card ?S" using C(2) by (metis card_Suc_Diff1)
    then show ?thesis unfolding counts_ok_def using h fin C(1,3) rc push by (simp add: created_def)
  next
    case else
    have h: "hist M' (Aux Nrecords) 1 = hist ?M (Aux Nrecords) 1" using nrecords_step [OF b st'] else(1) by simp
    have "t \<in> ?S' \<longleftrightarrow> t \<in> ?S" using t tS else by (auto split: option.splits domain_pc.splits)
    then have "u \<in> ?S' \<longleftrightarrow> u \<in> ?S" for u by (cases "u = t") simp_all
    then have "?S' = ?S" by (rule set_eqI)
    moreover have "length (recs M') = length (recs ?M)" using rc else(2) by (auto split: option.splits domain_pc.splits)
    ultimately show ?thesis unfolding counts_ok_def using h fin C(1,3) by (simp add: created_def)
  qed
qed

lemma counts_call:
  fixes s :: "'a hp_state"
  assumes co: "counts_ok s" and cl: "client_call t x (thr s t) = Some (q, es)"
  shows "counts_ok (called s t q es)"
proof -
  have "counting (domain_of (fst q)) = counting (domain_of (fst (thr s t)))"
    using cl
  proof (cases rule: hp_call_cases)
    case (queue y h)
    then show ?thesis by (cases y) simp_all
  next
    case (exit h)
    have "domain_of (fst (leave_thread h :: 'a client)) = onward (snd (if bag h \<noteq> [] then (h, Inl (Sc_adopt For_exit)) else leave h))"
      unfolding leave_thread_def by (rule in_leaving(1))
    then show ?thesis using not_counting(1) [of h] exit by (simp del: leave.simps)
  qed auto
  then have "counting (domain_of (fst (thr (called s t q es) u))) = counting (domain_of (fst (thr s u)))" for u by simp
  then show ?thesis using co by (simp add: counts_ok_def)
qed

lemma counts_start: "counts_ok (hp_queue_start dflt a)"
proof -
  have m: "map fst (hist (mem (hp_queue_start dflt a)) (Aux Nrecords) 1) = [Num 0]" by (simp add: hp_start_simps)
  moreover have "created (mem (hp_queue_start dflt a)) = 0" using arg_cong [OF m, of length] by (simp add: created_def)
  moreover have "recs (mem (hp_queue_start dflt a)) = []" by (simp add: recs_def hp_start_memory(8) del: One_nat_def)
  ultimately show ?thesis by (simp add: counts_ok_def hp_start_thr)
qed

lemma counts_reach: "reach (hp_queue w) (hp_queue_start dflt a) s \<Longrightarrow> counts_ok s"
proof (rule hp_invariant [where I = counts_ok])
  show "counts_ok (hp_queue_start dflt a)" by (rule counts_start)
next
  fix s :: "'a hp_state" and t k r M'
  assume "reach (hp_queue w) (hp_queue_start dflt a) s" "counts_ok s" "mem_step t (client_act w (thr s t)) k (mem s) = Done r M'"
  then show "counts_ok (stepped s t r M')" by (intro counts_step [OF base_reach lists_reach])
next
  fix s :: "'a hp_state" and t x q es
  assume "counts_ok s" "client_call t x (thr s t) = Some (q, es)"
  then show "counts_ok (called s t q es)" by (rule counts_call)
next
  fix s :: "'a hp_state" and t u
  assume "counts_ok s"
  then show "counts_ok (s\<lparr>mem := synchronize t u (mem s)\<rparr>)" by (simp add: counts_ok_def created_def recs_def)
qed

section \<open>How full a bag gets\<close>

text \<open>The threshold of a scan with the records counted so far.\<close>

definition scan_room :: "(domain_loc, 'a cell) memory \<Rightarrow> nat" where
  "scan_room M = max 64 (2 * kSlots * created M)"

fun bag_ok :: "(domain_loc, 'a cell) memory \<Rightarrow> domain_pc option \<Rightarrow> tl_cache \<Rightarrow> bool" where
  "bag_ok M (Some R_count) h \<longleftrightarrow> length (bag h) \<le> scan_room M"
| "bag_ok M (Some R_threshold) h \<longleftrightarrow> length (bag h) \<le> scan_room M"
| "bag_ok M (Some (Sc_adopt k)) h \<longleftrightarrow> True"
| "bag_ok M (Some (Sc_item k b)) h \<longleftrightarrow> True"
| "bag_ok M (Some (Sc_onext k b)) h \<longleftrightarrow> True"
| "bag_ok M (Some (Sc_odelete k b n)) h \<longleftrightarrow> True"
| "bag_ok M (Some (Sc_fence k)) h \<longleftrightarrow> True"
| "bag_ok M (Some (Sc_reserve k)) h \<longleftrightarrow> True"
| "bag_ok M (Some (Sc_head k)) h \<longleftrightarrow> True"
| "bag_ok M (Some (Sc_slot k r i hs)) h \<longleftrightarrow>
     (\<exists>j<length (recs M). recs M ! j = r \<and> length hs + kSlots * Suc j \<le> kSlots * length (recs M) + i)"
| "bag_ok M (Some (Sc_next k r hs)) h \<longleftrightarrow>
     (\<exists>j<length (recs M). recs M ! j = r \<and> length hs + kSlots * j \<le> kSlots * length (recs M))"
| "bag_ok M (Some (Sc_free k hs kept p rest n)) h \<longleftrightarrow>
     length hs \<le> kSlots * length (recs M) \<and> set kept \<subseteq> Some ` set hs"
| "bag_ok M (Some (Sc_count k n)) h \<longleftrightarrow> length (bag h) \<le> kSlots * length (recs M)"
| "bag_ok M d h \<longleftrightarrow> length (bag h) < scan_room M"

abbreviation flow_ok :: "(domain_loc, 'a cell) memory \<Rightarrow> domain_flow \<Rightarrow> bool" where
  "flow_ok M y \<equiv> bag_ok M (onward (snd y)) (fst y)"

lemma bag_ok_mono:
  assumes "bag_ok M d h" "longer M M'" "created M \<le> created M'"
  shows "bag_ok M' d h"
proof -
  obtain X where X: "recs M' = recs M @ X" by (rule longerD [OF assms(2)])
  have r: "scan_room M \<le> scan_room M'" using assms(3) by (auto simp: scan_room_def kSlots_def max_def)
  have at: "j < length (recs M') \<and> recs M' ! j = recs M ! j" if "j < length (recs M)" for j
    using that X by (simp add: nth_append)
  have k: "kSlots * length (recs M) \<le> kSlots * length (recs M')" using X by simp
  show ?thesis
  proof (cases "(M, d, h)" rule: bag_ok.cases)
    case (10 N k' r' i hs h')
    then obtain j where j: "j < length (recs M)" "recs M ! j = r'" "length hs + kSlots * Suc j \<le> kSlots * length (recs M) + i"
      using assms(1) by auto
    then have "length hs + kSlots * Suc j \<le> kSlots * length (recs M') + i" using k by linarith
    then show ?thesis using 10 at [OF j(1)] j(2) by (auto simp del: mult_Suc_right)
  next
    case (11 N k' r' hs h')
    then obtain j where j: "j < length (recs M)" "recs M ! j = r'" "length hs + kSlots * j \<le> kSlots * length (recs M)"
      using assms(1) by auto
    then have "length hs + kSlots * j \<le> kSlots * length (recs M')" using k by linarith
    then show ?thesis using 11 at [OF j(1)] j(2) by auto
  qed (use assms(1) r order.trans [OF _ k] in auto)
qed

lemma bag_ok_outside: "bag_ok M None h \<longleftrightarrow> length (bag h) < scan_room M"
  by simp

lemma records_fit:
  assumes "length (recs M) \<le> created M" shows "kSlots * length (recs M) < scan_room M"
  using assms by (auto simp: scan_room_def kSlots_def)

lemma leave_fits: "length (bag h) < scan_room M \<Longrightarrow> flow_ok M (leave h)"
  by (cases "bag h"; cases "rec h") (simp_all add: fresh_cache_def)

lemma done_fits: "length (bag h) < scan_room M \<Longrightarrow> flow_ok M (scan_done k h)"
  using leave_fits [of h M] by (cases k) (simp_all del: leave.simps)

lemma adopt_fits: "flow_ok M (adopt_next k b h)"
proof (cases "b = None \<and> bag h = []")
  case True
  then have "length (bag h) < scan_room M" by (simp add: scan_room_def)
  then show ?thesis using True done_fits [of h M k] by (simp add: adopt_next_def)
qed (auto simp: adopt_next_def split: option.split)

text \<open>The free loop keeps at most one node per hazard.\<close>

lemma sweep_fits:
  assumes "sorted hs" "length hs \<le> kSlots * length (recs M)"
  shows "distinct (kept @ ps) \<Longrightarrow> set kept \<subseteq> Some ` set hs \<Longrightarrow> flow_ok M (sweep k hs kept ps n h)"
proof (induction ps arbitrary: kept)
  case Nil
  have "length kept = card (set kept)" using Nil.prems(1) distinct_card [of kept] by simp
  also have "\<dots> \<le> card (Some ` set hs)" by (rule card_mono [OF _ Nil.prems(2)]) simp
  also have "\<dots> \<le> length hs" by (metis card_image_le card_length finite_set le_trans)
  finally show ?case using assms(2) by simp
next
  case (Cons p ps)
  show ?case
  proof (cases "protected_by hs p")
    case True
    then have "p \<in> Some ` set hs" using assms(1) by (cases p) (simp_all add: protected_by_def binary_search_sorted)
    then show ?thesis using Cons.IH [of "kept @ [p]"] Cons.prems True by simp
  qed (use Cons.prems assms(2) in simp)
qed

lemma snapshot_fits:
  assumes "r = None \<Longrightarrow> distinct (bag h) \<and> length hs \<le> kSlots * length (recs M)"
    and "\<And>q. r = Some q \<Longrightarrow> \<exists>j<length (recs M). recs M ! j = q \<and> length hs + kSlots * Suc j \<le> kSlots * length (recs M)"
  shows "flow_ok M (snapshot_next k r hs h)"
proof (cases r)
  case None
  then show ?thesis using sweep_fits [of "sort hs" M "[]" "bag h" k 0 h] assms(1) by (simp add: snapshot_next_def)
next
  case (Some q)
  then show ?thesis using assms(2) [OF Some] by (simp add: snapshot_next_def)
qed

lemma threshold_fits:
  assumes "m \<le> created M" "\<not> unat (scan_threshold (of_nat m)) \<le> n"
  shows "n < scan_room M"
proof -
  have "unat (of_nat (2 * kSlots) * of_nat m :: 64 word) \<le> 2 * kSlots * m"
    by (metis of_nat_mult unat_of_nat mod_less_eq_dividend)
  then have "unat (scan_threshold (of_nat m)) \<le> max 64 (2 * kSlots * m)"
    by (auto simp: scan_threshold_def max_def word_le_nat_alt)
  also have "\<dots> \<le> scan_room M" using assms(1) by (auto simp: scan_room_def kSlots_def max_def)
  finally show ?thesis using assms(2) by simp
qed

lemma domain_fits:
  fixes M :: "(domain_loc, 'a cell) memory"
  assumes b: "base M" and ok: "list_ok M" and pc: "list_pc M t (cur M t) d"
    and nr: "map fst (hist M (Aux Nrecords) 1) = map (\<lambda>n. Num (of_nat n)) [0..<Suc (created M)]"
    and le: "length (recs M) \<le> created M" and ds: "distinct (stock d h)"
    and fo: "\<And>k hs kept p rest n. d = Sc_free k hs kept p rest n \<Longrightarrow> sorted hs"
    and bo: "bag_ok M (Some d) h" and st: "mem_step t (domain_act d) k M = Done y M'"
  shows "flow_ok M (domain_resume d y h)"
proof -
  note fit = records_fit [OF le]
  show ?thesis
  proof (cases d)
    case R_threshold
    have st': "mem_step t (Load (Aux Nrecords) relaxed) k M = Done y M'" using st R_threshold by simp
    have ms: "msgs M (Aux Nrecords) = hist M (Aux Nrecords) 1"
      using baseD(6) [OF b, of "Aux Nrecords"] by (simp add: msgs_def)
    obtain n where n: "0 < n" "n \<le> latest M (Aux Nrecords)" "y = Val (fst (msgs M (Aux Nrecords) ! (n - 1)))"
      using load_facts [OF st'] by metis
    have "length (hist M (Aux Nrecords) 1) = Suc (created M)" using arg_cong [OF nr, of length] by simp
    then have m: "n - 1 < Suc (created M)" "n - 1 < length (hist M (Aux Nrecords) 1)" using n(1,2) by (simp_all add: latest_def ms)
    have "fst (hist M (Aux Nrecords) 1 ! (n - 1)) = Num (of_nat (n - 1))"
      using arg_cong [OF nr, of "\<lambda>xs. xs ! (n - 1)"] m by (simp del: upt_Suc)
    then have "number y = of_nat (n - 1)" using n(3) ms by simp
    then show ?thesis using R_threshold threshold_fits [of "n - 1" M "length (bag h)"] m(1) by (simp add: not_le)
  next
    case (Sc_head j)
    have st': "mem_step t (Load (Aux Records) acquire) k M = Done y M'" using st Sc_head by simp
    obtain n where n: "0 < n" "n \<le> latest M (Aux Records)" "y = Val (fst (msgs M (Aux Records) ! (n - 1)))"
      using load_facts [OF st'] by metis
    have "\<exists>j<length (recs M). recs M ! j = q" if "loaded y = Some q" for q
      using records_msg(2) [OF b ok n(1,2) order.refl, of q] n(3) that by (auto simp: listed_def)
    then show ?thesis unfolding Sc_head domain_resume.simps
      by (intro snapshot_fits) (use ds Sc_head in \<open>auto simp: Suc_le_eq simp del: mult_Suc_right\<close>)
  next
    case (Sc_slot j r i hs)
    obtain m where m: "m < length (recs M)" "recs M ! m = r" "length hs + kSlots * Suc m \<le> kSlots * length (recs M) + i"
      using bo Sc_slot by auto
    have "length (add_hazard (loaded y) hs) \<le> Suc (length hs)" by (cases "loaded y") (simp_all add: add_hazard_def)
    moreover have "i < kSlots" using list_pcD(2) [OF pc] Sc_slot by simp
    ultimately show ?thesis using Sc_slot m by (auto intro!: exI [of _ m])
  next
    case (Sc_next j r hs)
    obtain m where m: "m < length (recs M)" "recs M ! m = r" "length hs + kSlots * m \<le> kSlots * length (recs M)"
      using bo Sc_next by auto
    have "y = Val (newest M (Aux (Next_record r)))" using now_read [OF baseD(1) [OF b]] st Sc_next by simp
    then have y: "loaded y = (if m = 0 then None else Some (recs M ! (m - 1)))" using list_okD(5) [OF ok m(1)] m(2) by simp
    show ?thesis unfolding Sc_next domain_resume.simps
    proof (rule snapshot_fits)
      assume "loaded y = None"
      then show "distinct (bag h) \<and> length hs \<le> kSlots * length (recs M)" using y m(3) ds Sc_next by (auto split: if_splits)
    next
      fix q assume "loaded y = Some q"
      then have "0 < m" "q = recs M ! (m - 1)" using y by (auto split: if_splits)
      then show "\<exists>j<length (recs M). recs M ! j = q \<and> length hs + kSlots * Suc j \<le> kSlots * length (recs M)"
        using m by (intro exI [of _ "m - 1"]) simp
    qed
  next
    case (Sc_free j hs kept p rest n)
    then show ?thesis using sweep_fits [of hs M kept rest j "n + 1" h] bo ds fo by simp
  next
    case (O_cas q e)
    then show ?thesis using bo leave_fits [of h M] by (simp del: leave.simps)
  next
    case (Sc_count j n)
    then show ?thesis using bo fit done_fits [of h M j] by (simp del: leave.simps)
  qed (use bo adopt_fits in \<open>auto simp: try_record_def got_record_def fresh_cache_def scan_room_def simp del: leave.simps split: option.split\<close>)
qed

lemma start_fits: "length (bag h) < scan_room M \<Longrightarrow> flow_ok M (hp_start_op x h)"
  by (cases x) simp_all

definition bags_ok :: "'a hp_state \<Rightarrow> bool" where
  "bags_ok s \<longleftrightarrow> (\<forall>u. bag_ok (mem s) (domain_of (fst (thr s u))) (snd (thr s u)))"

lemma bags_step:
  fixes s :: "'a hp_state"
  assumes inv: "safe_inv dflt d s sl A" and co: "counts_ok s" and bo: "bags_ok s"
    and st: "mem_step t (client_act w (thr s t)) k (mem s) = Done y M'"
  shows "bags_ok (stepped s t y M')"
  unfolding bags_ok_def
proof
  fix u
  let ?M = "mem s"
  note I = safe_invD [OF inv] and P = protocolD [OF safe_invD(1) [OF inv]] and C = counts_okD [OF co]
  have lng: "longer ?M M'" by (rule longer_step [OF P(1,4) st])
  have cr: "created ?M \<le> created M'"
    using step_length [OF baseD(1) [OF P(1)] st] by (simp add: created_def diff_le_mono)
  note up = bag_ok_mono [OF _ lng cr]
  have own: "bag_ok ?M (domain_of (fst (thr s v))) (snd (thr s v))" for v using bo by (simp add: bags_ok_def)
  show "bag_ok (mem (stepped s t y M')) (domain_of (fst (thr (stepped s t y M') u))) (snd (thr (stepped s t y M') u))"
  proof (cases "u = t")
    case False
    then show ?thesis using up [OF own [of u]] by simp
  next
    case True
    obtain p h where at: "thr s t = (p, h)" by (meson surj_pair)
    have "bag_ok ?M (domain_of (fst (client_resume (p, h) y))) (snd (client_resume (p, h) y))"
    proof (cases "domain_of p")
      case None
      have r: "length (bag h) < scan_room ?M" using own [of t] at None by simp
      show ?thesis
      proof (cases "\<exists>x j. p = In_queue (Start x j)")
        case True
        then obtain x j where p: "p = In_queue (Start x j)" by blast
        show ?thesis unfolding p resume_start by (rule start_fits [OF r])
      next
        case False
        then show ?thesis using resume_else [OF None, of h y] r by simp
      qed
    next
      case (Some e)
      have "distinct (carries (thr s t))" using items_okD(1) [OF I(5), of "Some t"] by (simp add: holdings_simps)
      then have ds: "distinct (stock e h)" using carries_domain [OF Some, of h] at by simp
      have pc: "list_pc ?M t (cur ?M t) e" using lists_invD(2) [OF P(4), of t] at Some by (simp add: list_thread_def)
      have so: "e = Sc_free j hs kept q rest n \<Longrightarrow> sorted hs" for j hs kept q rest n
        using free_okD [OF P(7), of t j hs kept q rest n] at Some by simp
      have bk: "bag_ok ?M (Some e) h" using own [of t] at Some by simp
      have le: "length (recs ?M) \<le> created ?M" using C(3) by simp
      show ?thesis
        unfolding resume_domain [OF Some]
        by (rule domain_fits [OF P(1) lists_invD(1) [OF P(4)] pc C(1) le ds so bk])
          (use st at client_domain_act [OF Some, of w h] in simp_all)
    qed
    then show ?thesis using True at up by simp
  qed
qed

lemma bags_call:
  fixes s :: "'a hp_state"
  assumes bo: "bags_ok s" and cl: "client_call t x (thr s t) = Some (q, es)"
  shows "bags_ok (called s t q es)"
proof -
  have own: "bag_ok (mem s) (domain_of (fst (thr s u))) (snd (thr s u))" for u using bo by (simp add: bags_ok_def)
  have "bag_ok (mem s) (domain_of (fst q)) (snd q)"
    using cl
  proof (cases rule: hp_call_cases)
    case (queue y h)
    then show ?thesis using own [of t] by (cases y) simp_all
  next
    case (exit h)
    have "flow_ok (mem s) (if bag h \<noteq> [] then (h, Inl (Sc_adopt For_exit)) else leave h)"
      using leave_fits [of h "mem s"] own [of t] exit by (simp del: leave.simps)
    then show ?thesis unfolding exit(3) leave_thread_def in_leaving .
  next
    case (look h)
    then show ?thesis using own [of t] by auto
  next
    case (drain h)
    then show ?thesis by simp
  qed
  then show ?thesis using own by (simp add: bags_ok_def)
qed

lemma bags_reach:
  fixes s :: "'a hp_state"
  assumes "reach (hp_queue shipped) (hp_queue_start dflt a) s" "unasked (trace s)"
  shows "bags_ok s"
proof -
  have "unasked (trace s) \<longrightarrow> bags_ok s"
  proof (rule hp_invariant [where I = "\<lambda>s. unasked (trace s) \<longrightarrow> bags_ok s", OF _ _ _ _ assms(1)])
    show "unasked (trace (hp_queue_start dflt a)) \<longrightarrow> bags_ok (hp_queue_start dflt a)"
      by (simp add: bags_ok_def hp_start_thr fresh_cache_def scan_room_def less_max_iff_disj)
  next
    fix s :: "'a hp_state" and t k r M'
    assume s: "reach (hp_queue shipped) (hp_queue_start dflt a) s" "unasked (trace s) \<longrightarrow> bags_ok s"
      "mem_step t (client_act shipped (thr s t)) k (mem s) = Done r M'"
    show "unasked (trace (stepped s t r M')) \<longrightarrow> bags_ok (stepped s t r M')"
    proof
      assume "unasked (trace (stepped s t r M'))"
      then have ua: "unasked (trace s)" by simp
      obtain sl A where inv: "safe_inv dflt (name a 1) s sl A" using safe_inv_reach [OF s(1) ua] by blast
      show "bags_ok (stepped s t r M')" by (rule bags_step [OF inv counts_reach [OF s(1)] _ s(3)]) (use s(2) ua in simp)
    qed
  next
    fix s :: "'a hp_state" and t x q es
    assume bo: "unasked (trace s) \<longrightarrow> bags_ok s" and cl: "client_call t x (thr s t) = Some (q, es)"
    show "unasked (trace (called s t q es)) \<longrightarrow> bags_ok (called s t q es)" using bo bags_call [OF _ cl] by simp
  next
    fix s :: "'a hp_state" and t u
    assume "unasked (trace s) \<longrightarrow> bags_ok s"
    moreover have "bag_ok (synchronize t u (mem s)) d h = bag_ok (mem s) d h" for d h
      by (cases "(mem s, d, h)" rule: bag_ok.cases) (simp_all add: scan_room_def created_def recs_def)
    ultimately show "unasked (trace (s\<lparr>mem := synchronize t u (mem s)\<rparr>)) \<longrightarrow> bags_ok (s\<lparr>mem := synchronize t u (mem s)\<rparr>)"
      by (simp add: bags_ok_def)
  qed
  then show ?thesis using assms(2) by blast
qed

section \<open>The bound\<close>

text \<open>
  C7. Bounded garbage: in every run in which no thread calls \<^verbatim>\<open>empty()\<close>, a thread that is outside
  the domain's operations holds fewer retired nodes than the threshold of a scan, which is 64 or
  twice the hazard slots of all records counted so far, whatever the other threads do and wherever
  they are suspended.
\<close>

theorem hp_bag_bounded:
  fixes s :: "'a hp_state"
  assumes "reach (hp_queue shipped) (hp_queue_start dflt a) s" and "unasked (trace s)"
    and "domain_of (fst (thr s t)) = None"
  shows "length (bag (snd (thr s t))) < max 64 (2 * kSlots * created (mem s))"
proof -
  have "bag_ok (mem s) (domain_of (fst (thr s t))) (snd (thr s t))" using bags_reach [OF assms(1,2)] by (simp add: bags_ok_def)
  then show ?thesis unfolding assms(3) bag_ok_outside scan_room_def .
qed

theorem hp_bag_bounded_witness:
  "\<exists>s. thr (s :: nat hp_state) 1 = (In_queue Idle, \<lparr>rec = Some 20, bag = [Some 7]\<rparr>) \<and>
     length [Some 7 :: nat option] < max 64 (2 * kSlots * created (mem s))"
proof -
  obtain s where s: "reach (hp_queue shipped) (hp_queue_start (0 :: nat) 7) s"
    "thr s 1 = (In_queue Idle, \<lparr>rec = Some 20, bag = [Some 7]\<rparr>)" "trace s = take 7 hp_demo_trace"
    by (rule observe_reach [OF hp_waiting_table [folded hp_observe]]) blast
  have "unasked (trace s)" by (simp add: s(3) hp_demo_trace_def) (simp add: unasked_def)
  from hp_bag_bounded [OF s(1) this, of 1] s(2) show ?thesis by (intro exI [of _ s]) simp
qed

end
