(* ===== verification/Inject.thy ===== *)
theory Inject imports Prelude "HOL-Library.Word" begin

unbundle bit_operations_syntax

text \<open>
  \<^verbatim>\<open>include/lfq/inject.hpp\<close>: the schedule-fuzzing point of the adversarial builds, a
  thread-local 32-bit xorshift that decides between a yield, a short spin and nothing.
\<close>

section \<open>The generator\<close>

text \<open>The initialiser: from the address of the thread-local itself.\<close>

definition seed :: "64 word \<Rightarrow> 32 word" where
  "seed a = ucast (a XOR drop_bit 32 a) OR 1"

definition xorshift :: "32 word \<Rightarrow> 32 word" where
  "xorshift s =
     (let s = s XOR push_bit 13 s;
          s = s XOR drop_bit 17 s
      in s XOR push_bit 5 s)"

text \<open>\<^verbatim>\<open>for (n = state & 255; n != 0; n = n - 1)\<close>: the number of rounds.\<close>

function spin :: "32 word \<Rightarrow> nat" where
  "spin n = (if n = 0 then 0 else Suc (spin (n - 1)))"
  by pat_completeness auto
termination
  by (relation "measure unat") (auto simp: unat_gt_0 measure_unat)

declare spin.simps [simp del]

datatype decision = Yield | Spin nat | Go_on

definition decide :: "32 word \<Rightarrow> decision" where
  "decide s =
     (if s AND 7 = 0 then Yield else if s AND 7 = 1 then Spin (spin (s AND 255)) else Go_on)"

definition inject_point :: "32 word \<Rightarrow> 32 word \<times> decision" where
  "inject_point s = (let s = xorshift s in (s, decide s))"

text \<open>The state of a thread after its first \<open>k\<close> injection points.\<close>

fun after_points :: "nat \<Rightarrow> 64 word \<Rightarrow> 32 word" where
  "after_points 0 a = seed a"
| "after_points (Suc k) a = fst (inject_point (after_points k a))"

section \<open>The generator is a permutation\<close>

text \<open>Shifting and adding twice shifts by twice as much, so every round can be undone.\<close>

definition mix_up :: "nat \<Rightarrow> 32 word \<Rightarrow> 32 word" where
  "mix_up k s = s XOR push_bit k s"

definition mix_down :: "nat \<Rightarrow> 32 word \<Rightarrow> 32 word" where
  "mix_down k s = s XOR drop_bit k s"

lemma mix_up_twice: "mix_up k (mix_up k s) = mix_up (k + k) s"
  by (simp add: mix_up_def push_bit_xor push_bit_push_bit xor.assoc [symmetric]) (simp add: xor.assoc)

lemma mix_down_twice: "mix_down k (mix_down k s) = mix_down (k + k) s"
  by (simp add: mix_down_def drop_bit_xor drop_bit_drop_bit xor.assoc [symmetric]) (simp add: xor.assoc)

lemma mix_up_out: "32 \<le> k \<Longrightarrow> mix_up k s = s"
  by (rule bit_word_eqI) (simp add: mix_up_def bit_simps)

lemma mix_down_out: "32 \<le> k \<Longrightarrow> mix_down k s = s"
  by (rule bit_word_eqI) (auto simp: mix_down_def bit_simps dest: bit_imp_le_length)

definition unshift :: "32 word \<Rightarrow> 32 word" where
  "unshift s =
     (let s = (mix_up 5 ^^ 7) s;
          s = mix_down 17 s
      in (mix_up 13 ^^ 3) s)"

lemma xorshift_mix: "xorshift s = mix_up 5 (mix_down 17 (mix_up 13 s))"
  by (simp add: xorshift_def mix_up_def mix_down_def Let_def)

lemma unmix:
  "(mix_up 5 ^^ 7) (mix_up 5 x) = x" "mix_up 5 ((mix_up 5 ^^ 7) x) = x"
  "(mix_up 13 ^^ 3) (mix_up 13 x) = x" "mix_up 13 ((mix_up 13 ^^ 3) x) = x"
  "mix_down 17 (mix_down 17 x) = x"
  by (simp_all add: eval_nat_numeral mix_up_twice mix_up_out mix_down_twice mix_down_out)

lemma unshift_xorshift: "unshift (xorshift s) = s"
  by (simp add: xorshift_mix unshift_def Let_def unmix)

lemma xorshift_unshift: "xorshift (unshift s) = s"
  by (simp add: xorshift_mix unshift_def Let_def unmix)

lemma xorshift_zero: "xorshift s = 0 \<longleftrightarrow> s = 0"
  using unshift_xorshift [of s] unshift_xorshift [of 0] by (auto simp: xorshift_def)

text \<open>
  The generator loses nothing: its step can be undone on either side, so it permutes the
  32-bit states and no two sequences ever merge.
\<close>

lemma xorshift_roundtrip: "unshift (xorshift s) = s \<and> xorshift (unshift s) = s"
  by (simp add: unshift_xorshift xorshift_unshift)

section \<open>Injection points\<close>

lemma seed_nonzero: "seed a \<noteq> 0"
proof
  assume "seed a = 0"
  then have "bit (seed a) 0 = bit (0 :: 32 word) 0" by simp
  then show False by (simp add: seed_def bit_simps)
qed

text \<open>
  C23.  Whatever address seeds it, the generator of a thread never reaches the state zero, in which
  it would stay for ever (and yield at every injection point).
\<close>

theorem inject_never_stuck: "after_points k a \<noteq> 0 \<and> fst (inject_point 0) = 0"
  by (induction k) (simp_all add: seed_nonzero inject_point_def Let_def xorshift_zero)

lemma spin_unat: "spin n = unat n"
proof (induction n rule: spin.induct)
  case (1 n)
  show ?case
  proof (cases "n = 0")
    case True
    then show ?thesis by (simp add: spin.simps [of 0])
  next
    case False
    then have "0 < unat n" by (simp add: unat_gt_0)
    then show ?thesis using 1 [OF False] False by (simp add: spin.simps [of n] unat_minus_one)
  qed
qed

text \<open>
  The spin of an injection point ends: it makes 8 j + 1 rounds for some j below 32.
\<close>

lemma spin_bounded:
  "case snd (inject_point s) of Spin k \<Rightarrow> \<exists>j<32. k = 8 * j + 1 | Yield \<Rightarrow> True | Go_on \<Rightarrow> True"
proof -
  let ?s = "xorshift s"
  have low: "unat (?s AND mask n) = unat ?s mod 2 ^ n" for n
    by (simp only: take_bit_eq_mask [symmetric] unsigned_take_bit_eq) (simp only: take_bit_eq_mod)
  have 8: "unat (?s AND 255) = unat ?s mod 256" and 3: "unat (?s AND 7) = unat ?s mod 8"
    using low [of 8] low [of 3] by (simp_all add: mask_numeral)
  have "\<exists>j<32. unat ?s mod 256 = 8 * j + 1" if "unat ?s mod 8 = 1"
  proof (intro exI conjI)
    show "unat ?s mod 256 div 8 < 32" by simp
    have "unat ?s mod 256 mod 8 = 1" using that by (simp add: mod_mod_cancel)
    then show "unat ?s mod 256 = 8 * (unat ?s mod 256 div 8) + 1"
      using mult_div_mod_eq [of 8 "unat ?s mod 256"] by simp
  qed
  moreover have "unat ?s mod 8 = 1" if "?s AND 7 = 1" using 3 that by simp
  ultimately show ?thesis by (simp add: inject_point_def decide_def Let_def spin_unat 8)
qed

end
