(* ===== verification/Layout.thy ===== *)
theory Layout imports Prelude begin

text \<open>
  \<^verbatim>\<open>include/lfq/padding.hpp\<close> and the members of \<^verbatim>\<open>ms_queue\<close>: where \<^verbatim>\<open>head_\<close> and
  \<^verbatim>\<open>tail_\<close> lie, with and without padding.  The architecture the preprocessor tests is an
  argument, and so is the size (and natural alignment) of an atomic pointer.
\<close>

definition cache_line_size :: "bool \<Rightarrow> nat" where
  "cache_line_size aarch64 = (if aarch64 then 128 else 64)"

definition head_tail_align :: "bool \<Rightarrow> nat \<Rightarrow> bool \<Rightarrow> nat" where
  "head_tail_align aarch64 ptr_size pad = (if pad then cache_line_size aarch64 else ptr_size)"

text \<open>A member is placed at the next multiple of its alignment.\<close>

definition align_up :: "nat \<Rightarrow> nat \<Rightarrow> nat" where
  "align_up x a = (x + a - 1) div a * a"

definition head_offset :: nat where
  "head_offset = 0"

definition tail_offset :: "bool \<Rightarrow> nat \<Rightarrow> bool \<Rightarrow> nat" where
  "tail_offset aarch64 ptr_size pad =
     align_up (head_offset + ptr_size) (head_tail_align aarch64 ptr_size pad)"

text \<open>
  The line sizes of the machines \<^verbatim>\<open>padding.hpp\<close> speaks of, whatever the constant is: an AArch64 part
  has lines of 128 bytes (or prefetches pairs of 64) or of 64 bytes, the others have lines of 64.
\<close>

definition hardware_lines :: "bool \<Rightarrow> nat list" where
  "hardware_lines aarch64 = (if aarch64 then [64, 128] else [64])"

text \<open>The line of \<open>L\<close> bytes that a byte lies in.\<close>

definition line_of :: "nat \<Rightarrow> nat \<Rightarrow> nat" where
  "line_of L byte = byte div L"

lemma align_up_small: "0 < x \<Longrightarrow> x \<le> a \<Longrightarrow> align_up x a = a"
  by (simp add: align_up_def div_nat_eqI)

lemma tail_offset_eq:
  "0 < n \<Longrightarrow> n \<le> 64 \<Longrightarrow> tail_offset aarch64 n pad = (if pad then cache_line_size aarch64 else n)"
  by (simp add: tail_offset_def head_offset_def head_tail_align_def cache_line_size_def align_up_small)

lemma lines_divide: "L \<in> set (hardware_lines aarch64) \<Longrightarrow> 64 \<le> L \<and> L dvd cache_line_size aarch64"
  by (auto simp: hardware_lines_def cache_line_size_def split: if_splits)

text \<open>
  C24.  With \<^verbatim>\<open>PadHeadTail\<close>, a queue placed at a multiple of its alignment has no byte of
  \<^verbatim>\<open>head_\<close> on the same hardware line as a byte of \<^verbatim>\<open>tail_\<close>, whichever of its line sizes the
  machine has (128 or 64 bytes on AArch64, 64 elsewhere); without it, a queue at the start of a
  line has both on that line.  Pointers are at most 32 bytes wide.
\<close>

theorem head_tail_lines:
  assumes "0 < n" "2 * n \<le> 64" "i < n" "j < n" "L \<in> set (hardware_lines aarch64)"
  shows "(head_tail_align aarch64 n True dvd base \<longrightarrow>
      line_of L (base + head_offset + i) \<noteq> line_of L (base + tail_offset aarch64 n True + j)) \<and>
    (L dvd base \<longrightarrow> line_of L (base + head_offset + i) = line_of L (base + tail_offset aarch64 n False + j))"
proof -
  let ?C = "cache_line_size aarch64"
  have L: "64 \<le> L" "L dvd ?C" using lines_divide [OF assms(5)] by simp_all
  have C: "0 < ?C" by (simp add: cache_line_size_def)
  have at: "(L * m + k) div L = m" if "k < L" for m k using that by simp
  have "line_of L (base + head_offset + i) \<noteq> line_of L (base + tail_offset aarch64 n True + j)"
    if "head_tail_align aarch64 n True dvd base"
  proof -
    have "?C dvd base" using that by (simp add: head_tail_align_def)
    then obtain m k where m: "base = L * m" "?C = L * k" using L(2) by (metis dvd_trans dvdE)
    have "0 < k" using C m(2) by (metis gr0I mult_0_right less_irrefl)
    have "line_of L (base + head_offset + i) = m"
      using at [of i m] assms(2,3) L(1) by (simp add: line_of_def head_offset_def m(1))
    moreover have "line_of L (base + tail_offset aarch64 n True + j) = m + k"
      using at [of j "m + k"] assms(1,2,4) L(1)
      by (simp add: line_of_def tail_offset_eq m distrib_left)
    ultimately show ?thesis using \<open>0 < k\<close> by simp
  qed
  moreover have "line_of L (base + head_offset + i) = line_of L (base + tail_offset aarch64 n False + j)"
    if b: "L dvd base"
  proof -
    obtain m where m: "base = L * m" using b by (rule dvdE)
    show ?thesis
      using at [of i m] at [of "n + j" m] assms(1-4) L(1)
      by (simp add: line_of_def head_offset_def tail_offset_eq m add.assoc)
  qed
  ultimately show ?thesis by blast
qed

theorem head_tail_lines_witness:
  "line_of 128 (1280 + head_offset + 7) \<noteq> line_of 128 (1280 + tail_offset True 8 True + 0) \<and>
   line_of 128 (1280 + head_offset + 7) = line_of 128 (1280 + tail_offset True 8 False + 0)"
  using head_tail_lines [of 8 7 0 128 True 1280]
  by (simp add: hardware_lines_def head_tail_align_def cache_line_size_def)

end
