(* ===== verification/Bench_Stats.thy ===== *)
theory Bench_Stats imports Complex_Main Prelude "HOL-Library.Word" begin

text \<open>
  The arithmetic of the benchmark: \<^verbatim>\<open>percentile_sorted\<close> and \<^verbatim>\<open>summarize\<close> of
  \<^verbatim>\<open>bench/harness.hpp\<close>, \<^verbatim>\<open>split_ratio\<close> and the repetition loop of
  \<^verbatim>\<open>run_suite\<close> in \<^verbatim>\<open>bench/bench_main.cpp\<close>.  A \<^verbatim>\<open>double\<close> is a real
  number, and every operation on doubles is followed by a rounding \<open>rnd\<close>, an argument of the
  definitions; \<open>None\<close> is undefined behaviour.
\<close>

section \<open>Rounding\<close>

text \<open>What is used of IEEE doubles: rounding is monotone, and exact on half-integers below
  \<open>2\<^sup>5\<^sup>2\<close>.\<close>

definition double_rounding :: "(real \<Rightarrow> real) \<Rightarrow> bool" where
  "double_rounding rnd \<longleftrightarrow> mono rnd \<and> (\<forall>k::nat. k < 2 ^ 53 \<longrightarrow> rnd (real k / 2) = real k / 2)"

lemma rounding_mono: "double_rounding rnd \<Longrightarrow> x \<le> y \<Longrightarrow> rnd x \<le> rnd y"
  by (simp add: double_rounding_def mono_def)

lemma rounding_half: "double_rounding rnd \<Longrightarrow> k < 2 ^ 53 \<Longrightarrow> rnd (real k / 2) = real k / 2"
  by (simp add: double_rounding_def)

lemma rounding_nat: "double_rounding rnd \<Longrightarrow> k < 2 ^ 52 \<Longrightarrow> rnd (real k) = real k"
  using rounding_half [of rnd "2 * k"] by simp

section \<open>Percentiles\<close>

definition sample_index :: "(real \<Rightarrow> real) \<Rightarrow> nat \<Rightarrow> real \<Rightarrow> nat" where
  "sample_index rnd n q =
     (let idx = nat \<lfloor>rnd (rnd (q * rnd (real (n - 1))) + 1 / 2)\<rfloor>
      in if idx \<ge> n then n - 1 else idx)"

definition percentile_sorted :: "(real \<Rightarrow> real) \<Rightarrow> 64 word list \<Rightarrow> real \<Rightarrow> 64 word" where
  "percentile_sorted rnd xs q = (if xs = [] then 0 else xs ! sample_index rnd (length xs) q)"

record rep_summary =
  median :: real
  q1 :: real
  q3 :: real

text \<open>On an empty vector \<^verbatim>\<open>size() - 1\<close> wraps and the index is out of range.\<close>

definition summarize :: "(real \<Rightarrow> real) \<Rightarrow> real list \<Rightarrow> rep_summary option" where
  "summarize rnd reps =
     (let xs = sort reps; pick = (\<lambda>q. xs ! sample_index rnd (length xs) q) in
      if xs = [] then None
      else Some \<lparr>median = pick (1 / 2), q1 = pick (1 / 4), q3 = pick (3 / 4)\<rparr>)"

lemma sample_index_less: "0 < n \<Longrightarrow> sample_index rnd n q < n"
  by (auto simp: sample_index_def Let_def)

lemma clamp_mono: "i \<le> j \<Longrightarrow> (if i \<ge> n then n - 1 else i) \<le> (if j \<ge> n then n - 1 else j)"
  for i j n :: nat
  by auto

lemma sample_index_mono:
  assumes "double_rounding rnd" "q \<le> q'"
  shows "sample_index rnd n q \<le> sample_index rnd n q'"
proof -
  have "0 \<le> rnd (real (n - 1))"
    using rounding_mono [OF assms(1), of 0 "real (n - 1)"] rounding_nat [OF assms(1), of 0] by simp
  then have "q * rnd (real (n - 1)) \<le> q' * rnd (real (n - 1))"
    using assms(2) by (rule mult_right_mono [rotated])
  then have "rnd (rnd (q * rnd (real (n - 1))) + 1 / 2) \<le> rnd (rnd (q' * rnd (real (n - 1))) + 1 / 2)"
    by (intro rounding_mono [OF assms(1)] add_right_mono)
  then have "nat \<lfloor>rnd (rnd (q * rnd (real (n - 1))) + 1 / 2)\<rfloor> \<le> nat \<lfloor>rnd (rnd (q' * rnd (real (n - 1))) + 1 / 2)\<rfloor>"
    by (intro nat_mono floor_mono)
  then show ?thesis unfolding sample_index_def Let_def by (rule clamp_mono)
qed

text \<open>
  A percentile is one of the samples, and a higher percentile of a sorted vector is never
  smaller, however doubles round: p50, p99 and p999 of a row are ordered.
\<close>

lemma percentile_ordered:
  assumes "double_rounding rnd" "sorted xs" "xs \<noteq> []" "q \<le> q'"
  shows "percentile_sorted rnd xs q \<in> set xs \<and> percentile_sorted rnd xs q \<le> percentile_sorted rnd xs q'"
  using assms sample_index_less [of "length xs" rnd] sample_index_mono [OF assms(1,4), of "length xs"]
  by (simp add: percentile_sorted_def sorted_nth_mono)

lemma id_rounding: "double_rounding (\<lambda>x. x)"
  by (simp add: double_rounding_def mono_def)

lemma percentile_ordered_witness:
  "percentile_sorted (\<lambda>x. x) [3, 5, 9] (1 / 2) \<in> set [3, 5, 9] \<and>
   percentile_sorted (\<lambda>x. x) [3, 5, 9] (1 / 2) \<le> percentile_sorted (\<lambda>x. x) [3, 5, 9] (99 / 100)"
  by (rule percentile_ordered [OF id_rounding]) simp_all

text \<open>
  The summary of a non-empty vector of repetitions is defined, consists of measured values,
  and its quartiles enclose its median.
\<close>

lemma summarize_quartiles:
  assumes "double_rounding rnd" "reps \<noteq> []"
  shows "\<exists>r. summarize rnd reps = Some r \<and> q1 r \<le> median r \<and> median r \<le> q3 r \<and>
    {q1 r, median r, q3 r} \<subseteq> set reps"
proof -
  let ?xs = "sort reps" let ?pick = "\<lambda>q. ?xs ! sample_index rnd (length ?xs) q"
  have ne: "?xs \<noteq> []" "0 < length ?xs"
    using assms(2) by (metis set_sort set_empty2, metis assms(2) length_greater_0_conv length_sort)
  have mem: "?pick q \<in> set reps" for q
    using nth_mem [OF sample_index_less [OF ne(2)], of rnd q] by simp
  have le: "?pick q \<le> ?pick q'" if "q \<le> q'" for q q'
    using sample_index_mono [OF assms(1) that] sample_index_less [OF ne(2)] by (intro sorted_nth_mono) auto
  show ?thesis
    using ne(1) le [of "1/4" "1/2"] le [of "1/2" "3/4"] mem by (simp add: summarize_def Let_def)
qed

lemma summarize_quartiles_witness:
  "\<exists>r. summarize (\<lambda>x. x) [7, 2, 5] = Some r \<and> q1 r \<le> median r \<and> median r \<le> q3 r \<and>
    {q1 r, median r, q3 r} \<subseteq> set [7, 2, 5]"
  by (rule summarize_quartiles [OF id_rounding]) simp

section \<open>The repetition loop\<close>

text \<open>The repetitions a configuration reports: \<^verbatim>\<open>rep\<close> runs to the 32-bit sum, and
  those below \<^verbatim>\<open>warmup\<close> are discarded.\<close>

definition reported_reps :: "32 word \<Rightarrow> 32 word \<Rightarrow> nat list" where
  "reported_reps warmup reps =
     map (\<lambda>r. r - unat warmup) (filter (\<lambda>r. \<not> r < unat warmup) [0 ..< unat (warmup + reps)])"

lemma reported_reps_eq: "reported_reps warmup reps = [0 ..< unat (warmup + reps) - unat warmup]"
proof -
  have "filter (\<lambda>r. \<not> r < w) [0 ..< n] = [w ..< n]" for w n
    by (induction n) (auto simp: not_less)
  moreover have "map (\<lambda>r. r - w) [w ..< n] = [0 ..< n - w]" for w n
    by (rule nth_equalityI) simp_all
  ultimately show ?thesis by (simp add: reported_reps_def)
qed

lemma reps_sum: "unat (warmup + reps) = (unat warmup + unat reps) mod 2 ^ 32" for warmup :: "32 word"
  by (simp add: unat_word_ariths)

text \<open>
  C27.  With options \<^verbatim>\<open>parse_args\<close> accepts, a configuration reports its repetitions 0 to
  \<^verbatim>\<open>reps\<close> - 1 exactly when the sum with \<^verbatim>\<open>warmup\<close> does not wrap; when it wraps it
  reports none, and summarising its throughputs is undefined.
\<close>

theorem reported_reps_wrap:
  fixes measure :: "nat \<Rightarrow> real"
  assumes "reps \<noteq> 0"
  shows "if unat warmup + unat reps < 2 ^ 32
    then reported_reps warmup reps = [0 ..< unat reps] \<and>
      summarize rnd (map measure (reported_reps warmup reps)) \<noteq> None
    else summarize rnd (map measure (reported_reps warmup reps)) = None"
proof (cases "unat warmup + unat reps < 2 ^ 32")
  case True
  then have "reported_reps warmup reps = [0 ..< unat reps]" by (simp add: reported_reps_eq reps_sum)
  moreover have "0 < unat reps" using assms by (simp add: unat_gt_0)
  moreover have "sort (map measure [0 ..< n]) \<noteq> []" if "0 < n" for n
    using that by (metis length_greater_0_conv length_map length_sort length_upt minus_nat.diff_0)
  ultimately show ?thesis using True by (simp add: summarize_def Let_def)
next
  case False
  have "unat warmup < 2 ^ 32" "unat reps < 2 ^ 32"
    using unsigned_less [of warmup, where ?'a = nat] unsigned_less [of reps, where ?'a = nat] by simp_all
  then have "(unat warmup + unat reps) mod 2 ^ 32 = unat warmup + unat reps - 2 ^ 32"
    using False by (simp add: mod_if)
  then have "unat (warmup + reps) - unat warmup = 0"
    using \<open>unat reps < 2 ^ 32\<close> by (simp add: reps_sum)
  then show ?thesis using False by (simp add: reported_reps_eq summarize_def)
qed

theorem reported_reps_wrap_witness:
  "reported_reps 2 10 = [0 ..< 10] \<and> summarize (\<lambda>x. x) (map real (reported_reps 4294967295 1)) = None"
  using reported_reps_wrap [of 10 2 "\<lambda>x. x" real] reported_reps_wrap [of 1 4294967295 "\<lambda>x. x" real] by simp

section \<open>Splitting the threads\<close>

definition clamp_side :: "int \<Rightarrow> 32 word \<Rightarrow> 32 word" where
  "clamp_side x nthreads =
     (let p = of_int x; p = (if p < 1 then 1 else p)
      in if p > nthreads - 1 then nthreads - 1 else p)"

definition split_ratio :: "(real \<Rightarrow> real) \<Rightarrow> 32 word \<Rightarrow> 32 word \<Rightarrow> 32 word \<Rightarrow> (32 word \<times> 32 word) option" where
  "split_ratio rnd ratio_p ratio_c nthreads =
     (let total = ratio_p + ratio_c in
      if total = 0 then None
      else
        let share = rnd (real (unat ratio_p) / real (unat total));
            x = \<lfloor>rnd (rnd (share * real (unat nthreads)) + 1 / 2)\<rfloor>
        in if x \<ge> 2 ^ 32 then None
           else let p = clamp_side x nthreads in Some (p, nthreads - p))"

lemma clamp_side_bounds:
  assumes "2 \<le> unat n"
  shows "1 \<le> unat (clamp_side x n)" "unat (clamp_side x n) \<le> unat n - 1"
proof -
  have n1: "unat (n - 1) = unat n - 1" using assms by (subst unat_sub) (auto simp: word_le_nat_alt)
  show "1 \<le> unat (clamp_side x n)" "unat (clamp_side x n) \<le> unat n - 1"
    using n1 assms by (auto simp: clamp_side_def Let_def word_less_nat_alt)
qed

lemma share_le: "i \<le> j \<Longrightarrow> real i / real j \<le> 1"
  by (cases "j = 0") (auto simp: divide_le_eq)

lemma half_less: "k < 2 ^ 32 \<Longrightarrow> real (2 * k + 1) / 2 < 2 ^ 32"
  by simp

lemma split_ratio_defined:
  assumes rnd: "double_rounding rnd" and sum: "unat p + unat c < 2 ^ 32" and p: "p \<noteq> 0"
  shows "\<exists>x. split_ratio rnd p c n = Some x"
proof -
  have tot: "unat (p + c) = unat p + unat c" using sum by (simp add: unat_word_ariths)
  have pos: "0 < unat p" using p by (simp add: unat_gt_0)
  have n: "unat n < 2 ^ 32" using unsigned_less [of n, where ?'a = nat] by simp
  have "real (unat p) / real (unat (p + c)) \<le> 1" by (rule share_le) (simp add: tot)
  then have share: "rnd (real (unat p) / real (unat (p + c))) \<le> 1"
    using rounding_mono [OF rnd, of _ 1] rounding_nat [OF rnd, of 1] by simp
  have "rnd (real (unat p) / real (unat (p + c))) * real (unat n) \<le> real (unat n)"
    using mult_right_mono [OF share of_nat_0_le_iff [of "unat n"]] by simp
  then have "rnd (rnd (real (unat p) / real (unat (p + c))) * real (unat n)) \<le> real (unat n)"
    using rounding_mono [OF rnd, of _ "real (unat n)"] rounding_nat [OF rnd, of "unat n"] n by simp
  then have "rnd (rnd (rnd (real (unat p) / real (unat (p + c))) * real (unat n)) + 1 / 2)
      \<le> rnd (real (2 * unat n + 1) / 2)"
    by (intro rounding_mono [OF rnd]) simp
  also have "\<dots> = real (2 * unat n + 1) / 2" using n by (intro rounding_half [OF rnd]) simp
  also have "\<dots> < 2 ^ 32" using n by (rule half_less)
  finally have "\<lfloor>rnd (rnd (rnd (real (unat p) / real (unat (p + c))) * real (unat n)) + 1 / 2)\<rfloor> < 2 ^ 32"
    by (simp only: floor_less_iff of_int_power of_int_numeral)
  moreover have "p + c \<noteq> 0" using tot pos by (metis add_gr_0 less_numeral_extra(3) unat_0)
  ultimately show ?thesis by (simp add: split_ratio_def Let_def)
qed

text \<open>
  Producers and consumers share the threads: for at least two threads and a ratio whose sum
  does not wrap, the split is defined, uses every thread and leaves neither side empty.
\<close>

lemma split_ratio_total:
  assumes "double_rounding rnd" "unat p + unat c < 2 ^ 32" "p \<noteq> 0" "2 \<le> unat n"
  shows "\<exists>x y. split_ratio rnd p c n = Some (x, y) \<and> unat x + unat y = unat n \<and> 1 \<le> unat x \<and> 1 \<le> unat y"
proof -
  obtain x y where s: "split_ratio rnd p c n = Some (x, y)"
    using split_ratio_defined [OF assms(1-3)] by fast
  then obtain z where x: "x = clamp_side z n" "y = n - x"
    by (auto simp only: split_ratio_def Let_def option.inject prod.inject option.distinct split: if_splits)
  have "1 \<le> unat x" "unat x \<le> unat n - 1"
    using clamp_side_bounds [OF assms(4)] x(1) by simp_all
  moreover have "unat y = unat n - unat x"
    using x(2) calculation(2) by (simp add: unat_sub word_le_nat_alt)
  ultimately show ?thesis using s assms(4) by auto
qed

lemma split_ratio_total_witness:
  "\<exists>x y. split_ratio (\<lambda>x. x) 3 1 8 = Some (x, y) \<and> unat x + unat y = unat (8 :: 32 word) \<and> 1 \<le> unat x \<and> 1 \<le> unat y"
  by (rule split_ratio_total [OF id_rounding]) simp_all

text \<open>
  A ratio whose 32-bit sum is zero passes the option checks, and the infinite share is converted to
  \<^verbatim>\<open>unsigned\<close>.
\<close>

lemma split_ratio_overflow: "split_ratio rnd (4294967295 :: 32 word) 1 n = None"
  by (simp add: split_ratio_def)

section \<open>The split is fair\<close>

lemma share_half:
  assumes rnd: "double_rounding rnd" and tot: "0 < t"
  shows "2 * k \<le> t \<Longrightarrow> rnd (real k / real t) \<le> 1 / 2" "t \<le> 2 * k \<Longrightarrow> 1 / 2 \<le> rnd (real k / real t)"
proof -
  have half: "rnd (1 / 2) = 1 / 2" using rounding_half [OF rnd, of 1] by simp
  show "rnd (real k / real t) \<le> 1 / 2" if "2 * k \<le> t"
  proof -
    have "real (2 * k) \<le> real t" using that by (simp only: of_nat_le_iff)
    then have "real k / real t \<le> 1 / 2" using tot by (simp add: field_simps)
    then show ?thesis using rounding_mono [OF rnd, of _ "1 / 2"] half by simp
  qed
  show "1 / 2 \<le> rnd (real k / real t)" if "t \<le> 2 * k"
  proof -
    have "real t \<le> real (2 * k)" using that by (simp only: of_nat_le_iff)
    then have "1 / 2 \<le> real k / real t" using tot by (simp add: field_simps)
    then show ?thesis using rounding_mono [OF rnd, of "1 / 2"] half by simp
  qed
qed

lemma floor_half: "\<lfloor>real (n + 1) / 2\<rfloor> = int ((n + 1) div 2)"
  using floor_divide_of_nat_eq [of "n + 1" 2, where ?'a = real] by simp

lemma rounded_half:
  assumes rnd: "double_rounding rnd" and n: "n < 2 ^ 32"
  shows "x \<le> 1 / 2 \<Longrightarrow> \<lfloor>rnd (rnd (x * real n) + 1 / 2)\<rfloor> \<le> int ((n + 1) div 2)"
    "1 / 2 \<le> x \<Longrightarrow> int ((n + 1) div 2) \<le> \<lfloor>rnd (rnd (x * real n) + 1 / 2)\<rfloor>"
proof -
  have "1 / 2 * real n = real n / 2" "real n / 2 + 1 / 2 = real (n + 1) / 2" by (simp_all add: add_divide_distrib)
  moreover have "rnd (real n / 2) = real n / 2" "rnd (real (n + 1) / 2) = real (n + 1) / 2"
    by (rule rounding_half [OF rnd], use n in simp)+
  ultimately have at: "rnd (rnd (1 / 2 * real n) + 1 / 2) = real (n + 1) / 2" by metis
  show "\<lfloor>rnd (rnd (x * real n) + 1 / 2)\<rfloor> \<le> int ((n + 1) div 2)" if "x \<le> 1 / 2"
  proof -
    have "rnd (rnd (x * real n) + 1 / 2) \<le> rnd (rnd (1 / 2 * real n) + 1 / 2)"
      using that by (intro rounding_mono [OF rnd] add_right_mono mult_right_mono) simp_all
    then show ?thesis using floor_mono unfolding at floor_half [symmetric] by blast
  qed
  show "int ((n + 1) div 2) \<le> \<lfloor>rnd (rnd (x * real n) + 1 / 2)\<rfloor>" if "1 / 2 \<le> x"
  proof -
    have "rnd (rnd (1 / 2 * real n) + 1 / 2) \<le> rnd (rnd (x * real n) + 1 / 2)"
      using that by (intro rounding_mono [OF rnd] add_right_mono mult_right_mono) simp_all
    then show ?thesis using floor_mono unfolding at floor_half [symmetric] by blast
  qed
qed

lemma clamp_side_value:
  assumes "2 \<le> unat n" "0 \<le> z" "z < 2 ^ 32"
  shows "unat (clamp_side z n) = max 1 (min (nat z) (unat n - 1))"
proof -
  have n1: "unat (n - 1) = unat n - 1" using assms(1) by (subst unat_sub) (auto simp: word_le_nat_alt)
  have z: "unat (of_int z :: 32 word) = nat z" using assms(2,3) by (simp add: unsigned_of_int take_bit_int_eq_self)
  show ?thesis
    using n1 z assms(1) by (auto simp: clamp_side_def Let_def word_less_nat_alt)
qed

text \<open>
  C28.  Splitting the threads of the pc workload, for at least two threads and a ratio that
  \<^verbatim>\<open>parse_args\<close> accepts (no zero) and whose 32-bit sum does not wrap, with doubles that round
  monotonically and exactly on half-integers: the split is defined, uses every thread, gives each
  side at least one, and gives the producers at most half of the threads (rounded up) when their
  share is the smaller one, at least half when it is the larger, so an even ratio splits evenly.
\<close>

theorem split_ratio_fair:
  assumes "double_rounding rnd" "unat p + unat c < 2 ^ 32" "p \<noteq> 0" "c \<noteq> 0" "2 \<le> unat n"
  shows "\<exists>x y. split_ratio rnd p c n = Some (x, y) \<and> unat x + unat y = unat n \<and> 1 \<le> unat x \<and> 1 \<le> unat y \<and>
    (p \<le> c \<longrightarrow> unat x \<le> (unat n + 1) div 2) \<and> (c \<le> p \<longrightarrow> (unat n + 1) div 2 \<le> unat x)"
proof -
  obtain x y where s: "split_ratio rnd p c n = Some (x, y)"
      "unat x + unat y = unat n" "1 \<le> unat x" "1 \<le> unat y"
    using split_ratio_total [OF assms(1-3,5)] by blast
  let ?t = "unat p + unat c"
  let ?z = "\<lfloor>rnd (rnd (rnd (real (unat p) / real ?t) * real (unat n)) + 1 / 2)\<rfloor>"
  have t: "unat (p + c) = ?t" "0 < ?t" using assms(2,3) by (simp_all add: unat_word_ariths unat_gt_0)
  have x: "x = clamp_side ?z n" "?z < 2 ^ 32"
    using s(1) by (auto simp only: split_ratio_def Let_def t(1) option.inject prod.inject option.distinct not_le split: if_splits)
  have n: "unat n < 2 ^ 32" using unsigned_less [of n, where ?'a = nat] by simp
  have zero: "rnd 0 = 0" using rounding_nat [OF assms(1), of 0] by simp
  have pos: "0 \<le> rnd v" if "0 \<le> v" for v using rounding_mono [OF assms(1) that] zero by simp
  have z0: "0 \<le> ?z"
    unfolding zero_le_floor by (intro pos add_nonneg_nonneg mult_nonneg_nonneg divide_nonneg_nonneg of_nat_0_le_iff) simp_all
  note v = clamp_side_value [OF assms(5) z0 x(2), folded x(1)]
  have "unat x \<le> (unat n + 1) div 2" if "p \<le> c"
  proof -
    have "2 * unat p \<le> ?t" using that by (simp add: word_le_nat_alt)
    then have "?z \<le> int ((unat n + 1) div 2)"
      using rounded_half(1) [OF assms(1) n] share_half(1) [OF assms(1) t(2)] by blast
    then show ?thesis using v z0 assms(5) by linarith
  qed
  moreover have "(unat n + 1) div 2 \<le> unat x" if "c \<le> p"
  proof -
    have "?t \<le> 2 * unat p" using that by (simp add: word_le_nat_alt)
    then have "int ((unat n + 1) div 2) \<le> ?z"
      using rounded_half(2) [OF assms(1) n] share_half(2) [OF assms(1) t(2)] by blast
    then show ?thesis using v z0 assms(5) by linarith
  qed
  ultimately show ?thesis using s by blast
qed

theorem split_ratio_fair_witness:
  "\<exists>x y. split_ratio (\<lambda>x. x) 1 3 8 = Some (x, y) \<and> unat x + unat y = 8 \<and> unat x \<le> 4"
proof -
  obtain x y where "split_ratio (\<lambda>x. x) 1 3 8 = Some (x, y)" "unat x + unat y = unat (8 :: 32 word)"
      "(1 :: 32 word) \<le> 3 \<longrightarrow> unat x \<le> (unat (8 :: 32 word) + 1) div 2"
    using split_ratio_fair [OF id_rounding, of 1 3 8] by auto
  then show ?thesis by simp
qed

end
