(* ===== verification/Bench_Args.thy ===== *)
theory Bench_Args imports Prelude "HOL-Library.Word" "HOL-Library.Sublist" begin

text \<open>
  The command line of \<^verbatim>\<open>bench/bench_main.cpp\<close>: \<^verbatim>\<open>parse_thread_list\<close>,
  \<^verbatim>\<open>parse_args\<close> and the choice of queue in \<^verbatim>\<open>main\<close>, with the
  \<^verbatim>\<open>strtoul\<close> of the C library.  \<^verbatim>\<open>unsigned long\<close> and \<^verbatim>\<open>size_t\<close> have 64
  bits, \<^verbatim>\<open>unsigned\<close> has 32; a C string is a list of characters.
\<close>

section \<open>strtoul, base ten\<close>

definition is_space :: "char \<Rightarrow> bool" where
  "is_space c = (let n = of_char c :: nat in n = 32 \<or> 9 \<le> n \<and> n \<le> 13)"

definition is_digit :: "char \<Rightarrow> bool" where
  "is_digit c = (let n = of_char c :: nat in 48 \<le> n \<and> n \<le> 57)"

definition digit_value :: "char \<Rightarrow> nat" where
  "digit_value c = of_char c - 48"

fun read_digits :: "nat \<Rightarrow> string \<Rightarrow> nat \<times> string" where
  "read_digits acc [] = (acc, [])"
| "read_digits acc (c # cs) =
     (if is_digit c then read_digits (acc * 10 + digit_value c) cs else (acc, c # cs))"

definition read_sign :: "string \<Rightarrow> bool \<times> string" where
  "read_sign s =
     (case s of
        [] \<Rightarrow> (False, [])
      | c # cs \<Rightarrow> if c = CHR ''-'' then (True, cs) else if c = CHR ''+'' then (False, cs) else (False, s))"

text \<open>The value, and what is left where \<^verbatim>\<open>end\<close> points; without a digit nothing is
  consumed, and a value that does not fit is \<^verbatim>\<open>ULONG_MAX\<close>.\<close>

definition strtoul :: "string \<Rightarrow> 64 word \<times> string" where
  "strtoul s =
     (let (neg, s1) = read_sign (dropWhile is_space s) in
      if s1 \<noteq> [] \<and> is_digit (hd s1) then
        (let (v, rest) = read_digits 0 s1 in
         (if v \<ge> 2 ^ 64 then - 1 else if neg then - of_nat v else of_nat v, rest))
      else (0, s))"

lemma read_digits_length: "length (snd (read_digits acc s)) \<le> length s"
  by (induction acc s rule: read_digits.induct) auto

lemma read_sign_length: "length (snd (read_sign s)) \<le> length s"
  by (auto simp: read_sign_def split: list.splits)

lemma strtoul_length: "length (snd (strtoul s)) \<le> length s"
proof -
  obtain neg s1 where s1: "read_sign (dropWhile is_space s) = (neg, s1)" by fastforce
  have "length s1 \<le> length s"
    using read_sign_length [of "dropWhile is_space s"] s1 length_dropWhile_le [of is_space s] by simp
  then show ?thesis
    using read_digits_length [of 0 s1] by (auto simp: strtoul_def s1 split: prod.splits)
qed

section \<open>parse_thread_list\<close>

definition skip_comma :: "string \<Rightarrow> string" where
  "skip_comma s = (case s of [] \<Rightarrow> [] | c # cs \<Rightarrow> if c = CHR '','' then cs else s)"

text \<open>\<^verbatim>\<open>end == p\<close> compares positions in one string, so it compares what is left.\<close>

function parse_thread_list :: "string \<Rightarrow> 32 word list" where
  "parse_thread_list s =
     (if s = [] then []
      else
        let v = fst (strtoul s); rest = snd (strtoul s) in
        if length rest = length s \<or> v = 0 then []
        else ucast v # parse_thread_list (skip_comma rest))"
  by pat_completeness auto
termination
proof (relation "measure length")
  fix s :: string and v rest
  assume a: "rest = snd (strtoul s)" "\<not> (length rest = length s \<or> v = 0)"
  have "length (skip_comma rest) \<le> length rest"
    by (auto simp: skip_comma_def split: list.splits)
  then show "(skip_comma rest, s) \<in> measure length" using a strtoul_length [of s] by simp
qed simp

declare parse_thread_list.simps [simp del]

section \<open>parse_args\<close>

record options =
  queue_name :: string
  workload :: string
  ratio_p :: "32 word"
  ratio_c :: "32 word"
  threads :: "32 word list"
  ops_per_thread :: "64 word"
  reps :: "32 word"
  warmup :: "32 word"

definition default_options :: options where
  "default_options =
     \<lparr>queue_name = ''mutex'', workload = ''pairs'', ratio_p = 1, ratio_c = 1, threads = [1, 2, 4, 8],
      ops_per_thread = 100000, reps = 10, warmup = 2\<rparr>"

datatype exit_reason = Unknown_argument string | Invalid_options | Unknown_queue string

definition value_of_key :: "string \<Rightarrow> string \<Rightarrow> string option" where
  "value_of_key key a = (if take (length key) a = key then Some (drop (length key) a) else None)"

definition to_unsigned :: "string \<Rightarrow> 32 word" where
  "to_unsigned v = ucast (fst (strtoul v))"

definition set_ratio :: "string \<Rightarrow> options \<Rightarrow> options" where
  "set_ratio v opt =
     opt\<lparr>ratio_p := to_unsigned v,
         ratio_c := (case snd (strtoul v) of
                       [] \<Rightarrow> 0
                     | c # cs \<Rightarrow> if c = CHR '':'' then to_unsigned cs else 0)\<rparr>"

definition parse_arg :: "string \<Rightarrow> options \<Rightarrow> exit_reason + options" where
  "parse_arg a opt =
     (case value_of_key ''--queue='' a of Some v \<Rightarrow> Inr (opt\<lparr>queue_name := v\<rparr>) | None \<Rightarrow>
      case value_of_key ''--workload='' a of Some v \<Rightarrow> Inr (opt\<lparr>workload := v\<rparr>) | None \<Rightarrow>
      case value_of_key ''--ratio='' a of Some v \<Rightarrow> Inr (set_ratio v opt) | None \<Rightarrow>
      case value_of_key ''--threads='' a of Some v \<Rightarrow> Inr (opt\<lparr>threads := parse_thread_list v\<rparr>) | None \<Rightarrow>
      case value_of_key ''--ops='' a of Some v \<Rightarrow> Inr (opt\<lparr>ops_per_thread := fst (strtoul v)\<rparr>) | None \<Rightarrow>
      case value_of_key ''--reps='' a of Some v \<Rightarrow> Inr (opt\<lparr>reps := to_unsigned v\<rparr>) | None \<Rightarrow>
      case value_of_key ''--warmup='' a of Some v \<Rightarrow> Inr (opt\<lparr>warmup := to_unsigned v\<rparr>) | None \<Rightarrow>
      Inl (Unknown_argument a))"

fun parse_all :: "string list \<Rightarrow> options \<Rightarrow> exit_reason + options" where
  "parse_all [] opt = Inr opt"
| "parse_all (a # as) opt = (case parse_arg a opt of Inl e \<Rightarrow> Inl e | Inr opt' \<Rightarrow> parse_all as opt')"

definition workload_known :: "string \<Rightarrow> bool" where
  "workload_known w = (w = ''pairs'' \<or> w = ''pc'' \<or> w = ''enq'' \<or> w = ''deq'')"

definition options_ok :: "options \<Rightarrow> bool" where
  "options_ok opt =
     (\<not> (threads opt = [] \<or> ops_per_thread opt = 0 \<or> reps opt = 0 \<or> \<not> workload_known (workload opt) \<or>
         ratio_p opt = 0 \<or> ratio_c opt = 0))"

definition parse_args :: "string list \<Rightarrow> exit_reason + options" where
  "parse_args argv =
     (case parse_all argv default_options of
        Inl e \<Rightarrow> Inl e
      | Inr opt \<Rightarrow> if options_ok opt then Inr opt else Inl Invalid_options)"

section \<open>main\<close>

text \<open>Which instantiation of \<^verbatim>\<open>run_suite\<close> runs: the queue, its reclaimer, its padding.\<close>

datatype suite = Mutex_suite | Ms_suite | Ms_hp_suite | Ms_unpadded | Ms_hp_unpadded | Moodycamel

definition select_suite :: "string \<Rightarrow> suite option" where
  "select_suite q =
     (if q = ''mutex'' then Some Mutex_suite
      else if q = ''ms'' then Some Ms_suite
      else if q = ''ms-hp'' then Some Ms_hp_suite
      else if q = ''ms-unpadded'' then Some Ms_unpadded
      else if q = ''ms-hp-unpadded'' then Some Ms_hp_unpadded
      else if q = ''moodycamel'' then Some Moodycamel
      else None)"

definition bench_main :: "string list \<Rightarrow> exit_reason + suite \<times> options" where
  "bench_main argv =
     (case parse_args argv of
        Inl e \<Rightarrow> Inl e
      | Inr opt \<Rightarrow>
          (case select_suite (queue_name opt) of
             None \<Rightarrow> Inl (Unknown_queue (queue_name opt))
           | Some k \<Rightarrow> Inr (k, opt)))"

definition exit_code :: "exit_reason + suite \<times> options \<Rightarrow> nat" where
  "exit_code r = (case r of Inl e \<Rightarrow> 2 | Inr x \<Rightarrow> 0)"

section \<open>Printing: the %u of printf\<close>

definition digit_char :: "nat \<Rightarrow> char" where
  "digit_char d = char_of (48 + d)"

fun decimal :: "nat \<Rightarrow> string" where
  "decimal n = (if n < 10 then [digit_char n] else decimal (n div 10) @ [digit_char (n mod 10)])"

declare decimal.simps [simp del]

end
