(* ===== verification/Bench_Args_Props.thy ===== *)
theory Bench_Args_Props imports Bench_Args begin

text \<open>
  What the command line of the benchmark guarantees: rendered options are read back, whatever is
  accepted satisfies the checks, and what the checks let through that they should not.
\<close>

section \<open>Reading decimal numbers\<close>

lemma of_digit_char: "d < 10 \<Longrightarrow> of_char (digit_char d) = 48 + d"
  by (simp add: digit_char_def)

lemma digit_char_facts:
  assumes "d < 10"
  shows "is_digit (digit_char d)" "digit_value (digit_char d) = d" "\<not> is_space (digit_char d)"
    "digit_char d \<noteq> CHR ''-''" "digit_char d \<noteq> CHR ''+''"
proof -
  show "is_digit (digit_char d)" "digit_value (digit_char d) = d" "\<not> is_space (digit_char d)"
    using assms by (simp_all add: is_digit_def digit_value_def is_space_def of_digit_char Let_def)
  have "of_char (digit_char d) \<noteq> (of_char (CHR ''-'') :: nat)" "of_char (digit_char d) \<noteq> (of_char (CHR ''+'') :: nat)"
    using assms by (simp_all add: of_digit_char)
  then show "digit_char d \<noteq> CHR ''-''" "digit_char d \<noteq> CHR ''+''" by auto
qed

lemma read_decimal: "read_digits acc (decimal n @ s) = read_digits (acc * 10 ^ length (decimal n) + n) s"
proof (induction n arbitrary: acc s rule: decimal.induct)
  case (1 n)
  show ?case
  proof (cases "n < 10")
    case True
    then show ?thesis by (simp add: decimal.simps [of n] digit_char_facts)
  next
    case False
    have "n mod 10 < 10" by simp
    then show ?thesis using 1 [OF False] False
      by (simp add: decimal.simps [of n] digit_char_facts algebra_simps)
  qed
qed

lemma decimal_first: "\<exists>d ds. decimal n = digit_char d # ds \<and> d < 10"
proof (induction n rule: decimal.induct)
  case (1 n)
  then show ?case by (cases "n < 10") (auto simp: decimal.simps [of n])
qed

definition no_digit :: "string \<Rightarrow> bool" where
  "no_digit s = (s = [] \<or> \<not> is_digit (hd s))"

lemma read_digits_stop: "no_digit s \<Longrightarrow> read_digits acc s = (acc, s)"
  by (cases s) (auto simp: no_digit_def)

lemma strtoul_decimal:
  assumes "n < 2 ^ 64" "no_digit s"
  shows "strtoul (decimal n @ s) = (of_nat n, s)"
proof -
  obtain d ds where d: "decimal n = digit_char d # ds" "d < 10" using decimal_first [of n] by blast
  have "read_digits 0 (decimal n @ s) = (n, s)"
    using assms(2) by (simp add: read_decimal read_digits_stop)
  moreover have "read_sign (dropWhile is_space (decimal n @ s)) = (False, decimal n @ s)"
    using d by (simp add: digit_char_facts read_sign_def)
  ultimately show ?thesis
    using assms(1) d by (simp add: strtoul_def digit_char_facts)
qed

lemma narrow_widen: "(ucast (ucast n :: 64 word) :: 32 word) = n"
  by (rule bit_word_eqI) (simp add: bit_simps)

lemma to_unsigned_decimal: "no_digit s \<Longrightarrow> to_unsigned (decimal (unat n) @ s) = n"
  using unsigned_less [of n, where ?'a = nat]
  by (simp add: to_unsigned_def strtoul_decimal narrow_widen)

section \<open>Round trips\<close>

fun commas :: "32 word list \<Rightarrow> string" where
  "commas [] = []"
| "commas [n] = decimal (unat n)"
| "commas (n # ns) = decimal (unat n) @ '','' @ commas ns"

lemma no_digit_simps [simp]: "no_digit []" "no_digit (CHR '','' # s)" "no_digit (CHR '':'' # s)"
  by (simp_all add: no_digit_def is_digit_def)

lemma strtoul_unsigned:
  "no_digit s \<Longrightarrow> strtoul (decimal (unat n) @ s) = (of_nat (unat n), s)" for n :: "32 word"
  using unsigned_less [of n, where ?'a = nat] by (simp add: strtoul_decimal)

lemma small_not_zero: "n \<noteq> 0 \<Longrightarrow> (of_nat (unat n) :: 64 word) \<noteq> 0" for n :: "32 word"
  using narrow_widen [of n] by auto

lemma decimal_length: "0 < length (decimal n)"
  using decimal_first [of n] by auto

lemma parse_one:
  fixes n :: "32 word"
  assumes "n \<noteq> 0" "no_digit s"
  shows "parse_thread_list (decimal (unat n) @ s) = n # parse_thread_list (skip_comma s)"
  using assms decimal_length [of "unat n"] small_not_zero [of n]
  by (simp add: parse_thread_list.simps [of "decimal (unat n) @ s"] strtoul_unsigned narrow_widen Let_def)

lemma parse_commas: "0 \<notin> set ns \<Longrightarrow> parse_thread_list (commas ns) = ns"
proof (induction ns rule: commas.induct)
  case 1
  then show ?case by (simp add: parse_thread_list.simps [of "[]"])
next
  case (2 n)
  then show ?case
    using parse_one [of n "[]"] by (simp add: skip_comma_def parse_thread_list.simps [of "[]"])
next
  case (3 n m ns)
  then show ?case
    using parse_one [of n "CHR '','' # commas (m # ns)"] by (simp add: skip_comma_def)
qed

text \<open>The command line that stands for given options.\<close>

definition render_options :: "options \<Rightarrow> string list" where
  "render_options opt =
     [''--queue='' @ queue_name opt, ''--workload='' @ workload opt,
      ''--ratio='' @ decimal (unat (ratio_p opt)) @ '':'' @ decimal (unat (ratio_c opt)),
      ''--threads='' @ commas (threads opt), ''--ops='' @ decimal (unat (ops_per_thread opt)),
      ''--reps='' @ decimal (unat (reps opt)), ''--warmup='' @ decimal (unat (warmup opt))]"

lemma set_ratio_decimal:
  "set_ratio (decimal (unat p) @ CHR '':'' # decimal (unat c)) opt = opt\<lparr>ratio_p := p, ratio_c := c\<rparr>"
  using to_unsigned_decimal [of "CHR '':'' # decimal (unat c)" p] to_unsigned_decimal [of "[]" c]
  by (simp add: set_ratio_def strtoul_unsigned)

lemma strtoul_word: "fst (strtoul (decimal (unat n))) = n" for n :: "64 word"
  using strtoul_decimal [of "unat n" "[]"] unsigned_less [of n, where ?'a = nat] by simp

lemma to_unsigned_word: "to_unsigned (decimal (unat n)) = n"
  using to_unsigned_decimal [of "[]" n] by simp

text \<open>
  C25.  The command line is read back: rendering options that pass the checks of \<^verbatim>\<open>parse_args\<close>
  and whose thread list holds no zero, and parsing the result, gives the same options, numbers at
  full width included.  (The checks alone let a zero pass, as \<^verbatim>\<open>--threads=4294967296\<close> does,
  which \<^verbatim>\<open>parse_thread_list\<close> would not read back.)
\<close>

theorem parse_args_roundtrip:
  assumes "options_ok opt" "0 \<notin> set (threads opt)"
  shows "parse_args (render_options opt) = Inr opt"
  using assms
  by (simp add: parse_args_def render_options_def parse_arg_def value_of_key_def set_ratio_decimal
      strtoul_word to_unsigned_word parse_commas default_options_def options_ok_def)

theorem parse_args_roundtrip_witness:
  "parse_args (render_options (default_options\<lparr>threads := [16, 4294967295], ratio_p := 3\<rparr>)) =
     Inr (default_options\<lparr>threads := [16, 4294967295], ratio_p := 3\<rparr>)"
  by (rule parse_args_roundtrip) (simp_all add: options_ok_def default_options_def workload_known_def)

text \<open>
  C26.  A run only starts with options that passed every check and with the queue that was named;
  anything else ends with exit code 2, and naming nothing runs the mutex queue with the defaults.
\<close>

theorem bench_main_checked:
  assumes "exit_code (bench_main argv) = 0"
  shows "\<exists>k opt. bench_main argv = Inr (k, opt) \<and> select_suite (queue_name opt) = Some k \<and>
    threads opt \<noteq> [] \<and> ops_per_thread opt \<noteq> 0 \<and> reps opt \<noteq> 0 \<and>
    workload_known (workload opt) \<and> ratio_p opt \<noteq> 0 \<and> ratio_c opt \<noteq> 0"
proof -
  obtain opt where ok: "parse_args argv = Inr opt"
    using assms by (cases "parse_args argv") (simp_all add: bench_main_def exit_code_def)
  then obtain k where k: "select_suite (queue_name opt) = Some k"
    using assms by (cases "select_suite (queue_name opt)") (simp_all add: bench_main_def exit_code_def)
  have "options_ok opt"
    using ok by (simp add: parse_args_def split: sum.splits if_splits)
  then show ?thesis using ok k by (simp add: bench_main_def options_ok_def)
qed

theorem bench_main_checked_witness:
  "\<exists>k opt. bench_main [] = Inr (k, opt) \<and> select_suite (queue_name opt) = Some k \<and>
    threads opt \<noteq> [] \<and> ops_per_thread opt \<noteq> 0 \<and> reps opt \<noteq> 0 \<and>
    workload_known (workload opt) \<and> ratio_p opt \<noteq> 0 \<and> ratio_c opt \<noteq> 0"
  by (rule bench_main_checked) code_simp

text \<open>
  The zero check of \<^verbatim>\<open>parse_thread_list\<close> is made before the cast to 32 bits: a count
  that is a multiple of \<open>2\<^sup>3\<^sup>2\<close> passes it and becomes zero threads.
\<close>

lemma thread_count_truncated:
  "parse_args [''--threads=4294967296''] = Inr (default_options\<lparr>threads := [0]\<rparr>)"
proof -
  have d: "''4294967296'' = decimal 4294967296"
    by (simp add: decimal.simps digit_char_def char_of_def bit_numeral_rec bit_0)
  have "parse_thread_list (decimal 4294967296) = [0]"
    using strtoul_decimal [of 4294967296 "[]"] decimal_length [of 4294967296]
    by (simp add: parse_thread_list.simps skip_comma_def Let_def)
  then have "parse_thread_list ''4294967296'' = [0]" using d by simp
  then show ?thesis
    by (simp add: parse_args_def parse_arg_def value_of_key_def default_options_def options_ok_def
        workload_known_def)
qed

end
