(* ===== verification/Bench_Plan.thy ===== *)
theory Bench_Plan imports Bench_Stats Bench_Args_Props begin

text \<open>
  \<^verbatim>\<open>run_suite\<close> of \<^verbatim>\<open>bench/bench_main.cpp\<close> without its clock: which configurations
  run, under which label, with how many operations, and which rows they print.  \<open>None\<close> is
  undefined behaviour.
\<close>

section \<open>The rows of a run\<close>

text \<open>\<^verbatim>\<open>snprintf\<close> into \<^verbatim>\<open>char[32]\<close> keeps 31 characters.\<close>

definition workload_label :: "string \<Rightarrow> 32 word \<Rightarrow> 32 word \<Rightarrow> string" where
  "workload_label w p c =
     take 31 (if w = ''pc'' then ''pc_'' @ decimal (unat p) @ ''p'' @ decimal (unat c) @ ''c'' else w)"

text \<open>\<^verbatim>\<open>ops_total\<close> of the four trials.\<close>

definition ops_total :: "string \<Rightarrow> 32 word \<Rightarrow> 32 word \<Rightarrow> 64 word \<Rightarrow> 64 word" where
  "ops_total w nthreads producers ops =
     (if w = ''pairs'' then ucast nthreads * ops * 2
      else if w = ''pc'' then ucast producers * ops * 2
      else ucast nthreads * ops)"

record row =
  row_label :: string
  row_threads :: "32 word"
  row_rep :: nat
  row_ops :: "64 word"

definition config_split :: "(real \<Rightarrow> real) \<Rightarrow> options \<Rightarrow> 32 word \<Rightarrow> (32 word \<times> 32 word) option" where
  "config_split rnd opt n =
     (if workload opt = ''pc'' then split_ratio rnd (ratio_p opt) (ratio_c opt) n else Some (0, 0))"

definition config_rows :: "(real \<Rightarrow> real) \<Rightarrow> options \<Rightarrow> 32 word \<Rightarrow> row list option" where
  "config_rows rnd opt n =
     (if workload opt = ''pc'' \<and> n < 2 then Some []
      else
        case config_split rnd opt n of
          None \<Rightarrow> None
        | Some (p, c) \<Rightarrow>
            (let rs = reported_reps (warmup opt) (reps opt) in
             if rs = [] then None
             else Some (map (\<lambda>r. \<lparr>row_label = workload_label (workload opt) p c, row_threads = n,
                row_rep = r, row_ops = ops_total (workload opt) n p (ops_per_thread opt)\<rparr>) rs)))"

fun suite_rows :: "(real \<Rightarrow> real) \<Rightarrow> options \<Rightarrow> 32 word list \<Rightarrow> row list option" where
  "suite_rows rnd opt [] = Some []"
| "suite_rows rnd opt (n # ns) =
     (case config_rows rnd opt n of
        None \<Rightarrow> None
      | Some rs \<Rightarrow> map_option ((@) rs) (suite_rows rnd opt ns))"

section \<open>Properties\<close>

definition runnable :: "options \<Rightarrow> 32 word \<Rightarrow> bool" where
  "runnable opt n \<longleftrightarrow> \<not> (workload opt = ''pc'' \<and> n < 2)"

definition no_wrap :: "options \<Rightarrow> bool" where
  "no_wrap opt \<longleftrightarrow>
     unat (warmup opt) + unat (reps opt) < 2 ^ 32 \<and> unat (ratio_p opt) + unat (ratio_c opt) < 2 ^ 32"

lemma reported_no_wrap:
  "no_wrap opt \<Longrightarrow> reported_reps (warmup opt) (reps opt) = [0 ..< unat (reps opt)]"
  by (simp add: no_wrap_def reported_reps_eq reps_sum)

lemma config_rows_defined:
  assumes "double_rounding rnd" "options_ok opt" "no_wrap opt"
  shows "\<exists>rs. config_rows rnd opt n = Some rs \<and>
    map (\<lambda>r. (row_threads r, row_rep r)) rs =
      (if runnable opt n then map (Pair n) [0 ..< unat (reps opt)] else [])"
proof (cases "runnable opt n")
  case True
  have "0 < unat (reps opt)" using assms(2) by (simp add: options_ok_def unat_gt_0)
  then have ne: "[0 ..< unat (reps opt)] \<noteq> []" by simp
  have "\<exists>x. config_split rnd opt n = Some x"
    using split_ratio_defined [OF assms(1), of "ratio_p opt" "ratio_c opt" n] assms(2,3)
    by (simp add: config_split_def options_ok_def no_wrap_def)
  then obtain p c where "config_split rnd opt n = Some (p, c)" by fast
  then show ?thesis
    using True ne by (simp add: config_rows_def runnable_def reported_no_wrap [OF assms(3)] Let_def comp_def)
next
  case False
  then show ?thesis by (simp add: config_rows_def runnable_def)
qed

text \<open>
  C29.  With options that pass the checks of \<^verbatim>\<open>parse_args\<close> and whose 32-bit sums
  (\<^verbatim>\<open>warmup + reps\<close> and the ratio) do not wrap, and with doubles that round monotonically and
  exactly on half-integers, a run is defined and prints exactly the rows asked for: for every
  thread count that can run the workload, in order, repetitions 0 to \<^verbatim>\<open>reps\<close> - 1 once each.
\<close>

theorem suite_rows_complete:
  assumes "double_rounding rnd" "options_ok opt" "no_wrap opt"
  shows "\<exists>rs. suite_rows rnd opt ns = Some rs \<and>
    map (\<lambda>r. (row_threads r, row_rep r)) rs =
      concat (map (\<lambda>n. map (Pair n) [0 ..< unat (reps opt)]) (filter (runnable opt) ns))"
proof (induction ns)
  case (Cons n ns)
  obtain rs where "config_rows rnd opt n = Some rs"
    "map (\<lambda>r. (row_threads r, row_rep r)) rs =
      (if runnable opt n then map (Pair n) [0 ..< unat (reps opt)] else [])"
    using config_rows_defined [OF assms, of n] by blast
  then show ?case using Cons.IH by auto
qed simp

theorem suite_rows_complete_witness:
  "\<exists>rs. suite_rows (\<lambda>x. x) (default_options\<lparr>workload := ''pc''\<rparr>) [1, 2, 4] = Some rs \<and>
    map (\<lambda>r. (row_threads r, row_rep r)) rs =
      concat (map (\<lambda>n. map (Pair n) [0 ..< unat (10 :: 32 word)])
        (filter (runnable (default_options\<lparr>workload := ''pc''\<rparr>)) [1, 2, 4]))"
  using suite_rows_complete [OF id_rounding, of "default_options\<lparr>workload := ''pc''\<rparr>" "[1, 2, 4]"]
  by (simp add: options_ok_def no_wrap_def default_options_def workload_known_def)

lemma decimal_bound: "n < 10 ^ k \<Longrightarrow> 0 < k \<Longrightarrow> length (decimal n) \<le> k"
proof (induction n arbitrary: k rule: decimal.induct)
  case (1 n)
  show ?case
  proof (cases "n < 10")
    case True
    then show ?thesis using 1 by (simp add: decimal.simps [of n])
  next
    case False
    then obtain j where j: "k = Suc j" using 1 by (cases k) auto
    with False 1 have "0 < j" by (cases j) auto
    then show ?thesis
      using 1(1) [OF False, of j] 1(2) False j by (simp add: decimal.simps [of n])
  qed
qed

text \<open>
  The label of a producer-consumer row always fits the 32-byte buffer: it names the actual
  split in full, whatever the thread counts.
\<close>

lemma pc_label_untruncated:
  "workload_label ''pc'' p c = ''pc_'' @ decimal (unat p) @ ''p'' @ decimal (unat c) @ ''c''"
proof -
  have "unat n < 10 ^ 10" for n :: "32 word"
    using unsigned_less [of n, where ?'a = nat] by simp
  then have "length (decimal (unat p)) \<le> 10" "length (decimal (unat c)) \<le> 10"
    using decimal_bound [of _ 10] by simp_all
  then show ?thesis by (simp add: workload_label_def)
qed

end
