(* ===== verification/Bench_Trials.thy ===== *)
theory Bench_Trials imports Complex_Main Machine Bench_Stats Hp_Queue Mutex_Queue begin

unbundle bit_operations_syntax

text \<open>
  \<^verbatim>\<open>spin_barrier\<close> and \<^verbatim>\<open>pin_to_core\<close> of \<^verbatim>\<open>bench/harness.hpp\<close> and the trials of
  \<^verbatim>\<open>bench/bench_main.cpp\<close>, \<^verbatim>\<open>run_threads\<close> with its four bodies, over any queue:
  a program of theory Machine with the answer a program point is about to give.  The barrier,
  \<^verbatim>\<open>all_pinned\<close> and \<^verbatim>\<open>consumed\<close> are atomics in a memory of their own.  The vectors
  \<^verbatim>\<open>out[t]\<close> are plain objects in another one, in which only starting and joining a thread orders
  accesses, fewer than in the program: an access it allows is ordered there too.  The clock is a
  number of nanoseconds that each step lets advance by as much as the schedule likes, and whether
  \<^verbatim>\<open>pthread_setaffinity_np\<close> succeeds is the schedule's choice.  The stores of \<^verbatim>\<open>false\<close> to
  \<^verbatim>\<open>all_pinned\<close> are exchanges, since a store of theory Memory must follow the last one;
  as they all store the same value their order does not matter.
\<close>

section \<open>The machine the benchmark runs on\<close>

text \<open>Whether \<^verbatim>\<open>__linux__\<close> is defined, what \<^verbatim>\<open>hardware_concurrency()\<close> returns, and how doubles
  round.\<close>

record host =
  linux :: bool
  concurrency :: "32 word"
  rounding :: "real \<Rightarrow> real"

text \<open>The core \<^verbatim>\<open>pin_to_core\<close> asks for: \<open>None\<close> is a division by zero.\<close>

definition core_of :: "host \<Rightarrow> 32 word \<Rightarrow> 32 word option" where
  "core_of H k = (if concurrency H = 0 then None else Some (k mod concurrency H))"

section \<open>Atomics of a trial\<close>

datatype ctl_loc = Arrived | Go | All_pinned | Consumed

datatype ctl_cell = I32 "32 word" | Yes bool | Size "64 word"

fun i32 :: "ctl_cell \<Rightarrow> 32 word" where
  "i32 (I32 n) = n"
| "i32 (Yes b) = 0"
| "i32 (Size n) = 0"

fun yes :: "ctl_cell \<Rightarrow> bool" where
  "yes (Yes b) = b"
| "yes (I32 n) = False"
| "yes (Size n) = False"

fun size_t :: "ctl_cell \<Rightarrow> 64 word" where
  "size_t (Size n) = n"
| "size_t (I32 m) = 0"
| "size_t (Yes b) = 0"

fun cell_of :: "ctl_cell result \<Rightarrow> ctl_cell" where
  "cell_of (Val c) = c"
| "cell_of (Swapped b c) = c"
| "cell_of (Addr a) = Yes False"
| "cell_of Unit = Yes False"

type_synonym ctl_action = "(ctl_loc, ctl_cell) action"

text \<open>The accesses of \<^verbatim>\<open>spin_barrier\<close>.\<close>

definition arrive :: ctl_action where
  "arrive = Rmw Arrived (\<lambda>c. I32 (i32 c + 1)) relaxed"

definition await_go :: ctl_action where
  "await_go = Load Go acquire"

definition await_arrivals :: ctl_action where
  "await_arrivals = Load Arrived relaxed"

definition driver_release :: ctl_action where
  "driver_release = Store Go (Yes True) release"

text \<open>\<^verbatim>\<open>arrived_.load() < static_cast<int>(n)\<close>, a comparison of signed integers.\<close>

definition all_arrived :: "32 word \<Rightarrow> 32 word \<Rightarrow> bool" where
  "all_arrived n x \<longleftrightarrow> sint n \<le> sint x"

section \<open>Configurations\<close>

datatype trial =
    Pairs "32 word" "64 word"
  | Pc "32 word" "32 word" "64 word"
  | Enq "32 word" "64 word"
  | Deq "32 word" "64 word"

fun threads_of :: "trial \<Rightarrow> 32 word" where
  "threads_of (Pairs n k) = n"
| "threads_of (Pc p c k) = p + c"
| "threads_of (Enq n k) = n"
| "threads_of (Deq n k) = n"

text \<open>\<^verbatim>\<open>total\<close>, what the consumers of the pc and deq trials stop at.\<close>

fun total_of :: "trial \<Rightarrow> 64 word" where
  "total_of (Pairs n k) = 0"
| "total_of (Pc p c k) = ucast p * k"
| "total_of (Enq n k) = 0"
| "total_of (Deq n k) = ucast n * k"

fun prefill_of :: "trial \<Rightarrow> 64 word" where
  "prefill_of (Deq n k) = ucast n * k"
| "prefill_of T = 0"

fun quota_of :: "trial \<Rightarrow> 64 word" where
  "quota_of (Pairs n k) = k"
| "quota_of (Pc p c k) = k"
| "quota_of (Enq n k) = k"
| "quota_of (Deq n k) = 0"

fun ops_total_of :: "trial \<Rightarrow> 64 word" where
  "ops_total_of (Pairs n k) = ucast n * k * 2"
| "ops_total_of (Pc p c k) = ucast p * k * 2"
| "ops_total_of (Enq n k) = ucast n * k"
| "ops_total_of (Deq n k) = ucast n * k"

text \<open>Which trial \<^verbatim>\<open>run_suite\<close> runs for a workload.\<close>

definition trial_of :: "string \<Rightarrow> 32 word \<Rightarrow> 32 word \<Rightarrow> 32 word \<Rightarrow> 64 word \<Rightarrow> trial" where
  "trial_of workload nthreads p c ops =
     (if workload = ''pairs'' then Pairs nthreads ops
      else if workload = ''pc'' then Pc p c ops
      else if workload = ''enq'' then Enq nthreads ops
      else Deq nthreads ops)"

fun is_pairs :: "trial \<Rightarrow> bool" where
  "is_pairs (Pairs n k) \<longleftrightarrow> True"
| "is_pairs T \<longleftrightarrow> False"

text \<open>\<^verbatim>\<open>(static_cast<uint64_t>(t) << 32) | static_cast<uint64_t>(i)\<close>.\<close>

definition element :: "nat \<Rightarrow> 64 word \<Rightarrow> 64 word" where
  "element t i = push_bit 32 (ucast (of_nat t :: 32 word)) OR i"

section \<open>Workers\<close>

text \<open>The latency vectors of a worker, and what it has reserved for them.\<close>

record worker_out =
  enq_ns :: "64 word list"
  deq_ns :: "64 word list"
  enq_reserved :: nat
  deq_reserved :: nat

text \<open>The points of the loops, with their locals: \<open>i\<close>, \<open>t0\<close> or \<open>t1\<close>, and
  \<open>got\<close>.\<close>

datatype body =
    B_next "64 word"
  | B_enqueue "64 word" "64 word"
  | B_enqueuing "64 word" "64 word"
  | B_enqueued "64 word" "64 word"
  | B_dequeue "64 word" "64 word"
  | B_dequeuing "64 word" "64 word"
  | B_dequeued "64 word" "64 word" "64 word"
  | C_next
  | C_poll "64 word"
  | C_dequeue "64 word"
  | C_dequeuing "64 word"
  | C_count "64 word" "64 word"
  | C_counted "64 word" "64 word"

text \<open>\<open>Ending\<close> and \<open>Exiting\<close> are the destructors of \<^verbatim>\<open>thread_local\<close> objects at the end of a
  thread.\<close>

datatype worker =
    Unborn
  | Pinning
  | Unpinned
  | Arriving
  | At_line
  | Reserving
  | Body body
  | Ending
  | Exiting
  | Gone

record trial_result =
  seconds :: real
  pinned :: bool
  ops_total :: "64 word"
  all_enq_ns :: "64 word list"
  all_deq_ns :: "64 word list"

datatype driver =
    Filling "64 word"
  | In_fill "64 word"
  | Spawning nat
  | Lining_up
  | Timing
  | Releasing "64 word"
  | Joining "64 word" nat
  | Joined "64 word"
  | Collecting "64 word" "64 word"
  | Merging "64 word" "64 word" bool nat "64 word list" "64 word list"
  | Reported trial_result

record 'q trial_state =
  fifo :: 'q
  ctl :: "(ctl_loc, ctl_cell) memory"
  clock :: nat
  workers :: "nat \<Rightarrow> worker"
  outs :: "(nat, worker_out) memory"
  driver :: driver

text \<open>\<^verbatim>\<open>now_ns\<close>.\<close>

definition now_ns :: "'q trial_state \<Rightarrow> 64 word" where
  "now_ns S = of_nat (clock S)"

fun proceed :: "'s verdict \<Rightarrow> ('s \<Rightarrow> 't verdict) \<Rightarrow> 't verdict" where
  "proceed (Running s) f = f s"
| "proceed (Crashed e) f = Crashed e"

definition goto :: "nat \<Rightarrow> worker \<Rightarrow> 'q trial_state \<Rightarrow> 'q trial_state verdict" where
  "goto t w S = Running (S\<lparr>workers := (workers S)(t := w)\<rparr>)"

definition on_ctl :: "nat \<Rightarrow> ctl_action \<Rightarrow> nat \<times> bool \<Rightarrow> 'q trial_state
    \<Rightarrow> (ctl_cell \<Rightarrow> 'q trial_state \<Rightarrow> 'q trial_state verdict) \<Rightarrow> 'q trial_state verdict" where
  "on_ctl t x c S f =
     (case mem_step t x c (ctl S) of
        Blocked \<Rightarrow> Running S
      | Ub e \<Rightarrow> Crashed e
      | Done r M \<Rightarrow> f (cell_of r) (S\<lparr>ctl := M\<rparr>))"

text \<open>What a thread of a trial does with the queue: it enqueues, dequeues, and ends.\<close>

datatype bench_op = Put "64 word" | Take | Leave

type_synonym ('l, 'v, 'p, 'e) bench_program = "('l, 'v, 'p, bench_op, 'e) program"

definition on_fifo :: "('l, 'v, 'p, 'e) bench_program \<Rightarrow> bench_op command
    \<Rightarrow> ('l, 'v, 'p, 'e) state trial_state
    \<Rightarrow> (('l, 'v, 'p, 'e) state trial_state \<Rightarrow> ('l, 'v, 'p, 'e) state trial_state verdict)
    \<Rightarrow> ('l, 'v, 'p, 'e) state trial_state verdict" where
  "on_fifo Q c S f = proceed (exec Q c (fifo S)) (\<lambda>q. f (S\<lparr>fifo := q\<rparr>))"

text \<open>A step of the call thread \<open>t\<close> is in; \<open>f\<close> takes over once it has returned.\<close>

definition in_call :: "('l, 'v, 'p, 'e) bench_program \<Rightarrow> ('p \<Rightarrow> 64 word ret option)
    \<Rightarrow> nat \<Rightarrow> nat \<times> bool \<Rightarrow> ('l, 'v, 'p, 'e) state trial_state
    \<Rightarrow> (64 word ret \<Rightarrow> ('l, 'v, 'p, 'e) state trial_state \<Rightarrow> ('l, 'v, 'p, 'e) state trial_state verdict)
    \<Rightarrow> ('l, 'v, 'p, 'e) state trial_state verdict" where
  "in_call Q ans t c S f =
     on_fifo Q (Step t (fst c) (snd c)) S
       (\<lambda>S'. case ans (thr (fifo S) t) of None \<Rightarrow> Running S' | Some y \<Rightarrow> f y S')"

text \<open>An access to \<^verbatim>\<open>out\<close>, and a change of \<^verbatim>\<open>out[t]\<close> by its thread: both are plain.\<close>

definition no_output :: worker_out where
  "no_output = \<lparr>enq_ns = [], deq_ns = [], enq_reserved = 0, deq_reserved = 0\<rparr>"

fun vectors :: "worker_out result \<Rightarrow> worker_out" where
  "vectors (Val x) = x"
| "vectors (Swapped b x) = x"
| "vectors (Addr a) = no_output"
| "vectors Unit = no_output"

definition on_outs :: "nat \<Rightarrow> (nat, worker_out) action \<Rightarrow> 'q trial_state
    \<Rightarrow> (worker_out \<Rightarrow> 'q trial_state \<Rightarrow> 'q trial_state verdict) \<Rightarrow> 'q trial_state verdict" where
  "on_outs t x S f =
     (case mem_step t x (0, True) (outs S) of
        Blocked \<Rightarrow> Running S
      | Ub e \<Rightarrow> Crashed e
      | Done r M \<Rightarrow> f (vectors r) (S\<lparr>outs := M\<rparr>))"

definition change_out :: "nat \<Rightarrow> (worker_out \<Rightarrow> worker_out) \<Rightarrow> 'q trial_state
    \<Rightarrow> ('q trial_state \<Rightarrow> 'q trial_state verdict) \<Rightarrow> 'q trial_state verdict" where
  "change_out t g S f = on_outs t (Read t) S (\<lambda>x S1. on_outs t (Write t (g x)) S1 (\<lambda>_. f))"

text \<open>\<^verbatim>\<open>push_back\<close> of a latency.\<close>

definition push_enq :: "64 word \<Rightarrow> worker_out \<Rightarrow> worker_out" where
  "push_enq x o' = o'\<lparr>enq_ns := enq_ns o' @ [x]\<rparr>"

definition push_deq :: "64 word \<Rightarrow> worker_out \<Rightarrow> worker_out" where
  "push_deq x o' = o'\<lparr>deq_ns := deq_ns o' @ [x]\<rparr>"

text \<open>What a body reserves, and where its loop starts.\<close>

fun reserves :: "trial \<Rightarrow> nat \<Rightarrow> worker_out \<Rightarrow> worker_out" where
  "reserves (Pairs n k) t o' = o'\<lparr>enq_reserved := unat k, deq_reserved := unat k\<rparr>"
| "reserves (Pc p c k) t o' =
     (if t < unat p then o'\<lparr>enq_reserved := unat k\<rparr>
      else o'\<lparr>deq_reserved := unat (ucast p * k div ucast c + 1)\<rparr>)"
| "reserves (Enq n k) t o' = o'\<lparr>enq_reserved := unat k\<rparr>"
| "reserves (Deq n k) t o' = o'\<lparr>deq_reserved := unat (k * 2)\<rparr>"

fun entry :: "trial \<Rightarrow> nat \<Rightarrow> body" where
  "entry (Pairs n k) t = B_next 0"
| "entry (Pc p c k) t = (if t < unat p then B_next 0 else C_next)"
| "entry (Enq n k) t = B_next 0"
| "entry (Deq n k) t = C_next"

fun body_step :: "('l, 'v, 'p, 'e) bench_program \<Rightarrow> ('p \<Rightarrow> 64 word ret option) \<Rightarrow> trial
    \<Rightarrow> nat \<Rightarrow> nat \<times> bool \<Rightarrow> ('l, 'v, 'p, 'e) state trial_state \<Rightarrow> body
    \<Rightarrow> ('l, 'v, 'p, 'e) state trial_state verdict" where
  "body_step Q ans T t c S (B_next i) =
     (if i < quota_of T then goto t (Body (B_enqueue i (now_ns S))) S else goto t Ending S)"
| "body_step Q ans T t c S (B_enqueue i t0) =
     on_fifo Q (Invoke t (Put (element t i))) S (goto t (Body (B_enqueuing i t0)))"
| "body_step Q ans T t c S (B_enqueuing i t0) =
     in_call Q ans t c S (\<lambda>y. goto t (Body (B_enqueued i t0)))"
| "body_step Q ans T t c S (B_enqueued i t0) =
     (let t1 = now_ns S in
      change_out t (push_enq (t1 - t0)) S
        (goto t (Body (if is_pairs T then B_dequeue i t1 else B_next (i + 1)))))"
| "body_step Q ans T t c S (B_dequeue i t1) =
     on_fifo Q (Invoke t Take) S (goto t (Body (B_dequeuing i t1)))"
| "body_step Q ans T t c S (B_dequeuing i t1) =
     in_call Q ans t c S
       (\<lambda>y. case y of
          Dequeued (Some v) \<Rightarrow> goto t (Body (B_dequeued i t1 v))
        | _ \<Rightarrow> goto t (Body (B_dequeue i t1)))"
| "body_step Q ans T t c S (B_dequeued i t1 got) =
     change_out t (push_deq (now_ns S - t1)) S (goto t (Body (B_next (i + 1))))"
| "body_step Q ans T t c S C_next = goto t (Body (C_poll (now_ns S))) S"
| "body_step Q ans T t c S (C_poll t0) =
     on_ctl t (Load Consumed relaxed) c S
       (\<lambda>x. goto t (if size_t x < total_of T then Body (C_dequeue t0) else Ending))"
| "body_step Q ans T t c S (C_dequeue t0) =
     on_fifo Q (Invoke t Take) S (goto t (Body (C_dequeuing t0)))"
| "body_step Q ans T t c S (C_dequeuing t0) =
     in_call Q ans t c S
       (\<lambda>y. case y of
          Dequeued (Some v) \<Rightarrow> goto t (Body (C_count t0 v))
        | _ \<Rightarrow> goto t (Body (C_poll t0)))"
| "body_step Q ans T t c S (C_count t0 got) =
     on_ctl t (Rmw Consumed (\<lambda>x. Size (size_t x + 1)) relaxed) c S
       (\<lambda>x. goto t (Body (C_counted t0 got)))"
| "body_step Q ans T t c S (C_counted t0 got) =
     change_out t (push_deq (now_ns S - t0)) S (goto t (Body C_next))"

text \<open>The lambda \<^verbatim>\<open>run_threads\<close> gives to each thread, and the end of the thread.\<close>

fun worker_step :: "host \<Rightarrow> ('l, 'v, 'p, 'e) bench_program \<Rightarrow> ('p \<Rightarrow> 64 word ret option) \<Rightarrow> trial
    \<Rightarrow> nat \<Rightarrow> nat \<times> bool \<Rightarrow> ('l, 'v, 'p, 'e) state trial_state \<Rightarrow> worker
    \<Rightarrow> ('l, 'v, 'p, 'e) state trial_state verdict" where
  "worker_step H Q ans T t c S Unborn = Running S"
| "worker_step H Q ans T t c S Pinning =
     (if linux H then
        (case core_of H (of_nat t) of
           None \<Rightarrow> Crashed Zero_division
         | Some k \<Rightarrow> goto t (if snd c then Arriving else Unpinned) S)
      else goto t Unpinned S)"
| "worker_step H Q ans T t c S Unpinned =
     on_ctl t (Rmw All_pinned (\<lambda>x. Yes False) relaxed) c S (\<lambda>x. goto t Arriving)"
| "worker_step H Q ans T t c S Arriving = on_ctl t arrive c S (\<lambda>x. goto t At_line)"
| "worker_step H Q ans T t c S At_line =
     on_ctl t await_go c S (\<lambda>x. goto t (if yes x then Reserving else At_line))"
| "worker_step H Q ans T t c S Reserving = change_out t (reserves T t) S (goto t (Body (entry T t)))"
| "worker_step H Q ans T t c S (Body b) = body_step Q ans T t c S b"
| "worker_step H Q ans T t c S Ending = on_fifo Q (Invoke t Leave) S (goto t Exiting)"
| "worker_step H Q ans T t c S Exiting =
     (if idle Q (thr (fifo S) t) then goto t Gone S
      else on_fifo Q (Step t (fst c) (snd c)) S Running)"
| "worker_step H Q ans T t c S Gone = Running S"

section \<open>The driver\<close>

text \<open>Thread \<open>t\<close> starts, or has been joined: \<open>u\<close> learns what \<open>t\<close> knows.\<close>

definition hand_over :: "('l, 'v, 'p, 'e) bench_program \<Rightarrow> nat \<Rightarrow> nat
    \<Rightarrow> ('l, 'v, 'p, 'e) state trial_state
    \<Rightarrow> (('l, 'v, 'p, 'e) state trial_state \<Rightarrow> ('l, 'v, 'p, 'e) state trial_state verdict)
    \<Rightarrow> ('l, 'v, 'p, 'e) state trial_state verdict" where
  "hand_over Q t u S f = on_fifo Q (Sync t u)
     (S\<lparr>ctl := synchronize t u (ctl S), outs := synchronize t u (outs S)\<rparr>) f"

definition steer :: "driver \<Rightarrow> 'q trial_state \<Rightarrow> 'q trial_state verdict" where
  "steer d S = Running (S\<lparr>driver := d\<rparr>)"

text \<open>\<^verbatim>\<open>static_cast<double>(stop - start) * 1e-9\<close>: the difference, the constant and the product
  are rounded.\<close>

definition to_seconds :: "(real \<Rightarrow> real) \<Rightarrow> 64 word \<Rightarrow> real" where
  "to_seconds rnd ns = rnd (rnd (real (unat ns)) * rnd (1 / 10 ^ 9))"

text \<open>What \<^verbatim>\<open>run_threads\<close> and the trial make of the run and the merged samples.\<close>

definition collected :: "(real \<Rightarrow> real) \<Rightarrow> trial \<Rightarrow> 64 word \<Rightarrow> 64 word \<Rightarrow> bool \<Rightarrow> 64 word list \<Rightarrow> 64 word list
    \<Rightarrow> trial_result" where
  "collected rnd T start stop b es ds =
     \<lparr>seconds = to_seconds rnd (stop - start), pinned = b, ops_total = ops_total_of T,
      all_enq_ns = sort es, all_deq_ns = sort ds\<rparr>"

fun driver_step :: "host \<Rightarrow> ('l, 'v, 'p, 'e) bench_program \<Rightarrow> ('p \<Rightarrow> 64 word ret option) \<Rightarrow> trial
    \<Rightarrow> nat \<Rightarrow> nat \<times> bool \<Rightarrow> ('l, 'v, 'p, 'e) state trial_state \<Rightarrow> driver
    \<Rightarrow> ('l, 'v, 'p, 'e) state trial_state verdict" where
  "driver_step H Q ans T n c S (Filling i) =
     (if i < prefill_of T then on_fifo Q (Invoke n (Put i)) S (steer (In_fill i))
      else steer (Spawning 0) S)"
| "driver_step H Q ans T n c S (In_fill i) = in_call Q ans n c S (\<lambda>y. steer (Filling (i + 1)))"
| "driver_step H Q ans T n c S (Spawning t) =
     (if t < n then
        hand_over Q n t S
          (\<lambda>S. steer (Spawning (Suc t)) (S\<lparr>workers := (workers S)(t := Pinning)\<rparr>))
      else steer Lining_up S)"
| "driver_step H Q ans T n c S Lining_up =
     on_ctl n await_arrivals c S
       (\<lambda>x. steer (if all_arrived (threads_of T) (i32 x) then Timing else Lining_up))"
| "driver_step H Q ans T n c S Timing = steer (Releasing (now_ns S)) S"
| "driver_step H Q ans T n c S (Releasing start) =
     on_ctl n driver_release c S (\<lambda>x. steer (Joining start 0))"
| "driver_step H Q ans T n c S (Joining start t) =
     (if t < n then
        (if workers S t = Gone then hand_over Q t n S (steer (Joining start (Suc t))) else Running S)
      else steer (Joined start) S)"
| "driver_step H Q ans T n c S (Joined start) = steer (Collecting start (now_ns S)) S"
| "driver_step H Q ans T n c S (Collecting start stop) =
     on_ctl n (Load All_pinned seq_cst) c S
       (\<lambda>x. steer (Merging start stop (yes x) 0 [] []))"
| "driver_step H Q ans T n c S (Merging start stop b t es ds) =
     (if t < n then
        on_outs n (Read t) S
          (\<lambda>x. steer (Merging start stop b (Suc t) (es @ enq_ns x) (ds @ deq_ns x)))
      else steer (Reported (collected (rounding H) T start stop b es ds)) S)"
| "driver_step H Q ans T n c S (Reported r) = Running S"

text \<open>The threads of a trial are \<open>0, \<dots>, n - 1\<close> and the driver \<open>n\<close>.  A step is by
  thread \<open>fst x\<close>, with a choice of message and of success, after \<open>snd (snd (snd x))\<close>
  nanoseconds.\<close>

type_synonym tick = "nat \<times> nat \<times> bool \<times> nat"

definition trial_step :: "host \<Rightarrow> ('l, 'v, 'p, 'e) bench_program \<Rightarrow> ('p \<Rightarrow> 64 word ret option) \<Rightarrow> trial
    \<Rightarrow> tick \<Rightarrow> ('l, 'v, 'p, 'e) state trial_state \<Rightarrow> ('l, 'v, 'p, 'e) state trial_state verdict" where
  "trial_step H Q ans T x S =
     (let t = fst x; c = (fst (snd x), fst (snd (snd x))); n = unat (threads_of T);
          S1 = S\<lparr>clock := clock S + snd (snd (snd x))\<rparr> in
      if t < n then worker_step H Q ans T t c S1 (workers S t)
      else if t = n then driver_step H Q ans T n c S1 (driver S)
      else Running S)"

fun trial_run :: "host \<Rightarrow> ('l, 'v, 'p, 'e) bench_program \<Rightarrow> ('p \<Rightarrow> 64 word ret option) \<Rightarrow> trial
    \<Rightarrow> tick list \<Rightarrow> ('l, 'v, 'p, 'e) state trial_state \<Rightarrow> ('l, 'v, 'p, 'e) state trial_state verdict" where
  "trial_run H Q ans T [] S = Running S"
| "trial_run H Q ans T (x # xs) S = proceed (trial_step H Q ans T x S) (trial_run H Q ans T xs)"

text \<open>The driver constructs the queue, \<^verbatim>\<open>consumed\<close>, the barrier, \<^verbatim>\<open>all_pinned\<close> and \<^verbatim>\<open>out\<close>.\<close>

definition ctl_start :: "nat \<Rightarrow> (ctl_loc, ctl_cell) memory" where
  "ctl_start n =
     the (perform n
       [(New (\<lambda>_. [(Consumed, Size 0), (Arrived, I32 0), (Go, Yes False), (All_pinned, Yes True)]), 0)] blank)"

definition outs_start :: "nat \<Rightarrow> (nat, worker_out) memory" where
  "outs_start n = the (perform n [(New (\<lambda>_. map (\<lambda>t. (t, no_output)) [0..<n]), 0)] blank)"

definition trial_start :: "trial \<Rightarrow> 'q \<Rightarrow> 'q trial_state" where
  "trial_start T q =
     \<lparr>fifo = q, ctl = ctl_start (unat (threads_of T)), clock = 0, workers = (\<lambda>_. Unborn),
      outs = outs_start (unat (threads_of T)), driver = Filling 0\<rparr>"

section \<open>The queues\<close>

text \<open>The adapter of the third-party queue, whose \<^verbatim>\<open>try_dequeue\<close> answers whether it
  stored an element through its argument.\<close>

definition moodycamel_try_dequeue :: "('q \<Rightarrow> bool \<times> 64 word \<times> 'q) \<Rightarrow> 'q \<Rightarrow> 64 word option \<times> 'q" where
  "moodycamel_try_dequeue try q =
     (case try q of (b, v, q') \<Rightarrow> (if b then Some v else None, q'))"

definition moodycamel_enqueue :: "(64 word \<Rightarrow> 'q \<Rightarrow> 'q) \<Rightarrow> 64 word \<Rightarrow> 'q \<Rightarrow> 'q" where
  "moodycamel_enqueue put v q = put v q"

text \<open>
  The queues of this repository: which of their operations a trial uses.  Only the thread-local
  cache of the hazard-pointer domain has a destructor that a thread runs when it ends.
\<close>

definition ported :: "('l, 'v, 'p, 'o, 'e) program \<Rightarrow> (bench_op \<Rightarrow> 'o option) \<Rightarrow> ('l, 'v, 'p, 'e) bench_program" where
  "ported P f =
     \<lparr>act = act P, resume = resume P, log = log P,
      call = (\<lambda>t x p. case f x of None \<Rightarrow> None | Some y \<Rightarrow> call P t y p), idle = idle P\<rparr>"

fun queue_calls :: "bench_op \<Rightarrow> 64 word op option" where
  "queue_calls (Put v) = Some (Enqueue v)"
| "queue_calls Take = Some Try_dequeue"
| "queue_calls Leave = None"

fun client_calls :: "bench_op \<Rightarrow> 64 word client_op option" where
  "client_calls (Put v) = Some (Queue_op (Enqueue v))"
| "client_calls Take = Some (Queue_op Try_dequeue)"
| "client_calls Leave = Some Exit_thread"

definition bench_leaky :: "(unit loc, 64 word cell, (64 word, unit, unit leaky_pc) pc \<times> unit, 64 word event) bench_program" where
  "bench_leaky = ported (leaky_queue shipped) queue_calls"

definition bench_mutex :: "(mutex_loc, 64 word mutex_cell, 64 word mutex_pc, 64 word mutex_event) bench_program" where
  "bench_mutex = ported mutex_queue queue_calls"

definition bench_hp :: "(domain_loc, 64 word cell, 64 word client, 64 word client_event) bench_program" where
  "bench_hp = ported (hp_queue shipped) client_calls"

text \<open>What a call of a queue is about to return.\<close>

fun ms_answer :: "('a, 'x, 'r) pc \<times> 'h \<Rightarrow> 'a ret option" where
  "ms_answer (Finish y, h) = Some y"
| "ms_answer (p, h) = None"

fun mutex_answer :: "'a mutex_pc \<Rightarrow> 'a ret option" where
  "mutex_answer (Mx_return y) = Some y"
| "mutex_answer p = None"

fun client_answer :: "'a client \<Rightarrow> 'a ret option" where
  "client_answer (In_queue p, h) = ms_answer (p, h)"
| "client_answer (p, h) = None"

end
