(* ===== verification/Memory_Plain.thy ===== *)
theory Memory_Plain imports Memory_Quiet begin

text \<open>
  Plain objects that belong to one thread at a time: their owner may read and write them, and the
  ownership passes on when another thread is started or joined.
\<close>

definition exclusive :: "('l, 'v) memory \<Rightarrow> nat \<Rightarrow> 'l \<Rightarrow> bool" where
  "exclusive M t l \<longleftrightarrow> live M l \<and> 0 < seen M t l \<and> quiet M t l"

lemma exclusive_read:
  assumes "mem_wf M" "exclusive M t l"
  shows "mem_step t (Read l) c M = Done (Val (newest M l)) (touch t l M)"
  using assms newest_nth [of M l] latest_pos [of M t l] by (simp add: exclusive_def quiet_def read_Done)

lemma exclusive_write:
  assumes "exclusive M t l"
  shows "mem_step t (Write l v) c M = Done Unit (write_next t l v relaxed blind (touch t l M))"
  using assms by (simp add: exclusive_def write_Done)

lemma exclusive_touch:
  assumes "exclusive M u k" "u = t \<or> k \<noteq> l"
  shows "exclusive (touch t l M) u k"
proof -
  have up: "cur M u (Clock x) \<le> cur (touch t l M) u (Clock x)" for x by (rule view_leD [OF touch_mono])
  have "n \<le> cur (touch t l M) u (Clock x)" if "(x, n) \<in> set (accs (touch t l M) k (gen M k))" for x n
  proof (cases "(x, n) \<in> set (accs M k (gen M k))")
    case True
    then have "n \<le> cur M u (Clock x)" using assms(1) by (auto simp: exclusive_def quiet_def list_all_iff)
    then show ?thesis using up order.trans by blast
  next
    case False
    then show ?thesis using that assms(2) touch_ticks [of t l M] by (auto simp: touch_accs_gen split: if_splits)
  qed
  then show ?thesis using assms(1) by (auto simp: exclusive_def quiet_def list_all_iff)
qed

lemma exclusive_later:
  assumes "exclusive M u k" "live M' = live M" "gen M' = gen M" "accs M' = accs M" "cur M u \<le> cur M' u"
    and "latest M' k = latest M k \<or> latest M' k \<le> seen M' u k"
  shows "exclusive M' u k"
proof -
  have "seen M u k \<le> seen M' u k" using view_leD [OF assms(5)] assms(3) by (simp add: seen_def place_def)
  moreover have "n \<le> cur M' u (Clock x)" if "(x, n) \<in> set (accs M k (gen M k))" for x n
    using assms(1) that view_le_mono [OF assms(5)] by (auto simp: exclusive_def quiet_def list_all_iff)
  ultimately show ?thesis using assms by (auto simp: exclusive_def quiet_def list_all_iff)
qed

lemma exclusive_write_next:
  assumes "exclusive M u k" "u = t \<or> k \<noteq> l"
  shows "exclusive (write_next t l v mo W M) u k"
proof (rule exclusive_later [OF assms(1)])
  show "latest (write_next t l v mo W M) k = latest M k \<or> latest (write_next t l v mo W M) k \<le> seen (write_next t l v mo W M) u k"
    using assms(2) seen_write_next [of M l t v mo W]
    by (cases "k = l") (auto simp: latest_def msgs_def write_next_hist)
qed simp_all

lemma exclusive_synchronize:
  assumes "exclusive M x k"
  shows "exclusive (synchronize t u M) x k" "x = t \<Longrightarrow> exclusive (synchronize t u M) u k"
proof -
  let ?M = "synchronize t u M"
  have p: "live ?M = live M" "gen ?M = gen M" "accs ?M = accs M" "latest ?M k = latest M k"
    by (simp_all add: synchronize_def latest_def msgs_def)
  show "exclusive ?M x k"
    by (rule exclusive_later [OF assms p(1-3)]) (simp_all add: p(4) synchronize_def)
  show "exclusive ?M u k" if x: "x = t"
  proof -
    have up: "cur M t \<le> cur ?M u" by (simp add: synchronize_def)
    have "seen M t k \<le> seen ?M u k" using view_leD [OF up] p(2) by (simp add: seen_def place_def)
    moreover have "n \<le> cur ?M u (Clock y)" if "(y, n) \<in> set (accs M k (gen M k))" for y n
      using assms x that view_le_mono [OF up] by (auto simp: exclusive_def quiet_def list_all_iff)
    ultimately show ?thesis using assms x p by (auto simp: exclusive_def quiet_def list_all_iff)
  qed
qed

text \<open>A thread changes an object of its own: one read and one write.\<close>

lemma exclusive_update:
  assumes wf: "mem_wf M" and ex: "exclusive M t l"
  obtains M' where "mem_step t (Write l (g (newest M l))) c (touch t l M) = Done Unit M'"
    "mem_wf M'" "newest M' = (newest M)(l := g (newest M l))"
    "\<And>u k. exclusive M u k \<Longrightarrow> u = t \<or> k \<noteq> l \<Longrightarrow> exclusive M' u k"
proof -
  let ?M = "touch t l M" let ?M' = "write_next t l (g (newest M l)) relaxed blind (touch t l ?M)"
  have ex1: "exclusive ?M t l" by (rule exclusive_touch [OF ex]) simp
  have st: "mem_step t (Write l (g (newest M l))) c ?M = Done Unit ?M'" by (rule exclusive_write [OF ex1])
  have n: "newest (touch t l ?M) = newest M" by (rule newest_cong) simp_all
  show thesis
  proof (rule that [OF st])
    show "mem_wf ?M'" by (rule wf_mem_step [OF wf_touch [OF wf] st])
    show "newest ?M' = (newest M)(l := g (newest M l))" by (simp add: newest_write_next n)
    show "exclusive ?M' u k" if "exclusive M u k" "u = t \<or> k \<noteq> l" for u k
      using that by (intro exclusive_write_next exclusive_touch) auto
  qed
qed

text \<open>Objects that have just been made belong to their maker.\<close>

lemma exclusive_birth:
  assumes "timed M" "mem_wf M" "k \<noteq> l \<Longrightarrow> exclusive M t k"
  shows "exclusive (birth t (l, v) M) t k"
proof (cases "k = l")
  case True
  have "(x, n) \<notin> set (accs M l (Suc (gen M l)))" for x n using timed_gen [OF assms(1), of x n l "Suc (gen M l)"] by auto
  then have "accs M l (Suc (gen M l)) = []" by (cases "accs M l (Suc (gen M l))") auto
  then show ?thesis
    by (simp add: True exclusive_def quiet_def birth_def Let_def seen_def place_def latest_def msgs_def)
next
  case False
  have p: "live (birth t (l, v) M) k = live M k" "gen (birth t (l, v) M) k = gen M k" "accs (birth t (l, v) M) = accs M"
    "latest (birth t (l, v) M) k = latest M k" "cur M t \<le> cur (birth t (l, v) M) t"
    using False by (simp_all add: birth_def Let_def latest_def msgs_def)
  have "seen M t k \<le> seen (birth t (l, v) M) t k" using view_leD [OF p(5)] p(2) by (simp add: seen_def place_def)
  moreover have "n \<le> cur (birth t (l, v) M) t (Clock x)" if "(x, n) \<in> set (accs M k (gen M k))" for x n
    using assms(3) [OF False] that view_le_mono [OF p(5)] by (auto simp: exclusive_def quiet_def list_all_iff)
  ultimately show ?thesis using assms(3) [OF False] p by (auto simp: exclusive_def quiet_def list_all_iff)
qed

lemma exclusive_new:
  assumes "timed M" "mem_wf M" "k \<notin> fst ` set fs \<Longrightarrow> exclusive M t k"
  shows "exclusive (fold (birth t) fs M) t k"
  using assms
proof (induction fs arbitrary: M)
  case (Cons x fs)
  obtain l v where x: "x = (l, v)" by (cases x)
  show ?case
    unfolding fold_simps
  proof (rule Cons.IH)
    show "timed (birth t x M)" "mem_wf (birth t x M)" using Cons.prems timed_birth wf_birth by blast+
    show "k \<notin> fst ` set fs \<Longrightarrow> exclusive (birth t x M) t k"
      unfolding x by (rule exclusive_birth [OF Cons.prems(1,2)]) (use Cons.prems(3) x in auto)
  qed
qed simp

end
