(* ===== verification/Bench_Trials_Inv.thy ===== *)
theory Bench_Trials_Inv imports Bench_Trials Memory_Plain begin

text \<open>
  The invariant of a trial, over any queue that keeps the contract \<open>bench_queue\<close>: where each
  thread and the driver can be, what the atomics hold, whose the vectors are, and accounts of the
  calls made, the elements received and the samples taken.
\<close>

section \<open>The atomics\<close>

definition vals :: "(ctl_loc, ctl_cell) memory \<Rightarrow> ctl_loc \<Rightarrow> ctl_cell list" where
  "vals M l = map fst (hist M l 1)"

definition ctl_ok :: "(ctl_loc, ctl_cell) memory \<Rightarrow> bool" where
  "ctl_ok M \<longleftrightarrow> mem_wf M \<and> (\<forall>l. gen M l = 1 \<and> live M l \<and> hist M l 1 \<noteq> [])"

definition aware :: "(ctl_loc, ctl_cell) memory \<Rightarrow> nat \<Rightarrow> bool" where
  "aware M t \<longleftrightarrow> (\<forall>l. 1 \<le> cur M t (At l 1))"

lemma ctl_okD:
  assumes "ctl_ok M"
  shows "mem_wf M" "gen M l = 1" "live M l" "hist M l 1 \<noteq> []" "place M l = At l 1" "msgs M l = hist M l 1"
    "latest M l = length (vals M l)" "seen M t l = cur M t (At l 1)" "vals M l \<noteq> []"
    "0 < k \<Longrightarrow> k \<le> length (vals M l) \<Longrightarrow> fst (msgs M l ! (k - 1)) = vals M l ! (k - 1)"
  using assms by (simp_all add: ctl_ok_def place_def msgs_def latest_def seen_def vals_def)

lemma aware_mono: "aware M t \<Longrightarrow> cur M t \<le> cur M' t \<Longrightarrow> aware M' t"
  unfolding aware_def using view_le_mono [of "cur M t" "cur M' t"] by blast

lemma ctl_defined:
  assumes "ctl_ok M" "aware M t"
  shows "mem_step t (Load l mo) c M \<noteq> Ub e" "mem_step t (Rmw l f mo) c M \<noteq> Ub e"
    "length (vals M l) \<le> cur M t (At l 1) \<Longrightarrow> mem_step t (Store l v mo) c M \<noteq> Ub e"
proof -
  have "live M l" "0 < seen M t l" "seen M t l = cur M t (At l 1)" "latest M l = length (vals M l)"
    using ctl_okD(3,7) [OF assms(1), of l] ctl_okD(8) [OF assms(1), of t l] assms(2) by (auto simp: aware_def Suc_le_eq)
  then show "mem_step t (Load l mo) c M \<noteq> Ub e" "mem_step t (Rmw l f mo) c M \<noteq> Ub e"
    "length (vals M l) \<le> cur M t (At l 1) \<Longrightarrow> mem_step t (Store l v mo) c M \<noteq> Ub e"
    by (simp_all add: mem_step.simps guarded_Ub Let_def)
qed

lemma ctl_load:
  assumes ok: "ctl_ok M" and st: "mem_step t (Load l mo) c M = Done r M'"
  shows "ctl_ok M'" "vals M' = vals M" "cur M u \<le> cur M' u" "cell_of r \<in> set (vals M l)"
proof -
  have M': "M' = read_at t l mo (fst c) M" and k: "0 < fst c" "fst c \<le> length (vals M l)"
      and r: "r = Val (fst (msgs M l ! (fst c - 1)))"
    using st ctl_okD(7) [OF ok, of l] by (auto simp: load_Done elim: order.strict_trans2)
  show "ctl_ok M'" using ok wf_mem_step [OF _ st] by (simp add: ctl_ok_def M')
  show "vals M' = vals M" by (simp add: vals_def M' fun_eq_iff)
  show "cur M u \<le> cur M' u" unfolding M' by (rule read_at_mono)
  have "cell_of r = vals M l ! (fst c - 1)" using r ctl_okD(10) [OF ok k] by simp
  then show "cell_of r \<in> set (vals M l)" using k by simp
qed

lemma ctl_rmw:
  assumes ok: "ctl_ok M" and st: "mem_step t (Rmw l f mo) c M = Done r M'"
  shows "ctl_ok M'" "vals M' = (vals M)(l := vals M l @ [f (last (vals M l))])" "cur M u \<le> cur M' u"
proof -
  have M': "M' = rmw_at t l (f (last (vals M l))) mo M"
    using st ctl_okD(4-10) [OF ok]
    by (auto simp: rmw_Done Let_def last_conv_nth)
  show "ctl_ok M'" using ok wf_mem_step [OF _ st] by (simp add: ctl_ok_def M' rmw_at_hist)
  show "vals M' = (vals M)(l := vals M l @ [f (last (vals M l))])"
    using ctl_okD(2,6) [OF ok, of l] by (auto simp: vals_def M' rmw_at_hist fun_eq_iff)
  show "cur M u \<le> cur M' u" unfolding M' by (rule rmw_at_mono)
qed

lemma ctl_store:
  assumes ok: "ctl_ok M" and st: "mem_step t (Store l v mo) c M = Done r M'"
  shows "ctl_ok M'" "vals M' = (vals M)(l := vals M l @ [v])" "cur M u \<le> cur M' u"
proof -
  have M': "M' = write_next t l v mo blind (touch t l M)" using st by (simp add: store_Done)
  show "ctl_ok M'" using ok wf_mem_step [OF _ st] by (simp add: ctl_ok_def M' write_next_hist)
  show "vals M' = (vals M)(l := vals M l @ [v])"
    using ctl_okD(2,6) [OF ok, of l] by (auto simp: vals_def M' write_next_hist fun_eq_iff)
  show "cur M u \<le> cur M' u"
    unfolding M' by (rule order.trans [OF touch_mono [of M u t l]]) (simp add: le_fun_def)
qed

lemma ctl_sync:
  assumes "ctl_ok M"
  shows "ctl_ok (synchronize t u M)" "vals (synchronize t u M) = vals M"
    "cur M x \<le> cur (synchronize t u M) x" "aware M t \<Longrightarrow> aware (synchronize t u M) u"
    "aware M x \<Longrightarrow> aware (synchronize t u M) x"
  using assms wf_synchronize [of M t u]
  by (auto simp: ctl_ok_def synchronize_def vals_def fun_eq_iff aware_def le_fun_def le_max_iff_disj)

section \<open>Where threads can be\<close>

definition size_of :: "trial \<Rightarrow> nat" where
  "size_of T = unat (threads_of T)"

definition consumer :: "trial \<Rightarrow> nat \<Rightarrow> bool" where
  "consumer T t \<longleftrightarrow> entry T t = C_next"

fun body_ok :: "trial \<Rightarrow> nat \<Rightarrow> body \<Rightarrow> bool" where
  "body_ok T t (B_next i) \<longleftrightarrow> \<not> consumer T t \<and> i \<le> quota_of T"
| "body_ok T t (B_enqueue i t0) \<longleftrightarrow> \<not> consumer T t \<and> i < quota_of T"
| "body_ok T t (B_enqueuing i t0) \<longleftrightarrow> \<not> consumer T t \<and> i < quota_of T"
| "body_ok T t (B_enqueued i t0) \<longleftrightarrow> \<not> consumer T t \<and> i < quota_of T"
| "body_ok T t (B_dequeue i t0) \<longleftrightarrow> is_pairs T \<and> i < quota_of T"
| "body_ok T t (B_dequeuing i t0) \<longleftrightarrow> is_pairs T \<and> i < quota_of T"
| "body_ok T t (B_dequeued i t0 got) \<longleftrightarrow> is_pairs T \<and> i < quota_of T"
| "body_ok T t b \<longleftrightarrow> consumer T t"

fun worker_ok :: "trial \<Rightarrow> nat \<Rightarrow> worker \<Rightarrow> bool" where
  "worker_ok T t (Body b) \<longleftrightarrow> body_ok T t b"
| "worker_ok T t w \<longleftrightarrow> True"

fun driver_ok :: "trial \<Rightarrow> driver \<Rightarrow> bool" where
  "driver_ok T (Filling i) \<longleftrightarrow> i \<le> prefill_of T"
| "driver_ok T (In_fill i) \<longleftrightarrow> i < prefill_of T"
| "driver_ok T (Spawning j) \<longleftrightarrow> j \<le> size_of T"
| "driver_ok T (Joining x j) \<longleftrightarrow> j \<le> size_of T"
| "driver_ok T (Merging x y b j es ds) \<longleftrightarrow> j \<le> size_of T"
| "driver_ok T d \<longleftrightarrow> True"

fun born_by :: "driver \<Rightarrow> nat \<Rightarrow> bool" where
  "born_by (Filling i) t \<longleftrightarrow> False"
| "born_by (In_fill i) t \<longleftrightarrow> False"
| "born_by (Spawning j) t \<longleftrightarrow> t < j"
| "born_by d t \<longleftrightarrow> True"

fun lined_up :: "driver \<Rightarrow> bool" where
  "lined_up (Filling i) \<longleftrightarrow> False"
| "lined_up (In_fill i) \<longleftrightarrow> False"
| "lined_up (Spawning j) \<longleftrightarrow> False"
| "lined_up Lining_up \<longleftrightarrow> False"
| "lined_up d \<longleftrightarrow> True"

fun opened :: "driver \<Rightarrow> bool" where
  "opened (Joining x j) \<longleftrightarrow> True"
| "opened (Joined x) \<longleftrightarrow> True"
| "opened (Collecting x y) \<longleftrightarrow> True"
| "opened (Merging x y b j es ds) \<longleftrightarrow> True"
| "opened (Reported r) \<longleftrightarrow> True"
| "opened d \<longleftrightarrow> False"

fun joined_by :: "driver \<Rightarrow> nat \<Rightarrow> bool" where
  "joined_by (Joining x j) t \<longleftrightarrow> t < j"
| "joined_by (Joined x) t \<longleftrightarrow> True"
| "joined_by (Collecting x y) t \<longleftrightarrow> True"
| "joined_by (Merging x y b j es ds) t \<longleftrightarrow> True"
| "joined_by (Reported r) t \<longleftrightarrow> True"
| "joined_by d t \<longleftrightarrow> False"

fun past_line :: "worker \<Rightarrow> bool" where
  "past_line Reserving \<longleftrightarrow> True"
| "past_line (Body b) \<longleftrightarrow> True"
| "past_line Ending \<longleftrightarrow> True"
| "past_line Exiting \<longleftrightarrow> True"
| "past_line Gone \<longleftrightarrow> True"
| "past_line w \<longleftrightarrow> False"

fun ended :: "worker \<Rightarrow> bool" where
  "ended Ending \<longleftrightarrow> True"
| "ended Exiting \<longleftrightarrow> True"
| "ended Gone \<longleftrightarrow> True"
| "ended w \<longleftrightarrow> False"

fun has_arrived :: "worker \<Rightarrow> bool" where
  "has_arrived At_line \<longleftrightarrow> True"
| "has_arrived w \<longleftrightarrow> past_line w"

fun calling :: "worker \<Rightarrow> bool" where
  "calling (Body (B_enqueuing i t0)) \<longleftrightarrow> True"
| "calling (Body (B_dequeuing i t0)) \<longleftrightarrow> True"
| "calling (Body (C_dequeuing t0)) \<longleftrightarrow> True"
| "calling w \<longleftrightarrow> False"

fun enqueuing :: "worker \<Rightarrow> bool" where
  "enqueuing (Body (B_enqueuing i t0)) \<longleftrightarrow> True"
| "enqueuing w \<longleftrightarrow> False"

fun filling :: "driver \<Rightarrow> bool" where
  "filling (In_fill i) \<longleftrightarrow> True"
| "filling d \<longleftrightarrow> False"

section \<open>Accounts\<close>

text \<open>The calls of \<^verbatim>\<open>enqueue\<close> a thread has begun, the elements it has received, and the
  samples it has recorded.\<close>

definition quota :: "trial \<Rightarrow> nat \<Rightarrow> nat" where
  "quota T t = (if consumer T t then 0 else unat (quota_of T))"

fun sent_by :: "trial \<Rightarrow> nat \<Rightarrow> worker \<Rightarrow> nat" where
  "sent_by T t (Body (B_next i)) = unat i"
| "sent_by T t (Body (B_enqueue i t0)) = unat i"
| "sent_by T t (Body (B_enqueuing i t0)) = Suc (unat i)"
| "sent_by T t (Body (B_enqueued i t0)) = Suc (unat i)"
| "sent_by T t (Body (B_dequeue i t0)) = Suc (unat i)"
| "sent_by T t (Body (B_dequeuing i t0)) = Suc (unat i)"
| "sent_by T t (Body (B_dequeued i t0 got)) = Suc (unat i)"
| "sent_by T t Ending = quota T t"
| "sent_by T t Exiting = quota T t"
| "sent_by T t Gone = quota T t"
| "sent_by T t w = 0"

text \<open>Elements received whose latency is not recorded yet, and of those the ones not counted in
  \<^verbatim>\<open>consumed\<close> yet.\<close>

fun in_hand :: "worker \<Rightarrow> nat" where
  "in_hand (Body (B_dequeued i t0 got)) = 1"
| "in_hand (Body (C_count t0 got)) = 1"
| "in_hand (Body (C_counted t0 got)) = 1"
| "in_hand w = 0"

fun uncounted :: "worker \<Rightarrow> nat" where
  "uncounted (Body (C_count t0 got)) = 1"
| "uncounted w = 0"

definition got_by :: "worker \<Rightarrow> worker_out \<Rightarrow> nat" where
  "got_by w o' = length (deq_ns o') + in_hand w"

definition counted_by :: "trial \<Rightarrow> nat \<Rightarrow> worker \<Rightarrow> worker_out \<Rightarrow> nat" where
  "counted_by T t w o' = (if consumer T t then got_by w o' - uncounted w else 0)"

fun enq_pushed :: "trial \<Rightarrow> nat \<Rightarrow> worker \<Rightarrow> nat" where
  "enq_pushed T t (Body (B_enqueuing i t0)) = unat i"
| "enq_pushed T t (Body (B_enqueued i t0)) = unat i"
| "enq_pushed T t w = sent_by T t w"

fun deq_pushed :: "trial \<Rightarrow> nat \<Rightarrow> worker \<Rightarrow> nat" where
  "deq_pushed T t (Body (B_next i)) = (if is_pairs T then unat i else 0)"
| "deq_pushed T t (Body (B_dequeue i t0)) = unat i"
| "deq_pushed T t (Body (B_dequeuing i t0)) = unat i"
| "deq_pushed T t (Body (B_dequeued i t0 got)) = unat i"
| "deq_pushed T t (Body (B_enqueue i t0)) = (if is_pairs T then unat i else 0)"
| "deq_pushed T t (Body (B_enqueuing i t0)) = (if is_pairs T then unat i else 0)"
| "deq_pushed T t (Body (B_enqueued i t0)) = (if is_pairs T then unat i else 0)"
| "deq_pushed T t Ending = (if is_pairs T then quota T t else 0)"
| "deq_pushed T t Exiting = (if is_pairs T then quota T t else 0)"
| "deq_pushed T t Gone = (if is_pairs T then quota T t else 0)"
| "deq_pushed T t w = 0"

fun filled :: "trial \<Rightarrow> driver \<Rightarrow> nat" where
  "filled T (Filling i) = unat i"
| "filled T (In_fill i) = Suc (unat i)"
| "filled T d = unat (prefill_of T)"

definition samples_ok :: "trial \<Rightarrow> nat \<Rightarrow> worker \<Rightarrow> worker_out \<Rightarrow> bool" where
  "samples_ok T t w o' \<longleftrightarrow>
     length (enq_ns o') = enq_pushed T t w \<and>
     (\<not> consumer T t \<longrightarrow> length (deq_ns o') = deq_pushed T t w)"

definition trial_shape :: "trial \<Rightarrow> driver \<Rightarrow> (nat \<Rightarrow> worker) \<Rightarrow> bool" where
  "trial_shape T d w \<longleftrightarrow>
     driver_ok T d \<and> (\<forall>t. worker_ok T t (w t)) \<and>
     (\<forall>t. w t \<noteq> Unborn \<longleftrightarrow> t < size_of T \<and> born_by d t) \<and>
     (\<forall>t. past_line (w t) \<longrightarrow> opened d) \<and>
     (\<forall>t < size_of T. joined_by d t \<longrightarrow> w t = Gone) \<and>
     (size_of T < 2 ^ 31 \<and> lined_up d \<longrightarrow> (\<forall>t < size_of T. has_arrived (w t)))"

definition ctl_inv :: "trial \<Rightarrow> (ctl_loc, ctl_cell) memory \<Rightarrow> driver \<Rightarrow> (nat \<Rightarrow> worker) \<Rightarrow> (nat \<Rightarrow> worker_out) \<Rightarrow> bool" where
  "ctl_inv T M d w out \<longleftrightarrow>
     ctl_ok M \<and> aware M (size_of T) \<and> (\<forall>t. w t \<noteq> Unborn \<longrightarrow> aware M t) \<and>
     vals M Go = (if opened d then [Yes False, Yes True] else [Yes False]) \<and>
     vals M Arrived = map (\<lambda>k. I32 (of_nat k)) [0..<Suc (\<Sum>t < size_of T. of_bool (has_arrived (w t)))] \<and>
     vals M Consumed = map (\<lambda>k. Size (of_nat k)) [0..<Suc (\<Sum>t < size_of T. counted_by T t (w t) (out t))] \<and>
     (\<forall>t < size_of T. consumer T t \<and> ended (w t) \<longrightarrow>
        unat (total_of T) \<le> (\<Sum>t < size_of T. counted_by T t (w t) (out t)))"

section \<open>The vectors\<close>

text \<open>Whose the vectors of thread \<open>t\<close> are: its own while it runs, the driver's otherwise.\<close>

definition owner_of :: "trial \<Rightarrow> driver \<Rightarrow> nat \<Rightarrow> nat" where
  "owner_of T d t = (if born_by d t \<and> \<not> joined_by d t then t else size_of T)"

definition outs_ok :: "trial \<Rightarrow> (nat, worker_out) memory \<Rightarrow> driver \<Rightarrow> bool" where
  "outs_ok T M d \<longleftrightarrow> mem_wf M \<and> (\<forall>t < size_of T. exclusive M (owner_of T d t) t)"

abbreviation outputs :: "'q trial_state \<Rightarrow> nat \<Rightarrow> worker_out" where
  "outputs S \<equiv> newest (outs S)"

lemma outs_change:
  assumes "outs_ok T (outs S) (driver S)" "t < size_of T" "born_by (driver S) t" "\<not> joined_by (driver S) t"
  obtains M' where "\<And>f. change_out t g S f = f (S\<lparr>outs := M'\<rparr>)" "outs_ok T M' (driver S)"
    "newest M' = (outputs S)(t := g (outputs S t))"
proof -
  let ?M = "outs S"
  have wf: "mem_wf ?M" and ex: "exclusive ?M (owner_of T (driver S) u) u" if "u < size_of T" for u
    using assms(1) that by (simp_all add: outs_ok_def)
  have own: "owner_of T (driver S) t = t" using assms(3,4) by (simp add: owner_of_def)
  have et: "exclusive ?M t t" using ex [OF assms(2)] own by simp
  note rd = exclusive_read [OF wf [OF assms(2)] et, of "(0, True)"]
  obtain M' where M': "mem_step t (Write t (g (newest ?M t))) (0, True) (touch t t ?M) = Done Unit M'"
      "mem_wf M'" "newest M' = (newest ?M)(t := g (newest ?M t))"
      "\<And>u k. exclusive ?M u k \<Longrightarrow> u = t \<or> k \<noteq> t \<Longrightarrow> exclusive M' u k"
    using exclusive_update [OF wf [OF assms(2)] et, where g = g and c = "(0, True)"] by blast
  have "outs_ok T M' (driver S)" unfolding outs_ok_def
  proof (intro conjI allI impI)
    fix u assume u: "u < size_of T"
    show "exclusive M' (owner_of T (driver S) u) u" by (rule M'(4) [OF ex [OF u]]) (use own in auto)
  qed (rule M'(2))
  then show thesis using that [of M'] rd M'(1,3) by (simp add: change_out_def on_outs_def)
qed

text \<open>The same, read off a step that has been made.\<close>

lemma change_out_Running:
  assumes "change_out t g S f = Running S'" "mem_wf (outs S)"
  obtains M' where "f (S\<lparr>outs := M'\<rparr>) = Running S'" "newest M' = (outputs S)(t := g (outputs S t))"
proof -
  let ?c = "(0 :: nat, True)"
  obtain r M1 where r: "mem_step t (Read t) ?c (outs S) = Done r M1"
    using assms(1) by (cases "mem_step t (Read t) ?c (outs S)")
      (auto simp: change_out_def on_outs_def mem_step.simps guarded_def split: option.splits if_splits)
  have v: "vectors r = outputs S t" "newest M1 = outputs S" using now_read [OF assms(2) r] by simp_all
  obtain r' M2 where w: "mem_step t (Write t (g (outputs S t))) ?c M1 = Done r' M2"
    using assms(1) r v by (cases "mem_step t (Write t (g (outputs S t))) ?c M1")
      (auto simp: change_out_def on_outs_def mem_step.simps guarded_def split: option.splits if_splits)
  have "newest M2 = (outputs S)(t := g (outputs S t))" using now_write [OF w] v by simp
  then show thesis using that [of M2] assms(1) r w v by (simp add: change_out_def on_outs_def)
qed

text \<open>Times: everything the workers measure lies between the reading \<open>c\<close> of the driver before
  the release and now.\<close>

fun stamp :: "worker \<Rightarrow> 64 word option" where
  "stamp (Body (B_enqueue i t0)) = Some t0"
| "stamp (Body (B_enqueuing i t0)) = Some t0"
| "stamp (Body (B_enqueued i t0)) = Some t0"
| "stamp (Body (B_dequeue i t0)) = Some t0"
| "stamp (Body (B_dequeuing i t0)) = Some t0"
| "stamp (Body (B_dequeued i t0 got)) = Some t0"
| "stamp (Body (C_poll t0)) = Some t0"
| "stamp (Body (C_dequeue t0)) = Some t0"
| "stamp (Body (C_dequeuing t0)) = Some t0"
| "stamp (Body (C_count t0 got)) = Some t0"
| "stamp (Body (C_counted t0 got)) = Some t0"
| "stamp w = None"

definition samples :: "worker_out \<Rightarrow> 64 word set" where
  "samples o' = set (enq_ns o') \<union> set (deq_ns o')"

definition timely :: "nat \<Rightarrow> nat \<Rightarrow> worker \<Rightarrow> worker_out \<Rightarrow> bool" where
  "timely c now w o' \<longleftrightarrow>
     (\<forall>x. stamp w = Some x \<longrightarrow> (\<exists>k. x = of_nat k \<and> c \<le> k \<and> k \<le> now)) \<and>
     (\<forall>x \<in> samples o'. \<exists>k. x = of_nat k \<and> c + k \<le> now)"

fun started :: "driver \<Rightarrow> 64 word option" where
  "started (Releasing x) = Some x"
| "started (Joining x j) = Some x"
| "started (Joined x) = Some x"
| "started (Collecting x y) = Some x"
| "started (Merging x y b j es ds) = Some x"
| "started d = None"

lemma timely_later: "timely c now w o' \<Longrightarrow> now \<le> now' \<Longrightarrow> timely c now' w o'"
  unfolding timely_def by (meson order.trans)

section \<open>The contract of a queue\<close>

locale bench_queue = safe_system Q s0 I
  for Q :: "('l, 'v, 'p, 'e) bench_program" and s0 and I +
  fixes ans :: "'p \<Rightarrow> 64 word ret option"
    and enq :: "'p \<Rightarrow> bool"
    and bye :: "'p \<Rightarrow> bool"
    and sent :: "'e list \<Rightarrow> nat"
    and got :: "'e list \<Rightarrow> nat"
  assumes start_idle: "idle Q (thr s0 t)"
    and start_counts: "sent (trace s0) = 0" "got (trace s0) = 0"
    and sent_append: "sent (tr @ es) = sent tr + sent es"
    and got_append: "got (tr @ es) = got tr + got es"
    and call_idle: "idle Q p \<Longrightarrow> x \<noteq> Leave \<Longrightarrow> call Q t x p \<noteq> None"
    and call_counts: "call Q t x p = Some (p', es) \<Longrightarrow>
      \<not> idle Q p' \<and> enq p' = (\<exists>v. x = Put v) \<and> bye p' = (x = Leave) \<and>
      sent es = (case x of Put v \<Rightarrow> 1 | _ \<Rightarrow> 0) \<and> got es = 0"
    and log_counts: "sent (log Q t p r M) = 0"
      "got (log Q t p r M) = (case ans p of Some (Dequeued (Some v)) \<Rightarrow> 1 | _ \<Rightarrow> 0)"
    and ans_act: "ans p \<noteq> None \<Longrightarrow> act Q p = Skip"
    and ans_idle: "\<not> idle Q p \<Longrightarrow> \<not> bye p \<Longrightarrow> idle Q (resume Q p r) \<longleftrightarrow> ans p \<noteq> None"
    and stays: "\<not> idle Q p \<Longrightarrow> \<not> idle Q (resume Q p r) \<Longrightarrow>
      enq (resume Q p r) = enq p \<and> bye (resume Q p r) = bye p"
    and enq_ans: "ans p = Some (Dequeued y) \<Longrightarrow> \<not> enq p"
    and bye_ans: "bye p \<Longrightarrow> ans p = None"
    and conserve: "I s \<Longrightarrow> got (trace s) \<le> sent (trace s)"
begin

lemma invoke_effect:
  assumes "I s" "idle Q (thr s t)" "x \<noteq> Leave"
  obtains s' where "exec Q (Invoke t x) s = Running s'" "I s'" "\<And>u. u \<noteq> t \<Longrightarrow> thr s' u = thr s u"
    "\<not> idle Q (thr s' t)" "\<not> bye (thr s' t)" "enq (thr s' t) = (\<exists>v. x = Put v)"
    "sent (trace s') = sent (trace s) + (case x of Put v \<Rightarrow> 1 | _ \<Rightarrow> 0)" "got (trace s') = got (trace s)"
proof -
  obtain p es where c: "call Q t x (thr s t) = Some (p, es)" using call_idle [OF assms(2,3), of t] by auto
  note k = call_counts [OF c]
  let ?s = "s\<lparr>thr := (thr s)(t := p), trace := trace s @ es\<rparr>"
  have e: "exec Q (Invoke t x) s = Running ?s" using c by simp
  show thesis
    by (rule that [OF e keeps [OF assms(1) e]]) (use k assms(3) in \<open>auto simp: sent_append got_append\<close>)
qed

lemma leave_effect:
  assumes "I s" "idle Q (thr s t)"
  obtains s' where "exec Q (Invoke t Leave) s = Running s'" "I s'" "\<And>u. u \<noteq> t \<Longrightarrow> thr s' u = thr s u"
    "idle Q (thr s' t) \<or> bye (thr s' t)" "sent (trace s') = sent (trace s)" "got (trace s') = got (trace s)"
proof (cases "call Q t Leave (thr s t)")
  case None
  then have e: "exec Q (Invoke t Leave) s = Running s" by simp
  show thesis by (rule that [OF e keeps [OF assms(1) e]]) (use assms(2) in simp_all)
next
  case (Some pe)
  then obtain p es where c: "call Q t Leave (thr s t) = Some (p, es)" by (cases pe) simp
  note k = call_counts [OF c]
  let ?s = "s\<lparr>thr := (thr s)(t := p), trace := trace s @ es\<rparr>"
  have e: "exec Q (Invoke t Leave) s = Running ?s" using c by simp
  show thesis
    by (rule that [OF e keeps [OF assms(1) e]]) (use k in \<open>auto simp: sent_append got_append\<close>)
qed

lemma step_effect:
  assumes "I s" "\<not> idle Q (thr s t)"
  obtains s' where "exec Q (Step t k b) s = Running s'" "I s'" "\<And>u. u \<noteq> t \<Longrightarrow> thr s' u = thr s u"
    "\<not> bye (thr s t) \<Longrightarrow> idle Q (thr s' t) \<longleftrightarrow> ans (thr s t) \<noteq> None"
    "\<not> idle Q (thr s' t) \<Longrightarrow> enq (thr s' t) = enq (thr s t) \<and> bye (thr s' t) = bye (thr s t)"
    "sent (trace s') = sent (trace s)"
    "got (trace s') = got (trace s) + (case ans (thr s t) of Some (Dequeued (Some v)) \<Rightarrow> 1 | _ \<Rightarrow> 0)"
proof -
  obtain s' where e: "exec Q (Step t k b) s = Running s'" "I s'" using exec_running [OF assms(1)] by blast
  show thesis
  proof (cases "mem_step t (act Q (thr s t)) (k, b) (mem s)")
    case Blocked
    then have "ans (thr s t) = None" using ans_act [of "thr s t"] by fastforce
    then have a: "ans (thr s t) = None" "s' = s" using e Blocked by simp_all
    show thesis by (rule that [OF e]) (simp_all add: a assms(2))
  next
    case (Ub x)
    then show thesis using e by simp
  next
    case (Done r M)
    then have s': "s' = \<lparr>mem = M, thr = (thr s)(t := resume Q (thr s t) r),
        trace = trace s @ log Q t (thr s t) r (mem s)\<rparr>"
      using e by simp
    have i: "\<not> bye (thr s t) \<Longrightarrow> idle Q (resume Q (thr s t) r) \<longleftrightarrow> ans (thr s t) \<noteq> None"
        "\<not> idle Q (resume Q (thr s t) r) \<Longrightarrow>
          enq (resume Q (thr s t) r) = enq (thr s t) \<and> bye (resume Q (thr s t) r) = bye (thr s t)"
      using ans_idle [OF assms(2)] stays [OF assms(2)] by blast+
    show thesis
      by (rule that [OF e])
        (use i in \<open>auto simp del: not_None_eq not_Some_eq simp: s' sent_append got_append log_counts\<close>)
  qed
qed

lemma sync_effect:
  assumes "I s" "idle Q (thr s u)"
  obtains s' where "exec Q (Sync t u) s = Running s'" "I s'" "thr s' = thr s" "trace s' = trace s"
proof -
  have e: "exec Q (Sync t u) s = Running (s\<lparr>mem := synchronize t u (mem s)\<rparr>)" using assms(2) by simp
  show thesis by (rule that [OF e keeps [OF assms(1) e]]) simp_all
qed

text \<open>Where a thread is in the queue while it is at a point of its loop, and the driver.\<close>

definition worker_in :: "'p \<Rightarrow> worker \<Rightarrow> bool" where
  "worker_in p w \<longleftrightarrow>
     (if w = Exiting then idle Q p \<or> bye p
      else (idle Q p \<longleftrightarrow> \<not> calling w) \<and> (\<not> idle Q p \<longrightarrow> \<not> bye p \<and> (enq p \<longleftrightarrow> enqueuing w)))"

definition driver_in :: "'p \<Rightarrow> driver \<Rightarrow> bool" where
  "driver_in p d \<longleftrightarrow> (idle Q p \<longleftrightarrow> \<not> filling d) \<and> (\<not> idle Q p \<longrightarrow> \<not> bye p \<and> enq p)"

definition queue_ok :: "trial \<Rightarrow> ('l, 'v, 'p, 'e) state trial_state \<Rightarrow> bool" where
  "queue_ok T S \<longleftrightarrow>
     I (fifo S) \<and> (\<forall>t. t \<noteq> size_of T \<longrightarrow> worker_in (thr (fifo S) t) (workers S t)) \<and>
     driver_in (thr (fifo S) (size_of T)) (driver S)"

definition accounts_ok :: "trial \<Rightarrow> ('l, 'v, 'p, 'e) state trial_state \<Rightarrow> bool" where
  "accounts_ok T S \<longleftrightarrow>
     sent (trace (fifo S)) = (\<Sum>t < size_of T. sent_by T t (workers S t)) + filled T (driver S) \<and>
     got (trace (fifo S)) = (\<Sum>t < size_of T. got_by (workers S t) (outputs S t)) \<and>
     (\<forall>t < size_of T. samples_ok T t (workers S t) (outputs S t))"

definition trial_inv :: "trial \<Rightarrow> ('l, 'v, 'p, 'e) state trial_state \<Rightarrow> bool" where
  "trial_inv T S \<longleftrightarrow>
     queue_ok T S \<and> trial_shape T (driver S) (workers S) \<and>
     ctl_inv T (ctl S) (driver S) (workers S) (outputs S) \<and> accounts_ok T S \<and> outs_ok T (outs S) (driver S)"

end

end
