(* ===== verification/Bench_Trials_Safe.thy ===== *)
theory Bench_Trials_Safe imports Bench_Trials_Inv begin

text \<open>
  Every step of a worker and of the driver keeps the invariant of the trial, and none is undefined.
\<close>

section \<open>One worker moves\<close>

lemma sum_move:
  fixes f g :: "nat \<Rightarrow> nat"
  assumes "t < n" "\<And>u. u \<noteq> t \<Longrightarrow> f u = g u"
  shows "(\<Sum>u<n. f u) + g t = (\<Sum>u<n. g u) + f t"
proof -
  have t: "t \<in> {..<n}" using assms(1) by simp
  have "(\<Sum>u\<in>{..<n} - {t}. f u) = (\<Sum>u\<in>{..<n} - {t}. g u)"
    by (rule sum.cong) (use assms(2) in auto)
  then show ?thesis by (simp add: sum.remove [OF _ t])
qed

lemma counter_read:
  assumes "x \<in> set (map f [0..<Suc m])"
  obtains k where "k \<le> m" "x = f k"
  using assms by (auto simp: less_Suc_eq_le simp del: upt_Suc)

lemma worker_shape:
  assumes sh: "trial_shape T d w" and t: "w t \<noteq> Unborn" "w t \<noteq> Gone"
    and w': "w' \<noteq> Unborn" "worker_ok T t w'" "past_line w' \<longrightarrow> opened d" "has_arrived (w t) \<longrightarrow> has_arrived w'"
  shows "trial_shape T d (w(t := w'))"
proof -
  have "\<not> joined_by d t" using sh t by (auto simp: trial_shape_def)
  then show ?thesis using sh t w' by (auto simp: trial_shape_def)
qed

lemma worker_ctl:
  assumes inv: "ctl_inv T M d w out" and t: "t < size_of T" "w t \<noteq> Unborn"
    and M': "ctl_ok M'" "\<And>u. cur M u \<le> cur M' u" "vals M' Go = vals M Go"
    and arr: "has_arrived w' = has_arrived (w t) \<and> vals M' Arrived = vals M Arrived \<or>
      has_arrived w' \<and> \<not> has_arrived (w t) \<and>
        vals M' Arrived = vals M Arrived @ [I32 (i32 (last (vals M Arrived)) + 1)]"
    and cnt: "counted_by T t w' o' = counted_by T t (w t) (out t) \<and> vals M' Consumed = vals M Consumed \<or>
      counted_by T t w' o' = Suc (counted_by T t (w t) (out t)) \<and>
        vals M' Consumed = vals M Consumed @ [Size (size_t (last (vals M Consumed)) + 1)]"
    and gone: "consumer T t \<and> ended w' \<Longrightarrow>
      unat (total_of T) \<le> (\<Sum>u < size_of T. counted_by T u (w u) (out u))"
  shows "ctl_inv T M' d (w(t := w')) (out(t := o'))"
proof -
  note i = inv [unfolded ctl_inv_def]
  let ?a = "\<lambda>w. \<Sum>u < size_of T. of_bool (has_arrived (w u)) :: nat"
  let ?c = "\<lambda>w out. \<Sum>u < size_of T. counted_by T u (w u) (out u)"
  have a: "?a (w(t := w')) + of_bool (has_arrived (w t)) = ?a w + of_bool (has_arrived w')"
    using sum_move [OF t(1), of "\<lambda>u. of_bool (has_arrived ((w(t := w')) u))" "\<lambda>u. of_bool (has_arrived (w u))"]
    by simp
  have c: "?c (w(t := w')) (out(t := o')) + counted_by T t (w t) (out t) = ?c w out + counted_by T t w' o'"
    using sum_move [OF t(1), of "\<lambda>u. counted_by T u ((w(t := w')) u) ((out(t := o')) u)"
        "\<lambda>u. counted_by T u (w u) (out u)"] by simp
  have va: "vals M Arrived = map (\<lambda>k. I32 (of_nat k)) [0..<Suc (?a w)]"
    and vc: "vals M Consumed = map (\<lambda>k. Size (of_nat k)) [0..<Suc (?c w out)]" using i by blast+
  have more: "?c w out \<le> ?c (w(t := w')) (out(t := o'))" using c cnt by linarith
  have "vals M' Arrived = map (\<lambda>k. I32 (of_nat k)) [0..<Suc (?a (w(t := w')))]"
    using arr
  proof
    assume h: "has_arrived w' = has_arrived (w t) \<and> vals M' Arrived = vals M Arrived"
    then have "?a (w(t := w')) = ?a w" using a by simp
    then show ?thesis using h va by simp
  next
    assume h: "has_arrived w' \<and> \<not> has_arrived (w t) \<and>
        vals M' Arrived = vals M Arrived @ [I32 (i32 (last (vals M Arrived)) + 1)]"
    then have m: "?a (w(t := w')) = Suc (?a w)" using a by simp
    have "last (vals M Arrived) = I32 (of_nat (?a w))" unfolding va by simp
    then show ?thesis using h va m by (simp add: add.commute)
  qed
  moreover have "vals M' Consumed = map (\<lambda>k. Size (of_nat k)) [0..<Suc (?c (w(t := w')) (out(t := o')))]"
    using cnt
  proof
    assume h: "counted_by T t w' o' = counted_by T t (w t) (out t) \<and> vals M' Consumed = vals M Consumed"
    then have "?c (w(t := w')) (out(t := o')) = ?c w out" using c by simp
    then show ?thesis using h vc by simp
  next
    assume h: "counted_by T t w' o' = Suc (counted_by T t (w t) (out t)) \<and>
        vals M' Consumed = vals M Consumed @ [Size (size_t (last (vals M Consumed)) + 1)]"
    then have m: "?c (w(t := w')) (out(t := o')) = Suc (?c w out)" using c by simp
    have "last (vals M Consumed) = Size (of_nat (?c w out))" unfolding vc by simp
    then show ?thesis using h vc m by (simp add: add.commute)
  qed
  moreover have "aware M' (size_of T)" "\<forall>u. (w(t := w')) u \<noteq> Unborn \<longrightarrow> aware M' u"
    using i t(2) aware_mono [OF _ M'(2)] by auto
  moreover have "\<forall>u < size_of T. consumer T u \<and> ended ((w(t := w')) u) \<longrightarrow>
      unat (total_of T) \<le> ?c (w(t := w')) (out(t := o'))"
    using i gone more by (auto intro: order.trans)
  ultimately show ?thesis using i M' unfolding ctl_inv_def by simp
qed

lemma fold_updates:
  "fold (\<lambda>(l, v) f. f(l := v)) (map (\<lambda>t. (t, a)) ts) f t = (if t \<in> set ts then a else f t)"
  by (induction ts arbitrary: f) auto

lemma outs_start_births: "outs_start n = fold (birth n) (map (\<lambda>t. (t, no_output)) [0..<n]) blank"
  by (simp add: outs_start_def mem_step.simps list_ex_iff blank_def)

lemma outs_start_new: "t < n \<Longrightarrow> newest (outs_start n) t = no_output"
  unfolding outs_start_births newest_fold_birth by (simp add: fold_updates)

context bench_queue begin

lemma enqueuing_calls: "enqueuing w \<Longrightarrow> calling w"
  by (cases w rule: enqueuing.cases) simp_all

lemma worker_in_simps:
  "w \<noteq> Exiting \<Longrightarrow> worker_in p w \<longleftrightarrow> (idle Q p \<longleftrightarrow> \<not> calling w) \<and> (\<not> idle Q p \<longrightarrow> \<not> bye p \<and> (enq p \<longleftrightarrow> enqueuing w))"
  "worker_in p Exiting \<longleftrightarrow> idle Q p \<or> bye p"
  by (simp_all add: worker_in_def)

lemma trial_invD:
  assumes "trial_inv T S"
  shows "queue_ok T S" "trial_shape T (driver S) (workers S)"
    "ctl_inv T (ctl S) (driver S) (workers S) (outputs S)" "accounts_ok T S" "outs_ok T (outs S) (driver S)"
    "ctl_ok (ctl S)" "I (fifo S)" "worker_ok T t (workers S t)"
    "t < size_of T \<Longrightarrow> samples_ok T t (workers S t) (outputs S t)"
    "past_line (workers S t) \<Longrightarrow> opened (driver S)" "aware (ctl S) (size_of T)"
    "workers S t \<noteq> Unborn \<Longrightarrow> aware (ctl S) t"
    "t < size_of T \<Longrightarrow> worker_in (thr (fifo S) t) (workers S t)"
    "driver_in (thr (fifo S) (size_of T)) (driver S)"
    "vals (ctl S) Go = (if opened (driver S) then [Yes False, Yes True] else [Yes False])"
    "vals (ctl S) Arrived = map (\<lambda>k. I32 (of_nat k)) [0..<Suc (\<Sum>t < size_of T. of_bool (has_arrived (workers S t)))]"
    "vals (ctl S) Consumed =
      map (\<lambda>k. Size (of_nat k)) [0..<Suc (\<Sum>t < size_of T. counted_by T t (workers S t) (outputs S t))]"
proof -
  have g: "queue_ok T S" "trial_shape T (driver S) (workers S)"
    "ctl_inv T (ctl S) (driver S) (workers S) (outputs S)" "accounts_ok T S" "outs_ok T (outs S) (driver S)"
    using assms unfolding trial_inv_def by blast+
  then show "queue_ok T S" "trial_shape T (driver S) (workers S)"
    "ctl_inv T (ctl S) (driver S) (workers S) (outputs S)" "accounts_ok T S" "outs_ok T (outs S) (driver S)" by blast+
  show "worker_ok T t (workers S t)" "past_line (workers S t) \<Longrightarrow> opened (driver S)"
    using g(2) unfolding trial_shape_def by blast+
  show "ctl_ok (ctl S)" "aware (ctl S) (size_of T)" "workers S t \<noteq> Unborn \<Longrightarrow> aware (ctl S) t"
    "vals (ctl S) Go = (if opened (driver S) then [Yes False, Yes True] else [Yes False])"
    "vals (ctl S) Arrived = map (\<lambda>k. I32 (of_nat k)) [0..<Suc (\<Sum>t < size_of T. of_bool (has_arrived (workers S t)))]"
    "vals (ctl S) Consumed =
      map (\<lambda>k. Size (of_nat k)) [0..<Suc (\<Sum>t < size_of T. counted_by T t (workers S t) (outputs S t))]"
    using g(3) unfolding ctl_inv_def by blast+
  show "I (fifo S)" "driver_in (thr (fifo S) (size_of T)) (driver S)" using g(1) unfolding queue_ok_def by blast+
  show "t < size_of T \<Longrightarrow> samples_ok T t (workers S t) (outputs S t)" using g(4) unfolding accounts_ok_def by blast
  show "t < size_of T \<Longrightarrow> worker_in (thr (fifo S) t) (workers S t)" using g(1) by (auto simp: queue_ok_def)
qed

lemma trial_inv_clock: "trial_inv T (S\<lparr>clock := k\<rparr>) = trial_inv T S"
  by (simp add: trial_inv_def queue_ok_def accounts_ok_def)

text \<open>A worker moves, with whatever it changes in the queue, the atomics and its vectors.\<close>

lemma worker_moves:
  assumes inv: "trial_inv T S" and t: "t < size_of T" "workers S t \<noteq> Unborn" "workers S t \<noteq> Gone"
    and w': "w' \<noteq> Unborn" "worker_ok T t w'" "past_line w' \<longrightarrow> opened (driver S)"
      "has_arrived (workers S t) \<longrightarrow> has_arrived w'"
    and o': "outs_ok T N (driver S)" "newest N = (outputs S)(t := o')" "samples_ok T t w' o'"
    and q: "I q" "\<And>u. u \<noteq> t \<Longrightarrow> thr q u = thr (fifo S) u" "worker_in (thr q t) w'"
      "sent (trace q) + sent_by T t (workers S t) = sent (trace (fifo S)) + sent_by T t w'"
      "got (trace q) + got_by (workers S t) (outputs S t) = got (trace (fifo S)) + got_by w' o'"
    and c: "ctl_inv T M (driver S) ((workers S)(t := w')) ((outputs S)(t := o'))"
  shows "trial_inv T (S\<lparr>fifo := q, ctl := M, clock := k, workers := (workers S)(t := w'), outs := N\<rparr>)"
proof -
  note d = trial_invD [OF inv]
  have s: "(\<Sum>u < size_of T. sent_by T u (((workers S)(t := w')) u)) + sent_by T t (workers S t) =
      (\<Sum>u < size_of T. sent_by T u (workers S u)) + sent_by T t w'"
    using sum_move [OF t(1), of "\<lambda>u. sent_by T u (((workers S)(t := w')) u)" "\<lambda>u. sent_by T u (workers S u)"]
    by simp
  have g: "(\<Sum>u < size_of T. got_by (((workers S)(t := w')) u) (((outputs S)(t := o')) u)) + got_by (workers S t) (outputs S t) =
      (\<Sum>u < size_of T. got_by (workers S u) (outputs S u)) + got_by w' o'"
    using sum_move [OF t(1), of "\<lambda>u. got_by (((workers S)(t := w')) u) (((outputs S)(t := o')) u)"
        "\<lambda>u. got_by (workers S u) (outputs S u)"] by simp
  let ?S = "S\<lparr>fifo := q, ctl := M, clock := k, workers := (workers S)(t := w'), outs := N\<rparr>"
  have "accounts_ok T ?S"
    using d(4) o'(2,3) q(4,5) s g unfolding accounts_ok_def by simp
  moreover have "queue_ok T ?S" using d(1) q(1-3) t(1) unfolding queue_ok_def by auto
  moreover have "trial_shape T (driver ?S) (workers ?S)" using worker_shape [OF d(2) t(2,3) w'] by simp
  ultimately show ?thesis using c o'(1,2) by (simp add: trial_inv_def)
qed

lemma worker_local:
  assumes inv: "trial_inv T S" and t: "t < size_of T" "workers S t \<noteq> Unborn" "workers S t \<noteq> Gone"
    and w': "w' \<noteq> Unborn" "worker_ok T t w'" "past_line w' \<longrightarrow> opened (driver S)"
      "has_arrived (workers S t) \<longrightarrow> has_arrived w'"
    and o': "outs_ok T N (driver S)" "newest N = (outputs S)(t := o')" "samples_ok T t w' o'"
    and calm: "\<not> calling (workers S t)" "\<not> calling w'" "workers S t \<noteq> Exiting" "w' \<noteq> Exiting"
    and same: "sent_by T t w' = sent_by T t (workers S t)" "got_by w' o' = got_by (workers S t) (outputs S t)"
      "has_arrived w' = has_arrived (workers S t)"
      "uncounted w' = uncounted (workers S t)" "consumer T t \<Longrightarrow> \<not> ended w'"
  shows "trial_inv T (S\<lparr>outs := N, workers := (workers S)(t := w')\<rparr>)"
proof -
  note d = trial_invD [OF inv]
  have "ctl_inv T (ctl S) (driver S) ((workers S)(t := w')) ((outputs S)(t := o'))"
    by (rule worker_ctl [OF d(3) t(1,2) d(6)]) (use same w' in \<open>auto simp: counted_by_def\<close>)
  then have "trial_inv T (S\<lparr>fifo := fifo S, ctl := ctl S, clock := clock S, workers := (workers S)(t := w'), outs := N\<rparr>)"
    by (rule worker_moves [OF inv t w' o' d(7), rotated 4])
      (use same calm d(13) [OF t(1)] enqueuing_calls in \<open>auto simp: worker_in_simps\<close>)
  moreover have "S\<lparr>workers := w, outs := x\<rparr> = S\<lparr>outs := x, workers := w\<rparr>" for w x by simp
  ultimately show ?thesis by simp
qed

text \<open>The thread stays on its own vectors.\<close>

lemma outs_same: "trial_inv T S \<Longrightarrow> outs_ok T (outs S) (driver S)" "outputs S = (outputs S)(t := outputs S t)"
  by (simp_all add: trial_invD(5))

lemma goto_local:
  assumes inv: "trial_inv T S" and t: "t < size_of T" "workers S t \<noteq> Unborn" "workers S t \<noteq> Gone"
    and w': "w' \<noteq> Unborn" "worker_ok T t w'" "past_line w' \<longrightarrow> opened (driver S)"
      "has_arrived (workers S t) \<longrightarrow> has_arrived w'" "samples_ok T t w' (outputs S t)"
    and calm: "\<not> calling (workers S t)" "\<not> calling w'" "workers S t \<noteq> Exiting" "w' \<noteq> Exiting"
    and same: "sent_by T t w' = sent_by T t (workers S t)" "got_by w' (outputs S t) = got_by (workers S t) (outputs S t)"
      "has_arrived w' = has_arrived (workers S t)"
      "uncounted w' = uncounted (workers S t)" "consumer T t \<Longrightarrow> \<not> ended w'"
  shows "\<exists>S'. goto t w' S = Running S' \<and> trial_inv T S'"
proof -
  have "trial_inv T (S\<lparr>outs := outs S, workers := (workers S)(t := w')\<rparr>)"
    by (rule worker_local [OF inv t w'(1-4) outs_same(1) [OF inv] outs_same(2) w'(5) calm same])
  then show ?thesis by (simp add: goto_def)
qed

lemma running_owns:
  assumes inv: "trial_inv T S" and t: "t < size_of T" "workers S t \<noteq> Unborn" "workers S t \<noteq> Gone"
  shows "born_by (driver S) t" "\<not> joined_by (driver S) t"
  using trial_invD(2) [OF inv] t unfolding trial_shape_def by blast+

lemma change_out_keeps:
  assumes inv: "trial_inv T S" and t: "t < size_of T" "workers S t \<noteq> Unborn" "workers S t \<noteq> Gone"
    and w': "w' \<noteq> Unborn" "worker_ok T t w'" "past_line w' \<longrightarrow> opened (driver S)"
      "has_arrived (workers S t) \<longrightarrow> has_arrived w'" "samples_ok T t w' (g (outputs S t))"
    and calm: "\<not> calling (workers S t)" "\<not> calling w'" "workers S t \<noteq> Exiting" "w' \<noteq> Exiting"
    and same: "sent_by T t w' = sent_by T t (workers S t)" "got_by w' (g (outputs S t)) = got_by (workers S t) (outputs S t)"
      "has_arrived w' = has_arrived (workers S t)"
      "uncounted w' = uncounted (workers S t)" "consumer T t \<Longrightarrow> \<not> ended w'"
  shows "\<exists>S'. change_out t g S (goto t w') = Running S' \<and> trial_inv T S'"
proof -
  obtain N where N: "\<And>f. change_out t g S f = f (S\<lparr>outs := N\<rparr>)" "outs_ok T N (driver S)"
      "newest N = (outputs S)(t := g (outputs S t))"
    by (rule outs_change [OF trial_invD(5) [OF inv] t(1) running_owns [OF inv t], of g]) blast
  have "trial_inv T (S\<lparr>outs := N, workers := (workers S)(t := w')\<rparr>)"
    by (rule worker_local [OF inv t w'(1-4) N(2,3) w'(5) calm same])
  then show ?thesis by (simp add: N(1) goto_def)
qed

lemma worker_calls:
  assumes inv: "trial_inv T S" and t: "t < size_of T" "workers S t \<noteq> Unborn" "workers S t \<noteq> Gone"
    and w': "w' \<noteq> Unborn" "worker_ok T t w'" "past_line w' \<longrightarrow> opened (driver S)"
      "has_arrived (workers S t) \<longrightarrow> has_arrived w'"
    and q: "I q" "\<And>u. u \<noteq> t \<Longrightarrow> thr q u = thr (fifo S) u" "worker_in (thr q t) w'"
      "sent (trace q) + sent_by T t (workers S t) = sent (trace (fifo S)) + sent_by T t w'"
      "got (trace q) + got_by (workers S t) (outputs S t) = got (trace (fifo S)) + got_by w' (outputs S t)"
    and same: "has_arrived w' = has_arrived (workers S t)" "samples_ok T t w' (outputs S t)"
      "counted_by T t w' (outputs S t) = counted_by T t (workers S t) (outputs S t)" "consumer T t \<Longrightarrow> ended w' \<Longrightarrow> ended (workers S t)"
  shows "trial_inv T (S\<lparr>fifo := q, workers := (workers S)(t := w')\<rparr>)"
proof -
  note d = trial_invD [OF inv]
  have c: "ctl_inv T (ctl S) (driver S) ((workers S)(t := w')) ((outputs S)(t := outputs S t))"
    by (rule worker_ctl [OF d(3) t(1,2) d(6)]) (use same d(3) t(1) in \<open>auto simp: ctl_inv_def\<close>)
  have "trial_inv T (S\<lparr>fifo := q, ctl := ctl S, clock := clock S, workers := (workers S)(t := w'), outs := outs S\<rparr>)"
    by (rule worker_moves [OF inv t w' outs_same(1) [OF inv] outs_same(2) same(2)]) (blast intro: q c)+
  then show ?thesis by simp
qed

lemma worker_atomic:
  assumes inv: "trial_inv T S" and t: "t < size_of T" "workers S t \<noteq> Unborn" "workers S t \<noteq> Gone"
    and w': "w' \<noteq> Unborn" "worker_ok T t w'" "past_line w' \<longrightarrow> opened (driver S)"
      "has_arrived (workers S t) \<longrightarrow> has_arrived w'"
    and calm: "\<not> calling (workers S t)" "\<not> calling w'" "workers S t \<noteq> Exiting" "w' \<noteq> Exiting"
    and same: "sent_by T t w' = sent_by T t (workers S t)" "got_by w' (outputs S t) = got_by (workers S t) (outputs S t)"
      "samples_ok T t w' (outputs S t)"
    and M': "ctl_ok M'" "\<And>u. cur (ctl S) u \<le> cur M' u" "vals M' Go = vals (ctl S) Go"
    and arr: "has_arrived w' = has_arrived (workers S t) \<and> vals M' Arrived = vals (ctl S) Arrived \<or>
      has_arrived w' \<and> \<not> has_arrived (workers S t) \<and>
        vals M' Arrived = vals (ctl S) Arrived @ [I32 (i32 (last (vals (ctl S) Arrived)) + 1)]"
    and cnt: "counted_by T t w' (outputs S t) = counted_by T t (workers S t) (outputs S t) \<and>
        vals M' Consumed = vals (ctl S) Consumed \<or>
      counted_by T t w' (outputs S t) = Suc (counted_by T t (workers S t) (outputs S t)) \<and>
        vals M' Consumed = vals (ctl S) Consumed @ [Size (size_t (last (vals (ctl S) Consumed)) + 1)]"
    and gone: "consumer T t \<and> ended w' \<Longrightarrow>
      unat (total_of T) \<le> (\<Sum>u < size_of T. counted_by T u (workers S u) (outputs S u))"
  shows "trial_inv T (S\<lparr>ctl := M', workers := (workers S)(t := w')\<rparr>)"
proof -
  note d = trial_invD [OF inv]
  have "ctl_inv T M' (driver S) ((workers S)(t := w')) ((outputs S)(t := outputs S t))"
    by (rule worker_ctl [OF d(3) t(1,2) M']) (use arr cnt gone in auto)
  then have "trial_inv T (S\<lparr>fifo := fifo S, ctl := M', clock := clock S, workers := (workers S)(t := w'), outs := outs S\<rparr>)"
    by (rule worker_moves [OF inv t w' outs_same(1) [OF inv] outs_same(2) same(3) d(7), rotated 4])
      (use same calm d(13) [OF t(1)] enqueuing_calls in \<open>auto simp: worker_in_simps\<close>)
  then show ?thesis by simp
qed

text \<open>What the kinds of steps a thread makes come to.\<close>

lemma on_ctl_keeps:
  assumes "ctl_ok (ctl S)" "aware (ctl S) t" "x = Load l mo \<or> x = Rmw l g mo"
    and "trial_inv T S"
    and "\<And>r M. mem_step t x c (ctl S) = Done r M \<Longrightarrow>
      \<exists>S'. f (cell_of r) (S\<lparr>ctl := M\<rparr>) = Running S' \<and> trial_inv T S'"
  shows "\<exists>S'. on_ctl t x c S f = Running S' \<and> trial_inv T S'"
proof (cases "mem_step t x c (ctl S)")
  case (Ub e)
  then show ?thesis using ctl_defined(1,2) [OF assms(1,2)] assms(3) by blast
qed (use assms(4,5) in \<open>auto simp: on_ctl_def\<close>)

lemma on_fifo_call:
  assumes inv: "trial_inv T S" and t: "t < size_of T" "workers S t = Body b" "\<not> calling (Body b)" and x: "x \<noteq> Leave"
    and w': "body_ok T t b'" "calling (Body b')" "enqueuing (Body b') = (\<exists>v. x = Put v)"
      "sent_by T t (Body b') = sent_by T t (Body b) + (case x of Put v \<Rightarrow> 1 | _ \<Rightarrow> 0)"
      "in_hand (Body b') = in_hand (Body b)" "uncounted (Body b') = uncounted (Body b)"
      "samples_ok T t (Body b') (outputs S t)"
  shows "\<exists>S'. on_fifo Q (Invoke t x) S (goto t (Body b')) = Running S' \<and> trial_inv T S'"
proof -
  note d = trial_invD [OF inv]
  have id: "idle Q (thr (fifo S) t)" using d(13) [OF t(1)] t(2,3) by (simp add: worker_in_simps)
  obtain q where q: "exec Q (Invoke t x) (fifo S) = Running q" "I q" "\<And>u. u \<noteq> t \<Longrightarrow> thr q u = thr (fifo S) u"
      "\<not> idle Q (thr q t)" "\<not> bye (thr q t)" "enq (thr q t) = (\<exists>v. x = Put v)"
      "sent (trace q) = sent (trace (fifo S)) + (case x of Put v \<Rightarrow> 1 | _ \<Rightarrow> 0)"
      "got (trace q) = got (trace (fifo S))"
    by (rule invoke_effect [OF d(7) id x]) blast
  have "trial_inv T (S\<lparr>fifo := q, workers := (workers S)(t := Body b')\<rparr>)"
    by (rule worker_calls [OF inv t(1)])
      (use t(2) d(10) [of t] w' q in \<open>auto simp: got_by_def counted_by_def worker_in_simps\<close>)
  then show ?thesis using q(1) by (simp add: on_fifo_def goto_def del: exec.simps)
qed

text \<open>In a call: it goes on, or returns \<open>y\<close> and the loop resumes at \<open>next y\<close>.\<close>

lemma in_call_returns:
  assumes inv: "trial_inv T S" and t: "t < size_of T" "workers S t = Body b" "calling (Body b)"
    and f: "\<And>y. f y = goto t (Body (b' y))"
    and w': "\<And>y. body_ok T t (b' y)" "\<And>y. \<not> calling (Body (b' y))"
      "\<And>y. sent_by T t (Body (b' y)) = sent_by T t (Body b)"
      "\<And>y. (enqueuing (Body b) \<longrightarrow> (\<forall>x. y \<noteq> Dequeued x)) \<Longrightarrow>
        in_hand (Body (b' y)) = in_hand (Body b) + (case y of Dequeued (Some v) \<Rightarrow> 1 | _ \<Rightarrow> 0)"
      "\<And>y. counted_by T t (Body (b' y)) (outputs S t) = counted_by T t (Body b) (outputs S t)"
      "\<And>y. samples_ok T t (Body (b' y)) (outputs S t)"
  shows "\<exists>S'. in_call Q ans t c S f = Running S' \<and> trial_inv T S'"
proof -
  note d = trial_invD [OF inv]
  have busy: "\<not> idle Q (thr (fifo S) t)" "\<not> bye (thr (fifo S) t)" "enq (thr (fifo S) t) \<longleftrightarrow> enqueuing (Body b)"
    using d(13) [OF t(1)] t(2,3) by (simp_all add: worker_in_simps)
  obtain q where q: "exec Q (Step t (fst c) (snd c)) (fifo S) = Running q" "I q" "\<And>u. u \<noteq> t \<Longrightarrow> thr q u = thr (fifo S) u"
      "idle Q (thr q t) \<longleftrightarrow> ans (thr (fifo S) t) \<noteq> None"
      "\<not> idle Q (thr q t) \<Longrightarrow> enq (thr q t) = enq (thr (fifo S) t) \<and> bye (thr q t) = bye (thr (fifo S) t)"
      "sent (trace q) = sent (trace (fifo S))"
      "got (trace q) = got (trace (fifo S)) + (case ans (thr (fifo S) t) of Some (Dequeued (Some v)) \<Rightarrow> 1 | _ \<Rightarrow> 0)"
    by (rule step_effect [OF d(7) busy(1), of "fst c" "snd c"]) (use busy(2) in blast)
  show ?thesis
  proof (cases "ans (thr (fifo S) t)")
    case None
    then have "trial_inv T (S\<lparr>fifo := q, workers := (workers S)(t := Body b)\<rparr>)"
      by (intro worker_calls [OF inv t(1)])
        (use t d(8,10) [of t] d(9) [OF t(1)] q busy in \<open>auto simp: worker_in_simps\<close>)
    moreover have "(workers S)(t := Body b) = workers S" using t(2) by auto
    ultimately have "trial_inv T (S\<lparr>fifo := q\<rparr>)" by simp
    then show ?thesis using q(1) None by (simp add: in_call_def on_fifo_def del: exec.simps)
  next
    case (Some y)
    then have y: "enqueuing (Body b) \<longrightarrow> (\<forall>x. y \<noteq> Dequeued x)"
      using enq_ans [of "thr (fifo S) t"] busy(3) by auto
    have "trial_inv T (S\<lparr>fifo := q, workers := (workers S)(t := Body (b' y))\<rparr>)"
      by (intro worker_calls [OF inv t(1)])
        (use Some t(2) d(10) [of t] w' [of y] w'(4) [OF y] enqueuing_calls [of "Body (b' y)"] q in
          \<open>auto simp: got_by_def worker_in_simps split: ret.splits option.splits\<close>)
    then show ?thesis using q(1) Some f by (simp add: in_call_def on_fifo_def goto_def del: exec.simps)
  qed
qed

text \<open>The end of a thread.\<close>

lemma thread_ends:
  assumes inv: "trial_inv T S" and t: "t < size_of T" "workers S t = Ending"
  shows "\<exists>S'. on_fifo Q (Invoke t Leave) S (goto t Exiting) = Running S' \<and> trial_inv T S'"
proof -
  note d = trial_invD [OF inv]
  have id: "idle Q (thr (fifo S) t)" using d(13) [OF t(1)] t(2) by (simp add: worker_in_simps)
  obtain q where q: "exec Q (Invoke t Leave) (fifo S) = Running q" "I q" "\<And>u. u \<noteq> t \<Longrightarrow> thr q u = thr (fifo S) u"
      "idle Q (thr q t) \<or> bye (thr q t)" "sent (trace q) = sent (trace (fifo S))" "got (trace q) = got (trace (fifo S))"
    by (rule leave_effect [OF d(7) id]) blast
  have "trial_inv T (S\<lparr>fifo := q, workers := (workers S)(t := Exiting)\<rparr>)"
    by (rule worker_calls [OF inv t(1)])
      (use t(2) d(9) [OF t(1)] d(10) [of t] q in \<open>auto simp: got_by_def counted_by_def worker_in_simps samples_ok_def\<close>)
  then show ?thesis using q(1) by (simp add: on_fifo_def goto_def del: exec.simps)
qed

lemma thread_exits:
  assumes inv: "trial_inv T S" and t: "t < size_of T" "workers S t = Exiting"
  shows "\<exists>S'. (if idle Q (thr (fifo S) t) then goto t Gone S else on_fifo Q (Step t k b) S Running) = Running S' \<and> trial_inv T S'"
proof -
  note d = trial_invD [OF inv]
  show ?thesis
  proof (cases "idle Q (thr (fifo S) t)")
    case True
    have "trial_inv T (S\<lparr>fifo := fifo S, workers := (workers S)(t := Gone)\<rparr>)"
      by (rule worker_calls [OF inv t(1)])
        (use t(2) d(7) d(9) [OF t(1)] d(10) [of t] True in \<open>auto simp: got_by_def counted_by_def worker_in_simps samples_ok_def\<close>)
    then show ?thesis using True by (simp add: goto_def)
  next
    case False
    then have bye: "bye (thr (fifo S) t)" using d(13) [OF t(1)] t(2) by (simp add: worker_in_simps)
    obtain q where q: "exec Q (Step t k b) (fifo S) = Running q" "I q" "\<And>u. u \<noteq> t \<Longrightarrow> thr q u = thr (fifo S) u"
        "\<not> idle Q (thr q t) \<Longrightarrow> enq (thr q t) = enq (thr (fifo S) t) \<and> bye (thr q t) = bye (thr (fifo S) t)"
        "sent (trace q) = sent (trace (fifo S))"
        "got (trace q) = got (trace (fifo S)) + (case ans (thr (fifo S) t) of Some (Dequeued (Some v)) \<Rightarrow> 1 | _ \<Rightarrow> 0)"
      by (rule step_effect [OF d(7) False, of k b]) blast
    have "trial_inv T (S\<lparr>fifo := q, workers := (workers S)(t := Exiting)\<rparr>)"
      by (rule worker_calls [OF inv t(1)])
        (use t(2) bye bye_ans [OF bye] d(9) [OF t(1)] d(10) [of t] q in \<open>auto simp: got_by_def counted_by_def worker_in_simps samples_ok_def\<close>)
    moreover have "(workers S)(t := Exiting) = workers S" using t(2) by auto
    ultimately have "trial_inv T (S\<lparr>fifo := q\<rparr>)" by simp
    then show ?thesis using False q(1) by (simp add: on_fifo_def del: exec.simps)
  qed
qed

end

lemma in_call_resume:
  "(\<lambda>y. case y of Dequeued (Some v) \<Rightarrow> goto t (Body (g v)) | _ \<Rightarrow> goto t (Body b)) =
     (\<lambda>y. goto t (Body (case y of Dequeued (Some v) \<Rightarrow> g v | _ \<Rightarrow> b)))"
  by (auto simp: fun_eq_iff split: ret.splits option.splits)

lemma all_of_sum: "n \<le> (\<Sum>t<n. of_bool (P t) :: nat) \<Longrightarrow> t < n \<Longrightarrow> P t"
proof (rule ccontr)
  assume "n \<le> (\<Sum>t<n. of_bool (P t) :: nat)" and t: "t < n" "\<not> P t"
  moreover have "(\<Sum>t<n. of_bool (P t) :: nat) < (\<Sum>t<n. 1)"
    by (rule sum_strict_mono_ex1) (use t in auto)
  ultimately show False by simp
qed

lemma sint_small: "unat (w :: 32 word) < 2 ^ 31 \<Longrightarrow> sint w = int (unat w)"
proof -
  assume "unat (w :: 32 word) < 2 ^ 31"
  then have "int (unat w) < int (2 ^ 31)" by (simp only: of_nat_less_iff)
  then have u: "uint w < 2 ^ 31" by simp
  have "signed_take_bit 31 (uint w) = uint w"
    by (rule signed_take_bit_int_eq_self) (use u in \<open>auto intro: order.trans [of _ 0]\<close>)
  then show ?thesis by (simp add: sint_uint)
qed

lemma arrived_everyone:
  assumes n: "unat n < 2 ^ 31" and k: "k \<le> (\<Sum>t<unat n. of_bool (P t))"
    and all: "all_arrived n (of_nat k)"
  shows "\<forall>t<unat n. P t"
proof -
  have "(\<Sum>t<unat n. of_bool (P t) :: nat) \<le> (\<Sum>t<unat n. 1)" by (rule sum_mono) simp
  then have "k \<le> unat n" using k by simp
  then have kn: "k < 2 ^ 31" using n by (rule order.strict_trans1)
  then have "unat (of_nat k :: 32 word) = k" by (simp add: unat_of_nat mod_less)
  then have "sint (of_nat k :: 32 word) = int k" using sint_small [of "of_nat k"] kn by simp
  then have "int (unat n) \<le> int k" using all sint_small [OF n] unfolding all_arrived_def by metis
  then have "unat n \<le> k" by (simp only: of_nat_le_iff)
  then show ?thesis using all_of_sum [of "unat n" P] k by (meson order.trans)
qed

lemma unat_step: "(i :: 64 word) < q \<Longrightarrow> unat (i + 1) = Suc (unat i)"
  using unsigned_less [of q, where ?'a = nat] by (simp add: word_less_nat_alt unat_word_ariths)

text \<open>Pinning a thread divides by the number of cores, on Linux.\<close>

definition countable_cores :: "host \<Rightarrow> bool" where
  "countable_cores H \<longleftrightarrow> linux H \<longrightarrow> concurrency H \<noteq> 0"

lemma pairs_role: "is_pairs T \<Longrightarrow> \<not> consumer T t"
  by (cases T) (simp_all add: consumer_def)

lemma entry_ok: "body_ok T t (entry T t)" and entry_start: "entry T t = (if consumer T t then C_next else B_next 0)"
  by (cases T; simp add: consumer_def)+

lemma reserves_parts [simp]: "enq_ns (reserves T t o') = enq_ns o'" "deq_ns (reserves T t o') = deq_ns o'"
  by (cases T; simp)+

context bench_queue begin

lemma body_keeps:
  assumes inv: "trial_inv T S" and t: "t < size_of T" and w: "workers S t = Body b"
  shows "\<exists>S'. body_step Q ans T t c S b = Running S' \<and> trial_inv T S'"
proof -
  note d = trial_invD [OF inv]
  have ok: "body_ok T t b" "samples_ok T t (Body b) (outputs S t)" "opened (driver S)" "aware (ctl S) t"
    using d(8) [of t] d(9) [OF t] d(10) [of t] d(12) [of t] w by simp_all
  have pairs: "is_pairs T \<Longrightarrow> \<not> consumer T t" by (rule pairs_role)
  note s = samples_ok_def got_by_def quota_def push_enq_def push_deq_def Let_def unat_step
  note go = goto_local [OF inv t, unfolded w] and ch = change_out_keeps [OF inv t, unfolded w]
  show ?thesis
  proof (cases b)
    case (B_next i)
    have e: "\<not> i < quota_of T \<Longrightarrow> i = quota_of T" using ok(1) B_next by auto
    have "\<exists>S'. goto t (if i < quota_of T then Body (B_enqueue i (now_ns S)) else Ending) S = Running S' \<and> trial_inv T S'"
      by (rule go) (use ok e B_next pairs in \<open>auto simp: s\<close>)
    then show ?thesis using B_next by (auto split: if_splits)
  next
    case (B_enqueue i t0)
    then show ?thesis
      using ok w by (auto simp: samples_ok_def intro!: on_fifo_call [OF inv t w])
  next
    case (B_enqueuing i t0)
    then show ?thesis
      using ok w
      by (auto simp: samples_ok_def counted_by_def got_by_def fun_eq_iff split: ret.splits intro!: in_call_returns [OF inv t w, where b' = "\<lambda>y. B_enqueued i t0"])
  next
    case (B_enqueued i t0)
    have "\<exists>S'. change_out t (push_enq (now_ns S - t0)) S
        (goto t (Body (if is_pairs T then B_dequeue i (now_ns S) else B_next (i + 1)))) = Running S' \<and> trial_inv T S'"
      by (rule ch) (use ok B_enqueued pairs in \<open>auto simp: s inc_le\<close>)
    then show ?thesis using B_enqueued by (simp add: Let_def)
  next
    case (B_dequeue i t0)
    then show ?thesis
      using ok w pairs by (auto simp: samples_ok_def intro!: on_fifo_call [OF inv t w])
  next
    case (B_dequeued i t0 v)
    have "\<exists>S'. change_out t (push_deq (now_ns S - t0)) S (goto t (Body (B_next (i + 1)))) = Running S' \<and> trial_inv T S'"
      by (rule ch) (use ok B_dequeued pairs in \<open>auto simp: s inc_le\<close>)
    then show ?thesis using B_dequeued by simp
  next
    case C_next
    have "\<exists>S'. goto t (Body (C_poll (now_ns S))) S = Running S' \<and> trial_inv T S'"
      by (rule go) (use ok C_next in \<open>auto simp: s\<close>)
    then show ?thesis using C_next by simp
  next
    case (C_dequeue t0)
    then show ?thesis
      using ok w by (auto simp: samples_ok_def intro!: on_fifo_call [OF inv t w])
  next
    case (C_counted t0 v)
    have "\<exists>S'. change_out t (push_deq (now_ns S - t0)) S (goto t (Body C_next)) = Running S' \<and> trial_inv T S'"
      by (rule ch) (use ok C_counted in \<open>auto simp: s\<close>)
    then show ?thesis using C_counted by simp
  next
    case (B_dequeuing i t0)
    let ?b = "\<lambda>y. case y of Dequeued (Some v) \<Rightarrow> B_dequeued i t0 v | _ \<Rightarrow> B_dequeue i t0"
    have "\<exists>S'. in_call Q ans t c S (\<lambda>y. goto t (Body (?b y))) = Running S' \<and> trial_inv T S'"
      by (rule in_call_returns [OF inv t w])
        (use ok B_dequeuing pairs in \<open>auto simp: samples_ok_def counted_by_def split: ret.splits option.splits\<close>)
    then show ?thesis using B_dequeuing by (simp add: in_call_resume)
  next
    case (C_dequeuing t0)
    let ?b = "\<lambda>y. case y of Dequeued (Some v) \<Rightarrow> C_count t0 v | _ \<Rightarrow> C_poll t0"
    have "\<exists>S'. in_call Q ans t c S (\<lambda>y. goto t (Body (?b y))) = Running S' \<and> trial_inv T S'"
      by (rule in_call_returns [OF inv t w])
        (use ok C_dequeuing in \<open>auto simp: samples_ok_def counted_by_def got_by_def split: ret.splits option.splits\<close>)
    then show ?thesis using C_dequeuing by (simp add: in_call_resume)
  next
    case (C_poll t0)
    have gone: "unat (total_of T) \<le> (\<Sum>u < size_of T. counted_by T u (workers S u) (outputs S u))"
      if st: "mem_step t (Load Consumed relaxed) c (ctl S) = Done r M" and n: "\<not> size_t (cell_of r) < total_of T" for r M
    proof -
      let ?n = "\<Sum>u < size_of T. counted_by T u (workers S u) (outputs S u)"
      have "cell_of r \<in> set (vals (ctl S) Consumed)" by (rule ctl_load(4) [OF d(6) st])
      then obtain k where "k \<le> ?n" "cell_of r = Size (of_nat k)" unfolding d(17) by (rule counter_read)
      moreover from this have "unat (total_of T) \<le> k mod 2 ^ 64"
        using n by (simp add: word_less_nat_alt unat_of_nat)
      then have "unat (total_of T) \<le> k" by (rule order.trans) simp
      ultimately show ?thesis by simp
    qed
    have "\<exists>S'. on_ctl t (Load Consumed relaxed) c S
        (\<lambda>x. goto t (if size_t x < total_of T then Body (C_dequeue t0) else Ending)) = Running S' \<and> trial_inv T S'"
    proof (rule on_ctl_keeps [OF d(6) ok(4) _ inv])
      fix r M assume st: "mem_step t (Load Consumed relaxed) c (ctl S) = Done r M"
      let ?w = "if size_t (cell_of r) < total_of T then Body (C_dequeue t0) else Ending"
      have "trial_inv T (S\<lparr>ctl := M, workers := (workers S)(t := ?w)\<rparr>)"
        by (rule worker_atomic [OF inv t])
          (use w ok C_poll ctl_load [OF d(6) st] gone [OF st] in \<open>auto simp: samples_ok_def got_by_def counted_by_def quota_def split: if_splits\<close>)
      then show "\<exists>S'. goto t ?w (S\<lparr>ctl := M\<rparr>) = Running S' \<and> trial_inv T S'" by (simp add: goto_def)
    qed simp
    then show ?thesis using C_poll by simp
  next
    case (C_count t0 v)
    have "\<exists>S'. on_ctl t (Rmw Consumed (\<lambda>x. Size (size_t x + 1)) relaxed) c S
        (\<lambda>x. goto t (Body (C_counted t0 v))) = Running S' \<and> trial_inv T S'"
    proof (rule on_ctl_keeps [OF d(6) ok(4) _ inv])
      fix r M assume st: "mem_step t (Rmw Consumed (\<lambda>x. Size (size_t x + 1)) relaxed) c (ctl S) = Done r M"
      have "trial_inv T (S\<lparr>ctl := M, workers := (workers S)(t := Body (C_counted t0 v))\<rparr>)"
        by (rule worker_atomic [OF inv t])
          (use w ok C_count ctl_rmw [OF d(6) st] in \<open>auto simp: samples_ok_def got_by_def counted_by_def\<close>)
      then show "\<exists>S'. goto t (Body (C_counted t0 v)) (S\<lparr>ctl := M\<rparr>) = Running S' \<and> trial_inv T S'"
        by (simp add: goto_def)
    qed simp
    then show ?thesis using C_count by simp
  qed
qed

lemma worker_keeps:
  assumes inv: "trial_inv T S" and t: "t < size_of T" and H: "countable_cores H \<or> workers S t \<noteq> Pinning"
  shows "\<exists>S'. worker_step H Q ans T t c S (workers S t) = Running S' \<and> trial_inv T S'"
proof -
  note d = trial_invD [OF inv]
  have s: "samples_ok T t (workers S t) (outputs S t)" by (rule d(9) [OF t])
  show ?thesis
  proof (cases "workers S t")
    case Pinning
    have go: "\<exists>S'. goto t w S = Running S' \<and> trial_inv T S'" if "w = Arriving \<or> w = Unpinned" for w
      by (rule goto_local [OF inv t]) (use Pinning s that in \<open>auto simp: samples_ok_def got_by_def\<close>)
    show ?thesis
    proof (cases "linux H")
      case True
      then obtain k where "core_of H (of_nat t) = Some k" using H Pinning by (auto simp: countable_cores_def core_of_def)
      then show ?thesis using Pinning True go [of "if snd c then Arriving else Unpinned"] by auto
    next
      case False
      then show ?thesis using Pinning go [of Unpinned] by simp
    qed
  next
    case Unpinned
    have "\<exists>S'. on_ctl t (Rmw All_pinned (\<lambda>x. Yes False) relaxed) c S (\<lambda>x. goto t Arriving) = Running S' \<and> trial_inv T S'"
    proof (rule on_ctl_keeps [OF d(6) _ _ inv])
      fix r M assume st: "mem_step t (Rmw All_pinned (\<lambda>x. Yes False) relaxed) c (ctl S) = Done r M"
      have "trial_inv T (S\<lparr>ctl := M, workers := (workers S)(t := Arriving)\<rparr>)"
        by (rule worker_atomic [OF inv t])
          (use s Unpinned ctl_rmw [OF d(6) st] in \<open>auto simp: samples_ok_def got_by_def counted_by_def\<close>)
      then show "\<exists>S'. goto t Arriving (S\<lparr>ctl := M\<rparr>) = Running S' \<and> trial_inv T S'" by (simp add: goto_def)
    qed (use d(12) [of t] Unpinned in simp_all)
    then show ?thesis using Unpinned by simp
  next
    case Arriving
    have "\<exists>S'. on_ctl t arrive c S (\<lambda>x. goto t At_line) = Running S' \<and> trial_inv T S'"
      unfolding arrive_def
    proof (rule on_ctl_keeps [OF d(6) _ _ inv])
      fix r M assume st: "mem_step t (Rmw Arrived (\<lambda>x. I32 (i32 x + 1)) relaxed) c (ctl S) = Done r M"
      have "trial_inv T (S\<lparr>ctl := M, workers := (workers S)(t := At_line)\<rparr>)"
        by (rule worker_atomic [OF inv t])
          (use s Arriving ctl_rmw [OF d(6) st] in \<open>auto simp: samples_ok_def got_by_def counted_by_def\<close>)
      then show "\<exists>S'. goto t At_line (S\<lparr>ctl := M\<rparr>) = Running S' \<and> trial_inv T S'" by (simp add: goto_def)
    qed (use d(12) [of t] Arriving in simp_all)
    then show ?thesis using Arriving by simp
  next
    case At_line
    have "\<exists>S'. on_ctl t await_go c S (\<lambda>x. goto t (if yes x then Reserving else At_line)) = Running S' \<and> trial_inv T S'"
      unfolding await_go_def
    proof (rule on_ctl_keeps [OF d(6) _ _ inv])
      fix r M assume st: "mem_step t (Load Go acquire) c (ctl S) = Done r M"
      let ?w = "if yes (cell_of r) then Reserving else At_line"
      have "yes (cell_of r) \<Longrightarrow> opened (driver S)"
        using ctl_load(4) [OF d(6) st] d(15) by (auto split: if_splits)
      then have "trial_inv T (S\<lparr>ctl := M, workers := (workers S)(t := ?w)\<rparr>)"
        by (intro worker_atomic [OF inv t])
          (use s At_line ctl_load [OF d(6) st] in \<open>auto simp: samples_ok_def got_by_def counted_by_def split: if_splits\<close>)
      then show "\<exists>S'. goto t ?w (S\<lparr>ctl := M\<rparr>) = Running S' \<and> trial_inv T S'" by (simp add: goto_def)
    qed (use d(12) [of t] At_line in simp_all)
    then show ?thesis using At_line by simp
  next
    case Reserving
    have "\<exists>S'. change_out t (reserves T t) S (goto t (Body (entry T t))) = Running S' \<and> trial_inv T S'"
      by (rule change_out_keeps [OF inv t])
        (use Reserving s d(10) [of t] entry_ok [of T t] entry_start [of T t] in \<open>auto simp: samples_ok_def got_by_def\<close>)
    then show ?thesis using Reserving by simp
  next
    case (Body b)
    then show ?thesis using body_keeps [OF inv t, of b c] by simp
  next
    case Ending
    then show ?thesis using thread_ends [OF inv t] by simp
  next
    case Exiting
    then show ?thesis using thread_exits [OF inv t, of "fst c" "snd c"] by simp
  qed (use inv in auto)
qed

section \<open>The driver moves\<close>

lemma driver_moves:
  assumes inv: "trial_inv T S"
    and d': "driver_ok T d'" "\<And>t. t < size_of T \<Longrightarrow> born_by d' t = born_by (driver S) t" "opened (driver S) \<longrightarrow> opened d'"
      "\<And>t. t < size_of T \<Longrightarrow> joined_by d' t \<Longrightarrow> joined_by (driver S) t \<or> workers S t = Gone"
      "lined_up d' \<Longrightarrow> \<not> lined_up (driver S) \<Longrightarrow> size_of T < 2 ^ 31 \<Longrightarrow> \<forall>t < size_of T. has_arrived (workers S t)"
    and q: "I q" "\<And>u. u \<noteq> size_of T \<Longrightarrow> thr q u = thr (fifo S) u" "driver_in (thr q (size_of T)) d'"
      "sent (trace q) + filled T (driver S) = sent (trace (fifo S)) + filled T d'"
      "got (trace q) = got (trace (fifo S))"
    and N: "outs_ok T N d'" "newest N = outputs S"
    and M: "ctl_ok M" "\<And>u. cur (ctl S) u \<le> cur M u"
      "vals M Go = (if opened d' then [Yes False, Yes True] else [Yes False])"
      "vals M Arrived = vals (ctl S) Arrived" "vals M Consumed = vals (ctl S) Consumed"
  shows "trial_inv T (S\<lparr>ctl := M, outs := N, fifo := q, driver := d'\<rparr>)"
proof -
  note i = trial_invD [OF inv]
  let ?S = "S\<lparr>ctl := M, outs := N, fifo := q, driver := d'\<rparr>"
  have "queue_ok T ?S"
    using i(1) q(1-3) unfolding queue_ok_def by auto
  moreover have "trial_shape T (driver ?S) (workers ?S)"
  proof -
    note sh = i(2) [unfolded trial_shape_def]
    have "\<forall>t. t < size_of T \<longrightarrow> joined_by d' t \<longrightarrow> workers S t = Gone" using sh d'(4) by blast
    moreover have "\<forall>t. past_line (workers S t) \<longrightarrow> opened d'" using sh d'(3) by blast
    moreover have "size_of T < 2 ^ 31 \<and> lined_up d' \<longrightarrow> (\<forall>t < size_of T. has_arrived (workers S t))"
      using sh d'(5) by blast
    moreover have "\<forall>t. workers S t \<noteq> Unborn \<longleftrightarrow> t < size_of T \<and> born_by d' t" using sh d'(2) by blast
    ultimately show ?thesis using sh d'(1) unfolding trial_shape_def by simp
  qed
  moreover have "ctl_inv T (ctl ?S) (driver ?S) (workers ?S) (outputs ?S)"
    using i(3) M N(2) aware_mono [OF _ M(2)] unfolding ctl_inv_def by simp
  moreover have "accounts_ok T ?S" using i(4) q(4,5) N(2) unfolding accounts_ok_def by simp
  ultimately show ?thesis using N(1) by (simp add: trial_inv_def)
qed

lemma outs_kept:
  assumes "outs_ok T M d" "\<And>t. t < size_of T \<Longrightarrow> born_by d' t = born_by d t" "\<And>t. t < size_of T \<Longrightarrow> joined_by d' t = joined_by d t"
  shows "outs_ok T M d'"
  using assms by (simp add: outs_ok_def owner_of_def)

lemma driver_local:
  assumes inv: "trial_inv T S"
    and d': "driver_ok T d'" "\<And>t. t < size_of T \<Longrightarrow> born_by d' t = born_by (driver S) t" "opened (driver S) = opened d'"
      "\<And>t. t < size_of T \<Longrightarrow> joined_by d' t = joined_by (driver S) t"
      "lined_up d' = lined_up (driver S)"
      "\<not> filling (driver S)" "\<not> filling d'" "filled T d' = filled T (driver S)"
  shows "trial_inv T (S\<lparr>driver := d'\<rparr>)"
proof -
  note i = trial_invD [OF inv]
  have "trial_inv T (S\<lparr>ctl := ctl S, outs := outs S, fifo := fifo S, driver := d'\<rparr>)"
    by (rule driver_moves [OF inv])
      (use d' i i(14) outs_kept [OF i(5) d'(2,4)] in \<open>auto simp: driver_in_def\<close>)
  then show ?thesis by simp
qed

lemma outs_synchronized:
  assumes ok: "outs_ok T M d" and d': "\<And>v. v < size_of T \<Longrightarrow> owner_of T d' v = owner_of T d v \<or> owner_of T d v = t \<and> owner_of T d' v = u"
  shows "outs_ok T (synchronize t u M) d'" "newest (synchronize t u M) = newest M"
proof -
  have "exclusive (synchronize t u M) (owner_of T d' v) v" if v: "v < size_of T" for v
  proof -
    have ex: "exclusive M (owner_of T d v) v" using ok v by (simp add: outs_ok_def)
    from d' [OF v] show ?thesis using exclusive_synchronize [OF ex, of t u] by metis
  qed
  then show "outs_ok T (synchronize t u M) d'" using ok wf_synchronize by (auto simp: outs_ok_def)
  show "newest (synchronize t u M) = newest M" by (rule now_synchronize(1))
qed

lemma driver_born:
  assumes inv: "trial_inv T S" and t: "driver S = Spawning t" "t < size_of T"
    and q: "I q" "thr q = thr (fifo S)" "trace q = trace (fifo S)"
  shows "trial_inv T (S\<lparr>ctl := synchronize (size_of T) t (ctl S), outs := synchronize (size_of T) t (outs S), fifo := q,
    workers := (workers S)(t := Pinning), driver := Spawning (Suc t)\<rparr>)" (is "trial_inv T ?S")
proof -
  note i = trial_invD [OF inv]
  note sh = i(2) [unfolded trial_shape_def]
  have un: "workers S t = Unborn" using sh t(1) by (metis born_by.simps(3) less_irrefl)
  have o': "samples_ok T t Unborn (outputs S t)" using i(9) [OF t(2)] un by simp
  have empty: "got_by Pinning (outputs S t) = got_by Unborn (outputs S t)" by (simp add: got_by_def)
  have a: "(\<Sum>u < size_of T. f u (((workers S)(t := Pinning)) u)) = (\<Sum>u < size_of T. f u (workers S u))"
    if "f t Pinning = f t Unborn" for f :: "nat \<Rightarrow> worker \<Rightarrow> nat"
    using that un by (intro sum.cong) auto
  have n: "outs_ok T (outs ?S) (driver ?S)" "outputs ?S = outputs S"
    using outs_synchronized [OF i(5), of "Spawning (Suc t)" "size_of T" t] t
    by (auto simp: owner_of_def less_Suc_eq)
  have "worker_in (thr q u) (((workers S)(t := Pinning)) u)" if "u \<noteq> size_of T" for u
    using i(1) that un q(2) by (cases "u = t") (auto simp: queue_ok_def worker_in_simps)
  moreover have "driver_in (thr q (size_of T)) (Spawning (Suc t))" using i(14) q(2) t(1) by (simp add: driver_in_def)
  ultimately have "queue_ok T ?S" using q(1) by (simp add: queue_ok_def)
  moreover have "trial_shape T (driver ?S) (workers ?S)"
    using sh t un by (auto simp: trial_shape_def less_Suc_eq)
  moreover have "ctl_inv T (ctl ?S) (driver ?S) (workers ?S) (outputs ?S)"
  proof -
    have aw: "aware (ctl S) u \<Longrightarrow> aware (synchronize (size_of T) t (ctl S)) u" for u
      by (rule ctl_sync(5) [OF i(6)])
    have "counted_by T t Pinning (outputs S t) = counted_by T t Unborn (outputs S t)" by (simp add: counted_by_def got_by_def)
    then show ?thesis
      unfolding n(2)
      using i(3) t un ctl_sync(1,2,4) [OF i(6), of "size_of T" t] aw i(11)
        a [of "\<lambda>u w. counted_by T u w (outputs S u)"] a [of "\<lambda>u w. of_bool (has_arrived w)"]
      unfolding ctl_inv_def by simp
  qed
  moreover have "accounts_ok T ?S"
    using i(4) o' q(3) t un empty a [of "\<lambda>u w. sent_by T u w"] a [of "\<lambda>u w. got_by w (outputs S u)"]
    unfolding accounts_ok_def n(2) by (auto simp: samples_ok_def)
  ultimately show ?thesis using n(1) by (simp add: trial_inv_def)
qed

text \<open>The driver reads the vectors of a thread it has joined.\<close>

lemma driver_reads:
  assumes inv: "trial_inv T S" and d: "driver S = Merging x y b t es ds" "t < size_of T"
  shows "\<exists>S'. on_outs (size_of T) (Read t) S (\<lambda>o'. steer (Merging x y b (Suc t) (es @ enq_ns o') (ds @ deq_ns o'))) = Running S' \<and>
    trial_inv T S'"
proof -
  note i = trial_invD [OF inv]
  let ?M = "touch (size_of T) t (outs S)"
  let ?d = "Merging x y b (Suc t) (es @ enq_ns (outputs S t)) (ds @ deq_ns (outputs S t))"
  have own: "exclusive (outs S) (size_of T) v" if "v < size_of T" for v
    using i(5) that d(1) by (auto simp: outs_ok_def owner_of_def)
  have wf: "mem_wf (outs S)" using i(5) by (simp add: outs_ok_def)
  have n: "newest ?M = outputs S" by (rule newest_cong) simp_all
  have "outs_ok T ?M ?d"
    using exclusive_touch [OF own] wf_touch [OF wf] by (simp add: outs_ok_def owner_of_def)
  then have "trial_inv T (S\<lparr>ctl := ctl S, outs := ?M, fifo := fifo S, driver := ?d\<rparr>)"
    by (intro driver_moves [OF inv]) (use d i i(14) n in \<open>auto simp: driver_in_def\<close>)
  then show ?thesis using exclusive_read [OF wf own [OF d(2)], of "(0, True)"] by (simp add: on_outs_def steer_def)
qed

lemma driver_keeps:
  assumes inv: "trial_inv T S"
  shows "\<exists>S'. driver_step H Q ans T (size_of T) c S (driver S) = Running S' \<and> trial_inv T S'"
proof -
  let ?n = "size_of T"
  note i = trial_invD [OF inv]
  note sh = i(2) [unfolded trial_shape_def]
  note loc = driver_local [OF inv]
  have keep: "outs_ok T (outs S) d'" if "\<And>t. t < ?n \<Longrightarrow> born_by d' t = born_by (driver S) t" "\<And>t. t < ?n \<Longrightarrow> joined_by d' t = joined_by (driver S) t" for d'
    by (rule outs_kept [OF i(5) that])
  show ?thesis
  proof (cases "driver S")
    case (Filling k)
    show ?thesis
    proof (cases "k < prefill_of T")
      case True
      have id: "idle Q (thr (fifo S) ?n)" using i(14) Filling by (simp add: driver_in_def)
      obtain q where q: "exec Q (Invoke ?n (Put k)) (fifo S) = Running q" "I q" "\<And>u. u \<noteq> ?n \<Longrightarrow> thr q u = thr (fifo S) u"
          "\<not> idle Q (thr q ?n)" "\<not> bye (thr q ?n)" "enq (thr q ?n) = (\<exists>v. Put k = Put v)"
          "sent (trace q) = sent (trace (fifo S)) + 1" "got (trace q) = got (trace (fifo S))"
        by (rule invoke_effect [OF i(7) id, of "Put k"]) (simp_all add: that)
      have "trial_inv T (S\<lparr>ctl := ctl S, outs := outs S, fifo := q, driver := In_fill k\<rparr>)"
        by (rule driver_moves [OF inv]) (use Filling True q i(6) keep in \<open>auto simp: i(15) driver_in_def\<close>)
      then show ?thesis using Filling True q(1) by (simp add: on_fifo_def steer_def del: exec.simps)
    next
      case False
      then have "k = prefill_of T" using sh Filling by auto
      then have "trial_inv T (S\<lparr>driver := Spawning 0\<rparr>)" by (intro loc) (use Filling in auto)
      then show ?thesis using Filling False by (simp add: steer_def)
    qed
  next
    case (In_fill k)
    have busy: "\<not> idle Q (thr (fifo S) ?n)" "enq (thr (fifo S) ?n)" "\<not> bye (thr (fifo S) ?n)"
      using i(14) In_fill by (auto simp: driver_in_def)
    obtain q where q: "exec Q (Step ?n (fst c) (snd c)) (fifo S) = Running q" "I q" "\<And>u. u \<noteq> ?n \<Longrightarrow> thr q u = thr (fifo S) u"
        "idle Q (thr q ?n) \<longleftrightarrow> ans (thr (fifo S) ?n) \<noteq> None"
        "\<not> idle Q (thr q ?n) \<Longrightarrow> enq (thr q ?n) = enq (thr (fifo S) ?n) \<and> bye (thr q ?n) = bye (thr (fifo S) ?n)"
        "sent (trace q) = sent (trace (fifo S))"
        "got (trace q) = got (trace (fifo S)) + (case ans (thr (fifo S) ?n) of Some (Dequeued (Some v)) \<Rightarrow> 1 | _ \<Rightarrow> 0)"
      by (rule step_effect [OF i(7) busy(1), of "fst c" "snd c"]) (use busy(3) in blast)
    have g: "got (trace q) = got (trace (fifo S))"
      using q(7) enq_ans [of "thr (fifo S) ?n"] busy(2) by (auto split: option.splits ret.splits)
    have k: "k < prefill_of T" using sh In_fill by simp
    show ?thesis
    proof (cases "ans (thr (fifo S) ?n)")
      case None
      have "trial_inv T (S\<lparr>ctl := ctl S, outs := outs S, fifo := q, driver := In_fill k\<rparr>)"
        by (rule driver_moves [OF inv]) (use In_fill None k q g i(6) busy keep in \<open>auto simp: i(15) driver_in_def\<close>)
      moreover have "S\<lparr>ctl := ctl S, outs := outs S, fifo := q, driver := In_fill k\<rparr> = S\<lparr>fifo := q\<rparr>"
        using In_fill by (cases S) simp
      ultimately have "trial_inv T (S\<lparr>fifo := q\<rparr>)" by simp
      then show ?thesis using In_fill None q(1) by (simp add: in_call_def on_fifo_def del: exec.simps)
    next
      case (Some y)
      have "trial_inv T (S\<lparr>ctl := ctl S, outs := outs S, fifo := q, driver := Filling (k + 1)\<rparr>)"
        by (rule driver_moves [OF inv]) (use In_fill Some k q g i(6) keep in \<open>auto simp: i(15) inc_le unat_step driver_in_def\<close>)
      then show ?thesis using In_fill Some q(1) by (simp add: in_call_def on_fifo_def steer_def del: exec.simps)
    qed
  next
    case (Spawning t)
    show ?thesis
    proof (cases "t < ?n")
      case True
      then have "workers S t = Unborn" using sh Spawning by (metis born_by.simps(3) less_irrefl)
      then have id: "idle Q (thr (fifo S) t)" using i(13) [OF True] by (simp add: worker_in_simps)
      obtain q where q: "exec Q (Sync ?n t) (fifo S) = Running q" "I q" "thr q = thr (fifo S)" "trace q = trace (fifo S)"
        by (rule sync_effect [OF i(7) id, of ?n]) (blast intro: that)
      show ?thesis
        using driver_born [OF inv Spawning True q(2-4)] q(1) Spawning True
        by (simp add: hand_over_def on_fifo_def steer_def del: exec.simps)
    next
      case False
      have "trial_inv T (S\<lparr>driver := Lining_up\<rparr>)" by (rule loc) (use Spawning False in auto)
      then show ?thesis using Spawning False by (simp add: steer_def)
    qed
  next
    case Lining_up
    have "\<exists>S'. on_ctl ?n await_arrivals c S
        (\<lambda>x. steer (if all_arrived (threads_of T) (i32 x) then Timing else Lining_up)) = Running S' \<and> trial_inv T S'"
      unfolding await_arrivals_def
    proof (rule on_ctl_keeps [OF i(6,11) _ inv])
      fix r M assume st: "mem_step ?n (Load Arrived relaxed) c (ctl S) = Done r M"
      let ?d = "if all_arrived (threads_of T) (i32 (cell_of r)) then Timing else Lining_up"
      have "cell_of r \<in> set (vals (ctl S) Arrived)" by (rule ctl_load(4) [OF i(6) st])
      then obtain k where k: "k \<le> (\<Sum>t < ?n. of_bool (has_arrived (workers S t)))" "cell_of r = I32 (of_nat k)"
        unfolding i(16) by (rule counter_read)
      have "trial_inv T (S\<lparr>ctl := M, outs := outs S, fifo := fifo S, driver := ?d\<rparr>)"
      proof (rule driver_moves [OF inv])
        assume "lined_up ?d" "?n < 2 ^ 31"
        then show "\<forall>t < ?n. has_arrived (workers S t)"
          using arrived_everyone [of "threads_of T", folded size_of_def, OF _ k(1)] k(2) by (simp split: if_splits)
      qed (use Lining_up i(1,7,14) ctl_load [OF i(6) st] i(15) keep in \<open>auto simp: driver_in_def split: if_splits\<close>)
      then show "\<exists>S'. steer ?d (S\<lparr>ctl := M\<rparr>) = Running S' \<and> trial_inv T S'" by (simp add: steer_def)
    qed simp
    then show ?thesis using Lining_up by simp
  next
    case (Releasing x)
    have seen: "length (vals (ctl S) Go) \<le> cur (ctl S) ?n (At Go 1)"
      using i(11,15) Releasing by (simp add: aware_def)
    show ?thesis
    proof (cases "mem_step ?n driver_release c (ctl S)")
      case (Done r M)
      then have st: "mem_step ?n (Store Go (Yes True) release) c (ctl S) = Done r M"
        unfolding driver_release_def .
      have "trial_inv T (S\<lparr>ctl := M, outs := outs S, fifo := fifo S, driver := Joining x 0\<rparr>)"
        by (rule driver_moves [OF inv])
          (use Releasing i(7,14,15) ctl_store [OF i(6) st] keep in \<open>auto simp: driver_in_def\<close>)
      then show ?thesis using Releasing Done by (simp add: on_ctl_def steer_def)
    next
      case (Ub e)
      then show ?thesis using ctl_defined(3) [OF i(6,11) seen, of "Yes True" release c e] by (simp add: driver_release_def)
    qed (use Releasing inv in \<open>simp add: on_ctl_def\<close>)
  next
    case (Joining x j)
    show ?thesis
    proof (cases "j < ?n \<and> workers S j = Gone")
      case True
      have id: "idle Q (thr (fifo S) ?n)" using i(14) Joining by (simp add: driver_in_def)
      obtain q where q: "exec Q (Sync j ?n) (fifo S) = Running q" "I q" "thr q = thr (fifo S)" "trace q = trace (fifo S)"
        by (rule sync_effect [OF i(7) id, of j]) (blast intro: that)
      have up: "cur (ctl S) u \<le> cur (synchronize j ?n (ctl S)) u" for u by (rule ctl_sync(3) [OF i(6)])
      have n: "outs_ok T (synchronize j ?n (outs S)) (Joining x (Suc j))" "newest (synchronize j ?n (outs S)) = outputs S"
        using outs_synchronized [OF i(5), of "Joining x (Suc j)" j ?n] Joining by (auto simp: owner_of_def less_Suc_eq)
      have "trial_inv T (S\<lparr>ctl := synchronize j ?n (ctl S), outs := synchronize j ?n (outs S), fifo := q, driver := Joining x (Suc j)\<rparr>)"
        by (rule driver_moves [OF inv])
          (use Joining True q i(14) n ctl_sync(1,2) [OF i(6), of j ?n] up in \<open>auto simp: i(15) driver_in_def less_Suc_eq\<close>)
      then show ?thesis using Joining True q(1) by (simp add: hand_over_def on_fifo_def steer_def del: exec.simps)
    next
      case False
      have "trial_inv T (S\<lparr>driver := Joined x\<rparr>)" if "\<not> j < ?n"
        by (rule loc) (use Joining that in auto)
      then show ?thesis using Joining False inv by (auto simp: steer_def)
    qed
  next
    case (Collecting x y)
    have "\<exists>S'. on_ctl ?n (Load All_pinned seq_cst) c S (\<lambda>b. steer (Merging x y (yes b) 0 [] [])) = Running S' \<and> trial_inv T S'"
    proof (rule on_ctl_keeps [OF i(6,11) _ inv])
      fix r M assume st: "mem_step ?n (Load All_pinned seq_cst) c (ctl S) = Done r M"
      have "trial_inv T (S\<lparr>ctl := M, outs := outs S, fifo := fifo S, driver := Merging x y (yes (cell_of r)) 0 [] []\<rparr>)"
        by (rule driver_moves [OF inv])
          (use Collecting i(7,14,15) ctl_load [OF i(6) st] keep in \<open>auto simp: driver_in_def\<close>)
      then show "\<exists>S'. steer (Merging x y (yes (cell_of r)) 0 [] []) (S\<lparr>ctl := M\<rparr>) = Running S' \<and> trial_inv T S'"
        by (simp add: steer_def)
    qed simp
    then show ?thesis using Collecting by simp
  next
    case (Merging x y b t es ds)
    show ?thesis
    proof (cases "t < ?n")
      case True
      then show ?thesis using driver_reads [OF inv Merging True] Merging by simp
    next
      case False
      have "trial_inv T (S\<lparr>driver := Reported (collected (rounding H) T x y b es ds)\<rparr>)"
        by (rule loc) (use Merging in auto)
      then show ?thesis using Merging False by (simp add: steer_def)
    qed
  next
    case Timing
    have "trial_inv T (S\<lparr>driver := Releasing (now_ns S)\<rparr>)" by (rule loc) (use Timing in auto)
    then show ?thesis using Timing by (simp add: steer_def)
  next
    case (Joined x)
    have "trial_inv T (S\<lparr>driver := Collecting x (now_ns S)\<rparr>)" by (rule loc) (use Joined in auto)
    then show ?thesis using Joined by (simp add: steer_def)
  qed (use inv in auto)
qed

section \<open>Runs\<close>

definition holds_or_divides :: "host \<Rightarrow> trial \<Rightarrow> ('l, 'v, 'p, 'e) state trial_state verdict \<Rightarrow> bool" where
  "holds_or_divides H T v \<longleftrightarrow>
     (\<exists>S. v = Running S \<and> trial_inv T S) \<or> v = Crashed Zero_division \<and> \<not> countable_cores H"

lemma trial_step_keeps:
  assumes "trial_inv T S"
  shows "holds_or_divides H T (trial_step H Q ans T x S)"
proof -
  let ?S = "S\<lparr>clock := clock S + snd (snd (snd x))\<rparr>" and ?t = "fst x" and ?c = "(fst (snd x), fst (snd (snd x)))"
  have inv: "trial_inv T ?S" using assms by (simp only: trial_inv_clock)
  consider (worker) "?t < size_of T" "countable_cores H \<or> workers ?S ?t \<noteq> Pinning"
    | (divide) "?t < size_of T" "\<not> countable_cores H" "workers ?S ?t = Pinning" | (driver) "\<not> ?t < size_of T" by blast
  then show ?thesis
  proof cases
    case worker
    then show ?thesis using worker_keeps [OF inv worker, of ?c]
      by (auto simp: holds_or_divides_def trial_step_def Let_def size_of_def)
  next
    case divide
    then show ?thesis by (simp add: holds_or_divides_def trial_step_def Let_def size_of_def countable_cores_def core_of_def)
  next
    case driver
    then show ?thesis using driver_keeps [OF inv, of H ?c] assms
      by (auto simp: holds_or_divides_def trial_step_def Let_def size_of_def)
  qed
qed

lemma trial_run_keeps: "trial_inv T S \<Longrightarrow> holds_or_divides H T (trial_run H Q ans T xs S)"
proof (induction xs arbitrary: S)
  case (Cons x xs)
  from trial_step_keeps [OF Cons.prems, of H x] show ?case
    unfolding holds_or_divides_def [of _ _ "trial_step H Q ans T x S"]
  proof (elim disjE exE conjE)
    fix S' assume "trial_step H Q ans T x S = Running S'" "trial_inv T S'"
    then show ?thesis using Cons.IH by simp
  qed (simp add: holds_or_divides_def)
qed (simp add: holds_or_divides_def)

lemma trial_start_inv: "trial_inv T (trial_start T s0)"
proof -
  let ?n = "size_of T" and ?S = "trial_start T s0"
  let ?M = "ctl_start ?n" and ?N = "outs_start ?n"
  let ?fs = "map (\<lambda>t. (t, no_output)) [0..<?n]"
  obtain M where M: "perform ?n [(New (\<lambda>_. [(Consumed, Size 0), (Arrived, I32 0), (Go, Yes False), (All_pinned, Yes True)]), 0)]
      (blank :: (ctl_loc, ctl_cell) memory) = Some M"
    by (simp add: setup_simps)
  then have "?M = M" by (simp add: ctl_start_def)
  moreover have "mem_wf M" by (rule wf_perform [OF M wf_blank])
  moreover have "gen M l = 1 \<and> live M l \<and> hist M l 1 \<noteq> [] \<and> 1 \<le> cur M ?n (At l 1)" for l
    using M by (cases l) (auto simp: setup_simps point_def)
  moreover have "vals M Go = [Yes False]" "vals M Arrived = [I32 0]" "vals M Consumed = [Size 0]"
    using M by (auto simp: setup_simps vals_def)
  ultimately have ctl: "ctl_ok ?M" "aware ?M ?n" "vals ?M Go = [Yes False]" "vals ?M Arrived = [I32 0]"
      "vals ?M Consumed = [Size 0]"
    by (simp_all add: ctl_ok_def aware_def)
  note N = outs_start_births [of ?n]
  have wf: "mem_wf ?N" unfolding N by (rule wf_fold_birth [OF wf_blank])
  have ex: "exclusive ?N ?n t" if "t < ?n" for t
    unfolding N by (rule exclusive_new [OF timed_blank wf_blank]) (use that in \<open>auto simp: image_iff\<close>)
  note new = outs_start_new
  have parts: "fifo ?S = s0" "ctl ?S = ?M" "outs ?S = ?N" "workers ?S = (\<lambda>_. Unborn)" "driver ?S = Filling 0"
    by (simp_all add: trial_start_def size_of_def)
  have zero: "(\<Sum>t<?n. counted_by T t Unborn (newest ?N t)) = 0" "(\<Sum>t<?n. got_by Unborn (newest ?N t)) = 0"
    by (rule sum.neutral, simp add: new no_output_def counted_by_def got_by_def)+
  have "queue_ok T ?S"
    using start start_idle by (simp add: queue_ok_def parts worker_in_simps driver_in_def)
  moreover have "trial_shape T (driver ?S) (workers ?S)"
    by (simp add: parts trial_shape_def)
  moreover have "ctl_inv T (ctl ?S) (driver ?S) (workers ?S) (outputs ?S)"
    using ctl zero by (simp add: parts ctl_inv_def)
  moreover have "accounts_ok T ?S"
    using start_counts zero new by (simp add: accounts_ok_def parts samples_ok_def no_output_def)
  moreover have "outs_ok T (outs ?S) (driver ?S)"
    using wf ex by (simp add: parts outs_ok_def owner_of_def)
  ultimately show ?thesis by (simp add: trial_inv_def)
qed

lemma trial_run_inv: "trial_run H Q ans T xs (trial_start T s0) = Running S \<Longrightarrow> trial_inv T S"
  using trial_run_keeps [OF trial_start_inv, of H T xs] by (simp add: holds_or_divides_def)

lemma trial_crash: "trial_run H Q ans T xs (trial_start T s0) = Crashed e \<Longrightarrow> e = Zero_division \<and> \<not> countable_cores H"
  using trial_run_keeps [OF trial_start_inv, of H T xs] by (auto simp: holds_or_divides_def)

lemma start_line:
  assumes "trial_run H Q ans T xs (trial_start T s0) = Running S" "size_of T < 2 ^ 31" "past_line (workers S t)"
  shows "opened (driver S) \<and> (\<forall>u < size_of T. has_arrived (workers S u))"
proof -
  note sh = trial_invD(2) [OF trial_run_inv [OF assms(1)], unfolded trial_shape_def]
  have "opened (driver S)" using sh assms(3) by blast
  moreover have "opened d \<Longrightarrow> lined_up d" for d by (cases d) simp_all
  ultimately show ?thesis using sh assms(2) by blast
qed

end

end
