(* ===== verification/Bench_Trials_Time.thy ===== *)
theory Bench_Trials_Time imports Bench_Trials_Safe begin

text \<open>
  What a trial reports, for every queue that keeps the contract \<open>bench_queue\<close>: one latency
  sample for each operation counted, all of them within the time the driver measured, in vectors
  that the producers never outgrow.
\<close>

section \<open>Time\<close>

lemma proceed_Running: "proceed v f = Running S' \<longleftrightarrow> (\<exists>s. v = Running s \<and> f s = Running S')"
  by (cases v) simp_all

definition moved :: "nat \<Rightarrow> 'q trial_state \<Rightarrow> 'q trial_state \<Rightarrow> bool" where
  "moved t S S' \<longleftrightarrow>
     driver S' = driver S \<and> clock S' = clock S \<and>
     (\<forall>u. u \<noteq> t \<longrightarrow> workers S' u = workers S u \<and> outputs S' u = outputs S u) \<and>
     (past_line (workers S t) \<longrightarrow> past_line (workers S' t)) \<and>
     (\<not> past_line (workers S t) \<longrightarrow> samples (outputs S' t) = samples (outputs S t) \<and> stamp (workers S' t) = None) \<and>
     (workers S t = Gone \<longrightarrow> workers S' t = Gone \<and> outputs S' t = outputs S t) \<and>
     (\<forall>c. timely c (clock S) (workers S t) (outputs S t) \<and> c \<le> clock S \<longrightarrow>
        timely c (clock S) (workers S' t) (outputs S' t))"

lemma samples_push:
  "samples (push_enq x o') = insert x (samples o')" "samples (push_deq x o') = insert x (samples o')"
  "samples (reserves T t o') = samples o'"
  by (auto simp: samples_def push_enq_def push_deq_def)

text \<open>A difference of two readings is a sample in time.\<close>

lemma stamped_line: "past_line w \<or> stamp w = None"
  by (cases w) simp_all

lemma timely_sample:
  assumes "timely c now w o'" "stamp w = Some t0"
  shows "\<exists>k. of_nat now - t0 = (of_nat k :: 64 word) \<and> c + k \<le> now"
proof -
  obtain j where j: "t0 = of_nat j" "c \<le> j" "j \<le> now" using assms by (auto simp: timely_def)
  then have "of_nat now - t0 = of_nat (now - j)" by (simp add: of_nat_diff)
  then show ?thesis using j by (intro exI [of _ "now - j"]) simp
qed

lemma moved_goto:
  assumes "past_line w' \<or> \<not> past_line (workers S t)" "past_line (workers S t) \<or> stamp w' = None"
    "workers S t \<noteq> Gone" "stamp w' = None \<or> stamp w' = stamp (workers S t) \<or> stamp w' = Some (now_ns S)"
    "driver S' = driver S" "clock S' = clock S" "workers S' = (workers S)(t := w')"
    "outputs S' = outputs S \<or> outputs S' = (outputs S)(t := g (outputs S t)) \<and>
      (past_line (workers S t) \<and> (\<exists>t0. stamp (workers S t) = Some t0 \<and>
         (g = push_enq (now_ns S - t0) \<or> g = push_deq (now_ns S - t0))) \<or>
       (\<exists>T. g = reserves T t))"
  shows "moved t S S'"
proof -
  have t: "timely c (clock S) w' (outputs S' t)"
    if h: "timely c (clock S) (workers S t) (outputs S t)" "c \<le> clock S" for c
  proof -
    have "\<exists>k. x = of_nat k \<and> c + k \<le> clock S" if "x \<in> samples (outputs S' t)" for x
    proof -
      have "x \<in> samples (outputs S t) \<or> (\<exists>t0. stamp (workers S t) = Some t0 \<and> x = of_nat (clock S) - t0)"
        using that assms(8) by (auto simp: samples_push now_ns_def)
      then show ?thesis using h timely_sample [OF h(1)] by (auto simp: timely_def)
    qed
    moreover have "\<exists>k. x = of_nat k \<and> c \<le> k \<and> k \<le> clock S" if "stamp w' = Some x" for x
      using that assms(4) h by (auto simp: timely_def now_ns_def)
    ultimately show ?thesis by (simp add: timely_def)
  qed
  show ?thesis unfolding moved_def using assms t by (auto simp: samples_push)
qed

text \<open>A step that only goes somewhere else, one that changes the vectors, one in a call, and one
  on an atomic.\<close>

lemma moved_to:
  assumes "goto t w' S1 = Running S'" "driver S1 = driver S" "clock S1 = clock S" "workers S1 = workers S"
    "outs S1 = outs S"
    "past_line w' \<or> \<not> past_line (workers S t)" "past_line (workers S t) \<or> stamp w' = None"
    "workers S t \<noteq> Gone" "stamp w' = None \<or> stamp w' = stamp (workers S t) \<or> stamp w' = Some (now_ns S)"
  shows "moved t S S'"
  by (rule moved_goto [where w' = w']) (use assms in \<open>auto simp: goto_def\<close>)

lemma moved_still:
  "driver S' = driver S \<Longrightarrow> clock S' = clock S \<Longrightarrow> workers S' = workers S \<Longrightarrow> outs S' = outs S \<Longrightarrow> moved t S S'"
  by (cases "workers S t") (auto simp: moved_def)

lemma moved_change:
  assumes st: "change_out t g S (goto t w') = Running S'" and wf: "mem_wf (outs S)"
    and w': "past_line w' \<or> \<not> past_line (workers S t)" "past_line (workers S t) \<or> stamp w' = None"
    "workers S t \<noteq> Gone" "stamp w' = None \<or> stamp w' = stamp (workers S t) \<or> stamp w' = Some (now_ns S)"
    and g: "past_line (workers S t) \<and> (\<exists>t0. stamp (workers S t) = Some t0 \<and>
         (g = push_enq (now_ns S - t0) \<or> g = push_deq (now_ns S - t0))) \<or> (\<exists>T. g = reserves T t)"
  shows "moved t S S'"
proof -
  obtain M where M: "goto t w' (S\<lparr>outs := M\<rparr>) = Running S'" "newest M = (outputs S)(t := g (outputs S t))"
    by (rule change_out_Running [OF st wf]) blast
  have e: "driver S' = driver S" "clock S' = clock S" "workers S' = (workers S)(t := w')"
      "outputs S' = (outputs S)(t := g (outputs S t))"
    using M by (auto simp: goto_def)
  show ?thesis by (rule moved_goto [where g = g, OF w' e(1-3) disjI2 [OF conjI [OF e(4) g]]])
qed

lemma moved_fifo:
  assumes "on_fifo Q c S f = Running S'" "\<And>q. f (S\<lparr>fifo := q\<rparr>) = Running S' \<Longrightarrow> moved t S S'"
  shows "moved t S S'"
  using assms by (auto simp: on_fifo_def proceed_Running)

lemma moved_call:
  assumes "in_call Q ans t c S f = Running S'" "\<And>y q. f y (S\<lparr>fifo := q\<rparr>) = Running S' \<Longrightarrow> moved t S S'"
  shows "moved t S S'"
proof -
  obtain q where "exec Q (Step t (fst c) (snd c)) (fifo S) = Running q"
    and r: "(case ans (thr (fifo S) t) of None \<Rightarrow> Running (S\<lparr>fifo := q\<rparr>) | Some y \<Rightarrow> f y (S\<lparr>fifo := q\<rparr>)) = Running S'"
    using assms(1) by (auto simp: in_call_def on_fifo_def proceed_Running)
  show ?thesis
  proof (cases "ans (thr (fifo S) t)")
    case None
    then show ?thesis using r by (auto intro: moved_still)
  next
    case (Some y)
    then show ?thesis using r assms(2) by simp
  qed
qed

lemma moved_ctl:
  assumes "on_ctl t x c S f = Running S'" "\<And>y M. f y (S\<lparr>ctl := M\<rparr>) = Running S' \<Longrightarrow> moved t S S'"
  shows "moved t S S'"
  using assms by (auto simp: on_ctl_def intro!: moved_still split: outcome.splits)

lemma body_moved:
  assumes st: "body_step Q ans T t c S b = Running S'" and w: "workers S t = Body b" and wf: "mem_wf (outs S)"
  shows "moved t S S'"
proof (cases b)
  case (B_next i)
  then show ?thesis using st w by (auto intro: moved_to split: if_splits)
next
  case (B_enqueue i t0)
  then show ?thesis using st w by (auto elim!: moved_fifo intro: moved_to)
next
  case (B_enqueuing i t0)
  then show ?thesis using st w by (auto elim!: moved_call intro: moved_to)
next
  case (B_enqueued i t0)
  let ?w = "Body (if is_pairs T then B_dequeue i (now_ns S) else B_next (i + 1))"
  have "change_out t (push_enq (now_ns S - t0)) S (goto t ?w) = Running S'" using st B_enqueued by (simp add: Let_def)
  then show ?thesis by (rule moved_change [OF _ wf]) (use B_enqueued w in auto)
next
  case (B_dequeue i t1)
  then show ?thesis using st w by (auto elim!: moved_fifo intro: moved_to)
next
  case (B_dequeuing i t1)
  let ?b = "\<lambda>y. case y of Dequeued (Some v) \<Rightarrow> B_dequeued i t1 v | _ \<Rightarrow> B_dequeue i t1"
  have "in_call Q ans t c S (\<lambda>y. goto t (Body (?b y))) = Running S'"
    using st B_dequeuing by (simp add: in_call_resume)
  then show ?thesis
    by (rule moved_call) (rule moved_to, assumption, use w B_dequeuing in \<open>auto split: ret.splits option.splits\<close>)
next
  case (B_dequeued i t1 v)
  then have "change_out t (push_deq (now_ns S - t1)) S (goto t (Body (B_next (i + 1)))) = Running S'" using st by simp
  then show ?thesis by (rule moved_change [OF _ wf]) (use B_dequeued w in auto)
next
  case C_next
  then show ?thesis using st w by (auto intro: moved_to)
next
  case (C_poll t0)
  then show ?thesis using st w by (auto elim!: moved_ctl intro: moved_to split: if_splits)
next
  case (C_dequeue t0)
  then show ?thesis using st w by (auto elim!: moved_fifo intro: moved_to)
next
  case (C_dequeuing t0)
  let ?b = "\<lambda>y. case y of Dequeued (Some v) \<Rightarrow> C_count t0 v | _ \<Rightarrow> C_poll t0"
  have "in_call Q ans t c S (\<lambda>y. goto t (Body (?b y))) = Running S'"
    using st C_dequeuing by (simp add: in_call_resume)
  then show ?thesis
    by (rule moved_call) (rule moved_to, assumption, use w C_dequeuing in \<open>auto split: ret.splits option.splits\<close>)
next
  case (C_count t0 v)
  then show ?thesis using st w by (auto elim!: moved_ctl intro: moved_to)
next
  case (C_counted t0 v)
  then have "change_out t (push_deq (now_ns S - t0)) S (goto t (Body C_next)) = Running S'" using st by simp
  then show ?thesis by (rule moved_change [OF _ wf]) (use C_counted w in auto)
qed

lemma entry_unstamped: "stamp (Body (entry T t)) = None"
  by (cases T) auto

lemma worker_moved:
  assumes st: "worker_step H Q ans T t c S (workers S t) = Running S'" and wf: "mem_wf (outs S)"
  shows "moved t S S'"
proof (cases "workers S t")
  case (Body b)
  then show ?thesis using st body_moved [OF _ Body wf, of Q ans T c S'] by simp
next
  case Reserving
  then have "change_out t (reserves T t) S (goto t (Body (entry T t))) = Running S'" using st by simp
  then show ?thesis by (rule moved_change [OF _ wf]) (use Reserving entry_unstamped [of T t] in auto)
next
  case Exiting
  then show ?thesis using st by (auto elim!: moved_fifo intro: moved_to moved_still split: if_splits)
qed (use st in \<open>auto elim!: moved_ctl moved_fifo intro: moved_to moved_still split: if_splits option.splits\<close>)

text \<open>The times \<open>x\<close> and \<open>y\<close> the driver has taken, all samples in between.\<close>

definition spans :: "nat \<Rightarrow> nat \<Rightarrow> nat \<Rightarrow> (nat \<Rightarrow> worker_out) \<Rightarrow> bool" where
  "spans n c k out \<longleftrightarrow> c \<le> k \<and> (\<forall>t < n. \<forall>x \<in> samples (out t). \<exists>j. x = of_nat j \<and> c + j \<le> k)"

definition taken :: "trial \<Rightarrow> 64 word \<Rightarrow> 64 word \<Rightarrow> nat \<Rightarrow> (nat \<Rightarrow> worker_out) \<Rightarrow> bool" where
  "taken T x y now out \<longleftrightarrow> (\<exists>c k. x = of_nat c \<and> y = of_nat k \<and> k \<le> now \<and> spans (size_of T) c k out)"

definition merged :: "(worker_out \<Rightarrow> 64 word list) \<Rightarrow> nat \<Rightarrow> (nat \<Rightarrow> worker_out) \<Rightarrow> 64 word list" where
  "merged f n out = concat (map (\<lambda>t. f (out t)) [0..<n])"

lemma merged_simps: "merged f 0 out = []" "merged f (Suc n) out = merged f n out @ f (out n)"
  by (simp_all add: merged_def)

lemma merged_cong: "(\<And>t. t < n \<Longrightarrow> out t = out' t) \<Longrightarrow> merged f n out = merged f n out'"
  unfolding merged_def by (rule arg_cong [of _ _ concat], rule map_cong) auto

fun measured :: "(real \<Rightarrow> real) \<Rightarrow> trial \<Rightarrow> driver \<Rightarrow> nat \<Rightarrow> (nat \<Rightarrow> worker_out) \<Rightarrow> bool" where
  "measured rnd T (Collecting x y) now out \<longleftrightarrow> taken T x y now out"
| "measured rnd T (Merging x y b t es ds) now out \<longleftrightarrow>
     taken T x y now out \<and> es = merged enq_ns t out \<and> ds = merged deq_ns t out"
| "measured rnd T (Reported r) now out \<longleftrightarrow>
     (\<exists>x y b. taken T x y now out \<and>
        r = collected rnd T x y b (merged enq_ns (size_of T) out) (merged deq_ns (size_of T) out))"
| "measured rnd T d now out \<longleftrightarrow> True"

definition times_ok :: "(real \<Rightarrow> real) \<Rightarrow> trial \<Rightarrow> driver \<Rightarrow> nat \<Rightarrow> (nat \<Rightarrow> worker) \<Rightarrow> (nat \<Rightarrow> worker_out) \<Rightarrow> bool" where
  "times_ok rnd T d now w out \<longleftrightarrow>
     (\<forall>t < size_of T. \<not> past_line (w t) \<longrightarrow> samples (out t) = {}) \<and>
     (\<forall>x. started d = Some x \<longrightarrow>
        (\<exists>c. x = of_nat c \<and> c \<le> now \<and> (\<forall>t < size_of T. timely c now (w t) (out t)))) \<and>
     measured rnd T d now out"

lemma times_okD:
  assumes "times_ok rnd T d now w out"
  shows "t < size_of T \<Longrightarrow> \<not> past_line (w t) \<Longrightarrow> samples (out t) = {}"
    "started d = Some x \<Longrightarrow> \<exists>c. x = of_nat c \<and> c \<le> now \<and> (\<forall>t < size_of T. timely c now (w t) (out t))"
    "measured rnd T d now out"
  using assms unfolding times_ok_def by blast+

lemma taken_later: "taken T x y now out \<Longrightarrow> now \<le> now' \<Longrightarrow> taken T x y now' out"
  unfolding taken_def using order.trans by blast

lemma measured_later:
  assumes "measured rnd T d now out" "now \<le> now'"
  shows "measured rnd T d now' out"
proof (cases d)
  case (Reported r)
  then show ?thesis using assms(1) taken_later [OF _ assms(2)] by (simp, blast)
qed (use assms(1) taken_later [OF _ assms(2)] in simp_all)

lemma measured_cong:
  assumes "measured rnd T d now out" "\<And>t. t < size_of T \<Longrightarrow> out' t = out t" "driver_ok T d"
  shows "measured rnd T d now out'"
proof -
  have t: "taken T x y now out' = taken T x y now out" for x y using assms(2) by (simp add: taken_def spans_def)
  have m: "merged f j out' = merged f j out" if "j \<le> size_of T" for f j
    by (rule merged_cong) (use assms(2) that in auto)
  show ?thesis
  proof (cases d)
    case (Reported r)
    then show ?thesis using assms(1) by (simp add: t m)
  qed (use assms(1,3) in \<open>simp_all add: t m\<close>)
qed

lemma times_later:
  assumes "times_ok rnd T d now w out" "now \<le> now'"
  shows "times_ok rnd T d now' w out"
proof -
  note t = times_okD [OF assms(1)]
  have "\<exists>c. x = of_nat c \<and> c \<le> now' \<and> (\<forall>t < size_of T. timely c now' (w t) (out t))" if "started d = Some x" for x
    using t(2) [OF that] timely_later [OF _ assms(2)] assms(2) order.trans by blast
  then show ?thesis using t(1) measured_later [OF t(3) assms(2)] unfolding times_ok_def by blast
qed

lemma times_worker:
  assumes t: "times_ok rnd T (driver S) (clock S) (workers S) (outputs S)" and m: "moved t S S'"
    and sh: "trial_shape T (driver S) (workers S)" "t < size_of T"
  shows "times_ok rnd T (driver S') (clock S') (workers S') (outputs S')"
proof -
  note t' = times_okD [OF t] and m' = m [unfolded moved_def]
  have a: "samples (outputs S' u) = {}" if u: "u < size_of T" "\<not> past_line (workers S' u)" for u
  proof (cases "u = t")
    case True
    then have "\<not> past_line (workers S u)" "samples (outputs S' u) = samples (outputs S u)" using m' u(2) by blast+
    then show ?thesis using t'(1) [OF u(1)] by simp
  next
    case False
    then show ?thesis using t'(1) [OF u(1)] m' u(2) by simp
  qed
  have b: "\<exists>c. x = of_nat c \<and> c \<le> clock S' \<and> (\<forall>u < size_of T. timely c (clock S') (workers S' u) (outputs S' u))"
    if x: "started (driver S') = Some x" for x
  proof -
    obtain c where c: "x = of_nat c" "c \<le> clock S" "\<forall>u < size_of T. timely c (clock S) (workers S u) (outputs S u)"
      using t'(2) [of x] x m' by auto
    have "timely c (clock S') (workers S' u) (outputs S' u)" if "u < size_of T" for u
      using c(2,3) that m' by (cases "u = t") auto
    then show ?thesis using c(1,2) m' by auto
  qed
  have "driver_ok T (driver S)" using sh(1) by (simp add: trial_shape_def)
  have "measured rnd T (driver S) (clock S) (outputs S')"
  proof (cases "joined_by (driver S) t")
    case True
    then have "workers S t = Gone" using sh by (simp add: trial_shape_def)
    then have "outputs S' u = outputs S u" for u using m' by (cases "u = t") auto
    then show ?thesis using measured_cong [OF t'(3) _ \<open>driver_ok T (driver S)\<close>] by blast
  next
    case False
    then show ?thesis by (cases "driver S") simp_all
  qed
  then show ?thesis using a b m' unfolding times_ok_def by simp
qed

text \<open>What the driver does to all this.\<close>

definition drove :: "(real \<Rightarrow> real) \<Rightarrow> trial \<Rightarrow> 'q trial_state \<Rightarrow> 'q trial_state \<Rightarrow> bool" where
  "drove rnd T S S' \<longleftrightarrow>
     clock S' = clock S \<and> outputs S' = outputs S \<and>
     (\<forall>t. workers S' t = workers S t \<or> workers S' t = Pinning \<and> \<not> opened (driver S)) \<and>
     (started (driver S') = started (driver S) \<and> (\<forall>now out. measured rnd T (driver S') now out) \<or>
      driver S' = driver S \<or>
      driver S = Timing \<and> driver S' = Releasing (now_ns S) \<or>
      (\<exists>x. driver S = Joined x \<and> driver S' = Collecting x (now_ns S)) \<or>
      (\<exists>x y b. driver S = Collecting x y \<and> driver S' = Merging x y b 0 [] []) \<or>
      (\<exists>x y b t es ds. driver S = Merging x y b t es ds \<and>
         (if t < size_of T
          then driver S' = Merging x y b (Suc t) (es @ enq_ns (outputs S t)) (ds @ deq_ns (outputs S t))
          else driver S' = Reported (collected rnd T x y b es ds))))"

lemma driver_drove:
  assumes st: "driver_step H Q ans T (size_of T) c S (driver S) = Running S'" and wf: "mem_wf (outs S)"
  shows "drove (rounding H) T S S'"
proof -
  note s = drove_def steer_def on_fifo_def in_call_def on_ctl_def hand_over_def proceed_Running Let_def
  show ?thesis
  proof (cases "driver S")
    case (Merging x y b t es ds)
    show ?thesis
    proof (cases "t < size_of T")
      case True
      obtain u M where r: "mem_step (size_of T) (Read t) (0, True) (outs S) = Done u M \<and>
          S' = S\<lparr>outs := M, driver := Merging x y b (Suc t) (es @ enq_ns (vectors u)) (ds @ deq_ns (vectors u))\<rparr> \<or> S' = S"
        using st Merging True by (auto simp: on_outs_def steer_def split: outcome.splits)
      then show ?thesis
      proof
        assume r: "mem_step (size_of T) (Read t) (0, True) (outs S) = Done u M \<and>
          S' = S\<lparr>outs := M, driver := Merging x y b (Suc t) (es @ enq_ns (vectors u)) (ds @ deq_ns (vectors u))\<rparr>"
        then have "u = Val (outputs S t)" "newest M = outputs S" using now_read [OF wf] by blast+
        then show ?thesis using r Merging True by (simp add: drove_def)
      qed (simp add: drove_def)
    next
      case False
      then show ?thesis using st Merging by (auto simp: s)
    qed
  qed (use st in \<open>auto simp: s now_synchronize simp del: exec.simps split: if_splits option.splits outcome.splits\<close>)
qed

lemma times_driver:
  assumes t: "times_ok rnd T (driver S) (clock S) (workers S) (outputs S)" and m: "drove rnd T S S'"
    and shape: "trial_shape T (driver S) (workers S)"
  shows "times_ok rnd T (driver S') (clock S') (workers S') (outputs S')"
proof -
  note t' = times_okD [OF t] and m' = m [unfolded drove_def]
  have w: "workers S' u = workers S u \<or> workers S' u = Pinning \<and> samples (outputs S u) = {}" if "u < size_of T" for u
  proof -
    have "\<not> opened (driver S) \<Longrightarrow> \<not> past_line (workers S u)" using shape unfolding trial_shape_def by blast
    then show ?thesis using m' t'(1) [OF that] by blast
  qed
  have a: "samples (outputs S' u) = {}" if u: "u < size_of T" "\<not> past_line (workers S' u)" for u
    using w [OF u(1)] t'(1) [OF u(1)] u(2) m' by auto
  have tm: "timely c now (workers S u) (outputs S u) \<Longrightarrow> timely c now (workers S' u) (outputs S' u)"
    if "u < size_of T" for c now u
    using w [OF that] m' by (auto simp: timely_def)
  have calm: "timely c now (workers S u) (outputs S u)" if "\<not> opened (driver S)" "u < size_of T" for c now u
  proof -
    have "\<not> past_line (workers S u)" using shape that(1) unfolding trial_shape_def by blast
    then show ?thesis using t'(1) [OF that(2)] stamped_line [of "workers S u"] by (auto simp: timely_def)
  qed
  have b: "\<exists>c. x = of_nat c \<and> c \<le> clock S' \<and> (\<forall>u < size_of T. timely c (clock S') (workers S' u) (outputs S' u))"
    if x: "started (driver S') = Some x" for x
  proof (cases "started (driver S) = Some x")
    case True
    then obtain c where c: "x = of_nat c" "c \<le> clock S" "\<forall>u < size_of T. timely c (clock S) (workers S u) (outputs S u)"
      using t'(2) by blast
    then show ?thesis using m' tm by (intro exI [of _ c]) auto
  next
    case False
    then have d: "driver S = Timing" "x = now_ns S" using m' x by (auto split: if_splits)
    show ?thesis
      by (rule exI [of _ "clock S"]) (use m' d calm tm in \<open>auto simp: now_ns_def\<close>)
  qed
  have c: "measured rnd T (driver S') (clock S) (outputs S)"
  proof -
    consider "\<forall>now out. measured rnd T (driver S') now out" | "driver S' = driver S" | "driver S = Timing" "driver S' = Releasing (now_ns S)"
      | (stop) x where "driver S = Joined x" "driver S' = Collecting x (now_ns S)"
      | (start) x y b where "driver S = Collecting x y" "driver S' = Merging x y b 0 [] []"
      | (merge) x y b t es ds where "driver S = Merging x y b t es ds"
          "if t < size_of T
           then driver S' = Merging x y b (Suc t) (es @ enq_ns (outputs S t)) (ds @ deq_ns (outputs S t))
           else driver S' = Reported (collected rnd T x y b es ds)"
      using m' by blast
    then show ?thesis
    proof cases
      case stop
      then obtain c where c: "x = of_nat c" "c \<le> clock S" "\<forall>u < size_of T. timely c (clock S) (workers S u) (outputs S u)"
        using t'(2) by auto
      then have "spans (size_of T) c (clock S) (outputs S)" by (auto simp: spans_def timely_def)
      then show ?thesis using stop c(1) unfolding now_ns_def by (auto simp: taken_def)
    next
      case start
      then show ?thesis using t'(3) by (simp add: merged_simps)
    next
      case merge
      have "t \<le> size_of T" using shape merge(1) by (simp add: trial_shape_def)
      then show ?thesis using t'(3) merge by (auto simp: merged_simps split: if_splits)
    qed (use t'(3) in simp_all)
  qed
  have "clock S' = clock S" "outputs S' = outputs S" using m' by blast+
  then show ?thesis using a b c unfolding times_ok_def by simp
qed

context bench_queue begin

text \<open>A step that has been made is the clock's and one thread's.\<close>

lemma trial_step_cases:
  assumes inv: "trial_inv T S" and st: "trial_step H Q ans T x S = Running S'"
  obtains S1 t c where "S1 = S\<lparr>clock := clock S + snd (snd (snd x))\<rparr>" "t < size_of T"
      "worker_step H Q ans T t c S1 (workers S1 t) = Running S'"
    | S1 c where "S1 = S\<lparr>clock := clock S + snd (snd (snd x))\<rparr>"
      "driver_step H Q ans T (size_of T) c S1 (driver S1) = Running S'"
    | k where "S' = S\<lparr>clock := k\<rparr>" "clock S \<le> k"
proof -
  let ?S = "S\<lparr>clock := clock S + snd (snd (snd x))\<rparr>" and ?t = "fst x" and ?c = "(fst (snd x), fst (snd (snd x)))"
  consider "?t < size_of T" "worker_step H Q ans T ?t ?c ?S (workers ?S ?t) = Running S'"
    | "driver_step H Q ans T (size_of T) ?c ?S (driver ?S) = Running S'"
    | "S' = S\<lparr>clock := clock S\<rparr>"
    using st unfolding trial_step_def Let_def size_of_def [symmetric]
    by (cases "?t < size_of T"; cases "?t = size_of T") simp_all
  then show thesis
  proof cases
    case 1
    then show thesis by (rule that(1) [OF refl])
  next
    case 2
    then show thesis by (rule that(2) [OF refl])
  next
    case 3
    then show thesis by (rule that(3)) simp
  qed
qed

text \<open>What every step keeps, a run keeps.\<close>

lemma run_keeps:
  assumes "\<And>x S S'. trial_inv T S \<Longrightarrow> P S \<Longrightarrow> trial_step H Q ans T x S = Running S' \<Longrightarrow> P S'"
  shows "trial_run H Q ans T xs S = Running S' \<Longrightarrow> trial_inv T S \<Longrightarrow> P S \<Longrightarrow> P S'"
proof (induction xs arbitrary: S)
  case (Cons x xs)
  obtain S1 where s1: "trial_step H Q ans T x S = Running S1" "trial_run H Q ans T xs S1 = Running S'"
    using Cons.prems(1) by (auto simp: proceed_Running)
  have "trial_inv T S1" using trial_step_keeps [OF Cons.prems(2), of H x] s1(1) by (simp add: holds_or_divides_def)
  then show ?case using Cons.IH [OF s1(2)] assms [OF Cons.prems(2,3) s1(1)] by blast
qed simp

lemma times_step:
  assumes inv: "trial_inv T S" and t: "times_ok (rounding H) T (driver S) (clock S) (workers S) (outputs S)"
    and st: "trial_step H Q ans T x S = Running S'"
  shows "times_ok (rounding H) T (driver S') (clock S') (workers S') (outputs S')"
proof (rule trial_step_cases [OF inv st])
  note sh = trial_invD(2) [OF inv]
  have wf: "mem_wf (outs S)" using trial_invD(5) [OF inv] by (simp add: outs_ok_def)
  have later: "times_ok (rounding H) T (driver S) (clock S + k) (workers S) (outputs S)" for k
    by (rule times_later [OF t]) simp
  show ?thesis if "S1 = S\<lparr>clock := clock S + snd (snd (snd x))\<rparr>" "t < size_of T"
      "worker_step H Q ans T t c S1 (workers S1 t) = Running S'" for S1 t c
    by (rule times_worker [OF _ worker_moved [OF that(3)] _ that(2)]) (use that(1) sh wf later in simp_all)
  show ?thesis if "S1 = S\<lparr>clock := clock S + snd (snd (snd x))\<rparr>"
      "driver_step H Q ans T (size_of T) c S1 (driver S1) = Running S'" for S1 c
    by (rule times_driver [OF _ driver_drove [OF that(2)]]) (use that(1) sh wf later in simp_all)
  show ?thesis if "S' = S\<lparr>clock := k\<rparr>" "clock S \<le> k" for k
    using times_later [OF t that(2)] that(1) by simp
qed

lemma times_start:
  "times_ok rnd T (driver (trial_start T s0)) (clock (trial_start T s0)) (workers (trial_start T s0)) (outputs (trial_start T s0))"
  by (simp add: times_ok_def trial_start_def size_of_def [symmetric] samples_def outs_start_new no_output_def)

lemma reported_times:
  assumes "trial_run H Q ans T xs (trial_start T s0) = Running S" "driver S = Reported r"
  obtains x y b where "taken T x y (clock S) (outputs S)"
    "r = collected (rounding H) T x y b (merged enq_ns (size_of T) (outputs S)) (merged deq_ns (size_of T) (outputs S))"
proof -
  have "times_ok (rounding H) T (driver S) (clock S) (workers S) (outputs S)"
    using run_keeps [where P = "\<lambda>S. times_ok (rounding H) T (driver S) (clock S) (workers S) (outputs S)",
        OF times_step assms(1) trial_start_inv times_start] .
  then have "measured (rounding H) T (Reported r) (clock S) (outputs S)" using assms(2) by (simp add: times_ok_def)
  then show thesis using that by auto
qed

end

section \<open>Counts\<close>

text \<open>A configuration whose products do not wrap, with a consumer for what is produced.\<close>

fun sized :: "trial \<Rightarrow> bool" where
  "sized (Pairs n k) \<longleftrightarrow> unat n * unat k * 2 < 2 ^ 64"
| "sized (Pc p c k) \<longleftrightarrow> 0 < unat c \<and> unat p + unat c < 2 ^ 32 \<and> unat p * unat k * 2 < 2 ^ 64"
| "sized (Enq n k) \<longleftrightarrow> unat n * unat k < 2 ^ 64"
| "sized (Deq n k) \<longleftrightarrow> unat n * unat k < 2 ^ 64"

lemma unat_widened: "unat (ucast (n :: 32 word) :: 64 word) = unat n"
  by (simp add: unsigned_ucast_eq take_bit_nat_eq_self_iff order.strict_trans [OF unsigned_less])

lemma unat_product: "unat n * unat k < 2 ^ 64 \<Longrightarrow> unat (ucast (n :: 32 word) * k :: 64 word) = unat n * unat k"
  by (simp add: unat_word_ariths unat_widened mod_less)

lemma unat_double:
  assumes "unat n * unat k * 2 < 2 ^ 64"
  shows "unat (ucast (n :: 32 word) * k * 2 :: 64 word) = unat n * unat k * 2"
proof -
  have "unat (ucast n * k :: 64 word) = unat n * unat k" by (rule unat_product [OF order.strict_trans1 [OF _ assms]]) simp
  then have "unat (ucast n * k * 2 :: 64 word) = (unat n * unat k * 2) mod 2 ^ 64"
    by (simp only: unat_word_ariths) simp
  then show ?thesis using assms by (simp only: mod_less)
qed

lemma role: "consumer T t = (case T of Pairs n k \<Rightarrow> False | Pc p c k \<Rightarrow> unat p \<le> t | Enq n k \<Rightarrow> False | Deq n k \<Rightarrow> True)"
  by (cases T) (auto simp: consumer_def)

lemma sum_first: "(\<Sum>t<m + n. if t < m then k else 0) = m * (k :: nat)"
proof -
  have "{t \<in> {..<m + n}. t < m} = {..<m}" by auto
  then show ?thesis using sum.inter_filter [of "{..<m + n}" "\<lambda>t. k" "\<lambda>t. t < m"] by simp
qed

lemma length_merged: "length (concat (map f [0..<n])) = (\<Sum>t<n. length (f t))"
  by (simp add: length_concat comp_def interv_sum_list_conv_sum_set_nat lessThan_atLeast0)

text \<open>How many operations of each kind a trial is to make.\<close>

fun enq_count :: "trial \<Rightarrow> nat" where
  "enq_count (Pairs n k) = unat n * unat k"
| "enq_count (Pc p c k) = unat p * unat k"
| "enq_count (Enq n k) = unat n * unat k"
| "enq_count (Deq n k) = 0"

fun deq_count :: "trial \<Rightarrow> nat" where
  "deq_count (Pairs n k) = unat n * unat k"
| "deq_count (Pc p c k) = unat p * unat k"
| "deq_count (Enq n k) = 0"
| "deq_count (Deq n k) = unat n * unat k"

lemma ops_total_counts:
  assumes "sized T"
  shows "unat (ops_total_of T) = enq_count T + deq_count T"
proof (cases T)
  case (Pairs n k)
  then show ?thesis using unat_double [of n k] assms by simp
next
  case (Pc p c k)
  then show ?thesis using unat_double [of p k] assms by simp
next
  case (Enq n k)
  then show ?thesis using unat_product [of n k] assms by simp
next
  case (Deq n k)
  then show ?thesis using unat_product [of n k] assms by simp
qed

text \<open>What each kind of trial sends, and what its consumers stop at.\<close>

definition sendings :: "trial \<Rightarrow> nat" where
  "sendings T = (\<Sum>t < size_of T. quota T t) + unat (prefill_of T)"

lemma size_of_Pc: "unat p + unat c < 2 ^ 32 \<Longrightarrow> size_of (Pc p c k) = unat p + unat c"
  by (simp add: size_of_def unat_word_ariths mod_less)

lemma quotas:
  "(\<Sum>t < size_of (Pairs n k). quota (Pairs n k) t) = unat n * unat k"
  "unat p + unat c < 2 ^ 32 \<Longrightarrow> (\<Sum>t < size_of (Pc p c k). quota (Pc p c k) t) = unat p * unat k"
  "(\<Sum>t < size_of (Enq n k). quota (Enq n k) t) = unat n * unat k"
  "(\<Sum>t < size_of (Deq n k). quota (Deq n k) t) = 0"
proof -
  have "quota (Pc p c k) t = (if t < unat p then unat k else 0)" for t by (simp add: quota_def role)
  then show "unat p + unat c < 2 ^ 32 \<Longrightarrow> (\<Sum>t < size_of (Pc p c k). quota (Pc p c k) t) = unat p * unat k"
    unfolding size_of_Pc by (simp only: sum_first)
qed (simp_all add: size_of_def quota_def role)

lemma enq_count_quotas: "sized T \<Longrightarrow> (\<Sum>t < size_of T. quota T t) = enq_count T"
  using quotas by (cases T) simp_all

lemma sendings_count: "sized T \<Longrightarrow> (case T of Enq n k \<Rightarrow> True | _ \<Rightarrow> sendings T = deq_count T)"
  using enq_count_quotas [of T] unat_product by (cases T) (auto simp: sendings_def)

context bench_queue begin

lemma reported_counts:
  assumes run: "trial_run H Q ans T xs (trial_start T s0) = Running S" and rep: "driver S = Reported r"
    and sz: "sized T"
  shows "length (all_enq_ns r) = enq_count T \<and> length (all_deq_ns r) = deq_count T \<and>
    unat (ops_total r) = enq_count T + deq_count T"
proof -
  let ?n = "size_of T"
  note inv = trial_run_inv [OF run]
  note d = trial_invD [OF inv]
  have gone: "workers S t = Gone" if "t < ?n" for t
    using d(2) rep that unfolding trial_shape_def by simp
  obtain x y b where "r = collected (rounding H) T x y b (merged enq_ns ?n (outputs S)) (merged deq_ns ?n (outputs S))"
    by (rule reported_times [OF run rep])
  then have enq: "length (all_enq_ns r) = (\<Sum>t < ?n. length (enq_ns (outputs S t)))"
    and deq: "length (all_deq_ns r) = (\<Sum>t < ?n. length (deq_ns (outputs S t)))"
    and tot: "ops_total r = ops_total_of T"
    by (simp_all add: collected_def merged_def length_merged)
  have s: "length (enq_ns (outputs S t)) = quota T t"
      "\<not> consumer T t \<Longrightarrow> length (deq_ns (outputs S t)) = (if is_pairs T then quota T t else 0)" if "t < ?n" for t
    using d(9) [OF that] gone [OF that] by (simp_all add: samples_ok_def)
  have e: "length (all_enq_ns r) = enq_count T"
    unfolding enq using s enq_count_quotas [OF sz] by simp
  have g: "got (trace (fifo S)) = length (all_deq_ns r)"
    using d(4) gone by (simp add: accounts_ok_def deq got_by_def)
  have "sent (trace (fifo S)) = sendings T"
    using d(4) gone rep by (simp add: accounts_ok_def sendings_def)
  then have up: "length (all_deq_ns r) \<le> sendings T" using conserve [OF d(7)] g by simp
  have low: "unat (total_of T) \<le> length (all_deq_ns r)" if t: "t < ?n" "consumer T t" for t
  proof -
    have "unat (total_of T) \<le> (\<Sum>t < ?n. counted_by T t (workers S t) (outputs S t))"
      using d(3) t gone [OF t(1)] unfolding ctl_inv_def by simp
    also have "\<dots> \<le> (\<Sum>t < ?n. length (deq_ns (outputs S t)))"
      by (rule sum_mono) (simp add: gone counted_by_def got_by_def)
    finally show ?thesis by (simp add: deq)
  qed
  have "length (all_deq_ns r) = deq_count T"
  proof (cases T)
    case (Pairs n k)
    then have "length (all_deq_ns r) = (\<Sum>t < ?n. quota T t)" unfolding deq using s by (simp add: role)
    then show ?thesis using enq_count_quotas [OF sz] Pairs by simp
  next
    case (Pc p c k)
    have f: "unat p + unat c < 2 ^ 32" "0 < unat c" "unat p * unat k * 2 < 2 ^ 64" using sz Pc by simp_all
    have n: "?n = unat p + unat c" unfolding Pc by (rule size_of_Pc [OF f(1)])
    have "unat (total_of T) \<le> length (all_deq_ns r)" by (rule low [of "unat p"]) (use n f Pc in \<open>simp_all add: role\<close>)
    moreover have "unat (ucast p * k :: 64 word) = unat p * unat k" by (rule unat_product [OF order.strict_trans1 [OF _ f(3)]]) simp
    ultimately show ?thesis using up sendings_count [OF sz] Pc by simp
  next
    case (Enq n k)
    then show ?thesis unfolding deq using s by (simp add: role)
  next
    case (Deq n k)
    have p: "unat (ucast n * k :: 64 word) = unat n * unat k" by (rule unat_product) (use sz Deq in simp)
    have u: "length (all_deq_ns r) \<le> unat n * unat k" using up sendings_count [OF sz] Deq by simp
    show ?thesis
    proof (cases "unat n = 0")
      case False
      have "unat (total_of T) \<le> length (all_deq_ns r)"
        by (rule low [of 0]) (use False Deq in \<open>simp_all add: role size_of_def\<close>)
      then show ?thesis using u p Deq by simp
    qed (use u Deq in simp)
  qed
  then show ?thesis using e tot ops_total_counts [OF sz] by simp
qed

lemma reported_latencies:
  assumes run: "trial_run H Q ans T xs (trial_start T s0) = Running S" and rep: "driver S = Reported r"
    and cl: "clock S < 2 ^ 64"
  shows "\<exists>d. seconds r = to_seconds (rounding H) d \<and> (\<forall>x \<in> set (all_enq_ns r) \<union> set (all_deq_ns r). x \<le> d)"
proof -
  obtain x y b where tk: "taken T x y (clock S) (outputs S)"
    and r: "r = collected (rounding H) T x y b (merged enq_ns (size_of T) (outputs S)) (merged deq_ns (size_of T) (outputs S))"
    by (rule reported_times [OF run rep])
  obtain c k where ck: "x = of_nat c" "y = of_nat k" "k \<le> clock S" "spans (size_of T) c k (outputs S)"
    using tk unfolding taken_def by blast
  have "c \<le> k" using ck(4) by (simp add: spans_def)
  then have d: "y - x = of_nat (k - c)" by (simp add: ck(1,2) of_nat_diff)
  have "u \<le> y - x" if u: "u \<in> set (all_enq_ns r) \<union> set (all_deq_ns r)" for u
  proof -
    have "\<exists>t < size_of T. u \<in> samples (outputs S t)" using u by (auto simp: r collected_def merged_def samples_def)
    then obtain j where j: "u = of_nat j" "c + j \<le> k" using ck(4) by (auto simp: spans_def)
    have m: "unat (of_nat i :: 64 word) = i" if "i \<le> clock S" for i
      using cl that by (simp add: unat_of_nat mod_less)
    have "unat u = j" "unat (y - x) = k - c"
      unfolding d j(1) by (rule m, use j(2) ck(3) in linarith)+
    then show ?thesis using j(2) by (simp add: word_le_nat_alt)
  qed
  moreover have "seconds r = to_seconds (rounding H) (y - x)" by (simp add: r collected_def)
  ultimately show ?thesis by blast
qed

end

section \<open>What is reserved\<close>

fun in_body :: "worker \<Rightarrow> bool" where
  "in_body (Body b) \<longleftrightarrow> True"
| "in_body Ending \<longleftrightarrow> True"
| "in_body Exiting \<longleftrightarrow> True"
| "in_body Gone \<longleftrightarrow> True"
| "in_body w \<longleftrightarrow> False"

definition room :: "worker_out \<Rightarrow> nat \<times> nat" where
  "room o' = (enq_reserved o', deq_reserved o')"

definition reserved_ok :: "trial \<Rightarrow> (nat \<Rightarrow> worker) \<Rightarrow> (nat \<Rightarrow> worker_out) \<Rightarrow> bool" where
  "reserved_ok T w out \<longleftrightarrow>
     (\<forall>t < size_of T. room (out t) = (if in_body (w t) then room (reserves T t no_output) else (0, 0)))"

definition kept :: "trial \<Rightarrow> nat \<Rightarrow> 'q trial_state \<Rightarrow> 'q trial_state \<Rightarrow> bool" where
  "kept T t S S' \<longleftrightarrow>
     (if workers S t = Reserving then in_body (workers S' t) \<and> outputs S' t = reserves T t (outputs S t)
      else room (outputs S' t) = room (outputs S t) \<and> in_body (workers S' t) = in_body (workers S t))"

lemma room_push: "room (push_enq x o') = room o'" "room (push_deq x o') = room o'"
  by (simp_all add: room_def push_enq_def push_deq_def)

lemma kept_change:
  assumes st: "change_out t g S (goto t w') = Running S'" and wf: "mem_wf (outs S)" "in_body w'"
    and g: "if workers S t = Reserving then g = reserves T t
      else in_body (workers S t) \<and> room (g (outputs S t)) = room (outputs S t)"
  shows "kept T t S S'"
proof -
  obtain M where M: "goto t w' (S\<lparr>outs := M\<rparr>) = Running S'" "newest M = (outputs S)(t := g (outputs S t))"
    by (rule change_out_Running [OF st wf(1)]) blast
  have "workers S' t = w'" "outputs S' t = g (outputs S t)" using M by (auto simp: goto_def)
  then show ?thesis using g wf(2) by (auto simp: kept_def split: if_splits)
qed

lemma worker_kept:
  assumes st: "worker_step H Q ans T t c S (workers S t) = Running S'" and wf: "mem_wf (outs S)"
  shows "kept T t S S'"
proof -
  note s = kept_def goto_def on_fifo_def in_call_def on_ctl_def proceed_Running
  show ?thesis
  proof (cases "workers S t")
    case (Body b)
    then have b: "body_step Q ans T t c S b = Running S'" using st by simp
    have c: "kept T t S S'" if "change_out t g S (goto t w') = Running S'" "in_body w'"
        "room (g (outputs S t)) = room (outputs S t)" for g w'
      by (rule kept_change [OF that(1) wf that(2)]) (use Body that(3) in simp)
    have "kept T t S S'" if "in_call Q ans t c S (\<lambda>y. goto t (Body (g y))) = Running S'" for g
      using that Body by (auto simp: s simp del: exec.simps split: option.splits)
    then show ?thesis
      using Body b c
      by (cases b) (auto simp: s Let_def in_call_resume room_push simp del: exec.simps in_call_def
          split: if_splits option.splits outcome.splits)
  next
    case Reserving
    then have "change_out t (reserves T t) S (goto t (Body (entry T t))) = Running S'" using st by simp
    then show ?thesis by (rule kept_change [OF _ wf]) (simp_all add: Reserving)
  qed (use st in \<open>auto simp: s simp del: exec.simps split: if_splits outcome.splits option.splits\<close>)
qed

lemma reserves_room: "room o' = (0, 0) \<Longrightarrow>
    room (reserves T t o') = room (reserves T t no_output)"
  by (cases T) (auto simp: room_def no_output_def)

lemma reserved_worker:
  assumes "reserved_ok T (workers S) (outputs S)" "moved t S S'" "kept T t S S'"
  shows "reserved_ok T (workers S') (outputs S')"
  unfolding reserved_ok_def
proof (intro allI impI)
  fix u assume u: "u < size_of T"
  have old: "room (outputs S u) = (if in_body (workers S u) then room (reserves T u no_output) else (0, 0))"
    using assms(1) u unfolding reserved_ok_def by blast
  show "room (outputs S' u) = (if in_body (workers S' u) then room (reserves T u no_output) else (0, 0))"
  proof (cases "u = t")
    case False
    then show ?thesis using old assms(2) by (simp add: moved_def)
  next
    case True
    then show ?thesis using old assms(3) reserves_room [of "outputs S t" T t]
      by (simp add: kept_def split: if_splits)
  qed
qed

lemma reserved_driver:
  assumes ok: "reserved_ok T (workers S) (outputs S)" and d: "drove rnd T S S'"
    and sh: "trial_shape T (driver S) (workers S)"
  shows "reserved_ok T (workers S') (outputs S')"
proof -
  have "in_body (workers S' t) = in_body (workers S t)" for t
  proof (cases "workers S' t = workers S t")
    case False
    then have "workers S' t = Pinning" "\<not> past_line (workers S t)" using d sh unfolding drove_def trial_shape_def by blast+
    then show ?thesis by (cases "workers S t") simp_all
  qed simp
  moreover have "outputs S' = outputs S" using d unfolding drove_def by blast
  ultimately show ?thesis using ok by (simp add: reserved_ok_def)
qed

context bench_queue begin

lemma room_step:
  assumes inv: "trial_inv T S" and ok: "reserved_ok T (workers S) (outputs S)"
    and st: "trial_step H Q ans T x S = Running S'"
  shows "reserved_ok T (workers S') (outputs S')"
proof (rule trial_step_cases [OF inv st])
  note sh = trial_invD(2) [OF inv]
  have wf: "mem_wf (outs S)" using trial_invD(5) [OF inv] by (simp add: outs_ok_def)
  show ?thesis if "S1 = S\<lparr>clock := clock S + snd (snd (snd x))\<rparr>" "t < size_of T"
      "worker_step H Q ans T t c S1 (workers S1 t) = Running S'" for S1 t c
    by (rule reserved_worker [OF _ worker_moved [OF that(3)] worker_kept [OF that(3)]]) (use that(1) ok wf in simp_all)
  show ?thesis if "S1 = S\<lparr>clock := clock S + snd (snd (snd x))\<rparr>"
      "driver_step H Q ans T (size_of T) c S1 (driver S1) = Running S'" for S1 c
    by (rule reserved_driver [OF _ driver_drove [OF that(2)]]) (use that(1) sh ok wf in simp_all)
  show ?thesis if "S' = S\<lparr>clock := k\<rparr>" for k using ok that by simp
qed

lemma producers_fit:
  assumes run: "trial_run H Q ans T xs (trial_start T s0) = Running S" and t: "t < size_of T" "\<not> consumer T t"
  shows "length (enq_ns (outputs S t)) \<le> enq_reserved (outputs S t) \<and>
    length (deq_ns (outputs S t)) \<le> deq_reserved (outputs S t)"
proof -
  note inv = trial_run_inv [OF run]
  have so: "samples_ok T t (workers S t) (outputs S t)" and wo: "worker_ok T t (workers S t)"
    by (rule trial_invD(9) [OF inv t(1)], rule trial_invD(8) [OF inv])
  have start: "reserved_ok T (workers (trial_start T s0)) (outputs (trial_start T s0))"
    by (simp add: trial_start_def reserved_ok_def size_of_def [symmetric] outs_start_new no_output_def room_def)
  have "reserved_ok T (workers S) (outputs S)"
    using run_keeps [where P = "\<lambda>S. reserved_ok T (workers S) (outputs S)", OF room_step run trial_start_inv start] .
  then have ro: "room (outputs S t) = (if in_body (workers S t) then room (reserves T t no_output) else (0, 0))"
    using t(1) unfolding reserved_ok_def by blast
  show ?thesis
  proof (cases "in_body (workers S t)")
    case False
    then have "enq_pushed T t (workers S t) = 0" "deq_pushed T t (workers S t) = 0" by (cases "workers S t"; simp)+
    then show ?thesis using so t(2) by (simp add: samples_ok_def)
  next
    case True
    have q: "enq_pushed T t (workers S t) \<le> quota T t" "deq_pushed T t (workers S t) \<le> (if is_pairs T then quota T t else 0)"
      using wo t(2) True
      by (cases "workers S t" rule: in_body.cases;
          cases "case workers S t of Body b \<Rightarrow> b | _ \<Rightarrow> C_next"; auto simp: quota_def word_le_nat_alt word_less_nat_alt)+
    have "enq_reserved (outputs S t) = quota T t" "(if is_pairs T then quota T t else 0) \<le> deq_reserved (outputs S t)"
      using ro True t(2) by (cases T; auto simp: room_def role quota_def split: if_splits)+
    then show ?thesis using q so t(2) by (simp add: samples_ok_def)
  qed
qed

end

end
