(* ===== verification/Bench_Queues.thy ===== *)
theory Bench_Queues imports Bench_Trials_Time Ms_Queue_Props Hp_Queue_Props Mutex_Queue_Safe begin

text \<open>
  The three queues of the repository keep the contract \<open>bench_queue\<close>: calls and returns pair up
  in every thread, no more elements are returned than were passed to \<^verbatim>\<open>enqueue\<close>, and
  a thread that ends leaves the queue alone.
\<close>

section \<open>A queue under the benchmark's calls\<close>

fun port_command :: "(bench_op \<Rightarrow> 'o option) \<Rightarrow> bench_op command \<Rightarrow> 'o command option" where
  "port_command f (Step t k b) = Some (Step t k b)"
| "port_command f (Invoke t x) = map_option (Invoke t) (f x)"
| "port_command f (Sync t u) = Some (Sync t u)"

lemma ported_parts [simp]:
  "act (ported P f) = act P" "resume (ported P f) = resume P" "log (ported P f) = log P" "idle (ported P f) = idle P"
  "call (ported P f) t x p = (case f x of None \<Rightarrow> None | Some y \<Rightarrow> call P t y p)"
  by (simp_all add: ported_def)

lemma ported_exec:
  "exec (ported P f) c s = (case port_command f c of None \<Rightarrow> Running s | Some c' \<Rightarrow> exec P c' s)"
proof (cases c)
  case (Step t k b)
  then show ?thesis by (cases "mem_step t (act P (thr s t)) (k, b) (mem s)") simp_all
qed (simp_all split: option.split)

text \<open>What a queue keeps, it keeps under the benchmark's calls.\<close>

lemma ported_safe:
  assumes "safe_system P s0 I"
  shows "safe_system (ported P f) s0 I"
proof (rule safe_system.intro)
  note sys = assms [unfolded safe_system_def]
  show "I s0" using sys by blast
  show "I s'" if "I s" "exec (ported P f) c s = Running s'" for s c s'
  proof (cases "port_command f c")
    case None
    then show ?thesis using that by (simp add: ported_exec)
  next
    case (Some c')
    then have "exec P c' s = Running s'" using that(2) by (simp add: ported_exec)
    then show ?thesis using that(1) sys by blast
  qed
  show "exec (ported P f) c s \<noteq> Crashed e" if "I s" for s c e
    using that sys by (cases "port_command f c") (simp_all add: ported_exec)
qed

section \<open>The lock-free queue keeps the contract\<close>

text \<open>Counting the events of each thread bounds the totals.\<close>

lemma by_thread:
  fixes tr :: "'a list" and who :: "'a \<Rightarrow> nat"
  assumes "\<And>u. length (filter (\<lambda>e. P e \<and> who e = u) tr) \<le> length (filter (\<lambda>e. R e \<and> who e = u) tr)"
  shows "length (filter P tr) \<le> length (filter R tr)"
proof -
  have total: "\<forall>e \<in> set xs. who e < m \<Longrightarrow>
      length (filter F xs) = (\<Sum>u<m. length (filter (\<lambda>e. F e \<and> who e = u) xs))"
    for F and xs :: "'a list" and m :: nat
  proof (induction xs)
    case (Cons x xs)
    then have m: "who x < m" "\<forall>e \<in> set xs. who e < m" by simp_all
    have "(\<Sum>u<m. length (filter (\<lambda>e. F e \<and> who e = u) (x # xs))) =
        (\<Sum>u<m. (if u = who x then of_bool (F x) else 0)) + (\<Sum>u<m. length (filter (\<lambda>e. F e \<and> who e = u) xs))"
      unfolding sum.distrib [symmetric] by (rule sum.cong) auto
    then show ?case using Cons.IH [OF m(2)] m(1) by (simp add: sum.delta)
  qed simp
  obtain m where "\<forall>e \<in> set tr. who e < m"
    using finite_nat_set_iff_bounded [of "who ` set tr"] by auto
  then show ?thesis using total [of tr m P] total [of tr m R] assms by (simp add: sum_mono)
qed

fun event_thread :: "'a event \<Rightarrow> nat" where
  "event_thread (Begin t x) = t"
| "event_thread (Linked t a g v) = t"
| "event_thread (Unlinked t a g v) = t"
| "event_thread (Return t y) = t"

fun begins_enqueue :: "'a event \<Rightarrow> bool" where
  "begins_enqueue (Begin t (Enqueue v)) \<longleftrightarrow> True"
| "begins_enqueue e \<longleftrightarrow> False"

fun returns_element :: "'a event \<Rightarrow> bool" where
  "returns_element (Return t (Dequeued (Some v))) \<longleftrightarrow> True"
| "returns_element e \<longleftrightarrow> False"

fun is_link :: "'a event \<Rightarrow> bool" where
  "is_link (Linked t a g v) \<longleftrightarrow> True"
| "is_link e \<longleftrightarrow> False"

fun is_unlink :: "'a event \<Rightarrow> bool" where
  "is_unlink (Unlinked t a g v) \<longleftrightarrow> True"
| "is_unlink e \<longleftrightarrow> False"

abbreviation tally_of :: "('a event \<Rightarrow> bool) \<Rightarrow> nat \<Rightarrow> 'a event list \<Rightarrow> nat" where
  "tally_of F t tr \<equiv> length (filter (\<lambda>e. F e \<and> event_thread e = t) tr)"

lemma status_tallies:
  "status t tr = Some st \<Longrightarrow>
     tally_of returns_element t tr + of_bool (\<exists>v. st = Taken v) = tally_of is_unlink t tr \<and>
     tally_of is_link t tr + of_bool (\<exists>v. st = Enqueuing v) = tally_of begins_enqueue t tr"
proof (induction tr arbitrary: st rule: rev_induct)
  case Nil
  then show ?case by (auto simp: status_def)
next
  case (snoc e tr)
  show ?case
  proof (cases "status t tr")
    case None
    have "status_step t e None = None" by (cases "(t, e, None :: 'a status option)" rule: status_step.cases) auto
    then show ?thesis using snoc.prems None by (simp add: status_append)
  next
    case (Some st')
    then show ?thesis
      using snoc.prems snoc.IH [OF Some]
      by (cases "(t, e, Some st')" rule: status_step.cases) (auto simp: status_append split: if_splits)
  qed
qed

lemma linked_events: "length (filter is_link tr) = length (enqueued tr)"
  by (induction tr rule: enqueued.induct) auto

lemma unlinked_events: "length (filter is_unlink tr) = length (dequeued tr)"
  by (induction tr rule: dequeued.induct) auto

definition begun :: "'a event list \<Rightarrow> nat" where
  "begun tr = length (filter begins_enqueue tr)"

definition elements_received :: "'a event list \<Rightarrow> nat" where
  "elements_received tr = length (filter returns_element tr)"

lemma no_events: "begun [] = 0" "elements_received [] = 0" "begun (tr @ es) = begun tr + begun es"
    "elements_received (tr @ es) = elements_received tr + elements_received es"
  by (simp_all add: begun_def elements_received_def)

lemma ms_conserve:
  assumes inv: "queue_inv d s"
  shows "elements_received (trace s) \<le> begun (trace s)"
proof -
  have le: "tally_of returns_element t (trace s) \<le> tally_of is_unlink t (trace s)"
      "tally_of is_link t (trace s) \<le> tally_of begins_enqueue t (trace s)" for t
    using status_tallies [OF queue_inv_thread(2) [OF inv, of t]] by linarith+
  have "elements_received (trace s) \<le> length (filter is_unlink (trace s))"
    unfolding elements_received_def by (rule by_thread [OF le(1)])
  also have "\<dots> \<le> length (filter is_link (trace s))"
    by (rule inv_elements [OF inv]) (simp add: linked_events unlinked_events)
  also have "\<dots> \<le> begun (trace s)"
    unfolding begun_def by (rule by_thread [OF le(2)])
  finally show ?thesis .
qed

fun enqueue_k :: "'a cont \<Rightarrow> bool" where
  "enqueue_k (KE_guard n) \<longleftrightarrow> True"
| "enqueue_k (KE_protect n) \<longleftrightarrow> True"
| "enqueue_k KE_leave \<longleftrightarrow> True"
| "enqueue_k k \<longleftrightarrow> False"

fun in_enqueue :: "('a, 'x, 'r) pc \<Rightarrow> bool" where
  "in_enqueue (Start x k) \<longleftrightarrow> enqueue_k k"
| "in_enqueue (Call r k) \<longleftrightarrow> enqueue_k k"
| "in_enqueue (E_new v) \<longleftrightarrow> True"
| "in_enqueue (E_next n p) \<longleftrightarrow> True"
| "in_enqueue (E_check n p q) \<longleftrightarrow> True"
| "in_enqueue (E_help n p q) \<longleftrightarrow> True"
| "in_enqueue (E_link n p) \<longleftrightarrow> True"
| "in_enqueue (E_swing n p) \<longleftrightarrow> True"
| "in_enqueue (Finish Enqueued) \<longleftrightarrow> True"
| "in_enqueue p \<longleftrightarrow> False"

text \<open>These facts hold with any reclaimer.\<close>

lemma enter_facts: "fst (enter k x) \<noteq> Idle" "in_enqueue (fst (enter k x)) = enqueue_k k"
  by (cases "(k, x)" rule: enter.cases; cases k; simp)+

lemma ms_call_counts:
  "queue_call t x p = Some (p', es) \<Longrightarrow>
     fst p' \<noteq> Idle \<and> in_enqueue (fst p') = (\<exists>v. x = Enqueue v) \<and>
     begun es = (case x of Enqueue v \<Rightarrow> 1 | _ \<Rightarrow> 0) \<and> elements_received es = 0"
  by (cases "(t, x, p)" rule: queue_call.cases) (auto simp: begun_def elements_received_def)

lemma ms_log_counts:
  "begun (queue_note t p r M) = 0"
  "elements_received (queue_note t p r M) = (case ms_answer p of Some (Dequeued (Some v)) \<Rightarrow> 1 | _ \<Rightarrow> 0)"
  by (cases "(t, p, r, M)" rule: queue_note.cases;
      auto simp: begun_def elements_received_def split: ret.split option.split)+

lemma ms_resume:
  "fst p \<noteq> Idle \<Longrightarrow> (fst (queue_resume R p r) = Idle) = (ms_answer p \<noteq> None)"
  "fst p \<noteq> Idle \<Longrightarrow> ms_answer p = None \<Longrightarrow> in_enqueue (fst (queue_resume R p r)) = in_enqueue (fst p)"
  by (cases "(R, p, r)" rule: queue_resume.cases; cases "fst p"; auto simp: enter_facts split: ret.split)+

lemma bench_leaky_parts:
  "act bench_leaky p = queue_act shipped leaky_reclaimer (fst p)"
  "resume bench_leaky p r = queue_resume leaky_reclaimer p r"
  "log bench_leaky t p r M = queue_note t p r M" "idle bench_leaky p \<longleftrightarrow> fst p = Idle"
  "call bench_leaky t x p = (case queue_calls x of None \<Rightarrow> None | Some y \<Rightarrow> queue_call t y p)"
  by (simp_all add: bench_leaky_def leaky_queue_def ms_queue_def split: option.split)

lemma bench_calls: "queue_calls x = Some (Enqueue v) \<longleftrightarrow> x = Put v" "queue_calls x = None \<longleftrightarrow> x = Leave"
    "queue_calls x \<noteq> Some Is_empty"
  by (cases x; auto)+

lemma leaky_safe: "safe_system bench_leaky (leaky_start_state dflt a) (queue_inv a)"
  unfolding bench_leaky_def by (rule ported_safe) unfold_locales

interpretation leaky_bench: bench_queue bench_leaky "leaky_start_state dflt a" "queue_inv a"
    ms_answer "\<lambda>p. in_enqueue (fst p)" "\<lambda>_. False" begun elements_received for dflt :: "64 word" and a :: nat
proof (intro bench_queue.intro leaky_safe bench_queue_axioms.intro, goal_cases)
  case (6 p x t)
  then show ?case by (cases x; cases p; cases "fst p") (auto simp: bench_leaky_parts)
next
  case (7 t x p p' es)
  then show ?case using ms_call_counts [of t _ p p' es] by (cases x) (auto simp: bench_leaky_parts)
next
  case (10 p)
  then show ?case by (cases p rule: ms_answer.cases) (auto simp: bench_leaky_parts)
next
  case (13 p y)
  then show ?case by (cases p rule: ms_answer.cases) auto
qed (simp_all add: bench_leaky_parts leaky_start_state_def queue_start_def no_events
    ms_log_counts ms_resume ms_conserve)

section \<open>The mutex queue keeps the contract\<close>

fun mutex_thread :: "'a mutex_event \<Rightarrow> nat" where
  "mutex_thread (Called t x) = t"
| "mutex_thread (Pushed t v) = t"
| "mutex_thread (Popped t v) = t"
| "mutex_thread (Answered t y) = t"

fun calls_enqueue :: "'a mutex_event \<Rightarrow> bool" where
  "calls_enqueue (Called t (Enqueue v)) \<longleftrightarrow> True"
| "calls_enqueue e \<longleftrightarrow> False"

fun answers_element :: "'a mutex_event \<Rightarrow> bool" where
  "answers_element (Answered t (Dequeued (Some v))) \<longleftrightarrow> True"
| "answers_element e \<longleftrightarrow> False"

fun is_push :: "'a mutex_event \<Rightarrow> bool" where
  "is_push (Pushed t v) \<longleftrightarrow> True"
| "is_push e \<longleftrightarrow> False"

fun is_pop :: "'a mutex_event \<Rightarrow> bool" where
  "is_pop (Popped t v) \<longleftrightarrow> True"
| "is_pop e \<longleftrightarrow> False"

text \<open>A call of \<^verbatim>\<open>enqueue\<close> that has not pushed yet, and one of \<^verbatim>\<open>try_dequeue\<close>
  that has popped and not answered yet.\<close>

fun to_push :: "'a mutex_pc \<Rightarrow> bool" where
  "to_push (Mx_lock (Enqueue v)) \<longleftrightarrow> True"
| "to_push (Mx_push v) \<longleftrightarrow> True"
| "to_push (Mx_pushing v q) \<longleftrightarrow> True"
| "to_push p \<longleftrightarrow> False"

fun to_answer :: "'a mutex_pc \<Rightarrow> bool" where
  "to_answer (Mx_unlock (Dequeued (Some v))) \<longleftrightarrow> True"
| "to_answer (Mx_return (Dequeued (Some v))) \<longleftrightarrow> True"
| "to_answer p \<longleftrightarrow> False"

fun mutex_enqueues :: "'a mutex_pc \<Rightarrow> bool" where
  "mutex_enqueues (Mx_unlock Enqueued) \<longleftrightarrow> True"
| "mutex_enqueues (Mx_return Enqueued) \<longleftrightarrow> True"
| "mutex_enqueues p \<longleftrightarrow> to_push p"

abbreviation mutex_tally :: "('a mutex_event \<Rightarrow> bool) \<Rightarrow> nat \<Rightarrow> 'a mutex_event list \<Rightarrow> nat" where
  "mutex_tally F t tr \<equiv> length (filter (\<lambda>e. F e \<and> mutex_thread e = t) tr)"

definition mutex_paired :: "'a mutex_state \<Rightarrow> bool" where
  "mutex_paired s \<longleftrightarrow>
     (\<forall>t. mutex_tally is_push t (trace s) + of_bool (to_push (thr s t)) = mutex_tally calls_enqueue t (trace s) \<and>
          mutex_tally answers_element t (trace s) + of_bool (to_answer (thr s t)) = mutex_tally is_pop t (trace s))"

lemma mutex_log_thread: "e \<in> set (mutex_log t p) \<Longrightarrow> mutex_thread e = t"
  by (cases "(t, p)" rule: mutex_log.cases) auto

lemma mutex_log_tallies:
  "u \<noteq> t \<Longrightarrow> mutex_tally F u (mutex_log t p) = 0"
  "mutex_tally is_push t (mutex_log t p) + of_bool (to_push (mutex_next p r)) =
     mutex_tally calls_enqueue t (mutex_log t p) + of_bool (to_push p)"
  "mutex_tally answers_element t (mutex_log t p) + of_bool (to_answer (mutex_next p r)) =
     mutex_tally is_pop t (mutex_log t p) + of_bool (to_answer p)"
proof -
  show "u \<noteq> t \<Longrightarrow> mutex_tally F u (mutex_log t p) = 0"
    using mutex_log_thread [of _ t p] by (auto simp: filter_empty_conv)
  have k: "to_push (locked_for y) = to_push (Mx_lock y)" "\<not> to_answer (locked_for y)" for y :: "'a op"
    by (cases y; simp)+
  show "mutex_tally is_push t (mutex_log t p) + of_bool (to_push (mutex_next p r)) =
      mutex_tally calls_enqueue t (mutex_log t p) + of_bool (to_push p)"
    and "mutex_tally answers_element t (mutex_log t p) + of_bool (to_answer (mutex_next p r)) =
      mutex_tally is_pop t (mutex_log t p) + of_bool (to_answer p)"
    by (cases "(p, r)" rule: mutex_next.cases;
        auto simp: k split: ret.split option.split elim!: to_answer.elims)+
qed

lemma mutex_paired_exec:
  assumes s: "mutex_paired s" and e: "exec mutex_queue c s = Running s'"
  shows "mutex_paired s'"
proof (cases c)
  case (Step t k b)
  show ?thesis
  proof (cases "mem_step t (mutex_act (thr s t)) (k, b) (mem s)")
    case (Done r M)
    then have s': "s' = \<lparr>mem = M, thr = (thr s)(t := mutex_next (thr s t) r), trace = trace s @ mutex_log t (thr s t)\<rparr>"
      using e Step by (simp add: mutex_queue_def)
    show ?thesis
      unfolding mutex_paired_def
    proof
      fix u
      have none: "u \<noteq> t \<Longrightarrow> filter (\<lambda>e. F e \<and> mutex_thread e = u) (mutex_log t (thr s t)) = []" for F
        using mutex_log_tallies(1) [of u t F "thr s t"] by simp
      show "mutex_tally is_push u (trace s') + of_bool (to_push (thr s' u)) = mutex_tally calls_enqueue u (trace s') \<and>
          mutex_tally answers_element u (trace s') + of_bool (to_answer (thr s' u)) = mutex_tally is_pop u (trace s')"
        using s [unfolded mutex_paired_def, rule_format, of u] none
          mutex_log_tallies(2,3) [of t "thr s t" r]
        by (cases "u = t") (simp_all add: s')
    qed
  qed (use s e Step in \<open>auto simp: mutex_queue_def\<close>)
next
  case (Invoke t x)
  show ?thesis
  proof (cases "thr s t = Mx_idle")
    case True
    then have s': "s' = s\<lparr>thr := (thr s)(t := Mx_lock x), trace := trace s @ [Called t x]\<rparr>"
      using e Invoke by (simp add: mutex_queue_def)
    show ?thesis
      unfolding mutex_paired_def
    proof
      fix u
      show "mutex_tally is_push u (trace s') + of_bool (to_push (thr s' u)) = mutex_tally calls_enqueue u (trace s') \<and>
          mutex_tally answers_element u (trace s') + of_bool (to_answer (thr s' u)) = mutex_tally is_pop u (trace s')"
        using s [unfolded mutex_paired_def, rule_format, of u] True
        by (cases "u = t"; cases x) (simp_all add: s')
    qed
  next
    case False
    then have "s' = s" using e Invoke by (cases "thr s t") (auto simp: mutex_queue_def)
    then show ?thesis using s by simp
  qed
next
  case (Sync t u)
  then have "thr s' = thr s" "trace s' = trace s" using e by (auto simp: mutex_queue_def split: if_splits)
  then show ?thesis using s unfolding mutex_paired_def by simp
qed

definition mutex_calls :: "'a mutex_event list \<Rightarrow> nat" where
  "mutex_calls tr = length (filter calls_enqueue tr)"

definition mutex_answers :: "'a mutex_event list \<Rightarrow> nat" where
  "mutex_answers tr = length (filter answers_element tr)"

lemma no_mutex_events: "mutex_calls [] = 0" "mutex_answers [] = 0"
    "mutex_calls (tr @ es) = mutex_calls tr + mutex_calls es"
    "mutex_answers (tr @ es) = mutex_answers tr + mutex_answers es"
  by (simp_all add: mutex_calls_def mutex_answers_def)

lemma pushes: "length (filter is_push tr) = length (pushed_of tr)"
  by (induction tr rule: pushed_of.induct) auto

lemma pops: "length (filter is_pop tr) = length (popped_of tr)"
  by (induction tr rule: popped_of.induct) auto

lemma mutex_conserve:
  assumes "mutex_inv s" "mutex_paired s"
  shows "mutex_answers (trace s) \<le> mutex_calls (trace s)"
proof -
  have le: "mutex_tally answers_element t (trace s) \<le> mutex_tally is_pop t (trace s)"
      "mutex_tally is_push t (trace s) \<le> mutex_tally calls_enqueue t (trace s)" for t
    using assms(2) [unfolded mutex_paired_def, rule_format, of t] by linarith+
  have "mutex_answers (trace s) \<le> length (filter is_pop (trace s))"
    unfolding mutex_answers_def by (rule by_thread [OF le(1)])
  also have "\<dots> \<le> length (filter is_push (trace s))" using mutex_invD(8) [OF assms(1)] by (simp add: pushes pops)
  also have "\<dots> \<le> mutex_calls (trace s)" unfolding mutex_calls_def by (rule by_thread [OF le(2)])
  finally show ?thesis .
qed

lemma mutex_call_counts:
  "mutex_call t x p = Some (p', es) \<Longrightarrow>
     p' \<noteq> Mx_idle \<and> mutex_enqueues p' = (\<exists>v. x = Enqueue v) \<and>
     mutex_calls es = (case x of Enqueue v \<Rightarrow> 1 | _ \<Rightarrow> 0) \<and> mutex_answers es = 0"
  by (cases "(t, x, p)" rule: mutex_call.cases; cases x) (auto simp: mutex_calls_def mutex_answers_def)

lemma mutex_log_counts:
  "mutex_calls (mutex_log t p) = 0"
  "mutex_answers (mutex_log t p) = (case mutex_answer p of Some (Dequeued (Some v)) \<Rightarrow> 1 | _ \<Rightarrow> 0)"
  by (cases "(t, p)" rule: mutex_log.cases;
      auto simp: mutex_calls_def mutex_answers_def split: ret.split option.split)+

lemma mutex_resume:
  "p \<noteq> Mx_idle \<Longrightarrow> (mutex_next p r = Mx_idle) = (mutex_answer p \<noteq> None)"
  "p \<noteq> Mx_idle \<Longrightarrow> mutex_answer p = None \<Longrightarrow> mutex_enqueues (mutex_next p r) = mutex_enqueues p"
proof -
  have k: "locked_for y \<noteq> Mx_idle" "mutex_enqueues (locked_for y) = mutex_enqueues (Mx_lock y)" for y :: "'a op"
    by (cases y; simp)+
  show "p \<noteq> Mx_idle \<Longrightarrow> (mutex_next p r = Mx_idle) = (mutex_answer p \<noteq> None)"
    by (cases "(p, r)" rule: mutex_next.cases) (auto simp: k)
  have u: "mutex_enqueues (Mx_return y) = mutex_enqueues (Mx_unlock y)" for y :: "'a ret" by (cases y) simp_all
  show "p \<noteq> Mx_idle \<Longrightarrow> mutex_answer p = None \<Longrightarrow> mutex_enqueues (mutex_next p r) = mutex_enqueues p"
    by (cases "(p, r)" rule: mutex_next.cases) (auto simp: k u)
qed

lemma bench_mutex_parts:
  "act bench_mutex p = mutex_act p" "resume bench_mutex p r = mutex_next p r"
  "log bench_mutex t p r M = mutex_log t p" "idle bench_mutex p \<longleftrightarrow> p = Mx_idle"
  "call bench_mutex t x p = (case queue_calls x of None \<Rightarrow> None | Some y \<Rightarrow> mutex_call t y p)"
  by (simp_all add: bench_mutex_def mutex_queue_def split: option.split)

lemma mutex_safe: "safe_system bench_mutex mutex_start (\<lambda>s. mutex_inv s \<and> mutex_paired s)"
  unfolding bench_mutex_def
proof (rule ported_safe, rule safe_system.intro)
  show "mutex_inv mutex_start \<and> mutex_paired mutex_start" using mutex.start by (auto simp: mutex_paired_def mutex_start_def)
  show "mutex_inv s' \<and> mutex_paired s'" if "mutex_inv s \<and> mutex_paired s" "exec mutex_queue c s = Running s'" for s c s'
    using that mutex.keeps mutex_paired_exec by blast
  show "exec mutex_queue c s \<noteq> Crashed e" if "mutex_inv s \<and> mutex_paired s" for s c e
    using that mutex.no_crash by blast
qed

interpretation mutex_bench: bench_queue bench_mutex mutex_start "\<lambda>s. mutex_inv s \<and> mutex_paired s"
    mutex_answer mutex_enqueues "\<lambda>_. False" mutex_calls mutex_answers
proof (intro bench_queue.intro mutex_safe bench_queue_axioms.intro, goal_cases)
  case (6 p x t)
  then show ?case by (cases x) (simp_all add: bench_mutex_parts)
next
  case (7 t x p p' es)
  then show ?case using mutex_call_counts [of t _ p p' es] by (cases x) (auto simp: bench_mutex_parts)
next
  case (10 p)
  then show ?case by (cases p rule: mutex_answer.cases) (auto simp: bench_mutex_parts)
next
  case (13 p y)
  then show ?case by (cases p rule: mutex_answer.cases) auto
qed (simp_all add: bench_mutex_parts mutex_start_def no_mutex_events mutex_log_counts mutex_resume mutex_conserve)

section \<open>The queue with hazard pointers keeps the contract\<close>

lemma bench_hp_parts:
  "act bench_hp p = client_act shipped p" "resume bench_hp p r = client_resume p r"
  "log bench_hp t p r M = client_log t p r M" "idle bench_hp p \<longleftrightarrow> fst p = In_queue Idle"
  "call bench_hp t x p = (case client_calls x of None \<Rightarrow> None | Some y \<Rightarrow> client_call t y p)"
  by (simp_all add: bench_hp_def hp_queue_def split: prod.split option.split)

lemma hp_safe: "safe_system bench_hp (hp_queue_start dflt a)
    (\<lambda>s. reach (hp_queue shipped) (hp_queue_start dflt a) s \<and> unasked (trace s))"
proof (rule safe_system.intro)
  have eq: "exec bench_hp c s = exec (hp_users shipped) (case port_command client_calls c of
      None \<Rightarrow> Invoke 0 (Queue_op Is_empty) | Some c' \<Rightarrow> c') s" for c s
  proof (cases c)
    case (Invoke t x)
    then show ?thesis unfolding bench_hp_def by (cases x) (simp_all add: ported_exec users_exec del: exec.simps)
  qed (simp_all add: bench_hp_def ported_exec users_exec del: exec.simps)
  let ?I = "\<lambda>s. reach (hp_queue shipped) (hp_queue_start dflt a) s \<and> unasked (trace s)"
  show "?I (hp_queue_start dflt a)" by (rule hp.start)
  show "?I s'" if "?I s" "exec bench_hp c s = Running s'" for s c s'
    by (rule hp.keeps [OF that(1) that(2) [unfolded eq]])
  show "exec bench_hp c s \<noteq> Crashed e" if "?I s" for s c e
    unfolding eq by (rule hp.no_crash [OF that])
qed

fun client_enqueues :: "'a client_pc \<Rightarrow> bool" where
  "client_enqueues (In_queue p) \<longleftrightarrow> in_enqueue p"
| "client_enqueues p \<longleftrightarrow> False"

fun client_leaves :: "'a client_pc \<Rightarrow> bool" where
  "client_leaves (In_queue p) \<longleftrightarrow> False"
| "client_leaves p \<longleftrightarrow> True"

lemma domain_leaves: "client_leaves (fst (in_domain Leaving y z))" "client_leaves (fst (in_domain Draining y z))"
  by (cases "(y, z)"; cases z; cases "snd z"; simp)+

lemma client_log_counts:
  "begun (queue_events (client_log t p r M)) = 0"
  "elements_received (queue_events (client_log t p r M)) =
     (case client_answer p of Some (Dequeued (Some v)) \<Rightarrow> 1 | _ \<Rightarrow> 0)"
proof -
  have d: "queue_events (domain_note t d h) = []" for d h by (cases d) (simp_all add: queue_events_def)
  have e: "queue_events [Retires t q] = []" "queue_events [Domain_answer t y] = []" "queue_events [] = []" for q y
    by (simp_all add: queue_events_def)
  show "begun (queue_events (client_log t p r M)) = 0"
    by (cases "(t, p, r, M)" rule: client_log.cases) (simp_all add: d e no_events ms_log_counts del: queue_note.simps)
  show "elements_received (queue_events (client_log t p r M)) =
     (case client_answer p of Some (Dequeued (Some v)) \<Rightarrow> 1 | _ \<Rightarrow> 0)"
    by (cases "(t, p, r, M)" rule: client_log.cases) (simp_all add: d e no_events ms_log_counts del: queue_note.simps)
qed

lemma client_stays:
  assumes "fst p \<noteq> In_queue Idle"
  shows "\<not> client_leaves (fst p) \<Longrightarrow> fst (client_resume p r) = In_queue Idle \<longleftrightarrow> client_answer p \<noteq> None"
    "fst (client_resume p r) \<noteq> In_queue Idle \<Longrightarrow>
       client_enqueues (fst (client_resume p r)) = client_enqueues (fst p) \<and>
       client_leaves (fst (client_resume p r)) = client_leaves (fst p)"
proof -
  obtain c h where p: "p = (c, h)" by (cases p) simp
  have l: "\<not> client_enqueues x" if "client_leaves x" for x :: "'a client_pc" using that by (cases x) simp_all
  show "\<not> client_leaves (fst p) \<Longrightarrow> fst (client_resume p r) = In_queue Idle \<longleftrightarrow> client_answer p \<noteq> None"
    using assms ms_resume(1) [of "(q, h)" for q] by (cases c) (auto simp: p)
  show "fst (client_resume p r) \<noteq> In_queue Idle \<Longrightarrow>
       client_enqueues (fst (client_resume p r)) = client_enqueues (fst p) \<and>
       client_leaves (fst (client_resume p r)) = client_leaves (fst p)"
  proof (cases c)
    case (In_queue q)
    assume "fst (client_resume p r) \<noteq> In_queue Idle"
    then have "fst (queue_resume hp_reclaimer (q, h) r) \<noteq> Idle" by (simp add: p In_queue)
    moreover have "q \<noteq> Idle" using assms by (simp add: p In_queue)
    ultimately show ?thesis
      using ms_resume(1) [of "(q, h)" hp_reclaimer r] ms_resume(2) [of "(q, h)" hp_reclaimer r] by (simp add: p In_queue)
  qed (use assms in \<open>auto simp: p l domain_leaves\<close>)
qed

lemma client_call_counts:
  assumes "client_call t x p = Some (p', es)" "client_calls y = Some x"
  shows "fst p' \<noteq> In_queue Idle \<and> client_enqueues (fst p') = (\<exists>v. y = Put v) \<and> client_leaves (fst p') = (y = Leave) \<and>
    begun (queue_events es) = (case y of Put v \<Rightarrow> 1 | _ \<Rightarrow> 0) \<and> elements_received (queue_events es) = 0"
proof (cases y)
  case Leave
  have "client_leaves (fst (leave_thread h))" for h :: tl_cache unfolding leave_thread_def by (rule domain_leaves)
  moreover have "\<not> client_enqueues q \<and> q \<noteq> In_queue Idle" if "client_leaves q" for q :: "'a client_pc"
    using that by (cases q) simp_all
  ultimately show ?thesis
    using assms Leave by (cases "(t, x, p)" rule: client_call.cases) (auto simp: queue_events_def no_events)
next
  case (Put v)
  then obtain q h q' es' where c: "p = (In_queue q, h)" "queue_call t (Enqueue v) (q, h) = Some (q', es')"
      "p' = map_prod In_queue id q'" "es = map Queue_event es'"
    using assms by (cases "(t, x, p)" rule: client_call.cases) (auto simp del: queue_call.simps)
  then show ?thesis using ms_call_counts [OF c(2)] Put by (cases q') simp
next
  case Take
  then obtain q h q' es' where c: "p = (In_queue q, h)" "queue_call t Try_dequeue (q, h) = Some (q', es')"
      "p' = map_prod In_queue id q'" "es = map Queue_event es'"
    using assms by (cases "(t, x, p)" rule: client_call.cases) (auto simp del: queue_call.simps)
  then show ?thesis using ms_call_counts [OF c(2)] Take by (cases q') simp
qed

lemma queue_events_none: "queue_events [] = []"
  by (simp add: queue_events_def)

lemma event_counts: "begun (map event_of tr) = begun tr" "elements_received (map event_of tr) = elements_received tr"
proof -
  have e: "begins_enqueue (event_of e) = begins_enqueue e" "returns_element (event_of e) = returns_element e" for e :: "'a event"
    by (cases e rule: begins_enqueue.cases; simp; fail | cases e rule: returns_element.cases; simp)+
  show "begun (map event_of tr) = begun tr" "elements_received (map event_of tr) = elements_received tr"
    by (simp_all add: begun_def elements_received_def filter_map comp_def e)
qed

lemma hp_conserve:
  fixes s :: "'a hp_state"
  assumes "reach (hp_queue shipped) (hp_queue_start dflt a) s" "unasked (trace s)"
  shows "elements_received (queue_events (trace s)) \<le> begun (queue_events (trace s))"
proof -
  obtain sl A where cr: "safe_inv dflt (name a 1) s sl A" using safe_inv_reach [OF assms] by blast
  note C = safe_invD [OF cr]
  show ?thesis
    unfolding mimicsD(3) [OF C(3)] event_counts by (rule ms_conserve [OF leaky_reach_inv [OF C(2)]])
qed

interpretation hp_bench: bench_queue bench_hp "hp_queue_start dflt a"
    "\<lambda>s. reach (hp_queue shipped) (hp_queue_start dflt a) s \<and> unasked (trace s)"
    client_answer "\<lambda>p. client_enqueues (fst p)" "\<lambda>p. client_leaves (fst p)"
    "\<lambda>tr. begun (queue_events tr)" "\<lambda>tr. elements_received (queue_events tr)" for dflt :: "64 word" and a :: nat
proof (intro bench_queue.intro hp_safe bench_queue_axioms.intro, goal_cases)
  case (6 p x t)
  then show ?case by (cases x; cases p) (auto simp: bench_hp_parts)
next
  case (7 t x p p' es)
  then show ?case using client_call_counts [of t _ p p' es x]
    by (auto simp: bench_hp_parts split: option.splits)
next
  case (10 p)
  then show ?case by (cases p rule: client_answer.cases) (auto simp: bench_hp_parts elim: ms_answer.elims)
next
  case (11 p r)
  then show ?case using client_stays(1) [of p r] by (simp add: bench_hp_parts)
next
  case (12 p r)
  then show ?case using client_stays(2) [of p r] by (simp add: bench_hp_parts)
next
  case (13 p y)
  then show ?case by (cases p rule: client_answer.cases) (auto elim!: ms_answer.elims)
next
  case (14 p)
  then show ?case by (cases p rule: client_answer.cases) auto
next
  case (15 s)
  then show ?case by (auto intro: hp_conserve)
qed (simp_all add: bench_hp_parts hp_start_thr no_events client_log_counts queue_events_none)

end
