(* ===== verification/Bench_Trials_Props.thy ===== *)
theory Bench_Trials_Props imports Bench_Queues begin

text \<open>
  The properties of the benchmark's trials, over the three queues of the repository, with
  concrete trials.  A trial starts with the globals of the hazard-pointer domain as the program
  initialises them, as the first trial of a process does.
\<close>

section \<open>Concrete trials\<close>

definition tick :: "nat \<Rightarrow> nat \<Rightarrow> tick" where
  "tick t k = (t, k, True, 1)"

definition quad_core :: host where
  "quad_core = \<lparr>linux = True, concurrency = 4, rounding = (\<lambda>x. x)\<rparr>"

text \<open>One thread enqueues one element; the driver is thread 1.\<close>

definition line_run :: "tick list" where
  "line_run = map (tick 1) [0, 0, 0] @ map (tick 0) [0, 0] @ map (tick 1) [2, 0, 0] @ map (tick 0) [2]"

definition enq_run :: "tick list" where
  "enq_run = line_run @ map (tick 0) [0, 0, 0, 1, 0, 0, 0, 0, 0, 0, 0, 0] @ map (tick 1) [0, 0, 0, 1, 0, 0]"

text \<open>One producer, three consumers, two elements: thread 1 takes both.\<close>

definition greedy_run :: "tick list" where
  "greedy_run =
     map (tick 4) [0, 0, 0, 0, 0, 0] @ concat (map (\<lambda>t. map (tick t) [0, 0]) [0, 1, 2, 3]) @
     map (tick 4) [5, 0, 0] @ map (tick 0) [2, 0] @ map (tick 1) [2, 0] @
     map (tick 0) (concat (map (\<lambda>l. [0, 0, l, 0, 0, 0, 0, 0]) [1, 3])) @
     map (tick 1) (concat (map (\<lambda>x. [0, fst x, 0, snd x, 0, 0, 0, 0, 0, 0, 0, 0]) [(1, 5), (2, 7)]))"

fun finished :: "'q trial_state verdict \<Rightarrow> (nat \<times> trial_result) option" where
  "finished (Crashed e) = None"
| "finished (Running S) = (case driver S of Reported r \<Rightarrow> Some (clock S, r) | _ \<Rightarrow> None)"

text \<open>The driver, the workers and their vectors at the end of a run.\<close>

fun standing :: "'q trial_state verdict \<Rightarrow> (driver \<times> (nat \<Rightarrow> worker) \<times> (nat \<Rightarrow> worker_out)) option" where
  "standing (Crashed e) = None"
| "standing (Running S) = Some (driver S, workers S, outputs S)"

fun worker_of :: "nat \<Rightarrow> (driver \<times> (nat \<Rightarrow> worker) \<times> (nat \<Rightarrow> worker_out)) option \<Rightarrow> (worker \<times> nat \<times> nat) option" where
  "worker_of t None = None"
| "worker_of t (Some (d, w, out)) = Some (w t, length (deq_ns (out t)), deq_reserved (out t))"

lemma enq_observed:
  "map_option (\<lambda>x. (fst x, ops_total (snd x), all_enq_ns (snd x)))
     (finished (trial_run quad_core bench_mutex mutex_answer (Enq 1 1) enq_run (trial_start (Enq 1 1) mutex_start))) =
   Some (27, 1, [7])"
  by code_simp

lemma line_observed:
  "worker_of 0 (standing (trial_run quad_core bench_leaky ms_answer (Enq 1 1) line_run
     (trial_start (Enq 1 1) (leaky_start_state 0 7)))) = Some (Reserving, 0, 0)"
  by code_simp

lemma greedy_observed:
  "worker_of 1 (standing (trial_run quad_core bench_mutex mutex_answer (Pc 1 3 2) greedy_run
     (trial_start (Pc 1 3 2) mutex_start))) = Some (Body C_next, 2, 1)"
  by code_simp

text \<open>Where \<^verbatim>\<open>hardware_concurrency()\<close> returns zero, which the standard allows, the first
  worker of a trial divides by it.\<close>

lemma pinning_divides:
  "trial_run (quad_core\<lparr>concurrency := 0\<rparr>) bench_mutex mutex_answer (Enq 1 1) (map (tick 1) [0, 0] @ [tick 0 0])
     (trial_start (Enq 1 1) mutex_start) = Crashed Zero_division"
proof -
  have "crash_of (trial_run (quad_core\<lparr>concurrency := 0\<rparr>) bench_mutex mutex_answer (Enq 1 1)
      (map (tick 1) [0, 0] @ [tick 0 0]) (trial_start (Enq 1 1) mutex_start)) = Some Zero_division"
    by code_simp
  then show ?thesis by (rule crash_of_Some)
qed

text \<open>A run of a trial over queue \<open>Q\<close>, started in state \<open>q\<close>, that reports \<open>r\<close> with
  the clock at \<open>c\<close>.\<close>

definition reports :: "host \<Rightarrow> ('l, 'v, 'p, 'e) bench_program \<Rightarrow> ('p \<Rightarrow> 64 word ret option) \<Rightarrow> ('l, 'v, 'p, 'e) state
    \<Rightarrow> trial \<Rightarrow> nat \<Rightarrow> trial_result \<Rightarrow> bool" where
  "reports H Q ans q T c r \<longleftrightarrow>
     (\<exists>xs S. trial_run H Q ans T xs (trial_start T q) = Running S \<and> driver S = Reported r \<and> clock S = c)"

lemma finished_reports: "finished (trial_run H Q ans T xs (trial_start T q)) = Some (c, r) \<Longrightarrow> reports H Q ans q T c r"
  by (cases "trial_run H Q ans T xs (trial_start T q)") (auto simp: reports_def split: driver.splits)

lemma enq_reports:
  obtains r where "reports quad_core bench_mutex mutex_answer mutex_start (Enq 1 1) 27 r" "ops_total r = 1" "all_enq_ns r = [7]"
  using enq_observed that finished_reports [of quad_core bench_mutex mutex_answer "Enq 1 1" enq_run mutex_start 27]
  by (auto simp: map_option_case split: option.splits)

lemma standing_eq: "Some (d, w, out) = standing v \<Longrightarrow> \<exists>S. v = Running S \<and> d = driver S \<and> w = workers S \<and> out = outputs S"
  by (cases v) auto

lemma to_seconds_mono:
  assumes "double_rounding rnd" "x \<le> y"
  shows "to_seconds rnd x \<le> to_seconds rnd y"
proof -
  have "0 \<le> rnd (1 / 10 ^ 9)" using rounding_mono [OF assms(1), of 0 "1 / 10 ^ 9"] rounding_nat [OF assms(1), of 0] by simp
  moreover have "rnd (real (unat x)) \<le> rnd (real (unat y))"
    by (rule rounding_mono [OF assms(1)]) (use assms(2) in \<open>simp only: word_le_nat_alt of_nat_le_iff\<close>)
  ultimately show ?thesis unfolding to_seconds_def by (intro rounding_mono [OF assms(1), of "_ * _"] mult_right_mono)
qed

section \<open>The properties\<close>



text \<open>
  C36.  The start line, for trials of fewer than \<open>2\<^sup>3\<^sup>1\<close> threads over any of the three queues: while
  a thread is past the barrier, reserving its vectors or running its body, the driver has read its
  clock and released the barrier, and every thread has arrived, although the arrivals are counted
  with relaxed accesses.  (The driver compares the count with the number of threads as signed
  integers of 32 bits.)
\<close>

theorem start_line_held:
  assumes "Some (d, w, out) \<in>
      {standing (trial_run H bench_leaky ms_answer T xs (trial_start T (leaky_start_state dflt a))),
       standing (trial_run H bench_hp client_answer T xs (trial_start T (hp_queue_start dflt a))),
       standing (trial_run H bench_mutex mutex_answer T xs (trial_start T mutex_start))}"
    and "size_of T < 2 ^ 31" and "past_line (w t)"
  shows "opened d \<and> (\<forall>u < size_of T. has_arrived (w u))"
  using assms leaky_bench.start_line [of H T xs dflt a] hp_bench.start_line [of H T xs dflt a]
    mutex_bench.start_line [of H T xs]
  by (auto dest!: standing_eq)

theorem start_line_held_witness:
  "\<exists>d w out. w 0 = Reserving \<and> opened d \<and>
     standing (trial_run quad_core bench_leaky ms_answer (Enq 1 1) line_run (trial_start (Enq 1 1) (leaky_start_state 0 7))) =
       Some (d, w, out)"
proof -
  let ?v = "standing (trial_run quad_core bench_leaky ms_answer (Enq 1 1) line_run (trial_start (Enq 1 1) (leaky_start_state 0 7)))"
  obtain d w out where v: "?v = Some (d, w, out)" "w 0 = Reserving"
    using line_observed by (cases "(0 :: nat, ?v)" rule: worker_of.cases) auto
  have "size_of (Enq 1 1) < 2 ^ 31" by (simp add: size_of_def)
  then have "opened d" using start_line_held [of d w out quad_core "Enq 1 1" line_run 0 7 0] v by simp
  then show ?thesis using v by blast
qed

text \<open>
  C37.  A trial that ends, over any of the three queues, reports one latency sample for each
  enqueue and one for each dequeue it was configured to make, and \<^verbatim>\<open>ops_total\<close> is their number:
  in particular the consumers of the pc and deq workloads, which stop on a relaxed counter,
  together dequeue exactly as many elements as were enqueued.  The products must not wrap and,
  for the pc workload, there must be a consumer (\<open>sized T\<close>).
\<close>

theorem trial_counts:
  assumes "sized T"
    and "reports H bench_leaky ms_answer (leaky_start_state dflt a) T c r \<or>
      reports H bench_hp client_answer (hp_queue_start dflt a) T c r \<or>
      reports H bench_mutex mutex_answer mutex_start T c r"
  shows "length (all_enq_ns r) = enq_count T \<and> length (all_deq_ns r) = deq_count T \<and>
    unat (ops_total r) = enq_count T + deq_count T"
  using assms leaky_bench.reported_counts [of H T _ dflt a _ r] hp_bench.reported_counts [of H T _ dflt a _ r]
    mutex_bench.reported_counts [of H T _ _ r]
  unfolding reports_def by blast

theorem trial_counts_witness:
  "\<exists>r. reports quad_core bench_mutex mutex_answer mutex_start (Enq 1 1) 27 r \<and>
     length (all_enq_ns r) = 1 \<and> all_deq_ns r = []"
proof -
  obtain r where r: "reports quad_core bench_mutex mutex_answer mutex_start (Enq 1 1) 27 r" by (rule enq_reports)
  then show ?thesis using trial_counts [of "Enq 1 1" quad_core _ _ 27 r] by auto
qed

text \<open>
  C38.  The time \<^verbatim>\<open>seconds\<close> that a trial over any of the three queues reports is the double
  \<^verbatim>\<open>d * 1e-9\<close> of a number of nanoseconds \<open>d\<close> that no latency sample exceeds, and no sample,
  made into seconds in the same way, exceeds \<^verbatim>\<open>seconds\<close>: as long as the nanoseconds of the clock
  fit 64 bits, and for any rounding of doubles that is monotonic.
\<close>

theorem trial_latencies:
  assumes "reports H bench_leaky ms_answer (leaky_start_state dflt a) T c r \<or>
      reports H bench_hp client_answer (hp_queue_start dflt a) T c r \<or>
      reports H bench_mutex mutex_answer mutex_start T c r"
    and "c < 2 ^ 64" and "double_rounding (rounding H)"
  shows "\<exists>d. seconds r = to_seconds (rounding H) d \<and>
    (\<forall>x \<in> set (all_enq_ns r) \<union> set (all_deq_ns r). x \<le> d \<and> to_seconds (rounding H) x \<le> seconds r)"
proof -
  obtain d where "seconds r = to_seconds (rounding H) d" "\<forall>x \<in> set (all_enq_ns r) \<union> set (all_deq_ns r). x \<le> d"
    using assms(1,2) leaky_bench.reported_latencies [of H T _ dflt a _ r] hp_bench.reported_latencies [of H T _ dflt a _ r]
      mutex_bench.reported_latencies [of H T _ _ r]
    unfolding reports_def by blast
  then show ?thesis using to_seconds_mono [OF assms(3)] by auto
qed

theorem trial_latencies_witness:
  "\<exists>r d. reports quad_core bench_mutex mutex_answer mutex_start (Enq 1 1) 27 r \<and>
     seconds r = real (unat (d :: 64 word)) / 10 ^ 9 \<and> 7 \<le> d"
proof -
  obtain r where r: "reports quad_core bench_mutex mutex_answer mutex_start (Enq 1 1) 27 r" "all_enq_ns r = [7]"
    by (rule enq_reports)
  have "double_rounding (rounding quad_core)" by (simp add: quad_core_def id_rounding)
  then obtain d where "seconds r = to_seconds (rounding quad_core) d" "7 \<le> d"
    using trial_latencies [of quad_core _ _ "Enq 1 1" 27 r] r by auto
  then show ?thesis using r(1) by (intro exI [of _ r] exI [of _ d]) (simp add: to_seconds_def quad_core_def)
qed

text \<open>
  C39.  The vectors of a thread that enqueues, and both vectors of a thread of the pairs workload,
  never grow past what the thread reserved for them, over any of the three queues, so its pushes
  never allocate while it measures.
\<close>

theorem latencies_reserved:
  assumes "Some (d, w, out) \<in>
      {standing (trial_run H bench_leaky ms_answer T xs (trial_start T (leaky_start_state dflt a))),
       standing (trial_run H bench_hp client_answer T xs (trial_start T (hp_queue_start dflt a))),
       standing (trial_run H bench_mutex mutex_answer T xs (trial_start T mutex_start))}"
    and "t < size_of T" and "\<not> consumer T t"
  shows "length (enq_ns (out t)) \<le> enq_reserved (out t) \<and> length (deq_ns (out t)) \<le> deq_reserved (out t)"
  using assms leaky_bench.producers_fit [of H T xs dflt a] hp_bench.producers_fit [of H T xs dflt a]
    mutex_bench.producers_fit [of H T xs]
  by (auto dest!: standing_eq)

theorem latencies_reserved_witness:
  "\<exists>d w out. standing (trial_run quad_core bench_leaky ms_answer (Enq 1 1) line_run
       (trial_start (Enq 1 1) (leaky_start_state 0 7))) = Some (d, w, out) \<and>
     length (enq_ns (out 0)) \<le> enq_reserved (out 0)"
proof -
  let ?v = "standing (trial_run quad_core bench_leaky ms_answer (Enq 1 1) line_run (trial_start (Enq 1 1) (leaky_start_state 0 7)))"
  obtain d w out where v: "?v = Some (d, w, out)"
    using line_observed by (cases "(0 :: nat, ?v)" rule: worker_of.cases) auto
  have "0 < size_of (Enq 1 1)" "\<not> consumer (Enq 1 1) 0" by (simp_all add: size_of_def role)
  then show ?thesis using latencies_reserved [of d w out quad_core "Enq 1 1" line_run 0 7 0] v by auto
qed

text \<open>
  C40.  A consumer reserves \<^verbatim>\<open>total / consumers + 1\<close> samples, its fair share, but the queue
  does not share fairly: with one producer, three consumers and two elements a consumer that is
  fast enough records two samples in a vector reserved for one, and allocates while it measures.
\<close>

theorem consumer_outgrows_reserve:
  "\<exists>xs S. trial_run quad_core bench_mutex mutex_answer (Pc 1 3 2) xs (trial_start (Pc 1 3 2) mutex_start) = Running S \<and>
     deq_reserved (outputs S 1) < length (deq_ns (outputs S 1))"
proof -
  obtain S where "trial_run quad_core bench_mutex mutex_answer (Pc 1 3 2) greedy_run (trial_start (Pc 1 3 2) mutex_start) = Running S"
      "length (deq_ns (outputs S 1)) = 2" "deq_reserved (outputs S 1) = 1"
    using greedy_observed
    by (cases "trial_run quad_core bench_mutex mutex_answer (Pc 1 3 2) greedy_run (trial_start (Pc 1 3 2) mutex_start)") auto
  then show ?thesis by (intro exI [of _ greedy_run] exI [of _ S]) simp
qed

end
