(* ===== verification/Spec2Isabelle.thy ===== *)
theory Spec2Isabelle imports Model_Check Ms_Queue_Progress Mutex_Queue_Safe Hp_Records Hp_Scan
  Hp_Typed Hp_Queue_Props Hp_Bound Inject Layout Bench_Plan Bench_Trials_Props begin

text \<open>
  A verification library for a lock-free multi-producer multi-consumer queue: the Michael-Scott
  queue (\<^verbatim>\<open>include/lfq/ms_queue.hpp\<close>), its hazard-pointer reclamation
  (\<^verbatim>\<open>include/lfq/hazard_pointer.hpp\<close>), the mutex queue it is measured against
  (\<^verbatim>\<open>include/lfq/mutex_queue.hpp\<close>), the schedule-fuzzing point and the padding
  constants, the two models the repository checks with an external model checker
  (\<^verbatim>\<open>model/hp_model.hpp\<close>, \<^verbatim>\<open>model/queue_model.hpp\<close>) and the benchmark
  (\<^verbatim>\<open>bench/\<close>).

  \<^bold>\<open>Memory.\<close>  The code is C++20 with relaxed, acquire and release atomics, so it is
  modelled over a weak memory (theories Memory, Memory_Facts): each location has its modification
  order, each message the view its writer released, each thread the view of what it has seen; a
  load returns any message that is not too old, an acquire load imports the message's view,
  \<^verbatim>\<open>seq_cst\<close> fences exchange views with one global view, plain accesses and
  \<^verbatim>\<open>delete\<close> are undefined unless ordered after every other access.  What the hardware and the
  allocator decide (which message, whether a weak compare-exchange fails, which address) is an
  explicit choice of the schedule, so runs compute.  A \<^verbatim>\<open>seq_cst\<close> access has the strength
  of acquire and release only; the code uses it where a single thread constructs the queue.
  Threads and schedules are theory Machine: a program is what each program point accesses and where
  it resumes; \<open>reach\<close> and \<open>run\<close> range over all schedules of any length by any number of
  threads.  Memory_Exec carries runs over to finite tables, so that concrete executions evaluate
  (proved equal to \<open>run\<close>); Memory_Now reads a memory as a heap of newest values.

  \<^bold>\<open>Queue.\<close>  Ms_Queue has one program point per memory access of \<^verbatim>\<open>enqueue\<close>,
  \<^verbatim>\<open>try_dequeue\<close> and \<^verbatim>\<open>empty\<close>, with the orders of the code; the
  \<^verbatim>\<open>Reclaimer\<close> template parameter is a record of functions.  With the leaky reclaimer the
  invariant is in Ms_Queue_Inv (shape of the list, what each view publishes, what each program point
  may rely on), its preservation in Ms_Queue_Frame, Ms_Queue_Loads and Ms_Queue_Safe, and what
  callers get in Ms_Queue_Props: no undefined behaviour, first in first out, each element once,
  producer order, honest empty answers.  Ms_Queue_Progress shows that it is lock-free: a stretch of
  a run without a publication or a return gives no thread more than 28 steps (the bound is the
  longest way through both retry loops with \<^verbatim>\<open>tail_\<close> swung once in between), for steps whose
  loads are timely.  Ms_Queue_Destroy has the destructor (and \<^verbatim>\<open>teardown()\<close>
  of the port), over the facts of Memory_Quiet on when a thread has a memory to itself.

  \<^bold>\<open>Checked models.\<close>  Queue_Model is the port the repository model-checks and shows that each
  of the two orders its negative runs weaken is needed; Queue_Suite has the producers and consumers
  that drive it with their assertions, and Queue_Suite_Safe proves that none fails; Model_Check is
  the driver with its nine runs.  Hp_Model and Hp_Model_Safe are the two-thread protect/scan
  protocol, proved clean for every schedule with both fences and broken without either.

  \<^bold>\<open>Reclamation.\<close>  Hazard_Pointer has the domain (records, protect, set, retire, scan,
  orphans, thread exit) access by access, Hp_Queue the program of threads that use the queue
  through it and call the domain themselves, Hp_Runs concrete executions, Hp_Scan the sequential
  content of a scan and its bounds, Hp_Records the ownership of records, Hp_Typed the types of all
  locations.  Memory_Steps says what one action leaves of a memory and of a property of views, and
  Hp_Steps what a command of this program can do; over them Hp_Lists has the invariant of the record
  list (what each view knows of it, who is alone with a new record), Hp_Slots that of the slots (a
  record is handed over with every store to its slots, and a store reveals its record), and
  Hp_List_Props what follows: no access to a record is undefined, and a scan misses none.

  \<^bold>\<open>The queue with its reclamation.\<close>  \<^verbatim>\<open>ms_queue<T, hp_reclaimer>\<close> is shown to
  refine the queue that never frees a node: Hp_Shadow relates the two memories (a node of the leaky
  queue stands for an address and its how-manieth allocation), Hp_Sim their program points and
  actions, Hp_Mimic their steps.  That the comparison of addresses means what it means for nodes,
  and that nothing freed is accessed, is the invariant of Hp_Inv, of layers that each have a theory:
  Hp_Guard (what a store to a slot does to the scans that come after it), Hp_Orphans (who owns
  which orphan), Hp_Bags and Hp_Items (where the retired nodes are, each in one place, and what its
  holder knows of it), Hp_Nodes (a node of the queue has not been freed), Hp_Spare and Hp_Hazards
  (the nodes a point of the queue uses are shown in a slot that every scan watches), Hp_Cover (a
  scan that frees a node knows of every access to it).  Hp_Safe derives that no step is undefined,
  and Hp_Queue_Props states what the callers get.  Hp_Bound bounds the garbage: outside the domain's
  operations a thread holds fewer retired nodes than the threshold of a scan.  All this is for runs
  in which no thread has called \<^verbatim>\<open>empty()\<close> (\<open>unasked\<close>), which takes no guard: a run that calls
  it while nodes are freed is in Hp_Runs, and ends in a use after free.

  \<^bold>\<open>Contracts.\<close>  Locale \<open>safe_system\<close> (Machine) is an invariant that excludes undefined
  behaviour; \<open>fifo_system\<close> (Fifo) extends it with the order of elements.  The leaky queue, the
  queue with hazard pointers and the mutex queue (Mutex_Queue, Mutex_Queue_Safe) are
  interpretations, and \<open>queues_agree\<close>
  below compares them.

  \<^bold>\<open>Trials.\<close>  Bench_Trials has \<^verbatim>\<open>spin_barrier\<close>, \<^verbatim>\<open>pin_to_core\<close> and
  \<^verbatim>\<open>run_threads\<close> with the four bodies of the benchmark as threads over any queue, the driver
  that starts, releases and joins them and merges their samples, and the clock.  The vectors
  \<^verbatim>\<open>out[t]\<close> are plain objects of a memory, so a worker and the driver race on them unless a join
  orders them (Memory_Plain: an object that belongs to one thread at a time).  The number of cores
  and the rounding of doubles are parameters.  What a trial needs of its queue is locale
  \<open>bench_queue\<close> (Bench_Trials_Inv): a \<open>safe_system\<close> in which calls return and no more comes out
  than goes in, and which threads can leave.  Over it the invariant of a trial is proved in
  Bench_Trials_Inv and Bench_Trials_Safe, and what a trial measures in Bench_Trials_Time;
  Bench_Queues interprets the locale on the three queues of the repository, where a worker that ends
  runs the destructor of its \<^verbatim>\<open>tl_cache\<close> if the queue is the one with hazard pointers, and
  Bench_Trials_Props states the results for all three.

  \<^bold>\<open>The rest.\<close>  Inject is the xorshift of \<^verbatim>\<open>inject.hpp\<close> on 32-bit words, Layout
  the placement of \<^verbatim>\<open>head_\<close> and \<^verbatim>\<open>tail_\<close>, Bench_Stats, Bench_Args,
  Bench_Args_Props and Bench_Plan the statistics, options and rows of the benchmark (doubles as
  reals with a rounding function as argument; 32-bit and 64-bit unsigned arithmetic as words).

  \<^bold>\<open>Not modelled.\<close>  The tests, and the third-party libraries (the model checker and the
  moodycamel queue).  Whether \<^verbatim>\<open>pthread_setaffinity_np\<close> succeeds and what the clock reads are
  choices of the schedule.  Hp_Queue has one queue in the domain, so every retired item is a node
  and its deleter that of \<^verbatim>\<open>hp_reclaimer::retire\<close>; several queues that share the domain are not
  modelled.  A trial starts with the globals of the domain as the program initialises them, as the
  first one of a process does, and ends before the queue is destroyed.  The relaxed stores of
  \<^verbatim>\<open>false\<close> to \<^verbatim>\<open>all_pinned\<close> are exchanges, as theory Bench_Trials explains.  A call of
  \<^verbatim>\<open>empty()\<close> in a quiesced state is not told apart from one that races, and the results on the
  queue with hazard pointers exclude both.
\<close>

section \<open>Plans and trials\<close>

text \<open>The operations a row of the plan announces are those its trial counts.\<close>

lemma planned_ops:
  "ops_total_of (trial_of w n p c k) = Bench_Plan.ops_total w n p k" if "workload_known w"
  using that by (auto simp: trial_of_def Bench_Plan.ops_total_def workload_known_def)

section \<open>The two queues side by side\<close>

text \<open>
  C20.  The lock-free queue and its control group are the same queue: when the same values have
  been put in, in the same order, and equally many taken out, the values taken out are the same,
  in the same order, and so are the values left.
\<close>

theorem queues_agree:
  fixes s :: "'a leaky_state" and m :: "'a mutex_state"
  assumes "reach (leaky_queue shipped) (leaky_start_state dflt a) s" and "reach mutex_queue mutex_start m"
    and "map snd (enqueued (trace s)) = pushed_of (trace m)"
    and "length (dequeued (trace s)) = length (popped_of (trace m))"
  shows "map snd (dequeued (trace s)) = popped_of (trace m) \<and> map snd (elements s) = items_now (mem m)"
proof -
  have "map snd (dequeued (trace s)) @ map snd (elements s) = popped_of (trace m) @ items_now (mem m)"
    using leaky_fifo.reach_fifo [OF assms(1)] mutex.reach_fifo [OF assms(2)] assms(3)
    by (metis map_append)
  then show ?thesis using assms(4) by (simp add: append_eq_append_conv)
qed

theorem queues_agree_witness:
  "\<exists>s m. trace (s :: nat leaky_state) = demo_trace \<and> map snd (dequeued demo_trace) = [42] \<and>
     popped_of (trace (m :: nat mutex_state)) = [42] \<and> map snd (elements s) = items_now (mem m)"
proof -
  obtain s where s: "reach (leaky_queue shipped) (leaky_start_state (0 :: nat) 7) s" "trace s = demo_trace"
    by (rule demo_reached)
  obtain m where m: "reach mutex_queue (mutex_start :: nat mutex_state) m"
    "trace m = [Called 1 (Enqueue 42), Pushed 1 42, Answered 1 Enqueued,
        Called 2 Try_dequeue, Popped 2 42, Answered 2 (Dequeued (Some 42)), Called 2 Is_empty]"
    by (rule mutex_reached)
  have "map snd (dequeued (trace s)) = popped_of (trace m) \<and> map snd (elements s) = items_now (mem m)"
    by (rule queues_agree [OF s(1) m(1)]) (simp_all add: s(2) m(2) demo_trace_def)
  then show ?thesis using s(2) m(2) by (intro exI [of _ s] exI [of _ m]) (simp add: demo_trace_def)
qed

end
